(* ===== verification/Prelude.thy ===== *)
theory Prelude imports Main "HOL-Library.Word" "HOL-Library.List_Lexorder" "HOL-Library.Char_ord" "HOL-Library.Monad_Syntax" begin

text \<open>
  Shared vocabulary of the development: the types that stand for Go's machine types, the option
  and sum conventions for panics and errors, and the generic lemmas on lists and maps that several
  components use.

  Conventions. A Go \<^verbatim>\<open>string\<close> is a byte string, so it is HOL's \<^typ>\<open>string\<close> (a list of 8-bit
  characters, ordered bytewise). A \<^verbatim>\<open>[]byte\<close> is a list of \<open>8 word\<close>. \<^verbatim>\<open>uint32\<close> and \<^verbatim>\<open>uint64\<close> values
  are words where wrap-around can be observed. \<^verbatim>\<open>int\<close> lengths are \<^typ>\<open>nat\<close> when they come from
  \<^verbatim>\<open>len\<close>, \<^typ>\<open>int\<close> otherwise. \<^const>\<open>None\<close> as the result of an operation that returns a state
  is a Go panic (nil dereference, slice bounds); an error return is an \<^const>\<open>Inl\<close>.
\<close>

section \<open>Types\<close>

type_synonym byte = "8 word"
type_synonym bytes = "8 word list"
type_synonym u32 = "32 word"
type_synonym u64 = "64 word"
type_synonym time = int
  \<comment> \<open>nanoseconds; Go's \<^verbatim>\<open>time.Time\<close> and \<^verbatim>\<open>time.Duration\<close> are compared, added and subtracted\<close>

text \<open>The collections that carry the component proofs.\<close>

named_theorems go_defs \<open>definitions of operations, unfolded together\<close>
named_theorems inv_defs \<open>definitions of invariants\<close>
named_theorems inv_intros \<open>preservation lemmas of operations\<close>

section \<open>Machine integers\<close>

text \<open>The value of an \<^verbatim>\<open>int64\<close> (or an \<^verbatim>\<open>int\<close>) after an operation that wraps around.\<close>

definition i64 :: "int \<Rightarrow> int" where
  "i64 x = signed_take_bit 63 x"

lemma i64_id: "- (2 ^ 63) \<le> x \<Longrightarrow> x < 2 ^ 63 \<Longrightarrow> i64 x = x"
  unfolding i64_def by (intro signed_take_bit_int_eq_self) simp_all

lemma i64_over: "2 ^ 63 \<le> x \<Longrightarrow> x < 2 ^ 64 \<Longrightarrow> i64 x = x - 2 ^ 64"
proof -
  assume x: "2 ^ 63 \<le> x" "x < 2 ^ 64"
  have "i64 x = i64 (x - 2 ^ 64)"
    unfolding i64_def signed_take_bit_eq_iff_take_bit_eq by (simp add: take_bit_eq_mod)
  then show ?thesis using x by (simp add: i64_id)
qed

section \<open>Lists\<close>

lemma concat_map_eq_Nil: "(\<And>x. x \<in> set xs \<Longrightarrow> f x = []) \<Longrightarrow> concat (map f xs) = []"
  by (induction xs) auto

lemma take_drop_split: "m \<le> n \<Longrightarrow> take (n - m) (drop m xs) @ drop n xs = drop m xs"
  by (metis append_take_drop_id drop_drop le_add_diff_inverse2)

end
