(* ===== verification/Blist.thy ===== *)
theory Blist imports Prelude begin

text \<open>
  The circular doubly linked list of \<^verbatim>\<open>proxy/nasshp/window.go\<close> (\<^verbatim>\<open>blist\<close>, \<^verbatim>\<open>buffer\<close>) at the level
  of pointers, and its refinement to lists.

  A heap maps addresses to nodes. A node is a \<^verbatim>\<open>buffer\<close> (its payload) extended with the two link
  fields. Go's \<^verbatim>\<open>nil\<close> is \<^const>\<open>None\<close> in a link; dereferencing it makes the whole operation
  \<^const>\<open>None\<close> (a panic). The list is its own sentinel node: \<open>dll h s xs\<close> says that the list whose
  sentinel is at address \<open>s\<close> links exactly the nodes \<open>xs\<close>, in that order, in both directions.
  Each operation is shown to be total on such a list and to implement the list operation that the
  window algorithms (theory Windows) use; the payloads are never touched by the links.
\<close>

section \<open>Buffers and nodes\<close>

text \<open>
  \<^verbatim>\<open>buffer.data\<close> is a slice: a backing array and a length. The capacity is the length of the
  array. Bytes beyond the length are the free space handed out by \<^verbatim>\<open>ToFill\<close>.
\<close>

record buffer =
  barray :: bytes
  blen :: nat
  offset :: nat
  acknowledged :: nat

type_synonym addr = nat

record bnode = buffer +
  prev :: "addr option"
  next_node :: "addr option"

type_synonym bheap = "addr \<rightharpoonup> bnode"

text \<open>The bytes in use, \<^verbatim>\<open>data[0:len(data)]\<close>.\<close>

definition bdata :: "('a) buffer_scheme \<Rightarrow> bytes" where
  "bdata b = take (blen b) (barray b)"

definition bcap :: "('a) buffer_scheme \<Rightarrow> nat" where
  "bcap b = length (barray b)"

text \<open>Reading and writing the links through a pointer; a nil or dangling pointer panics.\<close>

definition get_next :: "bheap \<Rightarrow> addr option \<Rightarrow> addr option option" where
  "get_next h p = (case p of None \<Rightarrow> None | Some a \<Rightarrow> map_option next_node (h a))"

definition get_prev :: "bheap \<Rightarrow> addr option \<Rightarrow> addr option option" where
  "get_prev h p = (case p of None \<Rightarrow> None | Some a \<Rightarrow> map_option prev (h a))"

definition set_next :: "bheap \<Rightarrow> addr option \<Rightarrow> addr option \<Rightarrow> bheap option" where
  "set_next h p q = (case p of None \<Rightarrow> None
     | Some a \<Rightarrow> map_option (\<lambda>n. h(a \<mapsto> n\<lparr>next_node := q\<rparr>)) (h a))"

definition set_prev :: "bheap \<Rightarrow> addr option \<Rightarrow> addr option \<Rightarrow> bheap option" where
  "set_prev h p q = (case p of None \<Rightarrow> None
     | Some a \<Rightarrow> map_option (\<lambda>n. h(a \<mapsto> n\<lparr>prev := q\<rparr>)) (h a))"

lemmas link_defs = get_next_def get_prev_def set_next_def set_prev_def

section \<open>The operations, statement by statement\<close>

definition blist_Init :: "bheap \<Rightarrow> addr \<Rightarrow> bheap option" where
  "blist_Init h bl = do {
     h1 \<leftarrow> set_next h (Some bl) (Some bl);
     set_prev h1 (Some bl) (Some bl)
   }"

definition NewBList :: "bheap \<Rightarrow> addr \<Rightarrow> bheap option" where
  "NewBList h fresh =
     blist_Init (h(fresh \<mapsto> \<lparr>barray = [], blen = 0, offset = 0, acknowledged = 0, prev = None, next_node = None\<rparr>)) fresh"

definition blist_First :: "bheap \<Rightarrow> addr \<Rightarrow> addr option option" where
  "blist_First h bl = get_next h (Some bl)"

definition blist_Last :: "bheap \<Rightarrow> addr \<Rightarrow> addr option option" where
  "blist_Last h bl = get_prev h (Some bl)"

definition blist_End :: "addr \<Rightarrow> addr" where
  "blist_End bl = bl"

definition blist_InsertAfter :: "bheap \<Rightarrow> addr option \<Rightarrow> addr \<Rightarrow> bheap option" where
  "blist_InsertAfter h whr what = do {
     h1 \<leftarrow> set_prev h (Some what) whr;
     wn \<leftarrow> get_next h1 whr;
     h2 \<leftarrow> set_next h1 (Some what) wn;
     wn' \<leftarrow> get_next h2 whr;
     h3 \<leftarrow> set_prev h2 wn' (Some what);
     set_next h3 whr (Some what)
   }"

definition blist_Append :: "bheap \<Rightarrow> addr \<Rightarrow> addr \<Rightarrow> bheap option" where
  "blist_Append h bl toadd = do {
     last \<leftarrow> blist_Last h bl;
     blist_InsertAfter h last toadd
   }"

text \<open>The parallel assignment reads both right-hand sides and both targets before it writes.\<close>

definition blist_Drop :: "bheap \<Rightarrow> addr \<Rightarrow> bheap option" where
  "blist_Drop h todrop = do {
     p \<leftarrow> get_prev h (Some todrop);
     n \<leftarrow> get_next h (Some todrop);
     h1 \<leftarrow> set_next h p n;
     set_prev h1 n p
   }"

definition blist_InsertListBefore :: "bheap \<Rightarrow> addr option \<Rightarrow> addr \<Rightarrow> bheap option" where
  "blist_InsertListBefore h whr list = do {
     first \<leftarrow> blist_First h list;
     wp \<leftarrow> get_prev h whr;
     h1 \<leftarrow> set_next h wp first;
     wp' \<leftarrow> get_prev h1 whr;
     h2 \<leftarrow> set_prev h1 first wp';
     last \<leftarrow> blist_Last h2 list;
     h3 \<leftarrow> set_prev h2 whr last;
     h4 \<leftarrow> set_next h3 last whr;
     blist_Init h4 list
   }"

text \<open>
  \<^verbatim>\<open>Iterate\<close> runs a callback on each node and reads the node's \<^verbatim>\<open>next\<close> only after the callback
  returned. The callback may change the heap (the callbacks of \<^verbatim>\<open>Drop\<close> do), so the loop has
  fuel; running out is distinguished from a panic by the outer option.
\<close>

fun blist_Iterate :: "nat \<Rightarrow> (bheap \<Rightarrow> addr \<Rightarrow> 's \<Rightarrow> (bheap \<times> 's) option) \<Rightarrow> addr \<Rightarrow> addr option \<Rightarrow>
    bheap \<Rightarrow> 's \<Rightarrow> (bheap \<times> 's) option option" where
  "blist_Iterate 0 f bl cursor h st = None"
| "blist_Iterate (Suc fuel) f bl cursor h st =
    (case cursor of
       None \<Rightarrow> Some (Some (h, st))
     | Some c \<Rightarrow>
         if c = blist_End bl then Some (Some (h, st))
         else (case f h c st of
             None \<Rightarrow> Some None
           | Some (h', st') \<Rightarrow>
               (case get_next h' cursor of
                  None \<Rightarrow> Some None
                | Some nxt \<Rightarrow> blist_Iterate fuel f bl nxt h' st')))"

section \<open>The abstraction to lists\<close>

text \<open>The two link functions of a heap, its payloads, and a doubly linked run of nodes.\<close>

definition nexts :: "bheap \<Rightarrow> addr \<Rightarrow> addr option" where
  "nexts h a = (case h a of None \<Rightarrow> None | Some n \<Rightarrow> next_node n)"

definition prevs :: "bheap \<Rightarrow> addr \<Rightarrow> addr option" where
  "prevs h a = (case h a of None \<Rightarrow> None | Some n \<Rightarrow> prev n)"

definition payload :: "bheap \<Rightarrow> addr \<Rightarrow> buffer option" where
  "payload h a = map_option buffer.truncate (h a)"

fun linked :: "(addr \<Rightarrow> addr option) \<Rightarrow> (addr \<Rightarrow> addr option) \<Rightarrow> addr list \<Rightarrow> bool" where
  "linked N P (u # v # r) \<longleftrightarrow> N u = Some v \<and> P v = Some u \<and> linked N P (v # r)"
| "linked N P _ \<longleftrightarrow> True"

definition dll :: "bheap \<Rightarrow> addr \<Rightarrow> addr list \<Rightarrow> bool" where
  "dll h s xs \<longleftrightarrow> distinct (s # xs) \<and> set (s # xs) \<subseteq> dom h
     \<and> linked (nexts h) (prevs h) (s # xs @ [s])"

text \<open>What the list holds: the payloads of its nodes, in order.\<close>

definition contents :: "bheap \<Rightarrow> addr list \<Rightarrow> buffer option list" where
  "contents h xs = map (payload h) xs"

lemma linked_append: "linked N P (xs @ y # ys) \<longleftrightarrow> linked N P (xs @ [y]) \<and> linked N P (y # ys)"
  by (induction N P xs rule: linked.induct) auto

lemma linked_join:
  "xs \<noteq> [] \<Longrightarrow> ys \<noteq> [] \<Longrightarrow> linked N P (xs @ ys) \<longleftrightarrow>
     linked N P xs \<and> N (last xs) = Some (hd ys) \<and> P (hd ys) = Some (last xs) \<and> linked N P ys"
  by (induction N P xs rule: linked.induct) (auto simp: neq_Nil_conv)

lemma in_set_tlD: "x \<in> set (tl xs) \<Longrightarrow> x \<in> set xs"
  by (cases xs) auto

lemma linked_upd_next: "z \<notin> set (butlast xs) \<Longrightarrow> linked (N(z := q)) P xs = linked N P xs"
  by (induction N P xs rule: linked.induct) auto

lemma linked_upd_prev: "z \<notin> set (tl xs) \<Longrightarrow> linked N (P(z := q)) xs = linked N P xs"
  by (induction N P xs rule: linked.induct) auto

lemma dom_payload: "dom (payload h) = dom h"
  by (auto simp: payload_def dom_def)

lemma payload_same_dom: "payload h' = payload h \<Longrightarrow> dom h' = dom h"
  using dom_payload by metis

lemma set_next_some:
  assumes "a \<in> dom h"
  obtains h' where "set_next h (Some a) q = Some h'" "nexts h' = (nexts h)(a := q)"
    "prevs h' = prevs h" "payload h' = payload h" "dom h' = dom h"
proof -
  from assms obtain n where n: "h a = Some n" by auto
  let ?h = "h(a \<mapsto> n\<lparr>next_node := q\<rparr>)"
  have "set_next h (Some a) q = Some ?h" by (simp add: set_next_def n)
  moreover have "nexts ?h = (nexts h)(a := q)" by (auto simp: nexts_def fun_eq_iff)
  moreover have "prevs ?h = prevs h" using n by (auto simp: prevs_def fun_eq_iff)
  moreover have "payload ?h = payload h" using n by (auto simp: payload_def fun_eq_iff buffer.defs)
  moreover have "dom ?h = dom h" using n by auto
  ultimately show thesis by (rule that)
qed

lemma set_prev_some:
  assumes "a \<in> dom h"
  obtains h' where "set_prev h (Some a) q = Some h'" "prevs h' = (prevs h)(a := q)"
    "nexts h' = nexts h" "payload h' = payload h" "dom h' = dom h"
proof -
  from assms obtain n where n: "h a = Some n" by auto
  let ?h = "h(a \<mapsto> n\<lparr>prev := q\<rparr>)"
  have "set_prev h (Some a) q = Some ?h" by (simp add: set_prev_def n)
  moreover have "prevs ?h = (prevs h)(a := q)" by (auto simp: prevs_def fun_eq_iff)
  moreover have "nexts ?h = nexts h" using n by (auto simp: nexts_def fun_eq_iff)
  moreover have "payload ?h = payload h" using n by (auto simp: payload_def fun_eq_iff buffer.defs)
  moreover have "dom ?h = dom h" using n by auto
  ultimately show thesis by (rule that)
qed

lemma get_next_some: "a \<in> dom h \<Longrightarrow> get_next h (Some a) = Some (nexts h a)"
  by (auto simp: get_next_def nexts_def)

lemma get_prev_some: "a \<in> dom h \<Longrightarrow> get_prev h (Some a) = Some (prevs h a)"
  by (auto simp: get_prev_def prevs_def)

text \<open>Where a position in the circle splits the nodes: the node before and the node after.\<close>

lemma dll_split:
  "dll h s (ys @ zs) \<longleftrightarrow> distinct (s # ys @ zs) \<and> set (s # ys @ zs) \<subseteq> dom h
     \<and> linked (nexts h) (prevs h) (s # ys)
     \<and> nexts h (last (s # ys)) = Some (hd (zs @ [s])) \<and> prevs h (hd (zs @ [s])) = Some (last (s # ys))
     \<and> linked (nexts h) (prevs h) (zs @ [s])"
proof -
  obtain p as where p: "s # ys = as @ [p]" by (metis append_butlast_last_id list.distinct(1))
  obtain n bs where n: "zs @ [s] = n # bs" by (cases zs) auto
  have "s # (ys @ zs) @ [s] = as @ p # n # bs" using p n by (metis append_Cons append_assoc append_Nil)
  then have "linked (nexts h) (prevs h) (s # (ys @ zs) @ [s]) \<longleftrightarrow>
      linked (nexts h) (prevs h) (as @ [p]) \<and> nexts h p = Some n \<and> prevs h n = Some p \<and>
      linked (nexts h) (prevs h) (n # bs)"
    by (metis linked_append linked.simps(1))
  moreover have "last (s # ys) = p" "hd (zs @ [s]) = n" using p n by (metis last_snoc, simp)
  ultimately show ?thesis using p n by (auto simp: dll_def)
qed

lemma blist_Init_ok:
  assumes "s \<in> dom h"
  shows "\<exists>h'. blist_Init h s = Some h' \<and> dll h' s [] \<and> payload h' = payload h
    \<and> nexts h' = (nexts h)(s \<mapsto> s) \<and> prevs h' = (prevs h)(s \<mapsto> s)"
proof -
  obtain h1 where h1: "set_next h (Some s) (Some s) = Some h1" "nexts h1 = (nexts h)(s \<mapsto> s)"
      "prevs h1 = prevs h" "payload h1 = payload h" "dom h1 = dom h"
    using set_next_some [OF assms] by metis
  with assms obtain h2 where "set_prev h1 (Some s) (Some s) = Some h2" "prevs h2 = (prevs h1)(s \<mapsto> s)"
      "nexts h2 = nexts h1" "payload h2 = payload h1" "dom h2 = dom h1"
    using set_prev_some [of s h1] by metis
  with h1 assms show ?thesis by (auto simp: blist_Init_def dll_def)
qed

lemma NewBList_ok: "\<exists>h'. NewBList h fresh = Some h' \<and> dll h' fresh []"
proof -
  let ?h = "h(fresh \<mapsto> \<lparr>barray = [], blen = 0, offset = 0, acknowledged = 0, prev = None, next_node = None\<rparr>)"
  have "fresh \<in> dom ?h" by simp
  from blist_Init_ok [OF this] show ?thesis unfolding NewBList_def by blast
qed

lemma blist_First_ok: "dll h s xs \<Longrightarrow> blist_First h s = Some (Some (hd (xs @ [s])))"
  using dll_split [of h s "[]" xs] by (simp add: blist_First_def get_next_some)

lemma blist_Last_ok: "dll h s xs \<Longrightarrow> blist_Last h s = Some (Some (last (s # xs)))"
  using dll_split [of h s xs "[]"] by (simp add: blist_Last_def get_prev_some)

text \<open>The same cut with every membership fact the link updates need.\<close>

lemma linked_cong:
  "\<lbrakk>\<And>u. u \<in> set (butlast xs) \<Longrightarrow> N' u = N u; \<And>u. u \<in> set (tl xs) \<Longrightarrow> P' u = P u\<rbrakk>
    \<Longrightarrow> linked N' P' xs = linked N P xs"
  by (induction N P xs rule: linked.induct) auto

lemma last_notin_butlast: "distinct xs \<Longrightarrow> xs \<noteq> [] \<Longrightarrow> last xs \<notin> set (butlast xs)"
  by (induction xs) auto

lemma hd_notin_tl: "distinct xs \<Longrightarrow> xs \<noteq> [] \<Longrightarrow> hd xs \<notin> set (tl xs)"
  by (cases xs) auto

lemma dll_cut:
  assumes "dll h s (ys @ zs)"
  obtains p n where "p = last (s # ys)" "n = hd (zs @ [s])"
    "nexts h p = Some n" "prevs h n = Some p" "p \<in> dom h" "n \<in> dom h"
    "p \<in> set (s # ys)" "n \<in> set (s # zs)"
    "p \<notin> set (butlast (s # ys))" "n \<notin> set ys" "p \<notin> set zs" "n \<notin> set (tl (zs @ [s]))"
proof (rule that)
  let ?p = "last (s # ys)" and ?n = "hd (zs @ [s])"
  have d: "distinct (s # ys)" "distinct (zs @ [s])" "set ys \<inter> set zs = {}" "s \<notin> set zs"
    and dd: "set ys \<subseteq> dom h" "set zs \<subseteq> dom h" "s \<in> dom h"
    using assms by (auto simp: dll_def)
  show "nexts h ?p = Some ?n" "prevs h ?n = Some ?p" using assms by (simp_all only: dll_split)
  show p: "?p \<in> set (s # ys)" by (rule last_in_set) simp
  show n: "?n \<in> set (s # zs)" by (cases zs) auto
  show "?p \<in> dom h" using p dd by (metis insertE list.simps(15) subsetD)
  show "?n \<in> dom h" using n dd by (metis insertE list.simps(15) subsetD)
  show "?p \<notin> set (butlast (s # ys))" using d(1) by (rule last_notin_butlast) simp
  show "?n \<notin> set (tl (zs @ [s]))" using d(2) by (rule hd_notin_tl) simp
  show "?n \<notin> set ys" using n d by (metis distinct.simps(2) disjoint_iff set_ConsD)
  show "?p \<notin> set zs" using p d by (metis disjoint_iff set_ConsD)
qed (rule refl)+

text \<open>
  \<^verbatim>\<open>InsertAfter\<close> at the node that ends a prefix of the circle puts the new node right after that
  prefix. The new node may hold any link fields (it comes from the pool).
\<close>

theorem blist_InsertAfter_ok:
  assumes d: "dll h s (ys @ zs)" and w: "w \<in> dom h" "w \<notin> set (s # ys @ zs)"
  shows "\<exists>h'. blist_InsertAfter h (Some (last (s # ys))) w = Some h' \<and> dll h' s (ys @ w # zs)
    \<and> payload h' = payload h"
proof -
  obtain p n where c: "p = last (s # ys)" "n = hd (zs @ [s])"
    "nexts h p = Some n" "prevs h n = Some p" "p \<in> dom h" "n \<in> dom h"
    "p \<in> set (s # ys)" "n \<in> set (s # zs)"
    "p \<notin> set (butlast (s # ys))" "n \<notin> set ys" "p \<notin> set zs" "n \<notin> set (tl (zs @ [s]))"
    using dll_cut [OF d] by metis
  have wp: "w \<noteq> p" "w \<noteq> n" using c w by auto
  obtain h1 where h1: "set_prev h (Some w) (Some p) = Some h1" "prevs h1 = (prevs h)(w \<mapsto> p)"
      "nexts h1 = nexts h" "payload h1 = payload h" "dom h1 = dom h"
    using set_prev_some [OF w(1)] by metis
  obtain h2 where h2: "set_next h1 (Some w) (Some n) = Some h2" "nexts h2 = (nexts h1)(w \<mapsto> n)"
      "prevs h2 = prevs h1" "payload h2 = payload h1" "dom h2 = dom h1"
    using set_next_some [of w h1] w(1) h1 by metis
  obtain h3 where h3: "set_prev h2 (Some n) (Some w) = Some h3" "prevs h3 = (prevs h2)(n \<mapsto> w)"
      "nexts h3 = nexts h2" "payload h3 = payload h2" "dom h3 = dom h2"
    using set_prev_some [of n h2] c h1 h2 by metis
  obtain h4 where h4: "set_next h3 (Some p) (Some w) = Some h4" "nexts h4 = (nexts h3)(p \<mapsto> w)"
      "prevs h4 = prevs h3" "payload h4 = payload h3" "dom h4 = dom h3"
    using set_next_some [of p h3] c h1 h2 h3 by metis
  have run: "blist_InsertAfter h (Some p) w = Some h4"
    using h1 h2 h3 h4 c wp by (simp add: blist_InsertAfter_def get_next_some)
  have N: "nexts h4 = (nexts h)(w \<mapsto> n, p \<mapsto> w)" and P: "prevs h4 = (prevs h)(w \<mapsto> p, n \<mapsto> w)"
    using h1 h2 h3 h4 by auto
  have w': "w \<notin> set (butlast (s # ys))" "w \<notin> set ys" "w \<notin> set zs"
      "w \<notin> set (tl (zs @ [s]))"
    using w(2) by (auto dest: in_set_butlastD split: if_splits) (cases zs; auto)+
  have "linked (nexts h4) (prevs h4) (s # ys) = linked (nexts h) (prevs h) (s # ys)"
    using c w' by (intro linked_cong) (auto simp: N P)
  moreover have "linked (nexts h4) (prevs h4) (zs @ [s]) = linked (nexts h) (prevs h) (zs @ [s])"
    using c w' by (intro linked_cong) (auto simp: N P)
  moreover have "linked (nexts h4) (prevs h4) ((w # zs) @ [s])"
    using calculation d c wp by (cases zs) (auto simp: N P dll_split)
  ultimately have "dll h4 s (ys @ w # zs)"
    using d c wp w h1 h2 h3 h4 by (auto simp: dll_split N P)
  with run c h1 h2 h3 h4 show ?thesis by auto
qed

lemma blist_Append_ok:
  assumes "dll h s xs" "w \<in> dom h" "w \<notin> set (s # xs)"
  shows "\<exists>h'. blist_Append h s w = Some h' \<and> dll h' s (xs @ [w]) \<and> payload h' = payload h"
  using blist_InsertAfter_ok [of h s xs "[]" w] assms
  by (simp add: blist_Append_def blist_Last_ok)

text \<open>\<^verbatim>\<open>Drop\<close> unlinks a node and leaves the node's own links alone.\<close>

theorem blist_Drop_ok:
  assumes d: "dll h s (ys @ x # zs)"
  shows "\<exists>h'. blist_Drop h x = Some h' \<and> dll h' s (ys @ zs) \<and> payload h' = payload h"
proof -
  obtain p where c1: "p = last (s # ys)" "nexts h p = Some x" "prevs h x = Some p" "p \<in> dom h"
    "x \<in> dom h" "p \<notin> set (butlast (s # ys))" "p \<notin> set zs" "x \<notin> set ys"
    using dll_cut [OF d] by (metis list.sel(1) append_Cons list.set_intros(2))
  have "dll h s ((ys @ [x]) @ zs)" using d by simp
  then obtain n where c2: "n = hd (zs @ [s])" "nexts h x = Some n" "prevs h n = Some x" "n \<in> dom h"
    "n \<notin> set ys" "n \<notin> set (tl (zs @ [s]))" "x \<notin> set zs"
    using dll_cut [of h s "ys @ [x]" zs] by (metis Un_iff last_snoc append_Cons set_append)
  obtain h1 where h1: "set_next h (Some p) (Some n) = Some h1" "nexts h1 = (nexts h)(p \<mapsto> n)"
      "prevs h1 = prevs h" "payload h1 = payload h" "dom h1 = dom h"
    using set_next_some c1 by metis
  obtain h2 where h2: "set_prev h1 (Some n) (Some p) = Some h2" "prevs h2 = (prevs h1)(n \<mapsto> p)"
      "nexts h2 = nexts h1" "payload h2 = payload h1" "dom h2 = dom h1"
    using set_prev_some c2 h1 by metis
  have run: "blist_Drop h x = Some h2"
    using h1 h2 c1 c2 by (simp add: blist_Drop_def get_next_some get_prev_some)
  have N: "nexts h2 = (nexts h)(p \<mapsto> n)" and P: "prevs h2 = (prevs h)(n \<mapsto> p)"
    using h1 h2 by auto
  have "linked (nexts h2) (prevs h2) (s # ys) = linked (nexts h) (prevs h) (s # ys)"
    using c1 c2 by (intro linked_cong) (auto simp: N P)
  moreover have "linked (nexts h2) (prevs h2) (zs @ [s]) = linked (nexts h) (prevs h) (zs @ [s])"
    using c1 c2 by (intro linked_cong) (auto simp: N P)
  moreover have "linked (nexts h) (prevs h) (zs @ [s])"
    using \<open>dll h s ((ys @ [x]) @ zs)\<close> by (simp only: dll_split)
  ultimately have "dll h2 s (ys @ zs)"
    using d c1 c2 h1 h2 by (auto simp: dll_split N P)
  with run h1 h2 show ?thesis by auto
qed

lemma dll_ends:
  assumes "dll h l xs"
  shows "prevs h l = Some (last (l # xs))" "hd (xs @ [l]) \<in> dom h" "last (l # xs) \<in> dom h"
    "hd (xs @ [l]) \<in> set (l # xs)" "last (l # xs) \<in> set (l # xs)" "l \<in> dom h"
proof -
  have "dll h l ([] @ xs)" "dll h l (xs @ [])" using assms by simp_all
  then show "prevs h l = Some (last (l # xs))" "hd (xs @ [l]) \<in> dom h" "last (l # xs) \<in> dom h"
    "hd (xs @ [l]) \<in> set (l # xs)" "last (l # xs) \<in> set (l # xs)" "l \<in> dom h"
    by (elim dll_cut; simp)+
qed

text \<open>The links inside a part of a list are not those at the cut.\<close>

lemma linked_around:
  assumes d: "dll h s (ys @ zs)"
    and nx: "\<And>u. u \<in> set (s # ys @ zs) \<Longrightarrow> u \<noteq> last (s # ys) \<Longrightarrow> nx u = nexts h u"
    and pv: "\<And>u. u \<in> set (s # ys @ zs) \<Longrightarrow> u \<noteq> hd (zs @ [s]) \<Longrightarrow> pv u = prevs h u"
  shows "linked nx pv (s # ys)" and "linked nx pv (zs @ [s])"
proof -
  obtain p n where c: "p = last (s # ys)" "n = hd (zs @ [s])" "p \<notin> set (butlast (s # ys))" "n \<notin> set ys" "p \<notin> set zs" "n \<notin> set (tl (zs @ [s]))"
    using dll_cut [OF d] by metis
  have l: "linked (nexts h) (prevs h) (s # ys)" "linked (nexts h) (prevs h) (zs @ [s])" using d by (simp_all add: dll_split)
  have "linked nx pv (s # ys) = linked (nexts h) (prevs h) (s # ys)"
  proof (rule linked_cong)
    fix u assume u: "u \<in> set (butlast (s # ys))"
    then have "u \<noteq> last (s # ys)" using c(1,3) by metis
    moreover have "u \<in> set (s # ys @ zs)" using in_set_butlastD [OF u] by auto
    ultimately show "nx u = nexts h u" using nx by blast
  next
    fix u assume "u \<in> set (tl (s # ys))"
    then show "pv u = prevs h u" using pv [of u] c(2,4) by auto
  qed
  then show "linked nx pv (s # ys)" using l by simp
  have "linked nx pv (zs @ [s]) = linked (nexts h) (prevs h) (zs @ [s])"
  proof (rule linked_cong)
    fix u assume "u \<in> set (butlast (zs @ [s]))"
    then show "nx u = nexts h u" using nx [of u] c(1,5) by auto
  next
    fix u assume u: "u \<in> set (tl (zs @ [s]))"
    then have "u \<noteq> hd (zs @ [s])" using c(2,6) by metis
    moreover have "u \<in> set (s # ys @ zs)" using in_set_tlD [OF u] by auto
    ultimately show "pv u = prevs h u" using pv by blast
  qed
  then show "linked nx pv (zs @ [s])" using l by simp
qed

lemma linked_inside:
  assumes "dll h l xs" "xs \<noteq> []"
    and nx: "\<And>u. u \<in> set xs \<Longrightarrow> u \<noteq> last xs \<Longrightarrow> nx u = nexts h u"
    and pv: "\<And>u. u \<in> set xs \<Longrightarrow> u \<noteq> hd xs \<Longrightarrow> pv u = prevs h u"
  shows "linked nx pv xs"
proof -
  have d: "distinct xs" using assms(1) by (auto simp: dll_def)
  have "linked nx pv xs = linked (nexts h) (prevs h) xs"
  proof (rule linked_cong)
    fix u assume u: "u \<in> set (butlast xs)"
    then show "nx u = nexts h u" using nx [of u] last_notin_butlast [OF d assms(2)] in_set_butlastD [OF u] by metis
  next
    fix u assume u: "u \<in> set (tl xs)"
    then show "pv u = prevs h u" using pv [of u] hd_notin_tl [OF d assms(2)] in_set_tlD [OF u] by metis
  qed
  moreover have "linked (nexts h) (prevs h) (xs @ [l])" using assms(1) dll_split [of h l "[]" xs] by simp
  ultimately show ?thesis using linked_join [of xs "[l]"] assms(2) by simp
qed

text \<open>Two lists whose ends are linked are one.\<close>

lemma dll_splice:
  assumes d: "dll h s (ys @ zs)" and l: "dll h l xs" and out: "set (s # ys @ zs) \<inter> set (l # xs) = {}" and pay: "payload h' = payload h"
    and pfe: "p = last (s # ys)" "n = hd (zs @ [s])" "f = hd (xs @ [l])" "e = (if xs = [] then p else last xs)"
    and N: "nexts h' = (nexts h)(p \<mapsto> f, e \<mapsto> n, l \<mapsto> l)" and P: "prevs h' = (prevs h)(f \<mapsto> p, n \<mapsto> e, l \<mapsto> l)"
  shows "dll h' s (ys @ xs @ zs)"
proof -
  have lx: "l \<notin> set xs" "distinct xs" "set xs \<subseteq> dom h'" using l payload_same_dom [OF pay] by (auto simp: dll_def)
  have ds: "distinct (s # ys @ zs)" "set (s # ys @ zs) \<subseteq> dom h'" using d payload_same_dom [OF pay] by (simp_all add: dll_split)
  have pn: "p \<in> set (s # ys @ zs)" "n \<in> set (s # ys @ zs)" unfolding pfe by (auto intro: hd_in_set simp: hd_append)
  have fe: "f \<in> set (l # xs)" "xs \<noteq> [] \<Longrightarrow> f = hd xs \<and> e = last xs \<and> f \<in> set xs \<and> e \<in> set xs"
    unfolding pfe by (cases xs) auto
  have nx: "nexts h' u = nexts h u" if "u \<in> set (s # ys @ zs)" "u \<noteq> p" for u
    using that out fe(2) unfolding N by (cases "xs = []") (auto simp: pfe(4))
  have pv: "prevs h' u = prevs h u" if "u \<in> set (s # ys @ zs)" "u \<noteq> n" for u
    using that out fe(1) unfolding P by auto
  note around = linked_around [OF d nx [unfolded pfe(1)] pv [unfolded pfe(2)]]
  show ?thesis
  proof (cases "xs = []")
    case True
    then have "nexts h' p = Some n" "prevs h' n = Some p" using pn out by (auto simp: N P pfe(3,4))
    then show ?thesis using True ds around pfe(1,2) by (simp add: dll_split)
  next
    case False
    note fx = fe(2) [OF False]
    have "linked (nexts h') (prevs h') xs"
      using pn out lx(1) fx by (intro linked_inside [OF l False]) (auto simp: N P)
    moreover have e1: "nexts h' e = Some n" "prevs h' n = Some e" "nexts h' p = Some f" "prevs h' f = Some p"
      using fx lx pn out by (auto simp: N P)
    ultimately have "linked (nexts h') (prevs h') (xs @ zs @ [s])"
      using linked_join [of xs "zs @ [s]"] False around(2) fx pfe(2) by simp
    moreover have "hd (xs @ zs @ [s]) = f" using False fx by simp
    moreover have "set xs \<inter> set (s # ys @ zs) = {}" using out by auto
    ultimately show ?thesis using ds lx around(1) e1 pfe(1) dll_split [of h' s ys "xs @ zs"] by auto
  qed
qed

text \<open>
  \<^verbatim>\<open>InsertListBefore\<close> splices a whole list in and empties it. The order of the statements matters
  when the inserted list is empty: then \<^verbatim>\<open>first\<close> is the list's own sentinel, and \<^verbatim>\<open>Last()\<close> is read
  after \<^verbatim>\<open>first.prev\<close> was set, so the links of the target come back to what they were.
\<close>

theorem blist_InsertListBefore_ok:
  assumes d: "dll h s (ys @ zs)" and l: "dll h l xs" and disj: "set (s # ys @ zs) \<inter> set (l # xs) = {}"
  shows "\<exists>h'. blist_InsertListBefore h (Some (hd (zs @ [s]))) l = Some h' \<and> dll h' s (ys @ xs @ zs)
    \<and> dll h' l [] \<and> payload h' = payload h"
proof -
  obtain p n where c: "p = last (s # ys)" "n = hd (zs @ [s])"
    "nexts h p = Some n" "prevs h n = Some p" "p \<in> dom h" "n \<in> dom h"
    "p \<in> set (s # ys)" "n \<in> set (s # zs)"
    "p \<notin> set (butlast (s # ys))" "n \<notin> set ys" "p \<notin> set zs" "n \<notin> set (tl (zs @ [s]))"
    using dll_cut [OF d] by metis
  define f where "f = hd (xs @ [l])"
  define e where "e = last (l # xs)"
  have fe: "blist_First h l = Some (Some f)" "prevs h l = Some e" "f \<in> dom h" "e \<in> dom h"
    "f \<in> set (l # xs)" "e \<in> set (l # xs)" "l \<in> dom h"
    unfolding f_def e_def by (rule blist_First_ok [OF l] dll_ends [OF l])+
  have pn: "p \<in> set (s # ys @ zs)" "n \<in> set (s # ys @ zs)" using c(7,8) by auto
  have lm: "l \<in> set (l # xs)" by simp
  have ne: "f \<noteq> p" "f \<noteq> n" "e \<noteq> p" "e \<noteq> n" "l \<noteq> p" "l \<noteq> n"
    using fe(5,6) lm pn disj by blast+
  obtain h1 where h1: "set_next h (Some p) (Some f) = Some h1" "nexts h1 = (nexts h)(p \<mapsto> f)"
      "prevs h1 = prevs h" "payload h1 = payload h" "dom h1 = dom h"
    using set_next_some c by metis
  obtain h2 where h2: "set_prev h1 (Some f) (Some p) = Some h2" "prevs h2 = (prevs h1)(f \<mapsto> p)"
      "nexts h2 = nexts h1" "payload h2 = payload h1" "dom h2 = dom h1"
    using set_prev_some [of f h1] fe h1 by metis
  define e' where "e' = (if f = l then p else e)"
  have e': "blist_Last h2 l = Some (Some e')" "e' \<in> dom h"
    using fe c h1 h2 by (auto simp: blist_Last_def get_prev_some e'_def)
  obtain h3 where h3: "set_prev h2 (Some n) (Some e') = Some h3" "prevs h3 = (prevs h2)(n \<mapsto> e')"
      "nexts h3 = nexts h2" "payload h3 = payload h2" "dom h3 = dom h2"
    using set_prev_some [of n h2] c h1 h2 by metis
  obtain h4 where h4: "set_next h3 (Some e') (Some n) = Some h4" "nexts h4 = (nexts h3)(e' \<mapsto> n)"
      "prevs h4 = prevs h3" "payload h4 = payload h3" "dom h4 = dom h3"
    using set_next_some [of e' h3] e' h1 h2 h3 by metis
  obtain h5 where h5: "blist_Init h4 l = Some h5" "dll h5 l []" "payload h5 = payload h4"
      "nexts h5 = (nexts h4)(l \<mapsto> l)" "prevs h5 = (prevs h4)(l \<mapsto> l)"
    using blist_Init_ok [of l h4] fe h1 h2 h3 h4 by auto
  have run: "blist_InsertListBefore h (Some n) l = Some h5"
    using h1 h2 h3 h4 h5 c fe e' by (simp add: blist_InsertListBefore_def get_prev_some)
  have pay: "payload h5 = payload h" using h1 h2 h3 h4 h5 by simp
  have N: "nexts h5 = (nexts h)(p \<mapsto> f, e' \<mapsto> n, l \<mapsto> l)"
    and P: "prevs h5 = (prevs h)(f \<mapsto> p, n \<mapsto> e', l \<mapsto> l)"
    using h1 h2 h3 h4 h5 by auto
  have "l \<notin> set xs" using l by (auto simp: dll_def)
  then have "f = l \<longleftrightarrow> xs = []" by (cases xs) (auto simp: f_def)
  then have "e' = (if xs = [] then p else last xs)" by (simp add: e'_def e_def)
  then have "dll h5 s (ys @ xs @ zs)" by (rule dll_splice [OF d l disj pay c(1,2) f_def _ N P])
  with run h5 pay c show ?thesis by auto
qed

end
