(* ===== verification/Pool.thy ===== *)
theory Pool imports Blist begin

text \<open>
  \<^verbatim>\<open>BufferPool\<close> of \<^verbatim>\<open>proxy/nasshp/window.go\<close> and the two \<^verbatim>\<open>Drop\<close> methods that give the buffers of
  a window back to it. This part of the file depends on the link fields (a returned buffer has its
  links cleared while the list is being walked), so it is modelled on the pointer heap of theory
  Blist.

  \<^verbatim>\<open>sync.Pool\<close> may hand out any object put in before, or none, in which case \<^verbatim>\<open>New\<close> runs: the choice
  is an argument of \<open>BufferPool_Get\<close>.
\<close>

section \<open>The pool\<close>

record BufferPool =
  pool_size :: nat
  pool_free :: "addr list"
  pool_gets :: u64
  pool_puts :: u64
  pool_news :: u64

definition NewBufferPool :: "nat \<Rightarrow> BufferPool" where
  "NewBufferPool sz = \<lparr>pool_size = sz, pool_free = [], pool_gets = 0, pool_puts = 0, pool_news = 0\<rparr>"

text \<open>The node \<^verbatim>\<open>New\<close> allocates.\<close>

definition pool_New :: "BufferPool \<Rightarrow> bnode" where
  "pool_New bp = \<lparr>barray = replicate (pool_size bp) 0, blen = 0, offset = 0, acknowledged = 0,
     prev = None, next_node = None\<rparr>"

text \<open>
  \<open>choice\<close> is what \<^verbatim>\<open>sync.Pool\<close> hands out: \<open>Some i\<close> the \<open>i\<close>-th free object, \<open>None\<close> nothing.
  \<open>fresh\<close> is the address a new object gets.
\<close>

definition BufferPool_Get :: "BufferPool \<Rightarrow> bheap \<Rightarrow> nat option \<Rightarrow> addr \<Rightarrow> BufferPool \<times> bheap \<times> addr" where
  "BufferPool_Get bp h choice fresh =
    (let bp1 = bp\<lparr>pool_gets := pool_gets bp + 1\<rparr> in
     case choice of
       Some i \<Rightarrow> if i < length (pool_free bp)
         then (bp1\<lparr>pool_free := take i (pool_free bp) @ drop (Suc i) (pool_free bp)\<rparr>, h, pool_free bp ! i)
         else (bp1\<lparr>pool_news := pool_news bp + 1\<rparr>, h(fresh \<mapsto> pool_New bp), fresh)
     | None \<Rightarrow> (bp1\<lparr>pool_news := pool_news bp + 1\<rparr>, h(fresh \<mapsto> pool_New bp), fresh))"

definition BufferPool_Put :: "BufferPool \<Rightarrow> bheap \<Rightarrow> addr \<Rightarrow> (bheap \<times> BufferPool) option" where
  "BufferPool_Put bp h b = (case h b of None \<Rightarrow> None
     | Some n \<Rightarrow> Some (h(b \<mapsto> n\<lparr>blen := 0, offset := 0, acknowledged := 0, prev := None, next_node := None\<rparr>),
                     bp\<lparr>pool_puts := pool_puts bp + 1, pool_free := b # pool_free bp\<rparr>))"

definition BufferPool_Stats :: "BufferPool \<Rightarrow> u64 \<times> u64 \<times> u64" where
  "BufferPool_Stats bp = (pool_gets bp, pool_puts bp, pool_news bp)"

text \<open>What the windows rely on: an object that comes out of the pool is empty.\<close>

definition fresh_buffer :: "nat \<Rightarrow> ('a) buffer_scheme \<Rightarrow> bool" where
  "fresh_buffer sz b \<longleftrightarrow> bcap b = sz \<and> blen b = 0 \<and> offset b = 0 \<and> acknowledged b = 0"

definition pool_ok :: "BufferPool \<Rightarrow> bheap \<Rightarrow> bool" where
  "pool_ok bp h \<longleftrightarrow> (\<forall>a \<in> set (pool_free bp). \<exists>n. h a = Some n \<and> fresh_buffer (pool_size bp) n)"

lemma NewBufferPool_ok: "pool_ok (NewBufferPool sz) h"
  by (simp add: pool_ok_def NewBufferPool_def)

theorem BufferPool_Get_fresh:
  assumes "pool_ok bp h" "fresh \<notin> dom h" "BufferPool_Get bp h choice fresh = (bp', h', a)"
  shows "pool_ok bp' h' \<and> (\<exists>n. h' a = Some n \<and> fresh_buffer (pool_size bp) n)"
proof -
  have N: "fresh_buffer (pool_size bp) (pool_New bp)"
    by (simp add: fresh_buffer_def pool_New_def bcap_def)
  have new: "pool_ok (bp\<lparr>pool_gets := g, pool_news := m\<rparr>) (h(fresh \<mapsto> pool_New bp))" for g m
    using assms(1,2) N by (auto simp: pool_ok_def)
  show ?thesis
  proof (cases "\<exists>i. choice = Some i \<and> i < length (pool_free bp)")
    case True
    then obtain i where i: "choice = Some i" "i < length (pool_free bp)" by auto
    then have "pool_free bp ! i \<in> set (pool_free bp)" by simp
    with assms i show ?thesis
      by (fastforce simp: BufferPool_Get_def pool_ok_def Let_def dest: in_set_takeD in_set_dropD)
  next
    case False
    then have "(bp', h', a) = (bp\<lparr>pool_gets := pool_gets bp + 1, pool_news := pool_news bp + 1\<rparr>,
        h(fresh \<mapsto> pool_New bp), fresh)"
      using assms(3) by (auto simp: BufferPool_Get_def Let_def split: option.splits)
    with new N show ?thesis by auto
  qed
qed

lemma BufferPool_Put_ok:
  assumes "pool_ok bp h" "h b = Some n" "bcap n = pool_size bp" "BufferPool_Put bp h b = Some (h', bp')"
  shows "pool_ok bp' h'" "pool_free bp' = b # pool_free bp" "pool_puts bp' = pool_puts bp + 1"
  using assms by (auto simp: pool_ok_def BufferPool_Put_def fresh_buffer_def bcap_def)

section \<open>Walking a list\<close>

text \<open>A callback that leaves the heap alone sees every buffer, in order.\<close>

lemma blist_Iterate_suffix:
  assumes "dll h s (ys @ zs)" "length zs < fuel"
  shows "blist_Iterate fuel (\<lambda>h c st. Some (h, g c st)) s (Some (hd (zs @ [s]))) h st
    = Some (Some (h, fold g zs st))"
  using assms
proof (induction zs arbitrary: ys fuel st)
  case Nil
  then show ?case by (cases fuel) (auto simp: blist_End_def)
next
  case (Cons z zs)
  then obtain k where k: "fuel = Suc k" "length zs < k" by (cases fuel) auto
  have d: "dll h s ((ys @ [z]) @ zs)" using Cons.prems by simp
  then have zn: "nexts h z = Some (hd (zs @ [s]))" "z \<in> dom h" "z \<noteq> s"
    unfolding dll_split by auto
  have "blist_Iterate k (\<lambda>h c st. Some (h, g c st)) s (Some (hd (zs @ [s]))) h (g z st)
    = Some (Some (h, fold g zs (g z st)))"
    by (rule Cons.IH [OF d k(2)])
  with zn k show ?case by (simp add: blist_End_def get_next_some)
qed

theorem blist_Iterate_observes_all:
  assumes "dll h s xs" "length xs < fuel" "blist_First h s = Some first"
  shows "blist_Iterate fuel (\<lambda>h c st. Some (h, g c st)) s first h st = Some (Some (h, fold g xs st))"
proof -
  have "first = Some (hd (xs @ [s]))" using assms(3) blist_First_ok [OF assms(1)] by simp
  moreover have "dll h s ([] @ xs)" using assms(1) by simp
  ultimately show ?thesis by (simp only:) (rule blist_Iterate_suffix [OF _ assms(2)])
qed

section \<open>Dropping a window\<close>

text \<open>The callback of \<^verbatim>\<open>SendWindow.Drop\<close> and \<^verbatim>\<open>ReceiveWindow.Drop\<close> returns the buffer to the pool.\<close>

definition drop_callback :: "bheap \<Rightarrow> addr \<Rightarrow> BufferPool \<Rightarrow> (bheap \<times> BufferPool) option" where
  "drop_callback h b bp = BufferPool_Put bp h b"

definition Drop_list :: "nat \<Rightarrow> addr \<Rightarrow> bheap \<Rightarrow> BufferPool \<Rightarrow> (bheap \<times> BufferPool) option option" where
  "Drop_list fuel bl h bp = (case blist_First h bl of None \<Rightarrow> Some None
     | Some first \<Rightarrow> blist_Iterate fuel drop_callback bl first h bp)"

definition ReceiveWindow_Drop :: "nat \<Rightarrow> addr \<Rightarrow> bheap \<Rightarrow> BufferPool \<Rightarrow> (bheap \<times> BufferPool) option option" where
  "ReceiveWindow_Drop fuel buf h bp = Drop_list fuel buf h bp"

definition SendWindow_Drop :: "nat \<Rightarrow> addr \<Rightarrow> addr \<Rightarrow> bheap \<Rightarrow> BufferPool \<Rightarrow> (bheap \<times> BufferPool) option option" where
  "SendWindow_Drop fuel buf pending h bp = (case Drop_list fuel buf h bp of
       Some (Some (h', bp')) \<Rightarrow> Drop_list fuel pending h' bp'
     | r \<Rightarrow> r)"

text \<open>
  The walk reads \<^verbatim>\<open>next\<close> from a buffer whose links \<^verbatim>\<open>Put\<close> has just cleared, so it stops after the
  first buffer, however long the list is.
\<close>

lemma Drop_list_first_only:
  assumes "dll h s (x # xs)" "1 < fuel"
  shows "\<exists>h' bp'. Drop_list fuel s h bp = Some (Some (h', bp')) \<and> pool_free bp' = x # pool_free bp
    \<and> pool_puts bp' = pool_puts bp + 1 \<and> (\<forall>a. a \<noteq> x \<longrightarrow> h' a = h a) \<and> dom h' = dom h
    \<and> pool_size bp' = pool_size bp"
proof -
  obtain k where k: "fuel = Suc (Suc k)" using assms(2) by (auto dest: less_imp_Suc_add)
  have x: "x \<noteq> s" "x \<in> dom h" using assms(1) by (auto simp: dll_def)
  then obtain n where n: "h x = Some n" by auto
  let ?n = "n\<lparr>blen := 0, offset := 0, acknowledged := 0, prev := None, next_node := None\<rparr>"
  let ?bp = "bp\<lparr>pool_puts := pool_puts bp + 1, pool_free := x # pool_free bp\<rparr>"
  have first: "blist_First h s = Some (Some x)" using blist_First_ok [OF assms(1)] by simp
  have "Drop_list fuel s h bp = Some (Some (h(x \<mapsto> ?n), ?bp))"
    using x(1) n by (simp add: Drop_list_def first k drop_callback_def BufferPool_Put_def blist_End_def get_next_def)
  moreover have "dom (h(x \<mapsto> ?n)) = dom h" using n by auto
  ultimately show ?thesis by (intro exI [of _ "h(x \<mapsto> ?n)"] exI [of _ ?bp]) simp
qed

lemma Drop_list_empty:
  assumes "dll h s []" "0 < fuel"
  shows "Drop_list fuel s h bp = Some (Some (h, bp))"
  using assms blist_First_ok [OF assms(1)] by (cases fuel) (auto simp: Drop_list_def blist_End_def)

lemma dll_frame:
  assumes "dll h s xs" "\<And>a. a \<in> set (s # xs) \<Longrightarrow> h' a = h a"
  shows "dll h' s xs"
proof -
  have "linked (nexts h') (prevs h') (s # xs @ [s]) = linked (nexts h) (prevs h) (s # xs @ [s])"
    using assms(2) by (intro linked_cong) (auto simp: nexts_def prevs_def butlast_append split: if_splits)
  then show ?thesis using assms by (auto simp: dll_def)
qed

text \<open>Dropping a send window returns to the pool only the first buffer of its two lists, not all of
  them: the walk loses its place when \<^verbatim>\<open>Put\<close> clears the links of the buffer it stands on.\<close>

theorem SendWindow_Drop_returns_first_only:
  assumes "dll h b (x # xs)" "dll h p (y # ys)" "x \<notin> set (p # y # ys)" "1 < fuel"
  shows "\<exists>h' bp'. SendWindow_Drop fuel b p h bp = Some (Some (h', bp'))
    \<and> pool_free bp' = y # x # pool_free bp \<and> pool_puts bp' = pool_puts bp + 2"
proof -
  obtain h1 bp1 where 1: "Drop_list fuel b h bp = Some (Some (h1, bp1))" "pool_free bp1 = x # pool_free bp"
    "pool_puts bp1 = pool_puts bp + 1" "\<forall>a. a \<noteq> x \<longrightarrow> h1 a = h a"
    using Drop_list_first_only [OF assms(1,4)] by metis
  have "dll h1 p (y # ys)" by (rule dll_frame [OF assms(2)]) (use assms(3) 1(4) in metis)
  then obtain h2 bp2 where "Drop_list fuel p h1 bp1 = Some (Some (h2, bp2))" "pool_free bp2 = y # pool_free bp1"
    "pool_puts bp2 = pool_puts bp1 + 1"
    using Drop_list_first_only assms(4) by metis
  with 1 show ?thesis by (simp add: SendWindow_Drop_def)
qed

definition demo_node :: "addr \<Rightarrow> addr \<Rightarrow> bnode" where
  "demo_node p n = \<lparr>barray = [0, 0], blen = 2, offset = 0, acknowledged = 0, prev = Some p, next_node = Some n\<rparr>"

text \<open>Sentinel 0 with buffers 1 and 2; sentinel 3 with buffers 4, 5 and 6.\<close>

definition demo_heap :: bheap where
  "demo_heap = [0 \<mapsto> demo_node 2 1, 1 \<mapsto> demo_node 0 2, 2 \<mapsto> demo_node 1 0,
     3 \<mapsto> demo_node 6 4, 4 \<mapsto> demo_node 3 5, 5 \<mapsto> demo_node 4 6, 6 \<mapsto> demo_node 5 3]"

lemma demo_heap_lists: "dll demo_heap 0 [1, 2]" "dll demo_heap 3 [4, 5, 6]"
  by (simp_all add: dll_def demo_heap_def demo_node_def nexts_def prevs_def)

theorem SendWindow_Drop_returns_first_only_witness:
  "\<exists>h' bp'. SendWindow_Drop 10 0 3 demo_heap (NewBufferPool 2) = Some (Some (h', bp'))
    \<and> pool_free bp' = [4, 1] \<and> pool_puts bp' = 2"
  using SendWindow_Drop_returns_first_only [OF demo_heap_lists, of 10 "NewBufferPool 2"]
  by (simp add: NewBufferPool_def)

end
