(* ===== verification/Windows.thy ===== *)
theory Windows imports Pool begin

unbundle bit_operations_syntax

text \<open>
  \<^verbatim>\<open>ToAbsolute\<close> of \<^verbatim>\<open>proxy/nasshp/window.go\<close>, and the operations on lists of buffers that
  \<^verbatim>\<open>SendWindow\<close> (theory Send_Window) and \<^verbatim>\<open>ReceiveWindow\<close> (theory Receive_Window) share.

  A window keeps its buffers in one or two \<^verbatim>\<open>blist\<close>s. Theory Blist shows that the pointer operations
  used here (\<^verbatim>\<open>First\<close>, \<^verbatim>\<open>Last\<close>, \<^verbatim>\<open>Append\<close>, \<^verbatim>\<open>Drop\<close> of the first node, \<^verbatim>\<open>InsertListBefore\<close> the
  first node) implement the list operations written here; the sentinel is an empty buffer that no
  operation of a window changes. The buffer that \<^verbatim>\<open>pool.Get()\<close> returns is an argument, of which only
  \<open>fresh_buffer\<close> (theory Pool) is used. A result of \<^const>\<open>None\<close> is a slice-bounds panic.
\<close>

section \<open>24-bit positions\<close>

definition ToAbsolute :: "u64 \<Rightarrow> u32 \<Rightarrow> u64" where
  "ToAbsolute reference trunc =
    (let base = (ucast (reference AND 0xffffff) :: u32);
         diff = (if base \<le> trunc then trunc - base else 0x1000000 - (base - trunc + 1));
         topbits = reference AND NOT 0xffffff
     in if 0x7fffff < diff \<and> base < trunc \<and> 0x1000000 < topbits
        then (topbits - 0x1000000) OR ucast trunc
        else if diff \<le> 0x7fffff \<and> trunc < base
        then (topbits + 0x1000000) OR ucast trunc
        else topbits OR ucast trunc)"

lemma low24: "(w :: u64) AND 0xffffff = take_bit 24 w"
proof -
  have "(0xffffff :: u64) = mask 24" by (simp add: mask_eq_exp_minus_1)
  then show ?thesis by (simp add: take_bit_eq_mask)
qed

lemma high24: "(w :: u64) AND NOT 0xffffff = w - take_bit 24 w"
proof -
  have "(w AND NOT 0xffffff) AND (w AND 0xffffff) = 0"
    by (simp add: bit_eq_iff bit_simps)
  then have "(w AND NOT 0xffffff) + (w AND 0xffffff) = (w AND NOT 0xffffff) OR (w AND 0xffffff)"
    by (rule disjunctive_add_eq_or)
  also have "\<dots> = w" by (rule bit_word_eqI) (auto simp: bit_simps)
  finally show ?thesis by (simp add: low24 eq_diff_eq)
qed

lemma unat_low24: "unat (take_bit 24 (w :: u64)) = unat w mod 2 ^ 24"
  unfolding unsigned_take_bit_eq by (simp add: take_bit_eq_mod)

lemma unat_high24: "unat ((w :: u64) - take_bit 24 w) = 2 ^ 24 * (unat w div 2 ^ 24)"
proof -
  have "take_bit 24 w \<le> w"
    by (simp add: word_le_nat_alt unat_low24)
  then have "unat (w - take_bit 24 w) = unat w - unat w mod 2 ^ 24"
    by (simp add: unat_sub unat_low24)
  then show ?thesis by (simp add: minus_mod_eq_mult_div)
qed

lemma or_low24:
  fixes a z :: u64
  assumes "unat a mod 2 ^ 24 = 0" "unat z < 2 ^ 24"
  shows "unat (a OR z) = unat a + unat z"
proof -
  have "take_bit 24 a = 0" by (rule word_unat_eq_iff [THEN iffD2]) (use assms(1) in \<open>simp add: unat_low24\<close>)
  moreover have "take_bit 24 z = z" by (rule word_unat_eq_iff [THEN iffD2]) (use assms(2) in \<open>simp add: unat_low24\<close>)
  ultimately have "\<not> bit a n \<or> \<not> bit z n" for n
    by (metis bit_take_bit_iff bit_0_eq bot_apply bot_bool_def)
  then have "a OR z = a + z" by (simp add: disjunctive_add)
  moreover have "unat a + unat z < 2 ^ 64"
  proof -
    obtain k where k: "unat a = 2 ^ 24 * k" using assms(1) by (auto elim: dvdE simp: mod_eq_0_iff_dvd)
    have "unat a < 2 ^ 64" using unsigned_less [of a] by simp
    with k have "k < 2 ^ 40" by simp
    then have "2 ^ 24 * (k + 1) \<le> (2::nat) ^ 64" by simp
    with k assms(2) show ?thesis by simp
  qed
  ultimately show ?thesis by (simp add: unat_word_ariths)
qed

text \<open>The function over natural numbers, for a reference below 2^63.\<close>

lemma unat_ToAbsolute:
  assumes "unat trunc < 2 ^ 24" "unat ref < 2 ^ 63"
  defines "b \<equiv> unat ref mod 2 ^ 24" and "q \<equiv> unat ref div 2 ^ 24" and "t \<equiv> unat trunc"
  shows "unat (ToAbsolute ref trunc) =
    (if b < t \<and> 2 ^ 23 \<le> t - b \<and> 1 < q then 2 ^ 24 * (q - 1) + t
     else if t < b \<and> 2 ^ 23 \<le> b - t then 2 ^ 24 * (q + 1) + t
     else 2 ^ 24 * q + t)"
proof -
  define base where "base = (ucast (ref AND 0xffffff) :: u32)"
  define top where "top = ref AND NOT 0xffffff"
  define diff where "diff = (if base \<le> trunc then trunc - base else 0x1000000 - (base - trunc + 1))"
  have b24: "b < 2 ^ 24" by (simp add: b_def)
  have q: "q < 2 ^ 39" using assms(2) by (simp add: q_def less_mult_imp_div_less)
  have ub: "unat base = b"
    using b24 by (simp add: base_def low24 unsigned_ucast_eq unat_low24 b_def take_bit_nat_eq_self)
  have ut: "unat top = 2 ^ 24 * q" by (simp only: top_def high24 unat_high24 q_def)
  have le: "base \<le> trunc \<longleftrightarrow> b \<le> t" "base < trunc \<longleftrightarrow> b < t" "trunc < base \<longleftrightarrow> t < b"
    by (simp_all add: word_le_nat_alt word_less_nat_alt ub t_def)
  have ud: "unat diff = (if b \<le> t then t - b else 2 ^ 24 - (b - t + 1))"
  proof (cases "b \<le> t")
    case True
    then show ?thesis using le by (simp add: diff_def unat_sub ub t_def)
  next
    case False
    then have "unat (base - trunc) = b - t" using le by (simp add: unat_sub ub t_def)
    then have u: "unat (base - trunc + 1) = b - t + 1" using b24 by (simp add: unat_word_ariths)
    define x where "x = base - trunc + 1"
    have "x \<le> 0x1000000" using u b24 by (simp add: x_def word_le_nat_alt)
    then have "unat (0x1000000 - x) = 2 ^ 24 - unat x" by (simp add: unat_sub)
    moreover have "diff = 0x1000000 - x" using False le by (simp add: diff_def x_def)
    ultimately show ?thesis using False u by (simp only: x_def if_False)
  qed
  have d7: "0x7fffff < diff \<longleftrightarrow> 2 ^ 23 \<le> unat diff" "diff \<le> 0x7fffff \<longleftrightarrow> unat diff < 2 ^ 23"
    by (auto simp: word_less_nat_alt word_le_nat_alt)
  have t1: "0x1000000 < top \<longleftrightarrow> 1 < q" by (simp add: word_less_nat_alt ut)
  have uc: "unat (ucast trunc :: u64) = t" using assms(1)
    by (simp add: unsigned_ucast_eq t_def take_bit_nat_eq_self)
  have plus: "unat (top + 0x1000000) = 2 ^ 24 * (q + 1)"
    using q by (simp add: unat_word_ariths ut)
  have minus: "1 < q \<Longrightarrow> unat (top - 0x1000000) = 2 ^ 24 * (q - 1)"
    using t1 by (simp add: unat_sub ut diff_mult_distrib2 order_less_imp_le)
  have orv: "unat (a OR ucast trunc) = unat a + t" if "unat a mod 2 ^ 24 = 0" for a :: u64
    using or_low24 [OF that, of "ucast trunc"] uc assms(1) by (simp add: t_def)
  have F: "ToAbsolute ref trunc = (if 0x7fffff < diff \<and> base < trunc \<and> 0x1000000 < top
        then (top - 0x1000000) OR ucast trunc
        else if diff \<le> 0x7fffff \<and> trunc < base
        then (top + 0x1000000) OR ucast trunc
        else top OR ucast trunc)"
    by (simp only: ToAbsolute_def Let_def base_def top_def diff_def)
  have t24: "t < 2 ^ 24" using assms(1) by (simp add: t_def)
  have wrapped: "2 ^ 24 - (b - t + 1) < 2 ^ 23 \<longleftrightarrow> 2 ^ 23 \<le> b - t" if "t < b" using that b24 by simp arith
  show ?thesis
    unfolding F d7 t1 le ud
    using wrapped by (auto simp: orv minus plus ut)
qed

text \<open>C31: A truncated position is expanded to the position nearest to the reference. For a reference
  and a value less than 2^23 apart, the 24 low bits of the value and the reference give the value
  back, except when the value lies in the window below a reference in the second window (2^24 up to
  2^25), where the guard \<^verbatim>\<open>topbits > 0x1000000\<close> should be \<^verbatim>\<open>>=\<close>.\<close>

theorem ToAbsolute_nearest:
  fixes ref v :: nat
  assumes "ref < 2 ^ 63" "v < 2 ^ 63" and near: "v < ref + 2 ^ 23" "ref < v + 2 ^ 23"
    and "2 ^ 25 \<le> ref \<or> ref < 2 ^ 24 \<or> ref div 2 ^ 24 \<le> v div 2 ^ 24"
  shows "ToAbsolute (of_nat ref) (of_nat (v mod 2 ^ 24)) = of_nat v"
proof -
  have u: "unat (of_nat ref :: u64) = ref" "unat (of_nat v :: u64) = v"
    using assms by (simp_all add: unat_of_nat)
  have t: "unat (of_nat (v mod 2 ^ 24) :: u32) = v mod 2 ^ 24"
    by (simp add: unat_of_nat)
  define b q t' p where d: "b = ref mod 2 ^ 24" "q = ref div 2 ^ 24" "t' = v mod 2 ^ 24" "p = v div 2 ^ 24"
  have r: "ref = 2 ^ 24 * q + b" "v = 2 ^ 24 * p + t'" "b < 2 ^ 24" "t' < 2 ^ 24" by (simp_all add: d)
  have lo: "1 < q \<or> q = 0 \<or> q \<le> p" using assms(5) by (auto simp: d(2,4) Suc_le_eq [symmetric] less_eq_div_iff_mult_less_eq)
  have "p < q + 2" "q < p + 2" using near r by simp_all
  then consider "p = q" | "p = q + 1" | "q = p + 1" by linarith
  then have eq: "(if b < t' \<and> 2 ^ 23 \<le> t' - b \<and> 1 < q then 2 ^ 24 * (q - 1) + t'
       else if t' < b \<and> 2 ^ 23 \<le> b - t' then 2 ^ 24 * (q + 1) + t'
       else 2 ^ 24 * q + t') = v"
  proof cases
    case 1
    then show ?thesis using near r by auto
  next
    case 2
    then show ?thesis using near r by auto
  next
    case 3
    then have "1 < q" using lo by auto
    then show ?thesis using 3 near r by auto
  qed
  have "unat (ToAbsolute (of_nat ref) (of_nat (v mod 2 ^ 24))) = v"
    using unat_ToAbsolute [of "of_nat (v mod 2 ^ 24)" "of_nat ref"] assms(1) eq unfolding u t d by simp
  then show ?thesis using u by (metis word_unat_eq_iff)
qed


theorem ToAbsolute_nearest_witness: "ToAbsolute 0x2000005 0xfffff0 = 0x1fffff0"
  using ToAbsolute_nearest [of "0x2000005" "0x1fffff0"] by simp

text \<open>The excluded case: \<^verbatim>\<open>0xfffff0\<close> is 21 below the reference, and comes back 2^24 too high.\<close>

lemma ToAbsolute_one_window_back: "ToAbsolute 0x1000005 0xfffff0 = 0x1fffff0"
  by (simp add: ToAbsolute_def Let_def)

section \<open>Lists of buffers\<close>

text \<open>The sentinel as a buffer: what \<^verbatim>\<open>First()\<close> and \<^verbatim>\<open>Last()\<close> of an empty list return.\<close>

definition no_buffer :: buffer where
  "no_buffer = \<lparr>barray = [], blen = 0, offset = 0, acknowledged = 0\<rparr>"

definition first_of :: "buffer list \<Rightarrow> buffer" where
  "first_of bs = (case bs of [] \<Rightarrow> no_buffer | b # _ \<Rightarrow> b)"

definition last_of :: "buffer list \<Rightarrow> buffer" where
  "last_of bs = (if bs = [] then no_buffer else last bs)"

definition on_first :: "(buffer \<Rightarrow> buffer) \<Rightarrow> buffer list \<Rightarrow> buffer list" where
  "on_first f bs = (case bs of [] \<Rightarrow> [] | b # r \<Rightarrow> f b # r)"

definition on_last :: "(buffer \<Rightarrow> buffer) \<Rightarrow> buffer list \<Rightarrow> buffer list" where
  "on_last f bs = (if bs = [] then [] else butlast bs @ [f (last bs)])"

text \<open>
  \<^verbatim>\<open>ToFill\<close> returns the free tail of the last buffer, of which the model returns the length; the
  caller then writes bytes at the front of that slice (\<open>write_free\<close>). \<open>fresh\<close> is the buffer
  \<^verbatim>\<open>pool.Get()\<close> returns.
\<close>

definition buffers_ToFill :: "buffer \<Rightarrow> buffer list \<Rightarrow> buffer list \<times> nat" where
  "buffers_ToFill fresh bs =
    (let last = last_of bs in
     if blen last < bcap last then (bs, bcap last - blen last) else (bs @ [fresh], bcap fresh))"

definition write_free :: "bytes \<Rightarrow> buffer \<Rightarrow> buffer" where
  "write_free xs b = b\<lparr>barray := bdata b @ xs @ drop (blen b + length xs) (barray b)\<rparr>"

text \<open>The bytes of a buffer not yet acknowledged, and not yet taken.\<close>

definition unacked :: "buffer \<Rightarrow> bytes" where
  "unacked b = drop (acknowledged b) (bdata b)"

definition unread :: "buffer \<Rightarrow> bytes" where
  "unread b = drop (offset b) (bdata b)"

definition buffer_ok :: "nat \<Rightarrow> buffer \<Rightarrow> bool" where
  "buffer_ok sz b \<longleftrightarrow> bcap b = sz \<and> blen b \<le> sz \<and> offset b \<le> blen b \<and> acknowledged b \<le> blen b"

lemma last_of_snoc [simp]: "last_of (bs @ [b]) = b"
  and last_of_Nil [simp]: "last_of [] = no_buffer"
  and first_of_Cons [simp]: "first_of (b # bs) = b"
  and first_of_Nil [simp]: "first_of [] = no_buffer"
  and on_last_snoc [simp]: "on_last f (bs @ [b]) = bs @ [f b]"
  and on_last_Nil [simp]: "on_last f [] = []"
  and on_first_Cons [simp]: "on_first f (b # bs) = f b # bs"
  and on_first_Nil [simp]: "on_first f [] = []"
  by (simp_all add: last_of_def first_of_def on_last_def on_first_def)

lemma no_buffer_simps [simp]: "bdata no_buffer = []" "bcap no_buffer = 0" "blen no_buffer = 0"
    "offset no_buffer = 0"
  by (simp_all add: no_buffer_def bdata_def bcap_def)

lemma length_bdata: "length (bdata b) = min (bcap b) (blen b)"
  by (simp add: bdata_def bcap_def)

lemma bdata_update [simp]: "bdata (b\<lparr>offset := n\<rparr>) = bdata b" "bdata (b\<lparr>acknowledged := n\<rparr>) = bdata b"
    "bcap (b\<lparr>offset := n\<rparr>) = bcap b" "bcap (b\<lparr>acknowledged := n\<rparr>) = bcap b"
    "bcap (b\<lparr>blen := n\<rparr>) = bcap b"
  by (simp_all add: bdata_def bcap_def)

lemma unacked_update [simp]: "unacked (b\<lparr>offset := n\<rparr>) = unacked b" "unread (b\<lparr>acknowledged := n\<rparr>) = unread b"
    "unacked (b\<lparr>acknowledged := n\<rparr>) = drop n (bdata b)" "unread (b\<lparr>offset := n\<rparr>) = drop n (bdata b)"
  by (simp_all add: unacked_def unread_def)

lemma write_free_simps:
  assumes "blen b + length xs \<le> bcap b"
  shows "bdata (write_free xs b) = bdata b" "bcap (write_free xs b) = bcap b"
    "bdata ((write_free xs b)\<lparr>blen := blen b + length xs\<rparr>) = bdata b @ xs"
    "blen (write_free xs b) = blen b" "offset (write_free xs b) = offset b"
    "acknowledged (write_free xs b) = acknowledged b"
  using assms by (cases xs; auto simp: write_free_def bdata_def bcap_def min_def)+

text \<open>\<^verbatim>\<open>ToFill\<close>, the caller's write and \<^verbatim>\<open>Fill\<close>, on the list of buffers.\<close>

definition put :: "bytes \<Rightarrow> buffer \<Rightarrow> buffer" where
  "put xs b = (write_free xs b)\<lparr>blen := blen b + length xs\<rparr>"

lemma put_simps:
  assumes "blen b + length xs \<le> bcap b"
  shows "bdata (put xs b) = bdata b @ xs" "bcap (put xs b) = bcap b" "blen (put xs b) = blen b + length xs"
    "offset (put xs b) = offset b" "acknowledged (put xs b) = acknowledged b"
  using assms write_free_simps [OF assms] by (simp_all add: put_def)

lemma put_unread:
  assumes "blen b + length xs \<le> bcap b"
  shows "offset b \<le> blen b \<Longrightarrow> unread (put xs b) = unread b @ xs"
    "acknowledged b \<le> blen b \<Longrightarrow> unacked (put xs b) = unacked b @ xs"
  using assms by (simp_all add: unread_def unacked_def put_simps length_bdata)

lemma buffers_ToFill_cases:
  assumes "buffers_ToFill fresh bs = (bs', n)" "fresh_buffer sz fresh" "0 < sz"
  obtains (same) ini l where "bs = ini @ [l]" "bs' = bs" "n = bcap l - blen l" "0 < n"
  | (new) "bs' = bs @ [fresh]" "n = sz" "bs = [] \<or> bcap (last bs) \<le> blen (last bs)"
  using assms by (cases bs rule: rev_cases)
    (auto simp: buffers_ToFill_def Let_def fresh_buffer_def split: if_splits)

lemma fresh_buffer_content: "fresh_buffer sz b \<Longrightarrow> unread b = [] \<and> unacked b = [] \<and> buffer_ok sz b"
  by (auto simp: fresh_buffer_def unread_def unacked_def buffer_ok_def bdata_def)

end
