(* ===== verification/Send_Window.thy ===== *)
theory Send_Window imports Windows begin

text \<open>
  \<^verbatim>\<open>SendWindow\<close> of \<^verbatim>\<open>proxy/nasshp/window.go\<close>: the operations over lists of buffers (theory Blist
  has the pointers), and the proof that the window implements a stream with an acknowledged and a
  sent position.
\<close>

section \<open>SendWindow\<close>

record SendWindow =
  sw_Filled :: u64
  sw_Emptied :: u64
  sw_acknowledged :: u64
  sw_buffer :: "buffer list"
  sw_pending :: "buffer list"

definition NewSendWindow :: SendWindow where
  "NewSendWindow = \<lparr>sw_Filled = 0, sw_Emptied = 0, sw_acknowledged = 0, sw_buffer = [], sw_pending = []\<rparr>"

definition SendWindow_ToFill :: "buffer \<Rightarrow> SendWindow \<Rightarrow> SendWindow \<times> nat" where
  "SendWindow_ToFill fresh w =
    (let (bs, n) = buffers_ToFill fresh (sw_buffer w) in (w\<lparr>sw_buffer := bs\<rparr>, n))"

definition SendWindow_Fill :: "nat \<Rightarrow> SendWindow \<Rightarrow> (SendWindow \<times> u64) option" where
  "SendWindow_Fill amount w =
    (let last = last_of (sw_buffer w); filled = sw_Filled w + of_nat amount in
     if bcap last < blen last + amount then None
     else Some (w\<lparr>sw_Filled := filled,
                  sw_buffer := on_last (\<lambda>b. b\<lparr>blen := blen b + amount\<rparr>) (sw_buffer w)\<rparr>, filled))"

definition SendWindow_ToEmpty :: "SendWindow \<Rightarrow> SendWindow \<times> bytes" where
  "SendWindow_ToEmpty w =
    (let first = first_of (sw_buffer w); data = drop (offset first) (bdata first) in
     if data = [] \<and> tl (sw_buffer w) \<noteq> []
     then let rest = tl (sw_buffer w); first' = first_of rest in
       (w\<lparr>sw_buffer := rest, sw_pending := sw_pending w @ [first\<lparr>offset := 0\<rparr>]\<rparr>,
        drop (offset first') (bdata first'))
     else (w, data))"

text \<open>The loop of \<^verbatim>\<open>Empty\<close>: the buffers left, and the buffers moved to \<^verbatim>\<open>pending\<close> so far.\<close>

fun SendWindow_Empty_loop :: "nat \<Rightarrow> buffer list \<Rightarrow> buffer list \<Rightarrow> buffer list \<times> buffer list" where
  "SendWindow_Empty_loop amount [] pending = ([], pending)"
| "SendWindow_Empty_loop amount (first # rest) pending =
    (let occupancy = blen first - offset first in
     if amount < occupancy then (first\<lparr>offset := offset first + amount\<rparr> # rest, pending)
     else if rest = [] then ([first\<lparr>offset := offset first + occupancy\<rparr>], pending)
     else SendWindow_Empty_loop (amount - occupancy) rest (pending @ [first\<lparr>offset := 0\<rparr>]))"

definition SendWindow_Empty :: "nat \<Rightarrow> SendWindow \<Rightarrow> SendWindow" where
  "SendWindow_Empty amount w =
    (let (bs, pending) = SendWindow_Empty_loop amount (sw_buffer w) (sw_pending w) in
     w\<lparr>sw_Emptied := sw_Emptied w + of_nat amount, sw_buffer := bs, sw_pending := pending\<rparr>)"

text \<open>
  The loop over \<^verbatim>\<open>pending\<close>: \<^const>\<open>None\<close> as the second component when it returns, the size left
  when it reaches the end of the list.
\<close>

fun Acknowledge_pending :: "nat \<Rightarrow> buffer list \<Rightarrow> buffer list \<times> nat option" where
  "Acknowledge_pending amount [] = ([], if amount = 0 then None else Some amount)"
| "Acknowledge_pending amount (first # rest) =
    (if amount = 0 then (first # rest, None)
     else let occupancy = blen first - acknowledged first in
       if amount < occupancy then (first\<lparr>acknowledged := acknowledged first + amount\<rparr> # rest, None)
       else Acknowledge_pending (amount - occupancy) rest)"

definition acknowledge_first :: "nat \<Rightarrow> buffer \<Rightarrow> buffer" where
  "acknowledge_first amount b =
    (if acknowledged b + amount < offset b then b\<lparr>acknowledged := acknowledged b + amount\<rparr>
     else b\<lparr>acknowledged := offset b\<rparr>)"

definition SendWindow_Acknowledge :: "nat \<Rightarrow> SendWindow \<Rightarrow> SendWindow" where
  "SendWindow_Acknowledge amount w =
    (let w1 = w\<lparr>sw_acknowledged := sw_acknowledged w + of_nat amount\<rparr> in
     case Acknowledge_pending amount (sw_pending w) of
       (pending, None) \<Rightarrow> w1\<lparr>sw_pending := pending\<rparr>
     | (pending, Some left) \<Rightarrow>
         w1\<lparr>sw_pending := pending, sw_buffer := on_first (acknowledge_first left) (sw_buffer w)\<rparr>)"

datatype ack_error = ImpossibleAck u64 u64 | PoliticalAck u64 u64

definition SendWindow_AcknowledgeUntil :: "u32 \<Rightarrow> SendWindow \<Rightarrow> SendWindow \<times> u64 \<times> ack_error option" where
  "SendWindow_AcknowledgeUntil trunc w =
    (let value = ToAbsolute (sw_acknowledged w) trunc in
     if sw_Emptied w < value then (w, sw_acknowledged w, Some (ImpossibleAck value (sw_Emptied w)))
     else if value < sw_acknowledged w
     then (w, sw_acknowledged w, Some (PoliticalAck value (sw_acknowledged w)))
     else let w' = SendWindow_Acknowledge (unat (value - sw_acknowledged w)) w in
       (w', sw_acknowledged w', None))"

definition SendWindow_Reset :: "u32 \<Rightarrow> SendWindow \<Rightarrow> SendWindow \<times> ack_error option" where
  "SendWindow_Reset trunc w =
    (let value = ToAbsolute (sw_acknowledged w) trunc in
     if sw_Emptied w < value then (w, Some (ImpossibleAck value (sw_Emptied w)))
     else if value < sw_acknowledged w then (w, Some (PoliticalAck value (sw_acknowledged w)))
     else let w1 = SendWindow_Acknowledge (unat (value - sw_acknowledged w)) w;
              bs = sw_pending w1 @ on_first (\<lambda>b. b\<lparr>offset := 0\<rparr>) (sw_buffer w1)
       in (w1\<lparr>sw_buffer := on_first (\<lambda>b. b\<lparr>offset := acknowledged b\<rparr>) bs, sw_pending := [],
              sw_Emptied := sw_acknowledged w1\<rparr>, None))"

subsection \<open>What a send window holds\<close>

text \<open>The bytes not yet acknowledged and the bytes not yet sent.\<close>

definition sw_retained :: "SendWindow \<Rightarrow> bytes" where
  "sw_retained w = concat (map unacked (sw_pending w @ sw_buffer w))"

definition sw_unsent :: "SendWindow \<Rightarrow> bytes" where
  "sw_unsent w = concat (map unread (sw_buffer w))"

text \<open>
  The window holds the stream \<open>S\<close> from the first unacknowledged byte on. \<open>sz\<close> is the size of the
  buffers. Every buffer but the last is full, only the first buffer that is not yet sent has an
  offset, and only the oldest buffer is partly acknowledged.
\<close>

definition sw_shape :: "nat \<Rightarrow> buffer list \<Rightarrow> buffer list \<Rightarrow> bool" where
  "sw_shape sz pending bs \<longleftrightarrow> 0 < sz
    \<and> (\<forall>b \<in> set (pending @ bs). buffer_ok sz b)
    \<and> (\<forall>b \<in> set (pending @ butlast bs). blen b = sz)
    \<and> (\<forall>b \<in> set pending. offset b = 0) \<and> (\<forall>b \<in> set (tl bs). offset b = 0)
    \<and> (\<forall>b \<in> set (tl (pending @ bs)). acknowledged b = 0)
    \<and> (\<forall>b \<in> set (take 1 bs). acknowledged b \<le> offset b) \<and> (pending \<noteq> [] \<longrightarrow> bs \<noteq> [])"

definition sw_inv :: "nat \<Rightarrow> bytes \<Rightarrow> SendWindow \<Rightarrow> bool" where
  "sw_inv sz S w \<longleftrightarrow> length S < 2 ^ 63 \<and> unat (sw_Filled w) = length S
    \<and> sw_acknowledged w \<le> sw_Emptied w \<and> sw_Emptied w \<le> sw_Filled w
    \<and> sw_shape sz (sw_pending w) (sw_buffer w)
    \<and> sw_retained w = drop (unat (sw_acknowledged w)) S
    \<and> sw_unsent w = drop (unat (sw_Emptied w)) S"

subsection \<open>The operations on the two lists\<close>

lemma sw_shape_snoc:
  "sw_shape sz p (ini @ [l]) \<longleftrightarrow> 0 < sz \<and> (\<forall>b \<in> set (p @ ini). buffer_ok sz b \<and> blen b = sz) \<and> buffer_ok sz l
    \<and> (\<forall>b \<in> set p. offset b = 0) \<and> (\<forall>b \<in> set (tl (ini @ [l])). offset b = 0)
    \<and> (\<forall>b \<in> set (tl (p @ ini @ [l])). acknowledged b = 0)
    \<and> (\<forall>b \<in> set (take 1 (ini @ [l])). acknowledged b \<le> offset b)"
  by (auto simp: sw_shape_def)

lemma sw_shape_ToFill:
  assumes sh: "sw_shape sz p bs" and f: "fresh_buffer sz fresh" and run: "buffers_ToFill fresh bs = (bs', n)"
  shows "sw_shape sz p bs' \<and> bs' \<noteq> [] \<and> n = bcap (last bs') - blen (last bs') \<and> 0 < n
    \<and> concat (map unread bs') = concat (map unread bs)
    \<and> concat (map unacked bs') = concat (map unacked bs)"
proof -
  have sz: "0 < sz" using sh by (simp add: sw_shape_def)
  have fr: "offset fresh = 0" "acknowledged fresh = 0" "blen fresh = 0" "bcap fresh = sz"
    using f by (auto simp: fresh_buffer_def)
  from run f sz show ?thesis
  proof (cases rule: buffers_ToFill_cases)
    case (same ini l)
    then show ?thesis using sh by auto
  next
    case new
    have full: "\<forall>b \<in> set bs. blen b = sz"
    proof (cases bs rule: rev_cases)
      case (snoc ini l)
      then show ?thesis using new sh by (auto simp: sw_shape_snoc buffer_ok_def)
    qed simp
    show ?thesis
      using new sh fr full fresh_buffer_content [OF f]
      by (cases bs; cases p) (auto simp: sw_shape_def)
  qed
qed

lemma sw_shape_put:
  assumes "sw_shape sz p (ini @ [l])" "blen l + length xs \<le> bcap l"
  shows "sw_shape sz p (ini @ [put xs l])"
  using assms unfolding sw_shape_snoc
  by (cases ini; cases p) (auto simp: buffer_ok_def put_simps)

lemma sw_shape_Empty_loop:
  assumes "sw_shape sz p bs" "amount \<le> length (concat (map unread bs))"
    "SendWindow_Empty_loop amount bs p = (bs', p')"
  shows "sw_shape sz p' bs' \<and> concat (map unread bs') = drop amount (concat (map unread bs))
    \<and> concat (map unacked (p' @ bs')) = concat (map unacked (p @ bs))"
  using assms
proof (induction amount bs p rule: SendWindow_Empty_loop.induct)
  case (1 amount p)
  then show ?case by simp
next
  case (2 amount first rest p)
  let ?occ = "blen first - offset first"
  have ok: "buffer_ok sz first" using 2(2) by (simp add: sw_shape_def)
  then have u: "length (unread first) = ?occ" by (auto simp: unread_def length_bdata buffer_ok_def)
  have split: "concat (map unread (first # rest)) = unread first @ concat (map unread rest)" by simp
  show ?case
  proof (cases "amount < ?occ \<or> rest = []")
    case True
    let ?f = "first\<lparr>offset := offset first + amount\<rparr>"
    have le: "amount \<le> ?occ" using True 2(3) u by auto
    have r: "(bs', p') = (?f # rest, p)" using True 2(3,4) u le
      by (auto simp: Let_def split: if_splits)
    have "sw_shape sz p (?f # rest)" using 2(2) le ok
      by (cases rest; cases p) (auto simp: sw_shape_def buffer_ok_def)
    moreover have "unread ?f = drop amount (unread first)" by (simp add: unread_def add.commute)
    ultimately show ?thesis using r le u by simp
  next
    case False
    let ?f = "first\<lparr>offset := 0\<rparr>"
    have "sw_shape sz (p @ [?f]) rest" using 2(2) False ok
      by (cases rest; cases p) (auto simp: sw_shape_def buffer_ok_def)
    then have "sw_shape sz p' bs' \<and> concat (map unread bs') = drop (amount - ?occ) (concat (map unread rest))
      \<and> concat (map unacked (p' @ bs')) = concat (map unacked ((p @ [?f]) @ rest))"
      using 2 False u by (intro 2(1)) auto
    then show ?thesis using False u by simp
  qed
qed

text \<open>What is retained splits into what was sent and what was not.\<close>

definition sent_unacked :: "buffer list \<Rightarrow> buffer list \<Rightarrow> nat" where
  "sent_unacked p bs = length (concat (map unacked p)) + (offset (first_of bs) - acknowledged (first_of bs))"

lemma sw_shape_split:
  assumes "sw_shape sz p bs"
  shows "drop (sent_unacked p bs) (concat (map unacked (p @ bs))) = concat (map unread bs)"
    "length (concat (map unacked (p @ bs))) = sent_unacked p bs + length (concat (map unread bs))"
proof -
  have *: "drop (sent_unacked p bs) (concat (map unacked (p @ bs))) = concat (map unread bs)
    \<and> length (concat (map unacked (p @ bs))) = sent_unacked p bs + length (concat (map unread bs))"
  proof (cases bs)
    case Nil
    then show ?thesis using assms by (simp add: sw_shape_def sent_unacked_def)
  next
    case (Cons b r)
    have "\<forall>x \<in> set r. unacked x = unread x"
      using assms Cons by (cases p) (auto simp: sw_shape_def unacked_def unread_def)
    then have r: "concat (map unacked r) = concat (map unread r)" by (metis map_cong)
    have b: "buffer_ok sz b" "acknowledged b \<le> offset b" using assms Cons by (auto simp: sw_shape_def)
    then have "drop (offset b - acknowledged b) (unacked b) = unread b"
      "length (unacked b) = offset b - acknowledged b + length (unread b)"
      by (auto simp: unacked_def unread_def buffer_ok_def length_bdata)
    then show ?thesis using Cons r by (simp add: sent_unacked_def)
  qed
  then show "drop (sent_unacked p bs) (concat (map unacked (p @ bs))) = concat (map unread bs)"
    "length (concat (map unacked (p @ bs))) = sent_unacked p bs + length (concat (map unread bs))"
    by auto
qed

lemma Acknowledge_pending_ok:
  assumes "sw_shape sz p bs" "Acknowledge_pending amount p = (p', res)"
  shows "case res of
      None \<Rightarrow> amount \<le> length (concat (map unacked p)) \<and> sw_shape sz p' bs
        \<and> concat (map unacked p') = drop amount (concat (map unacked p))
    | Some left \<Rightarrow> p' = [] \<and> 0 < left \<and> amount = length (concat (map unacked p)) + left \<and> sw_shape sz [] bs"
  using assms
proof (induction amount p rule: Acknowledge_pending.induct)
  case (1 amount)
  then show ?case by (auto split: if_splits)
next
  case (2 amount first rest)
  let ?occ = "blen first - acknowledged first"
  have ok: "buffer_ok sz first" using 2(2) by (simp add: sw_shape_def)
  then have u: "length (unacked first) = ?occ" by (auto simp: unacked_def length_bdata buffer_ok_def)
  have sh: "sw_shape sz rest bs" using 2(2)
    by (cases rest; cases bs) (auto simp: sw_shape_def)
  show ?case
  proof (cases "amount = 0 \<or> amount < ?occ")
    case True
    have "sw_shape sz (first\<lparr>acknowledged := acknowledged first + amount\<rparr> # rest) bs"
      using 2(2) True ok by (auto simp: sw_shape_def buffer_ok_def)
    moreover have "unacked (first\<lparr>acknowledged := acknowledged first + amount\<rparr>) = drop amount (unacked first)"
      by (simp add: unacked_def add.commute)
    ultimately show ?thesis using True 2(3) u 2(2) by (auto simp: Let_def split: if_splits)
  next
    case False
    then have run: "Acknowledge_pending (amount - ?occ) rest = (p', res)" using 2(3) by (simp add: Let_def)
    from 2(1) [OF _ refl _ sh run] False show ?thesis
      by (auto split: option.splits simp: u)
  qed
qed

text \<open>\<^verbatim>\<open>Acknowledge\<close> drops the acknowledged bytes from the front of what is retained.\<close>

definition Acknowledge_lists :: "nat \<Rightarrow> buffer list \<Rightarrow> buffer list \<Rightarrow> buffer list \<times> buffer list" where
  "Acknowledge_lists amount p bs = (case Acknowledge_pending amount p of
     (p', None) \<Rightarrow> (p', bs) | (p', Some left) \<Rightarrow> (p', on_first (acknowledge_first left) bs))"

lemma sw_shape_Acknowledge:
  assumes sh: "sw_shape sz p bs" and le: "amount \<le> sent_unacked p bs"
    and run: "Acknowledge_lists amount p bs = (p', bs')"
  shows "sw_shape sz p' bs' \<and> concat (map unread bs') = concat (map unread bs)
    \<and> concat (map unacked (p' @ bs')) = drop amount (concat (map unacked (p @ bs)))"
proof (cases "Acknowledge_pending amount p")
  case (Pair q res)
  note ack = Acknowledge_pending_ok [OF sh Pair]
  show ?thesis
  proof (cases res)
    case None
    then show ?thesis using ack run Pair by (simp add: Acknowledge_lists_def)
  next
    case (Some left)
    then have q: "q = []" "amount = length (concat (map unacked p)) + left" "sw_shape sz [] bs"
      using ack by auto
    then have l: "left \<le> offset (first_of bs) - acknowledged (first_of bs)" "0 < left"
      using le ack Some by (auto simp: sent_unacked_def)
    then obtain b r where b: "bs = b # r" by (cases bs) auto
    have f: "acknowledge_first left b = b\<lparr>acknowledged := acknowledged b + left\<rparr>"
      using l b by (auto simp: acknowledge_first_def)
    have "unacked (b\<lparr>acknowledged := acknowledged b + left\<rparr>) = drop left (unacked b)"
      by (simp add: unacked_def add.commute)
    moreover have "left \<le> length (unacked b)"
      using l b q(3) by (auto simp: unacked_def length_bdata sw_shape_def buffer_ok_def)
    moreover have "sw_shape sz [] (b\<lparr>acknowledged := acknowledged b + left\<rparr> # r)"
      using q(3) b l by (auto simp: sw_shape_def buffer_ok_def)
    ultimately show ?thesis
      using q(1,2) run Pair Some b f by (auto simp: Acknowledge_lists_def)
  qed
qed

definition Reset_lists :: "buffer list \<Rightarrow> buffer list \<Rightarrow> buffer list" where
  "Reset_lists p bs = on_first (\<lambda>b. b\<lparr>offset := acknowledged b\<rparr>) (p @ on_first (\<lambda>b. b\<lparr>offset := 0\<rparr>) bs)"

lemma sw_shape_rewind:
  assumes "\<forall>b \<in> set q. offset b = 0 \<and> buffer_ok sz b" "\<forall>b \<in> set (tl q). acknowledged b = 0"
      "\<forall>b \<in> set (butlast q). blen b = sz" "0 < sz"
    and bs: "bs = on_first (\<lambda>b. b\<lparr>offset := acknowledged b\<rparr>) q"
  shows "sw_shape sz [] bs" "concat (map unread bs) = concat (map unacked q)"
    "concat (map unacked bs) = concat (map unacked q)"
proof -
  have *: "sw_shape sz [] bs \<and> concat (map unread bs) = concat (map unacked q)
    \<and> concat (map unacked bs) = concat (map unacked q)"
  proof (cases q)
    case (Cons b r)
    have "\<forall>x \<in> set r. unread x = unacked x" using assms Cons by (simp add: unread_def unacked_def)
    then have "concat (map unread r) = concat (map unacked r)" by (metis map_cong)
    moreover have "drop (acknowledged b) (bdata b) = unacked b" by (simp add: unacked_def)
    moreover have "buffer_ok sz (b\<lparr>offset := acknowledged b\<rparr>)" using assms(1) Cons by (simp add: buffer_ok_def)
    moreover have "\<forall>x \<in> set (butlast (b\<lparr>offset := acknowledged b\<rparr> # r)). blen x = sz"
      using assms(3) Cons by simp
    ultimately show ?thesis using assms(1,2,4) Cons bs unfolding sw_shape_def by simp
  qed (use assms in \<open>simp add: sw_shape_def\<close>)
  then show "sw_shape sz [] bs" "concat (map unread bs) = concat (map unacked q)"
    "concat (map unacked bs) = concat (map unacked q)" by auto
qed

lemma sw_shape_Reset:
  assumes "sw_shape sz p bs"
  shows "sw_shape sz [] (Reset_lists p bs) \<and> concat (map unread (Reset_lists p bs)) = concat (map unacked (p @ bs))
    \<and> concat (map unacked (Reset_lists p bs)) = concat (map unacked (p @ bs))"
proof (cases bs)
  case Nil
  then show ?thesis using assms by (simp add: sw_shape_def Reset_lists_def)
next
  case (Cons c r)
  let ?q = "p @ c\<lparr>offset := 0\<rparr> # r"
  have "\<forall>b \<in> set ?q. offset b = 0 \<and> buffer_ok sz b"
    using assms Cons by (auto simp: sw_shape_def buffer_ok_def)
  moreover have "\<forall>b \<in> set (tl ?q). acknowledged b = 0"
    using assms Cons by (cases p) (simp_all add: sw_shape_def ball_Un)
  moreover have "\<forall>b \<in> set (butlast ?q). blen b = sz"
    using assms Cons by (simp add: sw_shape_def butlast_append ball_Un)
  moreover have "0 < sz" using assms by (simp add: sw_shape_def)
  moreover have "Reset_lists p bs = on_first (\<lambda>b. b\<lparr>offset := acknowledged b\<rparr>) ?q"
    by (simp add: Reset_lists_def Cons)
  ultimately have "sw_shape sz [] (Reset_lists p bs)"
    "concat (map unread (Reset_lists p bs)) = concat (map unacked ?q)"
    "concat (map unacked (Reset_lists p bs)) = concat (map unacked ?q)"
    by (rule sw_shape_rewind)+
  then show ?thesis using Cons by simp
qed

subsection \<open>The operations keep the invariant\<close>

text \<open>The operation the filling side performs: get the free space, write into its front, \<^verbatim>\<open>Fill\<close>.\<close>

definition sw_write :: "bytes \<Rightarrow> SendWindow \<Rightarrow> SendWindow" where
  "sw_write xs w = w\<lparr>sw_buffer := on_last (write_free xs) (sw_buffer w)\<rparr>"

theorem SendWindow_fill_ok:
  assumes inv: "sw_inv sz S w" and f: "fresh_buffer sz fresh"
    and get: "SendWindow_ToFill fresh w = (w1, free)" and fit: "length xs \<le> free"
    and small: "length S + length xs < 2 ^ 63"
  shows "0 < free \<and> sw_inv sz S w1 \<and> (\<exists>w2. SendWindow_Fill (length xs) (sw_write xs w1) = Some (w2, sw_Filled w2)
    \<and> sw_inv sz (S @ xs) w2)"
proof -
  obtain bs where bs: "buffers_ToFill fresh (sw_buffer w) = (bs, free)" "w1 = w\<lparr>sw_buffer := bs\<rparr>"
    using get by (auto simp: SendWindow_ToFill_def split: prod.splits)
  have sh: "sw_shape sz (sw_pending w) (sw_buffer w)" using inv by (simp add: sw_inv_def)
  note g = sw_shape_ToFill [OF sh f bs(1)]
  obtain ini l where l: "bs = ini @ [l]" using g by (cases bs rule: rev_cases) auto
  have room: "blen l + length xs \<le> bcap l" using g l fit by auto
  have shl: "sw_shape sz (sw_pending w) (ini @ [l])" using g l by simp
  note put = sw_shape_put [OF shl room]
  have lok: "offset l \<le> blen l" "acknowledged l \<le> blen l" using shl by (auto simp: sw_shape_snoc buffer_ok_def)
  define w2 where "w2 = w\<lparr>sw_Filled := sw_Filled w + of_nat (length xs), sw_buffer := ini @ [put xs l]\<rparr>"
  have run: "SendWindow_Fill (length xs) (sw_write xs w1) = Some (w2, sw_Filled w2)"
    using room write_free_simps [OF room]
    by (simp add: SendWindow_Fill_def sw_write_def bs(2) l put_def w2_def Let_def)
  have fl: "unat (sw_Filled w2) = length (S @ xs)"
    using inv small by (simp add: w2_def sw_inv_def unat_word_ariths unat_of_nat)
  have le: "sw_acknowledged w \<le> sw_Emptied w" "sw_Emptied w \<le> sw_Filled w" "unat (sw_Filled w) = length S"
    using inv by (auto simp: sw_inv_def)
  then have e: "unat (sw_Emptied w) \<le> length S" "unat (sw_acknowledged w) \<le> length S"
    unfolding word_le_nat_alt by auto
  have "sw_Emptied w \<le> sw_Filled w2" using e fl by (simp add: word_le_nat_alt)
  moreover have "sw_retained w2 = drop (unat (sw_acknowledged w)) (S @ xs)"
    using inv g l e put_unread [OF room] lok by (auto simp: sw_retained_def w2_def sw_inv_def)
  moreover have "sw_unsent w2 = drop (unat (sw_Emptied w)) (S @ xs)"
    using inv g l e put_unread [OF room] lok by (auto simp: sw_unsent_def w2_def sw_inv_def)
  ultimately have "sw_inv sz (S @ xs) w2"
    using fl small put le by (simp add: sw_inv_def) (simp add: w2_def)
  moreover have "sw_inv sz S w1" using inv g by (simp add: sw_inv_def bs(2) sw_retained_def sw_unsent_def)
  ultimately show ?thesis using run g by auto
qed

lemma sw_inv_lengths:
  assumes "sw_inv sz S w"
  shows "length (sw_retained w) = length S - unat (sw_acknowledged w)"
    "length (sw_unsent w) = length S - unat (sw_Emptied w)"
    "unat (sw_acknowledged w) \<le> unat (sw_Emptied w)" "unat (sw_Emptied w) \<le> length S"
    "unat (sw_Emptied w) = unat (sw_acknowledged w) + sent_unacked (sw_pending w) (sw_buffer w)"
proof -
  have sh: "sw_shape sz (sw_pending w) (sw_buffer w)" using assms by (simp add: sw_inv_def)
  show a: "length (sw_retained w) = length S - unat (sw_acknowledged w)"
    "length (sw_unsent w) = length S - unat (sw_Emptied w)"
    "unat (sw_acknowledged w) \<le> unat (sw_Emptied w)" "unat (sw_Emptied w) \<le> length S"
    using assms by (simp_all add: sw_inv_def word_le_nat_alt)
  show "unat (sw_Emptied w) = unat (sw_acknowledged w) + sent_unacked (sw_pending w) (sw_buffer w)"
    using sw_shape_split(2) [OF sh] a unfolding sw_retained_def sw_unsent_def by linarith
qed

lemma SendWindow_Acknowledge_lists:
  "SendWindow_Acknowledge amount w =
    (let (p, bs) = Acknowledge_lists amount (sw_pending w) (sw_buffer w) in
     w\<lparr>sw_acknowledged := sw_acknowledged w + of_nat amount, sw_pending := p, sw_buffer := bs\<rparr>)"
  by (auto simp: SendWindow_Acknowledge_def Acknowledge_lists_def Let_def split: prod.splits option.splits)

lemma SendWindow_Acknowledge_ok:
  assumes inv: "sw_inv sz S w" and v: "sw_acknowledged w \<le> value" "value \<le> sw_Emptied w"
  shows "sw_inv sz S (SendWindow_Acknowledge (unat (value - sw_acknowledged w)) w)"
    "sw_acknowledged (SendWindow_Acknowledge (unat (value - sw_acknowledged w)) w) = value"
    "sw_Emptied (SendWindow_Acknowledge (unat (value - sw_acknowledged w)) w) = sw_Emptied w"
    "sw_Filled (SendWindow_Acknowledge (unat (value - sw_acknowledged w)) w) = sw_Filled w"
proof -
  let ?n = "unat (value - sw_acknowledged w)"
  obtain p bs where run: "Acknowledge_lists ?n (sw_pending w) (sw_buffer w) = (p, bs)" by fastforce
  have n: "?n = unat value - unat (sw_acknowledged w)" using v by (simp add: unat_sub)
  have le: "?n \<le> sent_unacked (sw_pending w) (sw_buffer w)"
    using v sw_inv_lengths(5) [OF inv] by (simp add: n word_le_nat_alt)
  have sh: "sw_shape sz (sw_pending w) (sw_buffer w)" using inv by (simp add: sw_inv_def)
  note k = sw_shape_Acknowledge [OF sh le run]
  have w': "SendWindow_Acknowledge ?n w = w\<lparr>sw_acknowledged := value, sw_pending := p, sw_buffer := bs\<rparr>"
    by (simp add: SendWindow_Acknowledge_lists run)
  have "unat value = ?n + unat (sw_acknowledged w)" using v by (simp add: n word_le_nat_alt)
  then have "drop ?n (drop (unat (sw_acknowledged w)) S) = drop (unat value) S" by simp
  then show "sw_inv sz S (SendWindow_Acknowledge ?n w)"
    unfolding w' using k inv v
    by (simp del: map_append concat_append drop_append add: sw_inv_def sw_retained_def sw_unsent_def)
  show "sw_acknowledged (SendWindow_Acknowledge ?n w) = value"
    "sw_Emptied (SendWindow_Acknowledge ?n w) = sw_Emptied w"
    "sw_Filled (SendWindow_Acknowledge ?n w) = sw_Filled w" unfolding w' by simp_all
qed

theorem SendWindow_AcknowledgeUntil_ok:
  assumes inv: "sw_inv sz S w" and run: "SendWindow_AcknowledgeUntil trunc w = (w', val, err)"
  shows "sw_inv sz S w' \<and> sw_Filled w' = sw_Filled w \<and> sw_Emptied w' = sw_Emptied w \<and> val = sw_acknowledged w'
    \<and> (if sw_acknowledged w \<le> ToAbsolute (sw_acknowledged w) trunc \<and> ToAbsolute (sw_acknowledged w) trunc \<le> sw_Emptied w
       then err = None \<and> sw_acknowledged w' = ToAbsolute (sw_acknowledged w) trunc
       else err \<noteq> None \<and> w' = w)"
proof (cases "sw_acknowledged w \<le> ToAbsolute (sw_acknowledged w) trunc \<and> ToAbsolute (sw_acknowledged w) trunc \<le> sw_Emptied w")
  case True
  then have "w' = SendWindow_Acknowledge (unat (ToAbsolute (sw_acknowledged w) trunc - sw_acknowledged w)) w"
    "sw_acknowledged w' = val" "err = None"
    using run by (auto simp: SendWindow_AcknowledgeUntil_def Let_def split: if_splits)
  then show ?thesis using True SendWindow_Acknowledge_ok [OF inv] by auto
next
  case False
  then show ?thesis using run inv
    by (auto simp: SendWindow_AcknowledgeUntil_def Let_def not_le split: if_splits)
qed

theorem SendWindow_Reset_ok:
  assumes inv: "sw_inv sz S w" and run: "SendWindow_Reset trunc w = (w', err)"
  shows "sw_inv sz S w' \<and> sw_Filled w' = sw_Filled w
    \<and> (if sw_acknowledged w \<le> ToAbsolute (sw_acknowledged w) trunc \<and> ToAbsolute (sw_acknowledged w) trunc \<le> sw_Emptied w
       then err = None \<and> sw_acknowledged w' = ToAbsolute (sw_acknowledged w) trunc \<and> sw_Emptied w' = sw_acknowledged w'
       else err \<noteq> None \<and> w' = w)"
proof (cases "sw_acknowledged w \<le> ToAbsolute (sw_acknowledged w) trunc \<and> ToAbsolute (sw_acknowledged w) trunc \<le> sw_Emptied w")
  case True
  define w1 where "w1 = SendWindow_Acknowledge (unat (ToAbsolute (sw_acknowledged w) trunc - sw_acknowledged w)) w"
  have w1: "sw_inv sz S w1" "sw_acknowledged w1 = ToAbsolute (sw_acknowledged w) trunc"
    "sw_Emptied w1 = sw_Emptied w" "sw_Filled w1 = sw_Filled w"
    using SendWindow_Acknowledge_ok [OF inv] True by (simp_all add: w1_def)
  have w': "w' = w1\<lparr>sw_buffer := Reset_lists (sw_pending w1) (sw_buffer w1), sw_pending := [], sw_Emptied := sw_acknowledged w1\<rparr>"
    "err = None"
    using True run by (simp_all add: SendWindow_Reset_def Let_def not_less [symmetric] w1_def Reset_lists_def)
  have sh: "sw_shape sz (sw_pending w1) (sw_buffer w1)" using w1 by (simp add: sw_inv_def)
  have "sw_inv sz S w'" using w1(1) sw_shape_Reset [OF sh]
    by (auto simp: w'(1) sw_inv_def sw_retained_def sw_unsent_def)
  then show ?thesis using True w1 w' by simp
next
  case False
  then show ?thesis using run inv
    by (auto simp: SendWindow_Reset_def Let_def not_le split: if_splits)
qed

theorem SendWindow_Empty_ok:
  assumes inv: "sw_inv sz S w" and le: "amount \<le> length (sw_unsent w)"
  shows "sw_inv sz S (SendWindow_Empty amount w)
    \<and> unat (sw_Emptied (SendWindow_Empty amount w)) = unat (sw_Emptied w) + amount
    \<and> sw_acknowledged (SendWindow_Empty amount w) = sw_acknowledged w
    \<and> sw_Filled (SendWindow_Empty amount w) = sw_Filled w"
proof -
  have sh: "sw_shape sz (sw_pending w) (sw_buffer w)" using inv by (simp add: sw_inv_def)
  obtain bs p where run: "SendWindow_Empty_loop amount (sw_buffer w) (sw_pending w) = (bs, p)" by fastforce
  note k = sw_shape_Empty_loop [OF sh le [unfolded sw_unsent_def] run]
  have l: "amount \<le> length S - unat (sw_Emptied w)" "unat (sw_Emptied w) \<le> length S"
    using le sw_inv_lengths [OF inv] by auto
  have w': "SendWindow_Empty amount w = w\<lparr>sw_Emptied := sw_Emptied w + of_nat amount, sw_buffer := bs, sw_pending := p\<rparr>"
    by (simp add: SendWindow_Empty_def run)
  have "length S < 2 ^ 63" using inv by (simp add: sw_inv_def)
  then have e: "unat (sw_Emptied w + of_nat amount) = unat (sw_Emptied w) + amount"
    using l by (simp add: unat_word_ariths unat_of_nat)
  have "sw_inv sz S (SendWindow_Empty amount w)"
    using inv k l(1) e le_diff_conv2 [OF l(2)] by (simp add: w' sw_inv_def sw_retained_def sw_unsent_def word_le_nat_alt add.commute)
  then show ?thesis using e by (simp add: w')
qed

theorem SendWindow_ToEmpty_ok:
  assumes inv: "sw_inv sz S w" and run: "SendWindow_ToEmpty w = (w', data)"
  shows "sw_inv sz S w' \<and> sw_Filled w' = sw_Filled w \<and> sw_Emptied w' = sw_Emptied w
    \<and> sw_acknowledged w' = sw_acknowledged w
    \<and> (\<exists>rest. drop (unat (sw_Emptied w)) S = data @ rest) \<and> (data = [] \<longleftrightarrow> sw_Emptied w = sw_Filled w)"
proof -
  have sh: "sw_shape sz (sw_pending w) (sw_buffer w)" using inv by (simp add: sw_inv_def)
  have un: "sw_unsent w = drop (unat (sw_Emptied w)) S" and fl: "unat (sw_Filled w) = length S"
    using inv by (auto simp: sw_inv_def)
  have all: "sw_Emptied w = sw_Filled w \<longleftrightarrow> sw_unsent w = []"
    using sw_inv_lengths(4) [OF inv] by (auto simp: un word_unat_eq_iff fl)
  show ?thesis
  proof (cases "unread (first_of (sw_buffer w)) = [] \<and> tl (sw_buffer w) \<noteq> []")
    case False
    then have r: "w' = w" "data = unread (first_of (sw_buffer w))"
      using run by (auto simp: SendWindow_ToEmpty_def Let_def unread_def)
    have "sw_unsent w = data @ concat (map unread (tl (sw_buffer w)))"
      by (cases "sw_buffer w") (simp_all add: r sw_unsent_def unread_def)
    moreover have "data = [] \<longleftrightarrow> sw_unsent w = []"
      using False r by (cases "sw_buffer w") (auto simp: sw_unsent_def unread_def)
    ultimately show ?thesis using inv r all un by auto
  next
    case True
    then obtain b c cs where b: "sw_buffer w = b # c # cs" "unread b = []"
      by (cases "sw_buffer w"; cases "tl (sw_buffer w)") (auto simp: unread_def)
    have r: "w' = w\<lparr>sw_buffer := c # cs, sw_pending := sw_pending w @ [b\<lparr>offset := 0\<rparr>]\<rparr>" "data = unread c"
      using run b by (auto simp: SendWindow_ToEmpty_def Let_def unread_def)
    have sp: "sw_shape sz (sw_pending w @ [b\<lparr>offset := 0\<rparr>]) (c # cs)"
      using sh b by (cases "sw_pending w") (auto simp: sw_shape_def buffer_ok_def)
    have "sw_inv sz S w'"
      using inv sp b r by (simp add: sw_inv_def sw_retained_def sw_unsent_def)
    moreover have "sw_unsent w = data @ concat (map unread cs)" by (simp add: b r sw_unsent_def)
    moreover have "data = [] \<longleftrightarrow> sw_unsent w = []"
    proof (cases "cs = []")
      case True
      then show ?thesis by (simp add: b r sw_unsent_def)
    next
      case False
      then have "blen c = sz" "offset c = 0" "0 < sz" "bcap c = sz"
        using sh b by (auto simp: sw_shape_def buffer_ok_def)
      then have "length (unread c) = sz" by (simp add: unread_def length_bdata)
      then have "unread c \<noteq> []" using \<open>0 < sz\<close> by auto
      then show ?thesis by (simp add: b r sw_unsent_def)
    qed
    ultimately show ?thesis using r un all by auto
  qed
qed

subsection \<open>Histories\<close>

text \<open>
  What the two goroutines of a session do with a send window: read from ssh into the free space, send
  at most \<open>n\<close> bytes of what \<^verbatim>\<open>ToEmpty\<close> returns to the browser, take an acknowledgement, and
  go back to the position a new browser asks for. The history keeps the bytes read so far and a log
  of what was sent, with its position.
\<close>

datatype sw_op = OpFill bytes | OpSend nat | OpAck u32 | OpReset u32

definition empty_buffer :: "nat \<Rightarrow> buffer" where
  "empty_buffer sz = \<lparr>barray = replicate sz 0, blen = 0, offset = 0, acknowledged = 0\<rparr>"

lemma empty_buffer_fresh: "fresh_buffer sz (empty_buffer sz)"
  by (simp add: fresh_buffer_def empty_buffer_def bcap_def)

type_synonym sw_history = "bytes \<times> SendWindow \<times> (nat \<times> bytes) list"

fun sw_step :: "nat \<Rightarrow> sw_op \<Rightarrow> sw_history \<Rightarrow> sw_history" where
  "sw_step sz (OpFill xs) (S, w, log) =
    (let (w1, free) = SendWindow_ToFill (empty_buffer sz) w; ys = take free xs in
     case SendWindow_Fill (length ys) (sw_write ys w1) of None \<Rightarrow> (S, w, log)
     | Some (w2, _) \<Rightarrow> (S @ ys, w2, log))"
| "sw_step sz (OpSend n) (S, w, log) =
    (let (w1, data) = SendWindow_ToEmpty w; chunk = take n data in
     (S, SendWindow_Empty (length chunk) w1, log @ [(unat (sw_Emptied w1), chunk)]))"
| "sw_step sz (OpAck trunc) (S, w, log) = (S, fst (SendWindow_AcknowledgeUntil trunc w), log)"
| "sw_step sz (OpReset trunc) (S, w, log) = (S, fst (SendWindow_Reset trunc w), log)"

definition sw_run :: "nat \<Rightarrow> sw_op list \<Rightarrow> sw_history" where
  "sw_run sz ops = fold (sw_step sz) ops ([], NewSendWindow, [])"

definition sw_history_ok :: "nat \<Rightarrow> sw_history \<Rightarrow> bool" where
  "sw_history_ok sz = (\<lambda>(S, w, log). sw_inv sz S w \<and> (\<forall>(p, d) \<in> set log. take (length d) (drop p S) = d))"

lemma log_append: "(\<forall>(p, d) \<in> set log. take (length d) (drop p S) = d) \<Longrightarrow>
    \<forall>(p, d) \<in> set log. take (length d) (drop p (S @ xs)) = d"
proof clarify
  fix p d assume "\<forall>(p, d) \<in> set log. take (length d) (drop p S) = d" "(p, d) \<in> set log"
  then have d: "take (length d) (drop p S) = d" by auto
  then have "length d \<le> length (drop p S)" by (metis length_take min.absorb_iff2 min.commute)
  then show "take (length d) (drop p (S @ xs)) = d" using d by simp
qed

lemma sw_step_stream: "\<exists>ys. fst (sw_step sz op (S, w, log)) = S @ ys"
  by (cases op) (auto simp: Let_def split: prod.splits option.splits)

lemma sw_step_ok:
  assumes ok: "sw_history_ok sz (S, w, log)" and small: "length (fst (sw_step sz op (S, w, log))) < 2 ^ 63"
  shows "sw_history_ok sz (sw_step sz op (S, w, log))"
proof (cases op)
  case (OpFill xs)
  obtain w1 free where g: "SendWindow_ToFill (empty_buffer sz) w = (w1, free)" by fastforce
  define ys where "ys = take free xs"
  have inv: "sw_inv sz S w" "fresh_buffer sz (empty_buffer sz)"
    using ok by (simp_all add: sw_history_ok_def empty_buffer_def fresh_buffer_def bcap_def)
  have st: "sw_step sz op (S, w, log) = (case SendWindow_Fill (length ys) (sw_write ys w1) of None \<Rightarrow> (S, w, log)
     | Some (w2, _) \<Rightarrow> (S @ ys, w2, log))"
    unfolding ys_def by (simp add: OpFill g Let_def)
  show ?thesis
  proof (cases "SendWindow_Fill (length ys) (sw_write ys w1)")
    case None
    then show ?thesis using st ok by simp
  next
    case (Some r)
    then have st': "sw_step sz op (S, w, log) = (S @ ys, fst r, log)" using st by (simp split: prod.splits)
    then have "length S + length ys < 2 ^ 63" using small by simp
    from SendWindow_fill_ok [OF inv g _ this] Some have "sw_inv sz (S @ ys) (fst r)"
      by (auto simp: ys_def)
    then show ?thesis using st' ok log_append [of log S ys] by (simp add: sw_history_ok_def)
  qed
next
  case (OpSend n)
  obtain w1 data where r: "SendWindow_ToEmpty w = (w1, data)" by fastforce
  have inv: "sw_inv sz S w" using ok by (simp add: sw_history_ok_def)
  from SendWindow_ToEmpty_ok [OF inv r] obtain rest where
    w1: "sw_inv sz S w1" "sw_Emptied w1 = sw_Emptied w" "drop (unat (sw_Emptied w)) S = data @ rest" by auto
  then have "sw_unsent w1 = data @ rest" by (simp add: sw_inv_def)
  then have "length (take n data) \<le> length (sw_unsent w1)" by simp
  from SendWindow_Empty_ok [OF w1(1) this] have "sw_inv sz S (SendWindow_Empty (length (take n data)) w1)" by simp
  moreover have "take (length (take n data)) (drop (unat (sw_Emptied w1)) S) = take n data"
    using w1 by (simp add: min_def)
  ultimately show ?thesis using ok by (simp add: OpSend r sw_history_ok_def Let_def)
next
  case (OpAck trunc)
  then show ?thesis using ok SendWindow_AcknowledgeUntil_ok [of sz S w trunc]
    by (auto simp: sw_history_ok_def) (metis prod.collapse)
next
  case (OpReset trunc)
  then show ?thesis using ok SendWindow_Reset_ok [of sz S w trunc]
    by (auto simp: sw_history_ok_def) (metis prod.collapse)
qed

lemma sw_fold_ok:
  assumes "sw_history_ok sz st" "length (fst (fold (sw_step sz) ops st)) < 2 ^ 63"
  shows "sw_history_ok sz (fold (sw_step sz) ops st)"
  using assms
proof (induction ops arbitrary: st)
  case (Cons op ops)
  have mono: "length (fst s) \<le> length (fst (fold (sw_step sz) ops s))" for s
  proof (induction ops arbitrary: s)
    case (Cons op ops)
    have "length (fst s) \<le> length (fst (sw_step sz op s))"
      using sw_step_stream [of sz op "fst s" "fst (snd s)" "snd (snd s)"] by auto
    then show ?case using Cons [of "sw_step sz op s"] by simp
  qed simp
  have "length (fst (sw_step sz op st)) < 2 ^ 63" using Cons.prems(2) mono [of "sw_step sz op st"] by simp
  then have "sw_history_ok sz (sw_step sz op st)"
    using Cons.prems(1) sw_step_ok [of sz "fst st" "fst (snd st)" "snd (snd st)" op] by simp
  then show ?case using Cons by simp
qed simp

text \<open>C5: Whatever the two sides do with a send window, every chunk of data that was ever handed to
  the browser is the part of the ssh stream at the position it was sent for, also after the browser
  reconnects and the window goes back; and the window still retains exactly the bytes of the stream
  that were not acknowledged, in buffers of which only the last may be partly filled.\<close>

theorem SendWindow_history:
  assumes "sw_run sz ops = (S, w, log)" "0 < sz" "length S < 2 ^ 63"
  shows "(\<forall>(p, d) \<in> set log. take (length d) (drop p S) = d)
    \<and> sw_retained w = drop (unat (sw_acknowledged w)) S \<and> sw_unsent w = drop (unat (sw_Emptied w)) S
    \<and> sw_acknowledged w \<le> sw_Emptied w \<and> sw_Emptied w \<le> sw_Filled w \<and> unat (sw_Filled w) = length S"
proof -
  have "sw_history_ok sz ([], NewSendWindow, [])"
    using assms(2) by (simp add: sw_history_ok_def sw_inv_def NewSendWindow_def sw_shape_def
        sw_retained_def sw_unsent_def)
  from sw_fold_ok [OF this, of ops] show ?thesis using assms
    by (simp add: sw_run_def sw_history_ok_def sw_inv_def)
qed

definition demo_ops :: "sw_op list" where
  "demo_ops = [OpFill [1, 2, 3], OpFill [4, 5, 6], OpSend 2, OpSend 9, OpAck 2, OpReset 3, OpSend 9]"

lemma demo_run: "fst (sw_run 3 demo_ops) = [1, 2, 3, 4, 5, 6]"
    "snd (snd (sw_run 3 demo_ops)) = [(0, [1, 2]), (2, [3]), (3, [4, 5, 6])]"
  by code_simp+

theorem SendWindow_history_witness:
  "list_all (\<lambda>(p, d). take (length d) (drop p (fst (sw_run 3 demo_ops))) = d) (snd (snd (sw_run 3 demo_ops)))"
  using SendWindow_history [of 3 demo_ops "fst (sw_run 3 demo_ops)" "fst (snd (sw_run 3 demo_ops))"
    "snd (snd (sw_run 3 demo_ops))"] demo_run by (simp add: list_all_iff)

end
