(* ===== verification/Receive_Window.thy ===== *)
theory Receive_Window imports Windows begin

text \<open>
  \<^verbatim>\<open>ReceiveWindow\<close> of \<^verbatim>\<open>proxy/nasshp/window.go\<close>: the operations over a list of buffers, and the
  proof that the bytes taken out of the window are the browser's stream, each byte once, although
  the browser may go back and send again what was received already.
\<close>

section \<open>ReceiveWindow\<close>

record ReceiveWindow =
  rw_Filled :: u64
  rw_reset :: u64
  rw_Emptied :: u64
  rw_buffer :: "buffer list"

definition NewReceiveWindow :: ReceiveWindow where
  "NewReceiveWindow = \<lparr>rw_Filled = 0, rw_reset = 0, rw_Emptied = 0, rw_buffer = []\<rparr>"

datatype reset_error = LeavesGap u64 u64

definition ReceiveWindow_Reset :: "buffer \<Rightarrow> u32 \<Rightarrow> ReceiveWindow \<Rightarrow> ReceiveWindow \<times> reset_error option" where
  "ReceiveWindow_Reset fresh wack w =
    (let value = ToAbsolute (rw_Emptied w) wack in
     if value = rw_Filled w then (w, None)
     else if rw_Filled w < value then (w, Some (LeavesGap value (rw_Filled w)))
     else let bs = (if 0 < blen (last_of (rw_buffer w)) then rw_buffer w @ [fresh] else rw_buffer w)
       in (w\<lparr>rw_buffer := bs, rw_reset := value\<rparr>, None))"

definition ReceiveWindow_ToFill :: "buffer \<Rightarrow> ReceiveWindow \<Rightarrow> ReceiveWindow \<times> nat" where
  "ReceiveWindow_ToFill fresh w =
    (let (bs, n) = buffers_ToFill fresh (rw_buffer w) in (w\<lparr>rw_buffer := bs\<rparr>, n))"

definition ReceiveWindow_Fill :: "nat \<Rightarrow> ReceiveWindow \<Rightarrow> (ReceiveWindow \<times> u64) option" where
  "ReceiveWindow_Fill amount w =
    (let grow = (\<lambda>w. if bcap (last_of (rw_buffer w)) < blen (last_of (rw_buffer w)) + amount then None
           else Some (w\<lparr>rw_buffer := on_last (\<lambda>b. b\<lparr>blen := blen b + amount\<rparr>) (rw_buffer w)\<rparr>, rw_Filled w))
     in if rw_reset w \<noteq> 0 \<and> rw_reset w < rw_Filled w
     then let sentalready = rw_Filled w - rw_reset w in
       if of_nat amount < sentalready
       then Some (w\<lparr>rw_reset := rw_reset w + of_nat amount\<rparr>, rw_reset w + of_nat amount)
       else grow (w\<lparr>rw_buffer := on_last (\<lambda>b. b\<lparr>offset := unat sentalready\<rparr>) (rw_buffer w), rw_reset := 0,
              rw_Filled := rw_Filled w + (of_nat amount - sentalready)\<rparr>)
     else grow (w\<lparr>rw_Filled := rw_Filled w + of_nat amount\<rparr>))"

definition ReceiveWindow_ToEmpty :: "ReceiveWindow \<Rightarrow> ReceiveWindow \<times> bytes" where
  "ReceiveWindow_ToEmpty w =
    (let first = first_of (rw_buffer w); rest = tl (rw_buffer w) in
     if rw_reset w \<noteq> 0 \<and> rest = [] then (w, [])
     else let data = drop (offset first) (bdata first) in
       if data = [] \<and> rest \<noteq> []
       then (w\<lparr>rw_buffer := rest\<rparr>, drop (offset (first_of rest)) (bdata (first_of rest)))
       else (w, data))"

fun ReceiveWindow_Empty_loop :: "nat \<Rightarrow> buffer list \<Rightarrow> buffer list" where
  "ReceiveWindow_Empty_loop amount [] = []"
| "ReceiveWindow_Empty_loop amount (first # rest) =
    (let occupancy = blen first - offset first in
     if amount < occupancy then first\<lparr>offset := offset first + amount\<rparr> # rest
     else if rest = [] then [first\<lparr>offset := offset first + occupancy\<rparr>]
     else ReceiveWindow_Empty_loop (amount - occupancy) rest)"

definition ReceiveWindow_Empty :: "nat \<Rightarrow> ReceiveWindow \<Rightarrow> ReceiveWindow" where
  "ReceiveWindow_Empty amount w = w\<lparr>rw_Emptied := rw_Emptied w + of_nat amount,
     rw_buffer := ReceiveWindow_Empty_loop amount (rw_buffer w)\<rparr>"

definition rw_write :: "bytes \<Rightarrow> ReceiveWindow \<Rightarrow> ReceiveWindow" where
  "rw_write xs w = w\<lparr>rw_buffer := on_last (write_free xs) (rw_buffer w)\<rparr>"

subsection \<open>The invariant\<close>

text \<open>
  \<open>U\<close> is the browser's stream and \<open>pos\<close> the position from which the browser sends next. While a
  reset is pending the last buffer is empty, so that the repeated bytes land at its beginning.
\<close>

definition rw_shape :: "nat \<Rightarrow> bool \<Rightarrow> buffer list \<Rightarrow> bool" where
  "rw_shape sz resetting bs \<longleftrightarrow> (\<forall>b \<in> set bs. buffer_ok sz b)
    \<and> (resetting \<longrightarrow> blen (last_of bs) = 0 \<and> offset (last_of bs) = 0)"

definition rw_unread :: "ReceiveWindow \<Rightarrow> bytes" where
  "rw_unread w = concat (map unread (rw_buffer w))"

definition rw_inv :: "nat \<Rightarrow> bytes \<Rightarrow> nat \<Rightarrow> ReceiveWindow \<Rightarrow> bool" where
  "rw_inv sz U pos w \<longleftrightarrow> 0 < sz \<and> length U < 2 ^ 63 \<and> unat (rw_Filled w) \<le> length U
    \<and> rw_Emptied w \<le> rw_Filled w \<and> rw_shape sz (rw_reset w \<noteq> 0) (rw_buffer w)
    \<and> (rw_reset w \<noteq> 0 \<longrightarrow> rw_reset w < rw_Filled w)
    \<and> pos = (if rw_reset w \<noteq> 0 then unat (rw_reset w) else unat (rw_Filled w))
    \<and> rw_unread w = take (unat (rw_Filled w) - unat (rw_Emptied w)) (drop (unat (rw_Emptied w)) U)"

lemma rw_shape_Empty_loop:
  assumes "rw_shape sz r bs" "amount \<le> length (concat (map unread bs))"
  shows "rw_shape sz r (ReceiveWindow_Empty_loop amount bs)
    \<and> concat (map unread (ReceiveWindow_Empty_loop amount bs)) = drop amount (concat (map unread bs))"
  using assms
proof (induction amount bs rule: ReceiveWindow_Empty_loop.induct)
  case (2 amount first rest)
  let ?occ = "blen first - offset first"
  have ok: "buffer_ok sz first" using 2(2) by (simp add: rw_shape_def)
  then have u: "length (unread first) = ?occ" by (auto simp: unread_def length_bdata buffer_ok_def)
  show ?case
  proof (cases "amount < ?occ \<or> rest = []")
    case True
    let ?f = "first\<lparr>offset := offset first + amount\<rparr>"
    have le: "amount \<le> ?occ" using True 2(3) u by auto
    have run: "ReceiveWindow_Empty_loop amount (first # rest) = ?f # rest" using True le by (auto simp: Let_def)
    have "rw_shape sz r (?f # rest)" using 2(2) le ok
      by (auto simp: rw_shape_def buffer_ok_def last_of_def split: if_splits)
    moreover have "unread ?f = drop amount (unread first)" by (simp add: unread_def add.commute)
    ultimately show ?thesis using run le u by simp
  next
    case False
    then have run: "ReceiveWindow_Empty_loop amount (first # rest) = ReceiveWindow_Empty_loop (amount - ?occ) rest"
      by (simp add: Let_def)
    have "rw_shape sz r rest" using 2(2) False by (auto simp: rw_shape_def last_of_def)
    then have "rw_shape sz r (ReceiveWindow_Empty_loop (amount - ?occ) rest)
      \<and> concat (map unread (ReceiveWindow_Empty_loop (amount - ?occ) rest)) = drop (amount - ?occ) (concat (map unread rest))"
      using 2 False u by (intro 2(1)) auto
    then show ?thesis using run False u by simp
  qed
qed simp

lemma rw_inv_lengths:
  assumes "rw_inv sz U pos w"
  shows "unat (rw_Emptied w) \<le> unat (rw_Filled w)" "pos \<le> unat (rw_Filled w)"
    "length (rw_unread w) = unat (rw_Filled w) - unat (rw_Emptied w)"
  using assms by (auto simp: rw_inv_def word_le_nat_alt word_less_nat_alt split: if_splits)

theorem ReceiveWindow_Empty_ok:
  assumes inv: "rw_inv sz U pos w" and le: "amount \<le> length (rw_unread w)"
  shows "rw_inv sz U pos (ReceiveWindow_Empty amount w)
    \<and> unat (rw_Emptied (ReceiveWindow_Empty amount w)) = unat (rw_Emptied w) + amount"
proof -
  have sh: "rw_shape sz (rw_reset w \<noteq> 0) (rw_buffer w)" using inv by (simp add: rw_inv_def)
  note k = rw_shape_Empty_loop [OF sh le [unfolded rw_unread_def]]
  have l: "unat (rw_Emptied w) + amount \<le> unat (rw_Filled w)" "unat (rw_Filled w) < 2 ^ 63"
    using le rw_inv_lengths [OF inv] inv by (auto simp: rw_inv_def)
  then have e: "unat (rw_Emptied w + of_nat amount) = unat (rw_Emptied w) + amount"
    by (simp add: unat_word_ariths unat_of_nat)
  have "rw_inv sz U pos (ReceiveWindow_Empty amount w)"
    using inv k e l by (simp add: rw_inv_def ReceiveWindow_Empty_def rw_unread_def word_le_nat_alt
        drop_take add.commute)
  then show ?thesis using e by (simp add: ReceiveWindow_Empty_def)
qed

theorem ReceiveWindow_ToEmpty_ok:
  assumes inv: "rw_inv sz U pos w" and run: "ReceiveWindow_ToEmpty w = (w', data)"
  shows "rw_inv sz U pos w' \<and> rw_Emptied w' = rw_Emptied w \<and> rw_Filled w' = rw_Filled w
    \<and> rw_unread w' = rw_unread w \<and> (\<exists>rest. rw_unread w = data @ rest)"
proof (cases "unread (first_of (rw_buffer w)) = [] \<and> tl (rw_buffer w) \<noteq> []")
  case True
  then obtain b c cs where b: "rw_buffer w = b # c # cs" "unread b = []"
    by (cases "rw_buffer w"; cases "tl (rw_buffer w)") (auto simp: unread_def)
  then have r: "w' = w\<lparr>rw_buffer := c # cs\<rparr>" "data = unread c"
    using run by (auto simp: ReceiveWindow_ToEmpty_def Let_def unread_def)
  have "rw_unread w = data @ concat (map unread cs)" "rw_unread w' = rw_unread w" using b r by (simp_all add: rw_unread_def)
  moreover have "rw_inv sz U pos w'" using inv b calculation(2) r(1)
    by (simp add: rw_inv_def rw_shape_def last_of_def split: if_splits)
  ultimately show ?thesis using r by auto
next
  case False
  then have "w' = w" "data = [] \<or> data = unread (first_of (rw_buffer w))"
    using run by (auto simp: ReceiveWindow_ToEmpty_def Let_def unread_def split: if_splits)
  then show ?thesis using inv by (cases "rw_buffer w") (auto simp: rw_unread_def unread_def)
qed

theorem ReceiveWindow_Reset_ok:
  assumes inv: "rw_inv sz U pos w" and f: "fresh_buffer sz fresh"
    and run: "ReceiveWindow_Reset fresh wack w = (w', err)"
    and ok: "ToAbsolute (rw_Emptied w) wack \<noteq> 0" "ToAbsolute (rw_Emptied w) wack = rw_Filled w \<longrightarrow> rw_reset w = 0"
  shows "(if ToAbsolute (rw_Emptied w) wack \<le> rw_Filled w
      then err = None \<and> rw_inv sz U (unat (ToAbsolute (rw_Emptied w) wack)) w'
      else err \<noteq> None \<and> w' = w)
    \<and> rw_Emptied w' = rw_Emptied w \<and> rw_Filled w' = rw_Filled w \<and> rw_unread w' = rw_unread w"
proof -
  define v where "v = ToAbsolute (rw_Emptied w) wack"
  define bs where "bs = (if 0 < blen (last_of (rw_buffer w)) then rw_buffer w @ [fresh] else rw_buffer w)"
  have fr: "blen fresh = 0" "offset fresh = 0" "unread fresh = []" "buffer_ok sz fresh"
    using f fresh_buffer_content [OF f] by (auto simp: fresh_buffer_def)
  have sh: "rw_shape sz b (rw_buffer w)" if "b = (rw_reset w \<noteq> 0)" for b using inv that by (simp add: rw_inv_def)
  have lo: "offset (last_of (rw_buffer w)) \<le> blen (last_of (rw_buffer w))"
    using sh [OF refl] by (auto simp: rw_shape_def last_of_def buffer_ok_def no_buffer_def)
  have "rw_shape sz True bs"
    using sh [OF refl] fr lo by (auto simp: rw_shape_def bs_def last_of_def)
  moreover have "concat (map unread bs) = rw_unread w" using fr by (simp add: bs_def rw_unread_def)
  moreover have "(if v = rw_Filled w then (w, None)
     else if rw_Filled w < v then (w, Some (LeavesGap v (rw_Filled w)))
     else (w\<lparr>rw_buffer := bs, rw_reset := v\<rparr>, None)) = (w', err)"
    using run unfolding ReceiveWindow_Reset_def Let_def bs_def v_def .
  ultimately show ?thesis using inv ok unfolding v_def [symmetric]
    by (auto simp: rw_inv_def rw_unread_def split: if_splits)
qed

lemma take_more: "e \<le> f \<Longrightarrow> take (f - e) (drop e U) @ take k (drop f U) = take (f + k - e) (drop e U)"
proof -
  assume "e \<le> f"
  then have "take (f + k - e) (drop e U) = take ((f - e) + k) (drop e U)" by simp
  then show ?thesis unfolding take_add using \<open>e \<le> f\<close> by simp
qed

lemma rw_shape_ToFill:
  assumes sh: "rw_shape sz r bs" and sz: "0 < sz" and f: "fresh_buffer sz fresh" and run: "buffers_ToFill fresh bs = (bs', n)"
  shows "rw_shape sz r bs' \<and> bs' \<noteq> [] \<and> n = bcap (last bs') - blen (last bs') \<and> 0 < n
    \<and> concat (map unread bs') = concat (map unread bs)"
proof -
  have fr: "blen fresh = 0" "offset fresh = 0" "unread fresh = []" "buffer_ok sz fresh" "bcap fresh = sz"
    using f fresh_buffer_content [OF f] by (auto simp: fresh_buffer_def)
  from run f sz show ?thesis
  proof (cases rule: buffers_ToFill_cases)
    case (same ini l)
    then show ?thesis using sh by auto
  next
    case new
    then show ?thesis using sh fr sz by (auto simp: rw_shape_def last_of_def)
  qed
qed

lemma rw_inv_plain:
  assumes "0 < sz" "length U < 2 ^ 63" "rw_reset w = 0" "unat (rw_Filled w) = q" "q \<le> length U"
    "unat (rw_Emptied w) \<le> q" "\<forall>b \<in> set (rw_buffer w). buffer_ok sz b"
    "concat (map unread (rw_buffer w)) = take (q - unat (rw_Emptied w)) (drop (unat (rw_Emptied w)) U)"
  shows "rw_inv sz U q w"
  using assms by (simp add: rw_inv_def rw_shape_def rw_unread_def word_le_nat_alt)

text \<open>Bytes written to the last buffer, which has room for them and holds nothing while a reset is pending.\<close>

definition rw_room :: "nat \<Rightarrow> bytes \<Rightarrow> nat \<Rightarrow> ReceiveWindow \<Rightarrow> buffer list \<Rightarrow> buffer \<Rightarrow> nat \<Rightarrow> bool" where
  "rw_room sz U pos w ini l n \<longleftrightarrow> rw_inv sz U pos w \<and> rw_buffer w = ini @ [l] \<and> 0 < sz \<and> length U < 2 ^ 63 \<and> pos + n \<le> length U \<and>
    blen l + n \<le> bcap l \<and> (rw_reset w \<noteq> 0 \<longrightarrow> bdata l = [])"

lemma rw_roomD:
  assumes r: "rw_room sz U pos w ini l n" and xs: "xs = take n (drop pos U)"
  shows "0 < sz" "length U < 2 ^ 63" "pos + n < 2 ^ 63" "pos + n \<le> length U" "n < 2 ^ 63" "unat (of_nat (pos + n) :: u64) = pos + n"
    and "length xs = n" "blen l + length xs \<le> bcap l" "rw_reset w \<noteq> 0 \<Longrightarrow> bdata l = []"
    and "concat (map unread (ini @ [l])) = take (unat (rw_Filled w) - unat (rw_Emptied w)) (drop (unat (rw_Emptied w)) U)"
    and "unat (rw_Emptied w) \<le> unat (rw_Filled w)" "\<forall>b \<in> set ini. buffer_ok sz b" "buffer_ok sz l"
    and "pos = (if rw_reset w \<noteq> 0 then unat (rw_reset w) else unat (rw_Filled w))"
    and "rw_buffer (rw_write xs w) = ini @ [write_free xs l]" "rw_reset (rw_write xs w) = rw_reset w"
    and "rw_Filled (rw_write xs w) = rw_Filled w" "rw_Emptied (rw_write xs w) = rw_Emptied w"
    and "blen (write_free xs l) = blen l" "bcap (write_free xs l) = bcap l" "unread (write_free xs l) = unread l"
    and "offset (write_free xs l) = offset l" "buffer_ok sz (write_free xs l) = buffer_ok sz l"
proof -
  show b: "0 < sz" "length U < 2 ^ 63" "pos + n \<le> length U" "rw_reset w \<noteq> 0 \<Longrightarrow> bdata l = []" using r by (simp_all add: rw_room_def)
  show l: "pos + n < 2 ^ 63" "n < 2 ^ 63" using b by simp_all
  show "unat (of_nat (pos + n) :: u64) = pos + n" using l by (simp add: unat_of_nat del: of_nat_add)
  show n: "length xs = n" using b by (simp add: xs)
  show room: "blen l + length xs \<le> bcap l" using r n by (simp add: rw_room_def)
  have inv: "rw_inv sz U pos w" "rw_buffer w = ini @ [l]" using r by (simp_all add: rw_room_def)
  then show "concat (map unread (ini @ [l])) = take (unat (rw_Filled w) - unat (rw_Emptied w)) (drop (unat (rw_Emptied w)) U)"
    "unat (rw_Emptied w) \<le> unat (rw_Filled w)" "\<forall>b \<in> set ini. buffer_ok sz b" "buffer_ok sz l"
    "pos = (if rw_reset w \<noteq> 0 then unat (rw_reset w) else unat (rw_Filled w))"
    by (auto simp: rw_inv_def rw_shape_def rw_unread_def word_le_nat_alt)
  show "rw_buffer (rw_write xs w) = ini @ [write_free xs l]" "rw_reset (rw_write xs w) = rw_reset w"
    "rw_Filled (rw_write xs w) = rw_Filled w" "rw_Emptied (rw_write xs w) = rw_Emptied w"
    by (simp_all add: rw_write_def inv(2))
  show "blen (write_free xs l) = blen l" "bcap (write_free xs l) = bcap l" "unread (write_free xs l) = unread l"
    "offset (write_free xs l) = offset l" "buffer_ok sz (write_free xs l) = buffer_ok sz l"
    using write_free_simps [OF room] by (simp_all add: unread_def buffer_ok_def)
qed

lemma rw_room_Fill_plain:
  assumes r: "rw_room sz U pos w ini l n" and z: "rw_reset w = 0" and xs: "xs = take n (drop pos U)"
  shows "\<exists>w2. ReceiveWindow_Fill n (rw_write xs w) = Some (w2, of_nat (pos + n)) \<and> rw_inv sz U (pos + n) w2 \<and> rw_Emptied w2 = rw_Emptied w"
proof -
  note d = rw_roomD [OF r xs]
  let ?w3 = "w\<lparr>rw_Filled := rw_Filled w + of_nat n, rw_buffer := ini @ [put xs l]\<rparr>" and ?E = "unat (rw_Emptied w)"
  have pos: "pos = unat (rw_Filled w)" using d(14) z by simp
  then have F3: "rw_Filled w + of_nat n = of_nat (pos + n)" by simp
  have "ReceiveWindow_Fill n (rw_write xs w) = Some (?w3, of_nat (pos + n))"
    unfolding ReceiveWindow_Fill_def Let_def d(15-18) using d(7,8,19,20) z r
    by (simp add: F3) (simp add: rw_write_def rw_room_def put_def)
  moreover have "concat (map unread (ini @ [put xs l])) = take (pos + n - ?E) (drop ?E U)"
    using put_unread(1) [OF d(8)] d(13) take_more [OF d(11), of U n] pos unfolding d(10) [symmetric]
    by (simp add: buffer_ok_def xs)
  moreover have "buffer_ok sz (put xs l)" using d(8,13) by (simp add: buffer_ok_def put_simps)
  moreover have "?E \<le> pos + n" using d(11) pos by simp
  moreover have "rw_inv sz U (pos + n) ?w3"
    by (rule rw_inv_plain) (use calculation d z in \<open>simp_all add: F3 del: of_nat_add\<close>)
  ultimately show ?thesis by (auto simp: F3)
qed

lemma rw_room_Fill_inside:
  assumes r: "rw_room sz U pos w ini l n" and nz: "rw_reset w \<noteq> 0" and xs: "xs = take n (drop pos U)" and lt: "pos + n < unat (rw_Filled w)"
  shows "\<exists>w2. ReceiveWindow_Fill n (rw_write xs w) = Some (w2, of_nat (pos + n)) \<and> rw_inv sz U (pos + n) w2 \<and> rw_Emptied w2 = rw_Emptied w"
proof -
  note d = rw_roomD [OF r xs]
  let ?w3 = "(rw_write xs w)\<lparr>rw_reset := rw_reset w + of_nat n\<rparr>"
  have inv: "rw_inv sz U pos w" "rw_buffer w = ini @ [l]" using r by (simp_all add: rw_room_def)
  have pos: "pos = unat (rw_reset w)" using d(14) nz by simp
  then have ne: "rw_reset w \<noteq> 0 \<and> rw_reset w < rw_Filled w" using nz lt by (simp add: word_less_nat_alt)
  have "unat (rw_Filled w - rw_reset w) = unat (rw_Filled w) - pos" using ne pos by (simp add: unat_sub word_le_nat_alt word_less_nat_alt)
  then have ul: "of_nat n < rw_Filled w - rw_reset w" using lt d(5) by (simp add: word_less_nat_alt unat_of_nat)
  have r3: "rw_reset w + of_nat n = of_nat (pos + n)" using pos by simp
  have n0: "(of_nat (pos + n) :: u64) \<noteq> 0" using d(6) nz pos by (metis add_is_0 unat_eq_0 unat_0)
  have "ReceiveWindow_Fill n (rw_write xs w) = Some (?w3, of_nat (pos + n))"
    unfolding ReceiveWindow_Fill_def Let_def d(15-18) using ne ul by (simp add: r3)
  moreover have "rw_inv sz U (pos + n) ?w3"
    using lt inv d(10-13,15-23) n0 d(6) nz unfolding rw_inv_def rw_shape_def rw_unread_def r3
    by (auto simp: last_of_def word_less_nat_alt simp del: of_nat_add split: if_splits)
  ultimately show ?thesis using d(18) by auto
qed

lemma rw_room_Fill_past:
  assumes r: "rw_room sz U pos w ini l n" and nz: "rw_reset w \<noteq> 0" and xs: "xs = take n (drop pos U)" and ge: "unat (rw_Filled w) \<le> pos + n"
  shows "\<exists>w2. ReceiveWindow_Fill n (rw_write xs w) = Some (w2, of_nat (pos + n)) \<and> rw_inv sz U (pos + n) w2 \<and> rw_Emptied w2 = rw_Emptied w"
proof -
  note d = rw_roomD [OF r xs]
  let ?F = "unat (rw_Filled w)" and ?E = "unat (rw_Emptied w)"
  have inv: "rw_inv sz U pos w" "rw_buffer w = ini @ [l]" using r by (simp_all add: rw_room_def)
  have rF: "unat (rw_reset w) < ?F" "pos = unat (rw_reset w)" using inv nz d(14) by (auto simp: rw_inv_def word_less_nat_alt)
  define s where "s = rw_Filled w - rw_reset w"
  have us: "unat s = ?F - pos" using rF by (simp add: s_def unat_sub word_le_nat_alt)
  have ul: "\<not> of_nat n < s" using d(5) ge by (simp add: word_less_nat_alt us unat_of_nat)
  have ne: "rw_reset w \<noteq> 0 \<and> rw_reset w < rw_Filled w" using nz rF by (simp add: word_less_nat_alt)
  let ?w3 = "w\<lparr>rw_Filled := rw_Filled w + (of_nat n - s), rw_reset := 0, rw_buffer := ini @ [(put xs l)\<lparr>offset := unat s\<rparr>]\<rparr>"
  have F3: "rw_Filled w + (of_nat n - s) = of_nat (pos + n)" using rF by (simp add: s_def)
  have "ReceiveWindow_Fill n (rw_write xs w) = Some (?w3, of_nat (pos + n))"
    unfolding ReceiveWindow_Fill_def Let_def d(15-18) using d(7,8,19,20) ne ul inv(2)
    by (simp add: s_def [symmetric] F3) (simp add: rw_write_def put_def)
  moreover have "concat (map unread (ini @ [(put xs l)\<lparr>offset := unat s\<rparr>])) = take (pos + n - ?E) (drop ?E U)"
  proof -
    have "unread l = []" using d(9) [OF nz] by (simp add: unread_def)
    then have "concat (map unread ini) = take (?F - ?E) (drop ?E U)" using d(10) by simp
    moreover have "unread ((put xs l)\<lparr>offset := unat s\<rparr>) = take (n - (?F - pos)) (drop ?F U)"
      using d(9) [OF nz] put_simps(1) [OF d(8)] rF ge by (simp add: us xs drop_take add.commute)
    ultimately show ?thesis using take_more [OF d(11), of U "n - (?F - pos)"] rF ge by (simp add: add.commute)
  qed
  moreover have "buffer_ok sz ((put xs l)\<lparr>offset := unat s\<rparr>)"
    using d(7,8,13) ge us by (simp add: buffer_ok_def put_simps)
  moreover have "?E \<le> pos + n" using d(11) ge by simp
  moreover have "rw_inv sz U (pos + n) ?w3"
    by (rule rw_inv_plain) (use calculation d in \<open>simp_all add: F3 del: of_nat_add\<close>)
  ultimately show ?thesis by (auto simp: F3)
qed

text \<open>\<^verbatim>\<open>Fill\<close> returns the position in the browser's stream up to which the browser has sent.\<close>

theorem ReceiveWindow_fill_ok:
  assumes inv: "rw_inv sz U pos w" and f: "fresh_buffer sz fresh"
    and get: "ReceiveWindow_ToFill fresh w = (w1, free)" and n: "n \<le> free" "pos + n \<le> length U"
  shows "0 < free \<and> rw_inv sz U pos w1 \<and> rw_Emptied w1 = rw_Emptied w
    \<and> (\<exists>w2. ReceiveWindow_Fill n (rw_write (take n (drop pos U)) w1) = Some (w2, of_nat (pos + n))
      \<and> rw_inv sz U (pos + n) w2 \<and> rw_Emptied w2 = rw_Emptied w)"
proof -
  obtain bs where bs: "buffers_ToFill fresh (rw_buffer w) = (bs, free)" "w1 = w\<lparr>rw_buffer := bs\<rparr>"
    using get by (auto simp: ReceiveWindow_ToFill_def split: prod.splits)
  have sh: "rw_shape sz (rw_reset w \<noteq> 0) (rw_buffer w)" and sz: "0 < sz" and LU: "length U < 2 ^ 63" using inv by (auto simp: rw_inv_def)
  note g = rw_shape_ToFill [OF sh sz f bs(1)]
  obtain ini l where l: "bs = ini @ [l]" using g by (cases bs rule: rev_cases) auto
  have inv1: "rw_inv sz U pos w1" using inv g by (simp add: rw_inv_def bs(2) rw_unread_def)
  moreover have "blen l + n \<le> bcap l" using g l n by auto
  moreover have "bdata l = []" if "rw_reset w \<noteq> 0" using g l that by (auto simp: rw_shape_def bdata_def)
  ultimately have r: "rw_room sz U pos w1 ini l n" using sz LU n(2) l by (simp add: rw_room_def bs(2))
  have "\<exists>w2. ReceiveWindow_Fill n (rw_write (take n (drop pos U)) w1) = Some (w2, of_nat (pos + n)) \<and> rw_inv sz U (pos + n) w2 \<and>
      rw_Emptied w2 = rw_Emptied w1"
    using rw_room_Fill_plain [OF r _ refl] rw_room_Fill_inside [OF r _ refl] rw_room_Fill_past [OF r _ refl]
    by (cases "rw_reset w1 = 0"; cases "pos + n < unat (rw_Filled w1)") auto
  moreover have "0 < free" using g by (elim conjE)
  ultimately show ?thesis using inv1 by (simp add: bs(2))
qed

subsection \<open>Histories\<close>

text \<open>
  The browser with the stream \<open>U\<close> sends from the position \<open>pos\<close>, ssh takes bytes out of the window,
  and a new browser resumes from a position it names. The history is the window, the position, and
  the bytes ssh has taken.
\<close>

datatype rw_op = BrowserSend nat | SshWrite nat | Reconnect u32

type_synonym rw_history = "ReceiveWindow \<times> nat \<times> bytes"

fun rw_step :: "nat \<Rightarrow> bytes \<Rightarrow> rw_op \<Rightarrow> rw_history \<Rightarrow> rw_history" where
  "rw_step sz U (BrowserSend n) (w, pos, out) =
    (let (w1, free) = ReceiveWindow_ToFill \<lparr>barray = replicate sz 0, blen = 0, offset = 0, acknowledged = 0\<rparr> w;
         k = min (min n free) (length U - pos)
     in case ReceiveWindow_Fill k (rw_write (take k (drop pos U)) w1) of
       None \<Rightarrow> (w, pos, out) | Some (w2, _) \<Rightarrow> (w2, pos + k, out))"
| "rw_step sz U (SshWrite n) (w, pos, out) =
    (let (w1, data) = ReceiveWindow_ToEmpty w; chunk = take n data in
     (ReceiveWindow_Empty (length chunk) w1, pos, out @ chunk))"
| "rw_step sz U (Reconnect wack) (w, pos, out) =
    (case ReceiveWindow_Reset \<lparr>barray = replicate sz 0, blen = 0, offset = 0, acknowledged = 0\<rparr> wack w of
       (w', None) \<Rightarrow> (w', unat (ToAbsolute (rw_Emptied w) wack), out)
     | (w', Some _) \<Rightarrow> (w', pos, out))"

text \<open>
  Two resets are outside the contract: to position 0, which the field \<^verbatim>\<open>reset\<close> cannot express (the
  callers use 0 for \<^emph>\<open>no request\<close>), and to the end of the received data while an earlier reset is
  still pending.
\<close>

fun rw_guard :: "rw_op \<Rightarrow> rw_history \<Rightarrow> bool" where
  "rw_guard (Reconnect wack) (w, pos, out) = (let v = ToAbsolute (rw_Emptied w) wack in
     v \<noteq> 0 \<and> (v = rw_Filled w \<longrightarrow> rw_reset w = 0))"
| "rw_guard _ _ = True"

fun rw_guarded :: "nat \<Rightarrow> bytes \<Rightarrow> rw_op list \<Rightarrow> rw_history \<Rightarrow> bool" where
  "rw_guarded sz U [] st = True"
| "rw_guarded sz U (op # ops) st = (rw_guard op st \<and> rw_guarded sz U ops (rw_step sz U op st))"

definition rw_run :: "nat \<Rightarrow> bytes \<Rightarrow> rw_op list \<Rightarrow> rw_history" where
  "rw_run sz U ops = fold (rw_step sz U) ops (NewReceiveWindow, 0, [])"

definition rw_history_ok :: "nat \<Rightarrow> bytes \<Rightarrow> rw_history \<Rightarrow> bool" where
  "rw_history_ok sz U = (\<lambda>(w, pos, out). rw_inv sz U pos w \<and> out = take (unat (rw_Emptied w)) U)"

lemma rw_step_ok:
  assumes ok: "rw_history_ok sz U (w, pos, out)" and g: "rw_guard op (w, pos, out)"
  shows "rw_history_ok sz U (rw_step sz U op (w, pos, out))"
proof -
  define fresh where "fresh = \<lparr>barray = replicate sz (0 :: byte), blen = 0, offset = 0, acknowledged = 0\<rparr>"
  have f: "fresh_buffer sz fresh" by (simp add: fresh_def fresh_buffer_def bcap_def)
  have inv: "rw_inv sz U pos w" and out: "out = take (unat (rw_Emptied w)) U"
    using ok by (simp_all add: rw_history_ok_def)
  show ?thesis
  proof (cases op)
    case (BrowserSend n)
    obtain w1 free where t: "ReceiveWindow_ToFill fresh w = (w1, free)" by fastforce
    define k where "k = min (min n free) (length U - pos)"
    have "pos \<le> length U" using rw_inv_lengths(2) [OF inv] inv by (simp add: rw_inv_def)
    then have "k \<le> free" "pos + k \<le> length U" by (auto simp: k_def)
    from ReceiveWindow_fill_ok [OF inv f t this] obtain w2 where
      "ReceiveWindow_Fill k (rw_write (take k (drop pos U)) w1) = Some (w2, of_nat (pos + k))"
      "rw_inv sz U (pos + k) w2" "rw_Emptied w2 = rw_Emptied w" by blast
    then show ?thesis using out t
      by (simp add: BrowserSend rw_history_ok_def fresh_def k_def Let_def)
  next
    case (SshWrite n)
    obtain w1 data where t: "ReceiveWindow_ToEmpty w = (w1, data)" by fastforce
    from ReceiveWindow_ToEmpty_ok [OF inv t] obtain rest where w1: "rw_inv sz U pos w1"
      "rw_Emptied w1 = rw_Emptied w" "rw_unread w1 = data @ rest" by auto
    define chunk where "chunk = take n data"
    have le: "length chunk \<le> length (rw_unread w1)" using w1(3) by (simp add: chunk_def)
    have pre: "take (length chunk) (rw_unread w1) = chunk" using w1(3) by (simp add: chunk_def min_def)
    define m where "m = unat (rw_Filled w1) - unat (rw_Emptied w)"
    have m: "rw_unread w1 = take m (drop (unat (rw_Emptied w)) U)" using w1 by (simp add: rw_inv_def m_def)
    then have "length chunk \<le> m" using le by simp
    then have "take (length chunk) (drop (unat (rw_Emptied w)) U) = chunk"
      using pre unfolding m by (simp add: min_absorb1)
    then have "out @ chunk = take (unat (rw_Emptied w) + length chunk) U" by (simp add: out take_add)
    moreover have "rw_step sz U op (w, pos, out) = (ReceiveWindow_Empty (length chunk) w1, pos, out @ chunk)"
      by (simp only: SshWrite rw_step.simps t chunk_def Let_def prod.case)
    ultimately show ?thesis using ReceiveWindow_Empty_ok [OF w1(1) le] w1(2)
      by (simp add: rw_history_ok_def)
  next
    case (Reconnect wack)
    obtain w' err where t: "ReceiveWindow_Reset fresh wack w = (w', err)" by fastforce
    have "ToAbsolute (rw_Emptied w) wack \<noteq> 0" "ToAbsolute (rw_Emptied w) wack = rw_Filled w \<longrightarrow> rw_reset w = 0"
      using g by (auto simp: Reconnect Let_def)
    from ReceiveWindow_Reset_ok [OF inv f t this] show ?thesis using out inv t
      by (auto simp: Reconnect rw_history_ok_def fresh_def [symmetric] split: if_splits)
  qed
qed

text \<open>C3: However the browser's stream is cut and however ssh takes it, and wherever the browser resumes as long as it keeps to
  \<open>rw_guarded\<close> (not at position 0, and not at the end of the received data while an earlier resume is pending, see
  \<open>ReceiveWindow_stale_reset\<close>), the bytes delivered to ssh are exactly a prefix of the browser's stream: repeated bytes
  are skipped, none is lost and none is delivered twice; what is still in the window continues the
  prefix.\<close>

theorem ReceiveWindow_delivers_stream:
  assumes "rw_guarded sz U ops (NewReceiveWindow, 0, [])" "rw_run sz U ops = (w, pos, out)"
    and "0 < sz" "length U < 2 ^ 63"
  shows "out = take (unat (rw_Emptied w)) U \<and> pos \<le> unat (rw_Filled w)
    \<and> out @ rw_unread w = take (unat (rw_Filled w)) U"
proof -
  have "rw_history_ok sz U (fold (rw_step sz U) ops st)" if "rw_history_ok sz U st" "rw_guarded sz U ops st" for st
    using that
  proof (induction ops arbitrary: st)
    case (Cons op ops)
    then show ?case using rw_step_ok [of sz U "fst st" "fst (snd st)" "snd (snd st)" op] by simp
  qed simp
  moreover have "rw_history_ok sz U (NewReceiveWindow, 0, [])"
    using assms by (simp add: rw_history_ok_def rw_inv_def NewReceiveWindow_def rw_shape_def last_of_def
        no_buffer_def rw_unread_def)
  ultimately have ok: "rw_history_ok sz U (w, pos, out)" using assms(1,2) by (metis rw_run_def)
  then have i: "rw_inv sz U pos w" "out = take (unat (rw_Emptied w)) U" by (simp_all add: rw_history_ok_def)
  then have "unat (rw_Emptied w) \<le> unat (rw_Filled w)" using rw_inv_lengths by blast
  then have "take (unat (rw_Filled w)) U = out @ rw_unread w"
    using i take_add [of "unat (rw_Emptied w)" "unat (rw_Filled w) - unat (rw_Emptied w)" U]
    by (simp add: rw_inv_def)
  then show ?thesis using i rw_inv_lengths(2) [OF i(1)] by simp
qed

definition demo_rw :: "rw_op list" where
  "demo_rw = [BrowserSend 3, SshWrite 2, Reconnect 1, BrowserSend 1, BrowserSend 3, SshWrite 5, SshWrite 9]"

theorem ReceiveWindow_delivers_stream_witness:
  "snd (snd (rw_run 4 [1, 2, 3, 4, 5, 6] demo_rw)) = take 5 [1, 2, 3, 4, 5, 6]"
proof -
  have "rw_guarded 4 [1, 2, 3, 4, 5, 6] demo_rw (NewReceiveWindow, 0, [])" by code_simp
  moreover have "rw_Emptied (fst (rw_run 4 [1, 2, 3, 4, 5, 6] demo_rw)) = 5" by code_simp
  ultimately show ?thesis
    using ReceiveWindow_delivers_stream [of 4 "[1, 2, 3, 4, 5, 6]" demo_rw "fst (rw_run 4 [1, 2, 3, 4, 5, 6] demo_rw)"
      "fst (snd (rw_run 4 [1, 2, 3, 4, 5, 6] demo_rw))" "snd (snd (rw_run 4 [1, 2, 3, 4, 5, 6] demo_rw))"]
    by simp
qed

text \<open>
  A second reset, to the end of the received data, returns early and leaves the first one pending:
  the next bytes (4 and 5, new ones) are taken for repeated ones and discarded, and byte 6 follows
  byte 3 in what ssh gets.
\<close>

lemma ReceiveWindow_stale_reset:
  "snd (snd (rw_run 4 [1, 2, 3, 4, 5, 6] [BrowserSend 3, Reconnect 1, Reconnect 3, BrowserSend 2,
      BrowserSend 1, SshWrite 9, SshWrite 9, SshWrite 9])) = [1, 2, 3, 6]"
  by code_simp

end
