(* ===== verification/Flex_Queue.thy ===== *)
theory Flex_Queue imports Prelude "HOL-Library.Multiset" begin

text \<open>
  \<^verbatim>\<open>flextape/service/queue.go\<close>: the queue of invocations. Every entry carries a \<^verbatim>\<open>QueueID\<close>; the
  invariant \<open>queue_ok\<close> says that the identifiers count up by one along the queue, so that the
  position of an entry is the difference of two identifiers. Invocations are pointers in the code; an
  invocation object is never in two places of a queue, so the model keeps them by value.

  \<^verbatim>\<open>sort.Stable\<close> is the insertion sort of Go's library, through the queue's own \<^verbatim>\<open>Swap\<close> and
  \<^verbatim>\<open>Less\<close>. (Beyond 20 entries the library merges blocks sorted this way; for an order given by a key
  the stable result is unique, which is what \<open>Stable_sort_key\<close> states.)
\<close>

section \<open>Invocations\<close>

record invocation =
  ID :: string
  Owner :: string
  BuildTag :: string
  LastCheckin :: time
  QueueID :: u64

type_synonym Position = u32
type_synonym queue = "invocation list"
type_synonym Sorter = "invocation \<Rightarrow> invocation \<Rightarrow> bool"

text \<open>The message \<^verbatim>\<open>ToProto\<close> builds: owner, build tag, identifier.\<close>

definition ToProto :: "invocation \<Rightarrow> string \<times> string \<times> string" where
  "ToProto i = (Owner i, BuildTag i, ID i)"

section \<open>Operations\<close>

text \<open>\<open>Enqueue\<close> returns the object as it is in the queue, since the caller keeps a pointer to it.\<close>

definition queue_Enqueue :: "invocation \<Rightarrow> queue \<Rightarrow> queue \<times> Position" where
  "queue_Enqueue x iq =
    (let position = of_nat (length iq) :: Position;
         off = (if iq \<noteq> [] then QueueID (hd iq) else 1)
     in (iq @ [x\<lparr>QueueID := off + ucast position\<rparr>], position))"

definition queue_Dequeue :: "queue \<Rightarrow> queue \<times> invocation option" where
  "queue_Dequeue iq = (case iq of [] \<Rightarrow> ([], None) | x # rest \<Rightarrow> (rest, Some (x\<lparr>QueueID := 0\<rparr>)))"

definition queue_Len :: "queue \<Rightarrow> nat" where
  "queue_Len iq = length iq"

definition queue_Swap :: "nat \<Rightarrow> nat \<Rightarrow> queue \<Rightarrow> queue" where
  "queue_Swap i j iq = iq[i := (iq ! j)\<lparr>QueueID := QueueID (iq ! i)\<rparr>,
                          j := (iq ! i)\<lparr>QueueID := QueueID (iq ! j)\<rparr>]"

text \<open>The callback of \<^verbatim>\<open>Filter\<close> may have effects, which are threaded through as a state.\<close>

fun Filter_loop :: "(Position \<Rightarrow> invocation \<Rightarrow> 's \<Rightarrow> bool \<times> 's) \<Rightarrow> nat \<Rightarrow> nat \<Rightarrow> queue \<Rightarrow> queue \<Rightarrow> 's
    \<Rightarrow> queue \<times> nat \<times> 's" where
  "Filter_loop f pos cnt newQueue [] st = (newQueue, cnt, st)"
| "Filter_loop f pos cnt newQueue (x # rest) st =
    (let (remove, st') = f (of_nat (pos + 1)) x st in
     if remove then Filter_loop f (pos + 1) (cnt + 1) newQueue rest st'
     else Filter_loop f (pos + 1) cnt (newQueue @ [x\<lparr>QueueID := QueueID x - of_nat cnt\<rparr>]) rest st')"

definition queue_Filter :: "(Position \<Rightarrow> invocation \<Rightarrow> 's \<Rightarrow> bool \<times> 's) \<Rightarrow> queue \<Rightarrow> 's \<Rightarrow> queue \<times> nat \<times> 's" where
  "queue_Filter f iq st = Filter_loop f 0 0 [] iq st"

fun Walk_loop :: "(Position \<Rightarrow> invocation \<Rightarrow> 's \<Rightarrow> bool \<times> 's) \<Rightarrow> nat \<Rightarrow> queue \<Rightarrow> 's
    \<Rightarrow> (invocation \<times> Position) option \<times> 's" where
  "Walk_loop w posx [] st = (None, st)"
| "Walk_loop w posx (x # rest) st =
    (let (continue, st') = w (of_nat (posx + 1)) x st in
     if \<not> continue then (Some (x, of_nat (posx + 1)), st') else Walk_loop w (posx + 1) rest st')"

definition queue_Walk :: "(Position \<Rightarrow> invocation \<Rightarrow> 's \<Rightarrow> bool \<times> 's) \<Rightarrow> queue \<Rightarrow> 's
    \<Rightarrow> (invocation \<times> Position) option \<times> 's" where
  "queue_Walk w iq st = Walk_loop w 0 iq st"

definition queue_Forget :: "string \<Rightarrow> queue \<Rightarrow> queue \<times> invocation option" where
  "queue_Forget invID iq =
    (let (iq', _, retinv) = queue_Filter (\<lambda>pos inv ret.
        if ID inv = invID then (True, Some (inv\<lparr>QueueID := 0\<rparr>)) else (False, ret)) iq None
     in (iq', retinv))"

definition queue_Get :: "string \<Rightarrow> queue \<Rightarrow> (invocation \<times> Position) option" where
  "queue_Get invID iq = fst (queue_Walk (\<lambda>pos inv st. (ID inv \<noteq> invID, st)) iq ())"

definition queue_Less :: "Sorter \<Rightarrow> queue \<Rightarrow> nat \<Rightarrow> nat \<Rightarrow> bool" where
  "queue_Less s iq i j = s (iq ! i) (iq ! j)"

text \<open>The inner loop of the insertion sort: move the entry at \<open>j\<close> to the left while it is less.\<close>

fun insertion_inner :: "Sorter \<Rightarrow> nat \<Rightarrow> queue \<Rightarrow> queue" where
  "insertion_inner s 0 iq = iq"
| "insertion_inner s (Suc j) iq =
    (if queue_Less s iq (Suc j) j then insertion_inner s j (queue_Swap (Suc j) j iq) else iq)"

definition Stable :: "Sorter \<Rightarrow> queue \<Rightarrow> queue" where
  "Stable s iq = fold (insertion_inner s) [1..<queue_Len iq] iq"

definition queue_Sort :: "Sorter option \<Rightarrow> queue \<Rightarrow> queue" where
  "queue_Sort p iq = (case p of None \<Rightarrow> iq | Some s \<Rightarrow> Stable s iq)"

definition queue_Position :: "invocation \<Rightarrow> queue \<Rightarrow> Position" where
  "queue_Position x iq =
    (if iq = [] \<or> QueueID x = 0 then 0 else ucast (1 + QueueID x - QueueID (hd iq)))"

section \<open>The identifiers count the positions\<close>

fun counts :: "u64 \<Rightarrow> queue \<Rightarrow> bool" where
  "counts q [] = True"
| "counts q (x # iq) = (QueueID x = q \<and> counts (q + 1) iq)"

definition queue_ok :: "queue \<Rightarrow> bool" where
  "queue_ok iq \<longleftrightarrow> iq = [] \<or> counts (QueueID (hd iq)) iq"

lemma counts_append: "counts q (xs @ ys) \<longleftrightarrow> counts q xs \<and> counts (q + of_nat (length xs)) ys"
  by (induction xs arbitrary: q) (auto simp: add.assoc)

lemma counts_nth: "counts q iq \<Longrightarrow> i < length iq \<Longrightarrow> QueueID (iq ! i) = q + of_nat i"
proof (induction iq arbitrary: q i)
  case (Cons x iq)
  then show ?case by (cases i) auto
qed simp

lemma counts_cong:
  assumes "map QueueID iq = map QueueID iq'"
  shows "counts q iq = counts q iq'"
proof -
  have "counts q iq = (\<forall>i < length iq. map QueueID iq ! i = q + of_nat i)" for q iq
  proof (induction iq arbitrary: q)
    case (Cons x iq)
    have "(\<forall>i < length (x # iq). map QueueID (x # iq) ! i = q + of_nat i)
      \<longleftrightarrow> QueueID x = q \<and> (\<forall>i < length iq. map QueueID iq ! i = (q + 1) + of_nat i)"
      by (simp add: All_less_Suc2 add.assoc)
    then show ?case using Cons by simp
  qed simp
  from this [of q iq] this [of q iq'] show ?thesis using assms by (metis length_map)
qed

lemma counts_hd: "counts q iq \<Longrightarrow> iq \<noteq> [] \<Longrightarrow> QueueID (hd iq) = q"
  by (cases iq) auto

lemma queue_ok_counts: "counts q iq \<Longrightarrow> queue_ok iq"
  by (cases iq) (auto simp: queue_ok_def)

lemma queue_ok_Nil [simp]: "queue_ok []" by (simp add: queue_ok_def)

lemma queue_ok_cong: "map QueueID iq = map QueueID iq' \<Longrightarrow> queue_ok iq = queue_ok iq'"
proof -
  assume m: "map QueueID iq = map QueueID iq'"
  then have "(iq = []) = (iq' = [])" "iq \<noteq> [] \<longrightarrow> QueueID (hd iq) = QueueID (hd iq')"
    by (cases iq; cases iq'; simp)+
  then show ?thesis using counts_cong [OF m] by (auto simp: queue_ok_def)
qed

lemma queue_ok_Cons: "queue_ok (x # iq) \<Longrightarrow> queue_ok iq"
  by (cases iq) (auto simp: queue_ok_def)

lemma queue_Enqueue_ok:
  assumes "queue_ok iq" "length iq < 2 ^ 32"
  shows "queue_ok (fst (queue_Enqueue x iq))"
proof -
  have "unat (of_nat (length iq) :: u32) = length iq" using assms(2) by (simp add: unat_of_nat)
  then have "(ucast (of_nat (length iq) :: u32) :: u64) = of_nat (length iq)"
    by (metis of_nat_unat)
  then have "fst (queue_Enqueue x iq) = iq @ [x\<lparr>QueueID := (if iq \<noteq> [] then QueueID (hd iq) else 1) + of_nat (length iq)\<rparr>]"
    by (simp add: queue_Enqueue_def)
  moreover have "counts (if iq \<noteq> [] then QueueID (hd iq) else 1) iq" using assms(1) by (auto simp: queue_ok_def)
  ultimately have "counts (if iq \<noteq> [] then QueueID (hd iq) else 1) (fst (queue_Enqueue x iq))"
    by (simp only: counts_append) simp
  then show ?thesis by (rule queue_ok_counts)
qed

lemma queue_Dequeue_ok: "queue_ok iq \<Longrightarrow> queue_ok (fst (queue_Dequeue iq))"
  by (cases iq) (auto simp: queue_Dequeue_def queue_ok_Cons)

subsection \<open>Filter, Forget, Get\<close>

abbreviation strip :: "invocation \<Rightarrow> invocation" where
  "strip i \<equiv> i\<lparr>QueueID := 0\<rparr>"

text \<open>A filter whose answer depends on the entry alone, while its effect is a fold over the removed ones.\<close>

definition pure_filter :: "(invocation \<Rightarrow> bool) \<Rightarrow> (invocation \<Rightarrow> 's \<Rightarrow> 's) \<Rightarrow> Position \<Rightarrow> invocation \<Rightarrow> 's \<Rightarrow> bool \<times> 's" where
  "pure_filter P g = (\<lambda>pos i st. (P i, if P i then g i st else st))"

fun keep_ids :: "(invocation \<Rightarrow> bool) \<Rightarrow> nat \<Rightarrow> queue \<Rightarrow> queue" where
  "keep_ids P c [] = []"
| "keep_ids P c (x # iq) = (if P x then keep_ids P (c + 1) iq
     else x\<lparr>QueueID := QueueID x - of_nat c\<rparr> # keep_ids P c iq)"

lemma Filter_loop_pure:
  "Filter_loop (pure_filter P g) pos c nq iq st =
    (nq @ keep_ids P c iq, c + length (filter P iq), fold g (filter P iq) st)"
  by (induction iq arbitrary: pos c nq st) (simp_all add: pure_filter_def)

lemma keep_ids_strip: "map strip (keep_ids P c iq) = map strip (filter (\<lambda>i. \<not> P i) iq)"
  by (induction iq arbitrary: c) auto

lemma keep_ids_counts: "counts (q + of_nat c) iq \<Longrightarrow> counts q (keep_ids P c iq)"
proof (induction iq arbitrary: q c)
  case (Cons x iq)
  have x: "QueueID x = q + of_nat c" "counts (q + of_nat c + 1) iq" using Cons.prems by simp_all
  have a: "q + of_nat c + 1 = q + of_nat (c + 1)" "q + of_nat c + 1 = q + 1 + of_nat c" by simp_all
  show ?case
  proof (cases "P x")
    case True
    then show ?thesis using Cons.IH [OF x(2) [unfolded a(1)]] by simp
  next
    case False
    then show ?thesis using Cons.IH [OF x(2) [unfolded a(2)]] x(1) by simp
  qed
qed simp

theorem queue_Filter_ok:
  "queue_Filter (pure_filter P g) iq st = (keep_ids P 0 iq, length (filter P iq), fold g (filter P iq) st)"
  "map strip (keep_ids P 0 iq) = map strip (filter (\<lambda>i. \<not> P i) iq)"
  "queue_ok iq \<Longrightarrow> queue_ok (keep_ids P 0 iq)"
  unfolding queue_Filter_def Filter_loop_pure keep_ids_strip
  using keep_ids_counts [of _ 0 iq P] queue_ok_counts by (auto simp: queue_ok_def)

lemma map_ID_strip: "map strip iq = map strip iq' \<Longrightarrow> map ID iq = map ID iq'"
proof -
  assume "map strip iq = map strip iq'"
  then have "map ID (map strip iq) = map ID (map strip iq')" by simp
  then show ?thesis by (simp add: comp_def)
qed

lemma queue_Forget_eq:
  "queue_Forget i iq = (keep_ids (\<lambda>x. ID x = i) 0 iq, map_option strip (find (\<lambda>x. ID x = i) (rev iq)))"
proof -
  have e: "(\<lambda>pos x ret. if ID x = i then (True, Some (strip x)) else (False, ret))
    = pure_filter (\<lambda>x. ID x = i) (\<lambda>x _. Some (strip x))"
    by (auto simp: pure_filter_def fun_eq_iff)
  have "fold (\<lambda>x _. Some (strip x)) (filter (\<lambda>x. ID x = i) iq) None = map_option strip (find (\<lambda>x. ID x = i) (rev iq))"
    by (induction iq rule: rev_induct) auto
  then show ?thesis unfolding queue_Forget_def e queue_Filter_ok by simp
qed

lemma queue_Get_None: "queue_Get i iq = None \<longleftrightarrow> i \<notin> ID ` set iq"
proof -
  have "fst (Walk_loop (\<lambda>pos x st. (ID x \<noteq> i, st)) k iq ()) = None \<longleftrightarrow> i \<notin> ID ` set iq" for k
    by (induction iq arbitrary: k) auto
  then show ?thesis by (simp add: queue_Get_def queue_Walk_def)
qed

text \<open>\<^verbatim>\<open>Get\<close> returns the first entry with the identifier, and its 1-based index.\<close>

lemma queue_Get_Some:
  "queue_Get i iq = Some (x, pos) \<longleftrightarrow>
    (\<exists>k < length iq. x = iq ! k \<and> ID x = i \<and> pos = of_nat (k + 1) \<and> (\<forall>j < k. ID (iq ! j) \<noteq> i))"
proof -
  have "fst (Walk_loop (\<lambda>pos x st. (ID x \<noteq> i, st)) m iq ()) = Some (x, pos) \<longleftrightarrow>
    (\<exists>k < length iq. x = iq ! k \<and> ID x = i \<and> pos = of_nat (m + k + 1) \<and> (\<forall>j < k. ID (iq ! j) \<noteq> i))" for m
  proof (induction iq arbitrary: m)
    case (Cons y iq)
    show ?case
    proof (cases "ID y = i")
      case True
      then show ?thesis by (fastforce simp: nth_Cons')
    next
      case False
      have "(\<exists>k < length (y # iq). x = (y # iq) ! k \<and> ID x = i \<and> pos = of_nat (m + k + 1) \<and> (\<forall>j < k. ID ((y # iq) ! j) \<noteq> i))
        \<longleftrightarrow> (\<exists>k < length iq. x = iq ! k \<and> ID x = i \<and> pos = of_nat (Suc m + k + 1) \<and> (\<forall>j < k. ID (iq ! j) \<noteq> i))" (is "?l = ?r")
      proof
        assume ?l
        then obtain k where k: "k < length (y # iq)" "x = (y # iq) ! k" "ID x = i" "pos = of_nat (m + k + 1)"
          "\<forall>j < k. ID ((y # iq) ! j) \<noteq> i" by blast
        then obtain l where l: "k = Suc l" using False by (cases k) auto
        with k have "\<forall>j < l. ID (iq ! j) \<noteq> i" by force
        with k l show ?r by (intro exI [of _ l]) simp
      next
        assume ?r
        then obtain k where "k < length iq" "x = iq ! k" "ID x = i" "pos = of_nat (Suc m + k + 1)"
          "\<forall>j < k. ID (iq ! j) \<noteq> i" by blast
        then show ?l using False by (intro exI [of _ "Suc k"]) (auto simp: nth_Cons')
      qed
      then show ?thesis using False Cons [of "m + 1"] by simp
    qed
  qed simp
  from this [of 0] show ?thesis by (simp add: queue_Get_def queue_Walk_def)
qed

text \<open>The position computed from the identifiers is the 1-based index of the entry in the queue,
  whenever the identifiers count the positions and are not 0.\<close>

theorem queue_Position_index:
  assumes "queue_ok iq" "i < length iq" "QueueID (iq ! i) \<noteq> 0"
  shows "queue_Position (iq ! i) iq = of_nat (i + 1)"
proof -
  have "counts (QueueID (hd iq)) iq" "iq \<noteq> []" using assms(1,2) by (auto simp: queue_ok_def)
  then have "QueueID (iq ! i) = QueueID (hd iq) + of_nat i" using assms(2) counts_nth by blast
  then have "1 + QueueID (iq ! i) - QueueID (hd iq) = of_nat (i + 1)" by simp
  moreover have "(ucast (of_nat (i + 1) :: u64) :: u32) = of_nat (i + 1)"
    by transfer simp
  moreover have "queue_Position (iq ! i) iq = ucast (1 + QueueID (iq ! i) - QueueID (hd iq))"
    using assms(3) \<open>iq \<noteq> []\<close> by (simp add: queue_Position_def)
  ultimately show ?thesis by metis
qed

definition demo_queue :: queue where
  "demo_queue = [\<lparr>ID = ''x'', Owner = ''o'', BuildTag = [], LastCheckin = 0, QueueID = 7\<rparr>,
     \<lparr>ID = ''y'', Owner = ''o'', BuildTag = [], LastCheckin = 0, QueueID = 8\<rparr>]"

theorem queue_Position_index_witness: "queue_Position (demo_queue ! 1) demo_queue = 2"
  using queue_Position_index [of demo_queue 1] by (simp add: demo_queue_def queue_ok_def)

section \<open>Sorting\<close>

text \<open>The insertion sort on values: move the last element of the reversed prefix to its place.\<close>

fun insert_rev :: "('a \<Rightarrow> 'a \<Rightarrow> bool) \<Rightarrow> 'a \<Rightarrow> 'a list \<Rightarrow> 'a list" where
  "insert_rev lt x [] = [x]"
| "insert_rev lt x (y # ys) = (if lt x y then y # insert_rev lt x ys else x # y # ys)"

lemma queue_Swap_ids: "i < length iq \<Longrightarrow> j < length iq \<Longrightarrow> map QueueID (queue_Swap i j iq) = map QueueID iq"
  by (intro nth_equalityI) (auto simp: queue_Swap_def nth_list_update)

lemma queue_Swap_strip:
  "i < length iq \<Longrightarrow> j < length iq \<Longrightarrow>
    map strip (queue_Swap i j iq) = (map strip iq)[i := map strip iq ! j, j := map strip iq ! i]"
  by (intro nth_equalityI) (auto simp: queue_Swap_def nth_list_update)

text \<open>A sorter that ignores \<^verbatim>\<open>QueueID\<close> and compares a key.\<close>

definition key_sorter :: "(invocation \<Rightarrow> 'k :: linorder) \<Rightarrow> Sorter \<Rightarrow> bool" where
  "key_sorter key lt \<longleftrightarrow> (\<forall>a b. lt a b = (key a < key b)) \<and> (\<forall>a. key (strip a) = key a)"

lemma insertion_inner_ok:
  assumes "key_sorter key lt" "j < length iq"
  shows "map QueueID (insertion_inner lt j iq) = map QueueID iq
    \<and> map strip (insertion_inner lt j iq) =
      rev (insert_rev lt (map strip iq ! j) (rev (take j (map strip iq)))) @ drop (Suc j) (map strip iq)"
  using assms(2)
proof (induction j arbitrary: iq)
  case 0
  then show ?case by (cases iq) auto
next
  case (Suc j)
  let ?s = "map strip iq"
  have lt: "lt (iq ! Suc j) (iq ! j) = lt (?s ! Suc j) (?s ! j)"
    using assms(1) Suc.prems by (simp add: key_sorter_def)
  have tk: "rev (take (Suc j) ?s) = ?s ! j # rev (take j ?s)" using Suc.prems by (simp add: take_Suc_conv_app_nth)
  show ?case
  proof (cases "lt (iq ! Suc j) (iq ! j)")
    case False
    have "?s = take (Suc j) ?s @ ?s ! Suc j # drop (Suc (Suc j)) ?s"
      using Suc.prems by (intro id_take_nth_drop) simp
    moreover have "insert_rev lt (?s ! Suc j) (?s ! j # rev (take j ?s)) = ?s ! Suc j # rev (take (Suc j) ?s)"
      using False unfolding lt tk by simp
    ultimately have "rev (insert_rev lt (?s ! Suc j) (?s ! j # rev (take j ?s))) @ drop (Suc (Suc j)) ?s = ?s"
      by (metis append.assoc append_Cons append_Nil rev.simps(2) rev_rev_ident)
    then show ?thesis using False by (simp only: insertion_inner.simps queue_Less_def if_False tk)
  next
    case True
    let ?q = "queue_Swap (Suc j) j iq"
    have l: "j < length ?q" "Suc j < length iq" "j < length iq" using Suc.prems by (simp_all add: queue_Swap_def)
    have s: "map strip ?q = ?s[Suc j := ?s ! j, j := ?s ! Suc j]" by (rule queue_Swap_strip) (use l in auto)
    have "take j (map strip ?q) = take j ?s" "map strip ?q ! j = ?s ! Suc j"
      "drop (Suc j) (map strip ?q) = ?s ! j # drop (Suc (Suc j)) ?s"
      unfolding s using l by (auto simp: drop_update_swap Cons_nth_drop_Suc [symmetric])
    then show ?thesis using Suc.IH [OF l(1)] True l queue_Swap_ids [of "Suc j" iq j] lt
      by (simp only: insertion_inner.simps queue_Less_def if_True tk insert_rev.simps) simp
  qed
qed

lemma Stable_ok:
  assumes "key_sorter key lt"
  shows "map QueueID (Stable lt iq) = map QueueID iq
    \<and> map strip (Stable lt iq) = rev (fold (insert_rev lt) (map strip iq) [])"
proof -
  have step: "n \<le> length iq \<Longrightarrow> 1 \<le> n \<Longrightarrow> map QueueID (fold (insertion_inner lt) [1..<n] iq) = map QueueID iq
    \<and> map strip (fold (insertion_inner lt) [1..<n] iq) = rev (fold (insert_rev lt) (take n (map strip iq)) []) @ drop n (map strip iq)" for n
  proof (induction n)
    case (Suc n)
    let ?s = "map strip iq"
    show ?case
    proof (cases "n = 0")
      case True
      then show ?thesis using Suc.prems by (cases iq) auto
    next
      case False
      let ?q = "fold (insertion_inner lt) [1..<n] iq"
      let ?acc = "fold (insert_rev lt) (take n ?s) []"
      have IH: "map QueueID ?q = map QueueID iq" "map strip ?q = rev ?acc @ drop n ?s"
        using Suc False by auto
      have la: "length (fold (insert_rev lt) xs acc) = length xs + length acc" for xs :: "invocation list" and acc
      proof -
        have "length (insert_rev lt x ys) = Suc (length ys)" for x and ys :: "invocation list" by (induction ys) auto
        then show ?thesis by (induction xs arbitrary: acc) auto
      qed
      have lq: "n < length ?q" using IH(1) Suc.prems by (metis Suc_le_eq length_map)
      have la': "length ?acc = n" using la [of "take n ?s" "[]"] Suc.prems by simp
      then have "take n (map strip ?q) = rev ?acc" "map strip ?q ! n = ?s ! n" "drop (Suc n) (map strip ?q) = drop (Suc n) ?s"
        unfolding IH(2) using Suc.prems by (simp_all add: nth_append)
      then have "map strip (insertion_inner lt n ?q) = rev (insert_rev lt (?s ! n) ?acc) @ drop (Suc n) ?s"
        "map QueueID (insertion_inner lt n ?q) = map QueueID iq"
        using insertion_inner_ok [OF assms lq] IH(1) by simp_all
      moreover have "take (Suc n) ?s = take n ?s @ [?s ! n]" using Suc.prems by (simp add: take_Suc_conv_app_nth)
      moreover have "[1..<Suc n] = [1..<n] @ [n]" using False by simp
      ultimately show ?thesis by simp
    qed
  qed simp
  show ?thesis
  proof (cases "iq = []")
    case True
    then show ?thesis by (simp add: Stable_def queue_Len_def)
  next
    case False
    then have "1 \<le> length iq" by (cases iq) auto
    from step [OF order_refl this] show ?thesis by (simp add: Stable_def queue_Len_def)
  qed
qed

lemma insert_rev_mset: "mset (insert_rev lt x ys) = add_mset x (mset ys)"
  by (induction ys) auto

lemma insert_rev_filter:
  assumes "\<And>a b. lt a b = (key a < (key b :: 'k :: linorder))"
  shows "filter (\<lambda>y. key y = k) (insert_rev lt x ys) = (if key x = k then x # filter (\<lambda>y. key y = k) ys else filter (\<lambda>y. key y = k) ys)"
  by (induction ys) (auto simp: assms)

lemma insert_rev_sorted:
  assumes "\<And>a b. lt a b = (key a < (key b :: 'k :: linorder))" "sorted_wrt (\<lambda>a b. key b \<le> key a) ys"
  shows "sorted_wrt (\<lambda>a b. key b \<le> key a) (insert_rev lt x ys)"
  using assms(2)
proof (induction ys)
  case (Cons y ys)
  have "set (insert_rev lt x ys) = insert x (set ys)" using insert_rev_mset [of lt x ys] by (metis set_mset_mset set_mset_add_mset_insert)
  moreover have "lt x y = (key x < key y)" by (rule assms(1))
  ultimately show ?case using Cons by (auto intro: order_trans)
qed simp

lemma insertion_sort_key:
  assumes lt: "\<And>a b. lt a b = (key a < (key b :: 'k :: linorder))"
  shows "rev (fold (insert_rev lt) xs []) = sort_key key xs"
proof -
  have m: "mset (fold (insert_rev lt) xs acc) = mset xs + mset acc" for acc
    by (induction xs arbitrary: acc) (auto simp: insert_rev_mset)
  have s: "sorted_wrt (\<lambda>a b. key b \<le> key a) acc \<Longrightarrow> sorted_wrt (\<lambda>a b. key b \<le> key a) (fold (insert_rev lt) xs acc)" for acc
    by (induction xs arbitrary: acc) (simp_all add: insert_rev_sorted [OF lt])
  have f: "filter (\<lambda>y. key y = k) (fold (insert_rev lt) xs acc) = rev (filter (\<lambda>y. key y = k) xs) @ filter (\<lambda>y. key y = k) acc" for k acc
    by (induction xs arbitrary: acc) (auto simp: insert_rev_filter [OF lt])
  have "sort_key key xs = rev (fold (insert_rev lt) xs [])"
  proof (rule properties_for_sort_key)
    show "mset (rev (fold (insert_rev lt) xs [])) = mset xs" using m [of "[]"] by simp
    show "filter (\<lambda>x. key k = key x) (rev (fold (insert_rev lt) xs [])) = filter (\<lambda>x. key k = key x) xs" for k
      unfolding rev_filter [symmetric] eq_commute [of "key k"] using f [of "key k" "[]"] by simp
    show "sorted (map key (rev (fold (insert_rev lt) xs [])))"
      using s [of "[]"] by (simp add: sorted_map sorted_wrt_rev)
  qed
  then show ?thesis ..
qed

text \<open>C37: Sorting the queue with a sorter that compares a key is the stable sort by that key on the
  entries, while the identifiers stay where they are: the identifiers still count the positions.\<close>

theorem Stable_sort_key:
  assumes "key_sorter key lt"
  shows "map (\<lambda>i. i\<lparr>QueueID := 0\<rparr>) (Stable lt iq) = sort_key key (map (\<lambda>i. i\<lparr>QueueID := 0\<rparr>) iq)
    \<and> map QueueID (Stable lt iq) = map QueueID iq \<and> (queue_ok iq \<longrightarrow> queue_ok (Stable lt iq))"
proof -
  have "lt a b = (key a < key b)" for a b using assms by (simp add: key_sorter_def)
  from insertion_sort_key [of lt key, OF this] Stable_ok [OF assms, of iq] queue_ok_cong
  show ?thesis by metis
qed

theorem Stable_sort_key_witness:
  "map LastCheckin (Stable (\<lambda>a b. LastCheckin a < LastCheckin b)
      [(demo_queue ! 0)\<lparr>LastCheckin := 3\<rparr>, (demo_queue ! 1)\<lparr>LastCheckin := 2\<rparr>]) = [2, 3]"
proof -
  have "key_sorter LastCheckin (\<lambda>a b. LastCheckin a < LastCheckin b)" by (simp add: key_sorter_def)
  from Stable_sort_key [OF this, of "[(demo_queue ! 0)\<lparr>LastCheckin := 3\<rparr>, (demo_queue ! 1)\<lparr>LastCheckin := 2\<rparr>]"]
  have "map LastCheckin (map strip (Stable (\<lambda>a b. LastCheckin a < LastCheckin b)
      [(demo_queue ! 0)\<lparr>LastCheckin := 3\<rparr>, (demo_queue ! 1)\<lparr>LastCheckin := 2\<rparr>])) = [2, 3]"
    by (simp add: demo_queue_def)
  then show ?thesis by (simp add: comp_def)
qed

end
