(* ===== verification/Flex_License.thy ===== *)
theory Flex_License imports Flex_Queue "HOL-Library.AList" begin

text \<open>
  \<^verbatim>\<open>flextape/service/prioritizer.go\<close> and \<^verbatim>\<open>flextape/service/license.go\<close>: the two queueing
  policies, the interface they implement (locale \<open>prioritizer\<close>, with the accounts a policy keeps), and
  the allocation and queue of one license type.

  A Go map is an association list with distinct keys; its order is the order in which a \<^verbatim>\<open>range\<close>
  visits it, so what is proved holds for every iteration order. The metrics are not modelled.
\<close>

section \<open>Policies\<close>

text \<open>Reading a missing key of a Go map of numbers gives 0.\<close>

definition mget :: "(string \<rightharpoonup> u64) \<Rightarrow> string \<Rightarrow> u64" where
  "mget f k = (case f k of None \<Rightarrow> 0 | Some v \<Rightarrow> v)"

record EvenOwners =
  eo_position :: "string \<rightharpoonup> u64"
  eo_enqueued :: "string \<rightharpoonup> u64"
  eo_dequeued :: "string \<rightharpoonup> u64"
  eo_allocated :: "string \<rightharpoonup> u64"

definition NewEvenOwnersPrioritizer :: EvenOwners where
  "NewEvenOwnersPrioritizer = \<lparr>eo_position = Map.empty, eo_enqueued = Map.empty,
     eo_dequeued = Map.empty, eo_allocated = Map.empty\<rparr>"

definition EvenOwners_OnEnqueue :: "invocation \<Rightarrow> EvenOwners \<Rightarrow> EvenOwners" where
  "EvenOwners_OnEnqueue x so =
    (let so = so\<lparr>eo_enqueued := (eo_enqueued so)(Owner x \<mapsto> mget (eo_enqueued so) (Owner x) + 1)\<rparr>
     in so\<lparr>eo_position := (eo_position so)(ID x \<mapsto> mget (eo_enqueued so) (Owner x))\<rparr>)"

definition EvenOwners_OnDequeue :: "invocation \<Rightarrow> EvenOwners \<Rightarrow> EvenOwners" where
  "EvenOwners_OnDequeue x so =
    (let so = so\<lparr>eo_dequeued := (eo_dequeued so)(Owner x \<mapsto> mget (eo_dequeued so) (Owner x) + 1),
                 eo_position := (eo_position so)(ID x := None)\<rparr>
     in if mget (eo_dequeued so) (Owner x) - mget (eo_enqueued so) (Owner x) \<le> 0
        then so\<lparr>eo_enqueued := (eo_enqueued so)(Owner x := None), eo_dequeued := (eo_dequeued so)(Owner x := None)\<rparr>
        else so)"

definition EvenOwners_OnAllocate :: "invocation \<Rightarrow> EvenOwners \<Rightarrow> EvenOwners" where
  "EvenOwners_OnAllocate x so =
    so\<lparr>eo_allocated := (eo_allocated so)(Owner x \<mapsto> mget (eo_allocated so) (Owner x) + 1)\<rparr>"

definition EvenOwners_OnRelease :: "invocation \<Rightarrow> EvenOwners \<Rightarrow> EvenOwners" where
  "EvenOwners_OnRelease x so =
    (let v = mget (eo_allocated so) (Owner x) in
     if v \<le> 1 then so\<lparr>eo_allocated := (eo_allocated so)(Owner x := None)\<rparr>
     else so\<lparr>eo_allocated := (eo_allocated so)(Owner x \<mapsto> v - 1)\<rparr>)"

definition EvenOwners_key :: "EvenOwners \<Rightarrow> invocation \<Rightarrow> u64" where
  "EvenOwners_key so a =
    mget (eo_position so) (ID a) - mget (eo_dequeued so) (Owner a) + mget (eo_allocated so) (Owner a)"

definition EvenOwners_Sorter :: "EvenOwners \<Rightarrow> Sorter" where
  "EvenOwners_Sorter so = (\<lambda>a b. EvenOwners_key so a < EvenOwners_key so b)"

text \<open>The two implementations behind the Go interface; calls dispatch on the constructor.\<close>

datatype Prioritizer = FIFOPrioritizer | EvenOwnersPrioritizer EvenOwners

fun OnEnqueue :: "invocation \<Rightarrow> Prioritizer \<Rightarrow> Prioritizer" where
  "OnEnqueue x FIFOPrioritizer = FIFOPrioritizer"
| "OnEnqueue x (EvenOwnersPrioritizer so) = EvenOwnersPrioritizer (EvenOwners_OnEnqueue x so)"

fun OnDequeue :: "invocation \<Rightarrow> Prioritizer \<Rightarrow> Prioritizer" where
  "OnDequeue x FIFOPrioritizer = FIFOPrioritizer"
| "OnDequeue x (EvenOwnersPrioritizer so) = EvenOwnersPrioritizer (EvenOwners_OnDequeue x so)"

fun OnAllocate :: "invocation \<Rightarrow> Prioritizer \<Rightarrow> Prioritizer" where
  "OnAllocate x FIFOPrioritizer = FIFOPrioritizer"
| "OnAllocate x (EvenOwnersPrioritizer so) = EvenOwnersPrioritizer (EvenOwners_OnAllocate x so)"

fun OnRelease :: "invocation \<Rightarrow> Prioritizer \<Rightarrow> Prioritizer" where
  "OnRelease x FIFOPrioritizer = FIFOPrioritizer"
| "OnRelease x (EvenOwnersPrioritizer so) = EvenOwnersPrioritizer (EvenOwners_OnRelease x so)"

fun prioritizer_Sorter :: "Prioritizer \<Rightarrow> Sorter option" where
  "prioritizer_Sorter FIFOPrioritizer = None"
| "prioritizer_Sorter (EvenOwnersPrioritizer so) = Some (EvenOwners_Sorter so)"

section \<open>The interface\<close>

text \<open>
  What a license relies on. \<open>accounts p Q A\<close> says that the policy's books agree with the entries
  queued (identifier and owner) and with the owners of the allocated entries.
\<close>

locale prioritizer =
  fixes on_enqueue on_dequeue on_allocate on_release :: "invocation \<Rightarrow> 'p \<Rightarrow> 'p"
    and sorter :: "'p \<Rightarrow> Sorter option"
    and accounts :: "'p \<Rightarrow> (string \<times> string) multiset \<Rightarrow> string multiset \<Rightarrow> bool"
  assumes sorter_key: "sorter p = Some lt \<Longrightarrow> \<exists>key :: invocation \<Rightarrow> u64. key_sorter key lt"
    and enqueue: "accounts p Q A \<Longrightarrow> ID x \<notin> fst ` set_mset Q
      \<Longrightarrow> accounts (on_enqueue x p) (add_mset (ID x, Owner x) Q) A"
    and dequeue: "accounts p (add_mset (ID x, Owner x) Q) A \<Longrightarrow> ID x \<notin> fst ` set_mset Q
      \<Longrightarrow> accounts (on_dequeue x p) Q A"
    and allocate: "accounts p Q A \<Longrightarrow> accounts (on_allocate x p) Q (add_mset (Owner x) A)"
    and release: "accounts p Q (add_mset (Owner x) A) \<Longrightarrow> size A < 2 ^ 63 \<Longrightarrow> accounts (on_release x p) Q A"
begin

lemma sort_ok:
  "mset (map strip (queue_Sort (sorter p) q)) = mset (map strip q)"
  "map QueueID (queue_Sort (sorter p) q) = map QueueID q"
proof -
  have "mset (map strip (queue_Sort (sorter p) q)) = mset (map strip q)
    \<and> map QueueID (queue_Sort (sorter p) q) = map QueueID q"
  proof (cases "sorter p")
    case (Some lt)
    then obtain key :: "invocation \<Rightarrow> u64" where "key_sorter key lt" using sorter_key by blast
    from insertion_sort_key [of lt key "map strip q"] Stable_ok [OF this, of q] this Some show ?thesis
      by (simp add: queue_Sort_def key_sorter_def)
  qed (simp add: queue_Sort_def)
  then show "mset (map strip (queue_Sort (sorter p) q)) = mset (map strip q)"
    "map QueueID (queue_Sort (sorter p) q) = map QueueID q" by simp_all
qed

lemma release_all:
  "accounts p Q (mset (map Owner xs) + A) \<Longrightarrow> size A + length xs < 2 ^ 63 \<Longrightarrow> accounts (fold on_release xs p) Q A"
proof (induction xs arbitrary: p)
  case (Cons x xs)
  then have "accounts (on_release x p) Q (mset (map Owner xs) + A)" by (intro release) simp_all
  with Cons show ?case by simp
qed simp

lemma dequeue_all:
  "accounts p (mset (map (\<lambda>x. (ID x, Owner x)) xs) + Q) A \<Longrightarrow> distinct (map ID xs) \<Longrightarrow> ID ` set xs \<inter> fst ` set_mset Q = {}
    \<Longrightarrow> accounts (fold on_dequeue xs p) Q A"
proof (induction xs arbitrary: p)
  case (Cons x xs)
  have "accounts (on_dequeue x p) (mset (map (\<lambda>x. (ID x, Owner x)) xs) + Q) A"
    using Cons.prems by (intro dequeue) (auto simp: image_iff)
  with Cons show ?case by simp
qed simp

end

text \<open>The books of the two policies.\<close>

definition EvenOwners_accounts :: "EvenOwners \<Rightarrow> (string \<times> string) multiset \<Rightarrow> string multiset \<Rightarrow> bool" where
  "EvenOwners_accounts so Q A \<longleftrightarrow> dom (eo_position so) = fst ` set_mset Q
    \<and> (\<forall>w. mget (eo_enqueued so) w - mget (eo_dequeued so) w = of_nat (size (filter_mset (\<lambda>q. snd q = w) Q)))
    \<and> (\<forall>w. mget (eo_allocated so) w = of_nat (count A w))"

fun prioritizer_accounts :: "Prioritizer \<Rightarrow> (string \<times> string) multiset \<Rightarrow> string multiset \<Rightarrow> bool" where
  "prioritizer_accounts FIFOPrioritizer Q A = True"
| "prioritizer_accounts (EvenOwnersPrioritizer so) Q A = EvenOwners_accounts so Q A"

lemma mget_upd [simp]: "mget (f(k \<mapsto> v)) l = (if l = k then v else mget f l)"
    "mget (f(k := None)) l = (if l = k then 0 else mget f l)"
  by (simp_all add: mget_def)

lemma EvenOwners_OnEnqueue_accounts:
  assumes "EvenOwners_accounts so Q A"
  shows "EvenOwners_accounts (EvenOwners_OnEnqueue x so) (add_mset (ID x, Owner x) Q) A"
  using assms by (auto simp: EvenOwners_accounts_def EvenOwners_OnEnqueue_def Let_def algebra_simps)

lemma EvenOwners_OnDequeue_accounts:
  assumes a: "EvenOwners_accounts so (add_mset (ID x, Owner x) Q) A" and n: "ID x \<notin> fst ` set_mset Q"
  shows "EvenOwners_accounts (EvenOwners_OnDequeue x so) Q A"
proof -
  let ?e = "mget (eo_enqueued so)" and ?d = "mget (eo_dequeued so)"
  let ?n = "\<lambda>w. of_nat (size (filter_mset (\<lambda>q. snd q = w) Q)) :: u64"
  have bal: "?e w - ?d w = (if w = Owner x then 1 + ?n w else ?n w)" for w
    using a by (auto simp: EvenOwners_accounts_def)
  have own: "?e (Owner x) - (?d (Owner x) + 1) = ?n (Owner x)" using bal [of "Owner x"] by (simp add: algebra_simps)
  have pos: "dom ((eo_position so)(ID x := None)) = fst ` set_mset Q"
    using a n by (auto simp: EvenOwners_accounts_def)
  show ?thesis
  proof (cases "?d (Owner x) + 1 = ?e (Owner x)")
    case True
    then have "?n (Owner x) = 0" using own by simp
    then show ?thesis using True a bal pos
      by (simp add: EvenOwners_accounts_def EvenOwners_OnDequeue_def Let_def)
  next
    case False
    then show ?thesis using a bal pos own
      by (simp add: EvenOwners_accounts_def EvenOwners_OnDequeue_def Let_def)
  qed
qed

lemma EvenOwners_OnRelease_accounts:
  assumes a: "EvenOwners_accounts so Q (add_mset (Owner x) A)" and s: "size A < 2 ^ 63"
  shows "EvenOwners_accounts (EvenOwners_OnRelease x so) Q A"
proof -
  let ?v = "mget (eo_allocated so) (Owner x)"
  have v: "?v = of_nat (count A (Owner x) + 1)" using a by (simp add: EvenOwners_accounts_def)
  have "count A (Owner x) \<le> size A" by (rule count_le_size)
  then have u: "unat ?v = count A (Owner x) + 1" using s unfolding v by (simp add: unat_of_nat del: of_nat_add of_nat_Suc)
  have "?v \<le> 1 \<Longrightarrow> count A (Owner x) = 0" using u by (simp add: word_le_nat_alt)
  moreover have "?v - 1 = of_nat (count A (Owner x))" using v by simp
  ultimately show ?thesis using a
    by (auto simp: EvenOwners_accounts_def EvenOwners_OnRelease_def Let_def)
qed

interpretation prio: prioritizer OnEnqueue OnDequeue OnAllocate OnRelease prioritizer_Sorter prioritizer_accounts
proof
  fix p lt assume "prioritizer_Sorter p = Some lt"
  then obtain so where "lt = EvenOwners_Sorter so" by (cases p) auto
  then have "key_sorter (EvenOwners_key so) lt"
    by (simp add: key_sorter_def EvenOwners_Sorter_def EvenOwners_key_def)
  then show "\<exists>key :: invocation \<Rightarrow> u64. key_sorter key lt" by blast
next
  fix p Q A and x :: invocation assume "prioritizer_accounts p Q A"
  then show "prioritizer_accounts (OnEnqueue x p) (add_mset (ID x, Owner x) Q) A"
    by (cases p) (auto simp: EvenOwners_OnEnqueue_accounts)
next
  fix p Q A and x :: invocation assume "prioritizer_accounts p (add_mset (ID x, Owner x) Q) A" "ID x \<notin> fst ` set_mset Q"
  then show "prioritizer_accounts (OnDequeue x p) Q A"
    by (cases p) (auto simp: EvenOwners_OnDequeue_accounts)
next
  fix p Q A and x :: invocation assume "prioritizer_accounts p Q A"
  then show "prioritizer_accounts (OnAllocate x p) Q (add_mset (Owner x) A)"
    by (cases p) (auto simp: EvenOwners_accounts_def EvenOwners_OnAllocate_def)
next
  fix p Q A and x :: invocation assume "prioritizer_accounts p Q (add_mset (Owner x) A)" "size A < 2 ^ 63"
  then show "prioritizer_accounts (OnRelease x p) Q A"
    by (cases p) (auto simp: EvenOwners_OnRelease_accounts)
qed

section \<open>One license type\<close>

record license =
  lic_name :: string
  totalAvailable :: int
  allocations :: "(string \<times> invocation) list"
  lic_queue :: queue
  lic_prioritizer :: Prioritizer

text \<open>
  \<^verbatim>\<open>l.queue.Position(inv)\<close> reads the identifier of the object just enqueued, wherever the sort has
  moved it: it is the entry with its ID.
\<close>

definition license_Enqueue :: "invocation \<Rightarrow> license \<Rightarrow> license \<times> Position" where
  "license_Enqueue x l =
    (let (q, _) = queue_Enqueue x (lic_queue l);
         p = OnEnqueue (last q) (lic_prioritizer l);
         q' = queue_Sort (prioritizer_Sorter p) q
     in (l\<lparr>lic_queue := q', lic_prioritizer := p\<rparr>,
         case find (\<lambda>y. ID y = ID x) q' of None \<Rightarrow> 0 | Some y \<Rightarrow> queue_Position y q'))"

definition license_Allocate :: "invocation \<Rightarrow> license \<Rightarrow> license \<times> bool" where
  "license_Allocate x l =
    (if totalAvailable l \<le> int (length (allocations l)) then (l, False)
     else (l\<lparr>lic_prioritizer := OnAllocate x (lic_prioritizer l),
             allocations := AList.update (ID x) x (allocations l)\<rparr>, True))"

fun Promote_loop :: "nat \<Rightarrow> license \<Rightarrow> license" where
  "Promote_loop 0 l = l"
| "Promote_loop (Suc n) l =
    (if queue_Len (lic_queue l) = 0 then l
     else let q = queue_Sort (prioritizer_Sorter (lic_prioritizer l)) (lic_queue l) in
       case queue_Dequeue q of
         (q', None) \<Rightarrow> l
       | (q', Some x) \<Rightarrow> Promote_loop n (l\<lparr>lic_queue := q',
           lic_prioritizer := OnAllocate x (OnDequeue x (lic_prioritizer l)),
           allocations := AList.update (ID x) x (allocations l)\<rparr>))"

definition license_Promote :: "license \<Rightarrow> license" where
  "license_Promote l = Promote_loop (nat (totalAvailable l - int (length (allocations l)))) l"

definition license_GetAllocated :: "string \<Rightarrow> license \<Rightarrow> invocation option" where
  "license_GetAllocated invID l = map_of (allocations l) invID"

text \<open>The loop of \<^verbatim>\<open>ExpireAllocations\<close>; the keys it adds to the new map are distinct.\<close>

fun ExpireAllocations_loop :: "time \<Rightarrow> (string \<times> invocation) list \<Rightarrow> (string \<times> invocation) list
    \<Rightarrow> Prioritizer \<Rightarrow> (string \<times> invocation) list \<times> Prioritizer" where
  "ExpireAllocations_loop expiry [] new p = (new, p)"
| "ExpireAllocations_loop expiry ((k, v) # rest) new p =
    (if \<not> expiry < LastCheckin v then ExpireAllocations_loop expiry rest new (OnRelease v p)
     else ExpireAllocations_loop expiry rest (new @ [(k, v)]) p)"

definition license_ExpireAllocations :: "time \<Rightarrow> license \<Rightarrow> license" where
  "license_ExpireAllocations expiry l =
    (let (new, p) = ExpireAllocations_loop expiry (allocations l) [] (lic_prioritizer l)
     in l\<lparr>allocations := new, lic_prioritizer := p\<rparr>)"

definition license_ExpireQueued :: "time \<Rightarrow> license \<Rightarrow> license" where
  "license_ExpireQueued expiry l =
    (let (q, _, p) = queue_Filter (\<lambda>pos x p. if expiry < LastCheckin x then (False, p) else (True, OnDequeue x p))
        (lic_queue l) (lic_prioritizer l)
     in l\<lparr>lic_queue := q, lic_prioritizer := p\<rparr>)"

definition license_GetQueued :: "string \<Rightarrow> license \<Rightarrow> (invocation \<times> Position) option" where
  "license_GetQueued invID l = queue_Get invID (lic_queue l)"

fun Forget_loop :: "string \<Rightarrow> (string \<times> invocation) list \<Rightarrow> (string \<times> invocation) list
    \<Rightarrow> Prioritizer \<Rightarrow> nat \<Rightarrow> (string \<times> invocation) list \<times> Prioritizer \<times> nat" where
  "Forget_loop invID [] new p c = (new, p, c)"
| "Forget_loop invID ((k, v) # rest) new p c =
    (if k = invID then Forget_loop invID rest new (OnRelease v p) (c + 1)
     else Forget_loop invID rest (new @ [(k, v)]) p c)"

definition license_Forget :: "string \<Rightarrow> license \<Rightarrow> license \<times> nat" where
  "license_Forget invID l =
    (let (new, p, c) = Forget_loop invID (allocations l) [] (lic_prioritizer l) 0;
         (q, found) = queue_Forget invID (lic_queue l);
         (p', c') = (case found of Some x \<Rightarrow> (OnDequeue x p, c + 1) | None \<Rightarrow> (p, c))
     in (l\<lparr>lic_queue := q, lic_prioritizer := p', allocations := new\<rparr>, c'))"

text \<open>\<^verbatim>\<open>strings.SplitN(s, "::", 2)\<close>: the parts before and after the first separator, if there is one.\<close>

fun SplitN2 :: "string \<Rightarrow> string list" where
  "SplitN2 (c # d # s) = (if c = CHR '':'' \<and> d = CHR '':'' then [[], s]
     else (case SplitN2 (d # s) of [a, b] \<Rightarrow> [c # a, b] | _ \<Rightarrow> [c # d # s]))"
| "SplitN2 s = [s]"

record LicenseStats =
  st_vendor :: string
  st_feature :: string
  st_timestamp :: time
  st_total :: u32
  st_allocated_count :: u32
  st_allocated :: "(string \<times> string \<times> string) list"
  st_queued_count :: u32
  st_queued :: "(string \<times> string \<times> string) list"

text \<open>The callback of \<^verbatim>\<open>Walk\<close> appends to the list; the allocated messages are sorted by identifier.\<close>

definition license_GetStats :: "time \<Rightarrow> license \<Rightarrow> LicenseStats" where
  "license_GetStats now l =
    (let fields = SplitN2 (lic_name l);
         fields = (if length fields \<noteq> 2 then [''<UNKNOWN>'', lic_name l] else fields);
         allocated = sort_key (\<lambda>(_, _, i). i) (map (\<lambda>(_, v). ToProto v) (allocations l));
         queued = snd (queue_Walk (\<lambda>pos x st. (True, st @ [ToProto x])) (lic_queue l) [])
     in \<lparr>st_vendor = fields ! 0, st_feature = fields ! 1, st_timestamp = now,
         st_total = of_int (totalAvailable l), st_allocated_count = of_nat (length (allocations l)),
         st_allocated = allocated, st_queued_count = of_nat (queue_Len (lic_queue l)), st_queued = queued\<rparr>)"

end
