(* ===== verification/Flex_License_Props.thy ===== *)
theory Flex_License_Props imports Flex_License begin

text \<open>
  The invariant of a license (capacity, distinct keys, queue identifiers, the policy's books) and the
  functional behaviour of its operations. The policy is used through the interpretation \<open>prio\<close> of its
  interface only, except where a property is about one policy.
\<close>

section \<open>The invariant\<close>

definition id_owner :: "invocation \<Rightarrow> string \<times> string" where
  "id_owner x = (ID x, Owner x)"

definition queued :: "license \<Rightarrow> (string \<times> string) multiset" where
  "queued l = mset (map id_owner (lic_queue l))"

definition holders :: "license \<Rightarrow> string multiset" where
  "holders l = mset (map (\<lambda>(k, v). Owner v) (allocations l))"

definition lic_safe :: "license \<Rightarrow> bool" where
  "lic_safe l \<longleftrightarrow> int (length (allocations l)) \<le> totalAvailable l \<and> distinct (map fst (allocations l))
    \<and> (\<forall>(k, v) \<in> set (allocations l). ID v = k) \<and> queue_ok (lic_queue l) \<and> distinct (map ID (lic_queue l))"

text \<open>No invocation is both queued and allocated, and the policy's books are right.\<close>

definition lic_inv :: "license \<Rightarrow> bool" where
  "lic_inv l \<longleftrightarrow> lic_safe l \<and> totalAvailable l < 2 ^ 63
    \<and> ID ` set (lic_queue l) \<inter> fst ` set (allocations l) = {}
    \<and> prioritizer_accounts (lic_prioritizer l) (queued l) (holders l)"

lemma id_owner_strip [simp]: "id_owner (strip x) = id_owner x"
  by (simp add: id_owner_def)

lemma strip_mset:
  assumes "mset (map strip q) = mset (map strip q')"
  shows "mset (map id_owner q) = mset (map id_owner q')" "mset (map ID q) = mset (map ID q')"
    "ID ` set q = ID ` set q'" "distinct (map ID q) = distinct (map ID q')" "length q = length q'"
proof -
  have g: "mset (map g q) = mset (map g q')" if "\<And>x. g (strip x) = g x" for g :: "invocation \<Rightarrow> 'b"
  proof -
    have "mset (map g q) = image_mset g (mset (map strip q))" by (simp add: image_mset.compositionality comp_def that)
    also have "\<dots> = image_mset g (mset (map strip q'))" using assms by simp
    also have "\<dots> = mset (map g q')" by (simp add: image_mset.compositionality comp_def that)
    finally show ?thesis .
  qed
  show "mset (map id_owner q) = mset (map id_owner q')" "mset (map ID q) = mset (map ID q')" by (rule g; simp)+
  then show "ID ` set q = ID ` set q'" "distinct (map ID q) = distinct (map ID q')" "length q = length q'"
    by (metis list.set_map set_mset_mset, metis mset_eq_imp_distinct_iff, metis size_mset length_map)
qed

lemma update_new: "k \<notin> fst ` set al \<Longrightarrow> AList.update k v al = al @ [(k, v)]"
  by (induction al) auto

lemma length_update: "length (AList.update k v al) \<le> Suc (length al)"
  by (induction al) auto

lemma queued_strip: "mset (map strip q) = mset (map strip (lic_queue l)) \<Longrightarrow> mset (map id_owner q) = queued l"
  unfolding queued_def by (rule strip_mset(1))

section \<open>Enqueue\<close>

lemma license_Enqueue_inv:
  assumes inv: "lic_inv l" and new: "ID x \<notin> ID ` set (lic_queue l) \<union> fst ` set (allocations l)"
    and small: "length (lic_queue l) < 2 ^ 32"
  shows "lic_inv (fst (license_Enqueue x l))"
proof -
  define q where "q = fst (queue_Enqueue x (lic_queue l))"
  define p where "p = OnEnqueue (last q) (lic_prioritizer l)"
  define q' where "q' = queue_Sort (prioritizer_Sorter p) q"
  have l': "fst (license_Enqueue x l) = l\<lparr>lic_queue := q', lic_prioritizer := p\<rparr>"
    by (simp add: license_Enqueue_def q_def p_def q'_def Let_def split: prod.split)
  have q: "strip (last q) = strip x" "map strip q = map strip (lic_queue l) @ [strip x]"
    by (simp_all add: q_def queue_Enqueue_def Let_def)
  have lastq: "ID (last q) = ID x" "Owner (last q) = Owner x"
    using arg_cong [OF q(1), of ID] arg_cong [OF q(1), of Owner] by simp_all
  have qok: "queue_ok q" using inv small queue_Enqueue_ok by (simp add: q_def lic_inv_def lic_safe_def)
  have s: "mset (map strip q') = mset (map strip (lic_queue l @ [x]))"
    using prio.sort_ok(1) [of p q] q(2) by (simp add: q'_def)
  note m = strip_mset [OF s]
  have "queue_ok q'" using qok queue_ok_cong [OF prio.sort_ok(2) [of p q]] by (simp add: q'_def)
  moreover have "prioritizer_accounts p (mset (map id_owner q')) (holders l)"
  proof -
    have "ID (last q) \<notin> fst ` set_mset (queued l)" using new lastq by (auto simp: queued_def id_owner_def)
    then have "prioritizer_accounts p (add_mset (ID (last q), Owner (last q)) (queued l)) (holders l)"
      unfolding p_def using inv by (intro prio.enqueue) (auto simp: lic_inv_def)
    moreover have "mset (map id_owner q') = add_mset (ID x, Owner x) (queued l)"
      unfolding m(1) by (simp add: queued_def id_owner_def)
    ultimately show ?thesis by (simp add: lastq)
  qed
  ultimately show ?thesis using inv new m by (auto simp: l' lic_inv_def lic_safe_def queued_def holders_def)
qed

section \<open>Allocate and Promote\<close>

lemma license_Allocate_inv:
  assumes inv: "lic_inv l" and new: "ID x \<notin> ID ` set (lic_queue l) \<union> fst ` set (allocations l)"
  shows "lic_inv (fst (license_Allocate x l))"
proof (cases "totalAvailable l \<le> int (length (allocations l))")
  case True
  then show ?thesis using inv by (simp add: license_Allocate_def)
next
  case False
  have u: "AList.update (ID x) x (allocations l) = allocations l @ [(ID x, x)]"
    using new by (intro update_new) auto
  have "prioritizer_accounts (OnAllocate x (lic_prioritizer l)) (queued l) (add_mset (Owner x) (holders l))"
    using inv by (intro prio.allocate) (simp add: lic_inv_def)
  then show ?thesis using inv new False
    by (auto simp: license_Allocate_def u lic_inv_def lic_safe_def queued_def holders_def)
qed

text \<open>One round of the loop of \<^verbatim>\<open>Promote\<close>.\<close>

definition promote_one :: "license \<Rightarrow> invocation \<Rightarrow> queue \<Rightarrow> license" where
  "promote_one l x q' = l\<lparr>lic_queue := q', lic_prioritizer := OnAllocate x (OnDequeue x (lic_prioritizer l)),
     allocations := AList.update (ID x) x (allocations l)\<rparr>"

lemma Promote_loop_Suc:
  assumes "lic_queue l \<noteq> []"
  obtains x q' where "queue_Sort (prioritizer_Sorter (lic_prioritizer l)) (lic_queue l) = x # q'"
    "Promote_loop (Suc n) l = Promote_loop n (promote_one l (strip x) q')"
proof -
  let ?q = "queue_Sort (prioritizer_Sorter (lic_prioritizer l)) (lic_queue l)"
  have "length ?q = length (lic_queue l)" using strip_mset(5) [OF prio.sort_ok(1)] .
  then obtain x q' where x: "?q = x # q'" using assms by (cases ?q) auto
  then have "queue_Dequeue ?q = (q', Some (strip x))" by (simp add: queue_Dequeue_def)
  then have "Promote_loop (Suc n) l = Promote_loop n (promote_one l (strip x) q')"
    using assms by (simp add: queue_Len_def promote_one_def)
  with x show thesis by (rule that)
qed

lemma promote_one_inv:
  assumes inv: "lic_inv l" and q: "queue_Sort (prioritizer_Sorter (lic_prioritizer l)) (lic_queue l) = x # q'"
    and free: "int (length (allocations l)) < totalAvailable l"
  shows "lic_inv (promote_one l (strip x) q')"
    "allocations (promote_one l (strip x) q') = allocations l @ [(ID x, strip x)]"
    "add_mset (strip x) (mset (map strip q')) = mset (map strip (lic_queue l))"
proof -
  have s: "mset (map strip (x # q')) = mset (map strip (lic_queue l))" using prio.sort_ok(1) q by metis
  then show "add_mset (strip x) (mset (map strip q')) = mset (map strip (lic_queue l))" by simp
  note m = strip_mset [OF s]
  have "ID ` set (x # q') \<inter> fst ` set (allocations l) = {}" unfolding m(3) using inv by (simp add: lic_inv_def)
  moreover have "distinct (map ID (x # q'))" unfolding m(4) using inv by (simp add: lic_inv_def lic_safe_def)
  ultimately have d: "ID x \<notin> ID ` set q'" "distinct (map ID q')" "ID x \<notin> fst ` set (allocations l)"
    "ID ` set q' \<inter> fst ` set (allocations l) = {}"
    by simp_all
  have u: "AList.update (ID x) (strip x) (allocations l) = allocations l @ [(ID x, strip x)]"
    using d by (intro update_new) auto
  then show a: "allocations (promote_one l (strip x) q') = allocations l @ [(ID x, strip x)]"
    by (simp add: promote_one_def)
  have "map QueueID (x # q') = map QueueID (lic_queue l)" using prio.sort_ok(2) q by metis
  from queue_ok_cong [OF this] have "queue_ok (x # q')" using inv by (simp add: lic_inv_def lic_safe_def)
  then have qo: "queue_ok q'" by (rule queue_ok_Cons)
  have "queued l = add_mset (ID x, Owner x) (mset (map id_owner q'))"
    using queued_strip [OF s] by (simp add: id_owner_def)
  then have "prioritizer_accounts (OnDequeue (strip x) (lic_prioritizer l)) (mset (map id_owner q')) (holders l)"
    using inv d by (intro prio.dequeue) (auto simp: lic_inv_def id_owner_def)
  then have "prioritizer_accounts (OnAllocate (strip x) (OnDequeue (strip x) (lic_prioritizer l)))
      (mset (map id_owner q')) (add_mset (Owner (strip x)) (holders l))"
    by (rule prio.allocate)
  then show "lic_inv (promote_one l (strip x) q')"
    using inv d qo free unfolding lic_inv_def lic_safe_def
    by (simp add: promote_one_def u queued_def holders_def Int_insert_right image_Un)
qed

lemma Promote_loop_ok:
  assumes "lic_inv l" "int (length (allocations l)) + int n \<le> totalAvailable l"
  shows "lic_inv (Promote_loop n l)
    \<and> (\<exists>new. allocations (Promote_loop n l) = allocations l @ map (\<lambda>x. (ID x, x)) new
        \<and> mset new + mset (map strip (lic_queue (Promote_loop n l))) = mset (map strip (lic_queue l))
        \<and> (length new = n \<or> lic_queue (Promote_loop n l) = []))
    \<and> totalAvailable (Promote_loop n l) = totalAvailable l"
  using assms
proof (induction n arbitrary: l)
  case (Suc n)
  show ?case
  proof (cases "lic_queue l = []")
    case True
    then show ?thesis using Suc.prems by (simp add: queue_Len_def)
  next
    case False
    then obtain x q' where x: "queue_Sort (prioritizer_Sorter (lic_prioritizer l)) (lic_queue l) = x # q'"
      "Promote_loop (Suc n) l = Promote_loop n (promote_one l (strip x) q')"
      using Promote_loop_Suc by blast
    let ?l = "promote_one l (strip x) q'"
    have free: "int (length (allocations l)) < totalAvailable l" using Suc.prems(2) by simp
    note one = promote_one_inv [OF Suc.prems(1) x(1) free]
    have tot: "totalAvailable ?l = totalAvailable l" "lic_queue ?l = q'" by (simp_all add: promote_one_def)
    have "int (length (allocations ?l)) + int n \<le> totalAvailable ?l" using Suc.prems(2) one(2) tot by simp
    from Suc.IH [OF one(1) this] obtain new where new: "lic_inv (Promote_loop n ?l)"
      "allocations (Promote_loop n ?l) = allocations ?l @ map (\<lambda>x. (ID x, x)) new"
      "mset new + mset (map strip (lic_queue (Promote_loop n ?l))) = mset (map strip q')"
      "length new = n \<or> lic_queue (Promote_loop n ?l) = []" "totalAvailable (Promote_loop n ?l) = totalAvailable l"
      using tot by auto
    have "allocations (Promote_loop n ?l) = allocations l @ map (\<lambda>x. (ID x, x)) (strip x # new)"
      using new(2) one(2) by simp
    moreover have "mset (strip x # new) + mset (map strip (lic_queue (Promote_loop n ?l))) = mset (map strip (lic_queue l))"
      using new(3) one(3) by simp
    moreover have "length (strip x # new) = Suc n \<or> lic_queue (Promote_loop n ?l) = []" using new(4) by auto
    ultimately show ?thesis unfolding x(2) using new(1,5) by blast
  qed
qed auto

lemma license_Promote_inv: "lic_inv l \<Longrightarrow> lic_inv (license_Promote l)"
proof -
  assume inv: "lic_inv l"
  then have "int (length (allocations l)) + int (nat (totalAvailable l - int (length (allocations l)))) \<le> totalAvailable l"
    by (simp add: lic_inv_def lic_safe_def)
  from Promote_loop_ok [OF inv this] show ?thesis by (simp add: license_Promote_def)
qed

text \<open>C32: Promotion is complete and loses nothing: afterwards either nobody waits or every license is
  in use; the invocations allocated before stay, and those added are exactly the ones that left the
  queue. Capacity, distinct identifiers and the policy's books are kept.\<close>

theorem license_Promote_complete:
  assumes "lic_inv l"
  shows "lic_inv (license_Promote l)
    \<and> (lic_queue (license_Promote l) = [] \<or> int (length (allocations (license_Promote l))) = totalAvailable l)
    \<and> (\<exists>new. allocations (license_Promote l) = allocations l @ map (\<lambda>x. (ID x, x)) new
        \<and> mset new + mset (map (\<lambda>i. i\<lparr>QueueID := 0\<rparr>) (lic_queue (license_Promote l)))
          = mset (map (\<lambda>i. i\<lparr>QueueID := 0\<rparr>) (lic_queue l)))"
proof -
  have c: "int (length (allocations l)) \<le> totalAvailable l" using assms by (simp add: lic_inv_def lic_safe_def)
  let ?n = "nat (totalAvailable l - int (length (allocations l)))"
  have "int (length (allocations l)) + int ?n \<le> totalAvailable l" using c by simp
  from Promote_loop_ok [OF assms this] obtain new where
    n: "lic_inv (Promote_loop ?n l)" "allocations (Promote_loop ?n l) = allocations l @ map (\<lambda>x. (ID x, x)) new"
    "mset new + mset (map strip (lic_queue (Promote_loop ?n l))) = mset (map strip (lic_queue l))"
    "length new = ?n \<or> lic_queue (Promote_loop ?n l) = []" by blast
  have "int (length (allocations (Promote_loop ?n l))) = totalAvailable l" if "length new = ?n"
    using n(2) that c by simp
  with n show ?thesis unfolding license_Promote_def by blast
qed

definition demo_inv :: "string \<Rightarrow> string \<Rightarrow> u64 \<Rightarrow> invocation" where
  "demo_inv i w q = \<lparr>ID = i, Owner = w, BuildTag = ''t'', LastCheckin = 10, QueueID = q\<rparr>"

definition demo_license :: license where
  "demo_license = \<lparr>lic_name = ''v::f'', totalAvailable = 2, allocations = [(''a'', demo_inv ''a'' ''u'' 0)],
     lic_queue = [demo_inv ''b'' ''u'' 4, demo_inv ''c'' ''v'' 5], lic_prioritizer = FIFOPrioritizer\<rparr>"

lemma demo_license_inv: "lic_inv demo_license"
  by (simp add: lic_inv_def lic_safe_def demo_license_def demo_inv_def queue_ok_def)

theorem license_Promote_complete_witness: "lic_inv (license_Promote demo_license)"
  using license_Promote_complete [OF demo_license_inv] by simp

section \<open>The order of promotion\<close>

lemma Promote_loop_FIFO:
  assumes "lic_prioritizer l = FIFOPrioritizer" "lic_inv l" "int (length (allocations l)) + int n \<le> totalAvailable l"
  shows "Promote_loop n l = l\<lparr>lic_queue := drop n (lic_queue l),
    allocations := allocations l @ map (\<lambda>x. (ID x, x\<lparr>QueueID := 0\<rparr>)) (take n (lic_queue l))\<rparr>"
  using assms
proof (induction n arbitrary: l)
  case (Suc n)
  show ?case
  proof (cases "lic_queue l")
    case Nil
    then show ?thesis by (simp add: queue_Len_def)
  next
    case (Cons x q')
    have srt: "queue_Sort (prioritizer_Sorter (lic_prioritizer l)) (lic_queue l) = x # q'"
      using Suc.prems(1) Cons by (simp add: queue_Sort_def)
    obtain x' q'' where r: "queue_Sort (prioritizer_Sorter (lic_prioritizer l)) (lic_queue l) = x' # q''"
      "Promote_loop (Suc n) l = Promote_loop n (promote_one l (strip x') q'')"
      using Promote_loop_Suc [of l] Cons by (metis list.distinct(1))
    have free: "int (length (allocations l)) < totalAvailable l" using Suc.prems(3) by simp
    note one = promote_one_inv [OF Suc.prems(2) srt free]
    have f: "lic_prioritizer (promote_one l (strip x) q') = FIFOPrioritizer" "totalAvailable (promote_one l (strip x) q') = totalAvailable l"
      "lic_queue (promote_one l (strip x) q') = q'"
      using Suc.prems(1) by (simp_all add: promote_one_def)
    have "int (length (allocations (promote_one l (strip x) q'))) + int n \<le> totalAvailable (promote_one l (strip x) q')"
      using Suc.prems(3) one(2) f by simp
    from Suc.IH [OF f(1) one(1) this] have "Promote_loop n (promote_one l (strip x) q') =
      (promote_one l (strip x) q')\<lparr>lic_queue := drop n q',
        allocations := (allocations l @ [(ID x, strip x)]) @ map (\<lambda>x. (ID x, strip x)) (take n q')\<rparr>"
      unfolding one(2) f(3) .
    then show ?thesis using r srt Cons Suc.prems(1) by (simp add: promote_one_def)
  qed
qed simp

text \<open>C33: Under the FIFO policy licenses go to the invocations in the order they were queued: the front
  of the queue, as many as there are free licenses, moves to the allocations, and nothing else changes.\<close>

theorem license_Promote_FIFO:
  assumes "lic_prioritizer l = FIFOPrioritizer" "lic_inv l" "k = nat (totalAvailable l - int (length (allocations l)))"
  shows "license_Promote l = l\<lparr>lic_queue := drop k (lic_queue l),
    allocations := allocations l @ map (\<lambda>x. (ID x, x\<lparr>QueueID := 0\<rparr>)) (take k (lic_queue l))\<rparr>"
proof -
  have "int (length (allocations l)) + int k \<le> totalAvailable l"
    using assms by (simp add: lic_inv_def lic_safe_def)
  from Promote_loop_FIFO [OF assms(1,2) this] show ?thesis by (simp add: license_Promote_def assms(3))
qed

theorem license_Promote_FIFO_witness:
  "map fst (allocations (license_Promote demo_license)) = [''a'', ''b'']"
  using license_Promote_FIFO [of demo_license 1] demo_license_inv
  by (simp add: demo_license_def demo_inv_def)

text \<open>C34: Under the even-owners policy a license that becomes free goes to a queued invocation whose
  key (its place in its owner's queue plus what the owner already holds, in 64-bit arithmetic) is least.\<close>

theorem license_Promote_EvenOwners:
  assumes inv: "lic_inv l" and p: "lic_prioritizer l = EvenOwnersPrioritizer so"
    and one: "totalAvailable l = int (length (allocations l)) + 1" and ne: "lic_queue l \<noteq> []"
  shows "\<exists>x \<in> set (lic_queue l). allocations (license_Promote l) = allocations l @ [(ID x, x\<lparr>QueueID := 0\<rparr>)]
    \<and> (\<forall>y \<in> set (lic_queue l). EvenOwners_key so x \<le> EvenOwners_key so y)"
proof -
  let ?k = "EvenOwners_key so" and ?q = "lic_queue l"
  have ks: "key_sorter ?k (EvenOwners_Sorter so)" by (simp add: key_sorter_def EvenOwners_Sorter_def EvenOwners_key_def)
  have kst: "?k (strip a) = ?k a" for a by (simp add: EvenOwners_key_def)
  obtain x q' where x: "queue_Sort (prioritizer_Sorter (lic_prioritizer l)) ?q = x # q'"
    "Promote_loop (Suc 0) l = Promote_loop 0 (promote_one l (strip x) q')"
    using Promote_loop_Suc [OF ne] by blast
  have s: "map strip (x # q') = sort_key ?k (map strip ?q)"
    using Stable_sort_key [OF ks, of ?q] x(1) p by (simp add: queue_Sort_def)
  have "sorted (map ?k (sort_key ?k (map strip ?q)))" by simp
  then have least: "\<forall>z \<in> set (map strip q'). ?k (strip x) \<le> ?k z" unfolding s [symmetric] by simp
  have m: "set (map strip (x # q')) = set (map strip ?q)" unfolding s by simp
  have "\<forall>y \<in> set ?q. ?k x \<le> ?k y"
  proof
    fix y assume "y \<in> set ?q"
    then have "strip y \<in> set (map strip (x # q'))" unfolding m by simp
    then have "strip y = strip x \<or> strip y \<in> set (map strip q')" by auto
    then show "?k x \<le> ?k y" using least kst by (metis order_refl)
  qed
  moreover obtain x0 where x0: "x0 \<in> set ?q" "strip x0 = strip x" using m by force
  moreover have "?k x0 = ?k x" using x0(2) kst by metis
  moreover have "ID x0 = ID x" using arg_cong [OF x0(2), of ID] by simp
  moreover have "allocations (license_Promote l) = allocations l @ [(ID x, strip x)]"
    using promote_one_inv(2) [OF inv x(1)] one x(2) by (simp add: license_Promote_def)
  ultimately show ?thesis by metis
qed

text \<open>
  The subtraction in the key wraps: an owner whose later entries leave the queue before the first one
  (released or expired) gets a key near 2^64. Here owner u queued a, b and c, then b and c were
  released; owner v already holds a license and queues d: d is served before a.
\<close>

definition wrap_license :: license where
  "wrap_license = (let l = \<lparr>lic_name = ''v::f'', totalAvailable = 1, allocations = [],
       lic_queue = [], lic_prioritizer = EvenOwnersPrioritizer NewEvenOwnersPrioritizer\<rparr>;
     l = fst (license_Allocate (demo_inv ''h'' ''v'' 0) l);
     l = fst (license_Enqueue (demo_inv ''a'' ''u'' 0) l);
     l = fst (license_Enqueue (demo_inv ''b'' ''u'' 0) l);
     l = fst (license_Enqueue (demo_inv ''c'' ''u'' 0) l);
     l = fst (license_Forget ''b'' l);
     l = fst (license_Forget ''c'' l)
     in fst (license_Enqueue (demo_inv ''d'' ''v'' 0) l))"

lemma EvenOwners_key_wraps: "map ID (lic_queue wrap_license) = [''d'', ''a'']"
  by code_simp

definition even_license0 :: license where
  "even_license0 = \<lparr>lic_name = ''v::f'', totalAvailable = 1, allocations = [],
     lic_queue = [], lic_prioritizer = EvenOwnersPrioritizer NewEvenOwnersPrioritizer\<rparr>"

definition even_license1 :: license where
  "even_license1 = fst (license_Enqueue (demo_inv ''a'' ''u'' 0) even_license0)"

definition even_license :: license where
  "even_license = fst (license_Enqueue (demo_inv ''b'' ''u'' 0) even_license1)"

definition even_books :: "license \<Rightarrow> EvenOwners" where
  "even_books l = (case lic_prioritizer l of EvenOwnersPrioritizer so \<Rightarrow> so | FIFOPrioritizer \<Rightarrow> NewEvenOwnersPrioritizer)"

lemma even_license_inv: "lic_inv even_license"
proof -
  have "lic_inv even_license0"
    by (simp add: lic_inv_def lic_safe_def even_license0_def queued_def holders_def EvenOwners_accounts_def
        NewEvenOwnersPrioritizer_def mget_def)
  moreover have "ID (demo_inv ''a'' ''u'' 0) \<notin> ID ` set (lic_queue even_license0) \<union> fst ` set (allocations even_license0)"
    "length (lic_queue even_license0) < 2 ^ 32" by (simp_all add: even_license0_def)
  ultimately have "lic_inv even_license1" unfolding even_license1_def by (rule license_Enqueue_inv)
  moreover have "lic_queue even_license1 = [demo_inv ''a'' ''u'' 1]" "allocations even_license1 = []" by code_simp+
  then have "ID (demo_inv ''b'' ''u'' 0) \<notin> ID ` set (lic_queue even_license1) \<union> fst ` set (allocations even_license1)"
    "length (lic_queue even_license1) < 2 ^ 32" by (simp_all add: demo_inv_def)
  ultimately show ?thesis unfolding even_license_def by (rule license_Enqueue_inv)
qed

lemma even_prior: "lic_prioritizer even_license = EvenOwnersPrioritizer
    (EvenOwners_OnEnqueue (demo_inv ''b'' ''u'' 2) (EvenOwners_OnEnqueue (demo_inv ''a'' ''u'' 1) NewEvenOwnersPrioritizer))"
proof -
  have 1: "lic_prioritizer (fst (license_Enqueue x l)) = OnEnqueue (last (fst (queue_Enqueue x (lic_queue l)))) (lic_prioritizer l)" for x l
    by (simp add: license_Enqueue_def Let_def split: prod.split)
  have 2: "last (fst (queue_Enqueue (demo_inv ''b'' ''u'' 0) (lic_queue even_license1))) = demo_inv ''b'' ''u'' 2"
    "last (fst (queue_Enqueue (demo_inv ''a'' ''u'' 0) (lic_queue even_license0))) = demo_inv ''a'' ''u'' 1"
    by code_simp+
  show ?thesis unfolding even_license_def 1 2 unfolding even_license1_def 1 2 by (simp add: even_license0_def)
qed

theorem license_Promote_EvenOwners_witness:
  "\<exists>x \<in> set (lic_queue even_license). allocations (license_Promote even_license) = [(ID x, x\<lparr>QueueID := 0\<rparr>)]
    \<and> list_all (\<lambda>y. EvenOwners_key (even_books even_license) x \<le> EvenOwners_key (even_books even_license) y) (lic_queue even_license)"
proof -
  have a: "allocations even_license = []" by code_simp
  have t: "totalAvailable even_license = int (length (allocations even_license)) + 1" by code_simp
  have q: "lic_queue even_license \<noteq> []" by code_simp
  have "lic_prioritizer even_license = EvenOwnersPrioritizer (even_books even_license)"
    unfolding even_books_def even_prior by simp
  from license_Promote_EvenOwners [OF even_license_inv this t q] show ?thesis unfolding a by (simp add: list_all_iff)
qed

section \<open>Expiry and release\<close>

lemma ExpireAllocations_loop_eq:
  "ExpireAllocations_loop e al new p = (new @ filter (\<lambda>(k, v). e < LastCheckin v) al,
    fold OnRelease (map snd (filter (\<lambda>(k, v). \<not> e < LastCheckin v) al)) p)"
  by (induction e al new p rule: ExpireAllocations_loop.induct) auto

lemma Forget_loop_eq:
  "Forget_loop i al new p c = (new @ filter (\<lambda>(k, v). k \<noteq> i) al,
    fold OnRelease (map snd (filter (\<lambda>(k, v). k = i) al)) p, c + length (filter (\<lambda>(k, v). k = i) al))"
  by (induction i al new p c rule: Forget_loop.induct) auto

lemma mset_filter_split: "mset (map f xs) = mset (map f (filter P xs)) + mset (map f (filter (\<lambda>x. \<not> P x) xs))"
  by (induction xs) auto

lemma release_keeps:
  assumes acc: "prioritizer_accounts p Q (mset (map (\<lambda>(k, v). Owner v) al))" and small: "length al < 2 ^ 63"
  shows "prioritizer_accounts (fold OnRelease (map snd (filter P al)) p) Q (mset (map (\<lambda>(k, v). Owner v) (filter (\<lambda>x. \<not> P x) al)))"
proof (rule prio.release_all)
  have "map Owner (map snd (filter P al)) = map (\<lambda>(k, v). Owner v) (filter P al)" by (simp add: case_prod_unfold comp_def)
  then show "prioritizer_accounts p Q (mset (map Owner (map snd (filter P al))) + mset (map (\<lambda>(k, v). Owner v) (filter (\<lambda>x. \<not> P x) al)))"
    using acc mset_filter_split [of "\<lambda>(k, v). Owner v" al P] by metis
  have "length (filter (\<lambda>x. \<not> P x) al) + length (filter P al) = length al"
    using sum_length_filter_compl [of P al] by simp
  then show "size (mset (map (\<lambda>(k, v). Owner v) (filter (\<lambda>x. \<not> P x) al))) + length (map snd (filter P al)) < 2 ^ 63"
    unfolding size_mset length_map using small by simp
qed

lemma dequeue_keeps:
  assumes acc: "prioritizer_accounts p (mset (map id_owner q)) A" and d: "distinct (map ID q)"
  shows "prioritizer_accounts (fold OnDequeue (filter P q) p) (mset (map id_owner (filter (\<lambda>x. \<not> P x) q))) A"
proof (rule prio.dequeue_all)
  have e: "(\<lambda>x. (ID x, Owner x)) = id_owner" by (auto simp: id_owner_def)
  show "prioritizer_accounts p (mset (map (\<lambda>x. (ID x, Owner x)) (filter P q)) + mset (map id_owner (filter (\<lambda>x. \<not> P x) q))) A"
    using acc mset_filter_split [of id_owner q P] unfolding e by simp
  show "distinct (map ID (filter P q))" using d by (rule distinct_map_filter)
  show "ID ` set (filter P q) \<inter> fst ` set_mset (mset (map id_owner (filter (\<lambda>x. \<not> P x) q))) = {}"
    using d by (auto simp: id_owner_def distinct_map dest: inj_onD)
qed

lemma keep_ids_id_owner: "map id_owner (keep_ids P 0 q) = map id_owner (filter (\<lambda>x. \<not> P x) q)"
proof -
  have "map id_owner (map strip (keep_ids P 0 q)) = map id_owner (map strip (filter (\<lambda>x. \<not> P x) q))"
    unfolding keep_ids_strip ..
  then show ?thesis by (simp add: comp_def)
qed

lemma lic_inv_filter:
  assumes inv: "lic_inv l"
    and acc: "prioritizer_accounts p (mset (map id_owner (filter (\<lambda>x. \<not> P x) (lic_queue l))))
      (mset (map (\<lambda>(k, v). Owner v) (filter R (allocations l))))"
  shows "lic_inv (l\<lparr>lic_queue := keep_ids P 0 (lic_queue l), lic_prioritizer := p, allocations := filter R (allocations l)\<rparr>)"
proof -
  have i: "map ID (keep_ids P 0 (lic_queue l)) = map ID (filter (\<lambda>x. \<not> P x) (lic_queue l))"
    by (rule map_ID_strip) (rule keep_ids_strip)
  then have si: "ID ` set (keep_ids P 0 (lic_queue l)) = ID ` set (filter (\<lambda>x. \<not> P x) (lic_queue l))"
    by (metis list.set_map)
  have "length (filter R (allocations l)) \<le> length (allocations l)" by simp
  moreover have "int (length (allocations l)) \<le> totalAvailable l" using inv by (simp add: lic_inv_def lic_safe_def)
  ultimately have "int (length (filter R (allocations l))) \<le> totalAvailable l" by linarith
  moreover have "ID ` set (filter (\<lambda>x. \<not> P x) (lic_queue l)) \<inter> fst ` set (filter R (allocations l)) = {}"
    using inv by (auto simp: lic_inv_def)
  moreover have "queue_ok (keep_ids P 0 (lic_queue l))" using inv queue_Filter_ok(3) by (simp add: lic_inv_def lic_safe_def)
  ultimately show ?thesis using inv acc
    by (auto simp: lic_inv_def lic_safe_def queued_def holders_def i si keep_ids_id_owner distinct_map_filter)
qed

lemma license_Expire_exact_lemma:
  assumes "lic_inv l"
  shows "lic_inv (license_ExpireQueued qe (license_ExpireAllocations ae l))
    \<and> allocations (license_ExpireQueued qe (license_ExpireAllocations ae l))
        = filter (\<lambda>(k, v). ae < LastCheckin v) (allocations l)
    \<and> map (\<lambda>i. i\<lparr>QueueID := 0\<rparr>) (lic_queue (license_ExpireQueued qe (license_ExpireAllocations ae l)))
        = map (\<lambda>i. i\<lparr>QueueID := 0\<rparr>) (filter (\<lambda>x. qe < LastCheckin x) (lic_queue l))"
proof -
  have len: "length (allocations l) < 2 ^ 63" using assms by (simp add: lic_inv_def lic_safe_def)
  define p where "p = fold OnRelease (map snd (filter (\<lambda>(k, v). \<not> ae < LastCheckin v) (allocations l))) (lic_prioritizer l)"
  have 1: "license_ExpireAllocations ae l = l\<lparr>allocations := filter (\<lambda>(k, v). ae < LastCheckin v) (allocations l), lic_prioritizer := p\<rparr>"
    by (simp add: license_ExpireAllocations_def ExpireAllocations_loop_eq p_def)
  have cb: "(\<lambda>pos x p. if qe < LastCheckin x then (False, p) else (True, OnDequeue x p))
    = pure_filter (\<lambda>x. \<not> qe < LastCheckin x) OnDequeue"
    by (auto simp: pure_filter_def fun_eq_iff)
  define p' where "p' = fold OnDequeue (filter (\<lambda>x. \<not> qe < LastCheckin x) (lic_queue l)) p"
  have 2: "license_ExpireQueued qe (license_ExpireAllocations ae l) = l\<lparr>lic_queue := keep_ids (\<lambda>x. \<not> qe < LastCheckin x) 0 (lic_queue l),
     lic_prioritizer := p', allocations := filter (\<lambda>(k, v). ae < LastCheckin v) (allocations l)\<rparr>"
    unfolding 1 by (simp add: license_ExpireQueued_def cb queue_Filter_ok(1) p'_def del: not_less)
  have "prioritizer_accounts (lic_prioritizer l) (mset (map id_owner (lic_queue l))) (mset (map (\<lambda>(k, v). Owner v) (allocations l)))"
    using assms by (simp add: lic_inv_def queued_def holders_def)
  from release_keeps [OF this len, of "\<lambda>(k, v). \<not> ae < LastCheckin v"]
  have "prioritizer_accounts p (mset (map id_owner (lic_queue l)))
      (mset (map (\<lambda>(k, v). Owner v) (filter (\<lambda>(k, v). ae < LastCheckin v) (allocations l))))"
    by (simp add: p_def case_prod_unfold)
  moreover have "distinct (map ID (lic_queue l))" using assms by (simp add: lic_inv_def lic_safe_def)
  ultimately have "prioritizer_accounts p' (mset (map id_owner (filter (\<lambda>x. \<not> \<not> qe < LastCheckin x) (lic_queue l))))
      (mset (map (\<lambda>(k, v). Owner v) (filter (\<lambda>(k, v). ae < LastCheckin v) (allocations l))))"
    unfolding p'_def by (rule dequeue_keeps)
  from lic_inv_filter [OF assms this] show ?thesis unfolding 2 by (simp add: keep_ids_strip)
qed

lemma license_Expire_inv: "lic_inv l \<Longrightarrow> lic_inv (license_ExpireQueued qe (license_ExpireAllocations ae l))"
  using license_Expire_exact_lemma by blast

text \<open>C35: Expiry removes exactly the allocations and the queue entries that did not check in after the
  expiry time, in whatever order the map is visited, keeps the others in place, and keeps the invariant.\<close>

theorem license_Expire_exact:
  assumes "lic_inv l"
  shows "lic_inv (license_ExpireQueued qe (license_ExpireAllocations ae l))
    \<and> allocations (license_ExpireQueued qe (license_ExpireAllocations ae l))
        = filter (\<lambda>(k, v). ae < LastCheckin v) (allocations l)
    \<and> map (\<lambda>i. i\<lparr>QueueID := 0\<rparr>) (lic_queue (license_ExpireQueued qe (license_ExpireAllocations ae l)))
        = map (\<lambda>i. i\<lparr>QueueID := 0\<rparr>) (filter (\<lambda>x. qe < LastCheckin x) (lic_queue l))"
  using assms by (rule license_Expire_exact_lemma)

theorem license_Expire_exact_witness:
  "lic_queue (license_ExpireQueued 10 (license_ExpireAllocations 9 demo_license)) = []
    \<and> lic_inv (license_ExpireQueued 10 (license_ExpireAllocations 9 demo_license))"
  using license_Expire_exact [OF demo_license_inv, of 10 9] by (simp add: demo_license_def demo_inv_def)

lemma length_filter_key: "distinct (map f xs) \<Longrightarrow> length (filter (\<lambda>x. f x = i) xs) = (if i \<in> f ` set xs then 1 else 0)"
proof (induction xs)
  case (Cons x xs)
  then show ?case by (cases "f x = i") auto
qed simp

lemma filter_find_rev:
  "distinct (map f q) \<Longrightarrow> filter (\<lambda>x. f x = i) q = (case find (\<lambda>x. f x = i) (rev q) of None \<Rightarrow> [] | Some x \<Rightarrow> [x])"
proof (induction q rule: rev_induct)
  case (snoc y q)
  show ?case
  proof (cases "f y = i")
    case True
    then have "filter (\<lambda>x. f x = i) q = []" using snoc.prems by (force simp: filter_empty_conv image_iff)
    then show ?thesis using True by simp
  next
    case False
    then show ?thesis using snoc by simp
  qed
qed simp

lemma OnDequeue_strip: "OnDequeue (strip x) p = OnDequeue x p"
  by (cases p) (simp_all add: EvenOwners_OnDequeue_def Let_def)

lemma license_Forget_exact_lemma:
  assumes "lic_inv l" "license_Forget i l = (l', n)"
  shows "lic_inv l' \<and> allocations l' = filter (\<lambda>(k, v). k \<noteq> i) (allocations l)
    \<and> map (\<lambda>i. i\<lparr>QueueID := 0\<rparr>) (lic_queue l') = map (\<lambda>i. i\<lparr>QueueID := 0\<rparr>) (filter (\<lambda>x. ID x \<noteq> i) (lic_queue l))
    \<and> n = (if i \<in> ID ` set (lic_queue l) \<union> fst ` set (allocations l) then 1 else 0)"
proof -
  define p where "p = fold OnRelease (map snd (filter (\<lambda>(k, v). k = i) (allocations l))) (lic_prioritizer l)"
  define p' where "p' = fold OnDequeue (filter (\<lambda>x. ID x = i) (lic_queue l)) p"
  define c where "c = length (filter (\<lambda>(k, v). k = i) (allocations l))"
  have d: "distinct (map ID (lic_queue l))" "distinct (map fst (allocations l))" "length (allocations l) < 2 ^ 63"
    using assms(1) by (auto simp: lic_inv_def lic_safe_def)
  have q: "filter (\<lambda>x. ID x = i) (lic_queue l) = (case find (\<lambda>x. ID x = i) (rev (lic_queue l)) of None \<Rightarrow> [] | Some x \<Rightarrow> [x])"
    by (rule filter_find_rev [OF d(1)])
  have r: "l' = l\<lparr>lic_queue := keep_ids (\<lambda>x. ID x = i) 0 (lic_queue l), lic_prioritizer := p',
      allocations := filter (\<lambda>(k, v). k \<noteq> i) (allocations l)\<rparr>"
    "n = c + length (filter (\<lambda>x. ID x = i) (lic_queue l))"
    using assms(2) unfolding license_Forget_def Forget_loop_eq queue_Forget_eq p'_def q
    by (auto simp: p_def c_def OnDequeue_strip split: option.splits)
  have "prioritizer_accounts (lic_prioritizer l) (mset (map id_owner (lic_queue l))) (mset (map (\<lambda>(k, v). Owner v) (allocations l)))"
    using assms(1) by (simp add: lic_inv_def queued_def holders_def)
  from release_keeps [OF this d(3), of "\<lambda>(k, v). k = i"]
  have "prioritizer_accounts p (mset (map id_owner (lic_queue l)))
      (mset (map (\<lambda>(k, v). Owner v) (filter (\<lambda>(k, v). k \<noteq> i) (allocations l))))"
    by (simp add: p_def case_prod_unfold)
  from dequeue_keeps [OF this d(1), of "\<lambda>x. ID x = i"] have "lic_inv l'"
    unfolding r(1) p'_def [symmetric] by (intro lic_inv_filter [OF assms(1)])
  moreover have "n = (if i \<in> ID ` set (lic_queue l) \<union> fst ` set (allocations l) then 1 else 0)"
  proof -
    have "c = (if i \<in> fst ` set (allocations l) then 1 else 0)"
      using length_filter_key [OF d(2), of i] by (simp add: c_def case_prod_unfold)
    moreover have "length (filter (\<lambda>x. ID x = i) (lic_queue l)) = (if i \<in> ID ` set (lic_queue l) then 1 else 0)"
      by (rule length_filter_key [OF d(1)])
    moreover have "ID ` set (lic_queue l) \<inter> fst ` set (allocations l) = {}" using assms(1) by (simp add: lic_inv_def)
    ultimately show ?thesis unfolding r(2) by auto
  qed
  ultimately show ?thesis by (simp add: r(1) keep_ids_strip)
qed

lemma license_Forget_inv: "lic_inv l \<Longrightarrow> lic_inv (fst (license_Forget i l))"
  using license_Forget_exact_lemma by (metis prod.collapse)

text \<open>C36: \<^verbatim>\<open>Forget\<close> removes the invocation from the allocations and from the queue, and nothing else; it
  returns the number of places it was found in, and keeps the invariant.\<close>

theorem license_Forget_exact:
  assumes "lic_inv l" "license_Forget i l = (l', n)"
  shows "lic_inv l' \<and> allocations l' = filter (\<lambda>(k, v). k \<noteq> i) (allocations l)
    \<and> map (\<lambda>i. i\<lparr>QueueID := 0\<rparr>) (lic_queue l') = map (\<lambda>i. i\<lparr>QueueID := 0\<rparr>) (filter (\<lambda>x. ID x \<noteq> i) (lic_queue l))
    \<and> n = (if i \<in> ID ` set (lic_queue l) \<union> fst ` set (allocations l) then 1 else 0)"
  using assms by (rule license_Forget_exact_lemma)

theorem license_Forget_exact_witness:
  "lic_inv (fst (license_Forget ''b'' demo_license)) \<and> snd (license_Forget ''b'' demo_license) = 1"
  using license_Forget_exact [OF demo_license_inv, of "''b''" "fst (license_Forget ''b'' demo_license)" "snd (license_Forget ''b'' demo_license)"]
  by (simp add: demo_license_def demo_inv_def)

section \<open>Positions and statistics\<close>

text \<open>\<^verbatim>\<open>Enqueue\<close> returns the 1-based index at which the new invocation stands after sorting.\<close>

theorem license_Enqueue_position:
  assumes inv: "lic_inv l" and new: "ID x \<notin> ID ` set (lic_queue l) \<union> fst ` set (allocations l)"
    and small: "length (lic_queue l) < 2 ^ 32" and run: "license_Enqueue x l = (l', pos)"
    and nz: "\<forall>y \<in> set (lic_queue l'). QueueID y \<noteq> 0"
  shows "\<exists>k < length (lic_queue l'). ID (lic_queue l' ! k) = ID x \<and> pos = of_nat (k + 1)"
proof -
  have l': "l' = fst (license_Enqueue x l)" using run by simp
  have inv': "lic_inv l'" unfolding l' using license_Enqueue_inv [OF inv new small] .
  have p: "pos = (case find (\<lambda>y. ID y = ID x) (lic_queue l') of None \<Rightarrow> 0 | Some y \<Rightarrow> queue_Position y (lic_queue l'))"
    using run by (auto simp: license_Enqueue_def Let_def split: prod.splits cong: option.case_cong)
  define q where "q = fst (queue_Enqueue x (lic_queue l))"
  have "lic_queue l' = queue_Sort (prioritizer_Sorter (OnEnqueue (last q) (lic_prioritizer l))) q"
    unfolding l' by (simp add: license_Enqueue_def q_def Let_def split: prod.split)
  then have "ID ` set (lic_queue l') = ID ` set q" using strip_mset(3) [OF prio.sort_ok(1)] by metis
  then have "ID x \<in> ID ` set (lic_queue l')" by (simp add: q_def queue_Enqueue_def Let_def)
  then obtain y where "find (\<lambda>y. ID y = ID x) (lic_queue l') = Some y"
    by (cases "find (\<lambda>y. ID y = ID x) (lic_queue l')") (auto simp: find_None_iff)
  moreover from this obtain k where k: "k < length (lic_queue l')" "ID (lic_queue l' ! k) = ID x" "y = lic_queue l' ! k"
    by (auto simp: find_Some_iff)
  moreover have "queue_Position (lic_queue l' ! k) (lic_queue l') = of_nat (k + 1)"
    using inv' k(1) nz by (intro queue_Position_index) (auto simp: lic_inv_def lic_safe_def)
  ultimately show ?thesis using p by auto
qed

theorem license_Enqueue_position_witness:
  "\<exists>k < length (lic_queue even_license). ID (lic_queue even_license ! k) = ''b''
     \<and> snd (license_Enqueue (demo_inv ''b'' ''u'' 0) even_license1) = of_nat (k + 1)"
proof -
  have q: "lic_queue even_license1 = [demo_inv ''a'' ''u'' 1]" "allocations even_license1 = []"
    "lic_queue even_license = [demo_inv ''a'' ''u'' 1, demo_inv ''b'' ''u'' 2]" by code_simp+
  have "lic_inv even_license1" unfolding even_license1_def
    by (rule license_Enqueue_inv) (simp_all add: lic_inv_def lic_safe_def even_license0_def queued_def holders_def
        EvenOwners_accounts_def NewEvenOwnersPrioritizer_def mget_def)
  from license_Enqueue_position [OF this, of "demo_inv ''b'' ''u'' 0" even_license
      "snd (license_Enqueue (demo_inv ''b'' ''u'' 0) even_license1)"]
  show ?thesis unfolding q by (simp add: even_license_def demo_inv_def q)
qed

lemma SplitN2_plain: "CHR '':'' \<notin> set a \<Longrightarrow> SplitN2 (a @ '':'' @ '':'' @ b) = [a, b]"
proof (induction a)
  case (Cons c a)
  then show ?case by (cases a) auto
qed simp

lemma Walk_collect: "snd (Walk_loop (\<lambda>pos x st. (True, st @ [g x])) k q acc) = acc @ map g q"
  by (induction q arbitrary: k acc) auto

text \<open>The statistics list every allocated invocation once, in order of its identifier, and the queue
  in queue order, and name the license by the vendor and the feature its name was made of.\<close>

theorem license_GetStats_faithful:
  assumes "lic_name l = v @ ''::'' @ f" "CHR '':'' \<notin> set v"
  shows "st_vendor (license_GetStats now l) = v \<and> st_feature (license_GetStats now l) = f
    \<and> mset (st_allocated (license_GetStats now l)) = mset (map (\<lambda>(k, x). ToProto x) (allocations l))
    \<and> sorted (map (\<lambda>(w, t, i). i) (st_allocated (license_GetStats now l)))
    \<and> st_queued (license_GetStats now l) = map ToProto (lic_queue l)"
proof -
  have "SplitN2 (lic_name l) = [v, f]" using SplitN2_plain [OF assms(2), of f] assms(1) by simp
  moreover have "sorted (map (\<lambda>(w, t, i). i) (sort_key (\<lambda>(w, t, i). i) xs))" for xs :: "(string \<times> string \<times> string) list"
    by simp
  ultimately show ?thesis
    by (simp add: license_GetStats_def queue_Walk_def Walk_collect)
qed

theorem license_GetStats_faithful_witness: "st_vendor (license_GetStats 0 demo_license) = ''v''"
  using license_GetStats_faithful [of demo_license "''v''" "''f''" 0] by (simp add: demo_license_def)

end
