(* ===== verification/Flex_Service.thy ===== *)
theory Flex_Service imports Flex_License_Props "HOL-Library.Product_Lexorder" begin

text \<open>
  \<^verbatim>\<open>flextape/service/service.go\<close>: the license server. Every RPC and the janitor run under one mutex,
  so a history is a sequence of atomic steps (\<open>service_step\<close>). \<open>now k\<close> is the \<open>k\<close>-th reading of
  the clock inside a step, and \<open>gen\<close> what \<^verbatim>\<open>generateRandomID\<close> returns (\<^const>\<open>None\<close> an error).
\<close>

section \<open>Configuration\<close>

datatype prioritizer_choice = Choice_Fifo | Choice_EvenOwners | Choice_Unset

record LicenseConfig =
  lc_vendor :: string
  lc_feature :: string
  lc_quantity :: u32
  lc_prioritizer :: prioritizer_choice

record ServerConfig =
  queue_refresh_duration_seconds :: u32
  allocation_refresh_duration_seconds :: u32
  janitor_interval_seconds :: u32
  adoption_duration_seconds :: u32

record Config =
  cfg_server :: "ServerConfig option"
  license_configs :: "LicenseConfig list"

datatype state = stateStarting | stateRunning

record Service =
  currentState :: state
  licenses :: "(string \<times> license) list"
  queueRefreshDuration :: time
  allocationRefreshDuration :: time

fun prioritizer_of :: "prioritizer_choice \<Rightarrow> Prioritizer" where
  "prioritizer_of Choice_Fifo = FIFOPrioritizer"
| "prioritizer_of Choice_EvenOwners = EvenOwnersPrioritizer NewEvenOwnersPrioritizer"
| "prioritizer_of Choice_Unset = FIFOPrioritizer"

definition licensesFromConfig :: "Config \<Rightarrow> (string \<times> license) list" where
  "licensesFromConfig config = fold (\<lambda>l licenses.
     let name = lc_vendor l @ ''::'' @ lc_feature l in
     AList.update name \<lparr>lic_name = name, totalAvailable = uint (lc_quantity l), allocations = [],
       lic_queue = [], lic_prioritizer = prioritizer_of (lc_prioritizer l)\<rparr> licenses) (license_configs config) []"

definition defaultUint32 :: "u32 \<Rightarrow> u32 \<Rightarrow> u32" where
  "defaultUint32 v d = (if v = 0 then d else v)"

definition seconds :: "u32 \<Rightarrow> time" where
  "seconds n = uint n * 1000000000"

text \<open>
  \<^verbatim>\<open>New\<close>, with the periods of the two goroutines it starts: the janitor's interval, and the time
  after which the server leaves the starting state.
\<close>

definition Service_New :: "Config \<Rightarrow> string + (Service \<times> time \<times> time)" where
  "Service_New config = (case cfg_server config of
     None \<Rightarrow> Inl ''missing `server` section in config''
   | Some sc \<Rightarrow>
       Inr (\<lparr>currentState = stateStarting, licenses = licensesFromConfig config,
             queueRefreshDuration = seconds (defaultUint32 (queue_refresh_duration_seconds sc) 15),
             allocationRefreshDuration = seconds (defaultUint32 (allocation_refresh_duration_seconds sc) 30)\<rparr>,
            seconds (defaultUint32 (janitor_interval_seconds sc) 1),
            seconds (defaultUint32 (adoption_duration_seconds sc) 45)))"

definition Service_adopted :: "Service \<Rightarrow> Service" where
  "Service_adopted s = s\<lparr>currentState := stateRunning\<rparr>"

section \<open>The janitor\<close>

definition Service_janitor :: "(nat \<Rightarrow> time) \<Rightarrow> Service \<Rightarrow> Service" where
  "Service_janitor now s =
    (if currentState s = stateStarting then s
     else let allocationExpiry = now 0 - allocationRefreshDuration s;
              queueExpiry = now 1 - queueRefreshDuration s
       in s\<lparr>licenses := map (\<lambda>(n, lic).
              (n, license_Promote (license_ExpireQueued queueExpiry (license_ExpireAllocations allocationExpiry lic))))
            (licenses s)\<rparr>)"

section \<open>RPCs\<close>

record Invocation =
  inv_licenses :: "(string \<times> string) list"
  inv_id :: string
  inv_owner :: string
  inv_build_tag :: string

definition formatLicenseType :: "string \<times> string \<Rightarrow> string" where
  "formatLicenseType l = fst l @ ''::'' @ snd l"

datatype rpc_error = InvalidArgument string | NotFound string | Internal string
  | FailedPrecondition string | ResourceExhausted string

datatype AllocateResponse = LicenseAllocated string time | Queued string time u32

text \<open>\<^verbatim>\<open>inv.LastCheckin = now\<close> through the pointer that \<^verbatim>\<open>GetAllocated\<close> or \<^verbatim>\<open>GetQueued\<close> returned.\<close>

definition checkin_allocated :: "string \<Rightarrow> time \<Rightarrow> license \<Rightarrow> license" where
  "checkin_allocated i t l =
    l\<lparr>allocations := map (\<lambda>(k, v). (k, if k = i then v\<lparr>LastCheckin := t\<rparr> else v)) (allocations l)\<rparr>"

fun checkin_first :: "string \<Rightarrow> time \<Rightarrow> queue \<Rightarrow> queue" where
  "checkin_first i t [] = []"
| "checkin_first i t (x # q) = (if ID x = i then x\<lparr>LastCheckin := t\<rparr> # q else x # checkin_first i t q)"

definition checkin_queued :: "string \<Rightarrow> time \<Rightarrow> license \<Rightarrow> license" where
  "checkin_queued i t l = l\<lparr>lic_queue := checkin_first i t (lic_queue l)\<rparr>"

definition set_license :: "string \<Rightarrow> license \<Rightarrow> Service \<Rightarrow> Service" where
  "set_license n lic s = s\<lparr>licenses := AList.update n lic (licenses s)\<rparr>"

definition new_invocation :: "string \<Rightarrow> Invocation \<Rightarrow> time \<Rightarrow> invocation" where
  "new_invocation i msg t = \<lparr>ID = i, Owner = inv_owner msg, BuildTag = inv_build_tag msg, LastCheckin = t, QueueID = 0\<rparr>"

text \<open>The part of \<^verbatim>\<open>Allocate\<close> after the identifier is known.\<close>

definition Allocate_known :: "(nat \<Rightarrow> time) \<Rightarrow> Invocation \<Rightarrow> string \<Rightarrow> license \<Rightarrow> string \<Rightarrow> Service
    \<Rightarrow> Service \<times> (rpc_error + AllocateResponse)" where
  "Allocate_known now msg licenseType lic invocationID s =
    (case license_GetAllocated invocationID lic of
       Some _ \<Rightarrow> (set_license licenseType (checkin_allocated invocationID (now 1) lic) s,
                  Inr (LicenseAllocated invocationID (now 2 + allocationRefreshDuration s)))
     | None \<Rightarrow>
         (case license_GetQueued invocationID lic of
            Some (_, pos) \<Rightarrow> (set_license licenseType (checkin_queued invocationID (now 1) lic) s,
                               Inr (Queued invocationID (now 2 + queueRefreshDuration s) pos))
          | None \<Rightarrow>
              if currentState s = stateRunning
              then (set_license licenseType lic s, Inl (FailedPrecondition invocationID))
              else let (lic', pos) = license_Enqueue (new_invocation invocationID msg (now 1)) lic
                in (set_license licenseType lic' s, Inr (Queued invocationID (now 2 + queueRefreshDuration s) pos))))"

definition Service_Allocate :: "(nat \<Rightarrow> time) \<Rightarrow> string option \<Rightarrow> Invocation \<Rightarrow> Service
    \<Rightarrow> Service \<times> (rpc_error + AllocateResponse)" where
  "Service_Allocate now gen msg s =
    (if length (inv_licenses msg) \<noteq> 1 then (s, Inl (InvalidArgument ''licenses must have exactly one license spec''))
     else let licenseType = formatLicenseType (hd (inv_licenses msg)) in
       case map_of (licenses s) licenseType of
         None \<Rightarrow> (s, Inl (NotFound licenseType))
       | Some lic \<Rightarrow>
           if inv_id msg = [] then
             (case gen of
                None \<Rightarrow> (s, Inl (Internal ''failed to generate invocation_id''))
              | Some invocationID \<Rightarrow>
                  let lic1 = fst (license_Enqueue (new_invocation invocationID msg (now 0)) lic);
                      lic2 = (if currentState s = stateRunning then license_Promote lic1 else lic1)
                  in Allocate_known now msg licenseType lic2 invocationID s)
           else Allocate_known now msg licenseType lic (inv_id msg) s)"

definition Service_Refresh :: "(nat \<Rightarrow> time) \<Rightarrow> Invocation \<Rightarrow> Service \<Rightarrow> Service \<times> (rpc_error + string \<times> time)" where
  "Service_Refresh now msg s =
    (if length (inv_licenses msg) \<noteq> 1 then (s, Inl (InvalidArgument ''licenses must have exactly one license spec''))
     else let licenseType = formatLicenseType (hd (inv_licenses msg)); invID = inv_id msg in
       case map_of (licenses s) licenseType of
         None \<Rightarrow> (s, Inl (NotFound licenseType))
       | Some lic \<Rightarrow>
           if invID = [] then (s, Inl (InvalidArgument ''invocation_id must be set''))
           else case license_GetAllocated invID lic of
             None \<Rightarrow>
               if currentState s = stateRunning then (s, Inl (FailedPrecondition invID))
               else (case license_Allocate (new_invocation invID msg (now 0)) lic of
                  (lic', True) \<Rightarrow> (set_license licenseType lic' s, Inr (invID, now 1 + allocationRefreshDuration s))
                | (lic', False) \<Rightarrow> (set_license licenseType lic' s, Inl (ResourceExhausted licenseType)))
           | Some _ \<Rightarrow> (set_license licenseType (checkin_allocated invID (now 0) lic) s,
                         Inr (invID, now 1 + allocationRefreshDuration s)))"

definition Service_Release :: "string \<Rightarrow> Service \<Rightarrow> Service \<times> (rpc_error + unit)" where
  "Service_Release invID s =
    (if invID = [] then (s, Inl (InvalidArgument ''invocation_id must be set''))
     else let s' = s\<lparr>licenses := map (\<lambda>(n, lic). (n, fst (license_Forget invID lic))) (licenses s)\<rparr>;
              cnt = sum_list (map (\<lambda>(n, lic). snd (license_Forget invID lic)) (licenses s))
       in if cnt = 0 then (s', Inl (FailedPrecondition invID)) else (s', Inr ()))"

text \<open>The order of \<^verbatim>\<open>LicensesStatus\<close>: licenses with entries first, then by vendor, then by feature.\<close>

definition stats_less :: "LicenseStats \<Rightarrow> LicenseStats \<Rightarrow> bool" where
  "stats_less a b =
    (let aHasEntries = (0 < st_allocated_count a \<or> 0 < st_queued_count a);
         bHasEntries = (0 < st_allocated_count b \<or> 0 < st_queued_count b)
     in if aHasEntries \<noteq> bHasEntries then aHasEntries
        else if st_vendor a = st_vendor b then st_feature a < st_feature b
        else st_vendor a < st_vendor b)"

definition stats_key :: "LicenseStats \<Rightarrow> bool \<times> string \<times> string" where
  "stats_key a = (\<not> (0 < st_allocated_count a \<or> 0 < st_queued_count a), st_vendor a, st_feature a)"

lemma stats_less_key: "stats_less a b \<longleftrightarrow> stats_key a < stats_key b"
  by (auto simp: stats_less_def stats_key_def Let_def less_prod_def less_bool_def)

definition Service_LicensesStatus :: "time \<Rightarrow> Service \<Rightarrow> LicenseStats list" where
  "Service_LicensesStatus now s = sort_key stats_key (map (\<lambda>(n, lic). license_GetStats now lic) (licenses s))"

section \<open>Steps\<close>

datatype event =
    EvAllocate "nat \<Rightarrow> time" "string option" Invocation
  | EvRefresh "nat \<Rightarrow> time" Invocation
  | EvRelease string
  | EvJanitor "nat \<Rightarrow> time"
  | EvAdopted

fun service_step :: "event \<Rightarrow> Service \<Rightarrow> Service" where
  "service_step (EvAllocate now gen msg) s = fst (Service_Allocate now gen msg s)"
| "service_step (EvRefresh now msg) s = fst (Service_Refresh now msg s)"
| "service_step (EvRelease i) s = fst (Service_Release i s)"
| "service_step (EvJanitor now) s = Service_janitor now s"
| "service_step EvAdopted s = Service_adopted s"

end
