(* ===== verification/Flex_Service_Props.thy ===== *)
theory Flex_Service_Props imports Flex_Service begin

text \<open>
  The license server over all histories: licenses are never over-allocated, the answers of the RPCs
  describe the state they leave, and, as long as no queued invocation is adopted as allocated, no
  invocation is in two places and the policies' books are right.
\<close>

section \<open>Safety of every step\<close>

lemma queue_ids_strip: "ID ` set q' = ID ` set q \<Longrightarrow> length q' = length q \<Longrightarrow> distinct (map ID q) \<Longrightarrow> distinct (map ID q')"
  by (metis card_distinct distinct_card length_map list.set_map)

lemma update_mem: "(a, b) \<in> set (AList.update k v al) \<Longrightarrow> (a, b) \<in> set al \<or> a = k \<and> b = v"
  by (induction al) (auto split: if_splits)

lemma license_Enqueue_safe:
  assumes "lic_safe l" "ID x \<notin> ID ` set (lic_queue l)" "length (lic_queue l) < 2 ^ 32"
  shows "lic_safe (fst (license_Enqueue x l))"
proof -
  define q where "q = fst (queue_Enqueue x (lic_queue l))"
  define q' where "q' = queue_Sort (prioritizer_Sorter (OnEnqueue (last q) (lic_prioritizer l))) q"
  have l': "lic_queue (fst (license_Enqueue x l)) = q'" "allocations (fst (license_Enqueue x l)) = allocations l"
    "totalAvailable (fst (license_Enqueue x l)) = totalAvailable l"
    by (simp_all add: license_Enqueue_def q_def q'_def Let_def split: prod.split)
  have "queue_ok q" unfolding q_def using assms by (intro queue_Enqueue_ok) (simp_all add: lic_safe_def)
  then have "queue_ok q'" using queue_ok_cong [OF prio.sort_ok(2)] by (simp add: q'_def)
  moreover have "map ID q = map ID (lic_queue l @ [x])" by (simp add: q_def queue_Enqueue_def Let_def)
  then have "distinct (map ID q)" using assms by (simp add: lic_safe_def)
  then have "distinct (map ID q')" unfolding q'_def strip_mset(4) [OF prio.sort_ok(1)] .
  ultimately show ?thesis using assms(1) by (simp add: lic_safe_def l')
qed

lemma promote_one_safe:
  assumes safe: "lic_safe l" and q: "queue_Sort (prioritizer_Sorter (lic_prioritizer l)) (lic_queue l) = x # q'"
    and free: "int (length (allocations l)) < totalAvailable l"
  shows "lic_safe (promote_one l (strip x) q')" "length (allocations (promote_one l (strip x) q')) \<le> Suc (length (allocations l))"
proof -
  show len: "length (allocations (promote_one l (strip x) q')) \<le> Suc (length (allocations l))"
    by (simp add: promote_one_def length_update)
  have "map QueueID (x # q') = map QueueID (lic_queue l)" using prio.sort_ok(2) q by metis
  from queue_ok_cong [OF this] have "queue_ok q'" using safe queue_ok_Cons by (auto simp: lic_safe_def)
  moreover have "distinct (map ID (x # q'))" using strip_mset(4) [OF prio.sort_ok(1)] q safe by (metis lic_safe_def)
  moreover have "\<forall>(k, v) \<in> set (AList.update (ID x) (strip x) (allocations l)). ID v = k"
    using safe by (auto simp: lic_safe_def dest!: update_mem)
  ultimately show "lic_safe (promote_one l (strip x) q')"
    using safe len free by (auto simp: lic_safe_def promote_one_def distinct_update)
qed

lemma Promote_loop_safe:
  assumes "lic_safe l" "int (length (allocations l)) + int n \<le> totalAvailable l"
  shows "lic_safe (Promote_loop n l)"
  using assms
proof (induction n arbitrary: l)
  case (Suc n)
  show ?case
  proof (cases "lic_queue l = []")
    case True
    then show ?thesis using Suc.prems by (simp add: queue_Len_def)
  next
    case False
    obtain x q' where x: "queue_Sort (prioritizer_Sorter (lic_prioritizer l)) (lic_queue l) = x # q'"
      "Promote_loop (Suc n) l = Promote_loop n (promote_one l (strip x) q')"
      using Promote_loop_Suc [OF False] by blast
    have free: "int (length (allocations l)) < totalAvailable l" using Suc.prems(2) by simp
    note one = promote_one_safe [OF Suc.prems(1) x(1) free]
    have "totalAvailable (promote_one l (strip x) q') = totalAvailable l" by (simp add: promote_one_def)
    then have "int (length (allocations (promote_one l (strip x) q'))) + int n \<le> totalAvailable (promote_one l (strip x) q')"
      using one(2) Suc.prems(2) by simp
    from Suc.IH [OF one(1) this] show ?thesis unfolding x(2) .
  qed
qed simp

lemma license_Promote_safe: "lic_safe l \<Longrightarrow> lic_safe (license_Promote l)"
  unfolding license_Promote_def by (rule Promote_loop_safe) (auto simp: lic_safe_def)

lemma license_Allocate_safe: "lic_safe l \<Longrightarrow> lic_safe (fst (license_Allocate x l))"
proof -
  assume safe: "lic_safe l"
  have "\<forall>(k, v) \<in> set (AList.update (ID x) x (allocations l)). ID v = k"
    using safe by (auto simp: lic_safe_def dest!: update_mem)
  moreover have "length (AList.update (ID x) x (allocations l)) \<le> Suc (length (allocations l))" by (rule length_update)
  ultimately show ?thesis using safe
    by (auto simp: license_Allocate_def lic_safe_def distinct_update)
qed

lemma lic_safe_filter:
  assumes "lic_safe l"
  shows "lic_safe (l\<lparr>lic_queue := keep_ids P 0 (lic_queue l), lic_prioritizer := p, allocations := filter R (allocations l)\<rparr>)"
proof -
  have i: "map ID (keep_ids P 0 (lic_queue l)) = map ID (filter (\<lambda>x. \<not> P x) (lic_queue l))"
    by (rule map_ID_strip) (rule keep_ids_strip)
  have "length (filter R (allocations l)) \<le> length (allocations l)" by simp
  moreover have "int (length (allocations l)) \<le> totalAvailable l" using assms by (simp add: lic_safe_def)
  ultimately have "int (length (filter R (allocations l))) \<le> totalAvailable l" by linarith
  moreover have "queue_ok (keep_ids P 0 (lic_queue l))" using assms queue_Filter_ok(3) by (simp add: lic_safe_def)
  ultimately show ?thesis using assms by (auto simp: lic_safe_def i distinct_map_filter)
qed

lemma license_Expire_shape:
  "\<exists>P p R. license_ExpireQueued qe (license_ExpireAllocations ae l)
    = l\<lparr>lic_queue := keep_ids P 0 (lic_queue l), lic_prioritizer := p, allocations := filter R (allocations l)\<rparr>"
proof -
  have cb: "(\<lambda>pos x p. if qe < LastCheckin x then (False, p) else (True, OnDequeue x p))
    = pure_filter (\<lambda>x. \<not> qe < LastCheckin x) OnDequeue"
    by (auto simp: pure_filter_def fun_eq_iff)
  have "license_ExpireQueued qe (license_ExpireAllocations ae l)
    = l\<lparr>lic_queue := keep_ids (\<lambda>x. \<not> qe < LastCheckin x) 0 (lic_queue l),
        lic_prioritizer := lic_prioritizer (license_ExpireQueued qe (license_ExpireAllocations ae l)),
        allocations := filter (\<lambda>(k, v). ae < LastCheckin v) (allocations l)\<rparr>"
    unfolding license_ExpireAllocations_def ExpireAllocations_loop_eq license_ExpireQueued_def cb queue_Filter_ok(1)
    by simp
  then show ?thesis by blast
qed

lemma license_Forget_shape:
  "\<exists>P p R. fst (license_Forget i l)
    = l\<lparr>lic_queue := keep_ids P 0 (lic_queue l), lic_prioritizer := p, allocations := filter R (allocations l)\<rparr>"
  by (rule exI [of _ "\<lambda>x. ID x = i"], rule exI [of _ "lic_prioritizer (fst (license_Forget i l))"],
      rule exI [of _ "\<lambda>(k, v). k \<noteq> i"])
    (simp add: license_Forget_def Forget_loop_eq queue_Forget_eq split: prod.split)

lemma lic_safe_checkin: "lic_safe l \<Longrightarrow> lic_safe (checkin_allocated i t l)" "lic_safe l \<Longrightarrow> lic_safe (checkin_queued i t l)"
proof -
  have a: "map fst (map (\<lambda>(k, v). (k, if k = i then v\<lparr>LastCheckin := t\<rparr> else v)) al) = map fst al" for al :: "(string \<times> invocation) list"
    by (induction al) auto
  show "lic_safe l \<Longrightarrow> lic_safe (checkin_allocated i t l)"
    by (auto simp: lic_safe_def checkin_allocated_def a simp del: map_map)
  have "map QueueID (checkin_first i t q) = map QueueID q" "map ID (checkin_first i t q) = map ID q" for q
    by (induction q) auto
  then show "lic_safe l \<Longrightarrow> lic_safe (checkin_queued i t l)"
    using queue_ok_cong [of "checkin_first i t (lic_queue l)" "lic_queue l"]
    by (simp add: lic_safe_def checkin_queued_def)
qed

text \<open>
  What is assumed of the environment of a step: a generated identifier is new, and a queue has less
  than \<open>2 ^ 32\<close> entries.
\<close>

fun event_ok :: "event \<Rightarrow> Service \<Rightarrow> bool" where
  "event_ok (EvAllocate now gen msg) s = (\<forall>(n, l) \<in> set (licenses s). length (lic_queue l) < 2 ^ 32
     \<and> (case gen of None \<Rightarrow> True | Some i \<Rightarrow> i \<notin> ID ` set (lic_queue l) \<union> fst ` set (allocations l)))"
| "event_ok _ s = True"

definition service_safe :: "Service \<Rightarrow> bool" where
  "service_safe s \<longleftrightarrow> (\<forall>(n, l) \<in> set (licenses s). lic_safe l)"

lemma set_license_safe: "service_safe s \<Longrightarrow> lic_safe l \<Longrightarrow> service_safe (set_license n l s)"
  by (auto simp: service_safe_def set_license_def dest!: update_mem)

lemma license_lookup: "service_safe s \<Longrightarrow> map_of (licenses s) n = Some l \<Longrightarrow> lic_safe l"
  by (auto simp: service_safe_def dest!: map_of_SomeD)

lemma Allocate_known_safe:
  assumes "service_safe s" "lic_safe l" "length (lic_queue l) < 2 ^ 32"
  shows "service_safe (fst (Allocate_known now msg n l i s))"
proof -
  have "license_GetQueued i l = None \<Longrightarrow> lic_safe (fst (license_Enqueue (new_invocation i msg t) l))" for t
    using assms by (intro license_Enqueue_safe) (simp_all add: license_GetQueued_def queue_Get_None new_invocation_def)
  then show ?thesis using assms
    by (auto simp: Allocate_known_def set_license_safe lic_safe_checkin split: option.splits prod.splits)
      (metis fst_conv set_license_safe)
qed


lemma license_Enqueue_queue_length: "length (lic_queue (fst (license_Enqueue x l))) = Suc (length (lic_queue l))"
proof -
  have "length (lic_queue (fst (license_Enqueue x l))) = length (fst (queue_Enqueue x (lic_queue l)))"
    using strip_mset(5) [OF prio.sort_ok(1)] by (simp add: license_Enqueue_def Let_def split: prod.split)
  then show ?thesis by (simp add: queue_Enqueue_def Let_def)
qed

lemma Promote_loop_queue_length: "length (lic_queue (Promote_loop n l)) \<le> length (lic_queue l)"
proof (induction n arbitrary: l)
  case (Suc n)
  show ?case
  proof (cases "lic_queue l = []")
    case False
    obtain x q' where x: "queue_Sort (prioritizer_Sorter (lic_prioritizer l)) (lic_queue l) = x # q'"
      "Promote_loop (Suc n) l = Promote_loop n (promote_one l (strip x) q')"
      using Promote_loop_Suc [OF False] by blast
    have "length (x # q') = length (lic_queue l)" using strip_mset(5) [OF prio.sort_ok(1)] x(1) by metis
    then show ?thesis using Suc [of "promote_one l (strip x) q'"] unfolding x(2) by (simp add: promote_one_def)
  qed (simp add: queue_Len_def)
qed simp

text \<open>After a new invocation was queued and promoted, it is queued or allocated: the last branch of
  \<^verbatim>\<open>Allocate\<close>, which would queue it again, is not reached.\<close>

lemma license_Enqueue_ids: "ID ` set (lic_queue (fst (license_Enqueue x l))) = insert (ID x) (ID ` set (lic_queue l))"
    "allocations (fst (license_Enqueue x l)) = allocations l"
proof -
  have "ID ` set (lic_queue (fst (license_Enqueue x l))) = ID ` set (fst (queue_Enqueue x (lic_queue l)))"
    using strip_mset(3) [OF prio.sort_ok(1)] by (simp add: license_Enqueue_def Let_def split: prod.split)
  then show "ID ` set (lic_queue (fst (license_Enqueue x l))) = insert (ID x) (ID ` set (lic_queue l))"
    by (simp add: queue_Enqueue_def Let_def)
  show "allocations (fst (license_Enqueue x l)) = allocations l"
    by (simp add: license_Enqueue_def Let_def split: prod.split)
qed

lemma Promote_loop_ids:
  "ID ` set (lic_queue (Promote_loop n l)) \<union> fst ` set (allocations (Promote_loop n l)) = ID ` set (lic_queue l) \<union> fst ` set (allocations l)"
proof (induction n arbitrary: l)
  case (Suc n)
  show ?case
  proof (cases "lic_queue l = []")
    case False
    obtain x q' where x: "queue_Sort (prioritizer_Sorter (lic_prioritizer l)) (lic_queue l) = x # q'"
      "Promote_loop (Suc n) l = Promote_loop n (promote_one l (strip x) q')"
      using Promote_loop_Suc [OF False] by blast
    have "ID ` set (x # q') = ID ` set (lic_queue l)" using strip_mset(3) [OF prio.sort_ok(1)] x(1) by metis
    moreover have "fst ` set (AList.update k v al) = insert k (fst ` set al)" for k :: string and v :: invocation and al
      by (induction al) auto
    ultimately show ?thesis using Suc [of "promote_one l (strip x) q'"] unfolding x(2)
      by (simp add: promote_one_def) (metis Un_insert_left)
  qed (simp add: queue_Len_def)
qed simp

lemma Allocate_safe:
  assumes "service_safe s" "event_ok (EvAllocate now gen msg) s"
  shows "service_safe (fst (Service_Allocate now gen msg s))"
proof (cases "map_of (licenses s) (formatLicenseType (hd (inv_licenses msg)))")
  case None
  then show ?thesis using assms by (simp add: Service_Allocate_def)
next
  case (Some l)
  then have l: "lic_safe l" "length (lic_queue l) < 2 ^ 32"
    and g: "\<And>i. gen = Some i \<Longrightarrow> i \<notin> ID ` set (lic_queue l) \<union> fst ` set (allocations l)"
    using assms by (auto simp: license_lookup dest!: map_of_SomeD)
  show ?thesis
  proof (cases "inv_id msg = [] \<and> length (inv_licenses msg) = 1 \<and> gen \<noteq> None")
    case False
    then show ?thesis using Some assms(1) Allocate_known_safe [OF assms(1) l]
      by (auto simp: Service_Allocate_def Let_def split: option.splits)
  next
    case True
    then obtain i where i: "gen = Some i" by auto
    let ?l1 = "fst (license_Enqueue (new_invocation i msg (now 0)) l)"
    let ?l2 = "if currentState s = stateRunning then license_Promote ?l1 else ?l1"
    have "lic_safe ?l1" using l g [OF i] by (intro license_Enqueue_safe) (simp_all add: new_invocation_def)
    then have s2: "lic_safe ?l2" by (simp add: license_Promote_safe)
    have "ID ` set (lic_queue ?l2) \<union> fst ` set (allocations ?l2) = ID ` set (lic_queue ?l1) \<union> fst ` set (allocations ?l1)"
      by (simp add: license_Promote_def Promote_loop_ids)
    then have known: "i \<in> ID ` set (lic_queue ?l2) \<union> fst ` set (allocations ?l2)"
      unfolding license_Enqueue_ids by (simp add: new_invocation_def)
    have "service_safe (fst (Allocate_known now msg n ?l2 i s))" for n
      using known assms(1) s2 lic_safe_checkin [OF s2] queue_Get_None [of i "lic_queue ?l2"]
      by (auto simp: Allocate_known_def license_GetAllocated_def license_GetQueued_def set_license_safe
          map_of_eq_None_iff split: option.splits)
    then show ?thesis using Some True i by (simp add: Service_Allocate_def Let_def)
  qed
qed

lemma Refresh_safe:
  assumes "service_safe s"
  shows "service_safe (fst (Service_Refresh now msg s))"
proof (cases "map_of (licenses s) (formatLicenseType (hd (inv_licenses msg)))")
  case None
  then show ?thesis using assms by (simp add: Service_Refresh_def)
next
  case (Some l)
  have l: "lic_safe l" using license_lookup [OF assms Some] .
  have "lic_safe l'" if "license_Allocate x l = (l', b)" for x l' b
    using license_Allocate_safe [OF l, of x] that by simp
  then show ?thesis using Some assms l
    by (auto simp: Service_Refresh_def Let_def set_license_safe lic_safe_checkin split: option.splits prod.splits bool.splits)
qed

lemma service_step_safe:
  assumes "service_safe s" "event_ok e s"
  shows "service_safe (service_step e s)"
proof (cases e)
  case (EvAllocate now gen msg)
  then show ?thesis using assms Allocate_safe by simp
next
  case (EvRefresh now msg)
  then show ?thesis using assms Refresh_safe by simp
next
  case (EvRelease i)
  have "lic_safe (fst (license_Forget i l))" if "lic_safe l" for l
    using license_Forget_shape [of i l] lic_safe_filter [OF that] by metis
  then show ?thesis using assms EvRelease
    by (auto simp: Service_Release_def Let_def service_safe_def)
next
  case (EvJanitor now)
  have "lic_safe (license_ExpireQueued qe (license_ExpireAllocations ae l))" if "lic_safe l" for qe ae l
    using license_Expire_shape [of qe ae l] lic_safe_filter [OF that] by metis
  then show ?thesis using assms EvJanitor license_Promote_safe
    by (auto simp: Service_janitor_def Let_def service_safe_def)
next
  case EvAdopted
  then show ?thesis using assms by (simp add: Service_adopted_def service_safe_def)
qed

section \<open>All histories\<close>

inductive service_reach :: "Service \<Rightarrow> Service \<Rightarrow> bool" for s0 where
  start: "service_reach s0 s0"
| step: "service_reach s0 s \<Longrightarrow> event_ok e s \<Longrightarrow> service_reach s0 (service_step e s)"

inductive_cases service_reach_stepE: "service_reach s0 s"

lemma licensesFromConfig_safe: "(n, l) \<in> set (licensesFromConfig config) \<Longrightarrow> lic_safe l \<and> lic_inv l \<and> lic_name l = n"
proof -
  let ?f = "\<lambda>l licenses. let name = lc_vendor l @ ''::'' @ lc_feature l in
     AList.update name \<lparr>lic_name = name, totalAvailable = uint (lc_quantity l), allocations = [],
       lic_queue = [], lic_prioritizer = prioritizer_of (lc_prioritizer l)\<rparr> licenses"
  have new: "lic_safe \<lparr>lic_name = nm, totalAvailable = uint (q :: u32), allocations = [], lic_queue = [], lic_prioritizer = prioritizer_of c\<rparr>
    \<and> lic_inv \<lparr>lic_name = nm, totalAvailable = uint q, allocations = [], lic_queue = [], lic_prioritizer = prioritizer_of c\<rparr>" for nm q c
  proof -
    have "uint q < 2 ^ 32" using uint_lt2p [of q] by simp
    then show ?thesis
      by (cases c) (simp_all add: lic_safe_def lic_inv_def queued_def holders_def EvenOwners_accounts_def NewEvenOwnersPrioritizer_def mget_def)
  qed
  have "\<forall>(n, l) \<in> set (fold ?f cs al). lic_safe l \<and> lic_inv l \<and> lic_name l = n"
    if "\<forall>(n, l) \<in> set al. lic_safe l \<and> lic_inv l \<and> lic_name l = n" for cs al
    using that
  proof (induction cs arbitrary: al)
    case (Cons c cs)
    have "\<forall>(n, l) \<in> set (?f c al). lic_safe l \<and> lic_inv l \<and> lic_name l = n"
      using Cons.prems new by (auto simp: Let_def dest!: update_mem)
    from Cons.IH [OF this] show ?case by simp
  qed simp
  from this [of "[]" "license_configs config"] show "(n, l) \<in> set (licensesFromConfig config) \<Longrightarrow> lic_safe l \<and> lic_inv l \<and> lic_name l = n"
    by (auto simp: licensesFromConfig_def)
qed

text \<open>C2: In every state the license server can reach from its configuration, by any interleaving of
  RPCs, janitor runs and the end of the adoption period, no license is allocated more often than it
  was bought, every allocation is filed under its own identifier, no identifier is queued twice, and
  the queue identifiers count the positions.\<close>

theorem flextape_never_overallocates:
  assumes "Service_New config = Inr (s0, ji, ad)" "service_reach s0 s" "(n, l) \<in> set (licenses s)"
  shows "int (length (allocations l)) \<le> totalAvailable l \<and> distinct (map fst (allocations l))
    \<and> (\<forall>(k, v) \<in> set (allocations l). ID v = k) \<and> distinct (map ID (lic_queue l)) \<and> queue_ok (lic_queue l)"
proof -
  have "licenses s0 = licensesFromConfig config" using assms(1) by (auto simp: Service_New_def split: option.splits)
  then have "service_safe s0" using licensesFromConfig_safe by (auto simp: service_safe_def)
  with assms(2) have "service_safe s" by (induction rule: service_reach.induct) (auto intro: service_step_safe)
  then show ?thesis using assms(3) by (auto simp: service_safe_def lic_safe_def)
qed

definition demo_config :: Config where
  "demo_config = \<lparr>cfg_server = Some \<lparr>queue_refresh_duration_seconds = 0, allocation_refresh_duration_seconds = 0,
     janitor_interval_seconds = 0, adoption_duration_seconds = 0\<rparr>,
     license_configs = [\<lparr>lc_vendor = ''v'', lc_feature = ''f'', lc_quantity = 1, lc_prioritizer = Choice_Fifo\<rparr>]\<rparr>"

definition demo_msg :: Invocation where
  "demo_msg = \<lparr>inv_licenses = [(''v'', ''f'')], inv_id = [], inv_owner = ''u'', inv_build_tag = []\<rparr>"

definition demo_service :: Service where
  "demo_service = \<lparr>currentState = stateStarting, licenses = licensesFromConfig demo_config,
     queueRefreshDuration = 15000000000, allocationRefreshDuration = 30000000000\<rparr>"

lemma demo_service_new: "Service_New demo_config = Inr (demo_service, 1000000000, 45000000000)"
  by (simp add: Service_New_def demo_config_def demo_service_def defaultUint32_def seconds_def)

definition demo_service2 :: Service where
  "demo_service2 = service_step (EvAllocate (\<lambda>_. 7) (Some ''a'') demo_msg) (service_step EvAdopted demo_service)"

lemma demo_service2_licenses: "map (\<lambda>(n, l). (n, map fst (allocations l))) (licenses demo_service2) = [(''v::f'', [''a''])]"
  by code_simp

theorem flextape_never_overallocates_witness:
  "list_all (\<lambda>(n, l). int (length (allocations l)) \<le> totalAvailable l) (licenses demo_service2)"
proof -
  have "service_reach demo_service (service_step EvAdopted demo_service)"
    by (rule service_reach.step [OF service_reach.start]) simp
  then have "service_reach demo_service demo_service2"
    unfolding demo_service2_def
    by (rule service_reach.step) (simp add: Service_adopted_def demo_service_def licensesFromConfig_def demo_config_def Let_def)
  from flextape_never_overallocates [OF demo_service_new this] show ?thesis by (auto simp: list_all_iff)
qed

section \<open>One place per invocation\<close>

definition service_inv :: "Service \<Rightarrow> bool" where
  "service_inv s \<longleftrightarrow> (\<forall>(n, l) \<in> set (licenses s). lic_inv l)"

text \<open>A refresh during the adoption period must not name an invocation that is in the queue.\<close>

fun adopts_unqueued :: "event \<Rightarrow> Service \<Rightarrow> bool" where
  "adopts_unqueued (EvRefresh now msg) s = (\<forall>(n, l) \<in> set (licenses s). inv_id msg \<notin> ID ` set (lic_queue l))"
| "adopts_unqueued _ s = True"

lemma set_license_inv: "service_inv s \<Longrightarrow> lic_inv l \<Longrightarrow> service_inv (set_license n l s)"
  by (auto simp: service_inv_def set_license_def dest!: update_mem)

lemma lic_inv_checkin_allocated:
  assumes "lic_inv l"
  shows "lic_inv (checkin_allocated i t l)"
proof -
  have "map (\<lambda>(k, v). Owner v) (map (\<lambda>(k, v). (k, if k = i then v\<lparr>LastCheckin := t\<rparr> else v)) al) = map (\<lambda>(k, v). Owner v) al"
    "fst ` set (map (\<lambda>(k, v). (k, if k = i then v\<lparr>LastCheckin := t\<rparr> else v)) al) = fst ` set al" for al :: "(string \<times> invocation) list"
    by (induction al) auto
  moreover have "lic_safe (checkin_allocated i t l)" using assms lic_safe_checkin by (simp add: lic_inv_def)
  ultimately show ?thesis using assms
    by (simp add: lic_inv_def checkin_allocated_def queued_def holders_def del: map_map)
qed

lemma lic_inv_checkin_queued:
  assumes "lic_inv l"
  shows "lic_inv (checkin_queued i t l)"
proof -
  have "map id_owner (checkin_first i t q) = map id_owner q" "ID ` set (checkin_first i t q) = ID ` set q" for q
    by (induction q) (auto simp: id_owner_def)
  moreover have "lic_safe (checkin_queued i t l)" using assms lic_safe_checkin by (simp add: lic_inv_def)
  ultimately show ?thesis using assms
    by (simp add: lic_inv_def checkin_queued_def queued_def holders_def)
qed

lemma Allocate_known_inv:
  assumes "service_inv s" "lic_inv l" "length (lic_queue l) < 2 ^ 32 \<or> i \<in> ID ` set (lic_queue l) \<union> fst ` set (allocations l)"
  shows "service_inv (fst (Allocate_known now msg n l i s))"
proof (cases "i \<in> ID ` set (lic_queue l) \<union> fst ` set (allocations l)")
  case True
  then show ?thesis using assms lic_inv_checkin_allocated [OF assms(2)] lic_inv_checkin_queued [OF assms(2)] queue_Get_None [of i "lic_queue l"]
    by (auto simp: Allocate_known_def license_GetAllocated_def license_GetQueued_def set_license_inv
        map_of_eq_None_iff split: option.splits)
next
  case False
  then have "lic_inv (fst (license_Enqueue (new_invocation i msg t) l))" for t
    using assms by (intro license_Enqueue_inv) (auto simp: new_invocation_def)
  moreover have "license_GetAllocated i l = None" "license_GetQueued i l = None"
    using False by (auto simp: license_GetAllocated_def license_GetQueued_def map_of_eq_None_iff queue_Get_None)
  ultimately show ?thesis using assms
    by (simp add: Allocate_known_def set_license_inv split: prod.split) (metis fst_conv set_license_inv)
qed

lemma Allocate_one_place:
  assumes "service_inv s" "event_ok (EvAllocate now gen msg) s"
  shows "service_inv (fst (Service_Allocate now gen msg s))"
proof (cases "map_of (licenses s) (formatLicenseType (hd (inv_licenses msg)))")
  case None
  then show ?thesis using assms by (simp add: Service_Allocate_def)
next
  case (Some l)
  then have l: "lic_inv l" "length (lic_queue l) < 2 ^ 32"
    and g: "\<And>i. gen = Some i \<Longrightarrow> i \<notin> ID ` set (lic_queue l) \<union> fst ` set (allocations l)"
    using assms by (auto simp: service_inv_def dest!: map_of_SomeD)
  show ?thesis
  proof (cases "inv_id msg = [] \<and> length (inv_licenses msg) = 1 \<and> gen \<noteq> None")
    case False
    then show ?thesis using Some assms(1) Allocate_known_inv [OF assms(1) l(1)] l(2)
      by (auto simp: Service_Allocate_def Let_def split: option.splits)
  next
    case True
    then obtain i where i: "gen = Some i" by auto
    let ?l1 = "fst (license_Enqueue (new_invocation i msg (now 0)) l)"
    let ?l2 = "if currentState s = stateRunning then license_Promote ?l1 else ?l1"
    have "lic_inv ?l1" using l g [OF i] by (intro license_Enqueue_inv) (simp_all add: new_invocation_def)
    then have s2: "lic_inv ?l2" using license_Promote_inv by simp
    have "ID ` set (lic_queue ?l2) \<union> fst ` set (allocations ?l2) = ID ` set (lic_queue ?l1) \<union> fst ` set (allocations ?l1)"
      by (simp add: license_Promote_def Promote_loop_ids)
    then have known: "i \<in> ID ` set (lic_queue ?l2) \<union> fst ` set (allocations ?l2)"
      unfolding license_Enqueue_ids by (simp add: new_invocation_def)
    have "service_inv (fst (Allocate_known now msg n ?l2 i s))" for n
      by (rule Allocate_known_inv [OF assms(1) s2]) (use known in blast)
    then show ?thesis using Some True i by (simp add: Service_Allocate_def Let_def)
  qed
qed

lemma Refresh_one_place:
  assumes "service_inv s" "adopts_unqueued (EvRefresh now msg) s"
  shows "service_inv (fst (Service_Refresh now msg s))"
proof (cases "map_of (licenses s) (formatLicenseType (hd (inv_licenses msg)))")
  case None
  then show ?thesis using assms by (simp add: Service_Refresh_def)
next
  case (Some l)
  then have l: "lic_inv l" "inv_id msg \<notin> ID ` set (lic_queue l)"
    using assms by (auto simp: service_inv_def dest!: map_of_SomeD)
  have "lic_inv l'" if "license_Allocate (new_invocation (inv_id msg) msg t) l = (l', b)" "license_GetAllocated (inv_id msg) l = None" for t l' b
    using license_Allocate_inv [OF l(1), of "new_invocation (inv_id msg) msg t"] l(2) that
    by (auto simp: new_invocation_def license_GetAllocated_def map_of_eq_None_iff)
  then show ?thesis using Some assms(1) l
    by (auto simp: Service_Refresh_def Let_def set_license_inv lic_inv_checkin_allocated split: option.splits prod.splits bool.splits)
qed

text \<open>C17: As long as a refresh does not adopt an invocation that is queued (for any license type) and new
  identifiers are fresh, every step keeps, for each license type, the invariant that an invocation is queued or allocated but never both,
  none is in the queue twice, no more are allocated than there are licenses, and the policy's books agree with the
  queue and the allocations.\<close>

theorem service_step_one_place:
  assumes "service_inv s" "event_ok e s" "adopts_unqueued e s"
  shows "service_inv (service_step e s)"
proof (cases e)
  case (EvAllocate now gen msg)
  then show ?thesis using assms Allocate_one_place by simp
next
  case (EvRefresh now msg)
  then show ?thesis using assms Refresh_one_place by simp
next
  case (EvRelease i)
  have "lic_inv (fst (license_Forget i l))" if "lic_inv l" for l
    using license_Forget_inv [OF that] .
  then show ?thesis using assms EvRelease
    by (auto simp: Service_Release_def Let_def service_inv_def)
next
  case (EvJanitor now)
  then show ?thesis using assms license_Promote_inv license_Expire_inv
    by (auto simp: Service_janitor_def Let_def service_inv_def)
next
  case EvAdopted
  then show ?thesis using assms by (simp add: Service_adopted_def service_inv_def)
qed

text \<open>
  The license types of a service with who is queued and who holds a license. While the service is starting \<open>a\<close> is queued,
  a refresh adopts \<open>b\<close>, and \<open>c\<close> is queued behind \<open>a\<close>.
\<close>

definition places :: "Service \<Rightarrow> (string list \<times> string list) list" where
  "places s = map (\<lambda>(n, l). (map ID (lic_queue l), map fst (allocations l))) (licenses s)"

lemma places_event_ok:
  assumes "places s = ps"
  shows "event_ok (EvAllocate now (Some i) msg) s \<longleftrightarrow> (\<forall>(q, a) \<in> set ps. length q < 2 ^ 32 \<and> i \<notin> set q \<union> set a)"
    "adopts_unqueued (EvRefresh now m) s \<longleftrightarrow> (\<forall>(q, a) \<in> set ps. inv_id m \<notin> set q)"
  by (auto simp: places_def split_beta simp flip: assms)

definition demo_queued :: Service where
  "demo_queued = service_step (EvAllocate (\<lambda>_. 7) (Some ''a'') demo_msg) demo_service"

definition demo_adopted :: Service where
  "demo_adopted = service_step (EvRefresh (\<lambda>_. 8) (demo_msg\<lparr>inv_id := ''b''\<rparr>)) demo_queued"

definition demo_waiting :: Service where
  "demo_waiting = service_step (EvAllocate (\<lambda>_. 9) (Some ''c'') demo_msg) demo_adopted"

lemma demo_places: "places demo_service = [([], [])]" "places demo_queued = [([''a''], [])]"
  "places demo_adopted = [([''a''], [''b''])]" "places demo_waiting = [([''a'', ''c''], [''b''])]"
  by code_simp+

theorem service_step_one_place_witness: "service_inv demo_waiting \<and> places demo_waiting = [([''a'', ''c''], [''b''])]"
proof -
  note step = service_step_one_place
  have "service_inv demo_service" using licensesFromConfig_safe by (auto simp: service_inv_def demo_service_def)
  then have "service_inv demo_queued" unfolding demo_queued_def
    by (rule step) (simp_all add: places_event_ok [OF demo_places(1)] del: event_ok.simps(1))
  then have "service_inv demo_adopted" unfolding demo_adopted_def
    by (rule step) (simp_all add: places_event_ok(2) [OF demo_places(2)] del: adopts_unqueued.simps(1))
  then have "service_inv demo_waiting" unfolding demo_waiting_def
    by (rule step) (simp_all add: places_event_ok(1) [OF demo_places(3)] del: event_ok.simps(1))
  then show ?thesis using demo_places(4) by simp
qed

text \<open>
  Without that condition it fails: during the adoption period an invocation that has just been queued
  refreshes an allocation it does not have, is allocated a license, and stays in the queue.
\<close>

definition double_place :: Service where
  "double_place = service_step (EvRefresh (\<lambda>_. 8) (demo_msg\<lparr>inv_id := ''a''\<rparr>))
     (service_step (EvAllocate (\<lambda>_. 7) (Some ''a'') demo_msg) demo_service)"

lemma Refresh_adopts_queued:
  "map (\<lambda>(n, l). (map fst (allocations l), map ID (lic_queue l))) (licenses double_place) = [([''a''], [''a''])]"
  by code_simp

section \<open>Answers\<close>

lemma checkin_first_ids: "map ID (checkin_first i t q) = map ID q"
  by (induction q) auto

lemma map_of_update: "map_of (AList.update k v al) k = Some v"
  by (simp add: update_conv')

definition answer_true :: "string \<Rightarrow> Service \<Rightarrow> rpc_error + AllocateResponse \<Rightarrow> bool" where
  "answer_true n s r =
    (case r of
       Inr (LicenseAllocated i d) \<Rightarrow> (\<exists>l. map_of (licenses s) n = Some l \<and> i \<in> fst ` set (allocations l))
     | Inr (Queued i d pos) \<Rightarrow> (\<exists>l k. map_of (licenses s) n = Some l \<and> k < length (lic_queue l) \<and> ID (lic_queue l ! k) = i \<and> pos = of_nat (k + 1))
     | Inl (FailedPrecondition i) \<Rightarrow> (\<exists>l. map_of (licenses s) n = Some l \<and> i \<notin> fst ` set (allocations l) \<and> i \<notin> ID ` set (lic_queue l))
     | _ \<Rightarrow> False)"

lemma Allocate_known_answer:
  assumes "currentState s = stateRunning"
  shows "answer_true n (fst (Allocate_known now msg n l i s)) (snd (Allocate_known now msg n l i s))"
proof (cases "license_GetAllocated i l")
  case (Some v)
  then have "i \<in> fst ` set (allocations l)" by (auto simp: license_GetAllocated_def dest!: map_of_SomeD intro: rev_image_eqI)
  then have "i \<in> fst ` set (allocations (checkin_allocated i (now 1) l))"
    by (force simp: checkin_allocated_def)
  then show ?thesis using Some by (simp add: Allocate_known_def answer_true_def set_license_def map_of_update)
next
  case None
  then have na: "i \<notin> fst ` set (allocations l)" by (simp add: license_GetAllocated_def map_of_eq_None_iff)
  show ?thesis
  proof (cases "license_GetQueued i l")
    case None
    then have "i \<notin> ID ` set (lic_queue l)" by (simp add: license_GetQueued_def queue_Get_None)
    then show ?thesis using None \<open>license_GetAllocated i l = None\<close> na assms
      by (simp add: Allocate_known_def answer_true_def set_license_def map_of_update)
  next
    case (Some xp)
    then obtain x pos where xp: "xp = (x, pos)" "queue_Get i (lic_queue l) = Some (x, pos)"
      by (cases xp) (auto simp: license_GetQueued_def)
    then obtain k where k: "k < length (lic_queue l)" "ID (lic_queue l ! k) = i" "pos = of_nat (k + 1)"
      by (auto simp: queue_Get_Some)
    have m: "map ID (checkin_first i (now 1) (lic_queue l)) = map ID (lic_queue l)" by (rule checkin_first_ids)
    then have len: "length (checkin_first i (now 1) (lic_queue l)) = length (lic_queue l)" by (metis length_map)
    have "ID (checkin_first i (now 1) (lic_queue l) ! k) = i"
      using arg_cong [OF m, of "\<lambda>xs. xs ! k"] k len by simp
    then show ?thesis using Some xp k len \<open>license_GetAllocated i l = None\<close>
      by (auto simp: Allocate_known_def answer_true_def set_license_def map_of_update checkin_queued_def intro!: exI [of _ k])
  qed
qed

text \<open>C24: What a running server answers to \<^verbatim>\<open>Allocate\<close> is true in the state it leaves: an invocation
  reported as allocated holds a license, one reported as queued stands at the reported 1-based
  position, and one it refuses with \<^verbatim>\<open>FailedPrecondition\<close> is neither queued nor allocated.\<close>

theorem Service_Allocate_answer:
  assumes "currentState s = stateRunning" "Service_Allocate now gen msg s = (s', r)"
  shows "case r of
      Inr (LicenseAllocated i d) \<Rightarrow> (\<exists>l. map_of (licenses s') (formatLicenseType (hd (inv_licenses msg))) = Some l
        \<and> i \<in> fst ` set (allocations l))
    | Inr (Queued i d pos) \<Rightarrow> (\<exists>l k. map_of (licenses s') (formatLicenseType (hd (inv_licenses msg))) = Some l
        \<and> k < length (lic_queue l) \<and> ID (lic_queue l ! k) = i \<and> pos = of_nat (k + 1))
    | Inl (FailedPrecondition i) \<Rightarrow> (\<exists>l. map_of (licenses s') (formatLicenseType (hd (inv_licenses msg))) = Some l
        \<and> i \<notin> fst ` set (allocations l) \<and> i \<notin> ID ` set (lic_queue l))
    | _ \<Rightarrow> s' = s"
proof -
  let ?n = "formatLicenseType (hd (inv_licenses msg))"
  show ?thesis
  proof (cases "length (inv_licenses msg) = 1 \<and> map_of (licenses s) ?n \<noteq> None \<and> (inv_id msg = [] \<longrightarrow> gen \<noteq> None)")
    case False
    then show ?thesis using assms(2) by (auto simp: Service_Allocate_def Let_def split: option.splits if_splits)
  next
    case True
    then obtain l i where "Service_Allocate now gen msg s = Allocate_known now msg ?n l i s"
      by (cases "inv_id msg = []") (auto simp: Service_Allocate_def Let_def)
    then have "fst (Allocate_known now msg ?n l i s) = s'" "snd (Allocate_known now msg ?n l i s) = r"
      using assms(2) by (metis fst_conv, metis snd_conv)
    from Allocate_known_answer [OF assms(1), of ?n now msg l i, unfolded this] show ?thesis
      by (auto simp: answer_true_def split: sum.splits rpc_error.splits AllocateResponse.splits)
  qed
qed

theorem Service_Allocate_answer_witness:
  "\<exists>l. map_of (licenses demo_service2) ''v::f'' = Some l \<and> ''a'' \<in> fst ` set (allocations l)"
proof -
  have r: "snd (Service_Allocate (\<lambda>_. 7) (Some ''a'') demo_msg (service_step EvAdopted demo_service))
    = Inr (LicenseAllocated ''a'' (7 + 30000000000))" by code_simp
  have "currentState (service_step EvAdopted demo_service) = stateRunning" by (simp add: Service_adopted_def)
  from Service_Allocate_answer [OF this, of "\<lambda>_. 7" "Some ''a''" demo_msg demo_service2
      "Inr (LicenseAllocated ''a'' (7 + 30000000000))"] r
  show ?thesis by (simp add: demo_service2_def demo_msg_def formatLicenseType_def prod_eq_iff)
qed

end
