(* ===== verification/Alloc_Manager.thy ===== *)
theory Alloc_Manager imports Prelude "HOL-Library.AList" begin

text \<open>
  The allocation manager: \<^verbatim>\<open>allocation_manager/service/{queue,unit,service}.go\<close>.

  Invocations are shared: every unit of a topology points to the invocation it was given to, and a
  check-in through one unit is seen through the others. So they live in a heap (a list indexed by
  reference, to which new objects are appended), and queues and units hold references. A unit is shared
  by the topologies that name it; as there is one unit per host name, the host name stands for the
  pointer. A Go map is an association list with distinct keys, whose order is the iteration order.
\<close>

section \<open>Invocations and the queue\<close>

record TopologyRequest =
  tr_name :: string
  tr_hosts :: "string list"

record invocation =
  ID :: string
  Owner :: string
  Purpose :: string
  LastCheckin :: time
  QueueID :: u64
  Request :: TopologyRequest

type_synonym ref = nat
type_synonym heap = "invocation list"
type_synonym queue = "ref list"
type_synonym Position = u32

definition upd_inv :: "(invocation \<Rightarrow> invocation) \<Rightarrow> ref \<Rightarrow> heap \<Rightarrow> heap" where
  "upd_inv f r h = h[r := f (h ! r)]"

definition am_Enqueue :: "ref \<Rightarrow> heap \<Rightarrow> queue \<Rightarrow> heap \<times> queue \<times> Position" where
  "am_Enqueue x h iq =
    (let position = of_nat (length iq) :: Position;
         off = (if iq \<noteq> [] then QueueID (h ! hd iq) else 1)
     in (upd_inv (\<lambda>i. i\<lparr>QueueID := off + ucast position\<rparr>) x h, iq @ [x], position))"

definition am_Dequeue :: "heap \<Rightarrow> queue \<Rightarrow> heap \<times> queue \<times> ref option" where
  "am_Dequeue h iq = (case iq of [] \<Rightarrow> (h, [], None)
     | x # rest \<Rightarrow> (upd_inv (\<lambda>i. i\<lparr>QueueID := 0\<rparr>) x h, rest, Some x))"

definition am_Len :: "queue \<Rightarrow> nat" where
  "am_Len iq = length iq"

definition am_Swap :: "nat \<Rightarrow> nat \<Rightarrow> heap \<Rightarrow> queue \<Rightarrow> heap \<times> queue" where
  "am_Swap i j h iq =
    (let qi = QueueID (h ! (iq ! i)); qj = QueueID (h ! (iq ! j));
         h1 = upd_inv (\<lambda>x. x\<lparr>QueueID := qj\<rparr>) (iq ! i) h;
         h2 = upd_inv (\<lambda>x. x\<lparr>QueueID := qi\<rparr>) (iq ! j) h1
     in (h2, iq[i := iq ! j, j := iq ! i]))"

fun am_Walk_loop :: "(Position \<Rightarrow> invocation \<Rightarrow> bool) \<Rightarrow> heap \<Rightarrow> nat \<Rightarrow> queue \<Rightarrow> (ref \<times> Position) option" where
  "am_Walk_loop w h posx [] = None"
| "am_Walk_loop w h posx (x # rest) =
    (if \<not> w (of_nat (posx + 1)) (h ! x) then Some (x, of_nat (posx + 1)) else am_Walk_loop w h (posx + 1) rest)"

definition am_Walk :: "(Position \<Rightarrow> invocation \<Rightarrow> bool) \<Rightarrow> heap \<Rightarrow> queue \<Rightarrow> (ref \<times> Position) option" where
  "am_Walk w h iq = am_Walk_loop w h 0 iq"

definition am_Get :: "string \<Rightarrow> heap \<Rightarrow> queue \<Rightarrow> (ref \<times> Position) option" where
  "am_Get invID h iq = am_Walk (\<lambda>pos x. ID x \<noteq> invID) h iq"

definition am_Position :: "ref \<Rightarrow> heap \<Rightarrow> queue \<Rightarrow> Position" where
  "am_Position x h iq = (if iq = [] \<or> QueueID (h ! x) = 0 then 0
     else ucast (1 + QueueID (h ! x) - QueueID (h ! hd iq)))"

text \<open>The filter callback of \<^verbatim>\<open>Forget\<close> also writes to the object it removes: \<open>eff\<close>.\<close>

fun am_Filter_loop :: "(invocation \<Rightarrow> bool) \<Rightarrow> (invocation \<Rightarrow> invocation) \<Rightarrow> nat \<Rightarrow> heap \<Rightarrow> queue \<Rightarrow> queue \<Rightarrow> heap \<times> queue \<times> nat" where
  "am_Filter_loop f eff cnt h newQueue [] = (h, newQueue, cnt)"
| "am_Filter_loop f eff cnt h newQueue (x # rest) =
    (if f (h ! x) then am_Filter_loop f eff (cnt + 1) (upd_inv eff x h) newQueue rest
     else am_Filter_loop f eff cnt (upd_inv (\<lambda>i. i\<lparr>QueueID := QueueID i - of_nat cnt\<rparr>) x h) (newQueue @ [x]) rest)"

definition am_Filter :: "(invocation \<Rightarrow> bool) \<Rightarrow> (invocation \<Rightarrow> invocation) \<Rightarrow> heap \<Rightarrow> queue \<Rightarrow> heap \<times> queue \<times> nat" where
  "am_Filter f eff h iq = am_Filter_loop f eff 0 h [] iq"

definition am_Forget :: "string \<Rightarrow> heap \<Rightarrow> queue \<Rightarrow> heap \<times> queue" where
  "am_Forget invID h iq =
    (let (h', iq', _) = am_Filter (\<lambda>x. ID x = invID) (\<lambda>x. x\<lparr>QueueID := 0\<rparr>) h iq in (h', iq'))"

definition am_ExpireQueued :: "time \<Rightarrow> heap \<Rightarrow> queue \<Rightarrow> heap \<times> queue" where
  "am_ExpireQueued expiry h iq =
    (let (h', iq', _) = am_Filter (\<lambda>x. \<not> expiry < LastCheckin x) (\<lambda>x. x) h iq in (h', iq'))"

section \<open>Units and topologies\<close>

datatype Health = HEALTH_UNKNOWN | HEALTH_READY | HEALTH_BROKEN | HEALTH_OTHER

text \<open>\<^verbatim>\<open>apb.UnitInfo\<close>: the host's name, or no information.\<close>

datatype UnitInfo = HostInfo string | NoInfo

record Unit =
  u_Health :: Health
  u_Invocation :: "ref option"
  u_Info :: UnitInfo

definition Unit_GetName :: "Unit \<Rightarrow> string" where
  "Unit_GetName u = (case u_Info u of HostInfo n \<Rightarrow> n | NoInfo \<Rightarrow> ''N/A'')"

definition Unit_Allocate :: "heap \<Rightarrow> ref \<Rightarrow> Unit \<Rightarrow> Unit \<times> bool" where
  "Unit_Allocate h r u =
    (if (case u_Invocation u of Some x \<Rightarrow> ID (h ! x) = ID (h ! r) | None \<Rightarrow> False) then (u, False)
     else (u\<lparr>u_Invocation := Some r\<rparr>, True))"

definition Unit_IsAllocated :: "Unit \<Rightarrow> bool" where
  "Unit_IsAllocated u = (u_Invocation u \<noteq> None)"

fun Unit_IsHealthy :: "Unit \<Rightarrow> bool" where
  "Unit_IsHealthy u = (case u_Health u of
     HEALTH_BROKEN \<Rightarrow> True | HEALTH_UNKNOWN \<Rightarrow> True | HEALTH_READY \<Rightarrow> True | _ \<Rightarrow> False)"

definition Unit_GetInvocation :: "heap \<Rightarrow> string \<Rightarrow> Unit \<Rightarrow> ref option" where
  "Unit_GetInvocation h invID u = (case u_Invocation u of
     Some x \<Rightarrow> if ID (h ! x) = invID then Some x else None | None \<Rightarrow> None)"

definition Unit_ExpireAllocations :: "heap \<Rightarrow> time \<Rightarrow> Unit \<Rightarrow> Unit" where
  "Unit_ExpireAllocations h expiry u = (case u_Invocation u of
     Some x \<Rightarrow> if \<not> expiry < LastCheckin (h ! x) then u\<lparr>u_Invocation := None\<rparr> else u
   | None \<Rightarrow> u)"

definition Unit_Forget :: "heap \<Rightarrow> string \<Rightarrow> Unit \<Rightarrow> Unit \<times> nat" where
  "Unit_Forget h invID u = (case u_Invocation u of
     Some x \<Rightarrow> if invID = ID (h ! x) then (u\<lparr>u_Invocation := None\<rparr>, 1) else (u, 0)
   | None \<Rightarrow> (u, 0))"

datatype Allocation = ALLOCATION_ALLOCATED | ALLOCATION_AVAILABLE

definition Unit_GetStats :: "time \<Rightarrow> Unit \<Rightarrow> UnitInfo \<times> Health \<times> Allocation \<times> time" where
  "Unit_GetStats now u = (u_Info u, u_Health u,
     (if u_Invocation u \<noteq> None then ALLOCATION_ALLOCATED else ALLOCATION_AVAILABLE), now)"

text \<open>The units of a topology, by host name; every name is a key of the units (\<open>mgr_ok\<close>).\<close>

record Topology =
  t_Name :: string
  t_Units :: "string list"

type_synonym units = "(string \<times> Unit) list"

fun Topology_Allocate :: "heap \<Rightarrow> ref \<Rightarrow> string list \<Rightarrow> units \<Rightarrow> units \<times> bool" where
  "Topology_Allocate h r [] us = (us, True)"
| "Topology_Allocate h r (n # ns) us = (case map_of us n of
     None \<Rightarrow> Topology_Allocate h r ns us
   | Some u \<Rightarrow> (let (u', ok) = Unit_Allocate h r u in
       if \<not> ok then (us, False) else Topology_Allocate h r ns (AList.update n u' us)))"

fun Topology_CanBeAllocated :: "units \<Rightarrow> string list \<Rightarrow> bool" where
  "Topology_CanBeAllocated us [] = True"
| "Topology_CanBeAllocated us (n # ns) = (case map_of us n of
     None \<Rightarrow> Topology_CanBeAllocated us ns
   | Some u \<Rightarrow> if Unit_IsAllocated u then False else Topology_CanBeAllocated us ns)"

section \<open>The service\<close>

datatype state = stateStarting | stateRunning

record Manager =
  currentState :: state
  m_units :: units
  m_topologies :: "(string \<times> Topology) list"
  m_heap :: heap
  InvocationQueue :: queue
  queueRefreshDuration :: time
  allocationRefreshDuration :: time

text \<open>The keys of the inventory are host names, its values the \<^verbatim>\<open>HostInfo\<close>, of which the name is kept.\<close>

fun UnitsFromInventory_loop :: "(string \<times> string) list \<Rightarrow> string list \<Rightarrow> units \<Rightarrow> string + units" where
  "UnitsFromInventory_loop [] hostnames us = Inr us"
| "UnitsFromInventory_loop ((hostname, info) # rest) hostnames us =
    (if hostname \<in> set hostnames then Inl hostname
     else UnitsFromInventory_loop rest (hostname # hostnames)
       (AList.update hostname \<lparr>u_Health = HEALTH_UNKNOWN, u_Invocation = None, u_Info = HostInfo info\<rparr> us))"

definition UnitsFromInventory :: "(string \<times> string) list \<Rightarrow> string + units" where
  "UnitsFromInventory inventory = UnitsFromInventory_loop inventory [] []"

definition TopologiesFromConfigAndUnits :: "(string \<times> string list) list \<Rightarrow> units \<Rightarrow> Topology list" where
  "TopologiesFromConfigAndUnits config us =
    map (\<lambda>(name, hosts). \<lparr>t_Name = name, t_Units = filter (\<lambda>h. map_of us h \<noteq> None) hosts\<rparr>) config"

definition am_defaultUint32 :: "u32 \<Rightarrow> u32 \<Rightarrow> u32" where
  "am_defaultUint32 v d = (if v = 0 then d else v)"

record ServerConfig =
  queue_refresh_seconds :: u32
  allocation_refresh_seconds :: u32
  janitor_interval_seconds :: u32
  adoption_duration_seconds :: u32

definition am_New :: "ServerConfig option \<Rightarrow> (string \<times> string list) list \<Rightarrow> (string \<times> string) list
    \<Rightarrow> string + (Manager \<times> u32 \<times> u32)" where
  "am_New server topo_configs inventory = (case server of
     None \<Rightarrow> Inl ''missing `server` section in config''
   | Some sc \<Rightarrow> (case UnitsFromInventory inventory of
       Inl e \<Rightarrow> Inl e
     | Inr us \<Rightarrow>
         let topologies = fold (\<lambda>t m. AList.update (t_Name t) t m) (TopologiesFromConfigAndUnits topo_configs us) []
         in Inr (\<lparr>currentState = stateStarting, m_units = us, m_topologies = topologies, m_heap = [],
              InvocationQueue = [],
              queueRefreshDuration = uint (am_defaultUint32 (queue_refresh_seconds sc) 15) * 1000000000,
              allocationRefreshDuration = uint (am_defaultUint32 (allocation_refresh_seconds sc) 30) * 1000000000\<rparr>,
            am_defaultUint32 (janitor_interval_seconds sc) 1, am_defaultUint32 (adoption_duration_seconds sc) 45)))"

text \<open>\<^verbatim>\<open>Matchmaker\<close> returns the names of the matching topologies; it never fails.\<close>

definition Matchmaker :: "units \<Rightarrow> (string \<times> Topology) list \<Rightarrow> TopologyRequest \<Rightarrow> bool \<Rightarrow> Topology list" where
  "Matchmaker us topologies request all =
    (if tr_name request \<noteq> [] then
       map snd (filter (\<lambda>(name, topology). (all \<or> Topology_CanBeAllocated us (t_Units topology)) \<and> name = tr_name request) topologies)
     else [])"

fun allocate_matches :: "heap \<Rightarrow> ref \<Rightarrow> Topology list \<Rightarrow> units \<Rightarrow> units" where
  "allocate_matches h r [] us = us"
| "allocate_matches h r (t # ts) us = allocate_matches h r ts (fst (Topology_Allocate h r (t_Units t) us))"

text \<open>The loop of \<^verbatim>\<open>Promote\<close> ranges over the queue as it was when the loop started.\<close>

fun am_Promote_loop :: "(string \<times> Topology) list \<Rightarrow> queue \<Rightarrow> heap \<times> queue \<times> units \<Rightarrow> heap \<times> queue \<times> units" where
  "am_Promote_loop topologies [] st = st"
| "am_Promote_loop topologies (x # rest) (h, iq, us) =
    (let matches = Matchmaker us topologies (Request (h ! x)) False in
     if matches \<noteq> [] then
       let (h', iq') = am_Forget (ID (h ! x)) h iq
       in am_Promote_loop topologies rest (h', iq', allocate_matches h' x matches us)
     else am_Promote_loop topologies rest (h, iq, us))"

definition am_Promote :: "Manager \<Rightarrow> Manager" where
  "am_Promote s = (let (h, iq, us) = am_Promote_loop (m_topologies s) (InvocationQueue s) (m_heap s, InvocationQueue s, m_units s)
     in s\<lparr>m_heap := h, InvocationQueue := iq, m_units := us\<rparr>)"

definition am_janitor :: "time \<Rightarrow> Manager \<Rightarrow> Manager" where
  "am_janitor now s =
    (if currentState s = stateStarting then s
     else let allocationExpiry = now - allocationRefreshDuration s
       in am_Promote (s\<lparr>m_units := map (\<lambda>(n, u). (n, Unit_ExpireAllocations (m_heap s) allocationExpiry u)) (m_units s)\<rparr>))"

datatype am_error = InvalidArgument string | NotFound string | Internal string
  | FailedPrecondition string | ResourceExhausted string

datatype am_response = Allocated string string "string list" time | am_Queued string time u32

record Invocation =
  msg_id :: string
  msg_owner :: string
  msg_purpose :: string
  msg_request :: TopologyRequest

definition new_inv :: "string \<Rightarrow> Invocation \<Rightarrow> time \<Rightarrow> invocation" where
  "new_inv i msg t = \<lparr>ID = i, Owner = msg_owner msg, Purpose = msg_purpose msg, LastCheckin = t, QueueID = 0,
     Request = msg_request msg\<rparr>"

definition push_inv :: "invocation \<Rightarrow> Manager \<Rightarrow> Manager \<times> Position" where
  "push_inv i s = (let r = length (m_heap s); (h, iq, pos) = am_Enqueue r (m_heap s @ [i]) (InvocationQueue s)
     in (s\<lparr>m_heap := h, InvocationQueue := iq\<rparr>, pos))"

text \<open>
  The loop over the units: the first unit that holds the invocation ends it (\<^verbatim>\<open>break\<close>), after the
  check-in; only a unit with host information contributes a host.
\<close>

fun Allocate_scan :: "string \<Rightarrow> time \<Rightarrow> units \<Rightarrow> heap \<Rightarrow> heap \<times> string list" where
  "Allocate_scan invID t [] h = (h, [])"
| "Allocate_scan invID t ((n, u) # us) h = (case Unit_GetInvocation h invID u of
     None \<Rightarrow> Allocate_scan invID t us h
   | Some x \<Rightarrow> (upd_inv (\<lambda>i. i\<lparr>LastCheckin := t\<rparr>) x h, (case u_Info u of HostInfo i \<Rightarrow> [i] | NoInfo \<Rightarrow> [])))"

definition Allocate_answer :: "(nat \<Rightarrow> time) \<Rightarrow> Invocation \<Rightarrow> string \<Rightarrow> Manager \<Rightarrow> Manager \<times> (am_error + am_response)" where
  "Allocate_answer now msg invID s =
    (let (h, host_infos) = Allocate_scan invID (now 1) (m_units s) (m_heap s); s = s\<lparr>m_heap := h\<rparr> in
     if host_infos \<noteq> []
     then (s, Inr (Allocated invID (tr_name (msg_request msg)) host_infos (now 2 + allocationRefreshDuration s)))
     else (case am_Get invID h (InvocationQueue s) of
       Some (x, pos) \<Rightarrow> (s\<lparr>m_heap := upd_inv (\<lambda>i. i\<lparr>LastCheckin := now 1\<rparr>) x h\<rparr>,
                          Inr (am_Queued invID (now 2 + queueRefreshDuration s) pos))
     | None \<Rightarrow>
         if currentState s = stateRunning then (s, Inl (FailedPrecondition invID))
         else let (s', pos) = push_inv (new_inv invID msg (now 1)) s
           in (s', Inr (am_Queued invID (now 2 + queueRefreshDuration s) pos))))"

definition am_Allocate :: "(nat \<Rightarrow> time) \<Rightarrow> string option \<Rightarrow> Invocation \<Rightarrow> Manager \<Rightarrow> Manager \<times> (am_error + am_response)" where
  "am_Allocate now gen msg s =
    (if tr_name (msg_request msg) = [] \<and> tr_hosts (msg_request msg) = [] then
       (s, Inl (InvalidArgument ''requests must provide either a topology_name, or one or more hosts''))
     else if msg_id msg = [] then
       (if Matchmaker (m_units s) (m_topologies s) (msg_request msg) True = [] then
          (s, Inl (InvalidArgument ''no results''))
        else (case gen of
          None \<Rightarrow> (s, Inl (Internal ''failed to generate invocation_id''))
        | Some invID \<Rightarrow>
            let s1 = fst (push_inv (new_inv invID msg (now 0)) s);
                s2 = (if currentState s1 = stateRunning then am_Promote s1 else s1)
            in Allocate_answer now msg invID s2))
     else Allocate_answer now msg (msg_id msg) s)"

text \<open>
  The loop of \<^verbatim>\<open>Refresh\<close> over the units of the allocated topology. It stops at the first error, and
  what it changed before stays changed.
\<close>

fun Refresh_loop :: "(nat \<Rightarrow> time) \<Rightarrow> Invocation \<Rightarrow> string \<Rightarrow> string list \<Rightarrow> nat \<Rightarrow> Manager \<Rightarrow> Manager \<times> am_error option" where
  "Refresh_loop now msg topo [] k s = (s, None)"
| "Refresh_loop now msg topo (n # ns) k s = (case map_of (m_units s) n of
     None \<Rightarrow> Refresh_loop now msg topo ns k s
   | Some u \<Rightarrow> (case Unit_GetInvocation (m_heap s) (msg_id msg) u of
       Some x \<Rightarrow> Refresh_loop now msg topo ns (k + 1) (s\<lparr>m_heap := upd_inv (\<lambda>i. i\<lparr>LastCheckin := now k\<rparr>) x (m_heap s)\<rparr>)
     | None \<Rightarrow>
         if currentState s = stateRunning then (s, Some (FailedPrecondition (msg_id msg)))
         else let r = length (m_heap s); h = m_heap s @ [new_inv (msg_id msg) msg 0];
                  (u', ok) = Unit_Allocate h r u
           in if \<not> ok then (s\<lparr>m_heap := h\<rparr>, Some (ResourceExhausted topo))
              else Refresh_loop now msg topo ns (k + 1)
                (s\<lparr>m_units := AList.update n u' (m_units s),
                   m_heap := upd_inv (\<lambda>i. i\<lparr>LastCheckin := now k\<rparr>) r h\<rparr>)))"

text \<open>
  \<open>now 0\<close> is the reading for the deadline. \<open>allocated\<close> is the topology message of the request, or
  nothing when the request has none: then its name reads as the empty string, but the error path
  dereferences the missing message (\<open>allocated.Name\<close>), which is a panic (\<^const>\<open>None\<close>).
\<close>

definition am_Refresh :: "(nat \<Rightarrow> time) \<Rightarrow> Invocation \<Rightarrow> string option \<Rightarrow> Manager
    \<Rightarrow> (Manager \<times> (am_error + string \<times> time)) option" where
  "am_Refresh now msg allocated s =
    (case map_of (m_topologies s) (case allocated of None \<Rightarrow> [] | Some n \<Rightarrow> n) of
     None \<Rightarrow> (case allocated of None \<Rightarrow> None | Some n \<Rightarrow> Some (s, Inl (NotFound n)))
   | Some topo \<Rightarrow>
       if msg_id msg = [] then Some (s, Inl (InvalidArgument ''invocation.id must be set''))
       else (case Refresh_loop now msg (t_Name topo) (t_Units topo) 1 s of
         (s', Some e) \<Rightarrow> Some (s', Inl e)
       | (s', None) \<Rightarrow> Some (s', Inr (msg_id msg, now 0 + allocationRefreshDuration s))))"

definition am_Release :: "string \<Rightarrow> Manager \<Rightarrow> Manager \<times> (am_error + unit)" where
  "am_Release invID s =
    (if invID = [] then (s, Inl (InvalidArgument ''invocation_id must be set''))
     else let s' = s\<lparr>m_units := map (\<lambda>(n, u). (n, fst (Unit_Forget (m_heap s) invID u))) (m_units s)\<rparr>;
              cnt = sum_list (map (\<lambda>(n, u). snd (Unit_Forget (m_heap s) invID u)) (m_units s))
       in if cnt = 0 then (s', Inl (FailedPrecondition invID)) else (s', Inr ()))"

definition am_Status :: "time \<Rightarrow> Manager \<Rightarrow> (UnitInfo \<times> Health \<times> Allocation \<times> time) list" where
  "am_Status now s = map (\<lambda>(n, u). Unit_GetStats now u) (m_units s)"

end
