(* ===== verification/Alloc_Manager_Props.thy ===== *)
theory Alloc_Manager_Props imports Alloc_Manager begin

text \<open>
  What the allocation manager guarantees: promotion never takes a unit from its holder, gives an
  invocation its whole topology, and leaves only invocations waiting whose topology is busy. Adoption
  and release are characterised as they are, which is not as their comments say.
\<close>

section \<open>The queue only touches queue identifiers\<close>

abbreviation plain :: "invocation \<Rightarrow> invocation" where
  "plain i \<equiv> i\<lparr>QueueID := 0\<rparr>"

definition same_info :: "heap \<Rightarrow> heap \<Rightarrow> bool" where
  "same_info h h' \<longleftrightarrow> map plain h = map plain h'"

lemma same_info_refl [simp]: "same_info h h" by (simp add: same_info_def)

lemma same_info_trans: "same_info h1 h2 \<Longrightarrow> same_info h2 h3 \<Longrightarrow> same_info h1 h3" by (simp add: same_info_def)

lemma same_info_length: "same_info h h' \<Longrightarrow> length h = length h'"
  unfolding same_info_def by (drule arg_cong [of _ _ length]) simp

lemma same_info_fields:
  assumes "same_info h h'" "r < length h"
  shows "ID (h ! r) = ID (h' ! r)" "Request (h ! r) = Request (h' ! r)" "LastCheckin (h ! r) = LastCheckin (h' ! r)"
proof -
  have "map plain h ! r = map plain h' ! r" using assms(1) by (simp add: same_info_def)
  then have p: "plain (h ! r) = plain (h' ! r)" using assms same_info_length [OF assms(1)] by simp
  show "ID (h ! r) = ID (h' ! r)" "Request (h ! r) = Request (h' ! r)" "LastCheckin (h ! r) = LastCheckin (h' ! r)"
    using arg_cong [OF p, of ID] arg_cong [OF p, of Request] arg_cong [OF p, of LastCheckin] by simp_all
qed

lemma same_info_upd: "(\<And>i. plain (f i) = plain i) \<Longrightarrow> same_info h (upd_inv f r h)"
proof -
  assume f: "\<And>i. plain (f i) = plain i"
  have "plain (h[r := f (h ! r)] ! i) = plain (h ! i)" if "i < length h" for i
    using that f by (cases "i = r") simp_all
  then show ?thesis unfolding same_info_def upd_inv_def by (intro nth_equalityI) simp_all
qed

lemma am_Filter_loop_ok:
  assumes "\<And>i. plain (eff i) = plain i" "\<And>i. f i = g (plain i)" "\<forall>r \<in> set iq. r < length h"
  shows "same_info h (fst (am_Filter_loop f eff c h nq iq))
    \<and> fst (snd (am_Filter_loop f eff c h nq iq)) = nq @ filter (\<lambda>r. \<not> f (h ! r)) iq"
  using assms(3)
proof (induction iq arbitrary: c h nq)
  case (Cons x iq)
  have inv: "same_info h h' \<Longrightarrow> r < length h \<Longrightarrow> f (h' ! r) = f (h ! r)" for h' r
  proof -
    assume s: "same_info h h'" "r < length h"
    have "map plain h ! r = map plain h' ! r" using s by (simp add: same_info_def)
    then show "f (h' ! r) = f (h ! r)" using s same_info_length [OF s(1)] assms(2) by simp
  qed
  have step: "same_info h h' \<Longrightarrow> same_info h (fst (am_Filter_loop f eff c' h' nq' iq))
    \<and> fst (snd (am_Filter_loop f eff c' h' nq' iq)) = nq' @ filter (\<lambda>r. \<not> f (h ! r)) iq" for h' c' nq'
  proof -
    assume s: "same_info h h'"
    have "\<forall>r \<in> set iq. r < length h'" using Cons.prems same_info_length [OF s] by simp
    from Cons.IH [OF this, of c' nq'] have "same_info h (fst (am_Filter_loop f eff c' h' nq' iq))"
      "fst (snd (am_Filter_loop f eff c' h' nq' iq)) = nq' @ filter (\<lambda>r. \<not> f (h' ! r)) iq"
      using same_info_trans [OF s] by auto
    moreover have "filter (\<lambda>r. \<not> f (h' ! r)) iq = filter (\<lambda>r. \<not> f (h ! r)) iq"
      using inv [OF s] Cons.prems by (intro filter_cong) auto
    ultimately show ?thesis by simp
  qed
  have e1: "same_info h (upd_inv eff x h)" by (rule same_info_upd) (rule assms(1))
  have e2: "same_info h (upd_inv (\<lambda>i. i\<lparr>QueueID := QueueID i - of_nat c\<rparr>) x h)" by (rule same_info_upd) simp
  show ?case
  proof (cases "f (h ! x)")
    case True
    then show ?thesis using step [OF e1, of "c + 1" nq] by simp
  next
    case False
    then show ?thesis using step [OF e2, of c "nq @ [x]"] by simp
  qed
qed simp

lemma am_Forget_ok:
  assumes "\<forall>r \<in> set iq. r < length h" "am_Forget i h iq = (h', iq')"
  shows "same_info h h' \<and> iq' = filter (\<lambda>r. ID (h ! r) \<noteq> i) iq"
proof -
  have "same_info h (fst (am_Filter_loop (\<lambda>x. ID x = i) (\<lambda>x. x\<lparr>QueueID := 0\<rparr>) 0 h [] iq))
    \<and> fst (snd (am_Filter_loop (\<lambda>x. ID x = i) (\<lambda>x. x\<lparr>QueueID := 0\<rparr>) 0 h [] iq)) = [] @ filter (\<lambda>r. \<not> ID (h ! r) = i) iq"
    by (rule am_Filter_loop_ok [where g = "\<lambda>x. ID x = i"]) (use assms(1) in simp_all)
  then show ?thesis using assms(2) by (auto simp: am_Forget_def am_Filter_def split: prod.splits)
qed

section \<open>Allocating a topology\<close>

lemma map_of_AList_update: "map_of (AList.update k v al) = (map_of al)(k \<mapsto> v)"
  by (rule update_conv')

lemma Topology_Allocate_free:
  assumes "distinct ns" "\<forall>n \<in> set ns. \<exists>u. map_of us n = Some u \<and> u_Invocation u = None"
  shows "snd (Topology_Allocate h r ns us)
    \<and> map_of (fst (Topology_Allocate h r ns us)) = (\<lambda>n. if n \<in> set ns then map_option (\<lambda>u. u\<lparr>u_Invocation := Some r\<rparr>) (map_of us n) else map_of us n)"
  using assms
proof (induction ns arbitrary: us)
  case (Cons n ns)
  then obtain u where u: "map_of us n = Some u" "u_Invocation u = None" by auto
  let ?us = "AList.update n (u\<lparr>u_Invocation := Some r\<rparr>) us"
  have "\<forall>m \<in> set ns. \<exists>u. map_of ?us m = Some u \<and> u_Invocation u = None"
    using Cons.prems by (auto simp: map_of_AList_update)
  from Cons.IH [OF _ this] Cons.prems u show ?case
    by (auto simp: Unit_Allocate_def map_of_AList_update fun_eq_iff)
qed simp

lemma CanBeAllocated_iff:
  "Topology_CanBeAllocated us ns \<longleftrightarrow> (\<forall>n \<in> set ns. \<forall>u. map_of us n = Some u \<longrightarrow> u_Invocation u = None)"
  by (induction us ns rule: Topology_CanBeAllocated.induct) (auto simp: Unit_IsAllocated_def split: option.splits if_splits)

text \<open>The holder of every unit that has one keeps it.\<close>

definition holders_keep :: "units \<Rightarrow> units \<Rightarrow> bool" where
  "holders_keep us us' \<longleftrightarrow> (\<forall>n u. map_of us n = Some u \<longrightarrow>
     (\<exists>u'. map_of us' n = Some u' \<and> (u_Invocation u \<noteq> None \<longrightarrow> u' = u)))"

lemma holders_keep_refl [simp]: "holders_keep us us" by (simp add: holders_keep_def)

lemma holders_keep_trans: "holders_keep a b \<Longrightarrow> holders_keep b c \<Longrightarrow> holders_keep a c"
  unfolding holders_keep_def by (metis option.distinct(1))

lemma holders_keep_busy: "holders_keep us us' \<Longrightarrow> \<not> Topology_CanBeAllocated us ns \<Longrightarrow> \<not> Topology_CanBeAllocated us' ns"
  unfolding CanBeAllocated_iff holders_keep_def by (metis option.distinct(1))

text \<open>What is known about topologies: one per name, and each names existing units, once.\<close>

definition topologies_ok :: "(string \<times> Topology) list \<Rightarrow> units \<Rightarrow> bool" where
  "topologies_ok ts us \<longleftrightarrow> distinct (map fst ts)
    \<and> (\<forall>(n, t) \<in> set ts. distinct (t_Units t) \<and> (\<forall>h \<in> set (t_Units t). map_of us h \<noteq> None))"

lemma Matchmaker_eq:
  assumes "topologies_ok ts us"
  shows "Matchmaker us' ts req False = (case map_of ts (tr_name req) of
     None \<Rightarrow> [] | Some t \<Rightarrow> if tr_name req \<noteq> [] \<and> Topology_CanBeAllocated us' (t_Units t) then [t] else [])"
proof -
  have "distinct (map fst ts) \<Longrightarrow> filter (\<lambda>(name, t). P t \<and> name = m) ts =
    (case map_of ts m of None \<Rightarrow> [] | Some t \<Rightarrow> if P t then [(m, t)] else [])" for P and m :: string
  proof (induction ts)
    case (Cons nt ts)
    have "m \<notin> set (map fst ts) \<Longrightarrow> filter (\<lambda>(name, t). P t \<and> name = m) ts = []"
      by (induction ts) auto
    moreover have "m \<notin> set (map fst ts) \<Longrightarrow> map_of ts m = None" by (simp add: map_of_eq_None_iff)
    moreover have "fst nt = m \<Longrightarrow> m \<notin> set (map fst ts)" using Cons.prems by auto
    ultimately show ?case using Cons by (cases nt) auto
  qed simp
  then show ?thesis using assms by (auto simp: Matchmaker_def topologies_ok_def split: option.splits)
qed

definition holds_topology :: "units \<Rightarrow> ref \<Rightarrow> Topology \<Rightarrow> bool" where
  "holds_topology us r t \<longleftrightarrow> (\<forall>n \<in> set (t_Units t). \<exists>u. map_of us n = Some u \<and> u_Invocation u = Some r)"

lemma holds_topology_keep: "holders_keep us us' \<Longrightarrow> holds_topology us r t \<Longrightarrow> holds_topology us' r t"
  unfolding holders_keep_def holds_topology_def by (metis option.distinct(1))

lemma topologies_ok_keep: "holders_keep us us' \<Longrightarrow> topologies_ok ts us \<Longrightarrow> topologies_ok ts us'"
  unfolding holders_keep_def topologies_ok_def by fastforce

definition queue_refs_ok :: "heap \<Rightarrow> queue \<Rightarrow> bool" where
  "queue_refs_ok h iq \<longleftrightarrow> (\<forall>r \<in> set iq. r < length h) \<and> distinct (map (\<lambda>r. ID (h ! r)) iq)"

lemma queue_refs_ok_same: "same_info h h' \<Longrightarrow> queue_refs_ok h iq \<Longrightarrow> queue_refs_ok h' iq"
proof -
  assume s: "same_info h h'" and q: "queue_refs_ok h iq"
  have "map (\<lambda>r. ID (h' ! r)) iq = map (\<lambda>r. ID (h ! r)) iq"
    using q same_info_fields(1) [OF s] by (auto simp: queue_refs_ok_def)
  then show ?thesis using q same_info_length [OF s] unfolding queue_refs_ok_def by metis
qed

section \<open>Promotion\<close>

text \<open>
  The outcome for one queued invocation: it stays with no topology to ask for, or because of a unit that
  was in use already or went to an invocation before it; or it leaves and holds its topology.
\<close>

definition unit_taken :: "units \<Rightarrow> queue \<Rightarrow> units \<Rightarrow> string \<Rightarrow> bool" where
  "unit_taken us before us' n \<longleftrightarrow> (\<exists>u x. map_of us' n = Some u \<and> u_Invocation u = Some x \<and> (map_of us n = Some u \<or> x \<in> set before))"

definition promoted :: "(string \<times> Topology) list \<Rightarrow> heap \<Rightarrow> units \<Rightarrow> queue \<Rightarrow> queue \<Rightarrow> units \<Rightarrow> ref \<Rightarrow> bool" where
  "promoted ts h us iq iq' us' r \<longleftrightarrow> (let name = tr_name (Request (h ! r)); topo = (if name = [] then None else map_of ts name) in
     if r \<in> set iq'
     then (case topo of None \<Rightarrow> True | Some t \<Rightarrow> \<exists>n \<in> set (t_Units t). unit_taken us (takeWhile (\<lambda>y. y \<noteq> r) iq) us' n)
     else (case topo of None \<Rightarrow> False | Some t \<Rightarrow> holds_topology us' r t))"

text \<open>A unit has the holder it had, or one of \<open>rs\<close>.\<close>

definition given_to :: "ref set \<Rightarrow> units \<Rightarrow> units \<Rightarrow> bool" where
  "given_to rs us us' \<longleftrightarrow> (\<forall>n u x. map_of us' n = Some u \<longrightarrow> u_Invocation u = Some x \<longrightarrow> map_of us n = Some u \<or> x \<in> rs)"

lemma given_to_trans: "given_to A us us1 \<Longrightarrow> given_to B us1 us' \<Longrightarrow> given_to (A \<union> B) us us'"
  unfolding given_to_def by blast

lemma given_to_mono: "given_to A us us' \<Longrightarrow> A \<subseteq> B \<Longrightarrow> given_to B us us'"
  unfolding given_to_def by blast

lemma unit_taken_step:
  assumes "given_to {x} us us1" "unit_taken us1 before us' n"
  shows "unit_taken us (x # before) us' n"
  using assms unfolding given_to_def unit_taken_def by fastforce

lemma unit_taken_kept:
  assumes "holders_keep us us'" "\<not> Topology_CanBeAllocated us ns"
  shows "\<exists>n \<in> set ns. unit_taken us before us' n"
proof -
  obtain n u where "n \<in> set ns" "map_of us n = Some u" "u_Invocation u \<noteq> None" using assms(2) by (auto simp: CanBeAllocated_iff)
  then show ?thesis using assms(1) unfolding holders_keep_def unit_taken_def by (intro bexI [of _ n]) auto
qed

lemma promoted_Cons:
  assumes "promoted ts h1 us1 rest iq' us' r" "given_to {x} us us1" "r \<noteq> x" "Request (h1 ! r) = Request (h ! r)"
  shows "promoted ts h us (x # rest) iq' us' r"
proof -
  have "takeWhile (\<lambda>y. y \<noteq> r) (x # rest) = x # takeWhile (\<lambda>y. y \<noteq> r) rest" using assms(3) by simp
  then show ?thesis using assms(1) unit_taken_step [OF assms(2), of "takeWhile (\<lambda>y. y \<noteq> r) rest"]
    unfolding promoted_def Let_def assms(4) by (simp split: option.splits if_splits) blast
qed

lemma filter_again:
  assumes "ys = filter (\<lambda>r. r \<in> set ys) (filter P xs)"
  shows "ys = filter (\<lambda>r. r \<in> set ys) xs"
proof -
  have "set ys = set (filter (\<lambda>r. r \<in> set ys) (filter P xs))" by (rule arg_cong [OF assms])
  then have "\<forall>r \<in> set ys. P r" by auto
  then have "filter (\<lambda>r. r \<in> set ys) xs = filter (\<lambda>r. r \<in> set ys) (filter P xs)" by (auto intro!: filter_cong)
  then show ?thesis using assms by simp
qed

lemma am_Promote_loop_ok:
  assumes "topologies_ok ts us" "queue_refs_ok h iq" "set rest \<subseteq> set iq" "distinct rest"
    "am_Promote_loop ts rest (h, iq, us) = (h', iq', us')"
  shows "same_info h h' \<and> holders_keep us us' \<and> iq' = filter (\<lambda>r. r \<in> set iq') iq \<and> set iq - set rest \<subseteq> set iq'
    \<and> queue_refs_ok h' iq' \<and> given_to (set rest - set iq') us us' \<and> (\<forall>r \<in> set rest. promoted ts h us rest iq' us' r)"
  using assms
proof (induction rest arbitrary: h iq us)
  case Nil
  then show ?case by (auto simp: given_to_def)
next
  case (Cons x rest)
  let ?n = "tr_name (Request (h ! x))"
  have valid: "\<forall>r \<in> set iq. r < length h" using Cons.prems(2) by (simp add: queue_refs_ok_def)
  have neq: "r \<noteq> x" if "r \<in> set rest" for r using that Cons.prems(4) by auto
  show ?case
  proof (cases "Matchmaker us ts (Request (h ! x)) False = []")
    case True
    have "am_Promote_loop ts rest (h, iq, us) = (h', iq', us')" using Cons.prems(5) True by simp
    from Cons.IH [OF Cons.prems(1,2) _ _ this] Cons.prems(3,4)
    have IH: "same_info h h'" "holders_keep us us'" "iq' = filter (\<lambda>r. r \<in> set iq') iq" "set iq - set rest \<subseteq> set iq'"
      "queue_refs_ok h' iq'" "given_to (set rest - set iq') us us'" "\<forall>r \<in> set rest. promoted ts h us rest iq' us' r" by auto
    have "x \<in> set iq'" using IH(4) Cons.prems(3,4) by auto
    moreover have "\<exists>n \<in> set (t_Units t). unit_taken us [] us' n" if "?n \<noteq> []" "map_of ts ?n = Some t" for t
      using True that unit_taken_kept [OF IH(2)] unfolding Matchmaker_eq [OF Cons.prems(1)] by (auto split: if_splits)
    ultimately have x: "promoted ts h us (x # rest) iq' us' x" by (auto simp: promoted_def Let_def split: option.split)
    have "given_to {x} us us" by (simp add: given_to_def)
    then have "promoted ts h us (x # rest) iq' us' r" if "r \<in> set rest" for r
      using promoted_Cons [OF _ _ neq] IH(7) that by blast
    moreover have "given_to (set (x # rest) - set iq') us us'" by (rule given_to_mono [OF IH(6)]) auto
    ultimately show ?thesis using IH(1-5) x by auto
  next
    case False
    then obtain t where t: "?n \<noteq> []" "map_of ts ?n = Some t" "Topology_CanBeAllocated us (t_Units t)"
      "Matchmaker us ts (Request (h ! x)) False = [t]"
      unfolding Matchmaker_eq [OF Cons.prems(1)] by (auto split: option.splits if_splits)
    obtain h1 iq1 where f: "am_Forget (ID (h ! x)) h iq = (h1, iq1)" by fastforce
    from am_Forget_ok [OF valid f] have f': "same_info h h1" "iq1 = filter (\<lambda>r. ID (h ! r) \<noteq> ID (h ! x)) iq" by auto
    define us1 where "us1 = fst (Topology_Allocate h1 x (t_Units t) us)"
    have tt: "distinct (t_Units t)" "\<forall>n \<in> set (t_Units t). \<exists>u. map_of us n = Some u \<and> u_Invocation u = None"
      using map_of_SomeD [OF t(2)] Cons.prems(1) t(3) by (force simp: topologies_ok_def CanBeAllocated_iff)+
    from Topology_Allocate_free [OF tt, of h1 x] have us1: "map_of us1 = (\<lambda>n. if n \<in> set (t_Units t)
      then map_option (\<lambda>u. u\<lparr>u_Invocation := Some x\<rparr>) (map_of us n) else map_of us n)" by (simp add: us1_def)
    have keep: "holders_keep us us1" using tt(2) by (force simp: holders_keep_def us1)
    have given: "given_to {x} us us1" by (auto simp: given_to_def us1 split: if_splits)
    have got: "holds_topology us1 x t" using tt(2) by (force simp: holds_topology_def us1)
    have iq1: "set iq1 = set iq - {x}"
      using Cons.prems(2,3) by (auto simp: f' queue_refs_ok_def distinct_map inj_on_def)
    have q1: "queue_refs_ok h1 iq1"
      using queue_refs_ok_same [OF f'(1) Cons.prems(2)] by (auto simp: f'(2) queue_refs_ok_def distinct_map_filter)
    have "am_Promote_loop ts rest (h1, iq1, us1) = (h', iq', us')" using Cons.prems(5) t(4) f by (simp add: us1_def)
    from Cons.IH [OF topologies_ok_keep [OF keep Cons.prems(1)] q1 _ _ this] Cons.prems(3,4) iq1
    have IH: "same_info h1 h'" "holders_keep us1 us'" "iq' = filter (\<lambda>r. r \<in> set iq') iq1" "set iq1 - set rest \<subseteq> set iq'"
      "queue_refs_ok h' iq'" "given_to (set rest - set iq') us1 us'" "\<forall>r \<in> set rest. promoted ts h1 us1 rest iq' us' r" by auto
    have "set iq' \<subseteq> set iq1" using arg_cong [OF IH(3), of set] by auto
    then have out: "x \<notin> set iq'" using iq1 by blast
    have "promoted ts h us (x # rest) iq' us' x" using out t holds_topology_keep [OF IH(2) got] by (simp add: promoted_def)
    moreover have "promoted ts h us (x # rest) iq' us' r" if r: "r \<in> set rest" for r
      by (rule promoted_Cons [where ?h1.0 = h1, OF _ given neq [OF r]]) (use IH(7) r same_info_fields(2) [OF f'(1), of r] valid Cons.prems(3) in auto)
    moreover have "same_info h h'" "holders_keep us us'"
      using same_info_trans [OF f'(1) IH(1)] holders_keep_trans [OF keep IH(2)] by auto
    moreover have "iq' = filter (\<lambda>r. r \<in> set iq') iq" by (rule filter_again) (use IH(3) in \<open>simp only: f'(2)\<close>)
    moreover have "given_to (set (x # rest) - set iq') us us'"
      by (rule given_to_mono [OF given_to_trans [OF given IH(6)]]) (use out in auto)
    moreover have "set iq - set (x # rest) \<subseteq> set iq'" using IH(4) iq1 by auto
    ultimately show ?thesis using IH(5) by auto
  qed
qed

definition mgr_ok :: "Manager \<Rightarrow> bool" where
  "mgr_ok s \<longleftrightarrow> topologies_ok (m_topologies s) (m_units s) \<and> queue_refs_ok (m_heap s) (InvocationQueue s)"

text \<open>The state \<^verbatim>\<open>New\<close> makes is one of these when no topology of the configuration names a host twice.\<close>

lemma AList_update_mem: "p \<in> set (AList.update k v al) \<Longrightarrow> p = (k, v) \<or> p \<in> set al"
  by (induction al) (auto split: if_splits)

lemma topology_map_ok:
  assumes "distinct (map fst m)" "\<forall>(n, t) \<in> set m. P t" "\<forall>t \<in> set ts. P t"
  shows "distinct (map fst (fold (\<lambda>t m. AList.update (t_Name t) t m) ts m))
    \<and> (\<forall>(n, t) \<in> set (fold (\<lambda>t m. AList.update (t_Name t) t m) ts m). P t)"
  using assms
proof (induction ts arbitrary: m)
  case (Cons t ts)
  have "distinct (map fst (AList.update (t_Name t) t m))" using Cons.prems(1) by (rule distinct_update)
  moreover have "\<forall>(n, t) \<in> set (AList.update (t_Name t) t m). P t" using Cons.prems AList_update_mem by fastforce
  ultimately show ?case using Cons.IH Cons.prems(3) by simp
qed simp

lemma am_New_ok:
  assumes "am_New server configs inventory = Inr (s, j, a)" "\<forall>(n, hosts) \<in> set configs. distinct hosts"
  shows "mgr_ok s"
proof -
  obtain sc us where us: "server = Some sc" "UnitsFromInventory inventory = Inr us"
    using assms(1) by (auto simp: am_New_def split: option.splits sum.splits)
  have s: "m_topologies s = fold (\<lambda>t m. AList.update (t_Name t) t m) (TopologiesFromConfigAndUnits configs us) []"
    "m_units s = us" "m_heap s = []" "InvocationQueue s = []"
    using assms(1) us by (auto simp: am_New_def)
  have "\<forall>t \<in> set (TopologiesFromConfigAndUnits configs us). distinct (t_Units t) \<and> (\<forall>h \<in> set (t_Units t). map_of us h \<noteq> None)"
    using assms(2) by (auto simp: TopologiesFromConfigAndUnits_def)
  from topology_map_ok [OF _ _ this, of "[]"] show ?thesis
    unfolding mgr_ok_def topologies_ok_def s by (simp add: queue_refs_ok_def)
qed

text \<open>C6: With topologies whose hosts are distinct and in the inventory (\<open>mgr_ok\<close>), promotion takes no unit away from
  its holder, and gives units only to invocations it takes out of the queue, whose order is kept. An
  invocation leaves the queue only with every unit of the topology it names. One stays if it names none, or an unknown
  one; otherwise only because of a unit of its topology that was in use before, or that went to an
  invocation in front of it.\<close>

theorem am_Promote_correct:
  assumes "mgr_ok s"
  shows "mgr_ok (am_Promote s)
    \<and> (\<forall>n u. map_of (m_units s) n = Some u \<and> u_Invocation u \<noteq> None \<longrightarrow> map_of (m_units (am_Promote s)) n = Some u)
    \<and> (\<forall>n u x. map_of (m_units (am_Promote s)) n = Some u \<longrightarrow> u_Invocation u = Some x \<longrightarrow>
        map_of (m_units s) n = Some u \<or> x \<in> set (InvocationQueue s) - set (InvocationQueue (am_Promote s)))
    \<and> InvocationQueue (am_Promote s) = filter (\<lambda>r. r \<in> set (InvocationQueue (am_Promote s))) (InvocationQueue s)
    \<and> (\<forall>r \<in> set (InvocationQueue s).
        let name = tr_name (Request (m_heap s ! r)); topo = (if name = [] then None else map_of (m_topologies s) name) in
        if r \<in> set (InvocationQueue (am_Promote s))
        then (case topo of None \<Rightarrow> True | Some t \<Rightarrow> \<exists>n \<in> set (t_Units t). \<exists>u x.
            map_of (m_units (am_Promote s)) n = Some u \<and> u_Invocation u = Some x
            \<and> (map_of (m_units s) n = Some u \<or> x \<in> set (takeWhile (\<lambda>y. y \<noteq> r) (InvocationQueue s))))
        else (case topo of None \<Rightarrow> False | Some t \<Rightarrow> \<forall>n \<in> set (t_Units t).
            \<exists>u. map_of (m_units (am_Promote s)) n = Some u \<and> u_Invocation u = Some r))"
proof -
  obtain h' iq' us' where run: "am_Promote_loop (m_topologies s) (InvocationQueue s) (m_heap s, InvocationQueue s, m_units s) = (h', iq', us')"
    by (metis prod_cases3)
  then have s': "am_Promote s = s\<lparr>m_heap := h', InvocationQueue := iq', m_units := us'\<rparr>" by (simp add: am_Promote_def)
  have ok: "topologies_ok (m_topologies s) (m_units s)" "queue_refs_ok (m_heap s) (InvocationQueue s)"
    using assms by (auto simp: mgr_ok_def)
  have "distinct (InvocationQueue s)" using ok(2) by (simp add: queue_refs_ok_def distinct_map)
  from am_Promote_loop_ok [OF ok order_refl this run]
  have k: "holders_keep (m_units s) us'" "iq' = filter (\<lambda>r. r \<in> set iq') (InvocationQueue s)"
    "queue_refs_ok h' iq'" "given_to (set (InvocationQueue s) - set iq') (m_units s) us'"
    "\<forall>r \<in> set (InvocationQueue s). promoted (m_topologies s) (m_heap s) (m_units s) (InvocationQueue s) iq' us' r" by auto
  have sel: "m_units (am_Promote s) = us'" "InvocationQueue (am_Promote s) = iq'" by (simp_all add: s')
  have inv: "mgr_ok (am_Promote s)" using topologies_ok_keep [OF k(1) ok(1)] k(3) by (simp add: s' mgr_ok_def)
  have held: "\<forall>n u. map_of (m_units s) n = Some u \<and> u_Invocation u \<noteq> None \<longrightarrow> map_of us' n = Some u"
    using k(1) unfolding holders_keep_def by blast
  show ?thesis unfolding sel
    by (intro conjI inv held k(4) [unfolded given_to_def] k(5) [unfolded promoted_def unit_taken_def holds_topology_def] k(2))
qed

definition demo_unit :: Unit where
  "demo_unit = \<lparr>u_Health = HEALTH_UNKNOWN, u_Invocation = None, u_Info = HostInfo ''h''\<rparr>"

definition demo_req :: "string \<Rightarrow> invocation" where
  "demo_req i = \<lparr>ID = i, Owner = ''o'', Purpose = [], LastCheckin = 0, QueueID = 1, Request = \<lparr>tr_name = ''t'', tr_hosts = []\<rparr>\<rparr>"

definition demo_mgr :: Manager where
  "demo_mgr = \<lparr>currentState = stateStarting, m_units = [(''h'', demo_unit)],
     m_topologies = [(''t'', \<lparr>t_Name = ''t'', t_Units = [''h'']\<rparr>)], m_heap = [demo_req ''a'', demo_req ''b''],
     InvocationQueue = [0, 1], queueRefreshDuration = 15, allocationRefreshDuration = 30\<rparr>"

lemma demo_mgr_ok: "mgr_ok demo_mgr"
  by (simp add: mgr_ok_def demo_mgr_def topologies_ok_def queue_refs_ok_def demo_req_def demo_unit_def)

theorem am_Promote_correct_witness: "mgr_ok (am_Promote demo_mgr) \<and> InvocationQueue (am_Promote demo_mgr) = [1]
    \<and> (\<exists>u. map_of (m_units (am_Promote demo_mgr)) ''h'' = Some u \<and> u_Invocation u = Some 0)"
proof -
  have q: "InvocationQueue (am_Promote demo_mgr) = [1]" "InvocationQueue demo_mgr = [0, 1]" by code_simp+
  have "tr_name (Request (m_heap demo_mgr ! 0)) = ''t''" "map_of (m_topologies demo_mgr) ''t'' = Some \<lparr>t_Name = ''t'', t_Units = [''h'']\<rparr>"
    by code_simp+
  then show ?thesis using am_Promote_correct [OF demo_mgr_ok] unfolding q by simp
qed

text \<open>
  Hosts named twice, which the configuration may have and nothing checks: the second allocation of the
  host to the same invocation is refused, which ends the allocation of the topology. The invocation leaves the queue
  without the units after it.
\<close>

definition twice_mgr :: Manager where
  "twice_mgr = demo_mgr\<lparr>m_units := [(''h'', demo_unit), (''k'', demo_unit)],
     m_topologies := [(''t'', \<lparr>t_Name = ''t'', t_Units = [''h'', ''h'', ''k'']\<rparr>)], InvocationQueue := [0]\<rparr>"

lemma host_named_twice:
  "InvocationQueue (am_Promote twice_mgr) = []
    \<and> map (\<lambda>(n, u). (n, u_Invocation u)) (m_units (am_Promote twice_mgr)) = [(''h'', Some 0), (''k'', None)]"
  by code_simp

section \<open>The invariant over the other operations\<close>

lemma topologies_ok_dom: "(\<And>n. (map_of us n = None) = (map_of us' n = None)) \<Longrightarrow> topologies_ok ts us = topologies_ok ts us'"
  by (simp add: topologies_ok_def)

definition same_ids :: "heap \<Rightarrow> heap \<Rightarrow> bool" where
  "same_ids h h' \<longleftrightarrow> length h \<le> length h' \<and> (\<forall>r < length h. ID (h' ! r) = ID (h ! r))"

lemma same_ids_trans: "same_ids a b \<Longrightarrow> same_ids b c \<Longrightarrow> same_ids a c"
  by (auto simp: same_ids_def)

lemma same_ids_upd [simp]: "(\<And>i. ID (f i) = ID i) \<Longrightarrow> same_ids h (upd_inv f r h)"
proof -
  assume f: "\<And>i. ID (f i) = ID i"
  have "ID (h[r := f (h ! r)] ! k) = ID (h ! k)" if "k < length h" for k
    using that f by (cases "k = r") simp_all
  then show ?thesis by (simp add: same_ids_def upd_inv_def)
qed

lemma same_ids_refl [simp]: "same_ids h h" by (simp add: same_ids_def)

lemma same_ids_append [simp]: "same_ids h (h @ xs)"
  by (simp add: same_ids_def nth_append)

lemma queue_refs_ok_ids: "same_ids h h' \<Longrightarrow> queue_refs_ok h iq \<Longrightarrow> queue_refs_ok h' iq"
proof -
  assume s: "same_ids h h'" and q: "queue_refs_ok h iq"
  have "map (\<lambda>r. ID (h' ! r)) iq = map (\<lambda>r. ID (h ! r)) iq" using s q by (simp add: same_ids_def queue_refs_ok_def)
  then show ?thesis using s q unfolding same_ids_def queue_refs_ok_def by (metis order_less_le_trans)
qed

lemma am_Get_loop: "am_Walk_loop (\<lambda>pos x. ID x \<noteq> i) h k iq = None \<longleftrightarrow> (\<forall>r \<in> set iq. ID (h ! r) \<noteq> i)"
  by (induction iq arbitrary: k) auto

lemma am_Get_None: "am_Get i h iq = None \<longleftrightarrow> (\<forall>r \<in> set iq. ID (h ! r) \<noteq> i)"
  by (simp add: am_Get_def am_Walk_def am_Get_loop)

lemma push_inv_ok:
  assumes "mgr_ok s" "\<forall>r \<in> set (InvocationQueue s). ID (m_heap s ! r) \<noteq> ID i"
  shows "mgr_ok (fst (push_inv i s)) \<and> snd (push_inv i s) = of_nat (length (InvocationQueue s))"
proof -
  let ?r = "length (m_heap s)" and ?q = "InvocationQueue s"
  obtain f where p: "push_inv i s = (s\<lparr>m_heap := upd_inv f ?r (m_heap s @ [i]), InvocationQueue := ?q @ [?r]\<rparr>, of_nat (length ?q))"
    "\<And>x. ID (f x) = ID x"
    by (simp add: push_inv_def am_Enqueue_def Let_def)
  have q: "queue_refs_ok (m_heap s) ?q" using assms(1) by (simp add: mgr_ok_def)
  have ids: "same_ids (m_heap s) (upd_inv f ?r (m_heap s @ [i]))"
    by (rule same_ids_trans [OF same_ids_append [of _ "[i]"]]) (simp add: p(2))
  have "ID (upd_inv f ?r (m_heap s @ [i]) ! ?r) = ID i" by (simp add: upd_inv_def p(2))
  moreover have "\<forall>r \<in> set ?q. ID (upd_inv f ?r (m_heap s @ [i]) ! r) \<noteq> ID i"
    using ids q assms(2) by (simp add: same_ids_def queue_refs_ok_def)
  ultimately have "queue_refs_ok (upd_inv f ?r (m_heap s @ [i])) (?q @ [?r])"
    using queue_refs_ok_ids [OF ids q] by (auto simp: queue_refs_ok_def upd_inv_def)
  then show ?thesis using assms(1) by (simp add: p(1) mgr_ok_def)
qed

lemma Allocate_scan_ids: "same_ids h (fst (Allocate_scan i t us h))"
  by (induction i t us h rule: Allocate_scan.induct) (auto split: option.splits)

lemma Allocate_answer_ok:
  assumes "mgr_ok s"
  shows "mgr_ok (fst (Allocate_answer now msg i s))"
proof -
  obtain h hi where sc: "Allocate_scan i (now 1) (m_units s) (m_heap s) = (h, hi)" by fastforce
  then have ids: "same_ids (m_heap s) h" using Allocate_scan_ids by (metis fst_conv)
  have ok: "mgr_ok (s\<lparr>m_heap := h\<rparr>)" using assms queue_refs_ok_ids [OF ids] by (simp add: mgr_ok_def)
  have up: "mgr_ok (s\<lparr>m_heap := upd_inv (\<lambda>i. i\<lparr>LastCheckin := t\<rparr>) x h\<rparr>)" for t x
    using ok queue_refs_ok_ids [of h "upd_inv (\<lambda>i. i\<lparr>LastCheckin := t\<rparr>) x h"] by (simp add: mgr_ok_def)
  have "am_Get i h (InvocationQueue s) = None \<Longrightarrow> mgr_ok (fst (push_inv (new_inv i msg t) (s\<lparr>m_heap := h\<rparr>)))" for t
    using push_inv_ok [OF ok, of "new_inv i msg t"] by (simp add: am_Get_None new_inv_def)
  then show ?thesis using ok up
    by (auto simp: Allocate_answer_def sc Let_def split: option.splits prod.splits simp del: One_nat_def)
      (metis fst_conv)
qed

lemma Refresh_loop_ok: "mgr_ok s \<Longrightarrow> mgr_ok (fst (Refresh_loop now msg tn ns k s))"
proof (induction now msg tn ns k s rule: Refresh_loop.induct)
  case (2 now msg tn n ns k s)
  have h: "mgr_ok (s\<lparr>m_heap := h\<rparr>)" if "same_ids (m_heap s) h" for h
    using 2(4) queue_refs_ok_ids [OF that] by (simp add: mgr_ok_def)
  have u: "mgr_ok (s\<lparr>m_units := AList.update n u' (m_units s), m_heap := h\<rparr>)"
    if "same_ids (m_heap s) h" "map_of (m_units s) n = Some u" for h u u'
    using h [OF that(1)] topologies_ok_dom [of "m_units s" "AList.update n u' (m_units s)"] that(2)
    by (auto simp: mgr_ok_def map_of_AList_update)
  have up: "same_ids (m_heap s) (upd_inv (\<lambda>i. i\<lparr>LastCheckin := t\<rparr>) x (m_heap s))" for t x by simp
  have ap: "same_ids (m_heap s) (upd_inv (\<lambda>i. i\<lparr>LastCheckin := t\<rparr>) x (m_heap s @ [y]))" for t x y
    by (rule same_ids_trans [OF same_ids_append [of _ "[y]"]]) simp
  show ?case
    using 2(1) [of, OF _ 2(4)] 2 h [OF up] h [OF same_ids_append] u [OF ap]
    by (auto simp: Let_def split: option.splits prod.splits)
qed simp

lemma map_of_map_snd: "map_of (map (\<lambda>(n, u). (n, f u)) us) n = map_option f (map_of us n)"
  by (induction us) auto

lemma units_map_ok: "mgr_ok s \<Longrightarrow> mgr_ok (s\<lparr>m_units := map (\<lambda>(n, u). (n, f u)) (m_units s)\<rparr>)"
  using topologies_ok_dom [of "m_units s" "map (\<lambda>(n, u). (n, f u)) (m_units s)" "m_topologies s"]
  by (simp add: mgr_ok_def map_of_map_snd)

lemma am_Promote_ok: "mgr_ok s \<Longrightarrow> mgr_ok (am_Promote s)"
proof -
  assume ok: "mgr_ok s"
  obtain h' iq' us' where run: "am_Promote_loop (m_topologies s) (InvocationQueue s) (m_heap s, InvocationQueue s, m_units s) = (h', iq', us')"
    by (metis prod_cases3)
  have t: "topologies_ok (m_topologies s) (m_units s)" "queue_refs_ok (m_heap s) (InvocationQueue s)" using ok by (auto simp: mgr_ok_def)
  have "distinct (InvocationQueue s)" using t(2) by (simp add: queue_refs_ok_def distinct_map)
  from am_Promote_loop_ok [OF t order_refl this run] have "holders_keep (m_units s) us'" "queue_refs_ok h' iq'" by auto
  then show ?thesis using topologies_ok_keep [OF _ t(1)] run by (simp add: am_Promote_def mgr_ok_def)
qed

text \<open>C25: Every operation keeps the manager consistent: references in the queue are valid, no identifier
  is queued twice (given that generated identifiers are new), and topologies name existing units.\<close>

theorem allocation_manager_consistent:
  assumes "mgr_ok s" "\<forall>i r. gen = Some i \<longrightarrow> r \<in> set (InvocationQueue s) \<longrightarrow> ID (m_heap s ! r) \<noteq> i"
  shows "mgr_ok (fst (am_Allocate now gen msg s)) \<and> mgr_ok (fst (am_Release i s)) \<and> mgr_ok (am_janitor t s)
    \<and> (\<forall>s' r. am_Refresh now msg topo s = Some (s', r) \<longrightarrow> mgr_ok s')"
proof (intro conjI)
  have "mgr_ok (fst (Allocate_answer now msg x (if currentState (fst (push_inv (new_inv x msg (now 0)) s)) = stateRunning
      then am_Promote (fst (push_inv (new_inv x msg (now 0)) s)) else fst (push_inv (new_inv x msg (now 0)) s))))" if "gen = Some x" for x
  proof -
    have "mgr_ok (fst (push_inv (new_inv x msg (now 0)) s))"
      using push_inv_ok [OF assms(1), of "new_inv x msg (now 0)"] assms(2) that by (simp add: new_inv_def)
    then show ?thesis by (intro Allocate_answer_ok) (simp add: am_Promote_ok)
  qed
  then show "mgr_ok (fst (am_Allocate now gen msg s))"
    using assms(1) Allocate_answer_ok [OF assms(1)] by (auto simp: am_Allocate_def Let_def split: option.splits)
  show "mgr_ok (fst (am_Release i s))" using units_map_ok [OF assms(1)] assms(1) by (simp add: am_Release_def Let_def)
  show "mgr_ok (am_janitor t s)" using units_map_ok [OF assms(1)] assms(1) by (simp add: am_janitor_def Let_def am_Promote_ok)
  show "\<forall>s' r. am_Refresh now msg topo s = Some (s', r) \<longrightarrow> mgr_ok s'"
  proof (intro allI impI)
    fix s' r assume "am_Refresh now msg topo s = Some (s', r)"
    then show "mgr_ok s'" using assms(1) Refresh_loop_ok [OF assms(1)]
      by (auto simp: am_Refresh_def split: option.splits if_splits prod.splits) (metis fst_conv)+
  qed
qed

definition am_demo_msg :: "string \<Rightarrow> Invocation" where
  "am_demo_msg i = \<lparr>msg_id = i, msg_owner = ''o'', msg_purpose = [], msg_request = \<lparr>tr_name = ''t'', tr_hosts = []\<rparr>\<rparr>"

theorem allocation_manager_consistent_witness: "mgr_ok (fst (am_Allocate (\<lambda>_. 5) (Some ''c'') (am_demo_msg []) demo_mgr))"
  using allocation_manager_consistent [OF demo_mgr_ok, of "Some ''c''" "\<lambda>_. 5" "am_demo_msg []"]
  by (simp add: demo_mgr_def demo_req_def less_Suc_eq)

section \<open>Adoption and release\<close>

definition held_by :: "Manager \<Rightarrow> string \<Rightarrow> string \<Rightarrow> bool" where
  "held_by s i n \<longleftrightarrow> (\<exists>u x. map_of (m_units s) n = Some u \<and> u_Invocation u = Some x \<and> x < length (m_heap s)
     \<and> ID (m_heap s ! x) = i)"

definition unit_refs_ok :: "Manager \<Rightarrow> bool" where
  "unit_refs_ok s \<longleftrightarrow> (\<forall>n u x. map_of (m_units s) n = Some u \<longrightarrow> u_Invocation u = Some x \<longrightarrow> x < length (m_heap s))"

lemma held_by_ids:
  "same_ids (m_heap s) h \<Longrightarrow> held_by s i n \<Longrightarrow> held_by (s\<lparr>m_heap := h\<rparr>) i n"
  unfolding held_by_def same_ids_def by (auto intro: order_less_le_trans)

lemma Refresh_loop_adopts:
  assumes "currentState s = stateStarting" "\<forall>n \<in> set ns. map_of (m_units s) n \<noteq> None" "unit_refs_ok s"
  shows "snd (Refresh_loop now msg tn ns k s) = None
    \<and> (\<forall>n. n \<in> set ns \<or> held_by s (msg_id msg) n \<longrightarrow> held_by (fst (Refresh_loop now msg tn ns k s)) (msg_id msg) n)"
  using assms
proof (induction ns arbitrary: k s)
  case (Cons n ns)
  let ?i = "msg_id msg"
  obtain u where u: "map_of (m_units s) n = Some u" using Cons.prems(2) by auto
  have step: ?case if "Refresh_loop now msg tn (n # ns) k s = Refresh_loop now msg tn ns (k + 1) s1"
    "currentState s1 = stateStarting" "\<forall>n \<in> set ns. map_of (m_units s1) n \<noteq> None" "unit_refs_ok s1"
    "held_by s1 ?i n" "\<And>m. held_by s ?i m \<Longrightarrow> held_by s1 ?i m" for s1
    unfolding that(1) using Cons.IH [OF that(2-4), of "k + 1"] that(5,6) by (metis set_ConsD)
  show ?case
  proof (cases "Unit_GetInvocation (m_heap s) ?i u")
    case (Some x)
    then have x: "u_Invocation u = Some x" "ID (m_heap s ! x) = ?i"
      by (auto simp: Unit_GetInvocation_def split: option.splits if_splits)
    let ?h = "upd_inv (\<lambda>i. i\<lparr>LastCheckin := now k\<rparr>) x (m_heap s)"
    have ids: "same_ids (m_heap s) ?h" by simp
    have len: "length ?h = length (m_heap s)" by (simp add: upd_inv_def)
    have "held_by s ?i n" using x u Cons.prems(3) by (auto simp: held_by_def unit_refs_ok_def)
    then show ?thesis using held_by_ids [OF ids] Cons.prems u Some len
      by (intro step [of "s\<lparr>m_heap := ?h\<rparr>"]) (auto simp: unit_refs_ok_def)
  next
    case None
    let ?r = "length (m_heap s)" and ?h = "m_heap s @ [new_inv ?i msg 0]"
    let ?h' = "upd_inv (\<lambda>i. i\<lparr>LastCheckin := now k\<rparr>) ?r ?h"
    have ok: "Unit_Allocate ?h ?r u = (u\<lparr>u_Invocation := Some ?r\<rparr>, True)"
      using None u Cons.prems(3) by (auto simp: Unit_Allocate_def Unit_GetInvocation_def new_inv_def nth_append unit_refs_ok_def split: option.splits if_splits)
    let ?s1 = "s\<lparr>m_units := AList.update n (u\<lparr>u_Invocation := Some ?r\<rparr>) (m_units s), m_heap := ?h'\<rparr>"
    have ids: "same_ids (m_heap s) ?h'" by (rule same_ids_trans [OF same_ids_append [of _ "[new_inv ?i msg 0]"]]) simp
    have len: "length ?h' = Suc (length (m_heap s))" by (simp add: upd_inv_def)
    have new: "ID (?h' ! ?r) = ?i" by (simp add: upd_inv_def new_inv_def)
    have hn: "held_by ?s1 ?i n" using len new by (simp add: held_by_def map_of_AList_update)
    have "held_by ?s1 ?i m" if "held_by s ?i m" for m
      using hn held_by_ids [OF ids that] by (cases "m = n") (auto simp: held_by_def map_of_AList_update)
    moreover have "unit_refs_ok ?s1" using Cons.prems(3) len by (auto simp: unit_refs_ok_def map_of_AList_update less_Suc_eq)
    ultimately show ?thesis using hn u None ok Cons.prems(1,2)
      by (intro step [of ?s1]) (auto simp: Let_def map_of_AList_update)
  qed
qed simp

text \<open>C38: During the adoption period a refresh never fails for lack of resources: whoever names a known
  topology and an identifier gets every unit of it, also the units that another invocation holds. (The
  error \<^verbatim>\<open>ResourceExhausted\<close> is unreachable, since \<^verbatim>\<open>Unit.Allocate\<close> refuses only the same identifier.)\<close>

theorem am_Refresh_adopts_always:
  assumes "currentState s = stateStarting" "mgr_ok s" "unit_refs_ok s"
    and "map_of (m_topologies s) n = Some topo" "msg_id msg \<noteq> []"
  shows "\<exists>s'. am_Refresh now msg (Some n) s = Some (s', Inr (msg_id msg, now 0 + allocationRefreshDuration s))
    \<and> (\<forall>h \<in> set (t_Units topo). held_by s' (msg_id msg) h)"
proof -
  have "\<forall>h \<in> set (t_Units topo). map_of (m_units s) h \<noteq> None"
    using assms(2) map_of_SomeD [OF assms(4)] by (force simp: mgr_ok_def topologies_ok_def)
  from Refresh_loop_adopts [OF assms(1) this assms(3), of now msg "t_Name topo" 1]
  have "snd (Refresh_loop now msg (t_Name topo) (t_Units topo) 1 s) = None"
    "\<forall>h \<in> set (t_Units topo). held_by (fst (Refresh_loop now msg (t_Name topo) (t_Units topo) 1 s)) (msg_id msg) h" by auto
  then show ?thesis using assms(4,5) by (auto simp: am_Refresh_def split: prod.split) 
qed

definition held_mgr :: Manager where
  "held_mgr = demo_mgr\<lparr>m_units := [(''h'', demo_unit\<lparr>u_Invocation := Some 0\<rparr>)], InvocationQueue := []\<rparr>"

text \<open>The unit held by invocation a goes to invocation z.\<close>

theorem am_Refresh_adopts_always_witness:
  "held_by held_mgr ''a'' ''h'' \<and> (\<exists>s' r. am_Refresh (\<lambda>_. 5) (am_demo_msg ''z'') (Some ''t'') held_mgr = Some (s', Inr r)
    \<and> held_by s' ''z'' ''h'')"
proof -
  have "mgr_ok held_mgr" "unit_refs_ok held_mgr" "currentState held_mgr = stateStarting"
    by (simp_all add: mgr_ok_def held_mgr_def demo_mgr_def topologies_ok_def queue_refs_ok_def unit_refs_ok_def)
  moreover have "held_by held_mgr ''a'' ''h''" by (simp add: held_by_def held_mgr_def demo_mgr_def demo_req_def)
  ultimately show ?thesis
    using am_Refresh_adopts_always [of held_mgr "''t''" "\<lparr>t_Name = ''t'', t_Units = [''h'']\<rparr>" "am_demo_msg ''z''" "\<lambda>_. 5"]
    by (auto simp: held_mgr_def demo_mgr_def am_demo_msg_def)
qed

lemma Unit_Forget_eq: "Unit_Forget h i u = (if Unit_GetInvocation h i u \<noteq> None then (u\<lparr>u_Invocation := None\<rparr>, 1) else (u, 0))"
  by (auto simp: Unit_Forget_def Unit_GetInvocation_def split: option.splits)

text \<open>\<^verbatim>\<open>Release\<close> frees exactly the units that hold the invocation and succeeds iff there is one; the
  queue stays as it is, so a queued invocation cannot be withdrawn.\<close>

theorem am_Release_exact:
  assumes "i \<noteq> []" "am_Release i s = (s', r)"
  shows "InvocationQueue s' = InvocationQueue s
    \<and> (r = Inr () \<longleftrightarrow> (\<exists>(n, u) \<in> set (m_units s). Unit_GetInvocation (m_heap s) i u \<noteq> None))
    \<and> m_units s' = map (\<lambda>(n, u). (n, if Unit_GetInvocation (m_heap s) i u \<noteq> None then u\<lparr>u_Invocation := None\<rparr> else u)) (m_units s)"
proof -
  have "sum_list (map (\<lambda>(n, u). snd (Unit_Forget (m_heap s) i u)) us) = 0
    \<longleftrightarrow> (\<forall>(n, u) \<in> set us. Unit_GetInvocation (m_heap s) i u = None)" for us :: units
    by (induction us) (auto simp: Unit_Forget_eq split: if_splits)
  moreover have "map (\<lambda>(n, u). (n, fst (Unit_Forget (m_heap s) i u))) us
    = map (\<lambda>(n, u). (n, if Unit_GetInvocation (m_heap s) i u \<noteq> None then u\<lparr>u_Invocation := None\<rparr> else u)) us" for us :: units
    by (auto simp: Unit_Forget_eq)
  ultimately show ?thesis using assms by (auto simp: am_Release_def Let_def split: if_splits)
qed

theorem am_Release_exact_witness: "snd (am_Release ''a'' demo_mgr) \<noteq> Inr () \<and> InvocationQueue (fst (am_Release ''a'' demo_mgr)) = [0, 1]"
  using am_Release_exact [of "''a''" demo_mgr "fst (am_Release ''a'' demo_mgr)" "snd (am_Release ''a'' demo_mgr)"]
  by (simp add: demo_mgr_def demo_unit_def Unit_GetInvocation_def)

text \<open>An invocation for a topology none of whose hosts is in the inventory is taken off the queue and
  forgotten; the next poll is answered with \<^verbatim>\<open>FailedPrecondition\<close>.\<close>

definition empty_topology_mgr :: Manager where
  "empty_topology_mgr = demo_mgr\<lparr>currentState := stateRunning, InvocationQueue := [],
     m_topologies := map (\<lambda>t. (t_Name t, t)) (TopologiesFromConfigAndUnits [(''t'', [''gone''])] (m_units demo_mgr))\<rparr>"

lemma empty_topology_loses_invocation:
  "snd (am_Allocate (\<lambda>_. 5) (Some ''c'') (am_demo_msg []) empty_topology_mgr) = Inl (FailedPrecondition ''c'')"
  by code_simp

text \<open>\<^verbatim>\<open>Enqueue\<close> returns the index from 0, not from 1 as its comment says: the first in line is told 0.\<close>

lemma Enqueue_zero_based: "snd (snd (am_Enqueue 0 [demo_req ''a''] [])) = 0"
  by (simp add: am_Enqueue_def Let_def)

end
