(* ===== verification/Proxy_Utils.thy ===== *)
theory Proxy_Utils imports Prelude begin

text \<open>
  The helpers of \<^verbatim>\<open>proxy/utils\<close>: counters, atomic times, the verdicts of a filter and how verdicts
  are merged, and the pattern lists that decide which destinations a tunnel may reach.
\<close>

section \<open>Counter and AtomicTime\<close>

type_synonym Counter = u64

definition Counter_Increment :: "Counter \<Rightarrow> Counter" where
  "Counter_Increment c = c + 1"

definition Counter_Add :: "u64 \<Rightarrow> Counter \<Rightarrow> Counter" where
  "Counter_Add v c = c + v"

text \<open>
  The compare-and-swap loop of \<^verbatim>\<open>SetIfGreatest\<close>. The argument \<open>others\<close> holds the values other goroutines
  store between a load and its compare-and-swap, one per failed attempt.
\<close>

fun Counter_SetIfGreatest :: "u64 \<Rightarrow> Counter list \<Rightarrow> Counter \<Rightarrow> Counter" where
  "Counter_SetIfGreatest v [] current = (if v \<le> current then current else v)"
| "Counter_SetIfGreatest v (o1 # others) current =
    (if v \<le> current then current
     else if o1 = current then v else Counter_SetIfGreatest v others o1)"

lemma Counter_SetIfGreatest_alone: "Counter_SetIfGreatest v [] c = max v c"
  by (simp add: max_def)

lemma Counter_SetIfGreatest_ge: "v \<le> Counter_SetIfGreatest v others c"
  by (induction v others c rule: Counter_SetIfGreatest.induct) auto

text \<open>
  \<^verbatim>\<open>AtomicTime\<close> holds Unix nanoseconds in an \<^verbatim>\<open>int64\<close>; 0 is "not set".
\<close>

type_synonym AtomicTime = time

definition AtomicTime_Set :: "time \<Rightarrow> AtomicTime \<Rightarrow> AtomicTime" where
  "AtomicTime_Set t at = t"

definition AtomicTime_Reset :: "AtomicTime \<Rightarrow> AtomicTime" where
  "AtomicTime_Reset at = 0"

section \<open>Verdicts\<close>

datatype Verdict = VerdictUnknown | VerdictAllow | VerdictDrop

definition MergeOnlyAcceptAllow :: "Verdict \<Rightarrow> Verdict \<Rightarrow> Verdict" where
  "MergeOnlyAcceptAllow v vv =
    (case vv of VerdictDrop \<Rightarrow> VerdictDrop | VerdictUnknown \<Rightarrow> v
     | VerdictAllow \<Rightarrow> if v = VerdictUnknown then VerdictAllow else v)"

text \<open>The constants are numbered in this order, and merging is the maximum in it.\<close>

fun verdict_num :: "Verdict \<Rightarrow> nat" where
  "verdict_num VerdictUnknown = 0" | "verdict_num VerdictAllow = 1" | "verdict_num VerdictDrop = 2"

lemma verdict_num_inj: "verdict_num a = verdict_num b \<Longrightarrow> a = b"
  by (cases a; cases b) auto

instantiation Verdict :: linorder
begin

definition less_eq_Verdict :: "Verdict \<Rightarrow> Verdict \<Rightarrow> bool" where
  "less_eq_Verdict a b \<longleftrightarrow> verdict_num a \<le> verdict_num b"

definition less_Verdict :: "Verdict \<Rightarrow> Verdict \<Rightarrow> bool" where
  "less_Verdict a b \<longleftrightarrow> verdict_num a < verdict_num b"

instance
  by standard (auto simp: less_eq_Verdict_def less_Verdict_def intro: verdict_num_inj)

end

lemma Merge_is_max: "MergeOnlyAcceptAllow v vv = max v vv"
  by (cases v; cases vv) (simp_all add: MergeOnlyAcceptAllow_def max_def less_eq_Verdict_def)

lemma VerdictUnknown_least [simp]: "VerdictUnknown \<le> v"
  by (simp add: less_eq_Verdict_def)

lemma foldl_max_verdict:
  "foldl max v vs = (if v = VerdictDrop \<or> VerdictDrop \<in> set vs then VerdictDrop
     else if v = VerdictAllow \<or> VerdictAllow \<in> set vs then VerdictAllow else VerdictUnknown)"
proof (induction vs arbitrary: v)
  case Nil
  then show ?case by (cases v) auto
next
  case (Cons a vs)
  have "max v a = MergeOnlyAcceptAllow v a" by (simp add: Merge_is_max)
  then show ?case by (cases v; cases a) (simp_all add: Cons MergeOnlyAcceptAllow_def)
qed

section \<open>Pattern lists\<close>

text \<open>
  \<^verbatim>\<open>filepath.Match\<close>, as far as its documentation fixes it: a pattern is a sequence of \<^verbatim>\<open>*\<close> (any run of
  characters other than a slash), \<^verbatim>\<open>?\<close> (one such character), bracketed classes, characters, and
  characters escaped by a backslash; a malformed pattern is an error whatever the name is.
  Characters are bytes.
\<close>

datatype pat = Star | Quest | Class bool "(char \<times> char) list" | Lit char

fun parse_char :: "string \<Rightarrow> (char \<times> string) option" where
  "parse_char [] = None"
| "parse_char (c # cs) =
    (if c = CHR ''-'' \<or> c = CHR '']'' then None
     else if c = CHR 0x5C then (case cs of [] \<Rightarrow> None | d # ds \<Rightarrow> if ds = [] then None else Some (d, ds))
     else if cs = [] then None else Some (c, cs))"

lemma parse_char_shorter: "parse_char cs = Some (c, ds) \<Longrightarrow> length ds < length cs"
  by (cases cs) (auto split: if_splits list.splits)

function parse_ranges :: "bool \<Rightarrow> string \<Rightarrow> ((char \<times> char) list \<times> string) option" where
  "parse_ranges some cs =
    (case cs of
       [] \<Rightarrow> None
     | c # rest \<Rightarrow>
       if c = CHR '']'' \<and> some then Some ([], rest)
       else (case parse_char cs of None \<Rightarrow> None
         | Some (lo, ds) \<Rightarrow>
           if hd ds = CHR ''-''
           then (case parse_char (tl ds) of None \<Rightarrow> None
             | Some (hi, es) \<Rightarrow> map_option (\<lambda>(rs, fs). ((lo, hi) # rs, fs)) (parse_ranges True es))
           else map_option (\<lambda>(rs, fs). ((lo, lo) # rs, fs)) (parse_ranges True ds)))"
  by pat_completeness auto
termination
proof (relation "measure (\<lambda>(_, cs). length cs)", goal_cases)
  case (2 some cs c rest x lo ds y hi es)
  have "length ds < length cs" "length es < length (tl ds)"
    by (rule parse_char_shorter [of _ lo] parse_char_shorter [of _ hi], use 2 in \<open>simp del: parse_char.simps\<close>)+
  then show ?case by simp
next
  case (3 some cs c rest x lo ds)
  have "length ds < length cs"
    by (rule parse_char_shorter [of _ lo], use 3 in \<open>simp del: parse_char.simps\<close>)
  then show ?case by simp
qed simp

declare parse_ranges.simps [simp del]

lemma parse_ranges_shorter: "parse_ranges some cs = Some r \<Longrightarrow> length (snd r) < length cs"
proof (induction some cs arbitrary: r rule: parse_ranges.induct)
  case (1 some cs)
  obtain c rest where cs: "cs = c # rest" using 1(3) by (cases cs) (auto simp: parse_ranges.simps)
  show ?case
  proof (cases "c = CHR '']'' \<and> some")
    case True
    then show ?thesis using 1(3) cs by (auto simp: parse_ranges.simps)
  next
    case False
    obtain lo ds where lo: "parse_char cs = Some (lo, ds)"
      using 1(3) cs False by (subst (asm) parse_ranges.simps) (auto simp del: parse_char.simps split: option.splits)
    note l = parse_char_shorter [OF lo]
    show ?thesis
    proof (cases "hd ds = CHR ''-''")
      case True
      obtain hi es where hi: "parse_char (tl ds) = Some (hi, es)"
        using 1(3) cs False lo True
        by (subst (asm) parse_ranges.simps) (auto simp del: parse_char.simps split: option.splits)
      obtain q where q: "parse_ranges True es = Some q" "snd r = snd q"
        using 1(3) cs False lo True hi
        by (subst (asm) parse_ranges.simps) (auto simp del: parse_char.simps)
      show ?thesis using 1(1) [OF cs _ lo refl True hi refl q(1)] False q l parse_char_shorter [OF hi] by simp
    next
      case nd: False
      obtain q where q: "parse_ranges True ds = Some q" "snd r = snd q"
        using 1(3) cs False lo nd
        by (subst (asm) parse_ranges.simps) (auto simp del: parse_char.simps)
      show ?thesis using 1(2) [OF cs _ lo refl nd q(1)] False q l by simp
    qed
  qed
qed

function parse_pattern :: "string \<Rightarrow> pat list option" where
  "parse_pattern cs =
    (case cs of
       [] \<Rightarrow> Some []
     | c # rest \<Rightarrow>
       if c = CHR ''*'' then map_option ((#) Star) (parse_pattern rest)
       else if c = CHR ''?'' then map_option ((#) Quest) (parse_pattern rest)
       else if c = CHR ''['' then
         (let neg = (rest \<noteq> [] \<and> hd rest = CHR ''^'') in
          case parse_ranges False (if neg then tl rest else rest) of None \<Rightarrow> None
          | Some (rs, ds) \<Rightarrow> map_option ((#) (Class neg rs)) (parse_pattern ds))
       else if c = CHR 0x5C then
         (case rest of [] \<Rightarrow> None | d # ds \<Rightarrow> map_option ((#) (Lit d)) (parse_pattern ds))
       else map_option ((#) (Lit c)) (parse_pattern rest))"
  by pat_completeness auto
termination
proof (relation "measure length", goal_cases)
  case (4 cs c rest neg x rs ds)
  have "length (snd (rs, ds)) < length (if neg then tl rest else rest)"
    using 4 by (intro parse_ranges_shorter) simp
  then show ?case using 4(1) by (simp split: if_splits)
qed auto

declare parse_pattern.simps [simp del]

fun match_class :: "(char \<times> char) list \<Rightarrow> char \<Rightarrow> bool" where
  "match_class rs c \<longleftrightarrow> list_ex (\<lambda>(lo, hi). lo \<le> c \<and> c \<le> hi) rs"

fun match_pats :: "pat list \<Rightarrow> string \<Rightarrow> bool" where
  "match_pats [] s \<longleftrightarrow> s = []"
| "match_pats (Star # ps) [] \<longleftrightarrow> match_pats ps []"
| "match_pats (Star # ps) (c # s) \<longleftrightarrow> match_pats ps (c # s) \<or> c \<noteq> CHR ''/'' \<and> match_pats (Star # ps) s"
| "match_pats (Quest # ps) s \<longleftrightarrow> s \<noteq> [] \<and> hd s \<noteq> CHR ''/'' \<and> match_pats ps (tl s)"
| "match_pats (Class neg rs # ps) s \<longleftrightarrow> s \<noteq> [] \<and> match_class rs (hd s) \<noteq> neg \<and> match_pats ps (tl s)"
| "match_pats (Lit c # ps) s \<longleftrightarrow> s \<noteq> [] \<and> hd s = c \<and> match_pats ps (tl s)"

definition filepath_Match :: "string \<Rightarrow> string \<Rightarrow> bool option" where
  "filepath_Match pattern name = map_option (\<lambda>ps. match_pats ps name) (parse_pattern pattern)"

type_synonym PatternList = "string list"

fun NewPatternList_loop :: "string list \<Rightarrow> string option" where
  "NewPatternList_loop [] = None"
| "NewPatternList_loop (p # ps) = (if filepath_Match p [] = None then Some p else NewPatternList_loop ps)"

definition NewPatternList :: "string list \<Rightarrow> string + PatternList" where
  "NewPatternList allowed =
    (case NewPatternList_loop allowed of Some p \<Rightarrow> Inl (''invalid pattern '' @ p @ '' in list'')
     | None \<Rightarrow> Inr allowed)"

fun Allow_loop :: "string \<Rightarrow> string list \<Rightarrow> Verdict" where
  "Allow_loop k [] = VerdictDrop"
| "Allow_loop k (p # ps) = (if filepath_Match p k = Some True then VerdictAllow else Allow_loop k ps)"

definition PatternList_Allow :: "PatternList \<Rightarrow> string \<Rightarrow> string \<Rightarrow> Verdict" where
  "PatternList_Allow pl proto ipport = Allow_loop (proto @ ''|'' @ ipport) pl"

lemma Allow_loop_alt:
  "Allow_loop k pl = (if \<exists>p \<in> set pl. filepath_Match p k = Some True then VerdictAllow else VerdictDrop)"
  by (induction pl) auto

lemma NewPatternList_loop_None: "NewPatternList_loop ps = None \<longleftrightarrow> (\<forall>p \<in> set ps. parse_pattern p \<noteq> None)"
  by (induction ps) (auto simp: filepath_Match_def)

text \<open>A star followed by literals: the shape of the patterns the comments of the code give.\<close>

lemma match_Star: "match_pats (Star # ps) s \<longleftrightarrow>
  (\<exists>a b. s = a @ b \<and> CHR ''/'' \<notin> set a \<and> match_pats ps b)"
proof (induction s)
  case (Cons c s)
  have "(\<exists>a b. c # s = a @ b \<and> CHR ''/'' \<notin> set a \<and> match_pats ps b) \<longleftrightarrow>
      match_pats ps (c # s) \<or> c \<noteq> CHR ''/'' \<and> (\<exists>a b. s = a @ b \<and> CHR ''/'' \<notin> set a \<and> match_pats ps b)"
    (is "?L \<longleftrightarrow> ?R")
  proof
    assume ?L
    then obtain a b where ab: "c # s = a @ b" "CHR ''/'' \<notin> set a" "match_pats ps b" by blast
    show ?R
    proof (cases a)
      case (Cons d a')
      then have "s = a' @ b" "c \<noteq> CHR ''/''" "CHR ''/'' \<notin> set a'" using ab by auto
      then show ?R using ab(3) by blast
    qed (use ab in simp)
  next
    assume ?R
    then show ?L
    proof (elim disjE conjE exE)
      assume "match_pats ps (c # s)"
      then show ?L by (intro exI [of _ "[]"] exI [of _ "c # s"]) simp
    next
      fix a b
      assume "c \<noteq> CHR ''/''" "s = a @ b" "CHR ''/'' \<notin> set a" "match_pats ps b"
      then show ?L by (intro exI [of _ "c # a"] exI [of _ b]) simp
    qed
  qed
  then show ?case unfolding match_pats.simps Cons.IH by simp
qed simp

lemma match_Lits: "match_pats (map Lit xs) s \<longleftrightarrow> s = xs"
proof (induction xs arbitrary: s)
  case (Cons x xs)
  show ?case by (cases s) (simp_all add: Cons)
qed simp

definition plain_char :: "char \<Rightarrow> bool" where
  "plain_char c \<longleftrightarrow> c \<noteq> CHR ''*'' \<and> c \<noteq> CHR ''?'' \<and> c \<noteq> CHR ''['' \<and> c \<noteq> CHR 0x5C"

lemma parse_plain: "list_all plain_char xs \<Longrightarrow> parse_pattern xs = Some (map Lit xs)"
proof (induction xs)
  case (Cons c xs)
  then show ?case by (subst parse_pattern.simps) (simp add: plain_char_def)
qed (subst parse_pattern.simps, simp)

lemma parse_Star_plain: "list_all plain_char xs \<Longrightarrow> parse_pattern (CHR ''*'' # xs) = Some (Star # map Lit xs)"
  by (subst parse_pattern.simps) (simp add: parse_plain)

lemma Star_plain_Match: "list_all plain_char xs \<Longrightarrow>
  filepath_Match (CHR ''*'' # xs) k = Some True \<longleftrightarrow> (\<exists>before. k = before @ xs \<and> CHR ''/'' \<notin> set before)"
  by (simp add: filepath_Match_def parse_Star_plain match_Star match_Lits)

text \<open>
  Matching as the documentation has it: the name is cut into as many pieces as the pattern has terms,
  and every piece is one its term accepts.
\<close>

fun piece :: "pat \<Rightarrow> string \<Rightarrow> bool" where
  "piece Star a \<longleftrightarrow> CHR ''/'' \<notin> set a"
| "piece Quest a \<longleftrightarrow> (\<exists>c. a = [c] \<and> c \<noteq> CHR ''/'')"
| "piece (Class neg rs) a \<longleftrightarrow> (\<exists>c. a = [c] \<and> match_class rs c \<noteq> neg)"
| "piece (Lit c) a \<longleftrightarrow> a = [c]"

lemma match_one:
  assumes "\<And>a. piece p a \<longleftrightarrow> (\<exists>c. a = [c] \<and> P c)" "match_pats (p # ps) s \<longleftrightarrow> s \<noteq> [] \<and> P (hd s) \<and> match_pats ps (tl s)"
  shows "match_pats (p # ps) s \<longleftrightarrow> (\<exists>a b. s = a @ b \<and> piece p a \<and> match_pats ps b)"
proof (cases s)
  case Nil
  then show ?thesis using assms by simp
next
  case (Cons c s')
  have "P c \<Longrightarrow> match_pats ps s' \<Longrightarrow> \<exists>a b. c # s' = a @ b \<and> piece p a \<and> match_pats ps b"
    by (rule exI [of _ "[c]"]) (simp add: assms(1))
  moreover have "match_pats (p # ps) (c # s') \<longleftrightarrow> P c \<and> match_pats ps s'" using assms(2) Cons by simp
  moreover have "(\<exists>a b. c # s' = a @ b \<and> piece p a \<and> match_pats ps b) \<Longrightarrow> P c \<and> match_pats ps s'" by (auto simp: assms(1))
  ultimately show ?thesis unfolding Cons by blast
qed

lemma match_Cons: "match_pats (p # ps) s \<longleftrightarrow> (\<exists>a b. s = a @ b \<and> piece p a \<and> match_pats ps b)"
proof (cases p)
  case Star
  then show ?thesis using match_Star [of ps s] by simp
next
  case Quest
  show ?thesis by (rule match_one [where P = "\<lambda>c. c \<noteq> CHR ''/''"]) (auto simp: Quest)
next
  case (Class neg rs)
  show ?thesis by (rule match_one [where P = "\<lambda>c. match_class rs c \<noteq> neg"]) (auto simp: Class)
next
  case (Lit c)
  show ?thesis by (rule match_one [where P = "\<lambda>x. x = c"]) (auto simp: Lit)
qed

lemma match_pieces: "match_pats ps s \<longleftrightarrow> (\<exists>parts. s = concat parts \<and> list_all2 piece ps parts)"
proof (induction ps arbitrary: s)
  case (Cons p ps)
  show ?case unfolding match_Cons Cons.IH list_all2_Cons1 by (metis concat.simps(2))
qed simp

text \<open>C39: The verdict of a pattern list on proto|host:port is "allow" if some pattern of the list, wherever it stands, is well-formed
  and its terms match the pieces of a division of that key, and "drop" otherwise. \<^verbatim>\<open>NewPatternList\<close> accepts
  exactly the lists without a malformed pattern. In particular a list of patterns "*<suffix>" (such as
  "*:22") lets exactly the keys through that end with one of the suffixes, with no slash before it.\<close>

theorem PatternList_Allow_exact:
  "(NewPatternList ps = Inr pl \<longleftrightarrow> ps = pl \<and> (\<forall>p \<in> set ps. parse_pattern p \<noteq> None))
    \<and> PatternList_Allow pl proto ipport =
        (if \<exists>p \<in> set pl. \<exists>pats parts. parse_pattern p = Some pats \<and> proto @ ''|'' @ ipport = concat parts \<and> list_all2 piece pats parts
         then VerdictAllow else VerdictDrop)
    \<and> (list_all (list_all plain_char) suffixes \<longrightarrow>
        (PatternList_Allow (map ((#) (CHR ''*'')) suffixes) proto ipport = VerdictAllow \<longleftrightarrow>
          (\<exists>suffix \<in> set suffixes. \<exists>before. proto @ ''|'' @ ipport = before @ suffix \<and> CHR ''/'' \<notin> set before)))"
proof (intro conjI impI)
  show "NewPatternList ps = Inr pl \<longleftrightarrow> ps = pl \<and> (\<forall>p \<in> set ps. parse_pattern p \<noteq> None)"
    unfolding NewPatternList_loop_None [symmetric] by (simp add: NewPatternList_def split: option.splits)
  have "filepath_Match p k = Some True \<longleftrightarrow> (\<exists>pats parts. parse_pattern p = Some pats \<and> k = concat parts \<and> list_all2 piece pats parts)" for p k
    by (simp add: filepath_Match_def match_pieces)
  then show "PatternList_Allow pl proto ipport =
        (if \<exists>p \<in> set pl. \<exists>pats parts. parse_pattern p = Some pats \<and> proto @ ''|'' @ ipport = concat parts \<and> list_all2 piece pats parts
         then VerdictAllow else VerdictDrop)"
    by (simp only: PatternList_Allow_def Allow_loop_alt)
  assume "list_all (list_all plain_char) suffixes"
  then have "filepath_Match (CHR ''*'' # suffix) k = Some True \<longleftrightarrow> (\<exists>before. k = before @ suffix \<and> CHR ''/'' \<notin> set before)"
    if "suffix \<in> set suffixes" for suffix k
    using Star_plain_Match that by (simp add: list_all_iff)
  then show "PatternList_Allow (map ((#) (CHR ''*'')) suffixes) proto ipport = VerdictAllow \<longleftrightarrow>
      (\<exists>suffix \<in> set suffixes. \<exists>before. proto @ ''|'' @ ipport = before @ suffix \<and> CHR ''/'' \<notin> set before)"
    by (simp add: PatternList_Allow_def Allow_loop_alt)
qed

theorem PatternList_Allow_exact_witness:
  "PatternList_Allow [''*:22'', ''*:443''] ''tcp'' ''10.0.0.1:443'' = VerdictAllow
    \<and> PatternList_Allow [''*:22'', ''*:443''] ''tcp'' ''10.0.0.1:444'' = VerdictDrop"
proof -
  have plain: "list_all (list_all plain_char) ['':22'', '':443'']" by (simp add: plain_char_def)
  note exact = PatternList_Allow_exact [of "[]" "[''*:22'', ''*:443'']" "''tcp''" _ "['':22'', '':443'']"]
  have k: "PatternList_Allow [''*:22'', ''*:443''] ''tcp'' ip = VerdictAllow \<longleftrightarrow>
      (\<exists>suffix \<in> set ['':22'', '':443'']. \<exists>before. ''tcp'' @ ''|'' @ ip = before @ suffix \<and> CHR ''/'' \<notin> set before)" for ip
    using exact [of ip, THEN conjunct2, THEN conjunct2, THEN mp, OF plain] unfolding list.map .
  have "PatternList_Allow [''*:22'', ''*:443''] ''tcp'' ''10.0.0.1:443'' = VerdictAllow"
    unfolding k by (intro bexI [of _ "'':443''"] exI [of _ "''tcp|10.0.0.1''"]) simp_all
  moreover have "PatternList_Allow [''*:22'', ''*:443''] ''tcp'' ''10.0.0.1:444'' \<noteq> VerdictAllow"
  proof
    assume "PatternList_Allow [''*:22'', ''*:443''] ''tcp'' ''10.0.0.1:444'' = VerdictAllow"
    then obtain b where "''tcp|10.0.0.1:444'' = b @ '':22'' \<or> ''tcp|10.0.0.1:444'' = b @ '':443''" unfolding k by auto
    then have "rev ''tcp|10.0.0.1:444'' = rev (b @ '':22'') \<or> rev ''tcp|10.0.0.1:444'' = rev (b @ '':443'')" by (auto simp del: rev_append rev.simps)
    then show False by simp
  qed
  moreover have "PatternList_Allow [''*:22'', ''*:443''] ''tcp'' ''10.0.0.1:444'' \<in> {VerdictAllow, VerdictDrop}"
    unfolding exact [THEN conjunct2, THEN conjunct1] by simp
  ultimately show ?thesis by blast
qed

end
