(* ===== verification/Browser.thy ===== *)
theory Browser imports Proxy_Utils begin

text \<open>
  \<^verbatim>\<open>ReplaceableBrowser\<close> of \<^verbatim>\<open>proxy/nasshp/browser.go\<close>: the one browser connection of a session, which
  can be lost and replaced at any time, and the channels on which the http handler of each
  connection waits to learn its fate.

  The channels are kept in a heap beside the record, since a handler keeps a reference to the channel
  it was given after the record has forgotten it. Every channel has capacity 1. An operation is
  \<^const>\<open>None\<close> where the code blocks for ever: a send on a full or nil channel while holding the lock.
\<close>

section \<open>The state\<close>

type_synonym conn = nat  \<comment> \<open>a \<^verbatim>\<open>*websocket.Conn\<close>, by its address\<close>
type_synonym gerror = string
type_synonym chan_id = nat

datatype notice = Replaced | Terminating "gerror option" | Failed gerror

record BrowserWindowCounters =
  BrowserWindowReset :: Counter
  BrowserWindowResumed :: Counter
  BrowserWindowStarted :: Counter
  BrowserWindowOrphaned :: Counter
  BrowserWindowStopped :: Counter
  BrowserWindowReplaced :: Counter
  BrowserWindowClosed :: Counter

record ReplaceableBrowser =
  rb_notifier :: "chan_id option"
  rb_counters :: BrowserWindowCounters
  rb_started :: AtomicTime
  rb_paused :: AtomicTime
  rb_wc :: "conn option"
  rb_err :: "gerror option"
  rb_readUntil :: u32
  rb_writtenUntil :: u32
  rb_pendingWack :: u32
  rb_pendingRack :: u32

text \<open>The part of the world the operations touch: the channels made so far, and the connections closed.\<close>

record world =
  w_chans :: "notice list list"
  w_closed :: "conn list"

type_synonym bstate = "ReplaceableBrowser \<times> world"

definition no_counters :: BrowserWindowCounters where
  "no_counters = \<lparr>BrowserWindowReset = 0, BrowserWindowResumed = 0, BrowserWindowStarted = 0,
     BrowserWindowOrphaned = 0, BrowserWindowStopped = 0, BrowserWindowReplaced = 0, BrowserWindowClosed = 0\<rparr>"

definition NewReplaceableBrowser :: ReplaceableBrowser where
  "NewReplaceableBrowser = \<lparr>rb_notifier = None, rb_counters = no_counters, rb_started = 0, rb_paused = 0,
     rb_wc = None, rb_err = None, rb_readUntil = 0, rb_writtenUntil = 0, rb_pendingWack = 0, rb_pendingRack = 0\<rparr>"

section \<open>Channels\<close>

definition make_chan :: "world \<Rightarrow> world \<times> chan_id" where
  "make_chan w = (w\<lparr>w_chans := w_chans w @ [[]]\<rparr>, length (w_chans w))"

definition send :: "chan_id option \<Rightarrow> notice \<Rightarrow> world \<Rightarrow> world option" where
  "send ch n w =
    (case ch of None \<Rightarrow> None
     | Some i \<Rightarrow> if i < length (w_chans w) \<and> w_chans w ! i = []
         then Some (w\<lparr>w_chans := (w_chans w)[i := [n]]\<rparr>) else None)"

definition conn_Close :: "conn option \<Rightarrow> world \<Rightarrow> world option" where
  "conn_Close c w = map_option (\<lambda>c. w\<lparr>w_closed := w_closed w @ [c]\<rparr>) c"

text \<open>
  \<^verbatim>\<open>waiter.Wait\<close>: takes the message of the channel. \<^const>\<open>None\<close>: it goes on waiting.
\<close>

definition waiter_Wait :: "chan_id option \<Rightarrow> world \<Rightarrow> (notice \<times> world) option" where
  "waiter_Wait ch w =
    (case ch of None \<Rightarrow> None
     | Some i \<Rightarrow> if i < length (w_chans w) \<and> w_chans w ! i \<noteq> []
         then Some (hd (w_chans w ! i), w\<lparr>w_chans := (w_chans w)[i := tl (w_chans w ! i)]\<rparr>) else None)"

section \<open>Operations\<close>

definition ReplaceableBrowser_Set ::
  "time \<Rightarrow> conn option \<Rightarrow> u32 \<Rightarrow> u32 \<Rightarrow> bstate \<Rightarrow> (bstate \<times> chan_id option) option" where
  "ReplaceableBrowser_Set now wc rack wack s =
    (let (gb, w) = s in
     if rb_wc gb = wc then Some (s, rb_notifier gb)
     else do {
       (gb, w) \<leftarrow> (if rb_wc gb \<noteq> None
         then do {
           w \<leftarrow> send (rb_notifier gb) Replaced w;
           w \<leftarrow> conn_Close (rb_wc gb) w;
           Some (gb\<lparr>rb_counters := (rb_counters gb)\<lparr>BrowserWindowReplaced :=
               Counter_Increment (BrowserWindowReplaced (rb_counters gb))\<rparr>\<rparr>, w)
         } else Some (gb, w));
       let gb = gb\<lparr>rb_wc := wc\<rparr>;
       if wc = None
       then Some ((gb\<lparr>rb_counters := (rb_counters gb)\<lparr>BrowserWindowReset :=
             Counter_Increment (BrowserWindowReset (rb_counters gb))\<rparr>,
           rb_notifier := None, rb_pendingRack := 0, rb_pendingWack := 0\<rparr>, w), None)
       else let gb = (if rack = 0 \<and> wack = 0
           then gb\<lparr>rb_counters := (rb_counters gb)\<lparr>BrowserWindowStarted :=
               Counter_Increment (BrowserWindowStarted (rb_counters gb))\<rparr>,
             rb_started := AtomicTime_Set now (rb_started gb)\<rparr>
           else gb\<lparr>rb_counters := (rb_counters gb)\<lparr>BrowserWindowResumed :=
               Counter_Increment (BrowserWindowResumed (rb_counters gb))\<rparr>,
             rb_paused := AtomicTime_Reset (rb_paused gb)\<rparr>);
           (w, ch) = make_chan w
         in Some ((gb\<lparr>rb_pendingRack := rack, rb_pendingWack := wack, rb_notifier := Some ch\<rparr>, w), Some ch)
     })"

definition ReplaceableBrowser_Close :: "gerror option \<Rightarrow> bstate \<Rightarrow> bstate option" where
  "ReplaceableBrowser_Close err s =
    (let (gb, w) = s; gb = gb\<lparr>rb_err := err\<rparr> in
     do {
       (gb, w) \<leftarrow> (if rb_notifier gb \<noteq> None
         then do {
           w \<leftarrow> send (rb_notifier gb) (Terminating err) w;
           Some (gb\<lparr>rb_counters := (rb_counters gb)\<lparr>BrowserWindowStopped :=
               Counter_Increment (BrowserWindowStopped (rb_counters gb))\<rparr>, rb_notifier := None\<rparr>, w)
         } else Some (gb, w));
       (if rb_wc gb \<noteq> None
        then do {
          w \<leftarrow> conn_Close (rb_wc gb) w;
          Some (gb\<lparr>rb_counters := (rb_counters gb)\<lparr>BrowserWindowClosed :=
               Counter_Increment (BrowserWindowClosed (rb_counters gb))\<rparr>, rb_wc := None\<rparr>, w)
        } else Some (gb, w))
     })"

definition ReplaceableBrowser_Error :: "time \<Rightarrow> conn option \<Rightarrow> gerror \<Rightarrow> bstate \<Rightarrow> bstate option" where
  "ReplaceableBrowser_Error now wc err s =
    (let (gb, w) = s in
     if rb_wc gb = None \<or> rb_wc gb \<noteq> wc then Some s
     else let gb = gb\<lparr>rb_paused := AtomicTime_Set now (rb_paused gb),
           rb_counters := (rb_counters gb)\<lparr>BrowserWindowOrphaned :=
             Counter_Increment (BrowserWindowOrphaned (rb_counters gb))\<rparr>\<rparr>
       in do {
         w \<leftarrow> send (rb_notifier gb) (Failed err) w;
         w \<leftarrow> conn_Close (rb_wc gb) w;
         Some (gb\<lparr>rb_wc := None, rb_notifier := None\<rparr>, w)
       })"

text \<open>
  The operations that wait on the condition variable: \<^const>\<open>None\<close> while there is neither a connection
  nor an error.
\<close>

definition GetWack :: "ReplaceableBrowser \<Rightarrow> (ReplaceableBrowser \<times> conn option \<times> u32 \<times> u32 \<times> gerror option) option" where
  "GetWack gb =
    (if rb_wc gb = None \<and> rb_err gb = None then None
     else let wack = rb_pendingWack gb; gb = gb\<lparr>rb_pendingWack := 0\<rparr>
       in Some (gb, rb_wc gb, rb_pendingRack gb, wack, rb_err gb))"

definition GetRack :: "ReplaceableBrowser \<Rightarrow> (ReplaceableBrowser \<times> conn option \<times> u32 \<times> u32 \<times> gerror option) option" where
  "GetRack gb =
    (if rb_wc gb = None \<and> rb_err gb = None then None
     else let rack = rb_pendingRack gb; gb = gb\<lparr>rb_pendingRack := 0\<rparr>
       in Some (gb, rb_wc gb, rack, rb_pendingWack gb, rb_err gb))"

definition Browser_Get :: "ReplaceableBrowser \<Rightarrow> (conn option \<times> gerror option) option" where
  "Browser_Get gb = (if rb_wc gb = None \<and> rb_err gb = None then None else Some (rb_wc gb, rb_err gb))"

definition GetWriteReadUntil :: "ReplaceableBrowser \<Rightarrow> u32 \<times> u32" where
  "GetWriteReadUntil gb = (rb_writtenUntil gb, rb_readUntil gb)"

definition GetForReceive :: "ReplaceableBrowser \<Rightarrow> (conn option \<times> u32 \<times> gerror option) option" where
  "GetForReceive gb = map_option (\<lambda>(wc, err). (wc, rb_readUntil gb, err)) (Browser_Get gb)"

definition GetForSend :: "ReplaceableBrowser \<Rightarrow> (conn option \<times> u32 \<times> u32 \<times> gerror option) option" where
  "GetForSend gb = map_option (\<lambda>(wc, err). (wc, rb_writtenUntil gb, rb_readUntil gb, err)) (Browser_Get gb)"

definition PushReadUntil :: "u32 \<Rightarrow> ReplaceableBrowser \<Rightarrow> ReplaceableBrowser" where
  "PushReadUntil ru gb = gb\<lparr>rb_readUntil := ru\<rparr>"

definition PushWrittenUntil :: "u32 \<Rightarrow> ReplaceableBrowser \<Rightarrow> ReplaceableBrowser" where
  "PushWrittenUntil wu gb = gb\<lparr>rb_writtenUntil := wu\<rparr>"

section \<open>The invariant of the waiters\<close>

text \<open>
  A history runs operations in any order, and lets any holder of a channel wait on it. \<open>got\<close> collects
  the messages received, with the channel.
\<close>

datatype browser_op =
    Set_op time "conn option" u32 u32
  | Close_op "gerror option"
  | Error_op time "conn option" gerror
  | Wait_op chan_id
  | Wack_op
  | Rack_op

fun browser_step :: "browser_op \<Rightarrow> bstate \<times> (chan_id \<times> notice) list \<Rightarrow> (bstate \<times> (chan_id \<times> notice) list) option" where
  "browser_step (Set_op now wc rack wack) (s, got) =
    map_option (\<lambda>(s, ch). (s, got)) (ReplaceableBrowser_Set now wc rack wack s)"
| "browser_step (Close_op err) (s, got) = map_option (\<lambda>s. (s, got)) (ReplaceableBrowser_Close err s)"
| "browser_step (Error_op now wc err) (s, got) = map_option (\<lambda>s. (s, got)) (ReplaceableBrowser_Error now wc err s)"
| "browser_step (Wait_op i) ((gb, w), got) =
    (case waiter_Wait (Some i) w of None \<Rightarrow> Some ((gb, w), got)
     | Some (n, w) \<Rightarrow> Some ((gb, w), got @ [(i, n)]))"
| "browser_step Wack_op ((gb, w), got) =
    (case GetWack gb of None \<Rightarrow> Some ((gb, w), got) | Some (gb, _) \<Rightarrow> Some ((gb, w), got))"
| "browser_step Rack_op ((gb, w), got) =
    (case GetRack gb of None \<Rightarrow> Some ((gb, w), got) | Some (gb, _) \<Rightarrow> Some ((gb, w), got))"

fun browser_run :: "browser_op list \<Rightarrow> bstate \<times> (chan_id \<times> notice) list \<Rightarrow> (bstate \<times> (chan_id \<times> notice) list) option" where
  "browser_run [] sg = Some sg"
| "browser_run (op # ops) sg = do { sg \<leftarrow> browser_step op sg; browser_run ops sg }"

definition browser_start :: "bstate \<times> (chan_id \<times> notice) list" where
  "browser_start = ((NewReplaceableBrowser, \<lparr>w_chans = [], w_closed = []\<rparr>), [])"

definition sent_to :: "chan_id \<Rightarrow> world \<Rightarrow> (chan_id \<times> notice) list \<Rightarrow> nat" where
  "sent_to i w got = length (w_chans w ! i) + length [g \<leftarrow> got. fst g = i]"

text \<open>
  There is a notifier exactly when there is a connection; the channel of the current connection has
  had no message, every earlier channel exactly one.
\<close>

definition browser_inv :: "bstate \<times> (chan_id \<times> notice) list \<Rightarrow> bool" where
  "browser_inv = (\<lambda>((gb, w), got). (rb_wc gb = None \<longleftrightarrow> rb_notifier gb = None)
    \<and> (\<forall>i. rb_notifier gb = Some i \<longrightarrow> i < length (w_chans w))
    \<and> (\<forall>g \<in> set got. fst g < length (w_chans w))
    \<and> (\<forall>i < length (w_chans w). sent_to i w got = (if rb_notifier gb = Some i then 0 else 1)))"

lemma sent_to_sent: "i < length (w_chans w) \<Longrightarrow> w_chans w ! i = [] \<Longrightarrow>
  sent_to j (w\<lparr>w_chans := (w_chans w)[i := [n]]\<rparr>) got = sent_to j w got + (if j = i then 1 else 0)"
  by (simp add: sent_to_def nth_list_update)

lemma send_current:
  assumes "browser_inv ((gb, w), got)" "rb_notifier gb = Some i"
  shows "send (rb_notifier gb) n w = Some (w\<lparr>w_chans := (w_chans w)[i := [n]]\<rparr>)"
    "i < length (w_chans w)" "w_chans w ! i = []"
  using assms by (auto simp: browser_inv_def send_def sent_to_def)

text \<open>After the message to the current waiter the connection may be dropped.\<close>

lemma browser_inv_dropped:
  assumes inv: "browser_inv ((gb, w), got)" and i: "rb_notifier gb = Some i"
    and w': "w_chans w' = (w_chans w)[i := [n]]" and gb': "rb_notifier gb' = None" "rb_wc gb' = None"
  shows "browser_inv ((gb', w'), got)"
proof -
  note k = send_current [OF inv i]
  have "sent_to j w' got = sent_to j w got + (if j = i then 1 else 0)" for j
    using sent_to_sent [OF k(2,3)] w' by (simp add: sent_to_def)
  then show ?thesis using inv i w' gb' by (auto simp: browser_inv_def)
qed

lemma browser_inv_fresh:
  assumes inv: "browser_inv ((gb, w), got)" and "rb_notifier gb = None"
    and w': "w_chans w' = w_chans w @ [[]]" and gb': "rb_notifier gb' = Some (length (w_chans w))" "rb_wc gb' \<noteq> None"
  shows "browser_inv ((gb', w'), got)"
proof -
  have "[g \<leftarrow> got. fst g = length (w_chans w)] = []"
    using inv by (auto simp: browser_inv_def filter_empty_conv)
  moreover have "sent_to i w' got = sent_to i w got" if "i < length (w_chans w)" for i
    using that w' by (simp add: sent_to_def nth_append)
  ultimately show ?thesis using assms by (auto simp: browser_inv_def sent_to_def less_Suc_eq)
qed

lemma browser_inv_same:
  assumes "browser_inv ((gb, w), got)" "w_chans w' = w_chans w" "rb_notifier gb' = rb_notifier gb" "rb_wc gb' = rb_wc gb"
  shows "browser_inv ((gb', w'), got)"
  using assms by (simp add: browser_inv_def sent_to_def)

lemma Close_ok:
  assumes inv: "browser_inv ((gb, w), got)"
  shows "\<exists>gb' w'. ReplaceableBrowser_Close err (gb, w) = Some (gb', w') \<and> browser_inv ((gb', w'), got)
    \<and> rb_wc gb' = None \<and> rb_err gb' = err \<and> rb_paused gb' = rb_paused gb"
proof (cases "rb_notifier gb")
  case None
  then have "rb_wc gb = None" using inv by (simp add: browser_inv_def)
  then show ?thesis using None inv
    by (simp add: ReplaceableBrowser_Close_def browser_inv_def sent_to_def)
next
  case (Some i)
  then obtain c where c: "rb_wc gb = Some c" using inv by (auto simp: browser_inv_def)
  note k = send_current [OF inv Some]
  show ?thesis
    using browser_inv_dropped [OF inv Some, where n = "Terminating err"] k c Some
    by (auto simp: ReplaceableBrowser_Close_def conn_Close_def)
qed

lemma Error_ok:
  assumes inv: "browser_inv ((gb, w), got)"
  shows "\<exists>gb' w'. ReplaceableBrowser_Error now wc err (gb, w) = Some (gb', w') \<and> browser_inv ((gb', w'), got)
    \<and> rb_err gb' = rb_err gb \<and> (if rb_wc gb = None \<or> rb_wc gb \<noteq> wc then gb' = gb
         else rb_wc gb' = None \<and> rb_paused gb' = now)"
proof (cases "rb_wc gb = None \<or> rb_wc gb \<noteq> wc")
  case True
  then show ?thesis using inv by (auto simp: ReplaceableBrowser_Error_def)
next
  case False
  then obtain i where i: "rb_notifier gb = Some i" using inv by (auto simp: browser_inv_def)
  obtain c where c: "rb_wc gb = Some c" "wc = Some c" using False by auto
  note k = send_current [OF inv i]
  show ?thesis
    using browser_inv_dropped [OF inv i, where n = "Failed err"] k c i
    by (auto simp: ReplaceableBrowser_Error_def conn_Close_def AtomicTime_Set_def)
qed

lemma Set_ok:
  assumes inv: "browser_inv ((gb, w), got)"
  shows "\<exists>gb' w' ch. ReplaceableBrowser_Set now wc rack wack (gb, w) = Some ((gb', w'), ch)
    \<and> browser_inv ((gb', w'), got) \<and> rb_wc gb' = wc \<and> ch = rb_notifier gb' \<and> rb_err gb' = rb_err gb
    \<and> rb_paused gb' = (if wc = rb_wc gb \<or> wc = None \<or> rack = 0 \<and> wack = 0 then rb_paused gb else 0)"
proof (cases "rb_wc gb = wc")
  case True
  then show ?thesis using inv by (simp add: ReplaceableBrowser_Set_def)
next
  case False
  define gb0 where "gb0 = gb\<lparr>rb_wc := None, rb_notifier := None\<rparr>"
  obtain w0 where w0: "browser_inv ((gb0, w0), got)"
    "(if rb_wc gb \<noteq> None
      then do { w \<leftarrow> send (rb_notifier gb) Replaced w; w \<leftarrow> conn_Close (rb_wc gb) w;
        Some (gb\<lparr>rb_counters := (rb_counters gb)\<lparr>BrowserWindowReplaced :=
               Counter_Increment (BrowserWindowReplaced (rb_counters gb))\<rparr>\<rparr>, w) }
      else Some (gb, w)) =
     Some (if rb_wc gb \<noteq> None then gb\<lparr>rb_counters := (rb_counters gb)\<lparr>BrowserWindowReplaced :=
               Counter_Increment (BrowserWindowReplaced (rb_counters gb))\<rparr>\<rparr> else gb, w0)"
  proof (cases "rb_notifier gb")
    case None
    then have "rb_wc gb = None" using inv by (simp add: browser_inv_def)
    then show ?thesis using that inv None by (simp add: gb0_def browser_inv_def sent_to_def)
  next
    case (Some i)
    then obtain c where c: "rb_wc gb = Some c" using inv by (auto simp: browser_inv_def)
    note k = send_current [OF inv Some]
    show ?thesis
      by (rule that, rule browser_inv_dropped [OF inv Some, where n = Replaced])
        (use k c in \<open>simp_all add: conn_Close_def gb0_def\<close>)
  qed
  show ?thesis
  proof (cases wc)
    case None
    then show ?thesis using w0 False browser_inv_same [OF w0(1)]
      by (auto simp: ReplaceableBrowser_Set_def gb0_def)
  next
    case (Some c)
    then show ?thesis using w0 False browser_inv_fresh [OF w0(1)]
      by (auto simp: ReplaceableBrowser_Set_def Let_def make_chan_def gb0_def AtomicTime_Reset_def)
  qed
qed

lemma Wait_ok:
  assumes inv: "browser_inv ((gb, w), got)" and run: "waiter_Wait (Some i) w = Some (n, w')"
  shows "browser_inv ((gb, w'), got @ [(i, n)])"
proof -
  have i: "i < length (w_chans w)" "w_chans w ! i \<noteq> []"
    "w' = w\<lparr>w_chans := (w_chans w)[i := tl (w_chans w ! i)]\<rparr>"
    using run by (auto simp: waiter_Wait_def split: if_splits)
  have "sent_to j w' (got @ [(i, n)]) = sent_to j w got" for j
  proof (cases "j = i")
    case True
    have "0 < length (w_chans w ! i)" using i by simp
    then show ?thesis using True i by (simp add: sent_to_def)
  qed (use i in \<open>simp add: sent_to_def nth_list_update\<close>)
  then show ?thesis using inv i by (auto simp: browser_inv_def)
qed

lemma browser_step_ok: "browser_inv sg \<Longrightarrow> \<exists>sg'. browser_step op sg = Some sg' \<and> browser_inv sg'"
proof (cases sg; cases "fst sg")
  fix s got gb w
  assume inv: "browser_inv sg" and sg: "sg = (s, got)" "fst sg = (gb, w)"
  then have s: "sg = ((gb, w), got)" by simp
  note inv = inv [unfolded s]
  show ?thesis
  proof (cases op)
    case (Set_op now wc rack wack)
    then show ?thesis using Set_ok [OF inv, of now wc rack wack] s by auto
  next
    case (Close_op err)
    then show ?thesis using Close_ok [OF inv, of err] s by auto
  next
    case (Error_op now wc err)
    then show ?thesis using Error_ok [OF inv, of now wc err] s by auto
  next
    case (Wait_op i)
    then show ?thesis using Wait_ok [OF inv] s inv
      by (auto split: option.splits)
  next
    case Wack_op
    then show ?thesis using s inv browser_inv_same [OF inv]
      by (auto simp: GetWack_def Let_def)
  next
    case Rack_op
    then show ?thesis using s inv browser_inv_same [OF inv]
      by (auto simp: GetRack_def Let_def)
  qed
qed

lemma browser_run_ok: "browser_inv sg \<Longrightarrow> \<exists>sg'. browser_run ops sg = Some sg' \<and> browser_inv sg'"
proof (induction ops arbitrary: sg)
  case (Cons op ops)
  then show ?case using browser_step_ok [OF Cons(2), of op] by fastforce
qed auto

lemma browser_inv_start: "browser_inv browser_start"
  by (simp add: browser_inv_def browser_start_def NewReplaceableBrowser_def)

section \<open>Properties\<close>

text \<open>C11: No sequence of connections, replacements, errors and closings ever blocks with the lock held,
  and each waiter is woken exactly once: the channel of the current connection has had no message,
  every channel of an earlier connection exactly one, received or still waiting to be.\<close>

theorem browser_wakes_each_waiter_once:
  "\<exists>gb w got. browser_run ops browser_start = Some ((gb, w), got)
    \<and> (rb_wc gb = None \<longleftrightarrow> rb_notifier gb = None)
    \<and> list_all (\<lambda>i. sent_to i w got = (if rb_notifier gb = Some i then 0 else 1)) [0..<length (w_chans w)]"
  using browser_run_ok [OF browser_inv_start, of ops] by (auto simp: browser_inv_def list_all_iff)

text \<open>A request to resume is acted on once: after \<^verbatim>\<open>Set\<close> with a new connection, the first
  \<^verbatim>\<open>GetRack\<close> and the first \<^verbatim>\<open>GetWack\<close> return the positions the browser asked for, in either order,
  and from then on both positions are zero until the next \<^verbatim>\<open>Set\<close>.\<close>

theorem resume_positions_taken_once:
  assumes "ReplaceableBrowser_Set now (Some c) rack wack (gb, w) = Some ((gb1, w1), ch)" "rb_wc gb \<noteq> Some c"
  shows "\<exists>gb2 gb3 wack2. GetRack gb1 = Some (gb2, Some c, rack, wack, rb_err gb)
    \<and> GetWack gb2 = Some (gb3, Some c, 0, wack, rb_err gb)
    \<and> GetRack gb3 = Some (gb3, Some c, 0, 0, rb_err gb) \<and> GetWack gb3 = Some (gb3, Some c, 0, 0, rb_err gb)
    \<and> GetWack gb1 = Some (gb1\<lparr>rb_pendingWack := 0\<rparr>, Some c, rack, wack, rb_err gb)"
proof -
  have "rb_wc gb1 = Some c \<and> rb_pendingRack gb1 = rack \<and> rb_pendingWack gb1 = wack \<and> rb_err gb1 = rb_err gb"
  proof (cases "rb_wc gb")
    case None
    then show ?thesis using assms by (auto simp: ReplaceableBrowser_Set_def Let_def make_chan_def)
  next
    case (Some y)
    then obtain w2 where "send (rb_notifier gb) Replaced w = Some w2"
      using assms by (cases "send (rb_notifier gb) Replaced w") (auto simp: ReplaceableBrowser_Set_def)
    then show ?thesis using assms Some
      by (auto simp: ReplaceableBrowser_Set_def Let_def make_chan_def conn_Close_def)
  qed
  then show ?thesis by (simp add: GetRack_def GetWack_def Let_def)
qed

theorem resume_positions_taken_once_witness:
  "\<exists>gb1 w1 ch. ReplaceableBrowser_Set 5 (Some 7) 3 4 (fst browser_start) = Some ((gb1, w1), ch)
    \<and> GetWack gb1 = Some (gb1\<lparr>rb_pendingWack := 0\<rparr>, Some 7, 3, 4, None)"
proof -
  obtain gb1 w1 ch where r: "ReplaceableBrowser_Set 5 (Some 7) 3 4 (NewReplaceableBrowser, \<lparr>w_chans = [], w_closed = []\<rparr>)
      = Some ((gb1, w1), ch)"
    using Set_ok [OF browser_inv_start [unfolded browser_start_def]] by blast
  have "rb_wc NewReplaceableBrowser \<noteq> Some 7" "rb_err NewReplaceableBrowser = None"
    by (simp_all add: NewReplaceableBrowser_def)
  then have "GetWack gb1 = Some (gb1\<lparr>rb_pendingWack := 0\<rparr>, Some 7, 3, 4, None)"
    using resume_positions_taken_once [OF r] by auto
  then show ?thesis using r by (auto simp: browser_start_def)
qed

text \<open>A session closed for good still accepts a new connection, whose handler then waits.\<close>

lemma Set_after_Close:
  assumes "browser_inv ((gb, w), got)" "ReplaceableBrowser_Close (Some e) (gb, w) = Some (gb1, w1)"
    "ReplaceableBrowser_Set now (Some c) rack wack (gb1, w1) = Some ((gb2, w2), ch)"
  shows "rb_wc gb2 = Some c \<and> rb_err gb2 = Some e \<and> ch \<noteq> None \<and> waiter_Wait ch w2 = None"
proof -
  have 1: "browser_inv ((gb1, w1), got)" "rb_err gb1 = Some e" using Close_ok [OF assms(1), of "Some e"] assms(2) by auto
  have 2: "browser_inv ((gb2, w2), got)" "rb_wc gb2 = Some c" "ch = rb_notifier gb2" "rb_err gb2 = rb_err gb1"
    using Set_ok [OF 1(1), of now "Some c" rack wack] assms(3) by auto
  then obtain i where i: "ch = Some i" by (auto simp: browser_inv_def)
  then have "w_chans w2 ! i = []" using send_current [OF 2(1), of i] 2(3) by simp
  then show ?thesis using i 1 2 by (simp add: waiter_Wait_def)
qed

text \<open>
  A session whose browser comes back with both positions zero (nothing was acknowledged before the
  connection was lost) has a live connection and is still marked as paused.
\<close>

lemma resume_at_zero_stays_paused:
  assumes "browser_inv ((gb, w), got)" "rb_wc gb = Some c" "0 < now"
    "ReplaceableBrowser_Error now (Some c) e (gb, w) = Some (gb1, w1)"
    "ReplaceableBrowser_Set later (Some d) 0 0 (gb1, w1) = Some ((gb2, w2), ch)"
  shows "rb_wc gb2 = Some d \<and> rb_paused gb2 = now \<and> 0 < rb_paused gb2"
proof -
  have 1: "browser_inv ((gb1, w1), got)" "rb_wc gb1 = None" "rb_paused gb1 = now"
    using Error_ok [OF assms(1), of now "Some c" e] assms by auto
  show ?thesis using Set_ok [OF 1(1), of later "Some d" 0 0] assms(3,5) 1 by auto
qed

end
