(* ===== verification/Blocking.thy ===== *)
theory Blocking imports Send_Window Receive_Window Browser begin

text \<open>
  \<^verbatim>\<open>proxy/nasshp/blocking.go\<close>: windows that one goroutine fills and another one empties. A \<^verbatim>\<open>Waiter\<close> is
  a channel with room for one token and an error. Every method runs under the window's lock, so it is
  one step; a method that waits is a step that ends in \<open>Returns\<close> or \<open>Sleeps\<close>, and a step that wakes the
  sleeper when the token is there.
\<close>

section \<open>Waiter\<close>

record Waiter =
  wt_c :: bool
  wt_e :: "gerror option"

definition NewWaiter :: Waiter where
  "NewWaiter = \<lparr>wt_c = False, wt_e = None\<rparr>"

definition Waiter_Signal :: "Waiter \<Rightarrow> Waiter" where
  "Waiter_Signal w = w\<lparr>wt_c := True\<rparr>"

definition Waiter_Fail :: "gerror option \<Rightarrow> Waiter \<Rightarrow> Waiter" where
  "Waiter_Fail err w = Waiter_Signal (w\<lparr>wt_e := err\<rparr>)"

datatype wait_outcome = Returns "gerror option" | Sleeps

definition ErrorExpired :: gerror where
  "ErrorExpired = ''timer expired''"

text \<open>
  The loop \<^verbatim>\<open>for !ready { if err := w.Wait(); err != nil { return err } }\<close>: up to the point where the
  goroutine sleeps, and from the point where it has received the token (which it took).
\<close>

definition Wait_enter :: "bool \<Rightarrow> Waiter \<Rightarrow> wait_outcome" where
  "Wait_enter ready w = (if ready then Returns None else if wt_e w \<noteq> None then Returns (wt_e w) else Sleeps)"

definition Wait_wake :: "bool \<Rightarrow> Waiter \<Rightarrow> wait_outcome" where
  "Wait_wake ready w = (if wt_e w \<noteq> None then Returns (wt_e w) else Wait_enter ready w)"

text \<open>The same loop around \<^verbatim>\<open>WaitFor\<close>, which does not look at the error before it sleeps.\<close>

definition WaitFor_enter :: "bool \<Rightarrow> wait_outcome" where
  "WaitFor_enter ready = (if ready then Returns None else Sleeps)"

definition WaitFor_wake :: "bool \<Rightarrow> Waiter \<Rightarrow> wait_outcome" where
  "WaitFor_wake ready w = (if wt_e w \<noteq> None then Returns (wt_e w) else WaitFor_enter ready)"

definition WaitFor_timeout :: wait_outcome where
  "WaitFor_timeout = Returns (Some ErrorExpired)"

section \<open>BlockingReceiveWindow\<close>

record BlockingReceiveWindow =
  br_w :: ReceiveWindow
  br_max :: u64
  br_cf :: Waiter
  br_ce :: Waiter

definition NewBlockingReceiveWindow :: "u64 \<Rightarrow> BlockingReceiveWindow" where
  "NewBlockingReceiveWindow mx = \<lparr>br_w = NewReceiveWindow, br_max = mx, br_cf = NewWaiter, br_ce = NewWaiter\<rparr>"

definition br_room :: "BlockingReceiveWindow \<Rightarrow> bool" where
  "br_room b \<longleftrightarrow> rw_Filled (br_w b) - rw_Emptied (br_w b) < br_max b"

definition br_WaitToFill :: "BlockingReceiveWindow \<Rightarrow> wait_outcome" where
  "br_WaitToFill b = Wait_enter (br_room b) (br_cf b)"

definition br_WaitToFill_wake :: "BlockingReceiveWindow \<Rightarrow> BlockingReceiveWindow \<times> wait_outcome" where
  "br_WaitToFill_wake b =
    (let b = b\<lparr>br_cf := (br_cf b)\<lparr>wt_c := False\<rparr>\<rparr> in (b, Wait_wake (br_room b) (br_cf b)))"

text \<open>\<^verbatim>\<open>WaitToEmpty\<close> calls \<^verbatim>\<open>ToEmpty\<close>, which may drop a buffer.\<close>

definition br_WaitToEmpty :: "BlockingReceiveWindow \<Rightarrow> BlockingReceiveWindow \<times> wait_outcome" where
  "br_WaitToEmpty b =
    (let (w, data) = ReceiveWindow_ToEmpty (br_w b) in (b\<lparr>br_w := w\<rparr>, Wait_enter (data \<noteq> []) (br_ce b)))"

definition br_WaitToEmpty_wake :: "BlockingReceiveWindow \<Rightarrow> BlockingReceiveWindow \<times> wait_outcome" where
  "br_WaitToEmpty_wake b =
    (let b = b\<lparr>br_ce := (br_ce b)\<lparr>wt_c := False\<rparr>\<rparr> in
     if wt_e (br_ce b) \<noteq> None then (b, Returns (wt_e (br_ce b))) else br_WaitToEmpty b)"

definition br_ToFill :: "buffer \<Rightarrow> BlockingReceiveWindow \<Rightarrow> BlockingReceiveWindow \<times> nat" where
  "br_ToFill fresh b = (let (w, n) = ReceiveWindow_ToFill fresh (br_w b) in (b\<lparr>br_w := w\<rparr>, n))"

definition br_Fill :: "nat \<Rightarrow> BlockingReceiveWindow \<Rightarrow> (BlockingReceiveWindow \<times> u64) option" where
  "br_Fill amount b =
    map_option (\<lambda>(w, filled). (b\<lparr>br_w := w, br_ce := Waiter_Signal (br_ce b)\<rparr>, filled)) (ReceiveWindow_Fill amount (br_w b))"

definition br_Reset :: "buffer \<Rightarrow> u32 \<Rightarrow> BlockingReceiveWindow \<Rightarrow> BlockingReceiveWindow \<times> reset_error option" where
  "br_Reset fresh wu b = (let (w, err) = ReceiveWindow_Reset fresh wu (br_w b) in (b\<lparr>br_w := w\<rparr>, err))"

definition br_ToEmpty :: "BlockingReceiveWindow \<Rightarrow> BlockingReceiveWindow \<times> bytes" where
  "br_ToEmpty b = (let (w, data) = ReceiveWindow_ToEmpty (br_w b) in (b\<lparr>br_w := w\<rparr>, data))"

definition br_Empty :: "nat \<Rightarrow> BlockingReceiveWindow \<Rightarrow> BlockingReceiveWindow" where
  "br_Empty amount b = b\<lparr>br_w := ReceiveWindow_Empty amount (br_w b), br_cf := Waiter_Signal (br_cf b)\<rparr>"

text \<open>\<^verbatim>\<open>Fail\<close> takes the lock twice: the emptier's waiter fails first.\<close>

definition br_Fail_ce :: "gerror option \<Rightarrow> BlockingReceiveWindow \<Rightarrow> BlockingReceiveWindow" where
  "br_Fail_ce err b = b\<lparr>br_ce := Waiter_Fail err (br_ce b)\<rparr>"

definition br_Fail :: "gerror option \<Rightarrow> BlockingReceiveWindow \<Rightarrow> BlockingReceiveWindow" where
  "br_Fail err b = (let b = br_Fail_ce err b in b\<lparr>br_cf := Waiter_Fail err (br_cf b)\<rparr>)"

section \<open>BlockingSendWindow\<close>

record BlockingSendWindow =
  bs_w :: SendWindow
  bs_max :: u64
  bs_cf :: Waiter
  bs_ce :: Waiter

definition NewBlockingSendWindow :: "u64 \<Rightarrow> BlockingSendWindow" where
  "NewBlockingSendWindow mx = \<lparr>bs_w = NewSendWindow, bs_max = mx, bs_cf = NewWaiter, bs_ce = NewWaiter\<rparr>"

definition bs_room :: "BlockingSendWindow \<Rightarrow> bool" where
  "bs_room b \<longleftrightarrow> sw_Filled (bs_w b) - sw_acknowledged (bs_w b) < bs_max b"

definition bs_ToFill :: "buffer \<Rightarrow> BlockingSendWindow \<Rightarrow> BlockingSendWindow \<times> nat" where
  "bs_ToFill fresh b = (let (w, n) = SendWindow_ToFill fresh (bs_w b) in (b\<lparr>bs_w := w\<rparr>, n))"

definition bs_Fill :: "nat \<Rightarrow> BlockingSendWindow \<Rightarrow> (BlockingSendWindow \<times> u64) option" where
  "bs_Fill amount b =
    map_option (\<lambda>(w, filled). (b\<lparr>bs_w := w, bs_ce := Waiter_Signal (bs_ce b)\<rparr>, filled)) (SendWindow_Fill amount (bs_w b))"

definition bs_Reset :: "u32 \<Rightarrow> BlockingSendWindow \<Rightarrow> BlockingSendWindow \<times> ack_error option" where
  "bs_Reset wu b =
    (let (w, err) = SendWindow_Reset wu (bs_w b) in (b\<lparr>bs_ce := Waiter_Signal (bs_ce b), bs_w := w\<rparr>, err))"

definition bs_AcknowledgeUntil :: "u32 \<Rightarrow> BlockingSendWindow \<Rightarrow> BlockingSendWindow \<times> u64 \<times> ack_error option" where
  "bs_AcknowledgeUntil wu b =
    (let (w, v, err) = SendWindow_AcknowledgeUntil wu (bs_w b)
     in (b\<lparr>bs_w := w, bs_cf := Waiter_Signal (bs_cf b)\<rparr>, v, err))"

definition bs_WaitToFill :: "BlockingSendWindow \<Rightarrow> wait_outcome" where
  "bs_WaitToFill b = Wait_enter (bs_room b) (bs_cf b)"

definition bs_WaitToFill_wake :: "BlockingSendWindow \<Rightarrow> BlockingSendWindow \<times> wait_outcome" where
  "bs_WaitToFill_wake b =
    (let b = b\<lparr>bs_cf := (bs_cf b)\<lparr>wt_c := False\<rparr>\<rparr> in (b, Wait_wake (bs_room b) (bs_cf b)))"

definition bs_WaitToEmpty :: "BlockingSendWindow \<Rightarrow> BlockingSendWindow \<times> wait_outcome" where
  "bs_WaitToEmpty b =
    (let (w, data) = SendWindow_ToEmpty (bs_w b) in (b\<lparr>bs_w := w\<rparr>, WaitFor_enter (data \<noteq> [])))"

definition bs_WaitToEmpty_wake :: "BlockingSendWindow \<Rightarrow> BlockingSendWindow \<times> wait_outcome" where
  "bs_WaitToEmpty_wake b =
    (let b = b\<lparr>bs_ce := (bs_ce b)\<lparr>wt_c := False\<rparr>\<rparr> in
     if wt_e (bs_ce b) \<noteq> None then (b, Returns (wt_e (bs_ce b))) else bs_WaitToEmpty b)"

definition bs_ToEmpty :: "BlockingSendWindow \<Rightarrow> BlockingSendWindow \<times> bytes" where
  "bs_ToEmpty b = (let (w, data) = SendWindow_ToEmpty (bs_w b) in (b\<lparr>bs_w := w\<rparr>, data))"

definition bs_Empty :: "nat \<Rightarrow> BlockingSendWindow \<Rightarrow> BlockingSendWindow" where
  "bs_Empty amount b = b\<lparr>bs_w := SendWindow_Empty amount (bs_w b), bs_cf := Waiter_Signal (bs_cf b)\<rparr>"

definition bs_Fail :: "gerror option \<Rightarrow> BlockingSendWindow \<Rightarrow> BlockingSendWindow" where
  "bs_Fail err b = (let b = b\<lparr>bs_ce := Waiter_Fail err (bs_ce b)\<rparr> in b\<lparr>bs_cf := Waiter_Fail err (bs_cf b)\<rparr>)"

section \<open>The contract of a waiter\<close>

text \<open>
  A goroutine sleeps because of \<open>unmet\<close>. The other one runs operations \<open>act\<close>. The contract: an
  operation that makes the reason to sleep go away leaves the token, and no operation takes it.
\<close>

fun acts :: "('op \<Rightarrow> 's \<Rightarrow> 's option) \<Rightarrow> 'op list \<Rightarrow> 's \<Rightarrow> 's option" where
  "acts act [] s = Some s"
| "acts act (f # fs) s = (case act f s of None \<Rightarrow> None | Some s' \<Rightarrow> acts act fs s')"

locale sleeper =
  fixes waiter :: "'s \<Rightarrow> Waiter" and unmet :: "'s \<Rightarrow> bool" and act :: "'op \<Rightarrow> 's \<Rightarrow> 's option"
  assumes token_stays: "\<lbrakk>act f s = Some s'; wt_c (waiter s)\<rbrakk> \<Longrightarrow> wt_c (waiter s')"
    and signals: "\<lbrakk>act f s = Some s'; unmet s\<rbrakk> \<Longrightarrow> unmet s' \<or> wt_c (waiter s')"
begin

lemma asleep_acts: "\<lbrakk>acts act fs s = Some s'; wt_c (waiter s) \<or> unmet s\<rbrakk> \<Longrightarrow> wt_c (waiter s') \<or> unmet s'"
proof (induction fs arbitrary: s)
  case (Cons f fs)
  then obtain s1 where s1: "act f s = Some s1" "acts act fs s1 = Some s'" by (auto split: option.splits)
  then have "wt_c (waiter s1) \<or> unmet s1" using Cons(3) token_stays [OF s1(1)] signals [OF s1(1)] by auto
  then show ?case using Cons s1 by blast
qed simp

lemma no_lost_wakeup: "\<lbrakk>unmet s; acts act fs s = Some s'\<rbrakk> \<Longrightarrow> unmet s' \<or> wt_c (waiter s')"
  using asleep_acts by blast

end

subsection \<open>The two goroutines of each window\<close>

text \<open>
  What the emptier does while the filler sleeps, and the other way round. The comments give \<^verbatim>\<open>Reset\<close> of
  the receive window to the emptier, \<^verbatim>\<open>proxy/ptunnel\<close> calls it from the filler: both are here. The filler writes the bytes
  \<open>xs\<close> into the free space between \<^verbatim>\<open>ToFill\<close> and \<^verbatim>\<open>Fill\<close>; the pool hands out empty buffers of size \<open>sz\<close>.
\<close>

datatype emptier_op = EReset u32 | EAck u32 | EToEmpty | EEmpty nat | EFail "gerror option" | EWait | EWake
datatype filler_op = FReset u32 | FToFill | FFill bytes | FFail "gerror option" | FWake

fun br_emptier :: "nat \<Rightarrow> emptier_op \<Rightarrow> BlockingReceiveWindow \<Rightarrow> BlockingReceiveWindow option" where
  "br_emptier sz (EReset wu) b = Some (fst (br_Reset (empty_buffer sz) wu b))"
| "br_emptier sz (EAck wu) b = None"
| "br_emptier sz EToEmpty b = Some (fst (br_ToEmpty b))"
| "br_emptier sz (EEmpty n) b = Some (br_Empty n b)"
| "br_emptier sz (EFail err) b = Some (br_Fail err b)"
| "br_emptier sz EWait b = Some (fst (br_WaitToEmpty b))"
| "br_emptier sz EWake b = Some (fst (br_WaitToEmpty_wake b))"

fun br_filler :: "nat \<Rightarrow> filler_op \<Rightarrow> BlockingReceiveWindow \<Rightarrow> BlockingReceiveWindow option" where
  "br_filler sz (FReset wu) b = Some (fst (br_Reset (empty_buffer sz) wu b))"
| "br_filler sz FToFill b = Some (fst (br_ToFill (empty_buffer sz) b))"
| "br_filler sz (FFill xs) b = map_option fst (br_Fill (length xs) (b\<lparr>br_w := rw_write xs (br_w b)\<rparr>))"
| "br_filler sz (FFail err) b = Some (br_Fail err b)"
| "br_filler sz FWake b = Some (fst (br_WaitToFill_wake b))"

fun bs_emptier :: "emptier_op \<Rightarrow> BlockingSendWindow \<Rightarrow> BlockingSendWindow option" where
  "bs_emptier (EReset wu) b = Some (fst (bs_Reset wu b))"
| "bs_emptier (EAck wu) b = Some (fst (bs_AcknowledgeUntil wu b))"
| "bs_emptier EToEmpty b = Some (fst (bs_ToEmpty b))"
| "bs_emptier (EEmpty n) b = Some (bs_Empty n b)"
| "bs_emptier (EFail err) b = Some (bs_Fail err b)"
| "bs_emptier EWait b = Some (fst (bs_WaitToEmpty b))"
| "bs_emptier EWake b = Some (fst (bs_WaitToEmpty_wake b))"

fun bs_filler :: "nat \<Rightarrow> filler_op \<Rightarrow> BlockingSendWindow \<Rightarrow> BlockingSendWindow option" where
  "bs_filler sz (FReset wu) b = None"
| "bs_filler sz FToFill b = Some (fst (bs_ToFill (empty_buffer sz) b))"
| "bs_filler sz (FFill xs) b = map_option fst (bs_Fill (length xs) (b\<lparr>bs_w := sw_write xs (bs_w b)\<rparr>))"
| "bs_filler sz (FFail err) b = Some (bs_Fail err b)"
| "bs_filler sz FWake b = Some (fst (bs_WaitToFill_wake b))"

text \<open>The reasons to sleep: no room for the filler, nothing to take for the emptier.\<close>

definition br_full :: "BlockingReceiveWindow \<Rightarrow> bool" where
  "br_full b \<longleftrightarrow> br_WaitToFill b = Sleeps"

definition br_dry :: "nat \<Rightarrow> BlockingReceiveWindow \<Rightarrow> bool" where
  "br_dry sz b \<longleftrightarrow> 0 < sz \<and> rw_shape sz (rw_reset (br_w b) \<noteq> 0) (rw_buffer (br_w b))
    \<and> snd (br_WaitToEmpty b) = Sleeps"

definition bs_full :: "BlockingSendWindow \<Rightarrow> bool" where
  "bs_full b \<longleftrightarrow> bs_WaitToFill b = Sleeps"

definition bs_dry :: "BlockingSendWindow \<Rightarrow> bool" where
  "bs_dry b \<longleftrightarrow> snd (bs_WaitToEmpty b) = Sleeps"

lemma Wait_enter_Sleeps: "Wait_enter ready w = Sleeps \<longleftrightarrow> \<not> ready \<and> wt_e w = None"
  by (simp add: Wait_enter_def)

lemmas br_defs = br_ToFill_def br_Fill_def br_Reset_def br_ToEmpty_def br_Empty_def br_Fail_def br_Fail_ce_def
  br_WaitToFill_def br_WaitToFill_wake_def br_WaitToEmpty_def br_WaitToEmpty_wake_def br_room_def
  Waiter_Signal_def Waiter_Fail_def

lemmas bs_defs = bs_ToFill_def bs_Fill_def bs_Reset_def bs_AcknowledgeUntil_def bs_ToEmpty_def bs_Empty_def bs_Fail_def
  bs_WaitToFill_def bs_WaitToFill_wake_def bs_WaitToEmpty_def bs_WaitToEmpty_wake_def bs_room_def
  Waiter_Signal_def Waiter_Fail_def

lemma rw_ToEmpty_counters:
  "rw_Filled (fst (ReceiveWindow_ToEmpty w)) = rw_Filled w" "rw_Emptied (fst (ReceiveWindow_ToEmpty w)) = rw_Emptied w"
  by (simp_all add: ReceiveWindow_ToEmpty_def Let_def)

lemma rw_Reset_counters:
  "rw_Filled (fst (ReceiveWindow_Reset fresh wu w)) = rw_Filled w" "rw_Emptied (fst (ReceiveWindow_Reset fresh wu w)) = rw_Emptied w"
  by (simp_all add: ReceiveWindow_Reset_def Let_def)

lemma rw_ToFill_dry:
  assumes sh: "rw_shape sz (rw_reset w \<noteq> 0) (rw_buffer w)" and sz: "0 < sz" and dry: "snd (ReceiveWindow_ToEmpty w) = []"
  shows "snd (ReceiveWindow_ToEmpty (fst (ReceiveWindow_ToFill (empty_buffer sz) w))) = []"
    "rw_shape sz (rw_reset w \<noteq> 0) (rw_buffer (fst (ReceiveWindow_ToFill (empty_buffer sz) w)))"
    "rw_reset (fst (ReceiveWindow_ToFill (empty_buffer sz) w)) = rw_reset w"
proof -
  obtain bs' n where run: "buffers_ToFill (empty_buffer sz) (rw_buffer w) = (bs', n)" by fastforce
  then have w': "fst (ReceiveWindow_ToFill (empty_buffer sz) w) = w\<lparr>rw_buffer := bs'\<rparr>"
    by (simp add: ReceiveWindow_ToFill_def)
  show "rw_shape sz (rw_reset w \<noteq> 0) (rw_buffer (fst (ReceiveWindow_ToFill (empty_buffer sz) w)))"
    "rw_reset (fst (ReceiveWindow_ToFill (empty_buffer sz) w)) = rw_reset w"
    using rw_shape_ToFill [OF sh sz empty_buffer_fresh run] w' by simp_all
  have e: "drop k (bdata (empty_buffer sz)) = []" for k by (simp add: empty_buffer_def bdata_def)
  from run empty_buffer_fresh sz show "snd (ReceiveWindow_ToEmpty (fst (ReceiveWindow_ToFill (empty_buffer sz) w))) = []"
  proof (cases rule: buffers_ToFill_cases)
    case (same ini l)
    then have "w\<lparr>rw_buffer := bs'\<rparr> = w" by simp
    then show ?thesis using dry w' by simp
  next
    case new
    have "blen (last_of (rw_buffer w)) = 0 \<Longrightarrow> rw_buffer w = []"
      using new sh sz by (cases "rw_buffer w" rule: rev_cases) (auto simp: rw_shape_def buffer_ok_def)
    then have "rw_reset w \<noteq> 0 \<Longrightarrow> rw_buffer w = []" using sh by (simp add: rw_shape_def)
    then show ?thesis using dry new w' e
      by (cases "rw_buffer w"; cases "tl (rw_buffer w)")
        (auto simp: ReceiveWindow_ToEmpty_def Let_def split: if_splits)
  qed
qed

lemma rw_Reset_dry:
  assumes sh: "rw_shape sz (rw_reset w \<noteq> 0) (rw_buffer w)" and sz: "0 < sz" and dry: "snd (ReceiveWindow_ToEmpty w) = []"
  shows "snd (ReceiveWindow_ToEmpty (fst (ReceiveWindow_Reset (empty_buffer sz) wu w))) = []"
    "rw_shape sz (rw_reset (fst (ReceiveWindow_Reset (empty_buffer sz) wu w)) \<noteq> 0)
      (rw_buffer (fst (ReceiveWindow_Reset (empty_buffer sz) wu w)))"
proof -
  define v where "v = ToAbsolute (rw_Emptied w) wu"
  define w' where "w' = fst (ReceiveWindow_Reset (empty_buffer sz) wu w)"
  have e: "bdata (empty_buffer sz) = []" "blen (empty_buffer sz) = 0" "offset (empty_buffer sz) = 0"
    "buffer_ok sz (empty_buffer sz)"
    using fresh_buffer_content [OF empty_buffer_fresh] by (auto simp: empty_buffer_def bdata_def)
  have lo: "offset (last_of (rw_buffer w)) \<le> blen (last_of (rw_buffer w))"
    using sh by (auto simp: rw_shape_def last_of_def buffer_ok_def no_buffer_def)
  consider "w' = w"
    | "blen (last_of (rw_buffer w)) = 0" "w' = w\<lparr>rw_reset := v\<rparr>"
    | "0 < blen (last_of (rw_buffer w))" "w' = w\<lparr>rw_buffer := rw_buffer w @ [empty_buffer sz], rw_reset := v\<rparr>"
    by (cases "v = rw_Filled w"; cases "rw_Filled w < v"; cases "0 < blen (last_of (rw_buffer w))")
      (simp_all add: w'_def v_def ReceiveWindow_Reset_def Let_def)
  then have "snd (ReceiveWindow_ToEmpty w') = [] \<and> rw_shape sz (rw_reset w' \<noteq> 0) (rw_buffer w')"
  proof cases
    case 1
    then show ?thesis using sh dry by simp
  next
    case 2
    have "rw_shape sz True (rw_buffer w)" using 2 lo sh by (auto simp: rw_shape_def)
    moreover have "snd (ReceiveWindow_ToEmpty w') = []"
    proof (cases "tl (rw_buffer w)")
      case Nil
      then have "unread (first_of (rw_buffer w)) = []"
        using 2 by (cases "rw_buffer w") (auto simp: unread_def bdata_def last_of_def)
      then show ?thesis using 2 Nil by (auto simp: ReceiveWindow_ToEmpty_def unread_def Let_def)
    next
      case (Cons c cs)
      then show ?thesis using 2 dry by (auto simp: ReceiveWindow_ToEmpty_def Let_def split: if_splits)
    qed
    ultimately show ?thesis using 2 by (simp add: rw_shape_def)
  next
    case 3
    then have r: "rw_reset w = 0" using sh by (auto simp: rw_shape_def)
    have "rw_shape sz True (rw_buffer w')" using 3 sh e by (auto simp: rw_shape_def)
    moreover have "snd (ReceiveWindow_ToEmpty w') = []" using 3 dry r e
      by (cases "rw_buffer w"; cases "tl (rw_buffer w)")
        (auto simp: ReceiveWindow_ToEmpty_def Let_def split: if_splits)
    ultimately show ?thesis by (simp add: rw_shape_def)
  qed
  then show "snd (ReceiveWindow_ToEmpty (fst (ReceiveWindow_Reset (empty_buffer sz) wu w))) = []"
    "rw_shape sz (rw_reset (fst (ReceiveWindow_Reset (empty_buffer sz) wu w)) \<noteq> 0)
      (rw_buffer (fst (ReceiveWindow_Reset (empty_buffer sz) wu w)))"
    by (simp_all add: w'_def)
qed

interpretation br_fill: sleeper br_cf br_full "br_emptier sz" for sz
proof
  fix f s s'
  assume run: "br_emptier sz f s = Some s'"
  show "wt_c (br_cf s')" if "wt_c (br_cf s)"
    using run that by (cases f) (auto simp: br_defs Let_def split: prod.splits if_splits)
  show "br_full s' \<or> wt_c (br_cf s')" if "br_full s"
  proof (cases f)
    case (EReset wu)
    then show ?thesis using run that rw_Reset_counters [of "empty_buffer sz" wu "br_w s"]
      by (auto simp: br_full_def br_defs Wait_enter_Sleeps split: prod.splits)
  next
    case EToEmpty
    then show ?thesis using run that rw_ToEmpty_counters [of "br_w s"]
      by (auto simp: br_full_def br_defs Wait_enter_Sleeps split: prod.splits)
  next
    case EWait
    then show ?thesis using run that rw_ToEmpty_counters [of "br_w s"]
      by (auto simp: br_full_def br_defs Wait_enter_Sleeps split: prod.splits)
  next
    case EWake
    then show ?thesis using run that rw_ToEmpty_counters [of "br_w s"]
      by (auto simp: br_full_def br_defs Let_def Wait_enter_Sleeps split: prod.splits if_splits)
  qed (use run in \<open>auto simp: br_defs\<close>)
qed

interpretation br_empty: sleeper br_ce "br_dry sz" "br_filler sz" for sz
proof
  fix f s s'
  assume run: "br_filler sz f s = Some s'"
  show "wt_c (br_ce s')" if "wt_c (br_ce s)"
    using run that by (cases f) (auto simp: br_defs Let_def split: prod.splits if_splits)
  show "br_dry sz s' \<or> wt_c (br_ce s')" if "br_dry sz s"
  proof (cases f)
    case (FReset wu)
    then show ?thesis using run that rw_Reset_dry [of sz "br_w s" wu]
      by (auto simp: br_dry_def br_defs Wait_enter_Sleeps split: prod.splits)
  next
    case FToFill
    then show ?thesis using run that rw_ToFill_dry [of sz "br_w s"]
      by (auto simp: br_dry_def br_defs Wait_enter_Sleeps split: prod.splits)
  next
    case FWake
    then show ?thesis using run that by (auto simp: br_dry_def br_defs Let_def split: prod.splits)
  qed (use run in \<open>auto simp: br_defs\<close>)
qed

subsection \<open>The send window\<close>

text \<open>
  For the send window the contract holds as long as the emptier does not acknowledge data with a reset:
  a reset to the position acknowledged last is harmless.
\<close>

fun bs_emptier_steady :: "emptier_op \<Rightarrow> BlockingSendWindow \<Rightarrow> BlockingSendWindow option" where
  "bs_emptier_steady op b = (case op of
     EReset wu \<Rightarrow> let b' = fst (bs_Reset wu b) in
       if sw_acknowledged (bs_w b') = sw_acknowledged (bs_w b) then Some b' else None
   | _ \<Rightarrow> bs_emptier op b)"

lemma sw_Reset_Filled: "sw_Filled (fst (SendWindow_Reset wu w)) = sw_Filled w"
  by (auto simp: SendWindow_Reset_def SendWindow_Acknowledge_def Let_def split: prod.split option.split)

lemma sw_ToEmpty_counters:
  "sw_Filled (fst (SendWindow_ToEmpty w)) = sw_Filled w" "sw_acknowledged (fst (SendWindow_ToEmpty w)) = sw_acknowledged w"
  by (simp_all add: SendWindow_ToEmpty_def Let_def)

lemma sw_ToFill_dry:
  assumes "snd (SendWindow_ToEmpty w) = []"
  shows "snd (SendWindow_ToEmpty (fst (SendWindow_ToFill (empty_buffer sz) w))) = []"
proof -
  have e: "bdata (empty_buffer sz) = []" by (simp add: empty_buffer_def bdata_def)
  show ?thesis
  proof (cases "blen (last_of (sw_buffer w)) < bcap (last_of (sw_buffer w))")
    case True
    then have "fst (SendWindow_ToFill (empty_buffer sz) w) = w"
      by (simp add: SendWindow_ToFill_def buffers_ToFill_def Let_def)
    then show ?thesis using assms by simp
  next
    case False
    then have "fst (SendWindow_ToFill (empty_buffer sz) w) = w\<lparr>sw_buffer := sw_buffer w @ [empty_buffer sz]\<rparr>"
      by (simp add: SendWindow_ToFill_def buffers_ToFill_def Let_def)
    then show ?thesis using assms e
      by (cases "sw_buffer w"; cases "tl (sw_buffer w)") (auto simp: SendWindow_ToEmpty_def Let_def split: if_splits)
  qed
qed

interpretation bs_fill: sleeper bs_cf bs_full bs_emptier_steady
proof
  fix f s s'
  assume run: "bs_emptier_steady f s = Some s'"
  show "wt_c (bs_cf s')" if "wt_c (bs_cf s)"
    using run that by (cases f) (auto simp: bs_defs Let_def split: prod.splits if_splits)
  show "bs_full s' \<or> wt_c (bs_cf s')" if "bs_full s"
  proof (cases f)
    case (EReset wu)
    then show ?thesis using run that sw_Reset_Filled [of wu "bs_w s"]
      by (auto simp: bs_full_def bs_defs Wait_enter_Sleeps Let_def split: prod.splits if_splits)
  next
    case EToEmpty
    then show ?thesis using run that sw_ToEmpty_counters [of "bs_w s"]
      by (auto simp: bs_full_def bs_defs Wait_enter_Sleeps split: prod.splits)
  next
    case EWait
    then show ?thesis using run that sw_ToEmpty_counters [of "bs_w s"]
      by (auto simp: bs_full_def bs_defs Wait_enter_Sleeps split: prod.splits)
  next
    case EWake
    then show ?thesis using run that sw_ToEmpty_counters [of "bs_w s"]
      by (auto simp: bs_full_def bs_defs Let_def Wait_enter_Sleeps split: prod.splits if_splits)
  qed (use run in \<open>auto simp: bs_defs split: prod.splits\<close>)
qed

interpretation bs_empty: sleeper bs_ce bs_dry "bs_filler sz" for sz
proof
  fix f s s'
  assume run: "bs_filler sz f s = Some s'"
  show "wt_c (bs_ce s')" if "wt_c (bs_ce s)"
    using run that by (cases f) (auto simp: bs_defs Let_def split: prod.splits if_splits)
  show "bs_dry s' \<or> wt_c (bs_ce s')" if "bs_dry s"
  proof (cases f)
    case FToFill
    then show ?thesis using run that sw_ToFill_dry [of "bs_w s" sz]
      by (auto simp: bs_dry_def bs_defs WaitFor_enter_def split: prod.splits if_splits)
  next
    case FWake
    then show ?thesis using run that by (auto simp: bs_dry_def bs_defs Let_def split: prod.splits)
  qed (use run in \<open>auto simp: bs_defs\<close>)
qed

section \<open>Properties\<close>

text \<open>C12: No wake-up of a blocking window is lost: when a goroutine went to sleep because there was no
  room (or nothing to take) and the other goroutine has run any sequence of its operations, then
  either there is still no reason to return, or the token is there, and receiving it the sleeper
  checks again. The operations are all those of the other side, with one restriction: while the filler of a send
  window sleeps, a reset of that window acknowledges no data (a reset that does loses the wake-up,
  \<open>bs_Reset_loses_wakeup\<close>).\<close>

theorem blocking_no_lost_wakeup:
  assumes "br_WaitToFill b = Sleeps" "acts (br_emptier sz) eops b = Some b1"
    and "br_dry sz c" "acts (br_filler sz) fops c = Some c1"
    and "bs_WaitToFill d = Sleeps" "acts bs_emptier_steady eops' d = Some d1"
    and "bs_dry e" "acts (bs_filler sz') fops' e = Some e1"
  shows "(br_WaitToFill b1 = Sleeps \<or> wt_c (br_cf b1)) \<and> (snd (br_WaitToEmpty c1) = Sleeps \<or> wt_c (br_ce c1))
    \<and> (bs_WaitToFill d1 = Sleeps \<or> wt_c (bs_cf d1)) \<and> (snd (bs_WaitToEmpty e1) = Sleeps \<or> wt_c (bs_ce e1))"
  using br_fill.no_lost_wakeup [unfolded br_full_def, OF assms(1,2)] br_empty.no_lost_wakeup [OF assms(3,4)]
    bs_fill.no_lost_wakeup [unfolded bs_full_def, OF assms(5,6)] bs_empty.no_lost_wakeup [OF assms(7,8)]
  by (auto simp: br_dry_def bs_dry_def)

text \<open>A receive window of one byte that is full, and a send window that is full with all of it sent.\<close>

definition demo_br_full :: BlockingReceiveWindow where
  "demo_br_full = the (br_filler 2 (FFill [7]) (the (br_filler 2 FToFill (NewBlockingReceiveWindow 1))))"

definition demo_bs_full :: BlockingSendWindow where
  "demo_bs_full =
    (let b = the (bs_filler 3 (FFill [1, 2, 3]) (the (bs_filler 3 FToFill (NewBlockingSendWindow 3))));
         b = the (bs_emptier (EEmpty 3) b); b = the (bs_emptier EWake b) in the (bs_filler 3 FWake b))"

definition demo_bs_filled :: BlockingSendWindow where
  "demo_bs_filled = the (acts (bs_filler 3) [FToFill, FFill [1, 2, 3], FWake] (NewBlockingSendWindow 3))"

lemma demo_br_facts: "br_WaitToFill demo_br_full = Sleeps"
    "acts (br_emptier 2) [EWait, EEmpty 1] demo_br_full = Some (br_Empty 1 (fst (br_WaitToEmpty demo_br_full)))"
    "wt_c (br_cf (br_Empty 1 (fst (br_WaitToEmpty demo_br_full))))"
    "br_dry 2 (NewBlockingReceiveWindow 1)"
    "acts (br_filler 2) [FToFill, FFill [7]] (NewBlockingReceiveWindow 1) = Some demo_br_full"
    "snd (br_WaitToEmpty demo_br_full) = Returns None" "wt_c (br_ce demo_br_full)"
  by code_simp+

lemma demo_bs_facts: "bs_WaitToFill demo_bs_full = Sleeps"
    "acts bs_emptier_steady [EAck 2] demo_bs_full = Some (fst (bs_AcknowledgeUntil 2 demo_bs_full))"
    "bs_WaitToFill (fst (bs_AcknowledgeUntil 2 demo_bs_full)) = Returns None"
    "bs_dry (NewBlockingSendWindow 3)"
    "acts (bs_filler 3) [FToFill, FFill [1, 2, 3], FWake] (NewBlockingSendWindow 3) = Some demo_bs_filled"
  by code_simp+

theorem blocking_no_lost_wakeup_witness:
  "(br_WaitToFill (br_Empty 1 (fst (br_WaitToEmpty demo_br_full))) = Sleeps
      \<or> wt_c (br_cf (br_Empty 1 (fst (br_WaitToEmpty demo_br_full)))))
    \<and> (snd (br_WaitToEmpty demo_br_full) = Sleeps \<or> wt_c (br_ce demo_br_full))
    \<and> (bs_WaitToFill (fst (bs_AcknowledgeUntil 2 demo_bs_full)) = Sleeps
      \<or> wt_c (bs_cf (fst (bs_AcknowledgeUntil 2 demo_bs_full))))
    \<and> (snd (bs_WaitToEmpty demo_bs_filled) = Sleeps \<or> wt_c (bs_ce demo_bs_filled))"
  by (rule blocking_no_lost_wakeup [OF demo_br_facts(1,2,4,5) demo_bs_facts(1,2,4,5)])

text \<open>
  A reset acknowledges too, but signals only the emptier: the filler of this window sleeps although
  there is room again, and nothing is left to send whose emptying would wake it.
\<close>

lemma bs_Reset_loses_wakeup:
  "bs_WaitToFill demo_bs_full = Sleeps"
  "bs_WaitToFill (fst (bs_Reset 3 demo_bs_full)) = Returns None" "snd (bs_Reset 3 demo_bs_full) = None"
  "\<not> wt_c (bs_cf (fst (bs_Reset 3 demo_bs_full)))" "snd (bs_ToEmpty (fst (bs_Reset 3 demo_bs_full))) = []"
  by code_simp+

end
