(* ===== verification/Nassh_Sessions.thy ===== *)
theory Nassh_Sessions imports Browser "HOL-Library.Multiset" begin

text \<open>
  The sessions of the proxy (\<^verbatim>\<open>proxy/nasshp/nassh.go\<close>): the table from session identifiers to sessions, the
  expiration of sessions that lost their browser, and \<^verbatim>\<open>ProxySsh\<close>, which starts or resumes a session
  for a connection and waits until the connection is gone.

  A \<^verbatim>\<open>*readWriter\<close> is an address in a list of browser states. The table is an association list: the
  order is the one in which \<^verbatim>\<open>sync.Map\<close>'s \<^verbatim>\<open>Range\<close> visits it, which is not specified, so every theorem holds for any.
\<close>

section \<open>Counters\<close>

record AllowErrors =
  InvalidCookie :: Counter
  InvalidHostFormat :: Counter
  InvalidHostName :: Counter
  Unauthorized :: Counter

record ProxyErrors =
  CookieInvalidParameters :: Counter
  CookieInvalidAuth :: Counter
  ProxyInvalidAuth :: Counter
  ProxyInvalidHostPort :: Counter
  ProxyCouldNotEncrypt :: Counter
  ProxyAllow :: AllowErrors
  ConnectInvalidSID :: Counter
  ConnectInvalidAck :: Counter
  ConnectInvalidPos :: Counter
  ConnectAllow :: AllowErrors
  SshFailedUpgrade :: Counter
  SshResumeNoSID :: Counter
  SshCreateExists :: Counter
  SshDialFailed :: Counter

record SessionCounters =
  Resumed :: Counter
  Invalid :: Counter
  Created :: Counter
  Orphaned :: Counter
  Deleted :: Counter


section \<open>The table of sessions\<close>

record nassh =
  np_sids :: "(string \<times> nat) list"
  np_rws :: "bstate list"
  np_sess :: SessionCounters
  np_errors :: ProxyErrors
  np_SshProxyStarted :: Counter
  np_SshProxyStopped :: Counter

definition newReadWriter :: bstate where
  "newReadWriter = (NewReplaceableBrowser, \<lparr>w_chans = [], w_closed = []\<rparr>)"


definition sessions_Get :: "string \<Rightarrow> nassh \<Rightarrow> nassh \<times> nat option" where
  "sessions_Get sid np =
    (case map_of (np_sids np) sid of
       None \<Rightarrow> (np, None)
     | Some rw \<Rightarrow> (np\<lparr>np_sess := (np_sess np)\<lparr>Resumed := Counter_Increment (Resumed (np_sess np))\<rparr>\<rparr>, Some rw))"

definition sessions_Create :: "string \<Rightarrow> nat \<Rightarrow> nassh \<Rightarrow> nassh \<times> nat option" where
  "sessions_Create sid rw np =
    (if map_of (np_sids np) sid \<noteq> None then (np, None)
     else (np\<lparr>np_sids := (sid, rw) # np_sids np,
              np_sess := (np_sess np)\<lparr>Created := Counter_Increment (Created (np_sess np))\<rparr>\<rparr>, Some rw))"

definition sessions_Delete :: "string \<Rightarrow> nassh \<Rightarrow> nassh" where
  "sessions_Delete sid np = np\<lparr>np_sids := [p \<leftarrow> np_sids np. fst p \<noteq> sid],
     np_sess := (np_sess np)\<lparr>Deleted := Counter_Increment (Deleted (np_sess np))\<rparr>\<rparr>"

definition sessions_Orphan :: "string \<Rightarrow> nassh \<Rightarrow> nassh" where
  "sessions_Orphan sid np =
    np\<lparr>np_sess := (np_sess np)\<lparr>Orphaned := Counter_Increment (Orphaned (np_sess np))\<rparr>\<rparr>"

section \<open>Expiration\<close>

record ExpirationPolicy =
  Every :: time
  RuthlessThreshold :: int
  OrphanThreshold :: int
  OrphanLimit :: time

definition DefaultExpirationPolicy :: ExpirationPolicy where
  "DefaultExpirationPolicy = \<lparr>Every = 10 * 60 * 10 ^ 9, RuthlessThreshold = 20000, OrphanThreshold = 1000,
     OrphanLimit = 3 * 24 * (3600 * 10 ^ 9) * 24\<rparr>"

definition paused_at :: "nassh \<Rightarrow> nat \<Rightarrow> time" where
  "paused_at np rw = rb_paused (fst (np_rws np ! rw))"




section \<open>ProxySsh\<close>

datatype proxy_outcome = Gone | DialFailed | AlreadyExists | Waits nat "chan_id option"

text \<open>
  \<^verbatim>\<open>ProxySsh\<close> up to the lookup of the session: \<^const>\<open>None\<close> as the second component is the 410 answer.
\<close>

definition ProxySsh_lookup :: "string \<Rightarrow> u32 \<Rightarrow> u32 \<Rightarrow> nassh \<Rightarrow> nassh \<times> nat option option" where
  "ProxySsh_lookup sid rack wack np =
    (let np = np\<lparr>np_SshProxyStarted := Counter_Increment (np_SshProxyStarted np)\<rparr>;
         (np, rw) = sessions_Get sid np
     in if rw = None \<and> (rack \<noteq> 0 \<or> wack \<noteq> 0)
        then (np\<lparr>np_errors := (np_errors np)\<lparr>SshResumeNoSID := Counter_Increment (SshResumeNoSID (np_errors np))\<rparr>,
                np_SshProxyStopped := Counter_Increment (np_SshProxyStopped np)\<rparr>, None)
        else (np, Some rw))"

text \<open>\<^verbatim>\<open>Connect\<close> and \<^verbatim>\<open>Attach\<close>. The parameters of \<^verbatim>\<open>Attach\<close> have the names of \<^verbatim>\<open>Set\<close>'s swapped.\<close>

definition readWriter_Connect :: "time \<Rightarrow> conn \<Rightarrow> bstate \<Rightarrow> (bstate \<times> chan_id option) option" where
  "readWriter_Connect now wc s = ReplaceableBrowser_Set now (Some wc) 0 0 s"

definition readWriter_Attach :: "time \<Rightarrow> conn \<Rightarrow> u32 \<Rightarrow> u32 \<Rightarrow> bstate \<Rightarrow> (bstate \<times> chan_id option) option" where
  "readWriter_Attach now wc wack rack s = ReplaceableBrowser_Set now (Some wc) rack wack s"

text \<open>
  \<^verbatim>\<open>ProxySsh\<close> from the upgrade to the wait. \<open>upgrade\<close> is \<^const>\<open>None\<close> when the upgrade fails: it then returns a
  nil connection, which the deferred \<^verbatim>\<open>c.Close()\<close> dereferences (\<^const>\<open>None\<close> as the result). \<open>dial\<close> says whether
  the host answered.
\<close>

definition ProxySsh_attach :: "string \<Rightarrow> u32 \<Rightarrow> u32 \<Rightarrow> nat option \<Rightarrow> conn option \<Rightarrow> bool \<Rightarrow> time \<Rightarrow> nassh
    \<Rightarrow> (nassh \<times> proxy_outcome) option" where
  "ProxySsh_attach sid rack wack rw upgrade dial now np =
    (case upgrade of None \<Rightarrow> None
     | Some c \<Rightarrow>
       (case rw of
          None \<Rightarrow>
            if \<not> dial
            then Some (np\<lparr>np_errors := (np_errors np)\<lparr>SshDialFailed := Counter_Increment (SshDialFailed (np_errors np))\<rparr>,
                     np_SshProxyStopped := Counter_Increment (np_SshProxyStopped np)\<rparr>, DialFailed)
            else let a = length (np_rws np); np = np\<lparr>np_rws := np_rws np @ [newReadWriter]\<rparr> in
              (case sessions_Create sid a np of
                 (np, None) \<Rightarrow>
                   Some (np\<lparr>np_errors := (np_errors np)\<lparr>SshCreateExists := Counter_Increment (SshCreateExists (np_errors np))\<rparr>,
                     np_SshProxyStopped := Counter_Increment (np_SshProxyStopped np)\<rparr>, AlreadyExists)
               | (np, Some a) \<Rightarrow> map_option (\<lambda>(s, ch). (np\<lparr>np_rws := (np_rws np)[a := s]\<rparr>, Waits a ch))
                   (readWriter_Connect now c (np_rws np ! a)))
        | Some a \<Rightarrow> map_option (\<lambda>(s, ch). (np\<lparr>np_rws := (np_rws np)[a := s]\<rparr>, Waits a ch))
            (readWriter_Attach now c rack wack (np_rws np ! a))))"

text \<open>\<^verbatim>\<open>ProxySsh\<close> after \<^verbatim>\<open>waiter.Wait()\<close> has returned \<open>n\<close>.\<close>

definition ProxySsh_finish :: "string \<Rightarrow> notice \<Rightarrow> nassh \<Rightarrow> nassh" where
  "ProxySsh_finish sid n np =
    (let np = (case n of Terminating _ \<Rightarrow> sessions_Delete sid np | _ \<Rightarrow> sessions_Orphan sid np)
     in np\<lparr>np_SshProxyStopped := Counter_Increment (np_SshProxyStopped np)\<rparr>)"

section \<open>What an expiration turn closes\<close>

definition sessions_ok :: "nassh \<Rightarrow> bool" where
  "sessions_ok np \<longleftrightarrow> distinct (map fst (np_sids np)) \<and> distinct (map snd (np_sids np))
    \<and> (\<forall>rw \<in> set (map snd (np_sids np)). rw < length (np_rws np) \<and> (\<exists>got. browser_inv (np_rws np ! rw, got)))"


definition closed_session :: "bstate \<Rightarrow> bstate" where
  "closed_session s = the (ReplaceableBrowser_Close (Some ''session expired'') s)"


lemma closed_session_ok:
  assumes "browser_inv (s, got)"
  shows "ReplaceableBrowser_Close (Some ''session expired'') s = Some (closed_session s)"
    "browser_inv (closed_session s, got)" "rb_paused (fst (closed_session s)) = rb_paused (fst s)"
    "rb_wc (fst (closed_session s)) = None" "rb_err (fst (closed_session s)) = Some ''session expired''"
proof -
  obtain gb w where s: "s = (gb, w)" by fastforce
  obtain gb' w' where c: "ReplaceableBrowser_Close (Some ''session expired'') (gb, w) = Some (gb', w')"
    "browser_inv ((gb', w'), got)" "rb_wc gb' = None" "rb_err gb' = Some ''session expired''" "rb_paused gb' = rb_paused gb"
    using Close_ok [OF assms [unfolded s], of "Some ''session expired''"] by blast
  then have "closed_session s = (gb', w')" by (simp add: closed_session_def s)
  then show "ReplaceableBrowser_Close (Some ''session expired'') s = Some (closed_session s)"
    "browser_inv (closed_session s, got)" "rb_paused (fst (closed_session s)) = rb_paused (fst s)"
    "rb_wc (fst (closed_session s)) = None" "rb_err (fst (closed_session s)) = Some ''session expired''"
    using c s by simp_all
qed

text \<open>The sessions \<open>closed\<close> and no others are closed, and nothing else happens to the table.\<close>

definition closes :: "nat list \<Rightarrow> nassh \<Rightarrow> nassh \<Rightarrow> bool" where
  "closes closed np np' \<longleftrightarrow> np_sids np' = np_sids np \<and> np_sess np' = np_sess np
    \<and> length (np_rws np') = length (np_rws np)
    \<and> (\<forall>a < length (np_rws np). np_rws np' ! a = (if a \<in> set closed then closed_session (np_rws np ! a) else np_rws np ! a))"











text \<open>
  An expired session stays in the table, as old as before: nothing deletes it (its last handler has
  gone, and \<^verbatim>\<open>Close\<close> finds no notifier), the next turn closes it again, and a browser that resumes it waits
  for ever (\<open>Set_after_Close\<close>).
\<close>

lemma expired_session_stays:
  assumes "sessions_ok np" "closes closed np np'" "(sid, a) \<in> set (np_sids np)"
  shows "(sid, a) \<in> set (np_sids np')" "paused_at np' a = paused_at np a"
proof -
  show "(sid, a) \<in> set (np_sids np')" using assms by (simp add: closes_def)
  have "a < length (np_rws np)" "\<exists>got. browser_inv (np_rws np ! a, got)"
    using assms(1,3) by (force simp: sessions_ok_def)+
  then show "paused_at np' a = paused_at np a"
    using assms(2) closed_session_ok(3) unfolding closes_def paused_at_def by (metis (no_types, lifting))
qed

end
