(* ===== verification/Nassh_System.thy ===== *)
theory Nassh_System imports Nassh_Sessions begin

text \<open>
  The handlers and goroutines of the nassh proxy together: any number of requests looking a session
  up, attaching to it, waiting and finishing, while the goroutines of the sessions report errors and
  close them, in any order.
\<close>

section \<open>Steps\<close>

text \<open>
  A handler has looked a session up, waits on a channel of a session, has finished with a message, or
  has ended with an error before it came to wait. Handler \<open>j\<close> has connection \<open>j\<close>.
\<close>

datatype handler =
    Looked string u32 u32 "nat option"
  | Waiting string nat chan_id
  | Finished string nat chan_id notice
  | Ended

record nassh_sys =
  sy_np :: nassh
  sy_hs :: "handler list"

datatype sys_op =
    Lookup string u32 u32
  | Attach nat bool time
  | Wake nat
  | SessionClose nat "gerror option"
  | SessionError nat time conn gerror

fun on_session :: "(bstate \<Rightarrow> bstate option) \<Rightarrow> nat \<Rightarrow> nassh \<Rightarrow> nassh option" where
  "on_session f a np =
    (if a < length (np_rws np) then map_option (\<lambda>s. np\<lparr>np_rws := (np_rws np)[a := s]\<rparr>) (f (np_rws np ! a)) else Some np)"

fun sys_step :: "sys_op \<Rightarrow> nassh_sys \<Rightarrow> nassh_sys option" where
  "sys_step (Lookup sid rack wack) s =
    (let (np, r) = ProxySsh_lookup sid rack wack (sy_np s) in
     Some \<lparr>sy_np = np, sy_hs = sy_hs s @ [case r of None \<Rightarrow> Ended | Some rw \<Rightarrow> Looked sid rack wack rw]\<rparr>)"
| "sys_step (Attach j dial now) s =
    (if j < length (sy_hs s)
     then (case sy_hs s ! j of
        Looked sid rack wack rw \<Rightarrow>
          map_option (\<lambda>(np, out). \<lparr>sy_np = np, sy_hs = (sy_hs s)[j :=
              (case out of Waits a (Some i) \<Rightarrow> Waiting sid a i | _ \<Rightarrow> Ended)]\<rparr>)
            (ProxySsh_attach sid rack wack rw (Some j) dial now (sy_np s))
      | _ \<Rightarrow> Some s)
     else Some s)"
| "sys_step (Wake j) s =
    (if j < length (sy_hs s)
     then (case sy_hs s ! j of
        Waiting sid a i \<Rightarrow>
          (case waiter_Wait (Some i) (snd (np_rws (sy_np s) ! a)) of
             None \<Rightarrow> Some s
           | Some (n, w) \<Rightarrow>
             Some \<lparr>sy_np = ProxySsh_finish sid n
                ((sy_np s)\<lparr>np_rws := (np_rws (sy_np s))[a := (fst (np_rws (sy_np s) ! a), w)]\<rparr>),
               sy_hs = (sy_hs s)[j := Finished sid a i n]\<rparr>)
      | _ \<Rightarrow> Some s)
     else Some s)"
| "sys_step (SessionClose a err) s =
    map_option (\<lambda>np. s\<lparr>sy_np := np\<rparr>) (on_session (ReplaceableBrowser_Close err) a (sy_np s))"
| "sys_step (SessionError a now c err) s =
    map_option (\<lambda>np. s\<lparr>sy_np := np\<rparr>) (on_session (ReplaceableBrowser_Error now (Some c) err) a (sy_np s))"

fun sys_run :: "sys_op list \<Rightarrow> nassh_sys \<Rightarrow> nassh_sys option" where
  "sys_run [] s = Some s"
| "sys_run (op # ops) s = (case sys_step op s of None \<Rightarrow> None | Some s \<Rightarrow> sys_run ops s)"

definition empty_nassh :: "ProxyErrors \<Rightarrow> nassh" where
  "empty_nassh pe = \<lparr>np_sids = [], np_rws = [],
     np_sess = \<lparr>Resumed = 0, Invalid = 0, Created = 0, Orphaned = 0, Deleted = 0\<rparr>,
     np_errors = pe, np_SshProxyStarted = 0, np_SshProxyStopped = 0\<rparr>"

definition sys_start :: "ProxyErrors \<Rightarrow> nassh_sys" where
  "sys_start pe = \<lparr>sy_np = empty_nassh pe, sy_hs = []\<rparr>"

section \<open>The invariant\<close>

text \<open>The messages received from the channels of a session, and the channels that have a handler.\<close>

fun received_from :: "nat \<Rightarrow> handler \<Rightarrow> (chan_id \<times> notice) list" where
  "received_from a (Finished sid b i n) = (if b = a then [(i, n)] else [])"
| "received_from a h = []"

definition received :: "nat \<Rightarrow> handler list \<Rightarrow> (chan_id \<times> notice) list" where
  "received a hs = concat (map (received_from a) hs)"

fun holds_chan :: "nat \<Rightarrow> handler \<Rightarrow> chan_id list" where
  "holds_chan a (Waiting sid b i) = (if b = a then [i] else [])"
| "holds_chan a (Finished sid b i n) = (if b = a then [i] else [])"
| "holds_chan a h = []"

definition chans_held :: "nat \<Rightarrow> handler list \<Rightarrow> chan_id list" where
  "chans_held a hs = concat (map (holds_chan a) hs)"

fun handler_ok :: "nat \<Rightarrow> handler \<Rightarrow> bool" where
  "handler_ok k (Looked sid rack wack (Some a)) \<longleftrightarrow> a < k"
| "handler_ok k (Waiting sid a i) \<longleftrightarrow> a < k"
| "handler_ok k (Finished sid a i n) \<longleftrightarrow> a < k"
| "handler_ok k h \<longleftrightarrow> True"

definition session_ok :: "nat \<Rightarrow> bstate \<Rightarrow> handler list \<Rightarrow> bool" where
  "session_ok a s hs \<longleftrightarrow> browser_inv (s, received a hs)
    \<and> distinct (chans_held a hs) \<and> set (chans_held a hs) = {..<length (w_chans (snd s))}
    \<and> (\<forall>c. rb_wc (fst s) = Some c \<longrightarrow> c < length hs \<and> (case hs ! c of Looked _ _ _ _ \<Rightarrow> False | _ \<Rightarrow> True))"

definition sys_inv :: "nassh_sys \<Rightarrow> bool" where
  "sys_inv s \<longleftrightarrow> (let np = sy_np s; hs = sy_hs s; k = length (np_rws np) in
     distinct (map fst (np_sids np)) \<and> distinct (map snd (np_sids np)) \<and> (\<forall>p \<in> set (np_sids np). snd p < k)
     \<and> (\<forall>h \<in> set hs. handler_ok k h) \<and> (\<forall>a < k. session_ok a (np_rws np ! a) hs))"

lemma browser_inv_mset: "browser_inv (s, got) \<Longrightarrow> mset got = mset got' \<Longrightarrow> browser_inv (s, got')"
proof -
  assume inv: "browser_inv (s, got)" and m: "mset got = mset got'"
  have "length [g \<leftarrow> got. fst g = i] = length [g \<leftarrow> got'. fst g = i]" for i
    using arg_cong [OF m, of "\<lambda>M. size (filter_mset (\<lambda>g. fst g = i) M)"] by (simp flip: mset_filter)
  then have "sent_to i w got = sent_to i w got'" for i w by (simp add: sent_to_def)
  moreover have "set got = set got'" using m by (rule mset_eq_setD)
  ultimately show "browser_inv (s, got')" using inv by (cases s) (simp add: browser_inv_def)
qed

lemma concat_map_split:
  "mset (concat (map f (xs @ h # ys))) + mset (f h') = mset (concat (map f (xs @ h' # ys))) + mset (f h)"
  by simp

lemma concat_map_update:
  assumes "j < length hs"
  shows "mset (concat (map f (hs[j := h]))) + mset (f (hs ! j)) = mset (concat (map f hs)) + mset (f h)"
  using concat_map_split [of f "take j hs" h "drop (Suc j) hs" "hs ! j"]
  unfolding upd_conv_take_nth_drop [OF assms] id_take_nth_drop [OF assms, symmetric] .

lemma mset_distinct_set: "mset xs = mset ys \<Longrightarrow> distinct xs = distinct ys \<and> set xs = set ys"
  using mset_eq_imp_distinct_iff mset_eq_setD by blast

text \<open>A handler that holds no channel of a session, before and after, does not matter to it.\<close>

lemma session_ok_update:
  assumes ok: "session_ok a s hs" and j: "j < length hs"
    and "received_from a h = received_from a (hs ! j)" "holds_chan a h = holds_chan a (hs ! j)"
    and "(case h of Looked _ _ _ _ \<Rightarrow> False | _ \<Rightarrow> True) \<or> rb_wc (fst s) \<noteq> Some j"
  shows "session_ok a s (hs[j := h])"
proof -
  have "mset (received a (hs[j := h])) = mset (received a hs)"
    using concat_map_update [OF j, of "received_from a" h] assms(3) by (simp add: received_def)
  moreover have "browser_inv (s, received a hs)" using ok by (simp add: session_ok_def)
  ultimately have 1: "browser_inv (s, received a (hs[j := h]))" using browser_inv_mset [OF _ sym] by blast
  have "mset (chans_held a (hs[j := h])) = mset (chans_held a hs)"
    using concat_map_update [OF j, of "holds_chan a" h] assms(4) by (simp add: chans_held_def)
  note 2 = mset_distinct_set [OF this]
  have 3: "c < length (hs[j := h]) \<and> (case hs[j := h] ! c of Looked _ _ _ _ \<Rightarrow> False | _ \<Rightarrow> True)"
    if c: "rb_wc (fst s) = Some c" for c
  proof -
    have "c < length hs" "case hs ! c of Looked _ _ _ _ \<Rightarrow> False | _ \<Rightarrow> True"
      using ok c unfolding session_ok_def by blast+
    then show ?thesis using assms(5) c by (cases "c = j") simp_all
  qed
  show ?thesis unfolding session_ok_def using 1 2 3 ok unfolding session_ok_def by simp
qed

lemma session_ok_more: "session_ok a s hs \<Longrightarrow> received_from a h = [] \<Longrightarrow> holds_chan a h = [] \<Longrightarrow> session_ok a s (hs @ [h])"
  by (auto simp: session_ok_def received_def chans_held_def nth_append)

section \<open>Operations on one session\<close>

lemma send_length: "send ch n w = Some w' \<Longrightarrow> length (w_chans w') = length (w_chans w)"
  by (auto simp: send_def split: option.splits if_splits)

lemma conn_Close_chans: "conn_Close c w = Some w' \<Longrightarrow> w_chans w' = w_chans w"
  by (auto simp: conn_Close_def)

lemma Close_length: "ReplaceableBrowser_Close err (gb, w) = Some (gb', w') \<Longrightarrow> length (w_chans w') = length (w_chans w)"
  by (cases "rb_notifier gb"; cases "rb_wc gb"; cases "send (rb_notifier gb) (Terminating err) w")
    (auto simp: ReplaceableBrowser_Close_def conn_Close_def dest: send_length)

lemma Error_length:
  "ReplaceableBrowser_Error now c err (gb, w) = Some (gb', w') \<Longrightarrow> length (w_chans w') = length (w_chans w)"
  by (cases "send (rb_notifier gb) (Failed err) w")
    (auto simp: ReplaceableBrowser_Error_def conn_Close_def Let_def send_length split: if_splits)

lemma Set_length:
  assumes "ReplaceableBrowser_Set now (Some c) rack wack (gb, w) = Some ((gb', w'), ch)" "rb_wc gb \<noteq> Some c"
  shows "length (w_chans w') = Suc (length (w_chans w)) \<and> ch = Some (length (w_chans w))"
proof (cases "rb_wc gb")
  case None
  then show ?thesis using assms by (auto simp: ReplaceableBrowser_Set_def Let_def make_chan_def)
next
  case (Some y)
  then obtain w2 where w2: "send (rb_notifier gb) Replaced w = Some w2"
    using assms by (cases "send (rb_notifier gb) Replaced w") (auto simp: ReplaceableBrowser_Set_def)
  then show ?thesis using assms Some send_length [OF w2]
    by (auto simp: ReplaceableBrowser_Set_def Let_def make_chan_def conn_Close_def)
qed

lemma session_ok_Close:
  assumes ok: "session_ok a st hs"
  shows "\<exists>st'. ReplaceableBrowser_Close err st = Some st' \<and> session_ok a st' hs"
proof -
  obtain gb w where s: "st = (gb, w)" by fastforce
  have "browser_inv ((gb, w), received a hs)" using ok s by (simp add: session_ok_def)
  then obtain gb' w' where c: "ReplaceableBrowser_Close err (gb, w) = Some (gb', w')"
    "browser_inv ((gb', w'), received a hs)" "rb_wc gb' = None"
    using Close_ok by blast
  then have "session_ok a (gb', w') hs" using ok s Close_length [OF c(1)] by (simp add: session_ok_def)
  then show ?thesis using c s by blast
qed

lemma session_ok_Error:
  assumes ok: "session_ok a st hs"
  shows "\<exists>st'. ReplaceableBrowser_Error now c err st = Some st' \<and> session_ok a st' hs"
proof -
  obtain gb w where s: "st = (gb, w)" by fastforce
  have "browser_inv ((gb, w), received a hs)" using ok s by (simp add: session_ok_def)
  from Error_ok [OF this, of now c err] obtain gb' w' where e: "ReplaceableBrowser_Error now c err (gb, w) = Some (gb', w')"
    "browser_inv ((gb', w'), received a hs)" "gb' = gb \<or> rb_wc gb' = None"
    by (auto split: if_splits)
  then have "session_ok a (gb', w') hs" using ok s Error_length [OF e(1)] by (auto simp: session_ok_def)
  then show ?thesis using e s by blast
qed

lemma session_ok_Set:
  assumes ok: "session_ok a st hs" and j: "j < length hs" "hs ! j = Looked sid x y z"
  shows "\<exists>st' i. ReplaceableBrowser_Set now (Some j) rack wack st = Some (st', Some i)
    \<and> session_ok a st' (hs[j := Waiting sid a i])"
proof -
  obtain gb w where s: "st = (gb, w)" by fastforce
  have inv: "browser_inv ((gb, w), received a hs)" using ok s by (simp add: session_ok_def)
  have new: "rb_wc gb \<noteq> Some j" using ok s j by (auto simp: session_ok_def)
  obtain gb' w' ch where c: "ReplaceableBrowser_Set now (Some j) rack wack (gb, w) = Some ((gb', w'), ch)"
    "browser_inv ((gb', w'), received a hs)" "rb_wc gb' = Some j"
    using Set_ok [OF inv, of now "Some j" rack wack] by auto
  let ?i = "length (w_chans w)" and ?h = "Waiting sid a (length (w_chans w))"
  have len: "length (w_chans w') = Suc ?i" "ch = Some ?i" using Set_length [OF c(1) new] by auto
  have "mset (received a (hs[j := ?h])) = mset (received a hs)"
    using concat_map_update [OF j(1), of "received_from a" ?h] j by (simp add: received_def)
  then have 1: "browser_inv ((gb', w'), received a (hs[j := ?h]))" using browser_inv_mset [OF c(2) sym] by blast
  have "mset (chans_held a (hs[j := ?h])) = mset (?i # chans_held a hs)"
    using concat_map_update [OF j(1), of "holds_chan a" ?h] j by (simp add: chans_held_def)
  note 2 = mset_distinct_set [OF this]
  have "session_ok a (gb', w') (hs[j := ?h])"
    using 1 2 ok s c(3) len j by (auto simp: session_ok_def)
  then show ?thesis using c len s by blast
qed

lemma session_ok_Wait:
  assumes ok: "session_ok a (gb, w) hs" and j: "j < length hs" "hs ! j = Waiting sid a i"
    and run: "waiter_Wait (Some i) w = Some (n, w')"
  shows "session_ok a (gb, w') (hs[j := Finished sid a i n])"
proof -
  let ?h = "Finished sid a i n"
  have "browser_inv ((gb, w), received a hs)" using ok by (simp add: session_ok_def)
  note inv = Wait_ok [OF this run]
  have "mset (received a (hs[j := ?h])) = mset (received a hs @ [(i, n)])"
    using concat_map_update [OF j(1), of "received_from a" ?h] j by (simp add: received_def)
  then have 1: "browser_inv ((gb, w'), received a (hs[j := ?h]))" using browser_inv_mset [OF inv sym] by blast
  have "mset (chans_held a (hs[j := ?h])) = mset (chans_held a hs)"
    using concat_map_update [OF j(1), of "holds_chan a" ?h] j by (simp add: chans_held_def)
  note 2 = mset_distinct_set [OF this]
  have "length (w_chans w') = length (w_chans w)" using run by (auto simp: waiter_Wait_def split: if_splits)
  moreover have "c < length (hs[j := ?h]) \<and> (case hs[j := ?h] ! c of Looked _ _ _ _ \<Rightarrow> False | _ \<Rightarrow> True)"
    if "rb_wc gb = Some c" for c
  proof -
    have "c < length hs" "case hs ! c of Looked _ _ _ _ \<Rightarrow> False | _ \<Rightarrow> True" using ok that by (auto simp: session_ok_def)
    then show ?thesis by (cases "c = j") simp_all
  qed
  ultimately show ?thesis using 1 2 ok unfolding session_ok_def by simp
qed

lemma session_ok_new: "\<forall>h \<in> set hs. handler_ok k h \<Longrightarrow> session_ok k newReadWriter hs"
proof -
  assume h: "\<forall>h \<in> set hs. handler_ok k h"
  have "received_from k h = [] \<and> holds_chan k h = []" if "handler_ok k h" for h
    using that by (cases h) auto
  then have "received k hs = [] \<and> chans_held k hs = []"
    using h unfolding received_def chans_held_def by simp
  then show ?thesis
    by (simp add: session_ok_def newReadWriter_def NewReplaceableBrowser_def browser_inv_def)
qed

section \<open>Every step keeps the invariant\<close>

lemma sys_inv_cong:
  "sys_inv \<lparr>sy_np = np, sy_hs = hs\<rparr> \<Longrightarrow> np_rws np' = np_rws np \<Longrightarrow> np_sids np' = np_sids np \<Longrightarrow>
    sys_inv \<lparr>sy_np = np', sy_hs = hs\<rparr>"
  by (simp add: sys_inv_def Let_def)

lemma sys_inv_session:
  assumes "sys_inv \<lparr>sy_np = np, sy_hs = hs\<rparr>" "a < length (np_rws np)" "session_ok a st hs"
  shows "sys_inv \<lparr>sy_np = np\<lparr>np_rws := (np_rws np)[a := st]\<rparr>, sy_hs = hs\<rparr>"
  using assms by (simp add: sys_inv_def Let_def nth_list_update)

lemma handler_ok_mono: "handler_ok k h \<Longrightarrow> k \<le> k' \<Longrightarrow> handler_ok k' h"
proof (cases h)
  case (Looked sid rack wack rw)
  then show "handler_ok k h \<Longrightarrow> k \<le> k' \<Longrightarrow> handler_ok k' h" by (cases rw) auto
qed auto

lemma sys_inv_handler:
  assumes inv: "sys_inv \<lparr>sy_np = np, sy_hs = hs\<rparr>" and j: "j < length hs"
    and h: "handler_ok (length (np_rws np)) h" "case h of Looked _ _ _ _ \<Rightarrow> False | _ \<Rightarrow> True"
    and a: "\<And>b. b < length (np_rws np) \<Longrightarrow> b \<noteq> a \<Longrightarrow> received_from b h = received_from b (hs ! j) \<and> holds_chan b h = holds_chan b (hs ! j)"
    and st: "a < length (np_rws np) \<Longrightarrow> session_ok a st (hs[j := h])"
  shows "sys_inv \<lparr>sy_np = np\<lparr>np_rws := (np_rws np)[a := st]\<rparr>, sy_hs = hs[j := h]\<rparr>"
proof -
  have "session_ok b ((np_rws np)[a := st] ! b) (hs[j := h])" if b: "b < length (np_rws np)" for b
  proof (cases "b = a")
    case True
    then show ?thesis using st b by simp
  next
    case False
    have "session_ok b (np_rws np ! b) hs" using inv b by (simp add: sys_inv_def Let_def)
    then show ?thesis using session_ok_update [OF _ j] a [OF b False] h(2) False by simp
  qed
  moreover have "\<forall>x \<in> set (hs[j := h]). handler_ok (length (np_rws np)) x"
    using inv h(1) set_update_subset_insert [of hs j h] by (auto simp: sys_inv_def Let_def)
  ultimately show ?thesis using inv by (simp add: sys_inv_def Let_def)
qed

lemma sys_inv_attach:
  assumes inv: "sys_inv \<lparr>sy_np = np, sy_hs = hs\<rparr>" and j: "j < length hs" "hs ! j = Looked sid x y z"
    and a: "a < length (np_rws np)"
  shows "\<exists>st i. ReplaceableBrowser_Set now (Some j) rack wack (np_rws np ! a) = Some (st, Some i)
    \<and> sys_inv \<lparr>sy_np = np\<lparr>np_rws := (np_rws np)[a := st]\<rparr>, sy_hs = hs[j := Waiting sid a i]\<rparr>"
proof -
  have "session_ok a (np_rws np ! a) hs" using inv a by (simp add: sys_inv_def Let_def)
  then obtain st i where r: "ReplaceableBrowser_Set now (Some j) rack wack (np_rws np ! a) = Some (st, Some i)"
    "session_ok a st (hs[j := Waiting sid a i])"
    using session_ok_Set [OF _ j] by blast
  moreover have "sys_inv \<lparr>sy_np = np\<lparr>np_rws := (np_rws np)[a := st]\<rparr>, sy_hs = hs[j := Waiting sid a i]\<rparr>"
    by (rule sys_inv_handler [OF inv j(1)]) (use a r(2) j in auto)
  ultimately show ?thesis by blast
qed

lemma sys_inv_ended:
  assumes "sys_inv \<lparr>sy_np = np, sy_hs = hs\<rparr>" "j < length hs" "hs ! j = Looked sid x y z"
  shows "sys_inv \<lparr>sy_np = np, sy_hs = hs[j := Ended]\<rparr>"
proof -
  let ?k = "length (np_rws np)"
  have "sys_inv \<lparr>sy_np = np\<lparr>np_rws := (np_rws np)[?k := newReadWriter]\<rparr>, sy_hs = hs[j := Ended]\<rparr>"
    by (rule sys_inv_handler [OF assms(1,2)]) (use assms(3) in auto)
  then show ?thesis by (rule sys_inv_cong) (simp_all add: list_update_beyond)
qed

lemma sys_inv_grow:
  assumes "sys_inv \<lparr>sy_np = np, sy_hs = hs\<rparr>"
  shows "sys_inv \<lparr>sy_np = np\<lparr>np_rws := np_rws np @ [newReadWriter]\<rparr>, sy_hs = hs\<rparr>"
proof -
  have h: "\<forall>h \<in> set hs. handler_ok (length (np_rws np)) h" using assms by (simp add: sys_inv_def Let_def)
  moreover from this have "\<forall>h \<in> set hs. handler_ok (Suc (length (np_rws np))) h"
    using handler_ok_mono [OF _ le_SucI [OF order_refl]] by blast
  ultimately show ?thesis using assms session_ok_new [OF h]
    by (auto simp: sys_inv_def Let_def nth_append less_Suc_eq)
qed

lemma sys_inv_sids:
  assumes "sys_inv \<lparr>sy_np = np, sy_hs = hs\<rparr>" "np_rws np' = np_rws np" "distinct (map fst (np_sids np'))"
    "distinct (map snd (np_sids np'))" "\<forall>p \<in> set (np_sids np'). snd p < length (np_rws np)"
  shows "sys_inv \<lparr>sy_np = np', sy_hs = hs\<rparr>"
  using assms by (simp add: sys_inv_def Let_def)

lemma Lookup_ok:
  assumes inv: "sys_inv \<lparr>sy_np = np, sy_hs = hs\<rparr>"
  shows "\<exists>s'. sys_step (Lookup sid rack wack) \<lparr>sy_np = np, sy_hs = hs\<rparr> = Some s' \<and> sys_inv s'"
proof -
  obtain np' r where r: "ProxySsh_lookup sid rack wack np = (np', r)" by fastforce
  have same: "np_rws np' = np_rws np" "np_sids np' = np_sids np"
    using r by (auto simp: ProxySsh_lookup_def sessions_Get_def Let_def split: option.splits if_splits)
  have known: "a < length (np_rws np)" if "r = Some (Some a)" for a
  proof -
    have "map_of (np_sids np) sid = Some a"
      using r that by (auto simp: ProxySsh_lookup_def sessions_Get_def Let_def split: option.splits if_splits)
    then show ?thesis using inv map_of_SomeD by (fastforce simp: sys_inv_def Let_def)
  qed
  define h where "h = (case r of None \<Rightarrow> Ended | Some rw \<Rightarrow> Looked sid rack wack rw)"
  have h: "handler_ok (length (np_rws np)) h" "received_from b h = []" "holds_chan b h = []" for b
    using known by (cases "r"; cases "the r"; auto simp: h_def)+
  have "sys_inv \<lparr>sy_np = np', sy_hs = hs @ [h]\<rparr>"
    using inv h session_ok_more by (simp add: sys_inv_def Let_def same)
  then show ?thesis using r by (simp add: h_def)
qed

lemma Attach_ok:
  assumes inv: "sys_inv \<lparr>sy_np = np, sy_hs = hs\<rparr>"
  shows "\<exists>s'. sys_step (Attach j dial now) \<lparr>sy_np = np, sy_hs = hs\<rparr> = Some s' \<and> sys_inv s'"
proof (cases "j < length hs \<and> (\<exists>sid rack wack rw. hs ! j = Looked sid rack wack rw)")
  case False
  then show ?thesis using inv by (auto split: handler.splits)
next
  case True
  then obtain sid rack wack rw where j: "j < length hs" "hs ! j = Looked sid rack wack rw" by blast
  show ?thesis
  proof (cases rw)
    case (Some a)
    have a: "a < length (np_rws np)" using inv j Some nth_mem [OF j(1)] by (force simp: sys_inv_def Let_def)
    show ?thesis using sys_inv_attach [OF inv j a, of now wack rack] j Some
      by (auto simp: ProxySsh_attach_def readWriter_Attach_def)
  next
    case None
    note grow = sys_inv_grow [OF inv]
    define np1 where "np1 = np\<lparr>np_rws := np_rws np @ [newReadWriter]\<rparr>"
    show ?thesis
    proof (cases "dial \<and> map_of (np_sids np) sid = None")
      case False
      have "\<exists>np'. ProxySsh_attach sid rack wack rw (Some j) dial now np = Some (np', if dial then AlreadyExists else DialFailed)
          \<and> np_rws np' = (if dial then np_rws np1 else np_rws np) \<and> np_sids np' = np_sids np"
        using False None by (auto simp: ProxySsh_attach_def Let_def sessions_Create_def np1_def)
      then obtain np' where np': "ProxySsh_attach sid rack wack rw (Some j) dial now np = Some (np', if dial then AlreadyExists else DialFailed)"
          "np_rws np' = (if dial then np_rws np1 else np_rws np)" "np_sids np' = np_sids np" by blast
      have "sys_inv \<lparr>sy_np = np', sy_hs = hs[j := Ended]\<rparr>"
        using sys_inv_cong [OF sys_inv_ended [OF inv j]] sys_inv_cong [OF sys_inv_ended [OF grow j]] np'
        by (cases dial) (simp_all add: np1_def)
      then show ?thesis using np' j by (auto split: if_splits)
    next
      case True
      let ?a = "length (np_rws np)"
      obtain np2 where np2: "sessions_Create sid ?a np1 = (np2, Some ?a)" "np_rws np2 = np_rws np1"
        "np_sids np2 = (sid, ?a) # np_sids np"
        using True by (simp add: sessions_Create_def np1_def)
      have "sys_inv \<lparr>sy_np = np2, sy_hs = hs\<rparr>"
      proof (rule sys_inv_sids [OF grow])
        have "sid \<notin> fst ` set (np_sids np)" using True by (simp add: map_of_eq_None_iff)
        then show "distinct (map fst (np_sids np2))" using inv by (simp add: np2 sys_inv_def Let_def)
        show "distinct (map snd (np_sids np2))" using inv by (fastforce simp: np2 sys_inv_def Let_def)
        show "\<forall>p \<in> set (np_sids np2). snd p < length (np_rws (np\<lparr>np_rws := np_rws np @ [newReadWriter]\<rparr>))"
          using inv by (auto simp: np2 sys_inv_def Let_def less_SucI)
      qed (simp add: np2 np1_def)
      note att = sys_inv_attach [OF this j, of ?a now 0 0]
      obtain st i where st: "ReplaceableBrowser_Set now (Some j) 0 0 (np_rws np2 ! ?a) = Some (st, Some i)"
        "sys_inv \<lparr>sy_np = np2\<lparr>np_rws := (np_rws np2)[?a := st]\<rparr>, sy_hs = hs[j := Waiting sid ?a i]\<rparr>"
        using att by (auto simp: np2 np1_def)
      have "ProxySsh_attach sid rack wack rw (Some j) dial now np =
          Some (np2\<lparr>np_rws := (np_rws np2)[?a := st]\<rparr>, Waits ?a (Some i))"
        using True None np2(1) st(1) by (simp add: ProxySsh_attach_def Let_def np1_def readWriter_Connect_def)
      then show ?thesis using st(2) j by simp
    qed
  qed
qed

lemma Wake_ok:
  assumes inv: "sys_inv \<lparr>sy_np = np, sy_hs = hs\<rparr>"
  shows "\<exists>s'. sys_step (Wake j) \<lparr>sy_np = np, sy_hs = hs\<rparr> = Some s' \<and> sys_inv s'"
proof (cases "j < length hs \<and> (\<exists>sid a i n w'. hs ! j = Waiting sid a i \<and>
    waiter_Wait (Some i) (snd (np_rws np ! a)) = Some (n, w'))")
  case False
  then show ?thesis using inv by (auto split: handler.splits option.splits)
next
  case True
  then obtain sid a i n w' where j: "j < length hs" "hs ! j = Waiting sid a i"
    and run: "waiter_Wait (Some i) (snd (np_rws np ! a)) = Some (n, w')" by blast
  have a: "a < length (np_rws np)" using inv j nth_mem [OF j(1)] by (force simp: sys_inv_def Let_def)
  define st where "st = (fst (np_rws np ! a), w')"
  have "session_ok a (np_rws np ! a) hs" using inv a by (simp add: sys_inv_def Let_def)
  then have st: "session_ok a st (hs[j := Finished sid a i n])"
    using session_ok_Wait [OF _ j run, of "fst (np_rws np ! a)"] by (simp add: st_def)
  have "sys_inv \<lparr>sy_np = np\<lparr>np_rws := (np_rws np)[a := st]\<rparr>, sy_hs = hs[j := Finished sid a i n]\<rparr>"
    by (rule sys_inv_handler [OF inv j(1)]) (use a st j in auto)
  then have "sys_inv \<lparr>sy_np = ProxySsh_finish sid n (np\<lparr>np_rws := (np_rws np)[a := st]\<rparr>), sy_hs = hs[j := Finished sid a i n]\<rparr>"
    by (rule sys_inv_sids) (use inv in \<open>auto simp: ProxySsh_finish_def sessions_Delete_def sessions_Orphan_def
        sys_inv_def Let_def distinct_map_filter split: notice.splits\<close>)
  then show ?thesis using j run by (simp add: st_def)
qed

lemma on_session_ok:
  assumes inv: "sys_inv \<lparr>sy_np = np, sy_hs = hs\<rparr>"
    and f: "\<And>st. session_ok a st hs \<Longrightarrow> \<exists>st'. f st = Some st' \<and> session_ok a st' hs"
  shows "\<exists>np'. on_session f a np = Some np' \<and> sys_inv \<lparr>sy_np = np', sy_hs = hs\<rparr>"
proof (cases "a < length (np_rws np)")
  case True
  then have "session_ok a (np_rws np ! a) hs" using inv by (simp add: sys_inv_def Let_def)
  then obtain st' where "f (np_rws np ! a) = Some st'" "session_ok a st' hs" using f by blast
  then show ?thesis using True sys_inv_session [OF inv True] by simp
qed (use inv in simp)

lemma sys_step_ok: "sys_inv s \<Longrightarrow> \<exists>s'. sys_step op s = Some s' \<and> sys_inv s'"
proof (cases s, cases op)
  fix np hs
  assume inv: "sys_inv s" and s: "s = \<lparr>sy_np = np, sy_hs = hs\<rparr>"
  note inv = inv [unfolded s]
  show ?thesis if "op = Lookup sid rack wack" for sid rack wack unfolding that s by (rule Lookup_ok [OF inv])
  show ?thesis if "op = Attach j dial now" for j dial now unfolding that s by (rule Attach_ok [OF inv])
  show ?thesis if "op = Wake j" for j unfolding that s by (rule Wake_ok [OF inv])
  show ?thesis if "op = SessionClose a err" for a err
    using on_session_ok [OF inv, where a = a and f = "ReplaceableBrowser_Close err"] session_ok_Close unfolding that s by auto
  show ?thesis if "op = SessionError a now c err" for a now c err
    using on_session_ok [OF inv, where a = a and f = "ReplaceableBrowser_Error now (Some c) err"] session_ok_Error unfolding that s by auto
qed

lemma sys_run_ok: "sys_inv s \<Longrightarrow> \<exists>s'. sys_run ops s = Some s' \<and> sys_inv s'"
proof (induction ops arbitrary: s)
  case (Cons op ops)
  then show ?case using sys_step_ok [OF Cons(2), of op] by fastforce
qed simp

lemma sys_inv_start: "sys_inv (sys_start pe)"
  by (simp add: sys_inv_def sys_start_def empty_nassh_def)

section \<open>No handler is forgotten\<close>

lemma waiting_can_wake:
  assumes inv: "sys_inv s" and j: "j < length (sy_hs s)" "sy_hs s ! j = Waiting sid a i"
    and old: "rb_notifier (fst (np_rws (sy_np s) ! a)) \<noteq> Some i"
  shows "w_chans (snd (np_rws (sy_np s) ! a)) ! i \<noteq> []" "i < length (w_chans (snd (np_rws (sy_np s) ! a)))"
proof -
  let ?hs = "sy_hs s" and ?st = "np_rws (sy_np s) ! a"
  have a: "a < length (np_rws (sy_np s))" using inv j nth_mem [OF j(1)] by (force simp: sys_inv_def Let_def)
  then have ok: "session_ok a ?st ?hs" using inv by (simp add: sys_inv_def Let_def)
  have hs: "?hs = take j ?hs @ ?hs ! j # drop (Suc j) ?hs" using j(1) by (rule id_take_nth_drop)
  have held: "chans_held a ?hs = concat (map (holds_chan a) (take j ?hs)) @ i # concat (map (holds_chan a) (drop (Suc j) ?hs))"
    unfolding chans_held_def by (subst hs) (simp add: j)
  then have i: "i \<in> set (chans_held a ?hs)" by simp
  then show i': "i < length (w_chans (snd ?st))" using ok by (auto simp: session_ok_def)
  have "distinct (chans_held a ?hs)" using ok by (simp add: session_ok_def)
  then have none: "\<forall>h \<in> set (take j ?hs) \<union> set (drop (Suc j) ?hs). i \<notin> set (holds_chan a h)"
    unfolding held by auto
  have "(i, n) \<notin> set (received_from a h)" if "i \<notin> set (holds_chan a h)" for h n
    using that by (cases h) auto
  then have "\<forall>h \<in> set ?hs. \<forall>n. (i, n) \<notin> set (received_from a h)"
    using none j(2) by (subst hs) auto
  then have "[g \<leftarrow> received a ?hs. fst g = i] = []" by (auto simp: received_def filter_empty_conv)
  then have r0: "length [g \<leftarrow> received a ?hs. fst g = i] = 0" by simp
  obtain gb w where st: "?st = (gb, w)" by fastforce
  have "browser_inv ((gb, w), received a ?hs)" using ok by (simp add: session_ok_def st)
  then have "sent_to i w (received a ?hs) = 1" using i' old by (simp add: browser_inv_def st)
  then show "w_chans (snd ?st) ! i \<noteq> []" using r0 by (auto simp: sent_to_def st)
qed

text \<open>C15: Whatever requests arrive, connections break and sessions end, in whatever order, no operation
  blocks, and no handler waits in vain: a handler that waits on a session is either the handler of the
  session's current connection, or its message is there and it wakes up.\<close>

theorem no_handler_waits_in_vain:
  "\<exists>s. sys_run ops (sys_start pe) = Some s \<and>
     list_all (\<lambda>j. case sy_hs s ! j of
        Waiting sid a i \<Rightarrow> rb_notifier (fst (np_rws (sy_np s) ! a)) = Some i
          \<or> (\<exists>n w. waiter_Wait (Some i) (snd (np_rws (sy_np s) ! a)) = Some (n, w))
      | _ \<Rightarrow> True) [0..<length (sy_hs s)]"
proof -
  obtain s where s: "sys_run ops (sys_start pe) = Some s" "sys_inv s" using sys_run_ok [OF sys_inv_start] by blast
  have "rb_notifier (fst (np_rws (sy_np s) ! a)) = Some i \<or>
      (\<exists>n w. waiter_Wait (Some i) (snd (np_rws (sy_np s) ! a)) = Some (n, w))"
    if "j < length (sy_hs s)" "sy_hs s ! j = Waiting sid a i" for j sid a i
    using waiting_can_wake [OF s(2) that] unfolding waiter_Wait_def by (cases "rb_notifier (fst (np_rws (sy_np s) ! a)) = Some i") simp_all
  then show ?thesis using s(1) by (auto simp: list_all_iff split: handler.splits)
qed

text \<open>
  Two handlers can both delete a session: one resumes it after the first of its goroutines has closed
  it and before the first handler has deleted it, and the second goroutine closes it again. The number
  of live sessions the expiration computes then wraps around.
\<close>

definition double_delete_run :: "sys_op list" where
  "double_delete_run = [Lookup ''s'' 0 0, Attach 0 True 1, Lookup ''s'' 5 5, SessionClose 0 (Some ''eof''),
     Attach 1 True 2, SessionClose 0 (Some ''eof''), Wake 0, Wake 1]"

lemma session_deleted_twice:
  "map_option (\<lambda>s. (Created (np_sess (sy_np s)), Deleted (np_sess (sy_np s)),
     Created (np_sess (sy_np s)) - Deleted (np_sess (sy_np s)))) (sys_run double_delete_run (sys_start pe)) = Some (1, 2, 2 ^ 64 - 1)"
  by code_simp

end
