(* ===== verification/Go_Strings.thy ===== *)
theory Go_Strings imports Prelude begin

text \<open>
  What the program uses of Go's \<^verbatim>\<open>strings\<close>, \<^verbatim>\<open>strconv\<close> and \<^verbatim>\<open>net\<close> packages, on byte strings. Upper and lower
  case and white space are the ASCII ones.
\<close>

section \<open>Package strings\<close>

definition is_space :: "char \<Rightarrow> bool" where
  "is_space c \<longleftrightarrow> c \<in> {CHR '' '', CHR 0x09, CHR 0x0A, CHR 0x0B, CHR 0x0C, CHR 0x0D}"

definition trim_right :: "(char \<Rightarrow> bool) \<Rightarrow> string \<Rightarrow> string" where
  "trim_right P s = rev (dropWhile P (rev s))"

definition TrimSpace :: "string \<Rightarrow> string" where
  "TrimSpace s = trim_right is_space (dropWhile is_space s)"

definition lower_char :: "char \<Rightarrow> char" where
  "lower_char c = (if 65 \<le> (of_char c :: nat) \<and> (of_char c :: nat) \<le> 90 then char_of ((of_char c :: nat) + 32) else c)"

definition ToLower :: "string \<Rightarrow> string" where
  "ToLower s = map lower_char s"

definition HasPrefix :: "string \<Rightarrow> string \<Rightarrow> bool" where
  "HasPrefix s p \<longleftrightarrow> take (length p) s = p"

definition HasSuffix :: "string \<Rightarrow> string \<Rightarrow> bool" where
  "HasSuffix s p \<longleftrightarrow> length p \<le> length s \<and> drop (length s - length p) s = p"

definition TrimPrefix :: "string \<Rightarrow> string \<Rightarrow> string" where
  "TrimPrefix s p = (if HasPrefix s p then drop (length p) s else s)"

definition TrimSuffix :: "string \<Rightarrow> string \<Rightarrow> string" where
  "TrimSuffix s p = (if HasSuffix s p then take (length s - length p) s else s)"

text \<open>\<^verbatim>\<open>strings.Split\<close> on a one-byte separator, and \<^verbatim>\<open>strings.Join\<close>.\<close>

fun Split :: "string \<Rightarrow> char \<Rightarrow> string list" where
  "Split [] sep = [[]]"
| "Split (c # cs) sep =
    (if c = sep then [] # Split cs sep
     else case Split cs sep of [] \<Rightarrow> [[c]] | p # ps \<Rightarrow> (c # p) # ps)"

fun Join :: "string list \<Rightarrow> string \<Rightarrow> string" where
  "Join [] sep = []"
| "Join [p] sep = p"
| "Join (p # ps) sep = p @ sep @ Join ps sep"

definition IndexByte :: "string \<Rightarrow> char \<Rightarrow> nat option" where
  "IndexByte s c = (if c \<in> set s then Some (length (takeWhile (\<lambda>d. d \<noteq> c) s)) else None)"

definition LastIndexByte :: "string \<Rightarrow> char \<Rightarrow> nat option" where
  "LastIndexByte s c = (if c \<in> set s then Some (length s - 1 - length (takeWhile (\<lambda>d. d \<noteq> c) (rev s))) else None)"

lemma HasPrefix_iff: "HasPrefix s p \<longleftrightarrow> (\<exists>r. s = p @ r)"
  unfolding HasPrefix_def by (metis append_eq_conv_conj append_take_drop_id)

lemma HasSuffix_iff: "HasSuffix s p \<longleftrightarrow> (\<exists>r. s = r @ p)"
proof
  assume "HasSuffix s p"
  then have "s = take (length s - length p) s @ p" by (metis HasSuffix_def append_take_drop_id)
  then show "\<exists>r. s = r @ p" by blast
qed (auto simp: HasSuffix_def)

lemma Split_not_Nil [simp]: "Split s sep \<noteq> []"
  by (induction s) (auto split: list.splits)

lemma Split_none: "sep \<notin> set s \<Longrightarrow> Split s sep = [s]"
  by (induction s) auto

lemma Split_append: "sep \<notin> set s \<Longrightarrow> Split (s @ sep # r) sep = s # Split r sep"
  by (induction s) auto

lemma Split_Join: "ps \<noteq> [] \<Longrightarrow> (\<And>p. p \<in> set ps \<Longrightarrow> sep \<notin> set p) \<Longrightarrow> Split (Join ps [sep]) sep = ps"
  by (induction ps "[sep]" rule: Join.induct) (simp_all add: Split_none Split_append)

lemma Split_parts: "p \<in> set (Split s sep) \<Longrightarrow> sep \<notin> set p"
  by (induction s arbitrary: p) (auto split: if_splits list.splits)

lemma Join_Split: "Join (Split s sep) [sep] = s"
proof (induction s)
  case (Cons c s)
  then show ?case by (cases "Split s sep"; cases "tl (Split s sep)") auto
qed simp

lemma trim_right_idem: "trim_right P (trim_right P s) = trim_right P s"
  by (simp add: trim_right_def dropWhile_idem)

lemma trim_right_prefix: "\<exists>r. s = trim_right P s @ r \<and> (\<forall>c \<in> set r. P c)"
proof -
  have "rev s = takeWhile P (rev s) @ dropWhile P (rev s)" by simp
  then have "s = rev (dropWhile P (rev s)) @ rev (takeWhile P (rev s))" by (metis rev_append rev_rev_ident)
  then show ?thesis unfolding trim_right_def by (metis set_rev set_takeWhileD)
qed

lemma trim_right_last: "trim_right P s \<noteq> [] \<Longrightarrow> \<not> P (last (trim_right P s))"
  by (simp add: trim_right_def last_rev hd_dropWhile)

lemma trim_right_snoc: "\<not> P c \<Longrightarrow> trim_right P (s @ [c]) = s @ [c]"
  by (simp add: trim_right_def)

section \<open>Package strconv\<close>

definition digit :: "nat \<Rightarrow> char" where
  "digit d = char_of (48 + d)"

fun Itoa :: "nat \<Rightarrow> string" where
  "Itoa n = (if n < 10 then [digit n] else Itoa (n div 10) @ [digit (n mod 10)])"

declare Itoa.simps [simp del]

definition digit_val :: "char \<Rightarrow> nat option" where
  "digit_val c = (let n = of_char c in if 48 \<le> n \<and> n \<le> 57 then Some (n - 48) else None)"

fun ParseUint_loop :: "nat \<Rightarrow> nat \<Rightarrow> string \<Rightarrow> nat option" where
  "ParseUint_loop bits n [] = Some n"
| "ParseUint_loop bits n (c # cs) =
    (case digit_val c of None \<Rightarrow> None
     | Some d \<Rightarrow> if n * 10 + d < 2 ^ bits then ParseUint_loop bits (n * 10 + d) cs else None)"

definition ParseUint :: "string \<Rightarrow> nat \<Rightarrow> nat option" where
  "ParseUint s bits = (if s = [] then None else ParseUint_loop bits 0 s)"

lemma digit_val_digit: "d < 10 \<Longrightarrow> digit_val (digit d) = Some d"
  by (simp add: digit_val_def digit_def Let_def)

lemma ParseUint_loop_append: "ParseUint_loop bits n (s @ t) = Option.bind (ParseUint_loop bits n s) (\<lambda>m. ParseUint_loop bits m t)"
  by (induction s arbitrary: n) (auto split: option.splits)

lemma Itoa_not_Nil [simp]: "Itoa n \<noteq> []"
  by (subst Itoa.simps) simp

lemma Itoa_digits: "c \<in> set (Itoa n) \<Longrightarrow> \<exists>d < 10. c = digit d"
proof (induction n rule: Itoa.induct)
  case (1 n)
  show ?case
  proof (cases "n < 10")
    case True
    then show ?thesis using 1(2) by (subst (asm) Itoa.simps) auto
  next
    case False
    then have "c \<in> set (Itoa (n div 10)) \<or> c = digit (n mod 10)" using 1(2) by (subst (asm) Itoa.simps) auto
    then show ?thesis using 1(1) [OF False] by (metis mod_less_divisor zero_less_numeral)
  qed
qed

lemma ParseUint_Itoa: "n < 2 ^ bits \<Longrightarrow> ParseUint (Itoa n) bits = Some n"
proof -
  assume n: "n < 2 ^ bits"
  then have "ParseUint_loop bits 0 (Itoa n) = Some n"
  proof (induction n rule: Itoa.induct)
    case (1 n)
    show ?case
    proof (cases "n < 10")
      case True
      then show ?thesis using 1(2) by (subst Itoa.simps) (simp add: digit_val_digit)
    next
      case False
      have "n div 10 < 2 ^ bits" using 1(2) by (meson div_le_dividend le_less_trans)
      then have "ParseUint_loop bits 0 (Itoa (n div 10)) = Some (n div 10)" using 1(1) False by blast
      then show ?thesis using False 1(2) by (subst Itoa.simps) (simp add: ParseUint_loop_append digit_val_digit)
    qed
  qed
  then show ?thesis by (simp add: ParseUint_def)
qed

lemma ParseUint_bound: "ParseUint s bits = Some n \<Longrightarrow> n < 2 ^ bits"
proof -
  have "ParseUint_loop bits m s = Some n \<Longrightarrow> m < 2 ^ bits \<Longrightarrow> n < 2 ^ bits" for m
    by (induction s arbitrary: m) (auto split: option.splits if_splits)
  moreover have "(0::nat) < 2 ^ bits" by simp
  ultimately show "ParseUint s bits = Some n \<Longrightarrow> n < 2 ^ bits" by (auto simp: ParseUint_def split: if_splits)
qed

section \<open>Package net\<close>

definition JoinHostPort :: "string \<Rightarrow> string \<Rightarrow> string" where
  "JoinHostPort host port =
    (if CHR '':'' \<in> set host then ''['' @ host @ '']:'' @ port else host @ '':'' @ port)"

definition SplitHostPort :: "string \<Rightarrow> (string \<times> string) option" where
  "SplitHostPort hostport =
    (case LastIndexByte hostport (CHR '':'') of
       None \<Rightarrow> None
     | Some i \<Rightarrow>
       (case (if hd hostport = CHR ''['' then
                (case IndexByte hostport (CHR '']'') of
                   None \<Rightarrow> None
                 | Some e \<Rightarrow> if e + 1 = i then Some (take (e - 1) (drop 1 hostport), 1, e + 1) else None)
              else if CHR '':'' \<in> set (take i hostport) then None else Some (take i hostport, 0, 0)) of
          None \<Rightarrow> None
        | Some (host, j, k) \<Rightarrow>
            if CHR ''['' \<in> set (drop j hostport) then None
            else if CHR '']'' \<in> set (drop k hostport) then None
            else Some (host, drop (i + 1) hostport)))"

lemma LastIndexByte_append: "c \<notin> set p \<Longrightarrow> LastIndexByte (h @ c # p) c = Some (length h)"
  by (simp add: LastIndexByte_def takeWhile_append)

lemma IndexByte_append: "c \<notin> set h \<Longrightarrow> IndexByte (h @ c # p) c = Some (length h)"
  by (simp add: IndexByte_def takeWhile_append)

text \<open>What is joined is split again, for names and numeric addresses of both kinds.\<close>

lemma SplitHostPort_JoinHostPort:
  assumes h: "CHR ''['' \<notin> set host" "CHR '']'' \<notin> set host"
    and p: "CHR '':'' \<notin> set port" "CHR ''['' \<notin> set port" "CHR '']'' \<notin> set port"
  shows "SplitHostPort (JoinHostPort host port) = Some (host, port)"
proof (cases "CHR '':'' \<in> set host")
  case True
  define hp where "hp = CHR ''['' # host @ CHR '']'' # CHR '':'' # port"
  have j: "JoinHostPort host port = hp" using True by (simp add: JoinHostPort_def hp_def)
  have i: "LastIndexByte hp (CHR '':'') = Some (Suc (Suc (length host)))"
    using LastIndexByte_append [OF p(1), of "CHR ''['' # host @ [CHR '']'']"] by (simp add: hp_def)
  have e: "IndexByte hp (CHR '']'') = Some (Suc (length host))"
    using IndexByte_append [of "CHR '']''" "CHR ''['' # host" "CHR '':'' # port"] h by (simp add: hp_def)
  have t: "take (length host) (drop 1 hp) = host" "drop (Suc (Suc (length host)) + 1) hp = port"
    "drop 1 hp = host @ CHR '']'' # CHR '':'' # port" "drop (Suc (Suc (length host))) hp = CHR '':'' # port"
    "hd hp = CHR ''[''"
    by (simp_all add: hp_def)
  show ?thesis unfolding j SplitHostPort_def i e using h p t by simp
next
  case False
  have i: "LastIndexByte (host @ CHR '':'' # port) (CHR '':'') = Some (length host)"
    using LastIndexByte_append [OF p(1)] by simp
  have "hd (host @ CHR '':'' # port) \<noteq> CHR ''[''" using h by (cases host) auto
  then show ?thesis using False h p i by (simp add: JoinHostPort_def SplitHostPort_def)
qed

end
