(* ===== verification/Nassh_Http.thy ===== *)
theory Nassh_Http imports Nassh_Sessions Go_Strings begin

text \<open>
  The http handlers of the nassh proxy (\<^verbatim>\<open>proxy/nasshp/nassh.go\<close>) and the resolvers of
  \<^verbatim>\<open>proxy/nasshp/resolver.go\<close>. What is not under \<^verbatim>\<open>src\<close> or talks to the network is an argument: the
  authenticator, the filter, the encoder of session identifiers, and name resolution.

  A handler returns the writes to its response, in order. \<^const>\<open>None\<close> is a panic.
\<close>

section \<open>Requests, answers, environment\<close>

record request =
  rq_params :: "(string \<times> string) list"
  rq_origin :: string

definition params_Get :: "request \<Rightarrow> string \<Rightarrow> string" where
  "params_Get r k = (case map_of (rq_params r) k of None \<Rightarrow> [] | Some v \<Rightarrow> v)"

record url =
  url_Scheme :: string
  url_Path :: string
  url_Fragment :: string

datatype reply = ErrorReply nat | RedirectReply url nat | LineReply string | HeaderReply string string | AuthReply string

type_synonym resolver = "string \<Rightarrow> string \<Rightarrow> gerror + string \<times> string"

record 'c nassh_env =
  ne_authenticator :: "(request \<Rightarrow> url option \<Rightarrow> reply list \<times> (gerror + 'c option)) option"
  ne_filter :: "(string \<Rightarrow> string \<Rightarrow> 'c option \<Rightarrow> Verdict) option"
  ne_resolver :: resolver
  ne_encode :: "string \<Rightarrow> gerror + string"
  ne_decode :: "string \<Rightarrow> gerror + string"
  ne_lookup_host :: "string \<Rightarrow> gerror + string list"

section \<open>Resolvers\<close>

fun MultiResolver_Resolve :: "resolver list \<Rightarrow> resolver" where
  "MultiResolver_Resolve [] host port = Inr (host, port)"
| "MultiResolver_Resolve (r # rs) host port =
    (case r host port of Inl err \<Rightarrow> Inl err | Inr (host', port') \<Rightarrow> MultiResolver_Resolve rs host' port')"

definition FailEmptyHost_Resolve :: resolver where
  "FailEmptyHost_Resolve host port = (if host = [] then Inl ''invalid empty host'' else Inr (host, port))"

definition FailEmptyPort_Resolve :: resolver where
  "FailEmptyPort_Resolve host port = (if port = [] then Inl ''invalid port'' else Inr (host, port))"

text \<open>\<open>lookup_srv\<close> is \<^verbatim>\<open>net.LookupSRV\<close>: the ports of the records it finds.\<close>

definition SRVResolver_Resolve :: "(string \<Rightarrow> gerror + 16 word list) \<Rightarrow> resolver" where
  "SRVResolver_Resolve lookup_srv host port =
    (if port \<noteq> [] then Inr (host, port)
     else case lookup_srv host of
       Inl err \<Rightarrow> Inl ''SRV lookup failed''
     | Inr srvs \<Rightarrow> if length srvs < 1 then Inl ''no SRV records'' else Inr (host, Itoa (unat (srvs ! 0))))"

definition default_resolver :: "(string \<Rightarrow> gerror + 16 word list) \<Rightarrow> resolver" where
  "default_resolver lookup_srv =
    MultiResolver_Resolve [FailEmptyHost_Resolve, SRVResolver_Resolve lookup_srv, FailEmptyPort_Resolve]"

section \<open>Who is let through\<close>

definition LogId_panics :: "string \<Rightarrow> bool" where
  "LogId_panics sid \<longleftrightarrow> sid \<noteq> [] \<and> length sid < 6"

fun merge_verdicts :: "(string \<Rightarrow> string \<Rightarrow> 'c option \<Rightarrow> Verdict) \<Rightarrow> string \<Rightarrow> 'c option \<Rightarrow> string list \<Rightarrow> Verdict \<Rightarrow> Verdict" where
  "merge_verdicts acl port creds [] verdict = verdict"
| "merge_verdicts acl port creds (u # us) verdict =
    merge_verdicts acl port creds us (MergeOnlyAcceptAllow verdict (acl ''tcp'' (JoinHostPort u port) creds))"

definition allow_filter :: "'c nassh_env \<Rightarrow> string \<Rightarrow> 'c option \<Rightarrow> reply list \<Rightarrow> AllowErrors \<Rightarrow> AllowErrors \<times> reply list \<times> bool" where
  "allow_filter env hostport creds ws ce =
    (case ne_filter env of
       None \<Rightarrow> (ce, ws, True)
     | Some acl \<Rightarrow>
       (case SplitHostPort hostport of
          None \<Rightarrow> (ce\<lparr>InvalidHostFormat := Counter_Increment (InvalidHostFormat ce)\<rparr>, ws @ [ErrorReply 401], False)
        | Some (host, port) \<Rightarrow>
          (case ne_lookup_host env host of
             Inl err \<Rightarrow> (ce\<lparr>InvalidHostName := Counter_Increment (InvalidHostName ce)\<rparr>, ws @ [ErrorReply 401], False)
           | Inr res \<Rightarrow>
             if merge_verdicts acl port creds res VerdictUnknown = VerdictAllow then (ce, ws, True)
             else (ce\<lparr>Unauthorized := Counter_Increment (Unauthorized ce)\<rparr>, ws @ [ErrorReply 401], False))))"

text \<open>
  The credentials given to the filter are always nil: the \<^verbatim>\<open>creds\<close> of the authenticated branch is a new
  variable of that block.
\<close>

definition allow :: "'c nassh_env \<Rightarrow> request \<Rightarrow> string \<Rightarrow> string \<Rightarrow> AllowErrors \<Rightarrow> (AllowErrors \<times> reply list \<times> bool) option" where
  "allow env r sid hostport ce =
    (if LogId_panics sid then None
     else case ne_authenticator env of
       None \<Rightarrow> Some (allow_filter env hostport None [] ce)
     | Some auth \<Rightarrow>
       (case auth r None of
          (ws, Inl err) \<Rightarrow> Some (ce\<lparr>InvalidCookie := Counter_Increment (InvalidCookie ce)\<rparr>, ws @ [ErrorReply 400], False)
        | (ws, Inr None) \<Rightarrow> Some (ce, ws, False)
        | (ws, Inr (Some _)) \<Rightarrow> Some (allow_filter env hostport None ws ce)))"

section \<open>The handlers\<close>

definition serveCookie :: "'c nassh_env \<Rightarrow> string \<Rightarrow> request \<Rightarrow> ProxyErrors \<Rightarrow> ProxyErrors \<times> reply list" where
  "serveCookie env relayHost r pe =
    (if relayHost = [] then (pe, [ErrorReply 500])
     else let ext = params_Get r ''ext''; path = params_Get r ''path'' in
       if ext = [] \<or> path = []
       then (pe\<lparr>CookieInvalidParameters := Counter_Increment (CookieInvalidParameters pe)\<rparr>, [ErrorReply 400])
       else let target = \<lparr>url_Scheme = ''chrome-extension'', url_Path = ext @ ''/'' @ path,
                url_Fragment = ''nasshp-enkit@'' @ relayHost\<rparr> in
         (case ne_authenticator env of
            None \<Rightarrow> (pe, [RedirectReply target 307])
          | Some auth \<Rightarrow>
            (case auth r (Some target) of
               (ws, Inl err) \<Rightarrow> (pe\<lparr>CookieInvalidAuth := Counter_Increment (CookieInvalidAuth pe)\<rparr>, ws @ [ErrorReply 400])
             | (ws, Inr None) \<Rightarrow> (pe, ws)
             | (ws, Inr (Some creds)) \<Rightarrow> (pe, ws @ [RedirectReply target 307]))))"

definition ServeCookie :: "'c nassh_env \<Rightarrow> string \<Rightarrow> request \<Rightarrow> ProxyErrors \<Rightarrow> ProxyErrors \<times> reply list" where
  "ServeCookie env relayHost = serveCookie env (TrimSpace relayHost)"

definition OriginMatcher :: "string \<Rightarrow> bool" where
  "OriginMatcher origin \<longleftrightarrow> HasPrefix origin ''chrome://'' \<or> HasPrefix origin ''chrome-extension://''"

definition origin_headers :: "request \<Rightarrow> reply list" where
  "origin_headers r =
    (if rq_origin r \<noteq> [] \<and> OriginMatcher (rq_origin r)
     then [HeaderReply ''Vary'' ''Origin'', HeaderReply ''Access-Control-Allow-Credentials'' ''true'',
           HeaderReply ''Access-Control-Allow-Origin'' (rq_origin r)]
     else [])"

definition ServeProxy_resolved :: "'c nassh_env \<Rightarrow> request \<Rightarrow> reply list \<Rightarrow> ProxyErrors \<Rightarrow> (ProxyErrors \<times> reply list) option" where
  "ServeProxy_resolved env r ws pe =
    (case ne_resolver env (params_Get r ''host'') (params_Get r ''port'') of
       Inl err \<Rightarrow> Some (pe\<lparr>ProxyInvalidHostPort := Counter_Increment (ProxyInvalidHostPort pe)\<rparr>, ws @ [ErrorReply 400])
     | Inr (host, port) \<Rightarrow>
       let hostport = JoinHostPort host port in
       map_option (\<lambda>(ce, ws', allowed).
         let pe = pe\<lparr>ProxyAllow := ce\<rparr>; ws = ws @ ws' in
         if \<not> allowed then (pe, ws)
         else case ne_encode env hostport of
           Inl err \<Rightarrow> (pe\<lparr>ProxyCouldNotEncrypt := Counter_Increment (ProxyCouldNotEncrypt pe)\<rparr>,
             ws @ [ErrorReply 500, LineReply []])
         | Inr sid \<Rightarrow> (pe, ws @ [LineReply sid]))
       (allow env r [] hostport (ProxyAllow pe)))"

definition ServeProxy :: "'c nassh_env \<Rightarrow> request \<Rightarrow> ProxyErrors \<Rightarrow> (ProxyErrors \<times> reply list) option" where
  "ServeProxy env r pe =
    (let hs = origin_headers r in
     case ne_authenticator env of
       None \<Rightarrow> ServeProxy_resolved env r hs pe
     | Some auth \<Rightarrow>
       (case auth r None of
          (ws, Inl err) \<Rightarrow> Some (pe\<lparr>ProxyInvalidAuth := Counter_Increment (ProxyInvalidAuth pe)\<rparr>, hs @ ws @ [ErrorReply 400])
        | (ws, Inr None) \<Rightarrow> Some (pe, hs @ ws)
        | (ws, Inr (Some creds)) \<Rightarrow> ServeProxy_resolved env r (hs @ ws) pe))"

text \<open>
  \<^verbatim>\<open>ServeConnect\<close> up to the call of \<^verbatim>\<open>ProxySsh\<close>: either the answers, or what \<^verbatim>\<open>ProxySsh\<close> is called with.
\<close>

definition parse_position :: "string \<Rightarrow> u32 option" where
  "parse_position s = (if s = [] then Some 0 else map_option of_nat (ParseUint s 32))"

definition ServeConnect :: "'c nassh_env \<Rightarrow> request \<Rightarrow> ProxyErrors
    \<Rightarrow> (ProxyErrors \<times> reply list \<times> (string \<times> u32 \<times> u32 \<times> string) option) option" where
  "ServeConnect env r pe =
    (let sid = params_Get r ''sid''; ack = TrimSpace (params_Get r ''ack''); pos = TrimSpace (params_Get r ''pos'') in
     case ne_decode env sid of
       Inl err \<Rightarrow> Some (pe\<lparr>ConnectInvalidSID := Counter_Increment (ConnectInvalidSID pe)\<rparr>, [ErrorReply 400], None)
     | Inr hostport \<Rightarrow>
       map_option (\<lambda>(ce, ws, allowed).
         let pe = pe\<lparr>ConnectAllow := ce\<rparr> in
         if \<not> allowed then (pe, ws, None)
         else case parse_position ack of
           None \<Rightarrow> (pe\<lparr>ConnectInvalidAck := Counter_Increment (ConnectInvalidAck pe)\<rparr>, ws @ [ErrorReply 400], None)
         | Some rack \<Rightarrow>
           (case parse_position pos of
              None \<Rightarrow> (pe\<lparr>ConnectInvalidPos := Counter_Increment (ConnectInvalidPos pe)\<rparr>, ws @ [ErrorReply 400], None)
            | Some wack \<Rightarrow> (pe, ws, Some (sid, rack, wack, hostport))))
       (allow env r sid hostport (ConnectAllow pe)))"

section \<open>Properties\<close>

definition authenticated :: "'c nassh_env \<Rightarrow> request \<Rightarrow> bool" where
  "authenticated env r \<longleftrightarrow>
    (case ne_authenticator env of None \<Rightarrow> True
     | Some auth \<Rightarrow> (case snd (auth r None) of Inr (Some creds) \<Rightarrow> True | _ \<Rightarrow> False))"

text \<open>Every address the name resolves to is judged; one must be allowed, none may be dropped.\<close>

definition destination_allowed :: "'c nassh_env \<Rightarrow> string \<Rightarrow> bool" where
  "destination_allowed env hostport \<longleftrightarrow>
    (case ne_filter env of None \<Rightarrow> True
     | Some acl \<Rightarrow>
       (case SplitHostPort hostport of None \<Rightarrow> False
        | Some (host, port) \<Rightarrow>
          (case ne_lookup_host env host of Inl err \<Rightarrow> False
           | Inr res \<Rightarrow>
             let verdicts = map (\<lambda>u. acl ''tcp'' (JoinHostPort u port) None) res
             in VerdictAllow \<in> set verdicts \<and> VerdictDrop \<notin> set verdicts)))"

lemma merge_verdicts_foldl:
  "merge_verdicts acl port creds us v = foldl max v (map (\<lambda>u. acl ''tcp'' (JoinHostPort u port) creds) us)"
  by (induction us arbitrary: v) (simp_all add: Merge_is_max)

lemma merge_verdicts_Allow:
  "merge_verdicts acl port creds us VerdictUnknown = VerdictAllow \<longleftrightarrow>
    VerdictAllow \<in> set (map (\<lambda>u. acl ''tcp'' (JoinHostPort u port) creds) us) \<and>
    VerdictDrop \<notin> set (map (\<lambda>u. acl ''tcp'' (JoinHostPort u port) creds) us)"
  unfolding merge_verdicts_foldl foldl_max_verdict by simp

lemma allow_filter_iff:
  "destination_allowed env hostport \<Longrightarrow> allow_filter env hostport None ws ce = (ce, ws, True)"
  "\<not> destination_allowed env hostport \<Longrightarrow>
    \<exists>ce'. allow_filter env hostport None ws ce = (ce', ws @ [ErrorReply 401], False)"
proof -
  have "allow_filter env hostport None ws ce = (ce, ws, True)" if yes: "destination_allowed env hostport"
  proof (cases "ne_filter env")
    case (Some acl)
    then obtain host port where h: "SplitHostPort hostport = Some (host, port)"
      using yes Some by (cases "SplitHostPort hostport") (auto simp: destination_allowed_def)
    then show ?thesis using yes Some
      by (cases "ne_lookup_host env host") (simp_all add: allow_filter_def destination_allowed_def merge_verdicts_Allow Let_def)
  qed (simp add: allow_filter_def)
  then show "destination_allowed env hostport \<Longrightarrow> allow_filter env hostport None ws ce = (ce, ws, True)" .
  assume no: "\<not> destination_allowed env hostport"
  then obtain acl where acl: "ne_filter env = Some acl" by (cases "ne_filter env") (simp_all add: destination_allowed_def)
  show "\<exists>ce'. allow_filter env hostport None ws ce = (ce', ws @ [ErrorReply 401], False)"
  proof (cases "SplitHostPort hostport")
    case (Some hp)
    then show ?thesis using no acl
      by (cases hp; cases "ne_lookup_host env (fst hp)")
        (simp_all add: allow_filter_def destination_allowed_def merge_verdicts_Allow Let_def)
  qed (simp add: allow_filter_def acl)
qed

lemma allow_exact:
  assumes "\<not> LogId_panics sid"
  shows "if authenticated env r \<and> destination_allowed env hostport
    then \<exists>ws. allow env r sid hostport ce = Some (ce, ws, True)
    else \<exists>ce' ws. allow env r sid hostport ce = Some (ce', ws, False)"
proof (cases "ne_authenticator env")
  case None
  then show ?thesis using assms allow_filter_iff(1) [of env hostport "[]" ce] allow_filter_iff(2) [of env hostport "[]" ce]
    by (cases "destination_allowed env hostport") (auto simp: allow_def authenticated_def)
next
  case (Some auth)
  obtain ws res where a: "auth r None = (ws, res)" by fastforce
  show ?thesis
  proof (cases "\<exists>creds. res = Inr (Some creds)")
    case True
    then have "allow env r sid hostport ce = Some (allow_filter env hostport None ws ce)" "authenticated env r"
      using assms Some a by (auto simp: allow_def authenticated_def)
    then show ?thesis using allow_filter_iff(1) [of env hostport ws ce] allow_filter_iff(2) [of env hostport ws ce]
      by (cases "destination_allowed env hostport") auto
  next
    case False
    then have "\<exists>ce' ws. allow env r sid hostport ce = Some (ce', ws, False)" "\<not> authenticated env r"
      using assms Some a by (auto simp: allow_def authenticated_def split: sum.splits option.splits)
    then show ?thesis by simp
  qed
qed

text \<open>C7: A request reaches \<^verbatim>\<open>ProxySsh\<close> exactly when its sid decodes, the user is authenticated, every
  address of the destination passes the filter at that moment (one allowed, none dropped) and both
  positions parse; it then connects to the destination inside the sid and nowhere else.\<close>

theorem ServeConnect_exact:
  assumes "\<And>hp. ne_decode env sid = Inr hp \<Longrightarrow> \<not> LogId_panics sid" "params_Get r ''sid'' = sid"
  shows "(\<exists>pe' ws. ServeConnect env r pe = Some (pe', ws, Some (sid', rack, wack, hostport))) \<longleftrightarrow>
    sid' = sid \<and> ne_decode env sid = Inr hostport \<and> authenticated env r \<and> destination_allowed env hostport
    \<and> parse_position (TrimSpace (params_Get r ''ack'')) = Some rack
    \<and> parse_position (TrimSpace (params_Get r ''pos'')) = Some wack"
proof (cases "ne_decode env sid")
  case (Inl err)
  then show ?thesis using assms by (simp add: ServeConnect_def)
next
  case (Inr hp)
  note a = allow_exact [OF assms(1) [OF Inr], of env r hp "ConnectAllow pe"]
  show ?thesis
  proof (cases "authenticated env r \<and> destination_allowed env hp")
    case True
    then obtain ws where ws: "allow env r sid hp (ConnectAllow pe) = Some (ConnectAllow pe, ws, True)" using a by auto
    show ?thesis using Inr assms(2) True ws
      by (cases "parse_position (TrimSpace (params_Get r ''ack''))"; cases "parse_position (TrimSpace (params_Get r ''pos''))")
        (auto simp: ServeConnect_def Let_def)
  next
    case False
    then obtain ce' ws where "allow env r sid hp (ConnectAllow pe) = Some (ce', ws, False)" using a by auto
    then show ?thesis using Inr assms(2) False by (auto simp: ServeConnect_def Let_def)
  qed
qed

definition demo_env :: "unit nassh_env" where
  "demo_env = \<lparr>ne_authenticator = None, ne_filter = Some (\<lambda>proto hp creds. PatternList_Allow [''*:22''] proto hp),
     ne_resolver = default_resolver (\<lambda>host. Inr [22]), ne_encode = (\<lambda>hp. Inr (''sealed'' @ hp)),
     ne_decode = (\<lambda>sid. if HasPrefix sid ''sealed'' then Inr (drop 6 sid) else Inl ''bad''),
     ne_lookup_host = (\<lambda>host. Inr [''10.0.0.1''])\<rparr>"

definition demo_request :: request where
  "demo_request = \<lparr>rq_params = [(''sid'', ''sealedsrv:22''), (''ack'', '' 12 ''), (''pos'', [])], rq_origin = []\<rparr>"

lemma demo_parts: "params_Get demo_request ''sid'' = ''sealedsrv:22''"
    "parse_position (TrimSpace (params_Get demo_request ''ack'')) = Some 12"
    "parse_position (TrimSpace (params_Get demo_request ''pos'')) = Some 0"
    "SplitHostPort ''srv:22'' = Some (''srv'', ''22'')" "JoinHostPort ''10.0.0.1'' ''22'' = ''10.0.0.1:22''"
    "ne_decode demo_env ''sealedsrv:22'' = Inr ''srv:22''" "\<not> LogId_panics ''sealedsrv:22''"
  by (simp_all add: demo_request_def params_Get_def parse_position_def TrimSpace_def trim_right_def is_space_def
      ParseUint_def digit_val_def Let_def SplitHostPort_def LastIndexByte_def JoinHostPort_def demo_env_def
      HasPrefix_def LogId_panics_def)

lemma demo_pattern: "PatternList_Allow [''*:22''] ''tcp'' ''10.0.0.1:22'' = VerdictAllow"
proof -
  have "list_all plain_char '':22''" by (simp add: plain_char_def)
  then have "filepath_Match ''*:22'' ''tcp|10.0.0.1:22'' = Some True"
    by (intro Star_plain_Match [THEN iffD2] exI [of _ "''tcp|10.0.0.1''"]) simp_all
  then show ?thesis by (simp add: PatternList_Allow_def)
qed

lemma demo_allowed: "destination_allowed demo_env ''srv:22''"
  using demo_pattern by (simp add: destination_allowed_def demo_env_def demo_parts)

theorem ServeConnect_exact_witness:
  "\<exists>pe pe' ws. ServeConnect demo_env demo_request pe = Some (pe', ws, Some (''sealedsrv:22'', 12, 0, ''srv:22''))"
proof -
  have "authenticated demo_env demo_request" by (simp add: authenticated_def demo_env_def)
  then have "\<exists>pe' ws. ServeConnect demo_env demo_request pe = Some (pe', ws, Some (''sealedsrv:22'', 12, 0, ''srv:22''))" for pe
    using ServeConnect_exact [of demo_env "''sealedsrv:22''" demo_request pe "''sealedsrv:22''" 12 0 "''srv:22''"]
      demo_parts demo_allowed by simp
  then show ?thesis by blast
qed

section \<open>From /proxy to /connect\<close>

text \<open>What the handlers need of the encoder: what it has sealed it opens again, and a sid is not short.\<close>

locale sid_encoder =
  fixes encode :: "string \<Rightarrow> gerror + string" and decode :: "string \<Rightarrow> gerror + string"
  assumes opens: "encode x = Inr s \<Longrightarrow> decode s = Inr x"
    and long_enough: "encode x = Inr s \<Longrightarrow> 6 \<le> length s"
begin

lemma encode_inj: "encode x = Inr s \<Longrightarrow> encode y = Inr s \<Longrightarrow> x = y"
  using opens [of x s] opens [of y s] by simp

lemma issued_connects:
  assumes "ne_decode env = decode" "encode hostport = Inr sid"
    and "authenticated env r" "destination_allowed env hostport" "params_Get r ''sid'' = sid"
    and "parse_position (TrimSpace (params_Get r ''ack'')) = Some rack"
    and "parse_position (TrimSpace (params_Get r ''pos'')) = Some wack"
  shows "\<exists>pe' ws. ServeConnect env r pe = Some (pe', ws, Some (sid, rack, wack, hostport))"
proof -
  have "\<not> LogId_panics sid" using long_enough [OF assms(2)] by (simp add: LogId_panics_def)
  moreover have "ne_decode env sid = Inr hostport" using assms(1) opens [OF assms(2)] by simp
  ultimately obtain ws where "allow env r sid hostport (ConnectAllow pe) = Some (ConnectAllow pe, ws, True)"
    using allow_exact [of sid env r hostport "ConnectAllow pe"] assms(3,4) by auto
  then show ?thesis using assms \<open>ne_decode env sid = Inr hostport\<close> by (auto simp: ServeConnect_def Let_def)
qed

end

end
