(* ===== verification/Nassh_Proxy.thy ===== *)
theory Nassh_Proxy imports Nassh_Sessions Send_Window Receive_Window begin

text \<open>
  The two goroutines of a session (\<^verbatim>\<open>proxyFromBrowser\<close> and \<^verbatim>\<open>proxyToBrowser\<close> of
  \<^verbatim>\<open>proxy/nasshp/nassh.go\<close>), as two machines over the state they share: the replaceable browser, the two
  acknowledgements, and the ssh connection. A step begins with what a blocking call returned (the event),
  or where the step before it stopped, and has at most one access to the browser and the
  acknowledgements. Steps of the two machines and changes of the browser interleave in any order.
\<close>

section \<open>Shared state\<close>

record frame =
  fr_conn :: "conn option"
  fr_ack :: u32
  fr_pos :: nat  \<comment> \<open>ghost: the position in the ssh stream the data was taken from\<close>
  fr_data :: bytes

record session =
  ss_browser :: bstate
  ss_browserReadAck :: u32
  ss_browserWriteAck :: u32
  ss_to_ssh :: bytes  \<comment> \<open>what was written to the ssh connection\<close>
  ss_frames :: "frame list"  \<comment> \<open>what was written to browsers\<close>

definition low24 :: "u32 \<Rightarrow> u32" where
  "low24 x = x AND 0xffffff"

definition browser_Close :: "gerror \<Rightarrow> session \<Rightarrow> session option" where
  "browser_Close err ss = map_option (\<lambda>b. ss\<lparr>ss_browser := b\<rparr>) (ReplaceableBrowser_Close (Some err) (ss_browser ss))"

definition browser_Error :: "time \<Rightarrow> conn option \<Rightarrow> gerror \<Rightarrow> session \<Rightarrow> session option" where
  "browser_Error now wc err ss = map_option (\<lambda>b. ss\<lparr>ss_browser := b\<rparr>) (ReplaceableBrowser_Error now wc err (ss_browser ss))"

datatype read_result = ReadData bytes | ReadEOF | ReadErr gerror

section \<open>proxyFromBrowser\<close>

datatype fb_pc =
    FbStart
  | FbResume "conn option" u32
  | FbNext "conn option"
  | FbAck "conn option" bytes
  | FbBody "conn option"
  | FbWrite "conn option"
  | FbClose gerror
  | FbDone gerror

record from_browser =
  fb_pc :: fb_pc
  fb_wrecv :: ReceiveWindow

text \<open>
  What the blocking calls return: \<^verbatim>\<open>NextReader\<close>, \<^verbatim>\<open>Read\<close>, and \<^verbatim>\<open>ssh.Write\<close>, which tells how much it wrote,
  also when it fails.
\<close>

datatype fb_event = FbGo | FbReader "gerror option" | FbRead read_result | FbSsh nat | FbSshFails nat

definition fb_start :: from_browser where
  "fb_start = \<lparr>fb_pc = FbStart, fb_wrecv = NewReceiveWindow\<rparr>"

definition BigEndian_Uint32 :: "bytes \<Rightarrow> u32" where
  "BigEndian_Uint32 bs = (case bs of [a, b, c, d] \<Rightarrow>
     push_bit 24 (ucast a) OR push_bit 16 (ucast b) OR push_bit 8 (ucast c) OR ucast d | _ \<Rightarrow> 0)"

text \<open>
  The top of the loop: \<^verbatim>\<open>GetRack\<close>; then, when the browser resumed, the store of the acknowledgement and the
  reset of the window.
\<close>

definition fb_top :: "from_browser \<Rightarrow> session \<Rightarrow> (from_browser \<times> session) option" where
  "fb_top fb ss =
    (case GetRack (fst (ss_browser ss)) of
       None \<Rightarrow> Some (fb, ss)
     | Some (gb, wc, rack, wack, err) \<Rightarrow>
       let ss = ss\<lparr>ss_browser := (gb, snd (ss_browser ss))\<rparr> in
       (case err of Some e \<Rightarrow> Some (fb\<lparr>fb_pc := FbDone e\<rparr>, ss)
        | None \<Rightarrow> Some (fb\<lparr>fb_pc := (if rack \<noteq> 0 then FbResume wc rack else FbNext wc)\<rparr>, ss)))"

definition fb_resume :: "nat \<Rightarrow> conn option \<Rightarrow> u32 \<Rightarrow> from_browser \<Rightarrow> session \<Rightarrow> (from_browser \<times> session) option" where
  "fb_resume sz wc rack fb ss =
    (let ss = ss\<lparr>ss_browserReadAck := low24 rack\<rparr> in
     case ReceiveWindow_Reset (empty_buffer sz) rack (fb_wrecv fb) of
       (w, Some _) \<Rightarrow> Some (fb\<lparr>fb_pc := FbClose ''browser ack reset failed'', fb_wrecv := w\<rparr>, ss)
     | (w, None) \<Rightarrow> Some (fb\<lparr>fb_pc := FbNext wc, fb_wrecv := w\<rparr>, ss))"

text \<open>An error that ends the goroutine closes the browser first.\<close>

definition fb_close :: "gerror \<Rightarrow> from_browser \<Rightarrow> session \<Rightarrow> (from_browser \<times> session) option" where
  "fb_close err fb ss = map_option (\<lambda>ss. (fb\<lparr>fb_pc := FbDone err\<rparr>, ss)) (browser_Close err ss)"

definition fb_fail :: "time \<Rightarrow> conn option \<Rightarrow> gerror \<Rightarrow> from_browser \<Rightarrow> session \<Rightarrow> (from_browser \<times> session) option" where
  "fb_fail now wc err fb ss = map_option (\<lambda>ss. (fb\<lparr>fb_pc := FbStart\<rparr>, ss)) (browser_Error now wc err ss)"

text \<open>A read of the four bytes of the acknowledgement.\<close>

definition fb_ack :: "time \<Rightarrow> conn option \<Rightarrow> bytes \<Rightarrow> read_result \<Rightarrow> from_browser \<Rightarrow> session \<Rightarrow> (from_browser \<times> session) option" where
  "fb_ack now wc got r fb ss =
    (case r of
       ReadEOF \<Rightarrow> Some (fb\<lparr>fb_pc := FbStart\<rparr>, ss)
     | ReadErr e \<Rightarrow> fb_fail now wc e fb ss
     | ReadData xs \<Rightarrow>
       let got = got @ take (4 - length got) xs in
       if length got < 4 then Some (fb\<lparr>fb_pc := FbAck wc got\<rparr>, ss)
       else let wack = BigEndian_Uint32 got in
         if wack AND 0xff000000 \<noteq> 0 then fb_fail now wc ''browser told us there was an error'' fb ss
         else Some (fb\<lparr>fb_pc := FbBody wc\<rparr>, ss\<lparr>ss_browserWriteAck := wack\<rparr>))"

text \<open>A read of data: \<^verbatim>\<open>ToFill\<close> comes before the read, whatever it returns.\<close>

definition fb_body :: "nat \<Rightarrow> time \<Rightarrow> conn option \<Rightarrow> read_result \<Rightarrow> from_browser \<Rightarrow> session \<Rightarrow> (from_browser \<times> session) option" where
  "fb_body sz now wc r fb ss =
    (let (w, free) = ReceiveWindow_ToFill (empty_buffer sz) (fb_wrecv fb); fb = fb\<lparr>fb_wrecv := w\<rparr> in
     case r of
       ReadEOF \<Rightarrow> Some (fb\<lparr>fb_pc := FbStart\<rparr>, ss)
     | ReadErr e \<Rightarrow> fb_fail now wc e fb ss
     | ReadData xs \<Rightarrow>
       let ys = take free xs in
       map_option (\<lambda>(w, _). (fb\<lparr>fb_pc := FbWrite wc, fb_wrecv := w\<rparr>, ss)) (ReceiveWindow_Fill (length ys) (rw_write ys w)))"

text \<open>The inner loop: with nothing to send it is over; otherwise it waits for \<^verbatim>\<open>ssh.Write\<close>.\<close>

definition fb_write :: "conn option \<Rightarrow> fb_event \<Rightarrow> from_browser \<Rightarrow> session \<Rightarrow> (from_browser \<times> session) option" where
  "fb_write wc ev fb ss =
    (let (w, toSend) = ReceiveWindow_ToEmpty (fb_wrecv fb) in
     if toSend = [] then Some (fb\<lparr>fb_pc := FbBody wc, fb_wrecv := w\<rparr>, ss)
     else case ev of
       FbSshFails n \<Rightarrow> fb_close ''connection write'' (fb\<lparr>fb_wrecv := w\<rparr>) (ss\<lparr>ss_to_ssh := ss_to_ssh ss @ take n toSend\<rparr>)
     | FbSsh n \<Rightarrow>
       let sent = take n toSend; w = ReceiveWindow_Empty (length sent) w in
       Some (fb\<lparr>fb_wrecv := w\<rparr>, ss\<lparr>ss_to_ssh := ss_to_ssh ss @ sent, ss_browserReadAck := low24 (ucast (rw_Emptied w))\<rparr>)
     | _ \<Rightarrow> Some (fb, ss))"

definition fb_step :: "nat \<Rightarrow> time \<Rightarrow> fb_event \<Rightarrow> from_browser \<Rightarrow> session \<Rightarrow> (from_browser \<times> session) option" where
  "fb_step sz now ev fb ss =
    (case fb_pc fb of
       FbStart \<Rightarrow> fb_top fb ss
     | FbResume wc rack \<Rightarrow> fb_resume sz wc rack fb ss
     | FbNext wc \<Rightarrow> (case ev of FbReader (Some e) \<Rightarrow> fb_fail now wc e fb ss
         | FbReader None \<Rightarrow> Some (fb\<lparr>fb_pc := FbAck wc []\<rparr>, ss) | _ \<Rightarrow> Some (fb, ss))
     | FbAck wc got \<Rightarrow> (case ev of FbRead r \<Rightarrow> fb_ack now wc got r fb ss | _ \<Rightarrow> Some (fb, ss))
     | FbBody wc \<Rightarrow> (case ev of FbRead r \<Rightarrow> fb_body sz now wc r fb ss | _ \<Rightarrow> Some (fb, ss))
     | FbWrite wc \<Rightarrow> fb_write wc ev fb ss
     | FbClose e \<Rightarrow> fb_close e fb ss
     | FbDone e \<Rightarrow> Some (fb, ss))"

section \<open>proxyToBrowser\<close>

datatype tb_pc =
    TbTop
  | TbRead
  | TbSend bool
  | TbReset "conn option" u32 u32 bool
  | TbWriter "conn option" u32 u32 bytes
  | TbMessage "conn option" bytes
  | TbClose gerror
  | TbDone gerror

record to_browser =
  tb_pc :: tb_pc
  tb_lastWriteAck :: u32
  tb_wsend :: SendWindow

text \<open>
  What \<^verbatim>\<open>ssh.Read\<close> returned (data, nothing before the deadline, an error), and how far the writes of a
  message to the browser came: the four bytes of the acknowledgement, the data, the end of the message.
  A write that fails may have written some of its bytes.
\<close>

datatype ssh_read = SshData bytes | SshTimeout bytes | SshFails
datatype message_result =
    AckFails gerror
  | DataFails nat gerror
  | FlushFails nat gerror
  | MessageSent nat

datatype tb_event = TbGo | TbSsh ssh_read | TbNextWriter "gerror option" | TbSent message_result

definition tb_start :: to_browser where
  "tb_start = \<lparr>tb_pc = TbTop, tb_lastWriteAck = 0, tb_wsend = NewSendWindow\<rparr>"

definition tb_close :: "gerror \<Rightarrow> to_browser \<Rightarrow> session \<Rightarrow> (to_browser \<times> session) option" where
  "tb_close err tb ss = map_option (\<lambda>ss. (tb\<lparr>tb_pc := TbDone err\<rparr>, ss)) (browser_Close err ss)"

definition tb_top :: "to_browser \<Rightarrow> session \<Rightarrow> (to_browser \<times> session) option" where
  "tb_top tb ss =
    (case SendWindow_AcknowledgeUntil (ss_browserWriteAck ss) (tb_wsend tb) of
       (w, _, Some _) \<Rightarrow> Some (tb\<lparr>tb_pc := TbClose ''could not adjust send buffer'', tb_wsend := w\<rparr>, ss)
     | (w, _, None) \<Rightarrow> Some (tb\<lparr>tb_pc := TbRead, tb_wsend := w\<rparr>, ss))"

definition tb_read :: "nat \<Rightarrow> ssh_read \<Rightarrow> to_browser \<Rightarrow> session \<Rightarrow> (to_browser \<times> session) option" where
  "tb_read sz r tb ss =
    (let (w, free) = SendWindow_ToFill (empty_buffer sz) (tb_wsend tb);
         got = (\<lambda>xs. let ys = take free xs in
           map_option (\<lambda>(w, _). (tb\<lparr>tb_wsend := w, tb_pc := TbSend (ss_browserReadAck ss \<noteq> tb_lastWriteAck tb)\<rparr>, ss))
             (SendWindow_Fill (length ys) (sw_write ys w)))
     in case r of
       SshFails \<Rightarrow> tb_close ''connection read returned'' (tb\<lparr>tb_wsend := w\<rparr>) ss
     | SshData xs \<Rightarrow> got xs
     | SshTimeout xs \<Rightarrow> got xs)"

text \<open>
  The inner loop: \<^verbatim>\<open>GetWack\<close>; when the browser resumed, the store of its acknowledgement and the reset of
  the window; then there is a message to write, or nothing to do.
\<close>

definition tb_ready :: "conn option \<Rightarrow> u32 \<Rightarrow> u32 \<Rightarrow> bool \<Rightarrow> to_browser \<Rightarrow> to_browser" where
  "tb_ready wc rack wack force tb =
    (let (w, toWrite) = SendWindow_ToEmpty (tb_wsend tb) in
     if toWrite = [] \<and> \<not> force then tb\<lparr>tb_pc := TbTop, tb_wsend := w\<rparr>
     else tb\<lparr>tb_pc := TbWriter wc rack wack toWrite, tb_wsend := w\<rparr>)"

definition tb_send :: "bool \<Rightarrow> to_browser \<Rightarrow> session \<Rightarrow> (to_browser \<times> session) option" where
  "tb_send force tb ss =
    (case GetWack (fst (ss_browser ss)) of
       None \<Rightarrow> Some (tb, ss)
     | Some (gb, wc, rack, wack, err) \<Rightarrow>
       let ss = ss\<lparr>ss_browser := (gb, snd (ss_browser ss))\<rparr> in
       (case err of Some e \<Rightarrow> Some (tb\<lparr>tb_pc := TbDone e\<rparr>, ss)
        | None \<Rightarrow> Some (if wack \<noteq> 0 then tb\<lparr>tb_pc := TbReset wc rack wack force\<rparr> else tb_ready wc rack wack force tb, ss)))"

definition tb_reset :: "conn option \<Rightarrow> u32 \<Rightarrow> u32 \<Rightarrow> bool \<Rightarrow> to_browser \<Rightarrow> session \<Rightarrow> (to_browser \<times> session) option" where
  "tb_reset wc rack wack force tb ss =
    (let ss = ss\<lparr>ss_browserWriteAck := wack\<rparr> in
     case SendWindow_Reset wack (tb_wsend tb) of
       (w, Some _) \<Rightarrow> Some (tb\<lparr>tb_pc := TbClose ''client ack reset failed'', tb_wsend := w\<rparr>, ss)
     | (w, None) \<Rightarrow> Some (tb_ready wc rack wack force (tb\<lparr>tb_wsend := w\<rparr>), ss))"

definition tb_fail :: "time \<Rightarrow> conn option \<Rightarrow> gerror \<Rightarrow> to_browser \<Rightarrow> session \<Rightarrow> (to_browser \<times> session) option" where
  "tb_fail now wc err tb ss = map_option (\<lambda>ss. (tb\<lparr>tb_pc := TbSend False\<rparr>, ss)) (browser_Error now wc err ss)"

text \<open>
  The message: once there is a writer, the acknowledgement to send is fixed, that of the browser while
  its resume is pending, the shared one otherwise. Then the bytes go out.
\<close>

definition tb_writer :: "time \<Rightarrow> conn option \<Rightarrow> u32 \<Rightarrow> u32 \<Rightarrow> bytes \<Rightarrow> gerror option \<Rightarrow> to_browser \<Rightarrow> session
    \<Rightarrow> (to_browser \<times> session) option" where
  "tb_writer now wc rack wack toWrite r tb ss =
    (case r of Some e \<Rightarrow> tb_fail now wc e tb ss
     | None \<Rightarrow> Some (tb\<lparr>tb_pc := TbMessage wc toWrite, tb_lastWriteAck := (if wack \<noteq> 0 then rack else ss_browserReadAck ss)\<rparr>, ss))"

definition add_frame :: "conn option \<Rightarrow> to_browser \<Rightarrow> bytes \<Rightarrow> session \<Rightarrow> session" where
  "add_frame wc tb chunk ss = ss\<lparr>ss_frames := ss_frames ss @ [\<lparr>fr_conn = wc, fr_ack = low24 (tb_lastWriteAck tb),
     fr_pos = unat (sw_Emptied (tb_wsend tb)), fr_data = chunk\<rparr>]\<rparr>"

definition tb_write :: "time \<Rightarrow> conn option \<Rightarrow> bytes \<Rightarrow> message_result \<Rightarrow> to_browser \<Rightarrow> session
    \<Rightarrow> (to_browser \<times> session) option" where
  "tb_write now wc toWrite m tb ss =
    (let emptied = (\<lambda>n. tb\<lparr>tb_wsend := SendWindow_Empty (length (take n toWrite)) (tb_wsend tb)\<rparr>)
     in case m of
       AckFails e \<Rightarrow> tb_fail now wc e tb (add_frame wc tb [] ss)
     | DataFails n e \<Rightarrow> tb_fail now wc e tb (add_frame wc tb (take n toWrite) ss)
     | FlushFails n e \<Rightarrow> tb_fail now wc e (emptied n) (add_frame wc tb (take n toWrite) ss)
     | MessageSent n \<Rightarrow> Some ((emptied n)\<lparr>tb_pc := TbSend False\<rparr>, add_frame wc tb (take n toWrite) ss))"

definition tb_step :: "nat \<Rightarrow> time \<Rightarrow> tb_event \<Rightarrow> to_browser \<Rightarrow> session \<Rightarrow> (to_browser \<times> session) option" where
  "tb_step sz now ev tb ss =
    (case tb_pc tb of
       TbTop \<Rightarrow> tb_top tb ss
     | TbRead \<Rightarrow> (case ev of TbSsh r \<Rightarrow> tb_read sz r tb ss | _ \<Rightarrow> Some (tb, ss))
     | TbSend force \<Rightarrow> tb_send force tb ss
     | TbReset wc rack wack force \<Rightarrow> tb_reset wc rack wack force tb ss
     | TbWriter wc rack wack toWrite \<Rightarrow>
         (case ev of TbNextWriter r \<Rightarrow> tb_writer now wc rack wack toWrite r tb ss | _ \<Rightarrow> Some (tb, ss))
     | TbMessage wc toWrite \<Rightarrow> (case ev of TbSent m \<Rightarrow> tb_write now wc toWrite m tb ss | _ \<Rightarrow> Some (tb, ss))
     | TbClose e \<Rightarrow> tb_close e tb ss
     | TbDone e \<Rightarrow> Some (tb, ss))"

end
