(* ===== verification/Nassh_Proxy_Props.thy ===== *)
theory Nassh_Proxy_Props imports Nassh_Proxy begin

text \<open>
  A session end to end: the two goroutines and the changes of the browser in any interleaving. What
  reaches ssh is a prefix of the browser's stream, what reaches the browsers is the ssh stream, and every
  acknowledgement, in the shared state and in the messages to the browsers, counts bytes that had been
  written to ssh.
\<close>

section \<open>Histories\<close>

text \<open>
  Beside the machines the history keeps the position from which the browser sends next in its
  stream \<open>U\<close>, and the bytes read from ssh so far.
\<close>

record px =
  px_ss :: session
  px_fb :: from_browser
  px_tb :: to_browser
  px_pos :: nat
  px_read :: bytes

datatype px_event =
    FromBrowser time fb_event
  | ToBrowser time tb_event
  | NewBrowser time conn u32 u32
  | CloseBrowser gerror
  | BrowserLost time conn gerror

definition px_start :: px where
  "px_start = \<lparr>px_ss = \<lparr>ss_browser = newReadWriter, ss_browserReadAck = 0, ss_browserWriteAck = 0, ss_to_ssh = [], ss_frames = []\<rparr>,
     px_fb = fb_start, px_tb = tb_start, px_pos = 0, px_read = []\<rparr>"

text \<open>The position after a step: a reset moves it to where the browser resumes, data moves it on.\<close>

definition fb_resumes :: "from_browser \<Rightarrow> u32 option" where
  "fb_resumes fb = (case fb_pc fb of FbResume wc rack \<Rightarrow> Some rack | _ \<Rightarrow> None)"

definition fb_receives :: "nat \<Rightarrow> fb_event \<Rightarrow> from_browser \<Rightarrow> bytes" where
  "fb_receives sz ev fb =
    (case (fb_pc fb, ev) of
       (FbBody wc, FbRead (ReadData xs)) \<Rightarrow> take (snd (ReceiveWindow_ToFill (empty_buffer sz) (fb_wrecv fb))) xs
     | _ \<Rightarrow> [])"

definition fb_next_pos :: "nat \<Rightarrow> fb_event \<Rightarrow> from_browser \<Rightarrow> nat \<Rightarrow> nat" where
  "fb_next_pos sz ev fb pos =
    (case fb_resumes fb of
       Some rack \<Rightarrow> if snd (ReceiveWindow_Reset (empty_buffer sz) rack (fb_wrecv fb)) = None
         then unat (ToAbsolute (rw_Emptied (fb_wrecv fb)) rack) else pos
     | None \<Rightarrow> pos + length (fb_receives sz ev fb))"

definition tb_reads :: "nat \<Rightarrow> tb_event \<Rightarrow> to_browser \<Rightarrow> bytes" where
  "tb_reads sz ev tb =
    (let free = snd (SendWindow_ToFill (empty_buffer sz) (tb_wsend tb)) in
     case (tb_pc tb, ev) of (TbRead, TbSsh (SshData xs)) \<Rightarrow> take free xs
       | (TbRead, TbSsh (SshTimeout xs)) \<Rightarrow> take free xs | _ \<Rightarrow> [])"

text \<open>
  What is asked of the browser: it sends its stream from its position; it comes back with the
  acknowledgement of a message that was written to it, or with 0 when it has none; and the position it
  resumes from is not 0, and not the one it was told last while an earlier resume is still to be processed.
\<close>

definition resume_honest :: "u32 \<Rightarrow> px \<Rightarrow> bool" where
  "resume_honest rack p \<longleftrightarrow> rack = 0 \<or> rack \<in> set (map fr_ack (ss_frames (px_ss p)))"

definition browser_honest :: "nat \<Rightarrow> bytes \<Rightarrow> fb_event \<Rightarrow> px \<Rightarrow> bool" where
  "browser_honest sz U ev p \<longleftrightarrow>
    (case fb_resumes (px_fb p) of
       Some rack \<Rightarrow> rw_guard (Reconnect rack) (fb_wrecv (px_fb p), px_pos p, ss_to_ssh (px_ss p))
     | None \<Rightarrow> (let ys = fb_receives sz ev (px_fb p) in take (length ys) (drop (px_pos p) U) = ys))"

fun event_honest :: "nat \<Rightarrow> bytes \<Rightarrow> px_event \<Rightarrow> px \<Rightarrow> bool" where
  "event_honest sz U (FromBrowser now ev) p = browser_honest sz U ev p"
| "event_honest sz U (NewBrowser now c rack wack) p = resume_honest rack p"
| "event_honest sz U e p = True"

fun px_step :: "nat \<Rightarrow> px_event \<Rightarrow> px \<Rightarrow> px option" where
  "px_step sz (FromBrowser now ev) p =
    map_option (\<lambda>(fb, ss). p\<lparr>px_fb := fb, px_ss := ss, px_pos := fb_next_pos sz ev (px_fb p) (px_pos p)\<rparr>)
      (fb_step sz now ev (px_fb p) (px_ss p))"
| "px_step sz (ToBrowser now ev) p =
    map_option (\<lambda>(tb, ss). p\<lparr>px_tb := tb, px_ss := ss, px_read := px_read p @ tb_reads sz ev (px_tb p)\<rparr>)
      (tb_step sz now ev (px_tb p) (px_ss p))"
| "px_step sz (NewBrowser now c rack wack) p =
    map_option (\<lambda>(b, ch). p\<lparr>px_ss := (px_ss p)\<lparr>ss_browser := b\<rparr>\<rparr>)
      (ReplaceableBrowser_Set now (Some c) rack wack (ss_browser (px_ss p)))"
| "px_step sz (CloseBrowser err) p = map_option (\<lambda>ss. p\<lparr>px_ss := ss\<rparr>) (browser_Close err (px_ss p))"
| "px_step sz (BrowserLost now c err) p = map_option (\<lambda>ss. p\<lparr>px_ss := ss\<rparr>) (browser_Error now (Some c) err (px_ss p))"

fun px_run :: "nat \<Rightarrow> px_event list \<Rightarrow> px \<Rightarrow> px option" where
  "px_run sz [] p = Some p"
| "px_run sz (e # es) p = (case px_step sz e p of None \<Rightarrow> None | Some p \<Rightarrow> px_run sz es p)"

fun px_honest :: "nat \<Rightarrow> bytes \<Rightarrow> px_event list \<Rightarrow> px \<Rightarrow> bool" where
  "px_honest sz U [] p = True"
| "px_honest sz U (e # es) p =
    (event_honest sz U e p \<and> (case px_step sz e p of None \<Rightarrow> True | Some p \<Rightarrow> px_honest sz U es p))"

text \<open>How many bytes had been written to ssh, before every step and after the last one.\<close>

fun px_marks :: "nat \<Rightarrow> px_event list \<Rightarrow> px \<Rightarrow> nat list" where
  "px_marks sz [] p = [length (ss_to_ssh (px_ss p))]"
| "px_marks sz (e # es) p = length (ss_to_ssh (px_ss p)) # (case px_step sz e p of None \<Rightarrow> [] | Some p \<Rightarrow> px_marks sz es p)"

section \<open>Low bits\<close>

lemma low24_take_bit: "low24 x = take_bit 24 x"
proof -
  have "(0xffffff :: u32) = mask 24" by (simp add: mask_eq_exp_minus_1)
  then show ?thesis by (simp add: low24_def take_bit_eq_mask)
qed

lemma low24_idem [simp]: "low24 (low24 x) = low24 x" "low24 0 = 0"
  by (simp_all add: low24_def and.assoc)

lemma take_bit24_shift: "take_bit 24 (a + 0x1000000 :: u64) = take_bit 24 a" "take_bit 24 (a - 0x1000000 :: u64) = take_bit 24 a"
proof -
  have dvd: "(x mod 18446744073709551616) mod 16777216 = x mod (16777216 :: nat)" for x
    by (rule mod_mod_cancel) simp
  have m: "unat (- 0x1000000 :: u64) = 1099511627775 * 16777216" "unat (0x1000000 :: u64) = 1 * 16777216" by simp_all
  have k: "(x + c * 16777216) mod 16777216 = x mod (16777216 :: nat)" for x c by (rule mod_mult_self1)
  have p: "2 ^ 24 = (16777216 :: nat)" "2 ^ LENGTH(64) = (18446744073709551616 :: nat)" by simp_all
  have "unat (take_bit 24 (a + 0x1000000 :: u64)) = unat (take_bit 24 a)"
    "unat (take_bit 24 (a + (- 0x1000000) :: u64)) = unat (take_bit 24 a)"
    unfolding unat_low24 unat_word_ariths(1) m p dvd k by (rule refl)+
  then show "take_bit 24 (a + 0x1000000 :: u64) = take_bit 24 a" "take_bit 24 (a - 0x1000000 :: u64) = take_bit 24 a"
    unfolding word_unat_eq_iff by simp_all
qed

lemma ToAbsolute_low24: "low24 (ucast (ToAbsolute ref trunc)) = low24 trunc"
proof -
  have "take_bit 24 (ref AND NOT 0xffffff) = 0"
    using low24 [of "ref AND NOT 0xffffff"] by (simp add: and.assoc flip: take_bit_eq_mask)
  then have or: "take_bit 24 (x OR ucast trunc) = take_bit 24 (ucast trunc :: u64)"
    if "take_bit 24 x = take_bit 24 (ref AND NOT 0xffffff)" for x :: u64
    using that by (simp add: take_bit_or)
  have "take_bit 24 (ToAbsolute ref trunc) = take_bit 24 (ucast trunc :: u64)"
    unfolding ToAbsolute_def Let_def using or take_bit24_shift by (simp split: if_splits)
  then have "take_bit 24 (ucast (ToAbsolute ref trunc) :: u32) = take_bit 24 (ucast (ucast trunc :: u64))"
    by (metis unsigned_take_bit_eq)
  moreover have "(ucast (ucast trunc :: u64) :: u32) = trunc" by (rule bit_word_eqI) (auto simp: bit_simps)
  ultimately show ?thesis by (simp add: low24_take_bit)
qed

lemma low24_of_nat: "low24 (ucast (w :: u64)) = low24 (of_nat (unat w))"
  by (simp add: low24_take_bit)

section \<open>The goroutine from the browser\<close>

definition browser_good :: "session \<Rightarrow> bool" where
  "browser_good ss \<longleftrightarrow> (\<exists>got. browser_inv (ss_browser ss, got))"

text \<open>Before a message is read everything received has been written.\<close>

definition drained_pc :: "fb_pc \<Rightarrow> bool" where
  "drained_pc pc \<longleftrightarrow> (case pc of FbWrite wc \<Rightarrow> False | FbDone e \<Rightarrow> False | FbClose e \<Rightarrow> False | _ \<Rightarrow> True)"

definition running_pc :: "fb_pc \<Rightarrow> bool" where
  "running_pc pc \<longleftrightarrow> (case pc of FbDone e \<Rightarrow> False | _ \<Rightarrow> True)"

definition writing_pc :: "fb_pc \<Rightarrow> bool" where
  "writing_pc pc \<longleftrightarrow> (case pc of FbWrite wc \<Rightarrow> True | _ \<Rightarrow> False)"

lemmas fb_pc_classes = drained_pc_def running_pc_def writing_pc_def

text \<open>
  How few buffers the goroutine keeps: \<^verbatim>\<open>ToEmpty\<close> looks at the first two only, so that it finds all there is
  needs that no more are left.
\<close>

definition drained :: "ReceiveWindow \<Rightarrow> bool" where
  "drained w \<longleftrightarrow> rw_unread w = [] \<and> length (rw_buffer w) \<le> 2
    \<and> (length (rw_buffer w) = 2 \<longrightarrow> blen (last (rw_buffer w)) = 0)"

definition draining :: "ReceiveWindow \<Rightarrow> bool" where
  "draining w \<longleftrightarrow> length (rw_buffer w) \<le> 2 \<and> (length (rw_buffer w) = 2 \<longrightarrow> unread (hd (rw_buffer w)) = [])"

definition fb_inv :: "nat \<Rightarrow> bytes \<Rightarrow> from_browser \<Rightarrow> session \<Rightarrow> nat \<Rightarrow> bool" where
  "fb_inv sz U fb ss pos \<longleftrightarrow> (\<exists>k. ss_to_ssh ss = take k U)
    \<and> (running_pc (fb_pc fb) \<longrightarrow> rw_history_ok sz U (fb_wrecv fb, pos, ss_to_ssh ss))
    \<and> (drained_pc (fb_pc fb) \<longrightarrow> drained (fb_wrecv fb)) \<and> (writing_pc (fb_pc fb) \<longrightarrow> draining (fb_wrecv fb))"

lemma fb_invD:
  assumes "fb_inv sz U fb ss pos"
  shows "running_pc (fb_pc fb) \<Longrightarrow> rw_inv sz U pos (fb_wrecv fb)"
    "running_pc (fb_pc fb) \<Longrightarrow> ss_to_ssh ss = take (unat (rw_Emptied (fb_wrecv fb))) U"
    "drained_pc (fb_pc fb) \<Longrightarrow> drained (fb_wrecv fb)" "writing_pc (fb_pc fb) \<Longrightarrow> draining (fb_wrecv fb)"
  using assms by (simp_all add: fb_inv_def rw_history_ok_def)

lemma fb_invI:
  assumes "rw_inv sz U pos (fb_wrecv fb)" "ss_to_ssh ss = take (unat (rw_Emptied (fb_wrecv fb))) U"
    "drained_pc (fb_pc fb) \<Longrightarrow> drained (fb_wrecv fb)" "writing_pc (fb_pc fb) \<Longrightarrow> draining (fb_wrecv fb)"
  shows "fb_inv sz U fb ss pos"
  using assms by (auto simp: fb_inv_def rw_history_ok_def)

lemma fb_inv_written:
  assumes "fb_inv sz U fb ss pos" "running_pc (fb_pc fb)"
  shows "length (ss_to_ssh ss) = unat (rw_Emptied (fb_wrecv fb))"
proof -
  have h: "rw_inv sz U pos (fb_wrecv fb)" "ss_to_ssh ss = take (unat (rw_Emptied (fb_wrecv fb))) U"
    using fb_invD [OF assms(1)] assms(2) by blast+
  have "unat (rw_Emptied (fb_wrecv fb)) \<le> length U" using rw_inv_lengths(1) [OF h(1)] h(1) by (simp add: rw_inv_def)
  then show ?thesis unfolding h(2) by (simp add: min_absorb2)
qed

lemma browser_Close_good:
  assumes "browser_good ss"
  shows "\<exists>b. browser_Close err ss = Some (ss\<lparr>ss_browser := b\<rparr>) \<and> browser_good (ss\<lparr>ss_browser := b\<rparr>)"
proof -
  obtain gb w got where s: "ss_browser ss = (gb, w)" "browser_inv ((gb, w), got)"
    using assms by (cases "ss_browser ss") (auto simp: browser_good_def)
  show ?thesis using Close_ok [OF s(2), of "Some err"] s(1) by (auto simp: browser_Close_def browser_good_def)
qed

lemma browser_Error_good:
  assumes "browser_good ss"
  shows "\<exists>b. browser_Error now wc err ss = Some (ss\<lparr>ss_browser := b\<rparr>) \<and> browser_good (ss\<lparr>ss_browser := b\<rparr>)"
proof -
  obtain gb w got where s: "ss_browser ss = (gb, w)" "browser_inv ((gb, w), got)"
    using assms by (cases "ss_browser ss") (auto simp: browser_good_def)
  from Error_ok [OF s(2), of now wc err] show ?thesis
    using s(1) by (fastforce simp: browser_Error_def browser_good_def)
qed

lemma GetRack_good:
  assumes "browser_good ss" "GetRack (fst (ss_browser ss)) = Some (gb, r)"
  shows "browser_good (ss\<lparr>ss_browser := (gb, snd (ss_browser ss))\<rparr>)"
proof -
  obtain gb0 w got where s: "ss_browser ss = (gb0, w)" "browser_inv ((gb0, w), got)"
    using assms by (cases "ss_browser ss") (auto simp: browser_good_def)
  have "browser_inv ((gb, w), got)"
    by (rule browser_inv_same [OF s(2)]) (use assms(2) s(1) in \<open>auto simp: GetRack_def Let_def split: if_splits\<close>)
  then show ?thesis using s by (auto simp: browser_good_def)
qed

lemma GetWack_good:
  assumes "browser_good ss" "GetWack (fst (ss_browser ss)) = Some (gb, r)"
  shows "browser_good (ss\<lparr>ss_browser := (gb, snd (ss_browser ss))\<rparr>)"
proof -
  obtain gb0 w got where s: "ss_browser ss = (gb0, w)" "browser_inv ((gb0, w), got)"
    using assms by (cases "ss_browser ss") (auto simp: browser_good_def)
  have "browser_inv ((gb, w), got)"
    by (rule browser_inv_same [OF s(2)]) (use assms(2) s(1) in \<open>auto simp: GetWack_def Let_def split: if_splits\<close>)
  then show ?thesis using s by (auto simp: browser_good_def)
qed

text \<open>What a step of one goroutine may do to the state the other one sees.\<close>

definition tb_frame :: "session \<Rightarrow> session \<Rightarrow> bool" where
  "tb_frame ss ss' \<longleftrightarrow> ss_to_ssh ss' = ss_to_ssh ss \<and> ss_browserReadAck ss' = ss_browserReadAck ss"

definition fb_good_step :: "nat \<Rightarrow> bytes \<Rightarrow> session \<Rightarrow> nat \<Rightarrow> (from_browser \<times> session) option \<Rightarrow> bool" where
  "fb_good_step sz U ss pos r \<longleftrightarrow>
    (\<exists>fb' ss'. r = Some (fb', ss') \<and> fb_inv sz U fb' ss' pos \<and> browser_good ss' \<and> ss_frames ss' = ss_frames ss
      \<and> length (ss_to_ssh ss) \<le> length (ss_to_ssh ss'))"

lemma fb_good_stepI:
  "fb_inv sz U fb' ss' pos \<Longrightarrow> browser_good ss' \<Longrightarrow> ss_frames ss' = ss_frames ss
    \<Longrightarrow> length (ss_to_ssh ss) \<le> length (ss_to_ssh ss') \<Longrightarrow> fb_good_step sz U ss pos (Some (fb', ss'))"
  by (auto simp: fb_good_step_def)

lemma fb_inv_browser [simp]:
  "fb_inv sz U fb (ss\<lparr>ss_browser := b\<rparr>) pos = fb_inv sz U fb ss pos"
  "fb_inv sz U fb (ss\<lparr>ss_browserWriteAck := x\<rparr>) pos = fb_inv sz U fb ss pos"
  "fb_inv sz U fb (ss\<lparr>ss_browserReadAck := x\<rparr>) pos = fb_inv sz U fb ss pos"
  "browser_good (ss\<lparr>ss_browserWriteAck := x\<rparr>) = browser_good ss"
  "browser_good (ss\<lparr>ss_browserReadAck := y\<rparr>) = browser_good ss"
  "browser_good (ss\<lparr>ss_to_ssh := z\<rparr>) = browser_good ss"
  "browser_good (ss\<lparr>ss_frames := f\<rparr>) = browser_good ss"
  by (simp_all add: fb_inv_def browser_good_def)

lemma fb_fail_ok:
  assumes "fb_inv sz U (fb\<lparr>fb_pc := FbStart\<rparr>) ss pos" "browser_good ss"
  shows "fb_good_step sz U ss pos (fb_fail now wc e fb ss)"
  using browser_Error_good [OF assms(2), of now wc e] assms(1)
  by (auto simp: fb_fail_def fb_good_step_def)

lemma fb_inv_pc:
  assumes "fb_inv sz U fb ss pos" "drained_pc (fb_pc fb)" "drained_pc pc"
  shows "fb_inv sz U (fb\<lparr>fb_pc := pc\<rparr>) ss pos"
  using assms by (cases "fb_pc fb"; cases pc) (auto simp: fb_inv_def fb_pc_classes)

lemma fb_ack_ok:
  assumes inv: "fb_inv sz U fb ss pos" and g: "browser_good ss" and pc: "fb_pc fb = FbAck wc0 got"
  shows "fb_good_step sz U ss pos (fb_ack now wc got r fb ss)"
proof -
  have st: "fb_inv sz U (fb\<lparr>fb_pc := q\<rparr>) ss pos" if "drained_pc q" for q
    by (rule fb_inv_pc [OF inv]) (simp_all add: pc drained_pc_def that [unfolded drained_pc_def])
  have start: "fb_inv sz U (fb\<lparr>fb_pc := FbStart\<rparr>) ss pos" by (rule st) (simp add: drained_pc_def)
  note fail = fb_fail_ok [OF start g]
  show ?thesis
    by (cases r) (use st g fail start in \<open>auto simp: fb_ack_def Let_def drained_pc_def intro!: fb_good_stepI\<close>)
qed

lemma rw_ToFill_fields:
  "ReceiveWindow_ToFill fresh w = (w1, free) \<Longrightarrow> rw_Filled w1 = rw_Filled w \<and> rw_Emptied w1 = rw_Emptied w \<and> rw_reset w1 = rw_reset w"
  by (auto simp: ReceiveWindow_ToFill_def split: prod.splits)

lemma rw_unread_empty:
  assumes "rw_inv sz U pos w"
  shows "rw_unread w = [] \<longleftrightarrow> rw_Filled w = rw_Emptied w"
proof -
  have "length (rw_unread w) = unat (rw_Filled w) - unat (rw_Emptied w)" "unat (rw_Emptied w) \<le> unat (rw_Filled w)"
    using rw_inv_lengths [OF assms] by blast+
  then have "rw_unread w = [] \<longleftrightarrow> unat (rw_Filled w) = unat (rw_Emptied w)" by (metis diff_self_eq_0 le_antisym diff_is_0_eq length_0_conv)
  then show ?thesis by (simp only: word_unat_eq_iff)
qed

lemma drained_ToFill:
  assumes d: "drained w" and inv: "rw_inv sz U pos w" and run: "ReceiveWindow_ToFill (empty_buffer sz) w = (w1, free)"
    and inv1: "rw_inv sz U pos w1"
  shows "drained w1 \<and> draining w1"
proof -
  have u: "rw_unread w1 = []" using d rw_unread_empty [OF inv] rw_unread_empty [OF inv1] rw_ToFill_fields [OF run]
    by (simp add: drained_def)
  have sz: "0 < sz" using inv by (simp add: rw_inv_def)
  obtain bs' where b: "buffers_ToFill (empty_buffer sz) (rw_buffer w) = (bs', free)" "w1 = w\<lparr>rw_buffer := bs'\<rparr>"
    using run by (auto simp: ReceiveWindow_ToFill_def split: prod.splits)
  have e: "blen (empty_buffer sz) = 0" by (simp add: empty_buffer_def)
  have "length bs' \<le> 2 \<and> (length bs' = 2 \<longrightarrow> blen (last bs') = 0)"
    using b(1) empty_buffer_fresh sz
  proof (cases rule: buffers_ToFill_cases)
    case (same ini l)
    then show ?thesis using d by (simp add: drained_def)
  next
    case new
    have "length (rw_buffer w) \<noteq> 2"
    proof
      assume two: "length (rw_buffer w) = 2"
      then have "blen (last (rw_buffer w)) = 0" "last (rw_buffer w) \<in> set (rw_buffer w)" using d
        by (auto simp: drained_def intro: last_in_set)
      moreover from this have "bcap (last (rw_buffer w)) = sz"
        using inv by (auto simp: rw_inv_def rw_shape_def buffer_ok_def)
      ultimately show False using new two sz by auto
    qed
    then show ?thesis using new d e by (auto simp: drained_def)
  qed
  moreover have "unread b = []" if "b \<in> set bs'" for b
    using u b(2) that by (simp add: rw_unread_def)
  ultimately show ?thesis using u b(2) by (cases bs') (auto simp: drained_def draining_def)
qed

lemma draining_Fill:
  assumes "draining w" "ReceiveWindow_Fill n (rw_write ys w) = Some (w2, v)"
  shows "draining w2"
proof -
  obtain f where f: "rw_buffer w2 = on_last f (rw_buffer w)"
  proof -
    have "\<exists>f. rw_buffer w2 = on_last f (rw_buffer w)"
    proof (cases "rw_buffer w" rule: rev_cases)
      case Nil
      then have "rw_buffer w2 = []" using assms(2)
        by (auto simp: ReceiveWindow_Fill_def rw_write_def Let_def split: if_splits)
      then show ?thesis using Nil by simp
    next
      case (snoc ini l)
      then have "\<exists>l'. rw_buffer w2 = ini @ [l']" using assms(2)
        by (auto simp: ReceiveWindow_Fill_def rw_write_def Let_def split: if_splits)
      then obtain l' where "rw_buffer w2 = ini @ [l']" by blast
      then have "rw_buffer w2 = on_last (\<lambda>_. l') (rw_buffer w)" using snoc by simp
      then show ?thesis by blast
    qed
    then show ?thesis using that by blast
  qed
  show ?thesis
  proof (cases "rw_buffer w" rule: rev_cases)
    case Nil
    then show ?thesis using f by (simp add: draining_def)
  next
    case (snoc ini l)
    then show ?thesis using f assms(1) by (cases ini) (auto simp: draining_def on_last_def)
  qed
qed

lemma fb_body_ok:
  assumes inv: "fb_inv sz U fb ss pos" and g: "browser_good ss" and pc: "fb_pc fb = FbBody wc0"
    and honest: "take (length (fb_receives sz (FbRead r) fb)) (drop pos U) = fb_receives sz (FbRead r) fb"
  shows "fb_good_step sz U ss (pos + length (fb_receives sz (FbRead r) fb)) (fb_body sz now wc r fb ss)"
proof -
  obtain w1 free where t: "ReceiveWindow_ToFill (empty_buffer sz) (fb_wrecv fb) = (w1, free)" by fastforce
  have h: "rw_inv sz U pos (fb_wrecv fb)" "ss_to_ssh ss = take (unat (rw_Emptied (fb_wrecv fb))) U"
    "drained (fb_wrecv fb)"
    using fb_invD [OF inv] pc by (simp_all add: fb_pc_classes)
  have posU: "pos \<le> length U" using rw_inv_lengths(2) [OF h(1)] h(1) by (simp add: rw_inv_def)
  have one: "rw_inv sz U pos w1" "rw_Emptied w1 = rw_Emptied (fb_wrecv fb)"
    using ReceiveWindow_fill_ok [OF h(1) empty_buffer_fresh t, of 0] posU by auto
  note d = drained_ToFill [OF h(3,1) t one(1)]
  have w1: "fb_inv sz U (fb\<lparr>fb_wrecv := w1, fb_pc := FbStart\<rparr>) ss pos"
    using one h d by (auto intro!: fb_invI simp: fb_pc_classes)
  note fail = fb_fail_ok [OF w1 g]
  show ?thesis
  proof (cases r)
    case (ReadData xs)
    define ys where "ys = take free xs"
    have ys: "fb_receives sz (FbRead r) fb = ys" using pc ReadData t by (simp add: fb_receives_def ys_def)
    have yU: "take (length ys) (drop pos U) = ys" using honest ys by simp
    from arg_cong [OF yU, of length] have "min (length U - pos) (length ys) = length ys" by (simp only: length_take length_drop)
    then have n: "length ys \<le> free" "pos + length ys \<le> length U" using posU by (simp_all add: ys_def)
    obtain w2 where w2: "ReceiveWindow_Fill (length ys) (rw_write ys w1) = Some (w2, of_nat (pos + length ys))"
      "rw_inv sz U (pos + length ys) w2" "rw_Emptied w2 = rw_Emptied (fb_wrecv fb)"
      using ReceiveWindow_fill_ok [OF h(1) empty_buffer_fresh t n, unfolded yU] unfolding one(2) by blast
    have "draining w2" using draining_Fill [OF _ w2(1)] d by blast
    then have "fb_inv sz U (fb\<lparr>fb_wrecv := w2, fb_pc := FbWrite wc\<rparr>) ss (pos + length ys)"
      using w2 h by (auto intro!: fb_invI simp: fb_pc_classes)
    moreover have "fb_body sz now wc r fb ss = Some (fb\<lparr>fb_pc := FbWrite wc, fb_wrecv := w2\<rparr>, ss)"
      using w2(1) unfolding fb_body_def ReadData t Let_def prod.case read_result.case ys_def [symmetric] by simp
    moreover have "fb\<lparr>fb_pc := FbWrite wc, fb_wrecv := w2\<rparr> = fb\<lparr>fb_wrecv := w2, fb_pc := FbWrite wc\<rparr>" by simp
    ultimately show ?thesis using g ys by (simp only:) (rule fb_good_stepI, simp_all)
  next
    case ReadEOF
    have "fb_body sz now wc r fb ss = Some (fb\<lparr>fb_wrecv := w1, fb_pc := FbStart\<rparr>, ss)"
      using t ReadEOF by (simp add: fb_body_def)
    then show ?thesis using ReadEOF w1 g pc by (simp add: fb_receives_def) (rule fb_good_stepI, simp_all)
  next
    case (ReadErr e)
    then show ?thesis using t fail [of now wc e] pc by (simp add: fb_body_def fb_receives_def)
  qed
qed

lemma ToEmpty_drains:
  assumes inv: "rw_inv sz U pos w" and d: "draining w" and run: "ReceiveWindow_ToEmpty w = (w1, data)"
  shows "draining w1" "data = [] \<Longrightarrow> drained w1" "data \<noteq> [] \<Longrightarrow> length (rw_buffer w1) = 1"
proof -
  have sh: "rw_reset w \<noteq> 0 \<Longrightarrow> blen (last_of (rw_buffer w)) = 0" using inv by (auto simp: rw_inv_def rw_shape_def)
  consider (none) "rw_buffer w = []" | (one) x where "rw_buffer w = [x]"
    | (two) x y where "rw_buffer w = [x, y]" "unread x = []"
  proof (cases "rw_buffer w")
    case (Cons x xs)
    then show ?thesis using d that by (cases xs) (auto simp: draining_def)
  qed (use that in simp)
  then have "draining w1 \<and> (data = [] \<longrightarrow> drained w1) \<and> (data \<noteq> [] \<longrightarrow> length (rw_buffer w1) = 1)"
  proof cases
    case none
    then have "w1 = w" "data = []" using run by (auto simp: ReceiveWindow_ToEmpty_def Let_def split: if_splits)
    then show ?thesis using none by (simp add: draining_def drained_def rw_unread_def)
  next
    case one
    then have w1: "w1 = w" using run by (auto simp: ReceiveWindow_ToEmpty_def Let_def split: if_splits)
    moreover have "unread x = []" if "data = []"
    proof (cases "rw_reset w = 0")
      case True
      then show ?thesis using run one that by (auto simp: ReceiveWindow_ToEmpty_def Let_def unread_def)
    next
      case False
      then show ?thesis using sh one by (simp add: unread_def bdata_def last_of_def)
    qed
    ultimately show ?thesis using one by (auto simp: draining_def drained_def rw_unread_def)
  next
    case two
    then have "w1 = w\<lparr>rw_buffer := [y]\<rparr>" "data = unread y"
      using run by (auto simp: ReceiveWindow_ToEmpty_def Let_def unread_def)
    then show ?thesis by (simp add: draining_def drained_def rw_unread_def)
  qed
  then show "draining w1" "data = [] \<Longrightarrow> drained w1" "data \<noteq> [] \<Longrightarrow> length (rw_buffer w1) = 1" by blast+
qed

lemma fb_sent_ok:
  assumes inv: "fb_inv sz U fb ss pos" and pc: "fb_pc fb = FbWrite wc0" and t: "ReceiveWindow_ToEmpty (fb_wrecv fb) = (w1, data)" and data: "data \<noteq> []"
    and w: "w2 = ReceiveWindow_Empty (length (take n data)) w1"
  shows "fb_inv sz U (fb\<lparr>fb_wrecv := w2\<rparr>) (ss\<lparr>ss_to_ssh := ss_to_ssh ss @ take n data\<rparr>) pos"
proof -
  have h: "rw_inv sz U pos (fb_wrecv fb)" "draining (fb_wrecv fb)" using fb_invD [OF inv] pc by (simp_all add: fb_pc_classes)
  note d = ToEmpty_drains(3) [OF h t]
  define sent where "sent = take n data"
  have "rw_step sz U (SshWrite n) (fb_wrecv fb, pos, ss_to_ssh ss) =
      (ReceiveWindow_Empty (length sent) w1, pos, ss_to_ssh ss @ sent)"
    by (simp only: rw_step.simps t Let_def prod.case sent_def)
  then have step: "rw_history_ok sz U (w2, pos, ss_to_ssh ss @ sent)"
    using rw_step_ok [of sz U "fb_wrecv fb" pos "ss_to_ssh ss" "SshWrite n"] inv pc
    by (simp add: fb_inv_def running_pc_def w sent_def)
  obtain x where x: "rw_buffer w1 = [x]" using d [OF data] by (cases "rw_buffer w1") auto
  have "draining w2" using x by (auto simp: w ReceiveWindow_Empty_def draining_def Let_def)
  then show ?thesis using step pc by (auto intro!: fb_invI simp: rw_history_ok_def fb_pc_classes sent_def)
qed

lemma fb_close_ok:
  assumes "fb_inv sz U (fb\<lparr>fb_pc := FbDone err\<rparr>) ss pos" "browser_good ss" "ss_frames ss = ss_frames ss0"
    "length (ss_to_ssh ss0) \<le> length (ss_to_ssh ss)"
  shows "fb_good_step sz U ss0 pos (fb_close err fb ss)"
  using browser_Close_good [OF assms(2), of err] assms
  by (auto simp: fb_close_def fb_good_step_def)

lemma fb_inv_done:
  assumes "ss_to_ssh ss = take k U"
  shows "fb_inv sz U (fb\<lparr>fb_pc := FbDone e\<rparr>) ss pos"
  using assms by (auto simp: fb_inv_def fb_pc_classes)

lemma fb_write_ok:
  assumes inv: "fb_inv sz U fb ss pos" and g: "browser_good ss" and pc: "fb_pc fb = FbWrite wc0"
  shows "fb_good_step sz U ss pos (fb_write wc ev fb ss)"
proof -
  obtain w1 data where t: "ReceiveWindow_ToEmpty (fb_wrecv fb) = (w1, data)" by fastforce
  have h: "rw_inv sz U pos (fb_wrecv fb)" "ss_to_ssh ss = take (unat (rw_Emptied (fb_wrecv fb))) U" "draining (fb_wrecv fb)"
    using fb_invD [OF inv] pc by (simp_all add: fb_pc_classes)
  note e = ReceiveWindow_ToEmpty_ok [OF h(1) t]
  note d = ToEmpty_drains [OF h(1,3) t]
  show ?thesis
  proof (cases "data = []")
    case True
    have "fb_inv sz U (fb\<lparr>fb_pc := FbBody wc, fb_wrecv := w1\<rparr>) ss pos"
      using e h d(2) [OF True] by (auto intro!: fb_invI simp: fb_pc_classes)
    then show ?thesis using t True g by (simp add: fb_write_def fb_good_stepI)
  next
    case data: False
    note sent = fb_sent_ok [OF inv pc t data refl]
    show ?thesis
    proof (cases ev)
      case (FbSsh n)
      define w2 where "w2 = ReceiveWindow_Empty (length (take n data)) w1"
      define ss2 where "ss2 = ss\<lparr>ss_to_ssh := ss_to_ssh ss @ take n data, ss_browserReadAck := low24 (ucast (rw_Emptied w2))\<rparr>"
      have "fb_inv sz U (fb\<lparr>fb_wrecv := w2\<rparr>) ss2 pos" using sent [of n] by (simp add: ss2_def w2_def)
      moreover have "fb_write wc ev fb ss = Some (fb\<lparr>fb_wrecv := w2\<rparr>, ss2)"
        using data unfolding fb_write_def FbSsh t Let_def prod.case by (simp add: ss2_def w2_def)
      ultimately show ?thesis using g by (simp only:) (rule fb_good_stepI, simp_all add: ss2_def)
    next
      case (FbSshFails n)
      define ss2 where "ss2 = ss\<lparr>ss_to_ssh := ss_to_ssh ss @ take n data\<rparr>"
      obtain k where k: "ss_to_ssh ss2 = take k U" using sent [of n] by (auto simp: fb_inv_def ss2_def)
      have "fb_good_step sz U ss pos (fb_close ''connection write'' (fb\<lparr>fb_wrecv := w1\<rparr>) ss2)"
        by (rule fb_close_ok [OF fb_inv_done [OF k]]) (use g in \<open>simp_all add: ss2_def\<close>)
      moreover have "fb_write wc ev fb ss = fb_close ''connection write'' (fb\<lparr>fb_wrecv := w1\<rparr>) ss2"
        using data unfolding fb_write_def FbSshFails t Let_def prod.case by (simp add: ss2_def)
      ultimately show ?thesis by simp
    qed (use data t inv g in \<open>simp_all add: fb_write_def fb_good_stepI\<close>)
  qed
qed

lemma rw_Reset_fields:
  "ReceiveWindow_Reset fresh rack w = (w1, err) \<Longrightarrow> rw_Filled w1 = rw_Filled w \<and> rw_Emptied w1 = rw_Emptied w"
  by (auto simp: ReceiveWindow_Reset_def Let_def split: if_splits)

lemma rw_Reset_ok_iff:
  "snd (ReceiveWindow_Reset fresh rack w) = None \<longleftrightarrow> ToAbsolute (rw_Emptied w) rack \<le> rw_Filled w"
  by (auto simp: ReceiveWindow_Reset_def Let_def)

lemma drained_Reset:
  assumes d: "drained w" and run: "ReceiveWindow_Reset (empty_buffer sz) rack w = (w1, err)"
  shows "drained w1"
proof -
  have e: "blen (empty_buffer sz) = 0" "unread (empty_buffer sz) = []"
    using fresh_buffer_content [OF empty_buffer_fresh] by (auto simp: empty_buffer_def)
  consider "rw_buffer w1 = rw_buffer w"
    | "0 < blen (last_of (rw_buffer w))" "rw_buffer w1 = rw_buffer w @ [empty_buffer sz]"
    using run by (cases "ToAbsolute (rw_Emptied w) rack = rw_Filled w"; cases "rw_Filled w < ToAbsolute (rw_Emptied w) rack";
      cases "0 < blen (last_of (rw_buffer w))") (auto simp: ReceiveWindow_Reset_def Let_def)
  then show ?thesis
  proof cases
    case 1
    then show ?thesis using d by (simp add: drained_def rw_unread_def)
  next
    case 2
    then have "length (rw_buffer w) = 1"
      using d by (cases "rw_buffer w"; cases "tl (rw_buffer w)") (auto simp: drained_def last_of_def)
    then show ?thesis using d e 2 by (simp add: drained_def rw_unread_def)
  qed
qed

lemma fb_resume_ok:
  assumes inv: "fb_inv sz U fb ss pos" and g: "browser_good ss" and pc: "fb_pc fb = FbResume wc rack"
    and honest: "rw_guard (Reconnect rack) (fb_wrecv fb, pos, ss_to_ssh ss)"
  shows "fb_good_step sz U ss (fb_next_pos sz ev fb pos) (fb_resume sz wc rack fb ss)"
proof -
  define w where "w = fb_wrecv fb"
  define v where "v = ToAbsolute (rw_Emptied w) rack"
  have h: "rw_inv sz U pos w" "ss_to_ssh ss = take (unat (rw_Emptied w)) U" "drained w"
    using fb_invD [OF inv] pc by (simp_all add: fb_pc_classes w_def)
  obtain w1 e where t: "ReceiveWindow_Reset (empty_buffer sz) rack w = (w1, e)" by fastforce
  have guard: "v \<noteq> 0" "v = rw_Filled w \<longrightarrow> rw_reset w = 0" using honest by (simp_all add: Let_def v_def w_def)
  have ok: "if v \<le> rw_Filled w then e = None \<and> rw_inv sz U (unat v) w1 else e \<noteq> None \<and> w1 = w"
    using ReceiveWindow_Reset_ok [OF h(1) empty_buffer_fresh t] guard unfolding v_def by blast
  have em: "rw_Emptied w1 = rw_Emptied w" using rw_Reset_fields [OF t] by simp
  have next_pos: "fb_next_pos sz ev fb pos = (if e = None then unat v else pos)"
    using t pc by (simp add: fb_next_pos_def fb_resumes_def v_def w_def)
  show ?thesis
  proof (cases e)
    case None
    then have "rw_inv sz U (unat v) w1" using ok by (auto split: if_splits)
    then have "fb_inv sz U (fb\<lparr>fb_pc := FbNext wc, fb_wrecv := w1\<rparr>) ss (unat v)"
      using h(2) em drained_Reset [OF h(3) t] by (auto intro!: fb_invI simp: fb_pc_classes)
    then show ?thesis using t g None next_pos by (simp add: fb_resume_def Let_def w_def fb_good_stepI)
  next
    case (Some x)
    then have "w1 = w" using ok by (auto split: if_splits)
    then have "fb_inv sz U (fb\<lparr>fb_pc := FbClose ''browser ack reset failed'', fb_wrecv := w1\<rparr>) ss pos"
      using h by (auto intro!: fb_invI simp: fb_pc_classes)
    then show ?thesis using t g Some next_pos by (simp add: fb_resume_def Let_def w_def fb_good_stepI)
  qed
qed

lemma fb_top_ok:
  assumes inv: "fb_inv sz U fb ss pos" and g: "browser_good ss" and pc: "fb_pc fb = FbStart"
  shows "fb_good_step sz U ss pos (fb_top fb ss)"
proof (cases "GetRack (fst (ss_browser ss))")
  case None
  then show ?thesis using inv g by (simp add: fb_top_def fb_good_stepI)
next
  case (Some r)
  obtain gb wc rack wack err where r: "r = (gb, wc, rack, wack, err)" by (cases r) auto
  define ss1 where "ss1 = ss\<lparr>ss_browser := (gb, snd (ss_browser ss))\<rparr>"
  have g1: "browser_good ss1" using GetRack_good [OF g] Some r by (simp add: ss1_def)
  have pcs: "fb_inv sz U (fb\<lparr>fb_pc := q\<rparr>) ss1 pos" if "drained_pc q" for q
    using fb_inv_pc [OF inv _ that] pc by (simp add: ss1_def drained_pc_def)
  have dn: "fb_inv sz U (fb\<lparr>fb_pc := FbDone e\<rparr>) ss1 pos" for e
    using inv by (auto simp: fb_inv_def ss1_def fb_pc_classes)
  have "fb_top fb ss = Some (fb\<lparr>fb_pc := (case err of Some e \<Rightarrow> FbDone e
      | None \<Rightarrow> if rack \<noteq> 0 then FbResume wc rack else FbNext wc)\<rparr>, ss1)"
    using Some r by (simp add: fb_top_def ss1_def split: option.split)
  moreover have "fb_inv sz U (fb\<lparr>fb_pc := (case err of Some e \<Rightarrow> FbDone e
      | None \<Rightarrow> if rack \<noteq> 0 then FbResume wc rack else FbNext wc)\<rparr>) ss1 pos"
    using pcs dn by (cases err) (simp_all add: drained_pc_def)
  ultimately show ?thesis using g1 by (simp add: ss1_def fb_good_stepI)
qed

lemma fb_step_ok:
  assumes inv: "fb_inv sz U fb ss pos" and g: "browser_good ss"
    and honest: "browser_honest sz U ev p" "px_fb p = fb" "px_ss p = ss" "px_pos p = pos"
  shows "fb_good_step sz U ss (fb_next_pos sz ev fb pos) (fb_step sz now ev fb ss)"
proof (cases "fb_pc fb")
  case FbStart
  then have p: "fb_next_pos sz ev fb pos = pos" by (simp add: fb_next_pos_def fb_receives_def fb_resumes_def)
  show ?thesis unfolding p using fb_top_ok [OF inv g FbStart] FbStart by (simp add: fb_step_def)
next
  case (FbResume wc rack)
  then have "rw_guard (Reconnect rack) (fb_wrecv fb, pos, ss_to_ssh ss)"
    using honest by (simp add: browser_honest_def fb_resumes_def)
  then show ?thesis using fb_resume_ok [OF inv g FbResume] FbResume by (simp add: fb_step_def)
next
  case (FbNext wc)
  then have p: "fb_next_pos sz ev fb pos = pos" by (simp add: fb_next_pos_def fb_receives_def fb_resumes_def)
  have "fb_inv sz U (fb\<lparr>fb_pc := FbStart\<rparr>) ss pos" "fb_inv sz U (fb\<lparr>fb_pc := FbAck wc []\<rparr>) ss pos"
    by (rule fb_inv_pc [OF inv], simp_all add: FbNext drained_pc_def)+
  then show ?thesis using FbNext inv g fb_fail_ok unfolding p
    by (auto simp: fb_step_def split: fb_event.splits option.splits intro!: fb_good_stepI)
next
  case (FbAck wc got)
  then have p: "fb_next_pos sz ev fb pos = pos" by (simp add: fb_next_pos_def fb_receives_def fb_resumes_def)
  show ?thesis unfolding p using FbAck inv g fb_ack_ok [OF inv g FbAck]
    by (auto simp: fb_step_def split: fb_event.splits intro!: fb_good_stepI)
next
  case (FbBody wc)
  have r: "fb_resumes fb = None" using FbBody by (simp add: fb_resumes_def)
  then have p: "fb_next_pos sz ev fb pos = pos + length (fb_receives sz ev fb)" by (simp add: fb_next_pos_def)
  show ?thesis
  proof (cases "\<exists>q. ev = FbRead q")
    case True
    then obtain q where q: "ev = FbRead q" by blast
    have "take (length (fb_receives sz ev fb)) (drop pos U) = fb_receives sz ev fb"
      using honest r by (simp add: browser_honest_def Let_def)
    then show ?thesis using fb_body_ok [OF inv g FbBody, of q] FbBody q p by (simp add: fb_step_def)
  next
    case False
    then have "fb_receives sz ev fb = []" by (cases ev) (simp_all add: fb_receives_def FbBody)
    moreover have "fb_step sz now ev fb ss = Some (fb, ss)" using False FbBody by (cases ev) (simp_all add: fb_step_def)
    ultimately show ?thesis using p inv g by (simp add: fb_good_stepI)
  qed
next
  case (FbWrite wc)
  then have p: "fb_next_pos sz ev fb pos = pos" by (simp add: fb_next_pos_def fb_receives_def fb_resumes_def)
  show ?thesis unfolding p using FbWrite fb_write_ok [OF inv g FbWrite] by (simp add: fb_step_def)
next
  case (FbClose e)
  then have p: "fb_next_pos sz ev fb pos = pos" by (simp add: fb_next_pos_def fb_receives_def fb_resumes_def)
  obtain k where k: "ss_to_ssh ss = take k U" using inv by (auto simp: fb_inv_def)
  show ?thesis unfolding p using fb_close_ok [OF fb_inv_done [OF k] g refl] FbClose by (simp add: fb_step_def)
next
  case (FbDone e)
  then have p: "fb_next_pos sz ev fb pos = pos" by (simp add: fb_next_pos_def fb_receives_def fb_resumes_def)
  show ?thesis unfolding p using FbDone inv g by (simp add: fb_step_def fb_good_stepI)
qed

section \<open>The goroutine to the browser\<close>

definition sent_log :: "session \<Rightarrow> (nat \<times> bytes) list" where
  "sent_log ss = map (\<lambda>f. (fr_pos f, fr_data f)) (ss_frames ss)"

definition to_write :: "tb_pc \<Rightarrow> bytes option" where
  "to_write pc = (case pc of TbWriter wc rack wack toWrite \<Rightarrow> Some toWrite | TbMessage wc toWrite \<Rightarrow> Some toWrite | _ \<Rightarrow> None)"

definition tb_inv :: "nat \<Rightarrow> bytes \<Rightarrow> to_browser \<Rightarrow> session \<Rightarrow> bool" where
  "tb_inv sz S tb ss \<longleftrightarrow> sw_history_ok sz (S, tb_wsend tb, sent_log ss)
    \<and> (case to_write (tb_pc tb) of Some toWrite \<Rightarrow>
         (\<exists>rest. drop (unat (sw_Emptied (tb_wsend tb))) S = toWrite @ rest) | None \<Rightarrow> True)"

definition tb_good_step :: "nat \<Rightarrow> bytes \<Rightarrow> session \<Rightarrow> (to_browser \<times> session) option \<Rightarrow> bool" where
  "tb_good_step sz S ss r \<longleftrightarrow>
    (\<exists>tb' ss'. r = Some (tb', ss') \<and> tb_inv sz S tb' ss' \<and> browser_good ss' \<and> tb_frame ss ss')"

lemma tb_good_stepI:
  "tb_inv sz S tb' ss' \<Longrightarrow> browser_good ss' \<Longrightarrow> tb_frame ss ss' \<Longrightarrow> tb_good_step sz S ss (Some (tb', ss'))"
  by (auto simp: tb_good_step_def)

lemma tb_frame_simps [simp]:
  "tb_frame ss ss" "tb_frame ss (ss'\<lparr>ss_browser := b\<rparr>) = tb_frame ss ss'"
  "tb_frame ss (ss'\<lparr>ss_browserWriteAck := x\<rparr>) = tb_frame ss ss'"
  "tb_frame ss (ss'\<lparr>ss_frames := f\<rparr>) = tb_frame ss ss'"
  "tb_inv sz S tb (ss'\<lparr>ss_browser := b\<rparr>) = tb_inv sz S tb ss'"
  "tb_inv sz S tb (ss'\<lparr>ss_browserWriteAck := x\<rparr>) = tb_inv sz S tb ss'"
  by (simp_all add: tb_frame_def tb_inv_def sent_log_def)

lemma tb_inv_plain: "to_write pc = None \<Longrightarrow> tb_inv sz S (tb\<lparr>tb_pc := pc, tb_wsend := w\<rparr>) ss \<longleftrightarrow> sw_history_ok sz (S, w, sent_log ss)"
  "to_write pc = None \<Longrightarrow> tb_inv sz S (tb\<lparr>tb_wsend := w, tb_pc := pc\<rparr>) ss \<longleftrightarrow> sw_history_ok sz (S, w, sent_log ss)"
  "to_write pc = None \<Longrightarrow> tb_inv sz S (tb\<lparr>tb_pc := pc\<rparr>) ss \<longleftrightarrow> sw_history_ok sz (S, tb_wsend tb, sent_log ss)"
  by (auto simp: tb_inv_def)

lemma tb_close_ok:
  assumes "sw_history_ok sz (S, tb_wsend tb, sent_log ss)" "browser_good ss" "tb_frame ss0 ss"
  shows "tb_good_step sz S ss0 (tb_close err tb ss)"
proof -
  obtain b where "browser_Close err ss = Some (ss\<lparr>ss_browser := b\<rparr>)" "browser_good (ss\<lparr>ss_browser := b\<rparr>)"
    using browser_Close_good [OF assms(2)] by blast
  moreover have "tb_inv sz S (tb\<lparr>tb_pc := TbDone err\<rparr>) ss" using assms(1) by (simp add: tb_inv_plain to_write_def)
  ultimately show ?thesis using assms(3) by (simp add: tb_close_def tb_good_stepI)
qed

lemma tb_top_ok:
  assumes inv: "tb_inv sz S tb ss" and g: "browser_good ss"
  shows "tb_good_step sz S ss (tb_top tb ss)"
proof -
  obtain w v e where t: "SendWindow_AcknowledgeUntil (ss_browserWriteAck ss) (tb_wsend tb) = (w, v, e)"
    by (cases "SendWindow_AcknowledgeUntil (ss_browserWriteAck ss) (tb_wsend tb)") auto
  have h: "sw_history_ok sz (S, tb_wsend tb, sent_log ss)" using inv by (simp add: tb_inv_def)
  then have w: "sw_history_ok sz (S, w, sent_log ss)"
    using SendWindow_AcknowledgeUntil_ok [OF _ t] by (auto simp: sw_history_ok_def)
  show ?thesis using t w g
    by (cases e) (simp_all add: tb_top_def tb_good_stepI tb_inv_plain to_write_def)
qed

lemma tb_read_ok:
  assumes inv: "tb_inv sz S tb ss" and g: "browser_good ss" and pc: "tb_pc tb = TbRead"
    and small: "length (S @ tb_reads sz (TbSsh r) tb) < 2 ^ 63"
  shows "tb_good_step sz (S @ tb_reads sz (TbSsh r) tb) ss (tb_read sz r tb ss)"
proof -
  obtain w free where t: "SendWindow_ToFill (empty_buffer sz) (tb_wsend tb) = (w, free)" by fastforce
  have h: "sw_inv sz S (tb_wsend tb)" "\<forall>(p, d) \<in> set (sent_log ss). take (length d) (drop p S) = d"
    using inv by (simp_all add: tb_inv_def sw_history_ok_def)
  have data: "tb_good_step sz (S @ take free xs) ss (tb_read sz r tb ss)"
    if r: "r = SshData xs \<or> r = SshTimeout xs" and sm: "length (S @ take free xs) < 2 ^ 63" for xs
  proof -
    define ys where "ys = take free xs"
    have "length ys \<le> free" "length S + length ys < 2 ^ 63" using sm by (simp_all add: ys_def)
    from SendWindow_fill_ok [OF h(1) empty_buffer_fresh t this] obtain w2 where
      w2: "SendWindow_Fill (length ys) (sw_write ys w) = Some (w2, sw_Filled w2)" "sw_inv sz (S @ ys) w2" by blast
    have "tb_read sz r tb ss =
        Some (tb\<lparr>tb_wsend := w2, tb_pc := TbSend (ss_browserReadAck ss \<noteq> tb_lastWriteAck tb)\<rparr>, ss)"
      using r unfolding tb_read_def t Let_def prod.case
      by (elim disjE) (simp_all add: ys_def [symmetric] w2(1) del: length_take)
    moreover have "sw_history_ok sz (S @ ys, w2, sent_log ss)"
      using w2(2) log_append [OF h(2)] by (simp add: sw_history_ok_def)
    then have "tb_inv sz (S @ ys) (tb\<lparr>tb_wsend := w2, tb_pc := TbSend (ss_browserReadAck ss \<noteq> tb_lastWriteAck tb)\<rparr>) ss"
      by (subst tb_inv_plain(2)) (simp_all add: to_write_def)
    ultimately show ?thesis unfolding ys_def [symmetric] using g by (simp only:) (rule tb_good_stepI, simp_all)
  qed
  show ?thesis
  proof (cases r)
    case (SshData xs)
    then show ?thesis using data [of xs] small pc t by (simp add: tb_reads_def)
  next
    case (SshTimeout xs)
    then show ?thesis using data [of xs] small pc t by (simp add: tb_reads_def)
  next
    case SshFails
    have "length S + length ([] :: bytes) < 2 ^ 63" using small by simp
    then have "sw_inv sz S w" using SendWindow_fill_ok [OF h(1) empty_buffer_fresh t, of "[]"] by simp
    then have "tb_good_step sz S ss (tb_close ''connection read returned'' (tb\<lparr>tb_wsend := w\<rparr>) ss)"
      using tb_close_ok [of sz S "tb\<lparr>tb_wsend := w\<rparr>" ss ss] h(2) g by (simp add: sw_history_ok_def)
    moreover have "tb_reads sz (TbSsh r) tb = []" using SshFails pc by (simp add: tb_reads_def)
    ultimately show ?thesis using SshFails t by (simp add: tb_read_def)
  qed
qed

lemma tb_ready_ok:
  assumes h: "sw_history_ok sz (S, tb_wsend tb, sent_log ss)"
  shows "tb_inv sz S (tb_ready wc rack wack force tb) ss"
proof -
  obtain w toWrite where t: "SendWindow_ToEmpty (tb_wsend tb) = (w, toWrite)" by fastforce
  have i: "sw_inv sz S (tb_wsend tb)" using h by (simp add: sw_history_ok_def)
  have w: "sw_inv sz S w" "\<exists>rest. drop (unat (sw_Emptied w)) S = toWrite @ rest"
    using SendWindow_ToEmpty_ok [OF i t] by auto
  then have "sw_history_ok sz (S, w, sent_log ss)" using h by (simp add: sw_history_ok_def)
  then show ?thesis using w(2) by (simp add: tb_ready_def t tb_inv_def to_write_def)
qed

lemma tb_send_ok:
  assumes inv: "tb_inv sz S tb ss" and g: "browser_good ss"
  shows "tb_good_step sz S ss (tb_send force tb ss)"
proof (cases "GetWack (fst (ss_browser ss))")
  case None
  then show ?thesis using inv g by (simp add: tb_send_def tb_good_stepI)
next
  case (Some r)
  obtain gb wc rack wack err where r: "r = (gb, wc, rack, wack, err)" by (cases r) auto
  define ss1 where "ss1 = ss\<lparr>ss_browser := (gb, snd (ss_browser ss))\<rparr>"
  have h: "sw_history_ok sz (S, tb_wsend tb, sent_log ss1)" using inv by (simp add: tb_inv_def ss1_def sent_log_def)
  have g1: "browser_good ss1" using GetWack_good [OF g] Some r by (simp add: ss1_def)
  have f1: "tb_frame ss ss1" by (simp add: ss1_def)
  have "tb_inv sz S (tb\<lparr>tb_pc := TbDone e\<rparr>) ss1" "tb_inv sz S (tb\<lparr>tb_pc := TbReset wc rack wack force\<rparr>) ss1" for e
    using h by (simp_all add: tb_inv_plain to_write_def)
  then have "tb_inv sz S (if wack \<noteq> 0 then tb\<lparr>tb_pc := TbReset wc rack wack force\<rparr> else tb_ready wc rack wack force tb) ss1"
    "tb_inv sz S (tb\<lparr>tb_pc := TbDone e\<rparr>) ss1" for e
    using tb_ready_ok [OF h] by simp_all
  note ok = this [THEN tb_good_stepI, OF g1 f1]
  show ?thesis unfolding tb_send_def Some r option.case prod.case Let_def ss1_def [symmetric]
    using ok by (cases err) simp_all
qed

lemma tb_reset_ok:
  assumes inv: "tb_inv sz S tb ss" and g: "browser_good ss"
  shows "tb_good_step sz S ss (tb_reset wc rack wack force tb ss)"
proof -
  define ss1 where "ss1 = ss\<lparr>ss_browserWriteAck := wack\<rparr>"
  obtain w e where t: "SendWindow_Reset wack (tb_wsend tb) = (w, e)" by fastforce
  have w: "sw_history_ok sz (S, tb_wsend (tb\<lparr>tb_wsend := w\<rparr>), sent_log ss1)"
    using inv SendWindow_Reset_ok [OF _ t] by (auto simp: tb_inv_def sw_history_ok_def ss1_def sent_log_def)
  have ok: "browser_good ss1" "tb_frame ss ss1" using g by (simp_all add: ss1_def)
  show ?thesis
  proof (cases e)
    case None
    then have "tb_reset wc rack wack force tb ss = Some (tb_ready wc rack wack force (tb\<lparr>tb_wsend := w\<rparr>), ss1)"
      using t by (simp add: tb_reset_def ss1_def)
    then show ?thesis using tb_ready_ok [OF w, of wc rack wack force] ok by (simp add: tb_good_stepI)
  next
    case (Some x)
    then have "tb_reset wc rack wack force tb ss = Some (tb\<lparr>tb_pc := TbClose ''client ack reset failed'', tb_wsend := w\<rparr>, ss1)"
      using t by (simp add: tb_reset_def ss1_def)
    then show ?thesis using w ok by (simp add: tb_good_stepI tb_inv_plain to_write_def)
  qed
qed

lemma tb_fail_ok:
  assumes "sw_history_ok sz (S, tb_wsend tb, sent_log ss)" "browser_good ss" "tb_frame ss0 ss"
  shows "tb_good_step sz S ss0 (tb_fail now wc err tb ss)"
proof -
  obtain b where "browser_Error now wc err ss = Some (ss\<lparr>ss_browser := b\<rparr>)" "browser_good (ss\<lparr>ss_browser := b\<rparr>)"
    using browser_Error_good [OF assms(2)] by blast
  moreover have "tb_inv sz S (tb\<lparr>tb_pc := TbSend False\<rparr>) ss" using assms(1) by (simp add: tb_inv_plain to_write_def)
  ultimately show ?thesis using assms(3) by (simp add: tb_fail_def tb_good_stepI)
qed

lemma tb_writer_ok:
  assumes inv: "tb_inv sz S tb ss" and g: "browser_good ss" and pc: "tb_pc tb = TbWriter wc rack wack toWrite"
  shows "tb_good_step sz S ss (tb_writer now wc rack wack toWrite r tb ss)"
proof (cases r)
  case None
  have "tb_inv sz S (tb\<lparr>tb_pc := TbMessage wc toWrite, tb_lastWriteAck := a\<rparr>) ss" for a
    using inv pc by (simp add: tb_inv_def to_write_def)
  then show ?thesis using None g by (simp add: tb_writer_def tb_good_stepI)
next
  case (Some e)
  then show ?thesis using tb_fail_ok [of sz S tb ss ss] inv g by (simp add: tb_writer_def tb_inv_def)
qed

text \<open>A chunk of what was to be written continues the log, whether the window moves over it or not.\<close>

lemma sent_chunk_ok:
  assumes h: "sw_history_ok sz (S, tb_wsend tb, sent_log ss)"
    and rest: "drop (unat (sw_Emptied (tb_wsend tb))) S = toWrite @ rest"
  shows "sw_history_ok sz (S, tb_wsend tb, sent_log (add_frame wc tb (take n toWrite) ss))"
    "sw_history_ok sz (S, SendWindow_Empty (length (take n toWrite)) (tb_wsend tb), sent_log (add_frame wc tb (take n toWrite) ss))"
proof -
  have i: "sw_inv sz S (tb_wsend tb)" using h by (simp add: sw_history_ok_def)
  then have "sw_unsent (tb_wsend tb) = toWrite @ rest" using rest by (simp add: sw_inv_def)
  then have "length (take n toWrite) \<le> length (sw_unsent (tb_wsend tb))" by simp
  note e = SendWindow_Empty_ok [OF i this]
  have "take (length (take n toWrite)) (drop (unat (sw_Emptied (tb_wsend tb))) S) = take n toWrite"
    unfolding rest by (simp add: min_def)
  then show "sw_history_ok sz (S, tb_wsend tb, sent_log (add_frame wc tb (take n toWrite) ss))"
    "sw_history_ok sz (S, SendWindow_Empty (length (take n toWrite)) (tb_wsend tb), sent_log (add_frame wc tb (take n toWrite) ss))"
    using h e by (simp_all add: sw_history_ok_def add_frame_def sent_log_def)
qed

lemma tb_write_ok:
  assumes inv: "tb_inv sz S tb ss" and g: "browser_good ss" and pc: "tb_pc tb = TbMessage wc0 toWrite"
  shows "tb_good_step sz S ss (tb_write now wc toWrite m tb ss)"
proof -
  obtain rest where rest: "drop (unat (sw_Emptied (tb_wsend tb))) S = toWrite @ rest"
    using inv pc by (auto simp: tb_inv_def to_write_def)
  have h: "sw_history_ok sz (S, tb_wsend tb, sent_log ss)" using inv by (simp add: tb_inv_def)
  note sent = sent_chunk_ok [OF h rest, where wc = wc]
  have f: "browser_good (add_frame wc tb x ss)" "tb_frame ss (add_frame wc tb x ss)" for x
    using g by (simp_all add: add_frame_def)
  define tbn where "tbn n = tb\<lparr>tb_wsend := SendWindow_Empty (length (take n toWrite)) (tb_wsend tb)\<rparr>" for n
  have hn: "sw_history_ok sz (S, tb_wsend (tbn n), sent_log (add_frame wc tb (take n toWrite) ss))" for n
    using sent(2) by (simp add: tbn_def)
  have "sw_history_ok sz (S, tb_wsend tb, sent_log (add_frame wc tb [] ss))" using sent(1) [of 0] by simp
  note fails = tb_fail_ok [OF this f] tb_fail_ok [OF sent(1) f] tb_fail_ok [OF hn f]
  have "tb_inv sz S ((tbn n)\<lparr>tb_pc := TbSend False\<rparr>) (add_frame wc tb (take n toWrite) ss)" for n
    using hn by (simp add: tb_inv_plain to_write_def)
  then show ?thesis using fails f unfolding tb_write_def Let_def tbn_def [symmetric]
    by (cases m) (simp_all add: tb_good_stepI)
qed

lemma tb_step_ok:
  assumes inv: "tb_inv sz S tb ss" and g: "browser_good ss" and small: "length (S @ tb_reads sz ev tb) < 2 ^ 63"
  shows "tb_good_step sz (S @ tb_reads sz ev tb) ss (tb_step sz now ev tb ss)"
proof (cases "tb_pc tb = TbRead \<and> (\<exists>r. ev = TbSsh r)")
  case True
  then obtain r where "tb_pc tb = TbRead" "ev = TbSsh r" by blast
  then show ?thesis using tb_read_ok [OF inv g _ small [unfolded \<open>ev = TbSsh r\<close>]] by (simp add: tb_step_def)
next
  case False
  then have none: "tb_reads sz ev tb = []"
    by (cases "tb_pc tb"; cases ev) (auto simp: tb_reads_def Let_def split: ssh_read.splits)
  have same: "tb_good_step sz S ss (Some (tb, ss))" using inv g by (simp add: tb_good_stepI)
  have "tb_good_step sz S ss (tb_step sz now ev tb ss)"
  proof (cases "tb_pc tb")
    case TbRead
    then show ?thesis using False same by (cases ev) (auto simp: tb_step_def)
  next
    case (TbWriter wc rack wack toWrite)
    then show ?thesis using tb_writer_ok [OF inv g TbWriter] same by (cases ev) (simp_all add: tb_step_def)
  next
    case (TbMessage wc toWrite)
    then show ?thesis using tb_write_ok [OF inv g TbMessage] same by (cases ev) (simp_all add: tb_step_def)
  next
    case (TbClose e)
    then show ?thesis using tb_close_ok [of sz S tb ss ss] inv g by (simp add: tb_step_def tb_inv_def)
  qed (use same tb_top_ok [OF inv g] tb_send_ok [OF inv g] tb_reset_ok [OF inv g] in \<open>simp_all add: tb_step_def\<close>)
  then show ?thesis using none by simp
qed

section \<open>The session\<close>

definition px_inv :: "nat \<Rightarrow> bytes \<Rightarrow> px \<Rightarrow> bool" where
  "px_inv sz U p \<longleftrightarrow> fb_inv sz U (px_fb p) (px_ss p) (px_pos p) \<and> tb_inv sz (px_read p) (px_tb p) (px_ss p)
    \<and> browser_good (px_ss p)"

fun px_input :: "px_event \<Rightarrow> nat" where
  "px_input (ToBrowser now (TbSsh (SshData xs))) = length xs"
| "px_input (ToBrowser now (TbSsh (SshTimeout xs))) = length xs"
| "px_input e = 0"

lemma tb_reads_input: "length (tb_reads sz ev tb) \<le> px_input (ToBrowser now ev)"
  by (cases ev) (auto simp: tb_reads_def Let_def split: ssh_read.splits tb_pc.splits)

lemma fb_inv_frame: "tb_frame ss ss' \<Longrightarrow> fb_inv sz U fb ss pos \<Longrightarrow> fb_inv sz U fb ss' pos"
  by (simp add: fb_inv_def tb_frame_def)

lemma tb_inv_frame: "ss_frames ss' = ss_frames ss \<Longrightarrow> tb_inv sz S tb ss \<Longrightarrow> tb_inv sz S tb ss'"
  by (simp add: tb_inv_def sent_log_def)

abbreviation px_written :: "px \<Rightarrow> nat" where
  "px_written p \<equiv> length (ss_to_ssh (px_ss p))"

lemma px_step_ok:
  assumes inv: "px_inv sz U p" and small: "length (px_read p) + px_input e < 2 ^ 63" and honest: "event_honest sz U e p"
  shows "\<exists>p'. px_step sz e p = Some p' \<and> px_inv sz U p' \<and> length (px_read p') \<le> length (px_read p) + px_input e
    \<and> px_written p \<le> px_written p'"
proof (cases e)
  case (FromBrowser now ev)
  have "fb_good_step sz U (px_ss p) (fb_next_pos sz ev (px_fb p) (px_pos p)) (fb_step sz now ev (px_fb p) (px_ss p))"
    by (rule fb_step_ok [where p = p]) (use inv honest FromBrowser in \<open>auto simp: px_inv_def\<close>)
  then show ?thesis using inv FromBrowser tb_inv_frame by (fastforce simp: fb_good_step_def px_inv_def)
next
  case (ToBrowser now ev)
  have len: "length (tb_reads sz ev (px_tb p)) \<le> px_input e" using tb_reads_input ToBrowser by blast
  have "tb_good_step sz (px_read p @ tb_reads sz ev (px_tb p)) (px_ss p) (tb_step sz now ev (px_tb p) (px_ss p))"
    by (rule tb_step_ok) (use inv small len in \<open>auto simp: px_inv_def\<close>)
  then obtain tb' ss' where r: "tb_step sz now ev (px_tb p) (px_ss p) = Some (tb', ss')"
    "tb_inv sz (px_read p @ tb_reads sz ev (px_tb p)) tb' ss'" "browser_good ss'" "tb_frame (px_ss p) ss'"
    by (auto simp: tb_good_step_def)
  then show ?thesis using inv ToBrowser len fb_inv_frame [OF r(4)] by (simp add: px_inv_def tb_frame_def)
next
  case (NewBrowser now c rack wack)
  obtain gb w got where s: "ss_browser (px_ss p) = (gb, w)" "browser_inv ((gb, w), got)"
    using inv by (cases "ss_browser (px_ss p)") (auto simp: px_inv_def browser_good_def)
  obtain b ch got' where "ReplaceableBrowser_Set now (Some c) rack wack (gb, w) = Some (b, ch)" "browser_inv (b, got')"
    using Set_ok [OF s(2), of now "Some c" rack wack] by auto
  then show ?thesis using inv NewBrowser s by (auto simp: px_inv_def browser_good_def)
next
  case (CloseBrowser err)
  then show ?thesis using inv browser_Close_good [of "px_ss p" err] by (auto simp: px_inv_def)
next
  case (BrowserLost now c err)
  then show ?thesis using inv browser_Error_good [of "px_ss p" now "Some c" err] by (auto simp: px_inv_def)
qed

lemma px_inv_start:
  assumes "0 < sz" "length U < 2 ^ 63"
  shows "px_inv sz U px_start"
proof -
  have "rw_history_ok sz U (NewReceiveWindow, 0, [])"
    using assms by (simp add: rw_history_ok_def rw_inv_def NewReceiveWindow_def rw_shape_def last_of_def no_buffer_def rw_unread_def)
  moreover have "sw_history_ok sz ([], NewSendWindow, [])"
    using assms by (simp add: sw_history_ok_def sw_inv_def NewSendWindow_def sw_shape_def sw_retained_def sw_unsent_def)
  moreover have "drained NewReceiveWindow" by (simp add: drained_def NewReceiveWindow_def rw_unread_def)
  moreover have "browser_inv (newReadWriter, [])"
    by (simp add: browser_inv_def newReadWriter_def NewReplaceableBrowser_def)
  moreover have "\<exists>k. ([] :: bytes) = take k U" by (rule exI [of _ 0]) simp
  ultimately show ?thesis
    by (auto simp: px_inv_def px_start_def fb_inv_def tb_inv_def fb_start_def tb_start_def sent_log_def browser_good_def
        fb_pc_classes to_write_def)
qed

section \<open>Acknowledgements\<close>

text \<open>
  Every acknowledgement in flight satisfies \<open>P\<close>: the shared one, those of the messages, and the position a browser
  came back with, wherever it is on its way. The three places it passes through are the browser, the
  goroutine from the browser and the one to the browser.
\<close>

definition fb_acks :: "(u32 \<Rightarrow> bool) \<Rightarrow> from_browser \<Rightarrow> bool" where
  "fb_acks P fb \<longleftrightarrow> (case fb_pc fb of FbResume wc rack \<Rightarrow> P (low24 rack) | _ \<Rightarrow> True)"

definition tb_acks :: "(u32 \<Rightarrow> bool) \<Rightarrow> to_browser \<Rightarrow> bool" where
  "tb_acks P tb \<longleftrightarrow> (case tb_pc tb of TbReset wc rack wack force \<Rightarrow> P (low24 rack)
    | TbWriter wc rack wack toWrite \<Rightarrow> P (low24 rack) | TbMessage wc toWrite \<Rightarrow> P (low24 (tb_lastWriteAck tb)) | _ \<Rightarrow> True)"

definition ss_acks :: "(u32 \<Rightarrow> bool) \<Rightarrow> session \<Rightarrow> bool" where
  "ss_acks P ss \<longleftrightarrow> P (ss_browserReadAck ss) \<and> P (low24 (rb_pendingRack (fst (ss_browser ss))))
    \<and> (\<forall>f \<in> set (ss_frames ss). P (fr_ack f))"

definition acks_all :: "(u32 \<Rightarrow> bool) \<Rightarrow> px \<Rightarrow> bool" where
  "acks_all P p \<longleftrightarrow> fb_acks P (px_fb p) \<and> tb_acks P (px_tb p) \<and> ss_acks P (px_ss p)"

definition ack_pred :: "(u32 \<Rightarrow> bool) \<Rightarrow> bool" where
  "ack_pred P \<longleftrightarrow> P 0 \<and> (\<forall>a. P a \<longrightarrow> low24 a = a)"

lemma ack_predD: "ack_pred P \<Longrightarrow> P 0" "ack_pred P \<Longrightarrow> P a \<Longrightarrow> P (low24 a)"
  by (simp_all add: ack_pred_def)

text \<open>Closing or losing a browser leaves the position it came with; a new one brings its own, or none.\<close>

lemma Close_pending: "ReplaceableBrowser_Close err s = Some s' \<Longrightarrow> rb_pendingRack (fst s') = rb_pendingRack (fst s)"
  by (cases s) (auto simp: ReplaceableBrowser_Close_def Let_def split: if_splits bind_splits)

lemma Error_pending: "ReplaceableBrowser_Error now wc err s = Some s' \<Longrightarrow> rb_pendingRack (fst s') = rb_pendingRack (fst s)"
  by (cases s) (auto simp: ReplaceableBrowser_Error_def Let_def split: if_splits bind_splits)

lemma Set_pending:
  "ReplaceableBrowser_Set now wc rack wack s = Some (s', ch) \<Longrightarrow> rb_pendingRack (fst s') \<in> {rb_pendingRack (fst s), rack, 0}"
  by (cases s) (auto simp: ReplaceableBrowser_Set_def Let_def split: if_splits bind_splits prod.splits)

lemma ss_acks_browser:
  "browser_Close err ss = Some ss' \<Longrightarrow> ss_acks P ss' = ss_acks P ss"
  "browser_Error now wc err ss = Some ss' \<Longrightarrow> ss_acks P ss' = ss_acks P ss"
  by (auto simp: browser_Close_def browser_Error_def ss_acks_def dest!: Close_pending Error_pending)

lemma ss_acks_simps [simp]:
  "ss_acks P (ss\<lparr>ss_to_ssh := x\<rparr>) = ss_acks P ss" "ss_acks P (ss\<lparr>ss_browserWriteAck := y\<rparr>) = ss_acks P ss"
  by (simp_all add: ss_acks_def)

lemmas acks_defs = fb_acks_def tb_acks_def

lemma fb_fail_acks: "fb_fail now wc e fb ss = Some (fb', ss') \<Longrightarrow> ss_acks P ss \<Longrightarrow> fb_acks P fb' \<and> ss_acks P ss'"
  by (auto simp: fb_fail_def acks_defs dest: ss_acks_browser(2) [of _ _ _ _ _ P])

lemma fb_close_acks: "fb_close e fb ss = Some (fb', ss') \<Longrightarrow> ss_acks P ss \<Longrightarrow> fb_acks P fb' \<and> ss_acks P ss'"
  by (auto simp: fb_close_def acks_defs dest: ss_acks_browser(1) [of _ _ _ P])

lemma fb_top_acks:
  assumes "fb_top fb ss = Some (fb', ss')" "fb_acks P fb" "ss_acks P ss" "ack_pred P"
  shows "fb_acks P fb' \<and> ss_acks P ss'"
proof (cases "GetRack (fst (ss_browser ss))")
  case (Some r)
  obtain gb wc rack wack err where r: "r = (gb, wc, rack, wack, err)" by (cases r) auto
  have pend: "rack = rb_pendingRack (fst (ss_browser ss))" "rb_pendingRack gb = 0"
    using Some r by (auto simp: GetRack_def Let_def split: if_splits)
  show ?thesis using assms Some r pend
    by (auto simp: fb_top_def Let_def ss_acks_def acks_defs ack_predD split: option.splits if_splits)
qed (use assms in \<open>simp add: fb_top_def\<close>)

lemma fb_step_acks:
  assumes run: "fb_step sz now ev fb ss = Some (fb', ss')" and a: "fb_acks P fb" "ss_acks P ss" "ack_pred P"
    and w: "running_pc (fb_pc fb') \<Longrightarrow> P (low24 (ucast (rw_Emptied (fb_wrecv fb'))))"
  shows "fb_acks P fb' \<and> ss_acks P ss'"
proof (cases "fb_pc fb")
  case FbStart
  then show ?thesis using fb_top_acks [OF _ a] run by (simp add: fb_step_def)
next
  case (FbResume wc rack)
  then have "P (low24 rack)" using a by (simp add: acks_defs)
  then show ?thesis using run a(2) FbResume
    by (auto simp: fb_step_def fb_resume_def Let_def ss_acks_def acks_defs split: prod.splits option.splits)
next
  case (FbNext wc)
  then show ?thesis using run a fb_fail_acks [of now wc _ fb ss fb' ss' P]
    by (auto simp: fb_step_def acks_defs split: fb_event.splits option.splits)
next
  case (FbAck wc got)
  then show ?thesis using run a fb_fail_acks [of now wc _ fb ss fb' ss' P]
    by (auto simp: fb_step_def fb_ack_def Let_def acks_defs split: fb_event.splits read_result.splits if_splits)
next
  case (FbBody wc)
  then show ?thesis using run a fb_fail_acks [of now wc _ _ ss fb' ss' P]
    by (auto simp: fb_step_def fb_body_def Let_def acks_defs split: fb_event.splits read_result.splits prod.splits)
next
  case (FbWrite wc)
  obtain w1 data where t: "ReceiveWindow_ToEmpty (fb_wrecv fb) = (w1, data)" by fastforce
  show ?thesis using run a FbWrite t w fb_close_acks [of _ _ _ fb' ss' P]
    by (auto simp: fb_step_def fb_write_def Let_def acks_defs running_pc_def ss_acks_def split: if_splits fb_event.splits)
next
  case (FbClose e)
  then show ?thesis using run a fb_close_acks [of e fb ss fb' ss' P] by (simp add: fb_step_def)
qed (use run a in \<open>simp add: fb_step_def\<close>)

lemma tb_fail_acks: "tb_fail now wc e tb ss = Some (tb', ss') \<Longrightarrow> ss_acks P ss \<Longrightarrow> tb_acks P tb' \<and> ss_acks P ss'"
  by (auto simp: tb_fail_def acks_defs dest: ss_acks_browser(2) [of _ _ _ _ _ P])

lemma tb_close_acks: "tb_close e tb ss = Some (tb', ss') \<Longrightarrow> ss_acks P ss \<Longrightarrow> tb_acks P tb' \<and> ss_acks P ss'"
  by (auto simp: tb_close_def acks_defs dest: ss_acks_browser(1) [of _ _ _ P])

lemma tb_ready_acks: "P (low24 rack) \<Longrightarrow> tb_acks P (tb_ready wc rack wack force tb)"
  by (simp add: tb_ready_def tb_acks_def split: prod.split)

lemma tb_send_acks:
  assumes "tb_send force tb ss = Some (tb', ss')" "tb_acks P tb" "ss_acks P ss"
  shows "tb_acks P tb' \<and> ss_acks P ss'"
proof (cases "GetWack (fst (ss_browser ss))")
  case (Some r)
  obtain gb wc rack wack err where r: "r = (gb, wc, rack, wack, err)" by (cases r) auto
  have pend: "rack = rb_pendingRack (fst (ss_browser ss))" "rb_pendingRack gb = rack"
    using Some r by (auto simp: GetWack_def Let_def split: if_splits)
  then have "P (low24 rack)" using assms(3) by (simp add: ss_acks_def)
  moreover have "ss_acks P (ss\<lparr>ss_browser := (gb, snd (ss_browser ss))\<rparr>)" using assms(3) pend by (simp add: ss_acks_def)
  ultimately show ?thesis using assms(1) Some r tb_ready_acks [of P rack]
    by (auto simp: tb_send_def Let_def tb_acks_def [of P "tb_pc_update _ _"] split: option.splits)
qed (use assms in \<open>simp add: tb_send_def\<close>)

lemma add_frame_acks:
  assumes "ss_acks P ss" "P (low24 (tb_lastWriteAck tb))"
  shows "ss_acks P (add_frame wc tb chunk ss)"
  using assms by (auto simp: add_frame_def ss_acks_def)

lemma tb_write_acks:
  assumes "tb_write now wc toWrite m tb ss = Some (tb', ss')" "ss_acks P ss" "P (low24 (tb_lastWriteAck tb))"
  shows "tb_acks P tb' \<and> ss_acks P ss'"
  using assms add_frame_acks [OF assms(2,3)] tb_fail_acks [of now wc _ _ _ tb' ss' P]
  by (cases m) (auto simp: tb_write_def Let_def tb_acks_def)

lemma tb_step_acks:
  assumes run: "tb_step sz now ev tb ss = Some (tb', ss')" and a: "tb_acks P tb" "ss_acks P ss" "ack_pred P"
  shows "tb_acks P tb' \<and> ss_acks P ss'"
proof (cases "tb_pc tb")
  case TbTop
  then show ?thesis using run a(2) by (auto simp: tb_step_def tb_top_def tb_acks_def split: prod.splits option.splits)
next
  case TbRead
  then show ?thesis using run a tb_close_acks [of _ _ ss tb' ss' P]
    by (auto simp: tb_step_def tb_read_def Let_def tb_acks_def split: tb_event.splits ssh_read.splits prod.splits)
next
  case (TbSend force)
  then show ?thesis using run tb_send_acks [OF _ a(1,2)] by (simp add: tb_step_def)
next
  case (TbReset wc rack wack force)
  then have "P (low24 rack)" using a by (simp add: tb_acks_def)
  then show ?thesis using run a(2) TbReset tb_ready_acks [of P rack]
    by (auto simp: tb_step_def tb_reset_def Let_def tb_acks_def [of P "tb_wsend_update _ _"] split: prod.splits option.splits)
next
  case (TbWriter wc rack wack toWrite)
  have "P (low24 rack)" "P (low24 (ss_browserReadAck ss))"
    using a TbWriter ack_predD(2) [OF a(3)] by (simp_all add: tb_acks_def ss_acks_def)
  then show ?thesis using run a TbWriter tb_fail_acks [of now wc _ tb ss tb' ss' P]
    by (auto simp: tb_step_def tb_writer_def tb_acks_def split: tb_event.splits option.splits)
next
  case (TbMessage wc toWrite)
  then show ?thesis using run a tb_write_acks [of now wc toWrite _ tb ss tb' ss' P]
    by (auto simp: tb_step_def tb_acks_def split: tb_event.splits)
next
  case (TbClose e)
  then show ?thesis using run a tb_close_acks [of e tb ss tb' ss' P] by (simp add: tb_step_def)
qed (use run a in \<open>simp add: tb_step_def\<close>)

lemma px_step_acks:
  assumes run: "px_step sz e p = Some p'" and inv: "px_inv sz U p'" and a: "acks_all P p" "ack_pred P"
    and honest: "event_honest sz U e p" and mark: "P (low24 (of_nat (px_written p')))"
  shows "acks_all P p'"
proof (cases e)
  case (FromBrowser now ev)
  then obtain fb' ss' where s: "fb_step sz now ev (px_fb p) (px_ss p) = Some (fb', ss')" "px_fb p' = fb'" "px_ss p' = ss'" "px_tb p' = px_tb p"
    using run by auto
  have "P (low24 (ucast (rw_Emptied (fb_wrecv fb'))))" if "running_pc (fb_pc fb')"
  proof -
    have "px_written p' = unat (rw_Emptied (fb_wrecv fb'))"
      using fb_inv_written [of sz U fb' ss' "px_pos p'"] that inv s by (simp add: px_inv_def)
    then show ?thesis using mark by (simp only: low24_of_nat)
  qed
  then have "fb_acks P fb' \<and> ss_acks P ss'" using fb_step_acks [OF s(1)] a by (simp add: acks_all_def)
  then show ?thesis using a s by (simp add: acks_all_def)
next
  case (ToBrowser now ev)
  then obtain tb' ss' where s: "tb_step sz now ev (px_tb p) (px_ss p) = Some (tb', ss')" "px_tb p' = tb'" "px_ss p' = ss'" "px_fb p' = px_fb p"
    using run by auto
  then show ?thesis using tb_step_acks [OF s(1)] a by (simp add: acks_all_def)
next
  case (NewBrowser now c rack wack)
  then obtain b ch where s: "ReplaceableBrowser_Set now (Some c) rack wack (ss_browser (px_ss p)) = Some (b, ch)"
    "p' = p\<lparr>px_ss := (px_ss p)\<lparr>ss_browser := b\<rparr>\<rparr>" using run by auto
  have "P (low24 rack)"
    using honest NewBrowser a ack_predD [OF a(2)] by (auto simp: resume_honest_def acks_all_def ss_acks_def)
  then have "P (low24 (rb_pendingRack (fst b)))"
    using Set_pending [OF s(1)] a ack_predD(1) [OF a(2)] by (auto simp: acks_all_def ss_acks_def)
  then show ?thesis using a s(2) by (simp add: acks_all_def ss_acks_def)
next
  case (CloseBrowser err)
  then show ?thesis using run a ss_acks_browser(1) [of err "px_ss p" _ P] by (auto simp: acks_all_def)
next
  case (BrowserLost now c err)
  then show ?thesis using run a ss_acks_browser(2) [of now "Some c" err "px_ss p" _ P] by (auto simp: acks_all_def)
qed

lemma px_marks_start: "px_written p \<in> set (px_marks sz es p)"
  by (cases es) simp_all

text \<open>
  A run with an honest browser: the invariant holds at its end, ssh never had more than it has then, and
  what holds of the numbers of bytes written along the run, and of 0, holds of every acknowledgement.
\<close>

lemma px_run_ok:
  assumes "px_inv sz U p" "length (px_read p) + sum_list (map px_input es) < 2 ^ 63" "px_honest sz U es p"
    "acks_all P p" "ack_pred P" "\<And>n. n \<in> set (px_marks sz es p) \<Longrightarrow> P (low24 (of_nat n))"
  shows "\<exists>p'. px_run sz es p = Some p' \<and> px_inv sz U p' \<and> acks_all P p' \<and> (\<forall>n \<in> set (px_marks sz es p). n \<le> px_written p')"
  using assms
proof (induction es arbitrary: p)
  case (Cons e es)
  have "length (px_read p) + px_input e < 2 ^ 63" using Cons.prems(2) by simp
  moreover have h: "event_honest sz U e p" using Cons.prems(3) by simp
  ultimately obtain p1 where p1: "px_step sz e p = Some p1" "px_inv sz U p1"
    "length (px_read p1) \<le> length (px_read p) + px_input e" "px_written p \<le> px_written p1"
    using px_step_ok [OF Cons.prems(1)] by blast
  have marks: "P (low24 (of_nat n))" if "n \<in> set (px_marks sz es p1)" for n using Cons.prems(6) p1(1) that by simp
  have "acks_all P p1" by (rule px_step_acks [OF p1(1,2) Cons.prems(4,5) h marks [OF px_marks_start]])
  moreover have "length (px_read p1) + sum_list (map px_input es) < 2 ^ 63" using p1(3) Cons.prems(2) by simp
  ultimately obtain p2 where p2: "px_run sz es p1 = Some p2" "px_inv sz U p2" "acks_all P p2"
    "\<forall>n \<in> set (px_marks sz es p1). n \<le> px_written p2"
    using Cons.IH [OF p1(2) _ _ _ Cons.prems(5) marks] Cons.prems(3) p1(1) by auto
  have "px_written p1 \<le> px_written p2" using p2(4) px_marks_start by blast
  then show ?case using p1 p2 by auto
qed simp

text \<open>C1: In every interleaving of the two goroutines of a session with browsers that come, break off
  and come back, for streams below 2^63 bytes, when the browser is honest: it sends its stream from
  its position, comes back with an acknowledgement it was sent (or 0), and resumes from a position that is
  not 0, and not the last one while an earlier resume is still to be processed. Then no step
  panics or blocks with the lock held; what was written to ssh is a prefix of the stream the browser
  sends; every message written to a browser carries the ssh stream at the position it was taken
  from; and every acknowledgement, the shared one and the one of each message, is (in its 24 bits) the
  number of bytes that had been written to ssh at some moment of the run, so never more than were
  written.\<close>

theorem session_end_to_end:
  assumes "0 < sz" "length U < 2 ^ 63" "sum_list (map px_input es) < 2 ^ 63" "px_honest sz U es px_start"
  shows "\<exists>p. px_run sz es px_start = Some p
    \<and> ss_to_ssh (px_ss p) = take (length (ss_to_ssh (px_ss p))) U
    \<and> list_all (\<lambda>f. take (length (fr_data f)) (drop (fr_pos f) (px_read p)) = fr_data f) (ss_frames (px_ss p))
    \<and> (\<forall>a \<in> set (ss_browserReadAck (px_ss p) # map fr_ack (ss_frames (px_ss p))).
        \<exists>n \<in> set (px_marks sz es px_start). n \<le> length (ss_to_ssh (px_ss p)) \<and> a = low24 (of_nat n))"
proof -
  define P where "P a \<longleftrightarrow> (\<exists>n \<in> set (px_marks sz es px_start). a = low24 (of_nat n))" for a
  have "0 \<in> set (px_marks sz es px_start)" using px_marks_start [of px_start] by (simp add: px_start_def)
  then have "P 0" unfolding P_def by (intro bexI [of _ 0]) simp_all
  then have pred: "ack_pred P" by (auto simp: ack_pred_def P_def)
  have "acks_all P px_start" using \<open>P 0\<close>
    by (simp add: acks_all_def acks_defs ss_acks_def px_start_def fb_start_def tb_start_def newReadWriter_def NewReplaceableBrowser_def)
  moreover have "length (px_read px_start) + sum_list (map px_input es) < 2 ^ 63" using assms(3) by (simp add: px_start_def)
  ultimately obtain p where p: "px_run sz es px_start = Some p" "px_inv sz U p" "acks_all P p"
    "\<forall>n \<in> set (px_marks sz es px_start). n \<le> px_written p"
    using px_run_ok [OF px_inv_start [OF assms(1,2)] _ assms(4) _ pred] by (auto simp: P_def)
  obtain k where out: "ss_to_ssh (px_ss p) = take k U" using p(2) by (auto simp: px_inv_def fb_inv_def)
  have "ss_to_ssh (px_ss p) = take (px_written p) U" unfolding out by (simp add: min_def)
  moreover have "list_all (\<lambda>f. take (length (fr_data f)) (drop (fr_pos f) (px_read p)) = fr_data f) (ss_frames (px_ss p))"
    using p(2) by (auto simp: px_inv_def tb_inv_def sw_history_ok_def sent_log_def list_all_iff)
  moreover have "\<forall>a \<in> set (ss_browserReadAck (px_ss p) # map fr_ack (ss_frames (px_ss p))).
      \<exists>n \<in> set (px_marks sz es px_start). n \<le> px_written p \<and> a = low24 (of_nat n)"
    using p(3,4) by (auto simp: acks_all_def ss_acks_def P_def)
  ultimately show ?thesis using p(1) by blast
qed

text \<open>
  A session with two connections: the browser sends 4 bytes, of which 2 are written and acknowledged in a
  message before the others; the connection breaks, it resumes from position 2 and sends 2 old bytes and 2
  new ones; ssh answers twice.
\<close>

definition demo_stream :: bytes where
  "demo_stream = [10, 11, 12, 13, 14, 15]"

definition demo_session :: "px_event list" where
  "demo_session = [NewBrowser 1 7 0 0, FromBrowser 1 FbGo, FromBrowser 1 (FbReader None),
     FromBrowser 1 (FbRead (ReadData [0, 0, 0, 0])), FromBrowser 1 (FbRead (ReadData [10, 11, 12, 13])),
     FromBrowser 1 (FbSsh 2), ToBrowser 2 TbGo, ToBrowser 2 (TbSsh (SshData [50, 51])), ToBrowser 2 TbGo,
     ToBrowser 2 (TbNextWriter None), FromBrowser 2 (FbSsh 9), ToBrowser 2 (TbSent (MessageSent 9)), FromBrowser 2 FbGo,
     BrowserLost 3 7 ''eof'', FromBrowser 3 (FbRead (ReadErr ''eof'')), NewBrowser 4 8 2 1, FromBrowser 4 FbGo, FromBrowser 4 FbGo,
     FromBrowser 4 (FbReader None), FromBrowser 4 (FbRead (ReadData [0, 0, 0, 1])),
     FromBrowser 4 (FbRead (ReadData [12, 13, 14, 15])), FromBrowser 4 (FbSsh 1), FromBrowser 4 (FbSsh 9),
     ToBrowser 5 TbGo, ToBrowser 5 TbGo, ToBrowser 5 (TbNextWriter None), ToBrowser 5 (TbSent (MessageSent 9))]"

lemma demo_session_runs: "px_honest 8 demo_stream demo_session px_start"
    "map_option (\<lambda>p. (ss_to_ssh (px_ss p), map fr_data (ss_frames (px_ss p)), map fr_pos (ss_frames (px_ss p)),
        map fr_ack (ss_frames (px_ss p)))) (px_run 8 demo_session px_start)
      = Some ([10, 11, 12, 13, 14, 15], [[50, 51], [51]], [0, 1], [2, 0])"
  by code_simp+

text \<open>
  The second message of that session acknowledges 0, though the browser had been told 2 and ssh has 6 bytes: the
  goroutine from the browser has taken the position the browser came with before the other one asked for it,
  which then sends the 0 it found instead of the shared acknowledgement.
\<close>

lemma resumed_frame_acks_zero:
  "\<exists>p f. px_run 8 demo_session px_start = Some p \<and> ss_browserReadAck (px_ss p) = 6
    \<and> last (ss_frames (px_ss p)) = f \<and> fr_conn f = Some 8 \<and> fr_ack f = 0"
proof -
  have "map_option (\<lambda>p. (ss_browserReadAck (px_ss p), fr_conn (last (ss_frames (px_ss p))), fr_ack (last (ss_frames (px_ss p)))))
      (px_run 8 demo_session px_start) = Some (6, Some 8, 0)" by code_simp
  then show ?thesis by auto
qed

theorem session_end_to_end_witness:
  "\<exists>p. px_run 8 demo_session px_start = Some p \<and> ss_to_ssh (px_ss p) = take 6 demo_stream
    \<and> list_all (\<lambda>f. take (length (fr_data f)) (drop (fr_pos f) (px_read p)) = fr_data f) (ss_frames (px_ss p))
    \<and> (\<forall>a \<in> set (map fr_ack (ss_frames (px_ss p))). \<exists>n \<le> 6. a = low24 (of_nat n))"
proof -
  have "sum_list (map px_input demo_session) < 2 ^ 63" by (simp add: demo_session_def)
  from session_end_to_end [of 8, OF _ _ this demo_session_runs(1)] obtain p where p: "px_run 8 demo_session px_start = Some p"
    "list_all (\<lambda>f. take (length (fr_data f)) (drop (fr_pos f) (px_read p)) = fr_data f) (ss_frames (px_ss p))"
    "\<forall>a \<in> set (ss_browserReadAck (px_ss p) # map fr_ack (ss_frames (px_ss p))).
        \<exists>n \<in> set (px_marks 8 demo_session px_start). n \<le> length (ss_to_ssh (px_ss p)) \<and> a = low24 (of_nat n)"
    by (auto simp: demo_stream_def)
  have out: "ss_to_ssh (px_ss p) = take 6 demo_stream" using demo_session_runs(2) p(1) by (simp add: demo_stream_def)
  then have "length (ss_to_ssh (px_ss p)) = 6" by (simp add: demo_stream_def)
  then have "\<forall>a \<in> set (map fr_ack (ss_frames (px_ss p))). \<exists>n \<le> 6. a = low24 (of_nat n)" using p(3) by fastforce
  then show ?thesis using p out by blast
qed

end
