(* ===== verification/Config_Keys.thy ===== *)
theory Config_Keys imports Go_Strings begin

text \<open>
  The escaping of keys (\<^verbatim>\<open>lib/config/key_codec.go\<close>): every store of the library turns a key into a name
  its backend can hold with a \<^verbatim>\<open>KeyCodec\<close>, an interface; the default one is \<open>DefaultKeyCodec\<close>.
  The errors of the package are values of \<open>cfg_error\<close>; \<open>ErrNotExist\<close> is the one
  \<^verbatim>\<open>os.IsNotExist\<close> recognises.
\<close>

section \<open>Errors\<close>

datatype cfg_error = ErrNotExist | Failed string | MultiError "cfg_error option list"

definition IsNotExist :: "cfg_error \<Rightarrow> bool" where
  "IsNotExist e \<longleftrightarrow> e = ErrNotExist"

text \<open>\<^verbatim>\<open>multierror.New\<close> and \<^verbatim>\<open>multierror.NewOr\<close>: an element that is \<^const>\<open>None\<close> is a nil error.\<close>

fun multierror_scan :: "cfg_error option list \<Rightarrow> bool" where
  "multierror_scan [] = False"
| "multierror_scan (err # errs) = (err \<noteq> None \<or> multierror_scan errs)"

definition multierror_New :: "cfg_error option list \<Rightarrow> cfg_error option" where
  "multierror_New errs = (if errs = [] then None else if multierror_scan errs then Some (MultiError errs) else None)"

definition multierror_NewOr :: "cfg_error option list \<Rightarrow> cfg_error \<Rightarrow> cfg_error" where
  "multierror_NewOr errs fallback =
    (if errs = [] then fallback else if multierror_scan errs then MultiError errs else fallback)"

lemma multierror_scan_iff: "multierror_scan errs \<longleftrightarrow> (\<exists>e. Some e \<in> set errs)"
  by (induction errs) auto

lemma multierror_New_None: "multierror_New errs = None \<longleftrightarrow> set errs \<subseteq> {None}"
proof -
  have "set errs \<subseteq> {None} \<longleftrightarrow> \<not> multierror_scan errs"
    by (induction errs) auto
  then show ?thesis by (auto simp: multierror_New_def)
qed

section \<open>The codec\<close>

abbreviation byte_of :: "char \<Rightarrow> nat" where "byte_of c \<equiv> of_char c"

definition toHex :: "nat \<Rightarrow> char" where
  "toHex v = (if v < 10 then char_of (48 + v) else char_of (65 + (v - 10)))"

definition fromHex :: "char \<Rightarrow> nat option" where
  "fromHex c = (let b = byte_of c in
    if 48 \<le> b \<and> b \<le> 57 then Some (b - 48)
    else if 97 \<le> b \<and> b \<le> 102 then Some (b - 97 + 10)
    else if 65 \<le> b \<and> b \<le> 70 then Some (b - 65 + 10)
    else None)"

definition escaped :: "char \<Rightarrow> bool" where
  "escaped c \<longleftrightarrow> c = CHR ''/'' \<or> c = CHR ''%'' \<or> c = CHR 0x00"

fun EncodeKey :: "string \<Rightarrow> string" where
  "EncodeKey [] = []"
| "EncodeKey (c # key) =
    (if escaped c then [CHR ''%'', toHex (byte_of c div 16), toHex (byte_of c mod 16)] else [c]) @ EncodeKey key"

fun DecodeKey :: "string \<Rightarrow> string" where
  "DecodeKey (c # h # l # cs) =
    (if c \<noteq> CHR ''%'' then c # DecodeKey (h # l # cs)
     else case (fromHex h, fromHex l) of
       (Some hi, Some lo) \<Rightarrow> char_of (hi * 16 + lo) # DecodeKey cs
     | _ \<Rightarrow> c # DecodeKey (h # l # cs))"
| "DecodeKey cs = cs"

lemma fromHex_toHex: "v < 16 \<Longrightarrow> fromHex (toHex v) = Some v"
  by (auto simp: toHex_def fromHex_def Let_def)

lemma toHex_plain: "v < 16 \<Longrightarrow> \<not> escaped (toHex v)" "v < 16 \<Longrightarrow> toHex v \<noteq> CHR ''.''"
proof -
  show "\<not> escaped (toHex v)" if "v < 16"
  proof -
    have "fromHex (toHex v) \<noteq> None" using fromHex_toHex [OF that] by simp
    then show ?thesis by (auto simp: escaped_def fromHex_def Let_def)
  qed
  show "toHex v \<noteq> CHR ''.''" if "v < 16"
  proof -
    have "fromHex (toHex v) \<noteq> None" using fromHex_toHex [OF that] by simp
    then show ?thesis by (auto simp: fromHex_def Let_def)
  qed
qed

lemma byte_of_lt: "byte_of c < 256"
  by (metis of_char_of char_of_char mod_less_divisor zero_less_numeral)

lemma byte_halves: "byte_of c div 16 < 16" "byte_of c mod 16 < 16"
  "char_of (byte_of c div 16 * 16 + byte_of c mod 16) = c"
  using byte_of_lt [of c] by (simp_all add: less_mult_imp_div_less)

lemma DecodeKey_other: "c \<noteq> CHR ''%'' \<Longrightarrow> DecodeKey (c # cs) = c # DecodeKey cs"
  by (cases "(c # cs)" rule: DecodeKey.cases) simp_all

lemma DecodeKey_escape: "hi < 16 \<Longrightarrow> lo < 16 \<Longrightarrow>
  DecodeKey (CHR ''%'' # toHex hi # toHex lo # cs) = char_of (hi * 16 + lo) # DecodeKey cs"
  by (simp add: fromHex_toHex)

lemma DecodeKey_EncodeKey: "DecodeKey (EncodeKey key) = key"
proof (induction key)
  case (Cons c key)
  show ?case
  proof (cases "escaped c")
    case True
    have "DecodeKey (EncodeKey (c # key)) = char_of (byte_of c div 16 * 16 + byte_of c mod 16) # DecodeKey (EncodeKey key)"
      using True byte_halves(1,2) [of c] by (simp add: DecodeKey_escape del: DecodeKey.simps)
    then show ?thesis using Cons byte_halves(3) [of c] by simp
  next
    case False
    then have "c \<noteq> CHR ''%''" by (simp add: escaped_def)
    then show ?thesis using False Cons by (simp add: DecodeKey_other)
  qed
qed simp

lemma EncodeKey_safe: "c \<in> set (EncodeKey key) \<Longrightarrow> c \<noteq> CHR ''/'' \<and> c \<noteq> CHR 0x00"
proof (induction key)
  case (Cons d key)
  then show ?case using byte_halves(1,2) [of d] toHex_plain(1) [of "byte_of d div 16"] toHex_plain(1) [of "byte_of d mod 16"]
    by (auto simp: escaped_def split: if_splits)
qed simp

lemma EncodeKey_inj: "EncodeKey a = EncodeKey b \<longleftrightarrow> a = b"
  by (metis DecodeKey_EncodeKey)

lemma EncodeKey_Nil [simp]: "EncodeKey key = [] \<longleftrightarrow> key = []"
  by (cases key) auto

lemma EncodeKey_plain: "list_all (\<lambda>c. \<not> escaped c) key \<Longrightarrow> EncodeKey key = key"
  by (induction key) auto

lemma DecodeKey_plain: "CHR ''%'' \<notin> set cs \<Longrightarrow> DecodeKey cs = cs"
  by (induction cs rule: DecodeKey.induct) auto

lemma DecodeKey_shorter: "length (DecodeKey cs) \<le> length cs"
  by (induction cs rule: DecodeKey.induct) (auto split: option.splits simp: le_SucI)

section \<open>The interface\<close>

record KeyCodec =
  kc_Encode :: "string \<Rightarrow> cfg_error + string"
  kc_Decode :: "string \<Rightarrow> cfg_error + string"

definition DefaultKeyCodec :: KeyCodec where
  "DefaultKeyCodec = \<lparr>kc_Encode = (\<lambda>key. Inr (EncodeKey key)), kc_Decode = (\<lambda>key. Inr (DecodeKey key))\<rparr>"

locale key_codec =
  fixes codec :: KeyCodec
  assumes decode_encode: "kc_Encode codec key = Inr e \<Longrightarrow> kc_Decode codec e = Inr key"
begin

lemma encode_inj: "kc_Encode codec a = Inr e \<Longrightarrow> kc_Encode codec b = Inr e \<Longrightarrow> a = b"
  using decode_encode [of a e] decode_encode [of b e] by simp

end

interpretation default_codec: key_codec DefaultKeyCodec
  by unfold_locales (auto simp: DefaultKeyCodec_def DecodeKey_EncodeKey)

section \<open>Properties\<close>

text \<open>C13: Encoding a key and decoding the name gives the key back, for every byte string; the name never holds a
  path separator or a NUL, is empty only for the empty key, and a key without the three special bytes is its own
  name; decoding never fails and never lengthens a name.\<close>

theorem key_codec_roundtrip:
  "DecodeKey (EncodeKey key) = key \<and> CHR ''/'' \<notin> set (EncodeKey key) \<and> CHR 0x00 \<notin> set (EncodeKey key) \<and>
   (EncodeKey key = [] \<longleftrightarrow> key = []) \<and> (EncodeKey key = key \<longleftrightarrow> list_all (\<lambda>c. \<not> escaped c) key) \<and>
   length (DecodeKey name) \<le> length name"
proof -
  have "list_all (\<lambda>c. \<not> escaped c) key" if "EncodeKey key = key"
  proof -
    have le: "length k \<le> length (EncodeKey k)" for k by (induction k) auto
    have "length (EncodeKey k) = length k \<Longrightarrow> list_all (\<lambda>c. \<not> escaped c) k" for k
    proof (induction k)
      case (Cons c k)
      then show ?case using le [of k] by (cases "escaped c") auto
    qed simp
    then show ?thesis using that by metis
  qed
  then show ?thesis
    using DecodeKey_EncodeKey EncodeKey_safe EncodeKey_plain DecodeKey_shorter EncodeKey_Nil by metis
qed

end
