(* ===== verification/Config_List.thy ===== *)
theory Config_List imports Config_Keys begin

text \<open>
  Descriptors and list options of the configuration library (\<^verbatim>\<open>lib/config/store.go\<close>,
  \<^verbatim>\<open>path.go\<close>, \<^verbatim>\<open>namespace.go\<close>, \<^verbatim>\<open>list_options.go\<close>, \<^verbatim>\<open>list_helpers.go\<close>). A callback is a
  function on the caller's state \<open>'s\<close>; \<^verbatim>\<open>int\<close> is 64 bits wide, and its sums wrap (\<open>i64\<close>). \<^const>\<open>None\<close> as the
  result of a listing is a panic.

  An \<^verbatim>\<open>Unmarshal\<close> target is cleared before each entry, so only what the callback is given is modelled, not what
  the target is left with.
\<close>

unbundle bit_operations_syntax

section \<open>Marshallers and descriptors\<close>

text \<open>
  The formats are behind an interface. \<open>fm_Unmarshal\<close> decodes into an existing value: it returns its error and the
  value as it leaves it, also when it fails half way.
\<close>

type_synonym 'v decoded = "cfg_error option \<times> 'v"

record 'v FileMarshaller =
  fm_Marshal :: "'v \<Rightarrow> cfg_error + bytes"
  fm_Unmarshal :: "bytes \<Rightarrow> 'v \<Rightarrow> 'v decoded"
  fm_Extension :: string

datatype 'v descriptor =
    Key string
  | formatHintDescriptor string string
  | multiDescriptor "'v FileMarshaller option" string
  | namespaceDescriptor string "string list"

fun desc_Key :: "'v descriptor \<Rightarrow> string" where
  "desc_Key (Key k) = k"
| "desc_Key (formatHintDescriptor k f) = k"
| "desc_Key (multiDescriptor m k) = k"
| "desc_Key (namespaceDescriptor n p) = n"

definition RequestedFormatKey :: "string \<Rightarrow> string \<Rightarrow> 'v descriptor" where
  "RequestedFormatKey key format = (if format = [] then Key key else formatHintDescriptor key format)"

definition NewNamespaceDescriptor :: "string list \<Rightarrow> 'v descriptor" where
  "NewNamespaceDescriptor path = namespaceDescriptor (if path \<noteq> [] then last path else []) path"

definition NamespacePathFromDescriptor :: "string list \<Rightarrow> 'v descriptor \<Rightarrow> string list" where
  "NamespacePathFromDescriptor base desc =
    (case desc of namespaceDescriptor n path \<Rightarrow> path | _ \<Rightarrow> base @ [desc_Key desc])"

definition SortedKeys :: "string list \<Rightarrow> string list" where
  "SortedKeys keys = sort keys"

definition DescriptorsFromKeys :: "string list \<Rightarrow> 'v descriptor list" where
  "DescriptorsFromKeys keys = map Key keys"

definition SortedDescriptorsFromKeys :: "string list \<Rightarrow> 'v descriptor list" where
  "SortedDescriptorsFromKeys keys = DescriptorsFromKeys (SortedKeys keys)"

definition NamespaceDescriptors :: "string list \<Rightarrow> string list \<Rightarrow> 'v descriptor list" where
  "NamespaceDescriptors base children = map (\<lambda>child. NewNamespaceDescriptor (base @ [child])) children"

definition SortedNamespaceDescriptors :: "string list \<Rightarrow> string list \<Rightarrow> 'v descriptor list" where
  "SortedNamespaceDescriptors base children = NamespaceDescriptors base (SortedKeys children)"

section \<open>Options\<close>

record ('v, 's) UnmarshalSpec =
  us_zero :: 'v
  us_fn :: "'v descriptor \<Rightarrow> 'v \<Rightarrow> 's \<Rightarrow> cfg_error option \<times> 's"

definition UnmarshalAndCall :: "('v, 's) UnmarshalSpec \<Rightarrow> 'v descriptor \<Rightarrow> bytes \<Rightarrow> (bytes \<Rightarrow> 'v \<Rightarrow> 'v decoded)
    \<Rightarrow> 's \<Rightarrow> cfg_error option \<times> 's" where
  "UnmarshalAndCall u desc data unmarshal s =
    (if length data > 0
     then case unmarshal data (us_zero u) of
       (Some err, target) \<Rightarrow> (Some err, s)
     | (None, target) \<Rightarrow> us_fn u desc target s
     else us_fn u desc (us_zero u) s)"

type_synonym ('v, 's) data_callback = "'v descriptor \<Rightarrow> bytes \<Rightarrow> 's \<Rightarrow> cfg_error option \<times> 's"

record ('v, 's) ListOptions =
  lo_Limit :: int
  lo_Offset :: int
  lo_StartFrom :: string
  lo_Unmarshal :: "('v, 's) UnmarshalSpec option"
  lo_Data :: "('v, 's) data_callback option"

definition no_options :: "('v, 's) ListOptions" where
  "no_options = \<lparr>lo_Limit = 0, lo_Offset = 0, lo_StartFrom = [], lo_Unmarshal = None, lo_Data = None\<rparr>"

type_synonym ('v, 's) ListModifier = "('v, 's) ListOptions \<Rightarrow> cfg_error + ('v, 's) ListOptions"

fun ListModifiers_Apply :: "('v, 's) ListModifier list \<Rightarrow> ('v, 's) ListModifier" where
  "ListModifiers_Apply [] opts = Inr opts"
| "ListModifiers_Apply (m # mods) opts = (case m opts of Inl err \<Rightarrow> Inl err | Inr opts' \<Rightarrow> ListModifiers_Apply mods opts')"

definition WithListOptions :: "('v, 's) ListOptions \<Rightarrow> ('v, 's) ListModifier" where
  "WithListOptions opts target =
    Inr (let t = target\<lparr>lo_Limit := lo_Limit opts, lo_Offset := lo_Offset opts, lo_StartFrom := lo_StartFrom opts\<rparr>;
             t = (if lo_Unmarshal opts \<noteq> None then t\<lparr>lo_Unmarshal := lo_Unmarshal opts\<rparr> else t)
         in if lo_Data opts \<noteq> None then t\<lparr>lo_Data := lo_Data opts\<rparr> else t)"

definition WithLimit :: "int \<Rightarrow> ('v, 's) ListModifier" where
  "WithLimit limit opts = Inr (opts\<lparr>lo_Limit := limit\<rparr>)"

definition WithOffset :: "int \<Rightarrow> ('v, 's) ListModifier" where
  "WithOffset offset opts = Inr (opts\<lparr>lo_Offset := offset\<rparr>)"

definition WithStartFrom :: "'v descriptor option \<Rightarrow> ('v, 's) ListModifier" where
  "WithStartFrom desc opts = Inr (case desc of None \<Rightarrow> opts | Some d \<Rightarrow> opts\<lparr>lo_StartFrom := desc_Key d\<rparr>)"

definition WithUnmarshal :: "'v \<Rightarrow> ('v descriptor \<Rightarrow> 'v \<Rightarrow> 's \<Rightarrow> cfg_error option \<times> 's) \<Rightarrow> ('v, 's) ListModifier" where
  "WithUnmarshal zero fn opts = Inr (opts\<lparr>lo_Unmarshal := Some \<lparr>us_zero = zero, us_fn = fn\<rparr>\<rparr>)"

definition WithData :: "('v, 's) data_callback \<Rightarrow> ('v, 's) ListModifier" where
  "WithData fn opts = Inr (opts\<lparr>lo_Data := Some fn\<rparr>)"

lemma WithListOptions_zero [simp]: "ListModifiers_Apply [WithListOptions opts] no_options = Inr opts"
  by (cases opts) (auto simp: WithListOptions_def no_options_def Let_def)

section \<open>Paging\<close>

text \<open>The binary search of \<^verbatim>\<open>sort.Search\<close>.\<close>

function search_between :: "(nat \<Rightarrow> bool) \<Rightarrow> nat \<Rightarrow> nat \<Rightarrow> nat" where
  "search_between f i j =
    (if i < j then let h = (i + j) div 2 in if \<not> f h then search_between f (h + 1) j else search_between f i h else i)"
  by auto
termination by (relation "measure (\<lambda>(f, i, j). j - i)") auto

declare search_between.simps [simp del]

definition sort_Search :: "nat \<Rightarrow> (nat \<Rightarrow> bool) \<Rightarrow> nat" where
  "sort_Search n f = search_between f 0 n"

definition ApplyStartFrom :: "'v descriptor list \<Rightarrow> string \<Rightarrow> 'v descriptor list" where
  "ApplyStartFrom descs start =
    (if start = [] \<or> length descs = 0 then descs
     else drop (sort_Search (length descs) (\<lambda>i. start \<le> desc_Key (descs ! i))) descs)"

definition ApplyStartFromKeys :: "string list \<Rightarrow> string \<Rightarrow> string list" where
  "ApplyStartFromKeys keys start =
    (if start = [] \<or> length keys = 0 then keys
     else drop (sort_Search (length keys) (\<lambda>i. start \<le> keys ! i)) keys)"

text \<open>A slice expression \<^verbatim>\<open>xs[a:b]\<close> panics when its bounds are not in order.\<close>

definition slice :: "'a list \<Rightarrow> int \<Rightarrow> int \<Rightarrow> 'a list option" where
  "slice xs a b = (if 0 \<le> a \<and> a \<le> b \<and> b \<le> int (length xs) then Some (take (nat (b - a)) (drop (nat a) xs)) else None)"

definition ApplyOffsetLimit :: "'v descriptor list \<Rightarrow> int \<Rightarrow> int \<Rightarrow> 'v descriptor list option" where
  "ApplyOffsetLimit descs offset limit =
    (let start = offset;
         start = (if start > int (length descs) then int (length descs) else start);
         end = int (length descs);
         end = (if limit > 0 \<and> i64 (start + limit) < end then i64 (start + limit) else end)
     in slice descs start end)"

definition ApplyOffsetLimitKeys :: "string list \<Rightarrow> int \<Rightarrow> int \<Rightarrow> string list option" where
  "ApplyOffsetLimitKeys keys offset limit =
    (let start = offset;
         start = (if start > int (length keys) then int (length keys) else start);
         end = int (length keys);
         end = (if limit > 0 \<and> i64 (start + limit) < end then i64 (start + limit) else end)
     in slice keys start end)"

definition OptimizedStartFrom :: u32 where "OptimizedStartFrom = 1"
definition OptimizedOffsetLimit :: u32 where "OptimizedOffsetLimit = 2"
definition OptimizedUnmarshal :: u32 where "OptimizedUnmarshal = 4"
definition OptimizedData :: u32 where "OptimizedData = 8"

lemmas optimized_defs = OptimizedStartFrom_def OptimizedOffsetLimit_def OptimizedUnmarshal_def OptimizedData_def

definition ListOptions_Apply :: "('v, 's) ListOptions \<Rightarrow> 'v descriptor list \<Rightarrow> u32 \<Rightarrow> 'v descriptor list option" where
  "ListOptions_Apply opts descs optimized =
    (let descs = (if optimized AND OptimizedStartFrom = 0 then ApplyStartFrom descs (lo_StartFrom opts) else descs)
     in if optimized AND OptimizedOffsetLimit = 0 then ApplyOffsetLimit descs (lo_Offset opts) (lo_Limit opts)
        else Some descs)"

definition ApplyKeys :: "('v, 's) ListOptions \<Rightarrow> string list \<Rightarrow> u32 \<Rightarrow> string list option" where
  "ApplyKeys opts keys optimized =
    (let keys = (if optimized AND OptimizedStartFrom = 0 then ApplyStartFromKeys keys (lo_StartFrom opts) else keys)
     in if optimized AND OptimizedOffsetLimit = 0 then ApplyOffsetLimitKeys keys (lo_Offset opts) (lo_Limit opts)
        else Some keys)"

fun data_each :: "(string \<Rightarrow> cfg_error + bytes) \<Rightarrow> ('v, 's) data_callback \<Rightarrow> string list \<Rightarrow> 's \<Rightarrow> cfg_error option \<times> 's" where
  "data_each read f [] s = (None, s)"
| "data_each read f (key # keys) s =
    (case read key of
       Inl err \<Rightarrow> (Some err, s)
     | Inr data \<Rightarrow> (case f (Key key) data s of (Some err, s) \<Rightarrow> (Some err, s) | (None, s) \<Rightarrow> data_each read f keys s))"

definition FinalizeKeys :: "('v, 's) ListOptions \<Rightarrow> (string \<Rightarrow> cfg_error + bytes) \<Rightarrow> string list \<Rightarrow> u32 \<Rightarrow> 's
    \<Rightarrow> ((cfg_error + string list) \<times> 's) option" where
  "FinalizeKeys opts read keys optimized s =
    map_option (\<lambda>keys.
      case lo_Data opts of
        None \<Rightarrow> (Inr keys, s)
      | Some f \<Rightarrow>
        if optimized AND OptimizedData = 0
        then (case data_each read f keys s of (Some err, s) \<Rightarrow> (Inl err, s) | (None, s) \<Rightarrow> (Inr [], s))
        else (Inr keys, s))
    (ApplyKeys opts keys optimized)"

fun unmarshal_each :: "('v descriptor \<Rightarrow> 'v \<Rightarrow> 'v decoded) \<Rightarrow> ('v, 's) UnmarshalSpec \<Rightarrow> 'v descriptor list \<Rightarrow> 's
    \<Rightarrow> cfg_error option \<times> 's" where
  "unmarshal_each unm u [] s = (None, s)"
| "unmarshal_each unm u (desc # descs) s =
    (case unm desc (us_zero u) of
       (Some err, target) \<Rightarrow> (Some err, s)
     | (None, target) \<Rightarrow> (case us_fn u desc target s of (Some err, s) \<Rightarrow> (Some err, s) | (None, s) \<Rightarrow> unmarshal_each unm u descs s))"

definition ListOptions_Finalize :: "('v, 's) ListOptions \<Rightarrow> ('v descriptor \<Rightarrow> 'v \<Rightarrow> 'v decoded) \<Rightarrow> 'v descriptor list
    \<Rightarrow> u32 \<Rightarrow> 's \<Rightarrow> ((cfg_error + 'v descriptor list) \<times> 's) option" where
  "ListOptions_Finalize opts unm descs optimized s =
    map_option (\<lambda>descs.
      case lo_Unmarshal opts of
        None \<Rightarrow> (Inr descs, s)
      | Some u \<Rightarrow>
        if optimized AND OptimizedUnmarshal = 0
        then (case unmarshal_each unm u descs s of (Some err, s) \<Rightarrow> (Inl err, s) | (None, s) \<Rightarrow> (Inr [], s))
        else (Inr descs, s))
    (ListOptions_Apply opts descs optimized)"

section \<open>What paging returns\<close>

lemma search_between_steps:
  "\<not> i < j \<Longrightarrow> search_between f i j = i"
  "i < j \<Longrightarrow> f ((i + j) div 2) \<Longrightarrow> search_between f i j = search_between f i ((i + j) div 2)"
  "i < j \<Longrightarrow> \<not> f ((i + j) div 2) \<Longrightarrow> search_between f i j = search_between f ((i + j) div 2 + 1) j"
  using search_between.simps [of f i j] by (simp_all add: Let_def)

lemma search_between_first:
  assumes "\<And>a b. f a \<Longrightarrow> a \<le> b \<Longrightarrow> b < n \<Longrightarrow> f b"
    and "i \<le> j" "j \<le> n" "\<And>k. k < i \<Longrightarrow> \<not> f k" "\<And>k. j \<le> k \<Longrightarrow> k < n \<Longrightarrow> f k"
  shows "search_between f i j \<le> n \<and> (\<forall>k < n. f k \<longleftrightarrow> search_between f i j \<le> k)"
  using assms
proof (induction "j - i" arbitrary: i j rule: less_induct)
  case less
  note pre = less.prems
  define h where "h = (i + j) div 2"
  consider "\<not> i < j" | "i < j" "f h" | "i < j" "\<not> f h" by blast
  then show ?case
  proof cases
    case 1
    then have e: "search_between f i j = i" by (rule search_between_steps)
    have ij: "i = j" using 1 pre(2) by simp
    show ?thesis unfolding e using pre(3,4,5) ij by (metis not_le)
  next
    case 2
    have e: "search_between f i j = search_between f i h" using 2 search_between_steps(2) [of i j f] by (simp add: h_def)
    have h: "i \<le> h" "h < j" using 2(1) by (simp_all add: h_def)
    show ?thesis unfolding e
    proof (rule less.hyps)
      show "h - i < j - i" "i \<le> h" "h \<le> n" using h pre(3) by simp_all
      show "f k" if "h \<le> k" "k < n" for k using pre(1) [OF 2(2) that] .
    qed (use pre in blast)+
  next
    case 3
    have e: "search_between f i j = search_between f (h + 1) j" using 3 search_between_steps(3) [of i j f] by (simp add: h_def)
    have h: "i \<le> h" "h < j" using 3(1) by (simp_all add: h_def)
    show ?thesis unfolding e
    proof (rule less.hyps)
      show "j - (h + 1) < j - i" "h + 1 \<le> j" "j \<le> n" using h pre(3) by simp_all
      show "\<not> f k" if "k < h + 1" for k
      proof
        assume "f k"
        then have "f h" using pre(1) [of k h] that h pre(3) by simp
        then show False using 3(2) by simp
      qed
    qed (use pre in blast)+
  qed
qed

lemma search_between_cong:
  "(\<And>k. k < n \<Longrightarrow> f k = g k) \<Longrightarrow> j \<le> n \<Longrightarrow> search_between f i j = search_between g i j"
proof (induction "j - i" arbitrary: i j rule: less_induct)
  case less
  note eq = less.prems(1)
  show ?case
  proof (cases "i < j")
    case True
    define h where "h = (i + j) div 2"
    have h: "i \<le> h" "h < j" "h < n" using True less.prems(2) by (simp_all add: h_def)
    show ?thesis
    proof (cases "f h")
      case True
      have "search_between f i h = search_between g i h" using less.hyps [of h i] h eq by simp
      then show ?thesis using True eq [OF h(3)] \<open>i < j\<close> search_between_steps(2) [of i j] by (simp add: h_def)
    next
      case False
      have "search_between f (h + 1) j = search_between g (h + 1) j" using less.hyps [of j "h + 1"] h eq less.prems(2) by simp
      then show ?thesis using False eq [OF h(3)] \<open>i < j\<close> search_between_steps(3) [of i j] by (simp add: h_def)
    qed
  qed (simp add: search_between_steps)
qed

lemma sort_Search_first:
  assumes "\<And>a b. f a \<Longrightarrow> a \<le> b \<Longrightarrow> b < n \<Longrightarrow> f b"
  shows "sort_Search n f \<le> n" "k < n \<Longrightarrow> f k \<longleftrightarrow> sort_Search n f \<le> k"
  using search_between_first [of f n 0 n] assms by (auto simp: sort_Search_def)

lemma drop_sorted:
  fixes xs :: "'a::linorder list"
  assumes "sorted xs"
  shows "drop (sort_Search (length xs) (\<lambda>i. start \<le> xs ! i)) xs = filter (\<lambda>x. start \<le> x) xs"
proof -
  define n where "n = sort_Search (length xs) (\<lambda>i. start \<le> xs ! i)"
  have mono: "start \<le> xs ! b" if "start \<le> xs ! a" "a \<le> b" "b < length xs" for a b
    using sorted_nth_mono [OF assms that(2,3)] that(1) by simp
  have n: "n \<le> length xs" "k < length xs \<Longrightarrow> start \<le> xs ! k \<longleftrightarrow> n \<le> k" for k
    unfolding n_def by (rule sort_Search_first; use mono in blast)+
  have "\<not> start \<le> x" if "x \<in> set (take n xs)" for x
  proof -
    obtain k where "k < length (take n xs)" "x = take n xs ! k" using \<open>x \<in> set (take n xs)\<close> by (metis in_set_conv_nth)
    then show ?thesis using n(2) [of k] by simp
  qed
  then have "filter (\<lambda>x. start \<le> x) (take n xs) = []" by (simp add: filter_empty_conv)
  moreover have "start \<le> x" if "x \<in> set (drop n xs)" for x
  proof -
    obtain k where "k < length (drop n xs)" "x = drop n xs ! k" using \<open>x \<in> set (drop n xs)\<close> by (metis in_set_conv_nth)
    then show ?thesis using n(2) [of "n + k"] by simp
  qed
  then have "filter (\<lambda>x. start \<le> x) (drop n xs) = drop n xs" by (simp add: filter_id_conv)
  ultimately show ?thesis unfolding n_def [symmetric]
    by (metis append_Nil append_take_drop_id filter_append)
qed

lemma ApplyStartFromKeys_sorted: "sorted keys \<Longrightarrow> ApplyStartFromKeys keys start = filter (\<lambda>k. start \<le> k) keys"
  by (simp add: ApplyStartFromKeys_def drop_sorted)

lemma ApplyStartFrom_keys:
  "map desc_Key (ApplyStartFrom descs start) = ApplyStartFromKeys (map desc_Key descs) start"
proof -
  have s: "sort_Search (length descs) (\<lambda>i. start \<le> desc_Key (descs ! i)) =
      sort_Search (length (map desc_Key descs)) (\<lambda>i. start \<le> map desc_Key descs ! i)"
    unfolding sort_Search_def length_map by (rule search_between_cong [where n = "length descs"]) auto
  show ?thesis unfolding ApplyStartFrom_def ApplyStartFromKeys_def s by (simp only: length_map drop_map split: if_split) simp
qed

lemma ApplyOffsetLimit_keys:
  "map_option (map desc_Key) (ApplyOffsetLimit descs offset limit) = ApplyOffsetLimitKeys (map desc_Key descs) offset limit"
  by (simp add: ApplyOffsetLimit_def ApplyOffsetLimitKeys_def slice_def drop_map take_map Let_def)

definition page :: "int \<Rightarrow> int \<Rightarrow> 'a list \<Rightarrow> 'a list" where
  "page offset limit xs = (if limit > 0 then take (nat limit) else id) (drop (nat offset) xs)"

text \<open>The bounds of a page overflow when the limit is that large; a negative offset is never checked.\<close>

definition page_panics :: "int \<Rightarrow> int \<Rightarrow> nat \<Rightarrow> bool" where
  "page_panics offset limit n \<longleftrightarrow> offset < 0 \<or> (limit > 0 \<and> min offset (int n) + limit \<ge> 2 ^ 63)"

lemma ApplyOffsetLimitKeys_exact:
  assumes n: "int (length keys) < 2 ^ 63" and l: "limit < 2 ^ 63"
  shows "ApplyOffsetLimitKeys keys offset limit =
    (if page_panics offset limit (length keys) then None else Some (page offset limit keys))"
proof -
  define start where "start = (if offset > int (length keys) then int (length keys) else offset)"
  have e: "ApplyOffsetLimitKeys keys offset limit =
      slice keys start (if limit > 0 \<and> i64 (start + limit) < int (length keys) then i64 (start + limit) else int (length keys))"
    by (simp add: ApplyOffsetLimitKeys_def start_def Let_def)
  have m: "min offset (int (length keys)) = start" by (simp add: start_def)
  consider "offset < 0" | "0 \<le> offset" "limit \<le> 0" | "0 \<le> offset" "0 < limit" "start + limit < 2 ^ 63"
    | "0 \<le> offset" "0 < limit" "2 ^ 63 \<le> start + limit" by linarith
  then show ?thesis
  proof cases
    case 1
    then have "start < 0" by (simp add: start_def)
    then show ?thesis using 1 by (simp add: e page_panics_def slice_def)
  next
    case 2
    have "drop (nat start) keys = drop (nat offset) keys" by (simp add: start_def)
    then have "page offset limit keys = drop (nat start) keys" using 2 by (simp add: page_def)
    moreover have "0 \<le> start" "start \<le> int (length keys)" using 2 by (simp_all add: start_def)
    ultimately show ?thesis using 2 by (simp add: e page_panics_def slice_def)
  next
    case 3
    have s: "0 \<le> start" "start \<le> int (length keys)" using 3 by (simp_all add: start_def)
    have "nat start \<le> length keys" using s by linarith
    have i: "i64 (start + limit) = start + limit" using 3 s by (intro i64_id) linarith+
    have d: "drop (nat start) keys = drop (nat offset) keys" by (simp add: start_def)
    show ?thesis
    proof (cases "start + limit < int (length keys)")
      case True
      then show ?thesis using 3 s d m by (simp add: e i page_panics_def slice_def page_def)
    next
      case False
      have "page offset limit keys = take (nat limit) (drop (nat start) keys)" using 3 d by (simp add: page_def)
      moreover have "length keys - nat start \<le> nat limit" using False s by linarith
      ultimately have "page offset limit keys = drop (nat start) keys" by simp
      then show ?thesis using False 3 s m by (simp add: e i page_panics_def slice_def)
    qed
  next
    case 4
    have s: "0 \<le> start" "start \<le> int (length keys)" using 4 by (simp_all add: start_def)
    have "start + limit < 2 ^ 64" using n l s by simp
    then have "i64 (start + limit) < 0" using i64_over [of "start + limit"] 4 by linarith
    then show ?thesis using 4 s m by (simp add: e page_panics_def slice_def)
  qed
qed

text \<open>C14: On sorted keys, what a listing returns is the keys from \<open>StartFrom\<close> on, without the first \<open>Offset\<close>, cut
  at \<open>Limit\<close> when it is positive; it panics exactly on a negative offset or when offset plus limit overflows.\<close>

theorem ApplyKeys_exact:
  fixes opts :: "('v, 's) ListOptions"
  assumes "sorted keys" "int (length keys) < 2 ^ 63" "lo_Limit opts < 2 ^ 63"
  shows "ApplyKeys opts keys 0 =
    (let keys' = filter (\<lambda>k. lo_StartFrom opts \<le> k) keys
     in if page_panics (lo_Offset opts) (lo_Limit opts) (length keys') then None
        else Some (page (lo_Offset opts) (lo_Limit opts) keys'))"
proof -
  define keys' where "keys' = filter (\<lambda>k. lo_StartFrom opts \<le> k) keys"
  have "length keys' \<le> length keys" by (simp add: keys'_def)
  then have "int (length keys') < 2 ^ 63" using assms(2) by linarith
  moreover have "ApplyKeys opts keys 0 = ApplyOffsetLimitKeys keys' (lo_Offset opts) (lo_Limit opts)"
    using assms(1) by (simp add: ApplyKeys_def ApplyStartFromKeys_sorted keys'_def)
  ultimately show ?thesis using assms(3) by (simp add: ApplyOffsetLimitKeys_exact Let_def flip: keys'_def)
qed

definition demo_options :: "int \<Rightarrow> int \<Rightarrow> (unit, unit) ListOptions" where
  "demo_options limit offset = \<lparr>lo_Limit = limit, lo_Offset = offset, lo_StartFrom = ''b'', lo_Unmarshal = None, lo_Data = None\<rparr>"

theorem ApplyKeys_exact_witness:
  "ApplyKeys (demo_options 1 1) [''a'', ''b'', ''c'', ''d''] 0 = Some [''c''] \<and>
   ApplyKeys (demo_options (2 ^ 63 - 1) 1) [''a'', ''b'', ''c'', ''d''] 0 = None"
proof -
  have s: "sorted [''a'', ''b'', ''c'', ''d'']" by simp
  have f: "filter (\<lambda>k. ''b'' \<le> k) [''a'', ''b'', ''c'', ''d''] = [''b'', ''c'', ''d'']" by simp
  show ?thesis
    using ApplyKeys_exact [OF s, of "demo_options 1 1"] ApplyKeys_exact [OF s, of "demo_options (2 ^ 63 - 1) 1"]
    by (simp add: demo_options_def f page_panics_def page_def Let_def del: filter.simps)
qed

end
