(* ===== verification/Config_Loader.thy ===== *)
theory Config_Loader imports Config_List "HOL-Library.AList" begin

text \<open>
  The \<^verbatim>\<open>Loader\<close> interface (\<^verbatim>\<open>lib/config/store.go\<close>) as a record of operations on a backend state \<open>'l\<close>, what its
  clients rely on as a locale, and the in-memory loader (\<^verbatim>\<open>lib/config/memory/memory.go\<close>), on which the locale is
  interpreted. The map of the loader is an association list, in the arbitrary order in which Go ranges over it.
\<close>

section \<open>The interface\<close>

record ('l, 'v, 's) Loader =
  ld_List :: "('v, 's) ListModifier list \<Rightarrow> 'l \<Rightarrow> 's \<Rightarrow> ((cfg_error + string list) \<times> 's) option"
  ld_Read :: "'l \<Rightarrow> string \<Rightarrow> cfg_error + bytes"
  ld_Write :: "'l \<Rightarrow> string \<Rightarrow> bytes \<Rightarrow> cfg_error option \<times> 'l"
  ld_Delete :: "'l \<Rightarrow> string \<Rightarrow> cfg_error option \<times> 'l"

locale loader =
  fixes ld :: "('l, 'v, 's) Loader"
    and inv :: "'l \<Rightarrow> bool"
    and contents :: "'l \<Rightarrow> string \<rightharpoonup> bytes"
  assumes finite_contents: "inv l \<Longrightarrow> finite (dom (contents l))"
    and Read_contents: "inv l \<Longrightarrow> ld_Read ld l n = (case contents l n of None \<Rightarrow> Inl ErrNotExist | Some d \<Rightarrow> Inr d)"
    and Write_ok: "inv l \<Longrightarrow> ld_Write ld l n d = (None, l') \<Longrightarrow> inv l' \<and> contents l' = (contents l)(n \<mapsto> d)"
    and Write_err: "inv l \<Longrightarrow> ld_Write ld l n d = (Some e, l') \<Longrightarrow> inv l' \<and> contents l' = contents l"
    and Delete_ok: "inv l \<Longrightarrow> ld_Delete ld l n = (None, l') \<Longrightarrow>
      inv l' \<and> n \<in> dom (contents l) \<and> contents l' = (contents l)(n := None)"
    and Delete_err: "inv l \<Longrightarrow> ld_Delete ld l n = (Some e, l') \<Longrightarrow> inv l' \<and> contents l' = contents l"
    and Delete_absent: "inv l \<Longrightarrow> (\<exists>l'. ld_Delete ld l n = (Some ErrNotExist, l')) \<longleftrightarrow> n \<notin> dom (contents l)"
    and List_contents: "inv l \<Longrightarrow> ld_List ld [WithListOptions opts] l s =
      FinalizeKeys opts (ld_Read ld l) (sorted_list_of_set (dom (contents l))) 0 s"
begin

definition names :: "'l \<Rightarrow> string list" where
  "names l = sorted_list_of_set (dom (contents l))"

lemma names_simps: "inv l \<Longrightarrow> set (names l) = dom (contents l)" "sorted (names l)" "distinct (names l)"
  by (simp_all add: names_def finite_contents)

lemma Delete_None: "inv l \<Longrightarrow> ld_Delete ld l n = (None, l') \<Longrightarrow> n \<in> dom (contents l)"
  using Delete_ok by blast

lemma Read_Some: "inv l \<Longrightarrow> contents l n = Some d \<Longrightarrow> ld_Read ld l n = Inr d"
  by (simp add: Read_contents)

text \<open>A listing with a callback hands it every name of the page with its bytes, in order, until it fails.\<close>

fun visit :: "('v, 's) data_callback \<Rightarrow> (string \<times> bytes) list \<Rightarrow> 's \<Rightarrow> cfg_error option \<times> 's" where
  "visit f [] s = (None, s)"
| "visit f ((n, d) # es) s = (case f (Key n) d s of (Some e, s) \<Rightarrow> (Some e, s) | (None, s) \<Rightarrow> visit f es s)"

lemma data_each_visit: "inv l \<Longrightarrow> set ns \<subseteq> dom (contents l) \<Longrightarrow>
    data_each (ld_Read ld l) f ns s = visit f (map (\<lambda>n. (n, the (contents l n))) ns) s"
proof (induction ns arbitrary: s)
  case (Cons n ns)
  then obtain d where "contents l n = Some d" by auto
  then show ?case using Cons by (auto simp: Read_contents split: prod.splits option.splits)
qed simp

end

section \<open>The in-memory loader\<close>

record memory_Loader =
  ml_data :: "(string \<times> bytes) list"

definition memory_Open :: memory_Loader where
  "memory_Open = \<lparr>ml_data = []\<rparr>"

definition memory_Read :: "memory_Loader \<Rightarrow> string \<Rightarrow> cfg_error + bytes" where
  "memory_Read m name = (case map_of (ml_data m) name of None \<Rightarrow> Inl ErrNotExist | Some data \<Rightarrow> Inr data)"

definition memory_List :: "('v, 's) ListModifier list \<Rightarrow> memory_Loader \<Rightarrow> 's \<Rightarrow> ((cfg_error + string list) \<times> 's) option" where
  "memory_List mods m s =
    (case ListModifiers_Apply mods no_options of
       Inl err \<Rightarrow> Some (Inl err, s)
     | Inr opts \<Rightarrow> FinalizeKeys opts (memory_Read m) (sort (map fst (ml_data m))) 0 s)"

definition memory_Write :: "memory_Loader \<Rightarrow> string \<Rightarrow> bytes \<Rightarrow> cfg_error option \<times> memory_Loader" where
  "memory_Write m name data = (None, m\<lparr>ml_data := AList.update name data (ml_data m)\<rparr>)"

definition memory_Delete :: "memory_Loader \<Rightarrow> string \<Rightarrow> cfg_error option \<times> memory_Loader" where
  "memory_Delete m name =
    (case map_of (ml_data m) name of
       None \<Rightarrow> (Some ErrNotExist, m)
     | Some _ \<Rightarrow> (None, m\<lparr>ml_data := AList.delete name (ml_data m)\<rparr>))"

definition memory_ops :: "(memory_Loader, 'v, 's) Loader" where
  "memory_ops = \<lparr>ld_List = memory_List, ld_Read = memory_Read, ld_Write = memory_Write, ld_Delete = memory_Delete\<rparr>"

text \<open>The streaming writer: what is written becomes visible when it is closed, once.\<close>

record memoryWriter =
  mw_open :: bool
  mw_key :: string
  mw_buf :: bytes

definition memory_Writer :: "string \<Rightarrow> memoryWriter" where
  "memory_Writer name = \<lparr>mw_open = True, mw_key = name, mw_buf = []\<rparr>"

definition memoryWriter_Write :: "memoryWriter \<Rightarrow> bytes \<Rightarrow> (cfg_error + nat) \<times> memoryWriter" where
  "memoryWriter_Write w p =
    (if \<not> mw_open w then (Inl (Failed ''writer already closed''), w) else (Inr (length p), w\<lparr>mw_buf := mw_buf w @ p\<rparr>))"

definition memoryWriter_Close :: "memoryWriter \<Rightarrow> memory_Loader \<Rightarrow> memoryWriter \<times> memory_Loader" where
  "memoryWriter_Close w m =
    (if \<not> mw_open w then (w, m)
     else (w\<lparr>mw_open := False\<rparr>, snd (memory_Write m (mw_key w) (mw_buf w))))"

definition memory_Reader :: "memory_Loader \<Rightarrow> string \<Rightarrow> cfg_error + bytes" where
  "memory_Reader m name = memory_Read m name"

section \<open>It is a loader\<close>

definition memory_inv :: "memory_Loader \<Rightarrow> bool" where
  "memory_inv m \<longleftrightarrow> distinct (map fst (ml_data m))"

definition memory_contents :: "memory_Loader \<Rightarrow> string \<rightharpoonup> bytes" where
  "memory_contents m = map_of (ml_data m)"

lemma sort_keys: "distinct (map fst d) \<Longrightarrow> sort (map fst d) = sorted_list_of_set (dom (map_of d))"
  by (simp add: dom_map_of_conv_image_fst sorted_list_of_set_sort_remdups distinct_remdups_id flip: set_map)

lemma memory_Open_inv: "memory_inv memory_Open" "memory_contents memory_Open = Map.empty"
  by (simp_all add: memory_inv_def memory_contents_def memory_Open_def)

lemma memory_Write_simps:
  "memory_inv m \<Longrightarrow> memory_inv (snd (memory_Write m n d))"
  "memory_contents (snd (memory_Write m n d)) = (memory_contents m)(n \<mapsto> d)"
  "fst (memory_Write m n d) = None"
  by (simp_all add: memory_Write_def memory_inv_def memory_contents_def distinct_update update_conv')

lemma memory_Delete_simps:
  "memory_inv m \<Longrightarrow> memory_inv (snd (memory_Delete m n))"
  "memory_contents (snd (memory_Delete m n)) = (memory_contents m)(n := None)"
  "fst (memory_Delete m n) = (if n \<in> dom (memory_contents m) then None else Some ErrNotExist)"
  by (auto simp: memory_Delete_def memory_inv_def memory_contents_def distinct_delete delete_conv' fun_upd_idem
      split: option.splits)

interpretation memory: loader memory_ops memory_inv memory_contents
proof
  fix l l' :: memory_Loader and n d and e :: cfg_error and opts :: "('v, 's) ListOptions" and s :: 's
  assume i: "memory_inv l"
  show "finite (dom (memory_contents l))" by (simp add: memory_contents_def finite_dom_map_of)
  show "ld_Read memory_ops l n = (case memory_contents l n of None \<Rightarrow> Inl ErrNotExist | Some d \<Rightarrow> Inr d)"
    by (simp add: memory_ops_def memory_Read_def memory_contents_def)
  show "memory_inv l' \<and> memory_contents l' = (memory_contents l)(n \<mapsto> d)" if "ld_Write memory_ops l n d = (None, l')"
    using that memory_Write_simps [of l n d] i by (simp add: memory_ops_def)
  show "memory_inv l' \<and> memory_contents l' = memory_contents l" if "ld_Write memory_ops l n d = (Some e, l')"
    using that memory_Write_simps(3) [of l n d] by (simp add: memory_ops_def)
  show "memory_inv l' \<and> n \<in> dom (memory_contents l) \<and> memory_contents l' = (memory_contents l)(n := None)"
    if "ld_Delete memory_ops l n = (None, l')"
    using that memory_Delete_simps [of l n] i by (simp add: memory_ops_def split: if_splits)
  show "memory_inv l' \<and> memory_contents l' = memory_contents l" if "ld_Delete memory_ops l n = (Some e, l')"
    using that memory_Delete_simps [of l n] i by (auto simp: memory_ops_def fun_upd_idem split: if_splits)
  show "(\<exists>l'. ld_Delete memory_ops l n = (Some ErrNotExist, l')) \<longleftrightarrow> n \<notin> dom (memory_contents l)"
    using memory_Delete_simps(3) [of l n] by (cases "memory_Delete l n") (auto simp: memory_ops_def split: if_splits)
  show "ld_List memory_ops [WithListOptions opts] l s =
      FinalizeKeys opts (ld_Read memory_ops l) (sorted_list_of_set (dom (memory_contents l))) 0 s"
    using i by (simp add: memory_ops_def memory_List_def memory_inv_def memory_contents_def sort_keys
        del: ListModifiers_Apply.simps)
qed

lemma memoryWriter_visible_once:
  assumes "memory_inv m" "mw_open w"
  shows "memory_contents (snd (memoryWriter_Close w m)) = (memory_contents m)(mw_key w \<mapsto> mw_buf w)"
    and "memoryWriter_Close (fst (memoryWriter_Close w m)) m' = (fst (memoryWriter_Close w m), m')"
  using assms by (simp_all add: memoryWriter_Close_def memory_Write_simps)

end
