(* ===== verification/Config_Simple.thy ===== *)
theory Config_Simple imports Config_Loader begin

text \<open>
  The single-format store (\<^verbatim>\<open>lib/config/simple.go\<close>) over any loader, codec and format. A nil descriptor is
  \<^const>\<open>None\<close>; the value an operation decodes into is passed and returned. Its client lemmas are proved once, in a
  locale over the laws of the loader and of the codec, and hold of the in-memory loader with the default codec by
  interpretation.
\<close>

section \<open>The store\<close>

record ('l, 'v, 's) SimpleStore =
  ss_loader :: "('l, 'v, 's) Loader"
  ss_marshaller :: "'v FileMarshaller"
  ss_keyCodec :: KeyCodec

definition OpenSimple :: "('l, 'v, 's) Loader \<Rightarrow> 'v FileMarshaller \<Rightarrow> KeyCodec option \<Rightarrow> ('l, 'v, 's) SimpleStore" where
  "OpenSimple ld marshaller codec =
    \<lparr>ss_loader = ld, ss_marshaller = marshaller,
     ss_keyCodec = (case codec of None \<Rightarrow> DefaultKeyCodec | Some c \<Rightarrow> c)\<rparr>"

definition ss_ext :: "('l, 'v, 's) SimpleStore \<Rightarrow> string" where
  "ss_ext ss = CHR ''.'' # fm_Extension (ss_marshaller ss)"

definition ss_pathForKey :: "('l, 'v, 's) SimpleStore \<Rightarrow> string \<Rightarrow> cfg_error + string" where
  "ss_pathForKey ss key =
    (case kc_Encode (ss_keyCodec ss) key of Inl err \<Rightarrow> Inl err | Inr encoded \<Rightarrow> Inr (encoded @ ss_ext ss))"

definition ss_parseDesc :: "('l, 'v, 's) SimpleStore \<Rightarrow> 'v descriptor \<Rightarrow> cfg_error + string" where
  "ss_parseDesc ss desc =
    (case desc of
       formatHintDescriptor k f \<Rightarrow>
         if f \<noteq> fm_Extension (ss_marshaller ss) then Inl (Failed ''descriptor format does not match'') else Inr k
     | _ \<Rightarrow> Inr (desc_Key desc))"

definition ss_keyOf :: "('l, 'v, 's) SimpleStore \<Rightarrow> string \<Rightarrow> cfg_error + string" where
  "ss_keyOf ss name = kc_Decode (ss_keyCodec ss) (TrimSuffix name (ss_ext ss))"

definition nil_descriptor :: cfg_error where
  "nil_descriptor = Failed ''must be passed a non-nil descriptor''"

definition SimpleStore_Marshal :: "('l, 'v, 's) SimpleStore \<Rightarrow> 'v descriptor option \<Rightarrow> 'v \<Rightarrow> 'l \<Rightarrow> cfg_error option \<times> 'l" where
  "SimpleStore_Marshal ss desc v l =
    (case desc of
       None \<Rightarrow> (Some nil_descriptor, l)
     | Some desc \<Rightarrow>
       (case ss_parseDesc ss desc of
          Inl err \<Rightarrow> (Some err, l)
        | Inr key \<Rightarrow>
          (case ss_pathForKey ss key of
             Inl err \<Rightarrow> (Some err, l)
           | Inr name \<Rightarrow>
             (case fm_Marshal (ss_marshaller ss) v of
                Inl err \<Rightarrow> (Some err, l)
              | Inr data \<Rightarrow> ld_Write (ss_loader ss) l name data))))"

definition SimpleStore_Unmarshal :: "('l, 'v, 's) SimpleStore \<Rightarrow> 'v descriptor option \<Rightarrow> 'v \<Rightarrow> 'l
    \<Rightarrow> 'v descriptor option \<times> 'v decoded" where
  "SimpleStore_Unmarshal ss desc v l =
    (case desc of
       None \<Rightarrow> (None, Some nil_descriptor, v)
     | Some desc \<Rightarrow>
       (case ss_parseDesc ss desc of
          Inl err \<Rightarrow> (Some (Key (desc_Key desc)), Some err, v)
        | Inr key \<Rightarrow>
          (Some (Key key),
           case ss_pathForKey ss key of
             Inl err \<Rightarrow> (Some err, v)
           | Inr path \<Rightarrow>
             (case ld_Read (ss_loader ss) l path of
                Inl err \<Rightarrow> (Some err, v)
              | Inr data \<Rightarrow> if length data = 0 then (None, v) else fm_Unmarshal (ss_marshaller ss) data v))))"

definition SimpleStore_Delete :: "('l, 'v, 's) SimpleStore \<Rightarrow> 'v descriptor option \<Rightarrow> 'l \<Rightarrow> cfg_error option \<times> 'l" where
  "SimpleStore_Delete ss desc l =
    (case desc of
       None \<Rightarrow> (Some nil_descriptor, l)
     | Some desc \<Rightarrow>
       (case ss_parseDesc ss desc of
          Inl err \<Rightarrow> (Some err, l)
        | Inr key \<Rightarrow>
          (case ss_pathForKey ss key of Inl err \<Rightarrow> (Some err, l) | Inr name \<Rightarrow> ld_Delete (ss_loader ss) l name)))"

text \<open>The callback that a listing gives to the loader when it has one itself.\<close>

definition ss_list_callback :: "('l, 'v, 's) SimpleStore \<Rightarrow> ('v, 's) ListOptions \<Rightarrow> ('v, 's) data_callback option" where
  "ss_list_callback ss opts =
    (case lo_Unmarshal opts of
       Some u \<Rightarrow> Some (\<lambda>desc data s. case ss_keyOf ss (desc_Key desc) of
           Inl err \<Rightarrow> (Some err, s)
         | Inr key \<Rightarrow> UnmarshalAndCall u (Key key) data (fm_Unmarshal (ss_marshaller ss)) s)
     | None \<Rightarrow>
       (case lo_Data opts of
          Some f \<Rightarrow> Some (\<lambda>desc data s. case ss_keyOf ss (desc_Key desc) of
              Inl err \<Rightarrow> (Some err, s)
            | Inr key \<Rightarrow> f (Key key) data s)
        | None \<Rightarrow> None))"

fun ss_descs :: "('l, 'v, 's) SimpleStore \<Rightarrow> string list \<Rightarrow> cfg_error + 'v descriptor list" where
  "ss_descs ss [] = Inr []"
| "ss_descs ss (name # names) =
    (case ss_keyOf ss name of Inl err \<Rightarrow> Inl err
     | Inr key \<Rightarrow> (case ss_descs ss names of Inl err \<Rightarrow> Inl err | Inr descs \<Rightarrow> Inr (Key key # descs)))"

definition ss_loaderOpts :: "('l, 'v, 's) SimpleStore \<Rightarrow> ('v, 's) ListOptions \<Rightarrow> cfg_error + ('v, 's) ListOptions" where
  "ss_loaderOpts ss opts =
    (let lopts = opts\<lparr>lo_Unmarshal := None,
           lo_Data := (case ss_list_callback ss opts of None \<Rightarrow> lo_Data opts | Some f \<Rightarrow> Some f)\<rparr>
     in if lo_StartFrom opts \<noteq> []
        then (case kc_Encode (ss_keyCodec ss) (lo_StartFrom opts) of
                Inl err \<Rightarrow> Inl err
              | Inr encoded \<Rightarrow> Inr (lopts\<lparr>lo_StartFrom := encoded\<rparr>))
        else Inr lopts)"

definition SimpleStore_List :: "('l, 'v, 's) SimpleStore \<Rightarrow> ('v, 's) ListModifier list \<Rightarrow> 'l \<Rightarrow> 's
    \<Rightarrow> ((cfg_error + 'v descriptor list) \<times> 's) option" where
  "SimpleStore_List ss mods l s =
    (case ListModifiers_Apply mods no_options of
       Inl err \<Rightarrow> Some (Inl err, s)
     | Inr opts \<Rightarrow>
       (case ss_loaderOpts ss opts of
          Inl err \<Rightarrow> Some (Inl err, s)
        | Inr lopts \<Rightarrow>
          (case ld_List (ss_loader ss) [WithListOptions lopts] l s of
             None \<Rightarrow> None
           | Some (Inl err, s) \<Rightarrow> Some (Inl err, s)
           | Some (Inr names, s) \<Rightarrow>
             if lo_Data lopts \<noteq> None \<and> length names = 0 then Some (Inr [], s)
             else case ss_descs ss names of
               Inl err \<Rightarrow> Some (Inl err, s)
             | Inr descs \<Rightarrow>
                 ListOptions_Finalize opts (\<lambda>desc v. snd (SimpleStore_Unmarshal ss (Some desc) v l)) descs
                   (OptimizedStartFrom OR OptimizedOffsetLimit OR OptimizedUnmarshal) s)))"

section \<open>A map from keys to bytes\<close>

text \<open>What a store holds under each key: the file its codec and format name.\<close>

definition simple_view :: "('l \<Rightarrow> string \<rightharpoonup> bytes) \<Rightarrow> ('l, 'v, 's) SimpleStore \<Rightarrow> 'l \<Rightarrow> string \<rightharpoonup> bytes" where
  "simple_view contents ss l key =
    (case kc_Encode (ss_keyCodec ss) key of Inl err \<Rightarrow> None | Inr encoded \<Rightarrow> contents l (encoded @ ss_ext ss))"

text \<open>Every file of the backend is one the store itself could have written.\<close>

definition own_names :: "('l \<Rightarrow> string \<rightharpoonup> bytes) \<Rightarrow> ('l, 'v, 's) SimpleStore \<Rightarrow> 'l \<Rightarrow> bool" where
  "own_names contents ss l \<longleftrightarrow>
    (\<forall>n \<in> dom (contents l). \<exists>key e. kc_Encode (ss_keyCodec ss) key = Inr e \<and> n = e @ ss_ext ss)"

lemma Finalize_optimized:
  "ListOptions_Finalize opts unm descs (OptimizedStartFrom OR OptimizedOffsetLimit OR OptimizedUnmarshal) s =
    Some (Inr descs, s)"
proof -
  have "(OptimizedStartFrom OR OptimizedOffsetLimit OR OptimizedUnmarshal :: u32) = 7" by (simp add: optimized_defs)
  moreover have "(7 :: u32) AND OptimizedStartFrom \<noteq> 0" "(7 :: u32) AND OptimizedOffsetLimit \<noteq> 0"
    "(7 :: u32) AND OptimizedUnmarshal \<noteq> 0" by (simp_all add: optimized_defs)
  ultimately show ?thesis
    by (cases "lo_Unmarshal opts") (simp_all only: ListOptions_Finalize_def ListOptions_Apply_def if_False Let_def option.map option.case)
qed

text \<open>What a decoding listing does with the entries of a store.\<close>

fun list_spec :: "'v FileMarshaller \<Rightarrow> ('v, 's) UnmarshalSpec \<Rightarrow> (string \<times> bytes) list \<Rightarrow> 's \<Rightarrow> cfg_error option \<times> 's" where
  "list_spec m u [] s = (None, s)"
| "list_spec m u ((k, d) # es) s =
    (case if d = [] then (None, us_zero u) else fm_Unmarshal m d (us_zero u) of
       (Some err, v) \<Rightarrow> (Some err, s)
     | (None, v) \<Rightarrow> (case us_fn u (Key k) v s of (Some err, s) \<Rightarrow> (Some err, s) | (None, s) \<Rightarrow> list_spec m u es s))"

lemma TrimSuffix_append: "TrimSuffix (n @ p) p = n"
  by (simp add: TrimSuffix_def HasSuffix_def)

locale simple_store = loader "ss_loader ss" inv contents + key_codec "ss_keyCodec ss"
  for ss :: "('l, 'v, 's) SimpleStore" and inv :: "'l \<Rightarrow> bool" and contents :: "'l \<Rightarrow> string \<rightharpoonup> bytes"
begin

abbreviation view :: "'l \<Rightarrow> string \<rightharpoonup> bytes" where "view \<equiv> simple_view contents ss"

lemma view_update:
  assumes "ss_pathForKey ss key = Inr name" "contents l' = (contents l)(name := x)"
  shows "view l' = (view l)(key := x)"
proof
  fix k
  obtain e where e: "kc_Encode (ss_keyCodec ss) key = Inr e" "name = e @ ss_ext ss"
    using assms(1) by (auto simp: ss_pathForKey_def split: sum.splits)
  show "view l' k = ((view l)(key := x)) k"
  proof (cases "kc_Encode (ss_keyCodec ss) k")
    case (Inr e')
    have "e' = e \<Longrightarrow> k = key" using encode_inj [of k e key] Inr e(1) by simp
    moreover have "k = key \<Longrightarrow> e' = e" using Inr e(1) by simp
    ultimately show ?thesis using assms(2) e(2) Inr by (cases "k = key") (auto simp: simple_view_def)
  next
    case (Inl err)
    then have "k \<noteq> key" using e(1) by auto
    then show ?thesis using Inl by (simp add: simple_view_def)
  qed
qed

lemma view_path: "ss_pathForKey ss key = Inr name \<Longrightarrow> view l key = contents l name"
  by (auto simp: ss_pathForKey_def simple_view_def split: sum.splits)

lemma own_update:
  assumes "ss_pathForKey ss key = Inr name" "contents l' = (contents l)(name := x)" "own_names contents ss l"
  shows "own_names contents ss l'"
proof -
  obtain e where "kc_Encode (ss_keyCodec ss) key = Inr e" "name = e @ ss_ext ss"
    using assms(1) by (auto simp: ss_pathForKey_def split: sum.splits)
  then show ?thesis using assms(2,3) unfolding own_names_def by (auto split: if_splits)
qed

lemma Marshal_view:
  assumes "inv l" "SimpleStore_Marshal ss (Some (Key key)) v l = (None, l')"
  shows "\<exists>data. fm_Marshal (ss_marshaller ss) v = Inr data \<and> view l' = (view l)(key \<mapsto> data) \<and> inv l' \<and>
    (own_names contents ss l \<longrightarrow> own_names contents ss l')"
proof -
  obtain name data where "ss_pathForKey ss key = Inr name" "fm_Marshal (ss_marshaller ss) v = Inr data"
    "ld_Write (ss_loader ss) l name data = (None, l')"
    using assms(2) by (auto simp: SimpleStore_Marshal_def ss_parseDesc_def split: sum.splits)
  then show ?thesis using Write_ok [OF assms(1)] view_update own_update by metis
qed

lemma Marshal_error:
  assumes "inv l" "SimpleStore_Marshal ss desc v l = (Some e, l')"
  shows "view l' = view l \<and> inv l'"
  using assms Write_err [OF assms(1)] 
  by (auto simp: SimpleStore_Marshal_def simple_view_def fun_eq_iff split: option.splits sum.splits)

lemma Unmarshal_view:
  assumes "inv l" "ss_pathForKey ss key = Inr name"
  shows "SimpleStore_Unmarshal ss (Some (Key key)) v l =
    (Some (Key key), case view l key of None \<Rightarrow> (Some ErrNotExist, v) | Some data \<Rightarrow>
       if data = [] then (None, v) else fm_Unmarshal (ss_marshaller ss) data v)"
  using assms view_path [OF assms(2), of l]
  by (simp add: SimpleStore_Unmarshal_def ss_parseDesc_def Read_contents split: option.splits)

lemma Delete_view:
  assumes "inv l" "SimpleStore_Delete ss (Some (Key key)) l = (None, l')"
  shows "view l key \<noteq> None \<and> view l' = (view l)(key := None) \<and> inv l' \<and>
    (own_names contents ss l \<longrightarrow> own_names contents ss l')"
proof -
  obtain name where n: "ss_pathForKey ss key = Inr name" "ld_Delete (ss_loader ss) l name = (None, l')"
    using assms(2) by (auto simp: SimpleStore_Delete_def ss_parseDesc_def split: sum.splits)
  have c: "inv l'" "name \<in> dom (contents l)" "contents l' = (contents l)(name := None)"
    using Delete_ok [OF assms(1) n(2)] by simp_all
  then show ?thesis
    using view_update [OF n(1) c(3)] own_update [OF n(1) c(3)] view_path [OF n(1), of l] by auto
qed

lemma Delete_missing:
  assumes "inv l" "ss_pathForKey ss key = Inr name" "view l key = None"
  shows "fst (SimpleStore_Delete ss (Some (Key key)) l) = Some ErrNotExist"
proof -
  have "name \<notin> dom (contents l)" using view_path [OF assms(2), of l] assms(3) by auto
  then obtain l' where "ld_Delete (ss_loader ss) l name = (Some ErrNotExist, l')" using Delete_absent [OF assms(1)] by blast
  then show ?thesis using assms(2) by (simp add: SimpleStore_Delete_def ss_parseDesc_def)
qed

lemma keyOf_path: "ss_pathForKey ss key = Inr name \<Longrightarrow> ss_keyOf ss name = Inr key"
  by (auto simp: ss_pathForKey_def ss_keyOf_def TrimSuffix_append decode_encode split: sum.splits)

definition key_at :: "string \<Rightarrow> string" where
  "key_at name = (case ss_keyOf ss name of Inr key \<Rightarrow> key | Inl err \<Rightarrow> [])"

lemma own_key: "own_names contents ss l \<Longrightarrow> n \<in> dom (contents l) \<Longrightarrow>
    ss_keyOf ss n = Inr (key_at n) \<and> ss_pathForKey ss (key_at n) = Inr n"
proof -
  assume "own_names contents ss l" "n \<in> dom (contents l)"
  then obtain key e where "kc_Encode (ss_keyCodec ss) key = Inr e" "n = e @ ss_ext ss" unfolding own_names_def by blast
  then have p: "ss_pathForKey ss key = Inr n" by (simp add: ss_pathForKey_def)
  then show ?thesis using keyOf_path [OF p] by (simp add: key_at_def)
qed

lemma descs_own: "own_names contents ss l \<Longrightarrow> set ns \<subseteq> dom (contents l) \<Longrightarrow>
    ss_descs ss ns = Inr (map (\<lambda>n. Key (key_at n)) ns)"
  by (induction ns) (auto simp: own_key)

lemma key_at_inj: "own_names contents ss l \<Longrightarrow> inj_on key_at (dom (contents l))"
  by (intro inj_onI) (metis own_key sum.inject(2))

lemma view_dom: "own_names contents ss l \<Longrightarrow> dom (view l) = key_at ` dom (contents l)"
proof (intro set_eqI iffI)
  fix k
  assume own: "own_names contents ss l"
  show "k \<in> key_at ` dom (contents l)" if "k \<in> dom (view l)"
  proof -
    obtain e where e: "kc_Encode (ss_keyCodec ss) k = Inr e" "e @ ss_ext ss \<in> dom (contents l)"
      using \<open>k \<in> dom (view l)\<close> unfolding domIff simple_view_def
      by (cases "kc_Encode (ss_keyCodec ss) k") simp_all
    then have "key_at (e @ ss_ext ss) = k" using keyOf_path [of k "e @ ss_ext ss"] by (simp add: ss_pathForKey_def key_at_def)
    then show ?thesis using e(2) by blast
  qed
  show "k \<in> dom (view l)" if "k \<in> key_at ` dom (contents l)"
  proof -
    obtain n where n: "n \<in> dom (contents l)" "k = key_at n" using \<open>k \<in> key_at ` dom (contents l)\<close> by blast
    then have "view l k = contents l n" using own_key [OF own n(1)] view_path [of k n l] by simp
    then show ?thesis using n(1) by (simp add: domIff)
  qed
qed

text \<open>A plain listing returns every key once, in the order of the encoded names.\<close>

lemma List_all:
  assumes "inv l" "own_names contents ss l" "int (card (dom (contents l))) < 2 ^ 63"
  shows "SimpleStore_List ss [] l s = Some (Inr (map Key (map key_at (names l))), s)"
    and "set (map key_at (names l)) = dom (view l)" "distinct (map key_at (names l))"
    and "sorted (map (\<lambda>k. projr (ss_pathForKey ss k)) (map key_at (names l)))"
proof -
  let ?keys = "map key_at (names l)"
  have lo: "ss_loaderOpts ss no_options = Inr no_options"
    by (simp add: ss_loaderOpts_def ss_list_callback_def no_options_def)
  have f: "filter (\<lambda>k. [] \<le> k) (names l) = names l" by simp
  have "length (names l) = card (dom (contents l))" using names_simps(1,3) [of l] assms(1) distinct_card by fastforce
  then have k: "ApplyKeys no_options (names l) 0 = Some (names l)"
    using ApplyOffsetLimitKeys_exact [of "names l" 0 0] assms(3) 
    by (simp add: ApplyKeys_def ApplyStartFromKeys_def no_options_def page_panics_def page_def)
  have ll: "ld_List (ss_loader ss) [WithListOptions no_options] l s = Some (Inr (names l), s)"
    using k by (simp add: List_contents [OF assms(1)] FinalizeKeys_def no_options_def flip: names_def)
  have d: "ss_descs ss (names l) = Inr (map Key ?keys)"
    using descs_own [OF assms(2), of "names l"] names_simps(1) [OF assms(1)] by simp
  show "SimpleStore_List ss [] l s = Some (Inr (map Key ?keys), s)"
    by (simp add: SimpleStore_List_def lo ll d Finalize_optimized)
  show "set ?keys = dom (view l)" using names_simps(1) [OF assms(1)] view_dom [OF assms(2)] by simp
  show "distinct ?keys" using names_simps [of l] assms(1) key_at_inj [OF assms(2)] by (simp add: distinct_map)
  have "map (\<lambda>k. projr (ss_pathForKey ss k)) ?keys = names l"
    unfolding map_map by (rule map_idI) (use own_key [OF assms(2)] names_simps(1) [OF assms(1)] in simp)
  then show "sorted (map (\<lambda>k. projr (ss_pathForKey ss k)) ?keys)" using names_simps(2) by simp
qed

text \<open>A listing that decodes calls back for every entry, in the same order, with a freshly cleared target.\<close>

lemma visit_list_spec:
  assumes "own_names contents ss l" "set ns \<subseteq> dom (contents l)" "ss_list_callback ss opts = Some cb" "lo_Unmarshal opts = Some u"
  shows "visit cb (map (\<lambda>n. (n, the (contents l n))) ns) s =
    list_spec (ss_marshaller ss) u (map (\<lambda>k. (k, the (view l k))) (map key_at ns)) s"
  using assms(2)
proof (induction ns arbitrary: s)
  case (Cons n ns)
  have k: "ss_keyOf ss n = Inr (key_at n)" "view l (key_at n) = contents l n"
    using own_key [OF assms(1), of n] view_path [of "key_at n" n l] Cons.prems by simp_all
  have cb: "cb (Key n) d t = UnmarshalAndCall u (Key (key_at n)) d (fm_Unmarshal (ss_marshaller ss)) t" for d t
    using assms(3,4) k(1) by (auto simp: ss_list_callback_def)
  have IH: "visit cb (map (\<lambda>n. (n, the (contents l n))) ns) t =
      list_spec (ss_marshaller ss) u (map (\<lambda>k. (k, the (view l k))) (map key_at ns)) t" for t
    using Cons by simp
  show ?case using IH by (auto simp: cb k UnmarshalAndCall_def split: sum.splits prod.splits option.splits)
qed simp

lemma List_each:
  assumes "inv l" "own_names contents ss l" "int (card (dom (contents l))) < 2 ^ 63"
  shows "SimpleStore_List ss [WithUnmarshal zero fn] l s =
    Some (case list_spec (ss_marshaller ss) \<lparr>us_zero = zero, us_fn = fn\<rparr> (map (\<lambda>k. (k, the (view l k))) (map key_at (names l))) s of
      (Some err, s') \<Rightarrow> (Inl err, s') | (None, s') \<Rightarrow> (Inr [], s'))"
proof -
  define u where "u = \<lparr>us_zero = zero, us_fn = fn\<rparr>"
  define opts where "opts = no_options\<lparr>lo_Unmarshal := Some u\<rparr>"
  obtain cb where cb: "ss_list_callback ss opts = Some cb"
    by (simp add: ss_list_callback_def opts_def)
  define lopts where "lopts = no_options\<lparr>lo_Data := Some cb\<rparr>"
  have lo: "ss_loaderOpts ss opts = Inr lopts"
    using cb by (simp add: ss_loaderOpts_def lopts_def) (simp add: opts_def no_options_def)
  have "length (names l) = card (dom (contents l))" using names_simps(1,3) [of l] assms(1) distinct_card by fastforce
  then have "ApplyKeys lopts (names l) 0 = Some (names l)"
    using ApplyOffsetLimitKeys_exact [of "names l" 0 0] assms(3)
    by (simp add: ApplyKeys_def ApplyStartFromKeys_def lopts_def no_options_def page_panics_def page_def)
  then have "ld_List (ss_loader ss) [WithListOptions lopts] l s =
      Some (case visit cb (map (\<lambda>n. (n, the (contents l n))) (names l)) s of (Some err, s) \<Rightarrow> (Inl err, s) | (None, s) \<Rightarrow> (Inr [], s))"
    using data_each_visit [OF assms(1), of "names l" cb s] names_simps(1) [OF assms(1)]
    by (simp add: List_contents [OF assms(1)] FinalizeKeys_def lopts_def flip: names_def)
  moreover have "visit cb (map (\<lambda>n. (n, the (contents l n))) (names l)) s =
      list_spec (ss_marshaller ss) u (map (\<lambda>k. (k, the (view l k))) (map key_at (names l))) s"
    using names_simps(1) [OF assms(1)] by (intro visit_list_spec [OF assms(2) _ cb]) (simp_all add: opts_def)
  moreover have "lo_Data lopts \<noteq> None" by (simp add: lopts_def)
  moreover have "ListModifiers_Apply [WithUnmarshal zero fn] no_options = Inr opts"
    by (simp add: WithUnmarshal_def opts_def u_def)
  ultimately show ?thesis unfolding u_def [symmetric]
    by (simp add: SimpleStore_List_def lo del: ListModifiers_Apply.simps split: prod.splits option.splits)
qed

end

section \<open>Over the in-memory loader\<close>

interpretation simple_memory: simple_store "OpenSimple memory_ops m None" memory_inv memory_contents for m
  by (simp add: simple_store_def OpenSimple_def memory.loader_axioms default_codec.key_codec_axioms)

lemma memory_path: "ss_pathForKey (OpenSimple ld m None) k = Inr (EncodeKey k @ CHR ''.'' # fm_Extension m)"
  by (simp add: ss_pathForKey_def OpenSimple_def ss_ext_def DefaultKeyCodec_def)

text \<open>C8: A store over the in-memory loader is a map from keys to bytes: marshalling a value sets its key to the
  encoded value and no other key, and fails without effect when the format fails; unmarshalling decodes what the key
  holds, leaves the target alone on an empty file, and for a missing key, for which it says \<open>ErrNotExist\<close>; deleting removes the
  key, or says \<open>ErrNotExist\<close>. The files stay ones the store can list.\<close>

theorem SimpleStore_refines_map:
  fixes ss :: "(memory_Loader, 'v, 's) SimpleStore"
  assumes "ss = OpenSimple memory_ops m None" "memory_inv l" "own_names memory_contents ss l"
  shows "(case fm_Marshal m v of
        Inl e \<Rightarrow> SimpleStore_Marshal ss (Some (Key k)) v l = (Some e, l)
      | Inr d \<Rightarrow> (\<exists>l'. SimpleStore_Marshal ss (Some (Key k)) v l = (None, l') \<and> memory_inv l' \<and> own_names memory_contents ss l' \<and>
          simple_view memory_contents ss l' = (simple_view memory_contents ss l)(k \<mapsto> d))) \<and>
    SimpleStore_Unmarshal ss (Some (Key k)) w l =
      (Some (Key k), case simple_view memory_contents ss l k of None \<Rightarrow> (Some ErrNotExist, w)
         | Some d \<Rightarrow> if d = [] then (None, w) else fm_Unmarshal m d w) \<and>
    (\<exists>l'. SimpleStore_Delete ss (Some (Key k)) l =
        (if simple_view memory_contents ss l k = None then Some ErrNotExist else None, l') \<and>
      memory_inv l' \<and> own_names memory_contents ss l' \<and>
      simple_view memory_contents ss l' = (simple_view memory_contents ss l)(k := None))"
proof (intro conjI)
  have p: "ss_pathForKey ss k = Inr (EncodeKey k @ CHR ''.'' # fm_Extension m)" by (simp add: assms(1) memory_path)
  have lm: "ss_loader ss = memory_ops" "ss_marshaller ss = m" by (simp_all add: assms(1) OpenSimple_def)
  have st: "simple_store ss memory_inv memory_contents" unfolding assms(1) by (rule simple_memory.simple_store_axioms)
  note laws = simple_store.Marshal_view [OF st assms(2)] simple_store.Unmarshal_view [OF st assms(2) p]
    simple_store.Delete_view [OF st assms(2)] simple_store.view_path [OF st p, of l]
  have w: "\<exists>l'. SimpleStore_Marshal ss (Some (Key k)) v l = (None, l')" if "fm_Marshal m v = Inr d" for d
    using that by (simp add: SimpleStore_Marshal_def ss_parseDesc_def p lm memory_ops_def memory_Write_def)
  show "case fm_Marshal m v of
        Inl e \<Rightarrow> SimpleStore_Marshal ss (Some (Key k)) v l = (Some e, l)
      | Inr d \<Rightarrow> (\<exists>l'. SimpleStore_Marshal ss (Some (Key k)) v l = (None, l') \<and> memory_inv l' \<and> own_names memory_contents ss l' \<and>
          simple_view memory_contents ss l' = (simple_view memory_contents ss l)(k \<mapsto> d))"
  proof (cases "fm_Marshal m v")
    case (Inr d)
    then obtain l' where l': "SimpleStore_Marshal ss (Some (Key k)) v l = (None, l')" using w by blast
    then show ?thesis using laws(1) [OF l'] Inr assms(3) lm(2) by auto
  qed (simp add: SimpleStore_Marshal_def ss_parseDesc_def p lm)
  show "SimpleStore_Unmarshal ss (Some (Key k)) w l =
      (Some (Key k), case simple_view memory_contents ss l k of None \<Rightarrow> (Some ErrNotExist, w)
         | Some d \<Rightarrow> if d = [] then (None, w) else fm_Unmarshal m d w)"
    using laws(2) unfolding lm .
  have d: "SimpleStore_Delete ss (Some (Key k)) l = memory_Delete l (EncodeKey k @ CHR ''.'' # fm_Extension m)"
    by (simp add: SimpleStore_Delete_def ss_parseDesc_def p lm memory_ops_def)
  show "\<exists>l'. SimpleStore_Delete ss (Some (Key k)) l =
        (if simple_view memory_contents ss l k = None then Some ErrNotExist else None, l') \<and>
      memory_inv l' \<and> own_names memory_contents ss l' \<and>
      simple_view memory_contents ss l' = (simple_view memory_contents ss l)(k := None)"
  proof (cases "simple_view memory_contents ss l k")
    case None
    then have "SimpleStore_Delete ss (Some (Key k)) l = (Some ErrNotExist, l)"
      using laws(4) by (simp add: d memory_Delete_def memory_contents_def)
    then show ?thesis using None assms(2,3) by (auto simp: fun_upd_idem)
  next
    case (Some x)
    then obtain l' where l': "SimpleStore_Delete ss (Some (Key k)) l = (None, l')"
      using laws(4) by (simp add: d memory_Delete_def memory_contents_def)
    then show ?thesis using laws(3) [OF l'] Some assms(3) by auto
  qed
qed

text \<open>A format for the examples: a value is its own encoding, and the empty value is none.\<close>

definition raw_format :: "bytes FileMarshaller" where
  "raw_format = \<lparr>fm_Marshal = (\<lambda>v. if v = [] then Inl (Failed ''empty'') else Inr v), fm_Unmarshal = (\<lambda>d v. (None, d)),
     fm_Extension = ''raw''\<rparr>"

definition demo_store :: "(memory_Loader, bytes, bytes) SimpleStore" where
  "demo_store = OpenSimple memory_ops raw_format None"

definition demo_loader :: memory_Loader where
  "demo_loader = \<lparr>ml_data = [(''b.raw'', [2]), (''a%2Fx.raw'', [1])]\<rparr>"

lemma demo_loader_ok: "memory_inv demo_loader" "own_names memory_contents demo_store demo_loader"
  "dom (memory_contents demo_loader) = {''a%2Fx.raw'', ''b.raw''}"
proof -
  have e: "EncodeKey ''a/x'' = ''a%2Fx''" "EncodeKey ''b'' = ''b''" by code_simp+
  have x: "ss_ext demo_store = ''.raw''" "ss_keyCodec demo_store = DefaultKeyCodec"
    by (simp_all add: ss_ext_def demo_store_def OpenSimple_def raw_format_def)
  show "memory_inv demo_loader" by (simp add: memory_inv_def demo_loader_def)
  show d: "dom (memory_contents demo_loader) = {''a%2Fx.raw'', ''b.raw''}"
    by (auto simp: memory_contents_def demo_loader_def)
  have "\<exists>key e. kc_Encode (ss_keyCodec demo_store) key = Inr e \<and> ''a%2Fx.raw'' = e @ ss_ext demo_store"
    unfolding x by (intro exI [of _ "''a/x''"] exI [of _ "''a%2Fx''"]) (simp add: DefaultKeyCodec_def e del: EncodeKey.simps)
  moreover have "\<exists>key e. kc_Encode (ss_keyCodec demo_store) key = Inr e \<and> ''b.raw'' = e @ ss_ext demo_store"
    unfolding x by (intro exI [of _ "''b''"] exI [of _ "''b''"]) (simp add: DefaultKeyCodec_def e del: EncodeKey.simps)
  ultimately show "own_names memory_contents demo_store demo_loader" unfolding own_names_def d by simp
qed

theorem SimpleStore_refines_map_witness:
  "\<exists>l'. SimpleStore_Marshal demo_store (Some (Key ''a'')) [7] demo_loader = (None, l') \<and> simple_view memory_contents demo_store l' ''a'' = Some [7]"
  using SimpleStore_refines_map [OF demo_store_def demo_loader_ok(1,2), where v = "[7]" and k = "''a''", THEN conjunct1]
  by (auto simp: raw_format_def)

text \<open>Listing a store over the in-memory loader returns every key it holds exactly once, in the order of the file
  names; with a target it calls back for exactly these keys, in this order, each with the value decoded into a
  cleared target, and stops at the first error.\<close>

theorem SimpleStore_List_exact:
  fixes ss :: "(memory_Loader, 'v, 's) SimpleStore"
  assumes "ss = OpenSimple memory_ops m None" "memory_inv l" "own_names memory_contents ss l"
    and "int (card (dom (memory_contents l))) < 2 ^ 63"
  shows "\<exists>keys. set keys = dom (simple_view memory_contents ss l) \<and> distinct keys \<and>
    sorted (map (\<lambda>k. EncodeKey k @ ''.'' @ fm_Extension m) keys) \<and>
    SimpleStore_List ss [] l s = Some (Inr (map Key keys), s) \<and>
    SimpleStore_List ss [WithUnmarshal zero fn] l s =
      Some (case list_spec m \<lparr>us_zero = zero, us_fn = fn\<rparr> (map (\<lambda>k. (k, the (simple_view memory_contents ss l k))) keys) s of
        (Some err, s') \<Rightarrow> (Inl err, s') | (None, s') \<Rightarrow> (Inr [], s'))"
proof -
  have st: "simple_store ss memory_inv memory_contents" unfolding assms(1) by (rule simple_memory.simple_store_axioms)
  define keys where "keys = map (simple_store.key_at ss) (loader.names memory_contents l)"
  have lm: "ss_marshaller ss = m" by (simp add: assms(1) OpenSimple_def)
  have e: "projr (ss_pathForKey ss k) = EncodeKey k @ ''.'' @ fm_Extension m" for k
    by (simp add: assms(1) memory_path)
  note all = simple_store.List_all [OF st assms(2-4), folded keys_def]
    simple_store.List_each [OF st assms(2-4), of zero fn s, folded keys_def, unfolded lm]
  show ?thesis using all by (intro exI [of _ keys]) (simp add: e)
qed

theorem SimpleStore_List_exact_witness:
  "\<exists>keys. set keys = {''a/x'', ''b''} \<and> SimpleStore_List demo_store [] demo_loader [] = Some (Inr (map Key keys), [])"
proof -
  have x: "kc_Encode (ss_keyCodec demo_store) k = Inr (EncodeKey k)" "ss_ext demo_store = ''.raw''" for k
    by (simp_all add: demo_store_def OpenSimple_def DefaultKeyCodec_def ss_ext_def raw_format_def)
  have e: "EncodeKey ''a/x'' = ''a%2Fx''" "EncodeKey ''b'' = ''b''" by code_simp+
  have "k \<in> dom (simple_view memory_contents demo_store demo_loader) \<longleftrightarrow> EncodeKey k = EncodeKey ''a/x'' \<or> EncodeKey k = EncodeKey ''b''" for k
    unfolding e by (auto simp: domIff simple_view_def x memory_contents_def demo_loader_def)
  then have d: "dom (simple_view memory_contents demo_store demo_loader) = {''a/x'', ''b''}"
    unfolding EncodeKey_inj by blast
  have c: "int (card (dom (memory_contents demo_loader))) < 2 ^ 63" by (simp add: demo_loader_ok(3))
  show ?thesis
    using SimpleStore_List_exact [OF demo_store_def demo_loader_ok(1,2) c, of "[]"] unfolding d by blast
qed

text \<open>A listing that starts from a key compares encoded names: it also returns keys before it.\<close>

lemma StartFrom_lists_smaller_key:
  "SimpleStore_List demo_store [WithStartFrom (Some (Key ''b!''))] demo_loader [] = Some (Inr [Key ''b''], []) \<and> ''b'' < ''b!''"
proof -
  have n: "ListModifiers_Apply [WithStartFrom (Some (Key ''b!''))] no_options = Inr (no_options\<lparr>lo_StartFrom := ''b!''\<rparr> :: (bytes, bytes) ListOptions)"
    by (simp add: WithStartFrom_def)
  have e: "EncodeKey ''b!'' = ''b!''" "DecodeKey ''b'' = ''b''" "TrimSuffix ''b.raw'' ''.raw'' = ''b''" by code_simp+
  have lo: "ss_loaderOpts demo_store (no_options\<lparr>lo_StartFrom := ''b!''\<rparr>) = Inr (no_options\<lparr>lo_StartFrom := ''b!''\<rparr>)"
    by (simp add: ss_loaderOpts_def ss_list_callback_def no_options_def demo_store_def OpenSimple_def DefaultKeyCodec_def e del: EncodeKey.simps)
  have s: "sort (map fst (ml_data demo_loader)) = [''a%2Fx.raw'', ''b.raw'']" by (simp add: demo_loader_def)
  have a: "ApplyStartFromKeys [''a%2Fx.raw'', ''b.raw''] ''b!'' = [''b.raw'']"
    by (subst ApplyStartFromKeys_sorted) simp_all
  have p: "ApplyKeys (no_options\<lparr>lo_StartFrom := ''b!''\<rparr> :: (bytes, bytes) ListOptions) [''a%2Fx.raw'', ''b.raw''] 0 = Some [''b.raw'']"
    by (simp add: ApplyKeys_def no_options_def a ApplyOffsetLimitKeys_exact page_panics_def page_def)
  have l: "ld_List (ss_loader demo_store) [WithListOptions (no_options\<lparr>lo_StartFrom := ''b!''\<rparr>)] demo_loader [] = Some (Inr [''b.raw''], [])"
    by (simp add: demo_store_def OpenSimple_def memory_ops_def memory_List_def FinalizeKeys_def s p del: ListModifiers_Apply.simps)
      (simp add: no_options_def)
  have d: "ss_keyOf demo_store ''b.raw'' = Inr ''b''"
    by (simp add: ss_keyOf_def demo_store_def OpenSimple_def ss_ext_def raw_format_def DefaultKeyCodec_def e del: DecodeKey.simps)
  show ?thesis by (simp add: SimpleStore_List_def n lo l d Finalize_optimized del: ListModifiers_Apply.simps)
qed

end
