(* ===== verification/Token_Codec.thy ===== *)
theory Token_Codec imports Prelude begin

text \<open>
  What the token library uses of Go's \<^verbatim>\<open>encoding/binary\<close> (variable length integers, at most ten bytes) and
  \<^verbatim>\<open>encoding/base64\<close> (the unpadded URL alphabet), and the library's own \<^verbatim>\<open>Base64Encoder\<close> on top of it.
\<close>

section \<open>Variable length integers\<close>

text \<open>Unsigned values are below \<open>2 ^ 64\<close>; what is written for larger ones is of no interest.\<close>

fun PutUvarint :: "nat \<Rightarrow> bytes" where
  "PutUvarint x = (if x < 128 then [of_nat x] else of_nat (x mod 128 + 128) # PutUvarint (x div 128))"

declare PutUvarint.simps [simp del]

text \<open>The loop of \<^verbatim>\<open>Uvarint\<close> at byte \<open>i\<close>; \<^const>\<open>None\<close> when the number of bytes read is not positive.\<close>

fun Uvarint_loop :: "nat \<Rightarrow> nat \<Rightarrow> bytes \<Rightarrow> (nat \<times> nat) option" where
  "Uvarint_loop i x [] = None"
| "Uvarint_loop i x (b # bs) =
    (if i = 10 then None
     else if unat b < 128
     then if i = 9 \<and> 1 < unat b then None else Some (x + unat b * 2 ^ (7 * i), i + 1)
     else Uvarint_loop (i + 1) (x + (unat b - 128) * 2 ^ (7 * i)) bs)"

definition Uvarint :: "bytes \<Rightarrow> (nat \<times> nat) option" where
  "Uvarint buf = Uvarint_loop 0 0 buf"

definition zigzag :: "int \<Rightarrow> nat" where
  "zigzag x = (if x < 0 then nat (- 2 * x - 1) else nat (2 * x))"

definition unzigzag :: "nat \<Rightarrow> int" where
  "unzigzag u = (if odd u then - int (u div 2) - 1 else int (u div 2))"

definition PutVarint :: "int \<Rightarrow> bytes" where
  "PutVarint x = PutUvarint (zigzag x)"

definition Varint :: "bytes \<Rightarrow> (int \<times> nat) option" where
  "Varint buf = map_option (\<lambda>(u, n). (unzigzag u, n)) (Uvarint buf)"

lemma unat_byte: "x < 256 \<Longrightarrow> unat (of_nat x :: byte) = x"
  by (simp add: unat_of_nat)

lemma unat_byte_lt: "unat (b :: byte) < 256"
  using unsigned_less [of b] by simp

lemma PutUvarint_small: "x < 128 \<Longrightarrow> PutUvarint x = [of_nat x]"
  by (subst PutUvarint.simps) simp

lemma PutUvarint_more: "\<not> x < 128 \<Longrightarrow> PutUvarint x = of_nat (x mod 128 + 128) # PutUvarint (x div 128)"
  by (subst PutUvarint.simps) simp

lemma Uvarint_loop_more:
  assumes "i < 9" "x < 128"
  shows "Uvarint_loop i v (of_nat (x + 128) # bs) = Uvarint_loop (i + 1) (v + x * 2 ^ (7 * i)) bs"
proof -
  have "unat (of_nat (x + 128) :: byte) = x + 128" using assms(2) by (intro unat_byte) simp
  then show ?thesis using assms(1) by (simp del: of_nat_add)
qed

lemma Uvarint_loop_Put:
  "i < 10 \<Longrightarrow> 7 * i + k = 64 \<Longrightarrow> n < 2 ^ k \<Longrightarrow>
    Uvarint_loop i x (PutUvarint n @ rest) = Some (x + n * 2 ^ (7 * i), i + length (PutUvarint n))"
proof (induction n arbitrary: i k x rule: PutUvarint.induct)
  case (1 n)
  have nine: "n < 2" if "i = 9"
  proof -
    have "k = 1" using that 1(3) by simp
    then show ?thesis using 1(4) by simp
  qed
  show ?case
  proof (cases "n < 128")
    case True
    then have "unat (of_nat n :: byte) = n" by (intro unat_byte) simp
    then show ?thesis using True 1(2) nine by (auto simp: PutUvarint_small)
  next
    case False
    have i: "i < 9" using nine False 1(2) by (cases "i = 9") auto
    then obtain k' where k: "k = 7 + k'" using 1(3) by (intro that [of "k - 7"]) simp
    have "n < 128 * 2 ^ k'" using 1(4) by (simp add: k power_add)
    then have d: "n div 128 < 2 ^ k'" by (simp add: less_mult_imp_div_less mult.commute)
    have p: "(2::nat) ^ (7 * (i + 1)) = 128 * 2 ^ (7 * i)" by (simp add: power_add)
    have "Uvarint_loop i x (PutUvarint n @ rest) =
        Uvarint_loop (i + 1) (x + (n mod 128) * 2 ^ (7 * i)) (PutUvarint (n div 128) @ rest)"
      unfolding PutUvarint_more [OF False] append_Cons by (rule Uvarint_loop_more [OF i]) simp
    also have "\<dots> = Some (x + (n mod 128) * 2 ^ (7 * i) + n div 128 * 2 ^ (7 * (i + 1)), i + 1 + length (PutUvarint (n div 128)))"
      by (rule 1(1) [OF False, of "i + 1" k']) (use i d 1(3) k in simp_all)
    also have "x + (n mod 128) * 2 ^ (7 * i) + n div 128 * 2 ^ (7 * (i + 1)) = x + (n mod 128 + 128 * (n div 128)) * 2 ^ (7 * i)"
      unfolding p by (simp only: add_mult_distrib mult.assoc mult.left_commute [of 128] add.assoc)
    also have "n mod 128 + 128 * (n div 128) = n" by simp
    finally show ?thesis by (simp add: PutUvarint_more [OF False])
  qed
qed

lemma Uvarint_Put: "n < 2 ^ 64 \<Longrightarrow> Uvarint (PutUvarint n @ rest) = Some (n, length (PutUvarint n))"
  using Uvarint_loop_Put [of 0 64 n 0 rest] by (simp add: Uvarint_def)

lemma unzigzag_zigzag: "unzigzag (zigzag x) = x"
proof (cases "x < 0")
  case True
  define k where "k = nat (- x - 1)"
  have k: "x = - int k - 1" using True by (simp add: k_def)
  have "- 2 * x - 1 = int (2 * k + 1)" using k by simp
  then have "zigzag x = 2 * k + 1" using True unfolding zigzag_def by (metis nat_int)
  then show ?thesis using k by (simp add: unzigzag_def)
next
  case False
  then have "zigzag x = 2 * nat x" by (simp add: zigzag_def nat_mult_distrib)
  then show ?thesis using False by (simp add: unzigzag_def)
qed

lemma Varint_Put: "- (2 ^ 63) \<le> x \<Longrightarrow> x < 2 ^ 63 \<Longrightarrow> Varint (PutVarint x @ rest) = Some (x, length (PutVarint x))"
proof -
  assume "- (2 ^ 63) \<le> x" "x < 2 ^ 63"
  then have "zigzag x < 2 ^ 64" by (simp add: zigzag_def nat_less_iff)
  then show ?thesis using Uvarint_Put by (simp add: Varint_def PutVarint_def unzigzag_zigzag)
qed

lemma PutUvarint_not_Nil [simp]: "PutUvarint n \<noteq> []"
  by (subst PutUvarint.simps) simp

lemma Uvarint_loop_length: "Uvarint_loop i x bs = Some (v, n) \<Longrightarrow> i < n \<and> n \<le> i + length bs"
  by (induction i x bs rule: Uvarint_loop.induct) (auto split: if_splits)

lemma Uvarint_length: "Uvarint bs = Some (v, n) \<Longrightarrow> 0 < n \<and> n \<le> length bs"
  using Uvarint_loop_length [of 0 0 bs v n] by (simp add: Uvarint_def)

lemma PutUvarint_length: "n < 2 ^ (7 * k) \<Longrightarrow> 0 < k \<Longrightarrow> length (PutUvarint n) \<le> k"
proof (induction k arbitrary: n)
  case (Suc k)
  show ?case
  proof (cases "n < 128")
    case True
    then show ?thesis by (subst PutUvarint.simps) simp
  next
    case False
    then have k: "0 < k" using Suc.prems by (cases k) auto
    have "n < 2 ^ (7 * k) * 128" using Suc.prems by (simp add: power_add)
    then have "n div 128 < 2 ^ (7 * k)" by (rule less_mult_imp_div_less)
    then show ?thesis using False Suc.IH k by (subst PutUvarint.simps) simp
  qed
qed simp

section \<open>Base64\<close>

definition enc64 :: "nat \<Rightarrow> byte" where
  "enc64 v = (if v < 26 then of_nat (65 + v) else if v < 52 then of_nat (97 + (v - 26))
     else if v < 62 then of_nat (48 + (v - 52)) else if v = 62 then 45 else 95)"

definition dec64 :: "byte \<Rightarrow> nat option" where
  "dec64 c = (let b = unat c in
    if 65 \<le> b \<and> b \<le> 90 then Some (b - 65) else if 97 \<le> b \<and> b \<le> 122 then Some (b - 97 + 26)
    else if 48 \<le> b \<and> b \<le> 57 then Some (b - 48 + 52) else if b = 45 then Some 62 else if b = 95 then Some 63 else None)"

fun base64_encode :: "bytes \<Rightarrow> bytes" where
  "base64_encode (a # b # c # bs) =
    (let v = unat a * 65536 + unat b * 256 + unat c
     in enc64 (v div 262144) # enc64 (v div 4096 mod 64) # enc64 (v div 64 mod 64) # enc64 (v mod 64) # base64_encode bs)"
| "base64_encode [a, b] = (let v = unat a * 65536 + unat b * 256 in [enc64 (v div 262144), enc64 (v div 4096 mod 64), enc64 (v div 64 mod 64)])"
| "base64_encode [a] = (let v = unat a * 65536 in [enc64 (v div 262144), enc64 (v div 4096 mod 64)])"
| "base64_encode [] = []"

text \<open>Groups of characters without newlines; the bits left over in the last group are ignored.\<close>

fun base64_groups :: "bytes \<Rightarrow> bytes option" where
  "base64_groups (p # q # r # s # cs) =
    do { p \<leftarrow> dec64 p; q \<leftarrow> dec64 q; r \<leftarrow> dec64 r; s \<leftarrow> dec64 s;
         let v = p * 262144 + q * 4096 + r * 64 + s;
         rest \<leftarrow> base64_groups cs;
         Some (of_nat (v div 65536) # of_nat (v div 256 mod 256) # of_nat (v mod 256) # rest) }"
| "base64_groups [p, q, r] =
    do { p \<leftarrow> dec64 p; q \<leftarrow> dec64 q; r \<leftarrow> dec64 r;
         let v = p * 262144 + q * 4096 + r * 64; Some [of_nat (v div 65536), of_nat (v div 256 mod 256)] }"
| "base64_groups [p, q] =
    do { p \<leftarrow> dec64 p; q \<leftarrow> dec64 q; let v = p * 262144 + q * 4096; Some [of_nat (v div 65536)] }"
| "base64_groups [p] = None"
| "base64_groups [] = Some []"

definition base64_decode :: "bytes \<Rightarrow> bytes option" where
  "base64_decode cs = base64_groups (filter (\<lambda>c. c \<noteq> 10 \<and> c \<noteq> 13) cs)"

definition DecodedLen :: "nat \<Rightarrow> nat" where
  "DecodedLen n = n div 4 * 3 + n mod 4 * 6 div 8"

lemma dec64_enc64: "v < 64 \<Longrightarrow> dec64 (enc64 v) = Some v"
proof -
  have "list_all (\<lambda>v. dec64 (enc64 v) = Some v) [0..<64]" by code_simp
  then show "v < 64 \<Longrightarrow> dec64 (enc64 v) = Some v" by (simp add: list_all_iff)
qed

lemma enc64_plain: "v < 64 \<Longrightarrow> enc64 v \<noteq> 10 \<and> enc64 v \<noteq> 13"
proof -
  assume "v < 64"
  then have "dec64 (enc64 v) \<noteq> None" by (simp add: dec64_enc64)
  moreover have "dec64 10 = None" "dec64 13 = None" by (simp_all add: dec64_def)
  ultimately show ?thesis by metis
qed

lemma base64_encode_plain: "c \<in> set (base64_encode bs) \<Longrightarrow> c \<noteq> 10 \<and> c \<noteq> 13"
proof (induction bs rule: base64_encode.induct)
  case (1 a b c' bs)
  have "(unat a * 65536 + unat b * 256 + unat c') div 262144 < 64"
    using unat_byte_lt [of a] unat_byte_lt [of b] unat_byte_lt [of c'] by simp
  then show ?case using 1 enc64_plain by (auto simp: Let_def)
next
  case (2 a b)
  have "(unat a * 65536 + unat b * 256) div 262144 < 64" using unat_byte_lt [of a] unat_byte_lt [of b] by simp
  then show ?case using 2 enc64_plain by (auto simp: Let_def)
next
  case (3 a)
  have "(unat a * 65536) div 262144 < 64" using unat_byte_lt [of a] by simp
  then show ?case using 3 enc64_plain by (auto simp: Let_def)
qed simp

lemma sextets: "v div 262144 * 262144 + v div 4096 mod 64 * 4096 + v div 64 mod 64 * 64 + v mod 64 = (v::nat)"
proof -
  define a where "a = v div 64"
  define b where "b = a div 64"
  have e: "v div 4096 = b" "v div 262144 = b div 64" by (simp_all add: a_def b_def flip: div_mult2_eq)
  have "v = 64 * a + v mod 64" "a = 64 * b + a mod 64" "b = 64 * (b div 64) + b mod 64"
    by (simp_all add: a_def b_def)
  then show ?thesis unfolding e a_def [symmetric] by linarith
qed

lemma octets:
  assumes "a < 256" "b < 256" "c < (256::nat)"
  shows "(a * 65536 + b * 256 + c) div 65536 = a" "(a * 65536 + b * 256 + c) div 256 mod 256 = b"
    "(a * 65536 + b * 256 + c) mod 256 = c" "(a * 65536 + b * 256 + c) div 262144 < 64"
proof -
  show "(a * 65536 + b * 256 + c) div 65536 = a" using assms by (intro div_nat_eqI) simp_all
  have "(a * 65536 + b * 256 + c) div 256 = a * 256 + b" using assms by (intro div_nat_eqI) simp_all
  then show "(a * 65536 + b * 256 + c) div 256 mod 256 = b" using assms by simp
  have "a * 65536 + b * 256 + c = (a * 256 + b) * 256 + c" by simp
  then show "(a * 65536 + b * 256 + c) mod 256 = c" using assms(3) by (metis mod_less mod_mult_self3)
  show "(a * 65536 + b * 256 + c) div 262144 < 64" using assms by (intro less_mult_imp_div_less) simp
qed

lemma base64_groups_encode: "base64_groups (base64_encode bs) = Some bs"
proof (induction bs rule: base64_encode.induct)
  case (1 a b c bs)
  define v where "v = unat a * 65536 + unat b * 256 + unat c"
  note o = octets [OF unat_byte_lt unat_byte_lt unat_byte_lt, of a b c, folded v_def]
  show ?case using 1 o sextets [of v] by (simp add: dec64_enc64 Let_def flip: v_def)
next
  case (2 a b)
  define v where "v = unat a * 65536 + unat b * 256 + 0"
  note o = octets [OF unat_byte_lt unat_byte_lt, of 0 a b, folded v_def]
  have e: "v = 64 * (1024 * unat a + 4 * unat b)" by (simp add: v_def)
  have z: "v mod 64 = 0" "v = unat a * 65536 + unat b * 256" unfolding e by simp_all
  have s: "v div 262144 * 262144 + v div 4096 mod 64 * 4096 + v div 64 mod 64 * 64 = v" using sextets [of v] z(1) by linarith
  have c: "base64_encode [a, b] = [enc64 (v div 262144), enc64 (v div 4096 mod 64), enc64 (v div 64 mod 64)]"
    by (simp only: base64_encode.simps Let_def z(2))
  show ?case unfolding c by (simp add: dec64_enc64 Let_def s o)
next
  case (3 a)
  define v where "v = unat a * 65536 + 0 * 256 + 0"
  note o = octets [OF unat_byte_lt, of 0 0 a, folded v_def]
  have e: "v = 64 * (64 * (16 * unat a))" by (simp add: v_def)
  have z: "v mod 64 = 0" "v div 64 mod 64 = 0" "v = unat a * 65536" unfolding e by simp_all
  have s: "v div 262144 * 262144 + v div 4096 mod 64 * 4096 = v" using sextets [of v] z(1,2) by linarith
  have c: "base64_encode [a] = [enc64 (v div 262144), enc64 (v div 4096 mod 64)]"
    by (simp only: base64_encode.simps Let_def z(3))
  show ?case unfolding c by (simp add: dec64_enc64 Let_def s o)
qed simp

lemma base64_decode_encode: "base64_decode (base64_encode bs) = Some bs"
proof -
  have "filter (\<lambda>c. c \<noteq> 10 \<and> c \<noteq> 13) (base64_encode bs) = base64_encode bs"
    using base64_encode_plain by (simp add: filter_id_conv)
  then show ?thesis by (simp add: base64_decode_def base64_groups_encode)
qed

lemma DecodedLen_encode: "DecodedLen (length (base64_encode bs)) = length bs"
proof -
  have e: "DecodedLen (n + 4) = 3 + DecodedLen n" for n
  proof -
    have "(n + 4) div 4 = n div 4 + 1" "(n + 4) mod 4 = n mod 4" by (rule div_add_self2) simp_all
    then show ?thesis unfolding DecodedLen_def by simp
  qed
  have "DecodedLen (Suc (Suc (Suc (Suc n)))) = 3 + DecodedLen n" for n
  proof -
    have "Suc (Suc (Suc (Suc n))) = n + 4" by simp
    then show ?thesis using e [of n] by (simp only:)
  qed
  then show ?thesis by (induction bs rule: base64_encode.induct) (simp_all add: Let_def DecodedLen_def)
qed

lemma base64_length: "4 * length bs \<le> 3 * length (base64_encode bs)"
  by (induction bs rule: base64_encode.induct) (simp_all add: Let_def)

section \<open>Strings as bytes\<close>

definition bytes_of_string :: "string \<Rightarrow> bytes" where
  "bytes_of_string s = map (\<lambda>c. of_nat (of_char c)) s"

definition string_of_bytes :: "bytes \<Rightarrow> string" where
  "string_of_bytes bs = map (\<lambda>b. char_of (unat b)) bs"

lemma bytes_string [simp]: "bytes_of_string (string_of_bytes bs) = bs"
proof -
  have "of_nat (of_char (char_of (unat b) :: char)) = b" for b :: byte
    using unat_byte_lt [of b] by simp
  then show ?thesis by (simp add: bytes_of_string_def string_of_bytes_def map_idI)
qed

lemma string_bytes [simp]: "string_of_bytes (bytes_of_string s) = s"
proof -
  have "char_of (unat (of_nat (of_char c) :: byte)) = c" for c
  proof -
    have "(of_char c :: nat) < 256" by (metis mod_less_divisor nat_of_char_less_256 zero_less_numeral)
    then show ?thesis by (simp add: unat_byte)
  qed
  then show ?thesis by (simp add: bytes_of_string_def string_of_bytes_def map_idI)
qed

lemma string_of_bytes_length [simp]: "length (string_of_bytes bs) = length bs"
  by (simp add: string_of_bytes_def)

end
