(* ===== verification/Token.thy ===== *)
theory Token imports Token_Codec begin

text \<open>
  The encoders of \<^verbatim>\<open>lib/token\<close> (\<^verbatim>\<open>token.go\<close>, \<^verbatim>\<open>time.go\<close>, \<^verbatim>\<open>symmetric.go\<close>, \<^verbatim>\<open>asymmetric.go\<close>). An encoder is an
  interface value: its two methods and, when it has them, the two that take associated data; the chain is a
  constructor of its own because \<^verbatim>\<open>SupportsAssociatedData\<close> looks inside it. A decoder returns the context, the data
  (\<^const>\<open>None\<close> is a nil slice, which a chain treats differently from an empty one) and an error.

  Clocks and random generators are arguments: what the call in question reads from them. Ciphers and signatures are
  arguments too; the authenticated ciphers are the type \<open>aead\<close> of those that open what they seal.
\<close>

section \<open>The interface\<close>

datatype token_error = ErrAssociatedDataUnsupported | ExpiredError | TokenError string | Joined "token_error list"

type_synonym context_values = "string \<rightharpoonup> time"
type_synonym decoded = "context_values \<times> bytes option \<times> token_error option"

record plain_encoder =
  pe_Encode :: "bytes \<Rightarrow> token_error + bytes"
  pe_Decode :: "context_values \<Rightarrow> bytes \<Rightarrow> decoded"
  pe_aad :: "((bytes \<Rightarrow> bytes \<Rightarrow> token_error + bytes) \<times> (context_values \<Rightarrow> bytes \<Rightarrow> bytes \<Rightarrow> decoded)) option"

datatype BinaryEncoder = Plain plain_encoder | ChainedEncoder "BinaryEncoder list"

definition or_empty :: "bytes option \<Rightarrow> bytes" where
  "or_empty data = (case data of None \<Rightarrow> [] | Some d \<Rightarrow> d)"

lemma or_empty_simps [simp]: "or_empty (Some d) = d" "or_empty None = []"
  by (simp_all add: or_empty_def)

fun SupportsAssociatedData :: "BinaryEncoder \<Rightarrow> bool" where
  "SupportsAssociatedData (Plain p) = (pe_aad p \<noteq> None)"
| "SupportsAssociatedData (ChainedEncoder encs) = list_ex SupportsAssociatedData encs"

section \<open>Chains\<close>

fun be_Encode :: "BinaryEncoder \<Rightarrow> bytes \<Rightarrow> token_error + bytes"
  and ChainedEncoder_Encode :: "BinaryEncoder list \<Rightarrow> bytes \<Rightarrow> token_error + bytes" where
  "be_Encode (Plain p) data = pe_Encode p data"
| "be_Encode (ChainedEncoder encs) data = ChainedEncoder_Encode encs data"
| "ChainedEncoder_Encode [] data = Inr data"
| "ChainedEncoder_Encode (enc # encs) data =
    (case be_Encode enc data of Inl err \<Rightarrow> Inl err | Inr data \<Rightarrow> ChainedEncoder_Encode encs data)"

text \<open>
  The loops of the decoders go from the last encoder to the first; the state of a loop is the context, the data, the
  first error, and whether it has been left by \<^verbatim>\<open>break\<close>.
\<close>

type_synonym chain_state = "context_values \<times> bytes option \<times> token_error option \<times> bool"

definition chain_turn :: "(context_values \<Rightarrow> bytes \<Rightarrow> decoded) \<Rightarrow> chain_state \<Rightarrow> chain_state" where
  "chain_turn decode st =
    (let (ctx, data, first, left) = st in
     if left then st
     else let (ctx, data, err) = decode ctx (or_empty data) in
       (ctx, data, if err \<noteq> None \<and> first = None then err else first, err \<noteq> None \<and> data = None))"

fun be_Decode :: "BinaryEncoder \<Rightarrow> context_values \<Rightarrow> bytes \<Rightarrow> decoded"
  and ChainedEncoder_Decode :: "BinaryEncoder list \<Rightarrow> chain_state \<Rightarrow> chain_state" where
  "be_Decode (Plain p) ctx data = pe_Decode p ctx data"
| "be_Decode (ChainedEncoder encs) ctx data =
    (let (ctx, data, first, _) = ChainedEncoder_Decode encs (ctx, Some data, None, False) in (ctx, data, first))"
| "ChainedEncoder_Decode [] st = st"
| "ChainedEncoder_Decode (enc # encs) st = chain_turn (be_Decode enc) (ChainedEncoder_Decode encs st)"

fun ade_Encode :: "BinaryEncoder \<Rightarrow> bytes \<Rightarrow> bytes \<Rightarrow> token_error + bytes"
  and ChainedEncoder_EncodeWithAssociatedData :: "BinaryEncoder list \<Rightarrow> bytes \<Rightarrow> bytes \<Rightarrow> bool \<Rightarrow> token_error + bytes" where
  "ade_Encode (Plain p) data aad = (case pe_aad p of Some (enc, _) \<Rightarrow> enc data aad | None \<Rightarrow> pe_Encode p data)"
| "ade_Encode (ChainedEncoder encs) data aad = ChainedEncoder_EncodeWithAssociatedData encs data aad (length aad = 0)"
| "ChainedEncoder_EncodeWithAssociatedData [] data aad used = (if \<not> used then Inl ErrAssociatedDataUnsupported else Inr data)"
| "ChainedEncoder_EncodeWithAssociatedData (enc # encs) data aad used =
    (case ade_Encode enc data aad of
       Inl err \<Rightarrow> Inl err
     | Inr data \<Rightarrow> ChainedEncoder_EncodeWithAssociatedData encs data aad
         (used \<or> (case enc of Plain p \<Rightarrow> pe_aad p \<noteq> None | ChainedEncoder _ \<Rightarrow> True)))"

fun ade_Decode :: "BinaryEncoder \<Rightarrow> context_values \<Rightarrow> bytes \<Rightarrow> bytes \<Rightarrow> decoded"
  and chain_ade_Decode :: "BinaryEncoder list \<Rightarrow> bytes \<Rightarrow> chain_state \<Rightarrow> chain_state" where
  "ade_Decode (Plain p) ctx data aad = (case pe_aad p of Some (_, dec) \<Rightarrow> dec ctx data aad | None \<Rightarrow> pe_Decode p ctx data)"
| "ade_Decode (ChainedEncoder encs) ctx data aad =
    (let supported = (length aad = 0 \<or> SupportsAssociatedData (ChainedEncoder encs));
         (ctx, data, first, _) = chain_ade_Decode encs aad (ctx, Some data, None, False)
     in if \<not> supported
        then (ctx, None, Some (case first of Some e \<Rightarrow> Joined [e, ErrAssociatedDataUnsupported] | None \<Rightarrow> ErrAssociatedDataUnsupported))
        else (ctx, data, first))"
| "chain_ade_Decode [] aad st = st"
| "chain_ade_Decode (enc # encs) aad st = chain_turn (\<lambda>ctx data. ade_Decode enc ctx data aad) (chain_ade_Decode encs aad st)"

text \<open>The functions that call an encoder with associated data when it takes them.\<close>

definition is_AssociatedDataEncoder :: "BinaryEncoder \<Rightarrow> bool" where
  "is_AssociatedDataEncoder be = (case be of Plain p \<Rightarrow> pe_aad p \<noteq> None | ChainedEncoder _ \<Rightarrow> True)"

definition EncodeWithAssociatedData :: "BinaryEncoder \<Rightarrow> bytes \<Rightarrow> bytes \<Rightarrow> token_error + bytes" where
  "EncodeWithAssociatedData be data aad =
    (if length aad = 0 then be_Encode be data
     else if is_AssociatedDataEncoder be then ade_Encode be data aad
     else Inl ErrAssociatedDataUnsupported)"

definition DecodeWithAssociatedData :: "BinaryEncoder \<Rightarrow> context_values \<Rightarrow> bytes \<Rightarrow> bytes \<Rightarrow> decoded" where
  "DecodeWithAssociatedData be ctx data aad =
    (if length aad = 0 then be_Decode be ctx data
     else if is_AssociatedDataEncoder be then ade_Decode be ctx data aad
     else (ctx, None, Some ErrAssociatedDataUnsupported))"

section \<open>Typed values\<close>

record 'v Marshaller =
  ma_Marshal :: "'v \<Rightarrow> token_error + bytes"
  ma_Unmarshal :: "bytes \<Rightarrow> 'v \<Rightarrow> 'v \<times> token_error option"

record 'v TypeEncoder =
  te_be :: BinaryEncoder
  te_ma :: "'v Marshaller"

definition TypeEncoder_SupportsAssociatedData :: "'v TypeEncoder option \<Rightarrow> bool" where
  "TypeEncoder_SupportsAssociatedData t = (case t of None \<Rightarrow> False | Some t \<Rightarrow> SupportsAssociatedData (te_be t))"

definition TypeEncoder_Encode :: "'v TypeEncoder \<Rightarrow> 'v \<Rightarrow> token_error + bytes" where
  "TypeEncoder_Encode t v = (case ma_Marshal (te_ma t) v of Inl err \<Rightarrow> Inl err | Inr buffer \<Rightarrow> be_Encode (te_be t) buffer)"

definition TypeEncoder_EncodeWithAssociatedData :: "'v TypeEncoder \<Rightarrow> 'v \<Rightarrow> bytes \<Rightarrow> token_error + bytes" where
  "TypeEncoder_EncodeWithAssociatedData t v aad =
    (case ma_Marshal (te_ma t) v of Inl err \<Rightarrow> Inl err | Inr buffer \<Rightarrow> EncodeWithAssociatedData (te_be t) buffer aad)"

definition type_decode :: "'v TypeEncoder \<Rightarrow> decoded \<Rightarrow> 'v \<Rightarrow> context_values \<times> 'v \<times> token_error option" where
  "type_decode t d out =
    (let (ctx, data, derr) = d in
     if data = None \<and> derr \<noteq> None then (ctx, out, derr)
     else let (out, nerr) = ma_Unmarshal (te_ma t) (or_empty data) out in (ctx, out, if derr = None then nerr else derr))"

definition TypeEncoder_Decode :: "'v TypeEncoder \<Rightarrow> context_values \<Rightarrow> bytes \<Rightarrow> 'v \<Rightarrow> context_values \<times> 'v \<times> token_error option" where
  "TypeEncoder_Decode t ctx data out = type_decode t (be_Decode (te_be t) ctx data) out"

definition TypeEncoder_DecodeWithAssociatedData ::
  "'v TypeEncoder \<Rightarrow> context_values \<Rightarrow> bytes \<Rightarrow> bytes \<Rightarrow> 'v \<Rightarrow> context_values \<times> 'v \<times> token_error option" where
  "TypeEncoder_DecodeWithAssociatedData t ctx data aad out = type_decode t (DecodeWithAssociatedData (te_be t) ctx data aad) out"

section \<open>Base64\<close>

text \<open>The number of bytes decoded is ignored: what newlines leave of the buffer stays zero.\<close>

definition Base64UrlEncoder :: BinaryEncoder where
  "Base64UrlEncoder = Plain \<lparr>pe_Encode = (\<lambda>data. Inr (base64_encode data)),
     pe_Decode = (\<lambda>ctx data. case base64_decode data of
         None \<Rightarrow> (ctx, None, Some (TokenError ''illegal base64 data''))
       | Some dst \<Rightarrow> (ctx, Some (dst @ replicate (DecodedLen (length data) - length dst) 0), None)),
     pe_aad = None\<rparr>"

section \<open>Times\<close>

text \<open>
  A \<^verbatim>\<open>time.Time\<close> counts seconds from the year 1 in 64 bits: \<^verbatim>\<open>time.Unix\<close> wraps around, \<^verbatim>\<open>Add\<close> saturates. Times are
  nanoseconds since 1970 here.
\<close>

definition unix_to_internal :: int where
  "unix_to_internal = 62135596800"

definition Time_Unix :: "int \<Rightarrow> time" where
  "Time_Unix sec = (i64 (sec + unix_to_internal) - unix_to_internal) * 1000000000"

definition unix_of :: "time \<Rightarrow> int" where
  "unix_of t = t div 1000000000"

definition Time_Add :: "time \<Rightarrow> time \<Rightarrow> time" where
  "Time_Add t d =
    (let sec = (t + d) div 1000000000 + unix_to_internal; nsec = (t + d) mod 1000000000 in
     if sec > 2 ^ 63 - 1 then (2 ^ 63 - 1 - unix_to_internal) * 1000000000 + nsec
     else if sec < - (2 ^ 63) then (- (2 ^ 63 - 1) - unix_to_internal) * 1000000000 + nsec
     else t + d)"

definition IssuedTimeKey :: string where "IssuedTimeKey = ''issued''"
definition MaxTimeKey :: string where "MaxTimeKey = ''max''"
definition ExpiresTimeKey :: string where "ExpiresTimeKey = ''expire''"

definition TimeEncoder_Encode :: "time \<Rightarrow> bytes \<Rightarrow> token_error + bytes" where
  "TimeEncoder_Encode now data = Inr (PutVarint (unix_of now) @ data)"

definition TimeEncoder_Decode :: "time \<Rightarrow> time \<Rightarrow> context_values \<Rightarrow> bytes \<Rightarrow> decoded" where
  "TimeEncoder_Decode now validity ctx data =
    (case Varint data of
       None \<Rightarrow> (ctx, None, Some (TokenError ''invalid timestamp in buffer''))
     | Some (issued, parsed) \<Rightarrow>
       let itime = Time_Unix issued;
           ctx = ctx(IssuedTimeKey \<mapsto> itime);
           max = Time_Add itime validity;
           ctx = ctx(MaxTimeKey \<mapsto> max)
       in if issued \<le> 0 \<or> max < now then (ctx, Some (drop parsed data), Some ExpiredError)
          else (ctx, Some (drop parsed data), None))"

definition TimeEncoder :: "time \<Rightarrow> time \<Rightarrow> BinaryEncoder" where
  "TimeEncoder now validity =
    Plain \<lparr>pe_Encode = TimeEncoder_Encode now, pe_Decode = TimeEncoder_Decode now validity, pe_aad = None\<rparr>"

definition ExpireEncoder_Encode :: "time \<Rightarrow> time \<Rightarrow> bytes \<Rightarrow> token_error + bytes" where
  "ExpireEncoder_Encode now validity data = Inr (PutVarint (unix_of (Time_Add now validity)) @ data)"

definition ExpireEncoder_Decode :: "time \<Rightarrow> context_values \<Rightarrow> bytes \<Rightarrow> decoded" where
  "ExpireEncoder_Decode now ctx data =
    (case Varint data of
       None \<Rightarrow> (ctx, None, Some (TokenError ''invalid timestamp in buffer''))
     | Some (expires, parsed) \<Rightarrow>
       let expirest = Time_Unix expires; ctx = ctx(ExpiresTimeKey \<mapsto> expirest)
       in if expires \<le> 0 \<or> expirest < now then (ctx, Some (drop parsed data), Some ExpiredError)
          else (ctx, Some (drop parsed data), None))"

definition ExpireEncoder :: "time \<Rightarrow> time \<Rightarrow> BinaryEncoder" where
  "ExpireEncoder now validity =
    Plain \<lparr>pe_Encode = ExpireEncoder_Encode now validity, pe_Decode = ExpireEncoder_Decode now, pe_aad = None\<rparr>"

section \<open>Symmetric encryption\<close>

text \<open>
  What the code relies on of \<^verbatim>\<open>cipher.AEAD\<close>: \<^verbatim>\<open>Open\<close> gives back what was sealed with the same nonce and associated
  data, and sealing does not shorten. The type holds the ciphers of which this is true; that there is one is shown
  with the cipher that only appends a tag.
\<close>

definition lawful_aead :: "(bytes \<Rightarrow> bytes \<Rightarrow> bytes \<Rightarrow> bytes) \<times> (bytes \<Rightarrow> bytes \<Rightarrow> bytes \<Rightarrow> bytes option) \<Rightarrow> bool" where
  "lawful_aead c \<longleftrightarrow> (\<forall>nonce data aad. snd c nonce (fst c nonce data aad) aad = Some data \<and> length data \<le> length (fst c nonce data aad))"

definition tag_cipher :: "(bytes \<Rightarrow> bytes \<Rightarrow> bytes \<Rightarrow> bytes) \<times> (bytes \<Rightarrow> bytes \<Rightarrow> bytes \<Rightarrow> bytes option)" where
  "tag_cipher = (\<lambda>nonce data aad. data @ [of_nat (length aad)],
     \<lambda>nonce c aad. if c \<noteq> [] \<and> last c = of_nat (length aad) then Some (butlast c) else None)"

lemma lawful_tag_cipher: "lawful_aead tag_cipher"
  by (simp add: lawful_aead_def tag_cipher_def)

typedef aead = "{c. lawful_aead c}"
  using lawful_tag_cipher by blast

definition Seal :: "aead \<Rightarrow> bytes \<Rightarrow> bytes \<Rightarrow> bytes \<Rightarrow> bytes" where
  "Seal c = fst (Rep_aead c)"

definition Open :: "aead \<Rightarrow> bytes \<Rightarrow> bytes \<Rightarrow> bytes \<Rightarrow> bytes option" where
  "Open c = snd (Rep_aead c)"

lemma Open_Seal: "Open c nonce (Seal c nonce data aad) aad = Some data" "length data \<le> length (Seal c nonce data aad)"
  using Rep_aead [of c] by (simp_all add: lawful_aead_def Seal_def Open_def)

definition NonceSize :: nat where
  "NonceSize = 12"

record SymmetricEncoder =
  se_key :: bytes
  se_cipher :: aead
  se_nonce :: "bytes option"

text \<open>A random generator that is nil, or what its next \<^verbatim>\<open>Read\<close> of so many bytes returns.\<close>

type_synonym rng = "(nat \<Rightarrow> token_error + bytes) option"

definition RandomSymmetricNonce :: "rng \<Rightarrow> token_error + bytes" where
  "RandomSymmetricNonce rng =
    (case rng of
       None \<Rightarrow> Inl (TokenError ''rng must be provided'')
     | Some read \<Rightarrow>
       (case read NonceSize of
          Inl err \<Rightarrow> Inl err
        | Inr nonce \<Rightarrow> if length nonce \<noteq> NonceSize then Inl (TokenError ''short read'') else Inr nonce))"

definition GenerateSymmetricKey :: "(nat \<Rightarrow> token_error + bytes) \<Rightarrow> nat \<Rightarrow> token_error + bytes" where
  "GenerateSymmetricKey read bits =
    (let bits = (if bits = 0 then 256 else bits) in
     if bits \<noteq> 128 \<and> bits \<noteq> 192 \<and> bits \<noteq> 256 then Inl (TokenError ''key size is invalid'')
     else case read (bits div 8) of
       Inl err \<Rightarrow> Inl err
     | Inr key \<Rightarrow> if length key \<noteq> bits div 8 then Inl (TokenError ''PRNG could not provide the key'') else Inr key)"

text \<open>The setters fill in the key and the nonce; an empty fixed nonce asks for a random one.\<close>

type_synonym SymmetricSetter = "bytes \<times> bytes option \<Rightarrow> token_error + bytes \<times> bytes option"

definition UseSymmetricKey :: "bytes \<Rightarrow> SymmetricSetter" where
  "UseSymmetricKey key be = Inr (key, snd be)"

definition UseFixedNonce :: "bytes option \<Rightarrow> SymmetricSetter" where
  "UseFixedNonce nonce be = Inr (fst be, Some (or_empty nonce))"

definition WithGeneratedSymmetricKey :: "(nat \<Rightarrow> token_error + bytes) \<Rightarrow> nat \<Rightarrow> SymmetricSetter" where
  "WithGeneratedSymmetricKey read bits be =
    (case GenerateSymmetricKey read bits of Inl err \<Rightarrow> Inl err | Inr key \<Rightarrow> UseSymmetricKey key be)"

fun apply_setters :: "SymmetricSetter list \<Rightarrow> SymmetricSetter" where
  "apply_setters [] be = Inr be"
| "apply_setters (s # ss) be = (case s be of Inl err \<Rightarrow> Inl err | Inr be \<Rightarrow> apply_setters ss be)"

text \<open>\<open>new_gcm\<close> stands for \<^verbatim>\<open>aes.NewCipher\<close> and \<^verbatim>\<open>cipher.NewGCM\<close>.\<close>

definition NewSymmetricEncoder :: "(bytes \<Rightarrow> token_error + aead) \<Rightarrow> rng \<Rightarrow> SymmetricSetter list \<Rightarrow> token_error + SymmetricEncoder" where
  "NewSymmetricEncoder new_gcm rng setters =
    (case apply_setters setters ([], None) of
       Inl err \<Rightarrow> Inl err
     | Inr (key, nonce) \<Rightarrow>
       if length key = 0 then Inl (TokenError ''No key set'')
       else case new_gcm key of
         Inl err \<Rightarrow> Inl err
       | Inr cipher \<Rightarrow>
         (case (if nonce = Some []
                then (case RandomSymmetricNonce rng of Inl err \<Rightarrow> Inl err | Inr n \<Rightarrow> Inr (Some n))
                else Inr nonce) of
            Inl err \<Rightarrow> Inl err
          | Inr nonce \<Rightarrow>
            if length (or_empty nonce) > 0 \<and> length (or_empty nonce) \<noteq> NonceSize
            then Inl (TokenError ''fixed nonce must be of the size of the nonces'')
            else Inr \<lparr>se_key = key, se_cipher = cipher, se_nonce = nonce\<rparr>))"

definition Symmetric_EncodeWithAssociatedData :: "rng \<Rightarrow> SymmetricEncoder \<Rightarrow> bytes \<Rightarrow> bytes \<Rightarrow> token_error + bytes" where
  "Symmetric_EncodeWithAssociatedData rng t data aad =
    (case (if length (or_empty (se_nonce t)) > 0 then Inr (or_empty (se_nonce t)) else RandomSymmetricNonce rng) of
       Inl err \<Rightarrow> Inl err
     | Inr nonce \<Rightarrow> Inr (nonce @ Seal (se_cipher t) nonce data aad))"

definition Symmetric_DecodeWithAssociatedData :: "SymmetricEncoder \<Rightarrow> context_values \<Rightarrow> bytes \<Rightarrow> bytes \<Rightarrow> decoded" where
  "Symmetric_DecodeWithAssociatedData t ctx ciphertext aad =
    (if length ciphertext < NonceSize then (ctx, None, Some (TokenError ''ciphertext too short to contain nonce''))
     else case Open (se_cipher t) (take NonceSize ciphertext) (drop NonceSize ciphertext) aad of
       None \<Rightarrow> (ctx, None, Some (TokenError ''message authentication failed''))
     | Some plaintext \<Rightarrow> (ctx, if plaintext = [] then None else Some plaintext, None))"

definition symmetric :: "rng \<Rightarrow> SymmetricEncoder \<Rightarrow> BinaryEncoder" where
  "symmetric rng t = Plain
    \<lparr>pe_Encode = (\<lambda>data. Symmetric_EncodeWithAssociatedData rng t data []),
     pe_Decode = (\<lambda>ctx data. Symmetric_DecodeWithAssociatedData t ctx data []),
     pe_aad = Some (Symmetric_EncodeWithAssociatedData rng t, Symmetric_DecodeWithAssociatedData t)\<rparr>"

text \<open>\<open>SymmetricCreator\<close>: a given key, or a generated one.\<close>

definition SymmetricCreator :: "(bytes \<Rightarrow> token_error + aead) \<Rightarrow> rng \<Rightarrow> bytes option \<Rightarrow> token_error + (BinaryEncoder \<times> bytes)" where
  "SymmetricCreator new_gcm rng key =
    (case key of
       Some k \<Rightarrow> (case NewSymmetricEncoder new_gcm rng [UseSymmetricKey k] of
           Inl err \<Rightarrow> Inl err | Inr be \<Rightarrow> Inr (symmetric rng be, k))
     | None \<Rightarrow>
       (case rng of
          None \<Rightarrow> Inl (TokenError ''nil generator'')
        | Some read \<Rightarrow>
          (case GenerateSymmetricKey read 0 of
             Inl err \<Rightarrow> Inl err
           | Inr k \<Rightarrow> (case NewSymmetricEncoder new_gcm rng [UseSymmetricKey k] of
               Inl err \<Rightarrow> Inl err | Inr be \<Rightarrow> Inr (symmetric rng be, k)))))"

section \<open>Signatures and public keys\<close>

definition fixed_length :: "nat \<Rightarrow> string \<Rightarrow> bytes \<Rightarrow> token_error + bytes" where
  "fixed_length n message xs =
    (if min n (length xs) \<noteq> n \<or> n < length xs then Inl (TokenError message) else Inr xs)"

definition VerifyingKeyFromSlice :: "bytes \<Rightarrow> token_error + bytes" where
  "VerifyingKeyFromSlice xs = fixed_length 32 ''invalid signing key length'' xs"

definition SigningKeyFromSlice :: "bytes \<Rightarrow> token_error + bytes" where
  "SigningKeyFromSlice xs = fixed_length 64 ''invalid signing key length'' xs"

definition AsymmetricKeyFromSlice :: "bytes \<Rightarrow> token_error + bytes" where
  "AsymmetricKeyFromSlice key = fixed_length 32 ''invalid key length'' key"

definition AsymmetricNonceFromSlice :: "bytes \<Rightarrow> token_error + bytes" where
  "AsymmetricNonceFromSlice nonce = fixed_length 24 ''invalid nonce length'' nonce"

text \<open>\<open>sign\<close> and \<open>open\<close> stand for \<^verbatim>\<open>nacl/sign\<close>; a key that was not set is \<^const>\<open>None\<close>.\<close>

definition NewSigningEncoder :: "(bytes \<Rightarrow> bytes \<Rightarrow> bytes) \<Rightarrow> (bytes \<Rightarrow> bytes \<Rightarrow> bytes option) \<Rightarrow> bytes option \<Rightarrow> bytes option
    \<Rightarrow> token_error + BinaryEncoder" where
  "NewSigningEncoder sign open signing verifying =
    (if signing = None \<and> verifying = None then Inl (TokenError ''neither a signing nor verifying key has been provided'')
     else Inr (Plain
       \<lparr>pe_Encode = (\<lambda>data. case signing of
            None \<Rightarrow> Inl (TokenError ''a signing key must be supplied to encode data'')
          | Some key \<Rightarrow> Inr (sign key data)),
        pe_Decode = (\<lambda>ctx data. case verifying of
            None \<Rightarrow> (ctx, None, Some (TokenError ''a verifying key must be supplied to decode data''))
          | Some key \<Rightarrow> (case open key data of
              None \<Rightarrow> (ctx, None, Some (TokenError ''signature did not match''))
            | Some d \<Rightarrow> (ctx, Some d, None))),
        pe_aad = None\<rparr>))"

text \<open>\<open>seal\<close> and \<open>open\<close> stand for the anonymous boxes of \<^verbatim>\<open>nacl/box\<close>.\<close>

definition NewAsymmetricEncoder :: "(bytes \<Rightarrow> bytes \<Rightarrow> token_error + bytes) \<Rightarrow> (bytes \<Rightarrow> bytes \<Rightarrow> bytes \<Rightarrow> bytes option)
    \<Rightarrow> bytes option \<Rightarrow> bytes option \<Rightarrow> token_error + BinaryEncoder" where
  "NewAsymmetricEncoder seal open pub priv =
    (case pub of
       None \<Rightarrow> Inl (TokenError ''a public key MUST always be provided'')
     | Some pub \<Rightarrow> Inr (Plain
       \<lparr>pe_Encode = (\<lambda>data. seal pub data),
        pe_Decode = (\<lambda>ctx data. case priv of
            None \<Rightarrow> (ctx, None, Some (TokenError ''a private key MUST be provided to decode the data''))
          | Some priv \<Rightarrow> (case open pub priv data of
              None \<Rightarrow> (ctx, None, Some (TokenError ''error deciphering asymmetric data''))
            | Some d \<Rightarrow> (ctx, Some d, None))),
        pe_aad = None\<rparr>))"

end
