(* ===== verification/Token_Props.thy ===== *)
theory Token_Props imports Token begin

text \<open>
  The contract of an encoder, as a locale: what it encodes, the decoder gives back. It holds of the encoders of the
  library and of chains of them; time encoders have it as long as the token is valid.
\<close>

section \<open>The contract\<close>

locale binary_encoder =
  fixes encode :: "bytes \<Rightarrow> token_error + bytes" and decode :: "context_values \<Rightarrow> bytes \<Rightarrow> decoded"
  assumes decodes: "encode data = Inr x \<Longrightarrow> \<exists>ctx' d. decode ctx x = (ctx', d, None) \<and> or_empty d = data"
begin

lemma encode_inj: "encode a = Inr x \<Longrightarrow> encode b = Inr x \<Longrightarrow> a = b"
  using decodes [of a x Map.empty] decodes [of b x Map.empty] by auto

lemma turn: "encode data = Inr x \<Longrightarrow> or_empty o' = x \<Longrightarrow>
    \<exists>ctx' d. chain_turn decode (ctx, o', first, False) = (ctx', d, first, False) \<and> or_empty d = data"
  using decodes [of data x ctx] by (auto simp: chain_turn_def Let_def)

end

definition restores :: "BinaryEncoder \<Rightarrow> BinaryEncoder \<Rightarrow> bool" where
  "restores enc dec \<longleftrightarrow> binary_encoder (be_Encode enc) (be_Decode dec)"

lemma chain_restores:
  assumes "list_all2 restores encs decs" "ChainedEncoder_Encode encs data = Inr x"
  shows "\<exists>ctx' d. ChainedEncoder_Decode decs (ctx, Some x, None, False) = (ctx', d, None, False) \<and> or_empty d = data"
  using assms
proof (induction arbitrary: data rule: list_all2_induct)
  case (Cons e es d ds)
  then obtain y where y: "be_Encode e data = Inr y" "ChainedEncoder_Encode es y = Inr x" by (auto split: sum.splits)
  then obtain ctx' o' where "ChainedEncoder_Decode ds (ctx, Some x, None, False) = (ctx', o', None, False)" "or_empty o' = y"
    using Cons by blast
  then show ?case using binary_encoder.turn [of "be_Encode e" "be_Decode d", OF _ y(1)] Cons.hyps
    by (simp add: restores_def)
qed simp

lemma restores_Chained: "list_all2 restores encs decs \<Longrightarrow> restores (ChainedEncoder encs) (ChainedEncoder decs)"
  unfolding restores_def
proof
  fix data x ctx
  assume "list_all2 (\<lambda>enc dec. binary_encoder (be_Encode enc) (be_Decode dec)) encs decs" "be_Encode (ChainedEncoder encs) data = Inr x"
  then obtain ctx' d where "ChainedEncoder_Decode decs (ctx, Some x, None, False) = (ctx', d, None, False)" "or_empty d = data"
    using chain_restores [of encs decs data x ctx] by (auto simp: restores_def [abs_def])
  then show "\<exists>ctx' d. be_Decode (ChainedEncoder decs) ctx x = (ctx', d, None) \<and> or_empty d = data" by simp
qed

section \<open>The encoders\<close>

interpretation base64: binary_encoder "be_Encode Base64UrlEncoder" "be_Decode Base64UrlEncoder"
  by unfold_locales (auto simp: Base64UrlEncoder_def base64_decode_encode DecodedLen_encode)

lemma RandomSymmetricNonce_length: "RandomSymmetricNonce rng = Inr nonce \<Longrightarrow> length nonce = NonceSize"
  by (auto simp: RandomSymmetricNonce_def split: option.splits sum.splits if_splits)

text \<open>What \<open>NewSymmetricEncoder\<close> guarantees of the nonce.\<close>

definition good_nonce :: "SymmetricEncoder \<Rightarrow> bool" where
  "good_nonce t \<longleftrightarrow> or_empty (se_nonce t) = [] \<or> length (or_empty (se_nonce t)) = NonceSize"

lemma NewSymmetricEncoder_good_nonce: "NewSymmetricEncoder new_gcm rng setters = Inr t \<Longrightarrow> good_nonce t"
  by (auto simp: NewSymmetricEncoder_def good_nonce_def split: sum.splits if_splits)

lemma symmetric_aad:
  assumes "good_nonce t" "Symmetric_EncodeWithAssociatedData rng t data aad = Inr x"
  shows "\<exists>d. Symmetric_DecodeWithAssociatedData t ctx x aad = (ctx, d, None) \<and> or_empty d = data"
    and "NonceSize + length data \<le> length x"
proof -
  obtain nonce where n: "x = nonce @ Seal (se_cipher t) nonce data aad" "length nonce = NonceSize"
    using assms RandomSymmetricNonce_length
    by (auto simp: Symmetric_EncodeWithAssociatedData_def good_nonce_def split: sum.splits if_splits)
  then show "\<exists>d. Symmetric_DecodeWithAssociatedData t ctx x aad = (ctx, d, None) \<and> or_empty d = data"
    "NonceSize + length data \<le> length x"
    using Open_Seal [where c = "se_cipher t" and nonce = nonce and data = data and aad = aad] by (simp_all add: Symmetric_DecodeWithAssociatedData_def)
qed

lemma restores_symmetric: "good_nonce t \<Longrightarrow> restores (symmetric rng t) (symmetric rng' t)"
  unfolding restores_def
proof
  fix data x ctx
  assume "good_nonce t" "be_Encode (symmetric rng t) data = Inr x"
  then show "\<exists>ctx' d. be_Decode (symmetric rng' t) ctx x = (ctx', d, None) \<and> or_empty d = data"
    using symmetric_aad(1) [of t rng data "[]" x ctx] by (auto simp: symmetric_def)
qed

text \<open>The usual token: encrypted, then made fit for a URL.\<close>

definition sealed :: "rng \<Rightarrow> SymmetricEncoder \<Rightarrow> BinaryEncoder" where
  "sealed rng t = ChainedEncoder [symmetric rng t, Base64UrlEncoder]"

lemma restores_sealed: "good_nonce t \<Longrightarrow> restores (sealed rng t) (sealed rng' t)"
  unfolding sealed_def
  by (intro restores_Chained) (simp add: restores_symmetric, simp add: restores_def base64.binary_encoder_axioms)

section \<open>Validity\<close>

definition representable :: "time \<Rightarrow> bool" where
  "representable t \<longleftrightarrow> - (2 ^ 61) \<le> unix_of t \<and> unix_of t < 2 ^ 61"

lemma Time_Unix_id: "representable t \<Longrightarrow> Time_Unix (unix_of t) = unix_of t * 1000000000"
  by (simp add: Time_Unix_def representable_def unix_to_internal_def i64_id)

lemma Varint_unix: "representable t \<Longrightarrow> Varint (PutVarint (unix_of t) @ data) = Some (unix_of t, length (PutVarint (unix_of t)))"
  by (rule Varint_Put) (simp_all add: representable_def)

lemma Time_Add_id: "representable t \<Longrightarrow> representable d \<Longrightarrow> Time_Add t d = t + d"
proof -
  assume r: "representable t" "representable d"
  have "(t + d) div 1000000000 \<le> t div 1000000000 + d div 1000000000 + 1"
    "t div 1000000000 + d div 1000000000 \<le> (t + d) div 1000000000" by linarith+
  then show ?thesis using r by (simp add: Time_Add_def Let_def representable_def unix_of_def unix_to_internal_def)
qed

definition seconds_of :: "time \<Rightarrow> time" where
  "seconds_of t = unix_of t * 1000000000"

text \<open>C18: A token made by a chain that starts with a time encoder decodes, through the same chain with the decoder's own
  clock and validity, to the data it was made of, whether it has expired or not; the error is \<open>ExpiredError\<close> exactly
  when the second it was issued in plus the validity has passed, and the context tells both times.\<close>

theorem time_token_roundtrip:
  assumes "representable now" "representable validity" "0 < unix_of now"
    and "list_all2 restores encs decs"
    and "be_Encode (ChainedEncoder (TimeEncoder now v # encs)) data = Inr x"
  shows "\<exists>ctx'. be_Decode (ChainedEncoder (TimeEncoder now' validity # decs)) ctx x =
      (ctx', Some data, if seconds_of now + validity < now' then Some ExpiredError else None) \<and>
    ctx' IssuedTimeKey = Some (seconds_of now) \<and> ctx' MaxTimeKey = Some (seconds_of now + validity)"
proof -
  have e: "ChainedEncoder_Encode encs (PutVarint (unix_of now) @ data) = Inr x"
    using assms(5) by (simp add: TimeEncoder_def TimeEncoder_Encode_def)
  obtain ctx1 d where c: "ChainedEncoder_Decode decs (ctx, Some x, None, False) = (ctx1, d, None, False)"
    "or_empty d = PutVarint (unix_of now) @ data" using chain_restores [OF assms(4) e] by blast
  have "unix_of (seconds_of now) = unix_of now" by (simp add: seconds_of_def unix_of_def)
  then have "representable (seconds_of now)" using assms(1) by (simp add: representable_def)
  then have t: "Time_Unix (unix_of now) = seconds_of now" "Time_Add (seconds_of now) validity = seconds_of now + validity"
    using Time_Unix_id [OF assms(1)] Time_Add_id assms(2) by (simp_all add: seconds_of_def)
  show ?thesis using assms(3) c t Varint_unix [OF assms(1), of data]
    by (simp add: chain_turn_def TimeEncoder_def TimeEncoder_Decode_def Let_def IssuedTimeKey_def MaxTimeKey_def)
qed

theorem time_token_roundtrip_witness:
  "\<exists>x ctx'. be_Encode (ChainedEncoder [TimeEncoder 5000000000 0, Base64UrlEncoder]) [7] = Inr x \<and>
    be_Decode (ChainedEncoder [TimeEncoder 20000000000 10000000000, Base64UrlEncoder]) Map.empty x = (ctx', Some [7], Some ExpiredError)"
proof -
  have r: "list_all2 restores [Base64UrlEncoder] [Base64UrlEncoder]"
    by (simp add: restores_def base64.binary_encoder_axioms)
  have t: "representable 5000000000" "representable 10000000000" "0 < unix_of 5000000000" "seconds_of 5000000000 = 5000000000"
    by (simp_all add: representable_def unix_of_def seconds_of_def)
  obtain x where x: "be_Encode (ChainedEncoder [TimeEncoder 5000000000 0, Base64UrlEncoder]) [7] = Inr x"
    by (simp add: TimeEncoder_def TimeEncoder_Encode_def Base64UrlEncoder_def)
  then show ?thesis using time_token_roundtrip [OF t(1-3) r x, of 20000000000 Map.empty] by (simp add: t(4) del: be_Encode.simps be_Decode.simps) blast
qed

text \<open>A token with newlines in it decodes to data with zero bytes at its end.\<close>

lemma base64_newline_padding:
  "be_Decode Base64UrlEncoder ctx [81, 81, 10] = (ctx, Some [65, 0], None)"
  by (simp add: Base64UrlEncoder_def base64_decode_def dec64_def DecodedLen_def Let_def)

end
