(* ===== verification/Nassh_Token.thy ===== *)
theory Nassh_Token imports Nassh_Http Token_Props begin

text \<open>
  The session identifiers of the proxy: \<^verbatim>\<open>New\<close> of \<^verbatim>\<open>proxy/nasshp/nassh.go\<close> makes the encoder that seals host and port
  with a symmetric key and encodes the result for a URL. This discharges the contract under which the handlers of
  \<open>Nassh_Http\<close> were proved to understand each other.
\<close>

text \<open>A proxy whose \<^verbatim>\<open>New\<close> fails serves nothing: it encodes and decodes to an error.\<close>

definition nassh_encode :: "(bytes \<Rightarrow> token_error + aead) \<Rightarrow> rng \<Rightarrow> SymmetricSetter list \<Rightarrow> rng \<Rightarrow> string \<Rightarrow> gerror + string" where
  "nassh_encode new_gcm rng0 setters rng hostport =
    (case NewSymmetricEncoder new_gcm rng0 setters of
       Inl err \<Rightarrow> Inl ''error setting up symmetric encryption''
     | Inr be \<Rightarrow>
       (case be_Encode (ChainedEncoder [symmetric rng be, Base64UrlEncoder]) (bytes_of_string hostport) of
          Inl err \<Rightarrow> Inl ''could not encode''
        | Inr sid \<Rightarrow> Inr (string_of_bytes sid)))"

definition nassh_decode :: "(bytes \<Rightarrow> token_error + aead) \<Rightarrow> rng \<Rightarrow> SymmetricSetter list \<Rightarrow> string \<Rightarrow> gerror + string" where
  "nassh_decode new_gcm rng0 setters sid =
    (case NewSymmetricEncoder new_gcm rng0 setters of
       Inl err \<Rightarrow> Inl ''error setting up symmetric encryption''
     | Inr be \<Rightarrow>
       (case be_Decode (ChainedEncoder [symmetric None be, Base64UrlEncoder]) Map.empty (bytes_of_string sid) of
          (ctx, data, Some err) \<Rightarrow> Inl ''invalid sid''
        | (ctx, data, None) \<Rightarrow> Inr (string_of_bytes (or_empty data))))"

interpretation sid: sid_encoder "nassh_encode new_gcm rng0 setters rng" "nassh_decode new_gcm rng0 setters"
proof
  fix hostport sid
  assume e: "nassh_encode new_gcm rng0 setters rng hostport = Inr sid"
  then obtain be x where be: "NewSymmetricEncoder new_gcm rng0 setters = Inr be"
    "be_Encode (ChainedEncoder [symmetric rng be, Base64UrlEncoder]) (bytes_of_string hostport) = Inr x" "sid = string_of_bytes x"
    by (auto simp: nassh_encode_def simp del: be_Encode.simps split: sum.splits)
  note good = NewSymmetricEncoder_good_nonce [OF be(1)]
  show "nassh_decode new_gcm rng0 setters sid = Inr hostport"
  proof -
    obtain ctx' d where "be_Decode (ChainedEncoder [symmetric None be, Base64UrlEncoder]) Map.empty x = (ctx', d, None)"
      "or_empty d = bytes_of_string hostport"
      using binary_encoder.decodes [OF restores_sealed [OF good, of rng None, unfolded sealed_def restores_def] be(2)] by blast
    then show ?thesis unfolding nassh_decode_def be(3) by (simp add: be(1) del: be_Decode.simps)
  qed
  obtain y where y: "Symmetric_EncodeWithAssociatedData rng be (bytes_of_string hostport) [] = Inr y" "x = base64_encode y"
    using be(2) by (auto simp: symmetric_def Base64UrlEncoder_def split: sum.splits)
  then have "12 \<le> length y" using symmetric_aad(2) [OF good y(1)] by (simp add: NonceSize_def)
  then show "6 \<le> length sid" using base64_length [of y] unfolding be(3) y(2) by simp
qed

section \<open>From one handler to the other\<close>

lemma last_ErrorReply: "last (ws @ [r]) = r" by simp

lemma ServeProxy_issues:
  assumes "authenticated env r" "ServeProxy env r pe = Some (pe', ws)" "ws \<noteq> []" "last ws = LineReply sid" "sid \<noteq> []"
  shows "\<exists>host port. ne_resolver env (params_Get r ''host'') (params_Get r ''port'') = Inr (host, port) \<and>
    destination_allowed env (JoinHostPort host port) \<and> ne_encode env (JoinHostPort host port) = Inr sid"
proof -
  obtain ws0 where r: "ServeProxy_resolved env r ws0 pe = Some (pe', ws)"
    using assms(1,2) by (auto simp: ServeProxy_def authenticated_def Let_def split: option.splits prod.splits sum.splits)
  obtain host port where hp: "ne_resolver env (params_Get r ''host'') (params_Get r ''port'') = Inr (host, port)"
    using r assms(4) by (auto simp: ServeProxy_resolved_def split: sum.splits)
  define hostport where "hostport = JoinHostPort host port"
  have "allow env r [] hostport (ProxyAllow pe) = Some (ProxyAllow pe, ws1, True) \<or>
      (\<exists>ce'. allow env r [] hostport (ProxyAllow pe) = Some (ce', ws1 @ [ErrorReply 401], False))" if "ws1 = fst (case ne_authenticator env of None \<Rightarrow> ([], Inl []) | Some auth \<Rightarrow> auth r None)" for ws1
    using assms(1) that allow_filter_iff [of env hostport ws1 "ProxyAllow pe"]
    by (cases "destination_allowed env hostport")
      (auto simp: allow_def LogId_panics_def authenticated_def split: option.splits prod.splits sum.splits)
  then obtain ws1 where "allow env r [] hostport (ProxyAllow pe) = Some (ProxyAllow pe, ws1, True) \<or>
      (\<exists>ce'. allow env r [] hostport (ProxyAllow pe) = Some (ce', ws1 @ [ErrorReply 401], False))" by blast
  then have a: "allow env r [] hostport (ProxyAllow pe) = Some (ProxyAllow pe, ws1, True)"
    using r hp assms(4) by (auto simp: ServeProxy_resolved_def hostport_def Let_def)
  then have "destination_allowed env hostport"
    using allow_exact [of "[]" env r hostport "ProxyAllow pe"] by (auto simp: LogId_panics_def split: if_splits)
  moreover have "ne_encode env hostport = Inr sid"
    using r hp a assms(4,5) by (auto simp: ServeProxy_resolved_def hostport_def Let_def split: sum.splits)
  ultimately show ?thesis using hp by (auto simp: hostport_def)
qed

text \<open>C20: A session identifier that \<open>/proxy\<close> answers with stands for the destination it resolved and authorised: when an
  authenticated browser presents it to \<open>/connect\<close> with positions that parse, \<open>ProxySsh\<close> is called with exactly that
  destination, whatever nonces are drawn, as long as the key is the same and the filter still allows it.\<close>

theorem issued_sid_connects:
  assumes "ne_encode env = nassh_encode new_gcm rng0 setters rng" "ne_decode env = nassh_decode new_gcm rng0 setters"
    and "authenticated env r" "ServeProxy env r pe = Some (pe', ws)" "ws \<noteq> []" "last ws = LineReply sid" "sid \<noteq> []"
    and "authenticated env c" "params_Get c ''sid'' = sid"
    and "parse_position (TrimSpace (params_Get c ''ack'')) = Some rack"
    and "parse_position (TrimSpace (params_Get c ''pos'')) = Some wack"
  shows "\<exists>host port pe'' ws'. ne_resolver env (params_Get r ''host'') (params_Get r ''port'') = Inr (host, port) \<and>
    destination_allowed env (JoinHostPort host port) \<and>
    ServeConnect env c pe2 = Some (pe'', ws', Some (sid, rack, wack, JoinHostPort host port))"
proof -
  obtain host port where p: "ne_resolver env (params_Get r ''host'') (params_Get r ''port'') = Inr (host, port)"
    "destination_allowed env (JoinHostPort host port)" "nassh_encode new_gcm rng0 setters rng (JoinHostPort host port) = Inr sid"
    using ServeProxy_issues [OF assms(3-7)] assms(1) by auto
  then show ?thesis using sid.issued_connects [OF assms(2) p(3) assms(8) p(2) assms(9-11), of pe2] by blast
qed

definition token_env :: "unit nassh_env" where
  "token_env = \<lparr>ne_authenticator = None, ne_filter = None, ne_resolver = default_resolver (\<lambda>host. Inr []),
     ne_encode = nassh_encode (\<lambda>key. Inr (Abs_aead tag_cipher)) None [UseSymmetricKey [1], UseFixedNonce (Some (replicate 12 7))] None,
     ne_decode = nassh_decode (\<lambda>key. Inr (Abs_aead tag_cipher)) None [UseSymmetricKey [1], UseFixedNonce (Some (replicate 12 7))],
     ne_lookup_host = (\<lambda>host. Inr [])\<rparr>"

definition proxy_request :: request where
  "proxy_request = \<lparr>rq_params = [(''host'', ''srv''), (''port'', ''22'')], rq_origin = []\<rparr>"

definition connect_request :: "string \<Rightarrow> request" where
  "connect_request sid = \<lparr>rq_params = [(''sid'', sid), (''ack'', ''5''), (''pos'', [])], rq_origin = []\<rparr>"

theorem issued_sid_connects_witness:
  "\<exists>sid pe pe' pe'' ws'. ServeProxy token_env proxy_request pe = Some (pe', [LineReply sid]) \<and>
    ServeConnect token_env (connect_request sid) pe = Some (pe'', ws', Some (sid, 5, 0, ''srv:22''))"
proof -
  have n: "NewSymmetricEncoder (\<lambda>key. Inr (Abs_aead tag_cipher)) None [UseSymmetricKey [1], UseFixedNonce (Some (replicate 12 7))] =
      Inr \<lparr>se_key = [1], se_cipher = Abs_aead tag_cipher, se_nonce = Some (replicate 12 7)\<rparr>"
    by (simp add: NewSymmetricEncoder_def UseSymmetricKey_def UseFixedNonce_def NonceSize_def numeral_eq_Suc)
  have jh: "JoinHostPort ''srv'' ''22'' = ''srv:22''" by (simp add: JoinHostPort_def)
  obtain sid where s: "ne_encode token_env ''srv:22'' = Inr sid" "sid \<noteq> []"
  proof -
    have "\<exists>sid. ne_encode token_env ''srv:22'' = Inr sid"
      unfolding token_env_def nassh_env.simps nassh_encode_def n
      by (simp add: symmetric_def Symmetric_EncodeWithAssociatedData_def Base64UrlEncoder_def)
    moreover have "sid \<noteq> []" if "ne_encode token_env ''srv:22'' = Inr sid" for sid
      using sid.long_enough [of _ _ _ _ "''srv:22''" sid] that by (force simp: token_env_def)
    ultimately show ?thesis using that by blast
  qed
  have a: "authenticated token_env q" for q by (simp add: authenticated_def token_env_def)
  have g: "params_Get proxy_request ''host'' = ''srv''" "params_Get proxy_request ''port'' = ''22''"
    "params_Get (connect_request sid) ''sid'' = sid"
    "parse_position (TrimSpace (params_Get (connect_request sid) ''ack'')) = Some 5"
    "parse_position (TrimSpace (params_Get (connect_request sid) ''pos'')) = Some 0"
    by (simp_all add: proxy_request_def connect_request_def params_Get_def parse_position_def TrimSpace_def trim_right_def
        is_space_def ParseUint_def digit_val_def Let_def)
  have res: "ne_resolver token_env ''srv'' ''22'' = Inr (''srv'', ''22'')"
    by (simp add: token_env_def default_resolver_def FailEmptyHost_Resolve_def SRVResolver_Resolve_def FailEmptyPort_Resolve_def)
  have al: "allow token_env q [] hp ce = Some (ce, [], True)" for q hp ce
    by (simp add: allow_def allow_filter_def LogId_panics_def token_env_def)
  have "ne_authenticator token_env = None" by (simp add: token_env_def)
  then have p: "ServeProxy token_env proxy_request pe = Some (pe, [LineReply sid])" for pe
    using s(1) by (simp add: ServeProxy_def ServeProxy_resolved_def g(1,2) res al jh Let_def origin_headers_def)
      (simp add: proxy_request_def)
  have enc: "ne_encode token_env = nassh_encode (\<lambda>key. Inr (Abs_aead tag_cipher)) None [UseSymmetricKey [1], UseFixedNonce (Some (replicate 12 7))] None"
    "ne_decode token_env = nassh_decode (\<lambda>key. Inr (Abs_aead tag_cipher)) None [UseSymmetricKey [1], UseFixedNonce (Some (replicate 12 7))]"
    by (simp_all add: token_env_def)
  have "\<exists>pe'' ws'. ServeConnect token_env (connect_request sid) pe = Some (pe'', ws', Some (sid, 5, 0, ''srv:22''))" for pe
    using issued_sid_connects [OF enc a p [of pe] _ _ s(2) a g(3-5), of pe] g(1,2) res jh by auto
  then show ?thesis using p by blast
qed

end
