(* ===== verification/Token_Multi.thy ===== *)
theory Token_Multi imports Token_Props begin

text \<open>
  The encoder with several key holders (\<^verbatim>\<open>lib/token/multi.go\<close>): data is encrypted with a fresh key, and the key once
  per key holder; any of them can open it. The factory of ciphers is an argument, called with \<^const>\<open>None\<close> for a fresh
  key; the messages of the errors that are collected are not modelled, only that there are some.
\<close>

type_synonym CryptoFactory = "bytes option \<Rightarrow> token_error + (BinaryEncoder \<times> bytes)"

record MultiKeyCryptoEncoder =
  mke_creator :: CryptoFactory
  mke_keyholder :: "BinaryEncoder list"

definition NewMultiKeyCryptoEncoder :: "CryptoFactory \<Rightarrow> BinaryEncoder list list \<Rightarrow> token_error + MultiKeyCryptoEncoder" where
  "NewMultiKeyCryptoEncoder creator holders =
    (let mke = \<lparr>mke_creator = creator, mke_keyholder = concat holders\<rparr>
     in if length (mke_keyholder mke) = 0 then Inl (TokenError ''no key holder specified'') else Inr mke)"

definition frame :: "bytes \<Rightarrow> bytes" where
  "frame data = PutUvarint (length data) @ data"

fun mke_add_keys :: "BinaryEncoder list \<Rightarrow> bytes \<Rightarrow> bytes \<Rightarrow> token_error + bytes" where
  "mke_add_keys [] key result = Inr result"
| "mke_add_keys (kh # khs) key result =
    (case be_Encode kh key of Inl err \<Rightarrow> Inl err | Inr ek \<Rightarrow> mke_add_keys khs key (result @ frame ek))"

definition MultiKey_Encode :: "MultiKeyCryptoEncoder \<Rightarrow> bytes \<Rightarrow> token_error + bytes" where
  "MultiKey_Encode mke data =
    (case mke_creator mke None of
       Inl err \<Rightarrow> Inl err
     | Inr (sc, key) \<Rightarrow>
       (case be_Encode sc data of
          Inl err \<Rightarrow> Inl err
        | Inr cipherdata \<Rightarrow> mke_add_keys (mke_keyholder mke) key (frame cipherdata)))"

text \<open>One length-prefixed part of a buffer, and what follows it.\<close>

definition next_frame :: "bytes \<Rightarrow> (bytes \<times> bytes) option" where
  "next_frame buffer =
    (case Uvarint buffer of
       None \<Rightarrow> None
     | Some (len, uintlen) \<Rightarrow>
       if len > 2147483647 \<or> len = 0 \<or> uintlen + len > length buffer then None
       else Some (take len (drop uintlen buffer), drop (uintlen + len) buffer))"

text \<open>The inner loop tries every key holder on one encrypted key; \<^const>\<open>Inl\<close> says how many errors it has collected.\<close>

fun try_holders :: "CryptoFactory \<Rightarrow> bytes \<Rightarrow> bytes \<Rightarrow> BinaryEncoder list \<Rightarrow> context_values \<Rightarrow> nat
    \<Rightarrow> context_values \<times> (nat + bytes option)" where
  "try_holders creator ciphertext currentkey [] ctx errors = (ctx, Inl errors)"
| "try_holders creator ciphertext currentkey (kh # khs) ctx errors =
    (case be_Decode kh ctx currentkey of
       (ctx, decodedkey, Some err) \<Rightarrow> try_holders creator ciphertext currentkey khs ctx (errors + 1)
     | (ctx, decodedkey, None) \<Rightarrow>
       (case creator decodedkey of
          Inl err \<Rightarrow> try_holders creator ciphertext currentkey khs ctx (errors + 1)
        | Inr (sc, _) \<Rightarrow>
          (case be_Decode sc ctx ciphertext of
             (ctx, cleartext, Some err) \<Rightarrow> try_holders creator ciphertext currentkey khs ctx (errors + 1)
           | (ctx, cleartext, None) \<Rightarrow> (ctx, Inr cleartext))))"

lemma next_frame_shorter: "next_frame buffer = Some (f, rest) \<Longrightarrow> length rest < length buffer"
  by (auto simp: next_frame_def split: option.splits if_splits dest: Uvarint_length)

function mke_keys_loop :: "MultiKeyCryptoEncoder \<Rightarrow> bytes \<Rightarrow> bytes \<Rightarrow> context_values \<Rightarrow> nat \<Rightarrow> decoded" where
  "mke_keys_loop mke ciphertext keybuffer ctx errors =
    (if keybuffer = [] then (ctx, None, Some (TokenError (if errors = 0 then ''no valid key could be found'' else ''multiple errors'')))
     else case next_frame keybuffer of
       None \<Rightarrow> (ctx, None, Some (TokenError ''key: buffer is too small, or not encoded correctly''))
     | Some (currentkey, keybuffer) \<Rightarrow>
       (case try_holders (mke_creator mke) ciphertext currentkey (mke_keyholder mke) ctx errors of
          (ctx, Inr cleartext) \<Rightarrow> (ctx, cleartext, None)
        | (ctx, Inl errors) \<Rightarrow> mke_keys_loop mke ciphertext keybuffer ctx errors))"
  by pat_completeness auto
termination by (relation "measure (\<lambda>(mke, ciphertext, keybuffer, ctx, errors). length keybuffer)") (auto dest: next_frame_shorter)

declare mke_keys_loop.simps [simp del]

definition MultiKey_Decode :: "MultiKeyCryptoEncoder \<Rightarrow> context_values \<Rightarrow> bytes \<Rightarrow> decoded" where
  "MultiKey_Decode mke ctx buffer =
    (case next_frame buffer of
       None \<Rightarrow> (ctx, None, Some (TokenError ''ciphertext: buffer is too small, or not encoded correctly''))
     | Some (ciphertext, keybuffer) \<Rightarrow> mke_keys_loop mke ciphertext keybuffer ctx 0)"

section \<open>Frames\<close>

definition framable :: "bytes \<Rightarrow> bool" where
  "framable x \<longleftrightarrow> 0 < length x \<and> length x \<le> 2147483647"

lemma next_frame_frame: "framable x \<Longrightarrow> next_frame (frame x @ rest) = Some (x, rest)"
proof -
  assume f: "framable x"
  then have "length x < 2 ^ 64" by (simp add: framable_def)
  then have "Uvarint (frame x @ rest) = Some (length x, length (PutUvarint (length x)))"
    using Uvarint_Put [of "length x" "x @ rest"] by (simp add: frame_def)
  then show ?thesis using f by (auto simp: next_frame_def frame_def framable_def)
qed

lemma frame_not_Nil [simp]: "frame x \<noteq> []"
  by (simp add: frame_def)

section \<open>Any key holder opens it\<close>

text \<open>
  What authenticated ciphers give: a key holder opens an encrypted key to the right key or not at all, and the
  ciphers made from a key restore what the one made with it encrypted.
\<close>

definition sound_holder :: "BinaryEncoder \<Rightarrow> bytes \<Rightarrow> bytes \<Rightarrow> bool" where
  "sound_holder kh key ek \<longleftrightarrow>
    (\<forall>ctx. case be_Decode kh ctx ek of (ctx', d, None) \<Rightarrow> d = Some key | (ctx', d, Some err) \<Rightarrow> True)"

definition opens_key :: "BinaryEncoder \<Rightarrow> bytes \<Rightarrow> bytes \<Rightarrow> bool" where
  "opens_key kh key ek \<longleftrightarrow> (\<forall>ctx. \<exists>ctx'. be_Decode kh ctx ek = (ctx', Some key, None))"

lemma try_holders_sound:
  assumes "\<forall>kh \<in> set khs. sound_holder kh key ek"
    and "creator (Some key) = Inr (sc', k')" "\<And>ctx. \<exists>ctx' d. be_Decode sc' ctx ciphertext = (ctx', d, None) \<and> or_empty d = data"
  shows "(\<exists>kh \<in> set khs. opens_key kh key ek) \<Longrightarrow>
      \<exists>ctx' d. try_holders creator ciphertext ek khs ctx errors = (ctx', Inr d) \<and> or_empty d = data"
    and "(\<exists>ctx' d. try_holders creator ciphertext ek khs ctx errors = (ctx', Inr d) \<and> or_empty d = data) \<or>
      (\<exists>ctx' n. try_holders creator ciphertext ek khs ctx errors = (ctx', Inl n))"
proof -
  have "((\<exists>kh \<in> set khs. opens_key kh key ek) \<longrightarrow>
      (\<exists>ctx' d. try_holders creator ciphertext ek khs ctx errors = (ctx', Inr d) \<and> or_empty d = data)) \<and>
    ((\<exists>ctx' d. try_holders creator ciphertext ek khs ctx errors = (ctx', Inr d) \<and> or_empty d = data) \<or>
      (\<exists>ctx' n. try_holders creator ciphertext ek khs ctx errors = (ctx', Inl n)))"
    using assms(1)
  proof (induction khs arbitrary: ctx errors)
    case (Cons kh khs)
    obtain c d e where k: "be_Decode kh ctx ek = (c, d, e)" by (metis prod_cases3)
    show ?case
    proof (cases e)
      case None
      then have "d = Some key" using Cons.prems k by (auto simp: sound_holder_def dest!: spec [of _ ctx])
      then show ?thesis using None k assms(2) assms(3) [of c] by auto
    next
      case (Some err)
      have "\<not> opens_key kh key ek"
      proof
        assume "opens_key kh key ek"
        then obtain c' where "be_Decode kh ctx ek = (c', Some key, None)" unfolding opens_key_def by blast
        then show False using k Some by simp
      qed
      then show ?thesis using Some k Cons.IH [of c "errors + 1"] Cons.prems by simp
    qed
  qed simp
  then show "(\<exists>kh \<in> set khs. opens_key kh key ek) \<Longrightarrow>
      \<exists>ctx' d. try_holders creator ciphertext ek khs ctx errors = (ctx', Inr d) \<and> or_empty d = data"
    "(\<exists>ctx' d. try_holders creator ciphertext ek khs ctx errors = (ctx', Inr d) \<and> or_empty d = data) \<or>
      (\<exists>ctx' n. try_holders creator ciphertext ek khs ctx errors = (ctx', Inl n))" by blast+
qed

lemma mke_keys_loop_opens:
  assumes "\<forall>ek \<in> set eks. framable ek" "\<forall>ek \<in> set eks. \<forall>kh \<in> set (mke_keyholder mke). sound_holder kh key ek"
    and "\<exists>ek \<in> set eks. \<exists>kh \<in> set (mke_keyholder mke). opens_key kh key ek"
    and "mke_creator mke (Some key) = Inr (sc', k')" "\<And>ctx. \<exists>ctx' d. be_Decode sc' ctx ciphertext = (ctx', d, None) \<and> or_empty d = data"
  shows "\<exists>ctx' d. mke_keys_loop mke ciphertext (concat (map frame eks)) ctx errors = (ctx', d, None) \<and> or_empty d = data"
  using assms(1-3)
proof (induction eks arbitrary: ctx errors)
  case (Cons ek eks)
  have step: "mke_keys_loop mke ciphertext (concat (map frame (ek # eks))) ctx errors =
      (case try_holders (mke_creator mke) ciphertext ek (mke_keyholder mke) ctx errors of
         (ctx, Inr cleartext) \<Rightarrow> (ctx, cleartext, None)
       | (ctx, Inl errors) \<Rightarrow> mke_keys_loop mke ciphertext (concat (map frame eks)) ctx errors)"
    using next_frame_frame [of ek "concat (map frame eks)"] Cons.prems(1) by (subst mke_keys_loop.simps) simp
  note t = try_holders_sound [where ek = ek and khs = "mke_keyholder mke" and creator = "mke_creator mke" and ctx = ctx and errors = errors,
    OF _ assms(4,5)]
  show ?case
  proof (cases "\<exists>kh \<in> set (mke_keyholder mke). opens_key kh key ek")
    case True
    then show ?thesis unfolding step using t(1) Cons.prems(2) by fastforce
  next
    case False
    then have "\<exists>ctx' d. mke_keys_loop mke ciphertext (concat (map frame eks)) c n = (ctx', d, None) \<and> or_empty d = data" for c n
      using Cons by simp
    then show ?thesis unfolding step using t(2) Cons.prems(2) by fastforce
  qed
qed simp

text \<open>C21: A message encoded for several key holders is decoded, to the data it was made of, by any encoder that has at
  least one key holder able to open one of the encrypted keys, provided that no key holder opens a key wrongly, that
  the factory makes from the key a cipher that restores the message, and that no part is empty or too long.\<close>

theorem MultiKey_roundtrip:
  assumes "mke_creator enc None = Inr (sc, key)" "be_Encode sc data = Inr cipherdata" "framable cipherdata"
    and "list_all2 (\<lambda>kh ek. be_Encode kh key = Inr ek \<and> framable ek) (mke_keyholder enc) eks"
    and "list_all (\<lambda>ek. list_all (\<lambda>kh. sound_holder kh key ek) (mke_keyholder dec)) eks"
    and "list_ex (\<lambda>ek. list_ex (\<lambda>kh. opens_key kh key ek) (mke_keyholder dec)) eks"
    and "mke_creator dec (Some key) = Inr (sc', k')" "restores sc sc'"
  shows "\<exists>x ctx' d. MultiKey_Encode enc data = Inr x \<and> MultiKey_Decode dec ctx x = (ctx', d, None) \<and> or_empty d = data"
proof -
  have add: "mke_add_keys khs key r = Inr (r @ concat (map frame eks))"
    if "list_all2 (\<lambda>kh ek. be_Encode kh key = Inr ek \<and> framable ek) khs eks" for khs eks r
    using that by (induction arbitrary: r rule: list_all2_induct) simp_all
  define x where "x = frame cipherdata @ concat (map frame eks)"
  have e: "MultiKey_Encode enc data = Inr x"
    using assms(1,2) add [OF assms(4)] by (simp add: MultiKey_Encode_def x_def)
  have fr: "\<forall>ek \<in> set eks. framable ek" using assms(4) by (auto simp: list_all2_conv_all_nth in_set_conv_nth)
  have sc: "\<exists>ctx' d. be_Decode sc' ctx cipherdata = (ctx', d, None) \<and> or_empty d = data" for ctx
    using assms(2,8) binary_encoder.decodes [of "be_Encode sc" "be_Decode sc'" data cipherdata ctx] by (simp add: restores_def)
  have "\<exists>ctx' d. mke_keys_loop dec cipherdata (concat (map frame eks)) ctx 0 = (ctx', d, None) \<and> or_empty d = data"
    using assms(5,6) by (intro mke_keys_loop_opens [OF fr _ _ assms(7) sc]) (auto simp: list_all_iff list_ex_iff)
  then show ?thesis using e next_frame_frame [OF assms(3), of "concat (map frame eks)"]
    by (auto simp: MultiKey_Decode_def x_def)
qed

definition marked_cipher :: "byte \<Rightarrow> BinaryEncoder" where
  "marked_cipher k = Plain \<lparr>pe_Encode = (\<lambda>d. Inr (k # d)),
     pe_Decode = (\<lambda>ctx x. case x of [] \<Rightarrow> (ctx, None, Some (TokenError ''short''))
       | b # d \<Rightarrow> if b = k then (ctx, Some d, None) else (ctx, None, Some (TokenError ''wrong key''))),
     pe_aad = None\<rparr>"

definition demo_factory :: CryptoFactory where
  "demo_factory key = (case key of None \<Rightarrow> Inr (marked_cipher 9, [9]) | Some k \<Rightarrow> Inr (marked_cipher (hd k), k))"

theorem MultiKey_roundtrip_witness:
  "\<exists>x ctx' d. MultiKey_Encode \<lparr>mke_creator = demo_factory, mke_keyholder = [marked_cipher 1, marked_cipher 2]\<rparr> [5, 6] = Inr x \<and>
    MultiKey_Decode \<lparr>mke_creator = demo_factory, mke_keyholder = [marked_cipher 2]\<rparr> Map.empty x = (ctx', d, None) \<and> or_empty d = [5, 6]"
proof (rule MultiKey_roundtrip [where sc = "marked_cipher 9" and key = "[9]" and sc' = "marked_cipher 9" and k' = "[9]" and
      cipherdata = "[9, 5, 6]" and eks = "[[1, 9], [2, 9]]"])
  show "restores (marked_cipher 9) (marked_cipher 9)"
    unfolding restores_def by unfold_locales (auto simp: marked_cipher_def)
qed (simp_all add: demo_factory_def marked_cipher_def framable_def sound_holder_def opens_key_def)

end
