(* ===== verification/Config_Multi.thy ===== *)
theory Config_Multi imports Config_Simple begin

text \<open>
  The store that keeps an object in one of several formats (\<^verbatim>\<open>lib/config/multi.go\<close>) and the selection of formats by
  name and by extension (\<^verbatim>\<open>lib/config/marshal/select.go\<close>). \<^const>\<open>None\<close> as the result of an operation is a panic. A
  callback can panic inside a listing, so the state that callbacks act on is an option there: \<^const>\<open>None\<close> once one has.
  The target of an \<^verbatim>\<open>Unmarshal\<close> is a pointer: it is passed on from one format to the next, as it was left.
\<close>

section \<open>Choosing a format\<close>

text \<open>\<^verbatim>\<open>path.Ext\<close>: from the last dot of the last element on.\<close>

definition path_Ext :: "string \<Rightarrow> string" where
  "path_Ext path =
    (let base = rev (takeWhile (\<lambda>c. c \<noteq> CHR ''/'') (rev path)) in
     case LastIndexByte base (CHR ''.'') of None \<Rightarrow> [] | Some i \<Rightarrow> drop i base)"

fun ByFormat :: "'v FileMarshaller list \<Rightarrow> string \<Rightarrow> 'v FileMarshaller option" where
  "ByFormat [] format = None"
| "ByFormat (candidate # fm) format = (if fm_Extension candidate = format then Some candidate else ByFormat fm format)"

definition ByFilePathExtension :: "'v FileMarshaller list \<Rightarrow> string \<Rightarrow> 'v FileMarshaller option" where
  "ByFilePathExtension fm path =
    (let ext = TrimPrefix (path_Ext path) ''.'' in if ext = [] then None else ByFormat fm ext)"

definition Formats :: "'v FileMarshaller list \<Rightarrow> string list" where
  "Formats fm = map fm_Extension fm"

definition unknown_extension :: cfg_error where
  "unknown_extension = Failed ''could not determine format from path - unknown extension?''"

definition marshallers_Marshal :: "'v FileMarshaller list \<Rightarrow> string \<Rightarrow> 'v \<Rightarrow> cfg_error + bytes" where
  "marshallers_Marshal fm path v =
    (case ByFilePathExtension fm path of None \<Rightarrow> Inl unknown_extension | Some m \<Rightarrow> fm_Marshal m v)"

definition marshallers_MarshalDefault :: "'v FileMarshaller list \<Rightarrow> string \<Rightarrow> 'v FileMarshaller \<Rightarrow> 'v \<Rightarrow> cfg_error + bytes" where
  "marshallers_MarshalDefault fm path def v =
    (case ByFilePathExtension fm path of None \<Rightarrow> fm_Marshal def v | Some m \<Rightarrow> fm_Marshal m v)"

definition marshallers_Unmarshal :: "'v FileMarshaller list \<Rightarrow> string \<Rightarrow> bytes \<Rightarrow> 'v \<Rightarrow> 'v decoded" where
  "marshallers_Unmarshal fm path data v =
    (case ByFilePathExtension fm path of None \<Rightarrow> (Some unknown_extension, v) | Some m \<Rightarrow> fm_Unmarshal m data v)"

definition marshallers_UnmarshalDefault ::
  "'v FileMarshaller list \<Rightarrow> string \<Rightarrow> bytes \<Rightarrow> 'v FileMarshaller \<Rightarrow> 'v \<Rightarrow> 'v decoded" where
  "marshallers_UnmarshalDefault fm path data def v =
    (case ByFilePathExtension fm path of None \<Rightarrow> fm_Unmarshal def data v | Some m \<Rightarrow> fm_Unmarshal m data v)"

fun UnmarshalAsset :: "'v FileMarshaller list \<Rightarrow> string \<Rightarrow> (string \<rightharpoonup> bytes) \<Rightarrow> 'v \<Rightarrow> 'v decoded" where
  "UnmarshalAsset [] name assets v = (Some ErrNotExist, v)"
| "UnmarshalAsset (known # fm) name assets v =
    (case assets (name @ ''.'' @ fm_Extension known) of
       Some asset \<Rightarrow> fm_Unmarshal known asset v
     | None \<Rightarrow> UnmarshalAsset fm name assets v)"

text \<open>\<open>read_file\<close> is the file system.\<close>

fun UnmarshalFilePrefix_loop :: "(string \<Rightarrow> cfg_error + bytes) \<Rightarrow> 'v FileMarshaller list \<Rightarrow> string \<Rightarrow> 'v \<Rightarrow> cfg_error option list
    \<Rightarrow> string \<times> 'v decoded" where
  "UnmarshalFilePrefix_loop read_file [] prefix v errs = ([], multierror_New errs, v)"
| "UnmarshalFilePrefix_loop read_file (candidate # fm) prefix v errs =
    (let name = prefix @ ''.'' @ fm_Extension candidate in
     case read_file name of
       Inl err \<Rightarrow> UnmarshalFilePrefix_loop read_file fm prefix v (errs @ [Some err])
     | Inr data \<Rightarrow>
       (case fm_Unmarshal candidate data v of
          (Some err, v) \<Rightarrow> UnmarshalFilePrefix_loop read_file fm prefix v (errs @ [Some err])
        | (None, v) \<Rightarrow> (name, None, v)))"

definition UnmarshalFilePrefix :: "(string \<Rightarrow> cfg_error + bytes) \<Rightarrow> 'v FileMarshaller list \<Rightarrow> string \<Rightarrow> 'v
    \<Rightarrow> string \<times> 'v decoded" where
  "UnmarshalFilePrefix read_file fm prefix v = UnmarshalFilePrefix_loop read_file fm prefix v []"

section \<open>The store\<close>

record ('l, 'v, 's) MultiFormat =
  mf_loader :: "('l, 'v, 's option) Loader"
  mf_marshaller :: "'v FileMarshaller list"
  mf_keyCodec :: KeyCodec

definition OpenMulti :: "'v FileMarshaller list \<Rightarrow> ('l, 'v, 's option) Loader \<Rightarrow> 'v FileMarshaller list \<Rightarrow> KeyCodec option
    \<Rightarrow> ('l, 'v, 's) MultiFormat" where
  "OpenMulti Known ld marshaller codec =
    \<lparr>mf_loader = ld, mf_marshaller = (if length marshaller = 0 then Known else marshaller),
     mf_keyCodec = (case codec of None \<Rightarrow> DefaultKeyCodec | Some c \<Rightarrow> c)\<rparr>"

definition FormatKey :: "string \<Rightarrow> 'v FileMarshaller \<Rightarrow> 'v descriptor" where
  "FormatKey key m = multiDescriptor (Some m) key"

definition mf_pathForKey :: "('l, 'v, 's) MultiFormat \<Rightarrow> string \<Rightarrow> 'v FileMarshaller option \<Rightarrow> cfg_error + string" where
  "mf_pathForKey ss key m =
    (case kc_Encode (mf_keyCodec ss) key of
       Inl err \<Rightarrow> Inl err
     | Inr encoded \<Rightarrow> Inr (case m of None \<Rightarrow> encoded | Some m \<Rightarrow> encoded @ ''.'' @ fm_Extension m))"

definition mf_parseDesc :: "('l, 'v, 's) MultiFormat \<Rightarrow> 'v descriptor option \<Rightarrow> cfg_error + string \<times> 'v FileMarshaller option" where
  "mf_parseDesc ss desc =
    (case desc of
       Some (Key k) \<Rightarrow> Inr (k, None)
     | Some (formatHintDescriptor k f) \<Rightarrow>
       (case ByFormat (mf_marshaller ss) f of
          None \<Rightarrow> Inl (Failed ''unknown descriptor format'')
        | Some m \<Rightarrow> (case mf_pathForKey ss k (Some m) of Inl err \<Rightarrow> Inl err | Inr name \<Rightarrow> Inr (name, Some m)))
     | Some (multiDescriptor m k) \<Rightarrow>
       (case mf_pathForKey ss k m of Inl err \<Rightarrow> Inl err | Inr name \<Rightarrow> Inr (name, m))
     | _ \<Rightarrow> Inl (Failed ''unknown descriptor type''))"

definition MultiFormat_Marshal :: "('l, 'v, 's) MultiFormat \<Rightarrow> 'v descriptor option \<Rightarrow> 'v \<Rightarrow> 'l \<Rightarrow> cfg_error option \<times> 'l" where
  "MultiFormat_Marshal ss desc v l =
    (case mf_parseDesc ss desc of
       Inl err \<Rightarrow> (Some err, l)
     | Inr (name, m) \<Rightarrow>
       (case (case m of
                Some m \<Rightarrow> Inr (name, m)
              | None \<Rightarrow> let m = mf_marshaller ss ! 0 in
                (case mf_pathForKey ss name (Some m) of Inl err \<Rightarrow> Inl err | Inr name \<Rightarrow> Inr (name, m))) of
          Inl err \<Rightarrow> (Some err, l)
        | Inr (name, m) \<Rightarrow>
          (case fm_Marshal m v of Inl err \<Rightarrow> (Some err, l) | Inr data \<Rightarrow> ld_Write (mf_loader ss) l name data)))"

text \<open>The loop of \<^verbatim>\<open>Delete\<close> for a plain key, with the number of files that did not exist and the errors.\<close>

fun mf_Delete_loop :: "('l, 'v, 's) MultiFormat \<Rightarrow> string \<Rightarrow> 'v FileMarshaller list \<Rightarrow> nat \<Rightarrow> cfg_error option list \<Rightarrow> 'l
    \<Rightarrow> nat \<times> cfg_error option list \<times> 'l" where
  "mf_Delete_loop ss name [] nonexisting errors l = (nonexisting, errors, l)"
| "mf_Delete_loop ss name (m # ms) nonexisting errors l =
    (case mf_pathForKey ss name (Some m) of
       Inl err \<Rightarrow> mf_Delete_loop ss name ms nonexisting (errors @ [Some err]) l
     | Inr fullname \<Rightarrow>
       (case ld_Delete (mf_loader ss) l fullname of
          (None, l) \<Rightarrow> mf_Delete_loop ss name ms nonexisting errors l
        | (Some err, l) \<Rightarrow>
          if IsNotExist err then mf_Delete_loop ss name ms (nonexisting + 1) errors l
          else mf_Delete_loop ss name ms nonexisting (errors @ [Some err]) l))"

definition MultiFormat_Delete :: "('l, 'v, 's) MultiFormat \<Rightarrow> 'v descriptor option \<Rightarrow> 'l \<Rightarrow> cfg_error option \<times> 'l" where
  "MultiFormat_Delete ss desc l =
    (case mf_parseDesc ss desc of
       Inl err \<Rightarrow> (Some err, l)
     | Inr (name, Some m) \<Rightarrow> ld_Delete (mf_loader ss) l name
     | Inr (name, None) \<Rightarrow>
       let (nonexisting, errors, l) = mf_Delete_loop ss name (mf_marshaller ss) 0 [] l in
       (if nonexisting = length (mf_marshaller ss) then Some ErrNotExist else multierror_New errors, l))"

text \<open>\<open>load\<close> reads before it asks the format for its extension: without a format it panics only then.\<close>

definition mf_load :: "('l, 'v, 's) MultiFormat \<Rightarrow> 'v FileMarshaller option \<Rightarrow> string \<Rightarrow> 'v \<Rightarrow> 'l
    \<Rightarrow> ('v descriptor option \<times> 'v decoded) option" where
  "mf_load ss m path v l =
    (case ld_Read (mf_loader ss) l path of
       Inl err \<Rightarrow> Some (None, Some err, v)
     | Inr data \<Rightarrow>
       (case m of
          None \<Rightarrow> None
        | Some f \<Rightarrow>
          (case kc_Decode (mf_keyCodec ss) (TrimSuffix path (''.'' @ fm_Extension f)) of
             Inl err \<Rightarrow> Some (None, Some err, v)
           | Inr key \<Rightarrow> Some (Some (multiDescriptor m key), if length data = 0 then (None, v) else fm_Unmarshal f data v))))"

fun mf_Unmarshal_loop :: "('l, 'v, 's) MultiFormat \<Rightarrow> string \<Rightarrow> 'v FileMarshaller list \<Rightarrow> 'v \<Rightarrow> 'l
    \<Rightarrow> 'v descriptor option \<times> cfg_error option \<Rightarrow> ('v descriptor option \<times> 'v decoded) option" where
  "mf_Unmarshal_loop ss key [] v l (result, err) = Some (result, err, v)"
| "mf_Unmarshal_loop ss key (m # ms) v l prev =
    (case mf_pathForKey ss key (Some m) of
       Inl err \<Rightarrow> Some (None, Some err, v)
     | Inr path \<Rightarrow>
       (case mf_load ss (Some m) path v l of
          None \<Rightarrow> None
        | Some (result, None, v) \<Rightarrow> Some (result, None, v)
        | Some (result, Some err, v) \<Rightarrow> mf_Unmarshal_loop ss key ms v l (result, Some err)))"

definition MultiFormat_Unmarshal :: "('l, 'v, 's) MultiFormat \<Rightarrow> 'v descriptor option \<Rightarrow> 'v \<Rightarrow> 'l
    \<Rightarrow> ('v descriptor option \<times> 'v decoded) option" where
  "MultiFormat_Unmarshal ss desc v l =
    (case desc of
       None \<Rightarrow> Some (None, Some nil_descriptor, v)
     | Some (Key key) \<Rightarrow> mf_Unmarshal_loop ss key (mf_marshaller ss) v l (None, None)
     | Some (multiDescriptor m k) \<Rightarrow>
       (case mf_pathForKey ss k m of Inl err \<Rightarrow> Some (None, Some err, v) | Inr path \<Rightarrow> mf_load ss m path v l)
     | Some (formatHintDescriptor k f) \<Rightarrow>
       (case ByFormat (mf_marshaller ss) f of
          None \<Rightarrow> Some (None, Some (Failed ''unknown descriptor format''), v)
        | Some m \<Rightarrow>
          (case mf_pathForKey ss k (Some m) of Inl err \<Rightarrow> Some (None, Some err, v) | Inr path \<Rightarrow> mf_load ss (Some m) path v l))
     | _ \<Rightarrow> Some (None, Some (Failed ''unknown descriptor type''), v))"

definition newMultiDescriptorFromPath :: "string \<Rightarrow> 'v FileMarshaller list \<Rightarrow> KeyCodec \<Rightarrow> cfg_error + ('v FileMarshaller option \<times> string)" where
  "newMultiDescriptorFromPath path marshaller codec =
    (let m = ByFilePathExtension marshaller path;
         key = (case m of None \<Rightarrow> path | Some f \<Rightarrow> TrimSuffix path (''.'' @ fm_Extension f))
     in case kc_Decode codec key of Inl err \<Rightarrow> Inl err | Inr key \<Rightarrow> Inr (m, key))"

text \<open>A callback that panics leaves the state \<^const>\<open>None\<close> and stops the listing.\<close>

definition on_state :: "('s \<Rightarrow> cfg_error option \<times> 's) \<Rightarrow> 's option \<Rightarrow> cfg_error option \<times> 's option" where
  "on_state f s = (case s of None \<Rightarrow> (Some (Failed ''panic''), None) | Some s \<Rightarrow> map_prod id Some (f s))"

definition mf_list_callback :: "('l, 'v, 's) MultiFormat \<Rightarrow> ('v, 's) ListOptions \<Rightarrow> ('v, 's option) data_callback option" where
  "mf_list_callback ss opts =
    (case lo_Unmarshal opts of
       Some u \<Rightarrow> Some (\<lambda>desc data s. case newMultiDescriptorFromPath (desc_Key desc) (mf_marshaller ss) (mf_keyCodec ss) of
           Inl err \<Rightarrow> (Some err, s)
         | Inr (None, key) \<Rightarrow> (Some (Failed ''panic''), None)
         | Inr (Some f, key) \<Rightarrow> on_state (UnmarshalAndCall u (multiDescriptor (Some f) key) data (fm_Unmarshal f)) s)
     | None \<Rightarrow>
       (case lo_Data opts of
          Some fn \<Rightarrow> Some (\<lambda>desc data s. case newMultiDescriptorFromPath (desc_Key desc) (mf_marshaller ss) (mf_keyCodec ss) of
              Inl err \<Rightarrow> (Some err, s)
            | Inr (m, key) \<Rightarrow> on_state (fn (multiDescriptor m key) data) s)
        | None \<Rightarrow> None))"

fun mf_descs :: "('l, 'v, 's) MultiFormat \<Rightarrow> string list \<Rightarrow> cfg_error + 'v descriptor list" where
  "mf_descs ss [] = Inr []"
| "mf_descs ss (name # names) =
    (case newMultiDescriptorFromPath name (mf_marshaller ss) (mf_keyCodec ss) of
       Inl err \<Rightarrow> Inl err
     | Inr (m, key) \<Rightarrow> (case mf_descs ss names of Inl err \<Rightarrow> Inl err | Inr descs \<Rightarrow> Inr (multiDescriptor m key # descs)))"

definition mf_loaderOpts :: "('l, 'v, 's) MultiFormat \<Rightarrow> ('v, 's) ListOptions \<Rightarrow> cfg_error + ('v, 's option) ListOptions" where
  "mf_loaderOpts ss opts =
    (let lopts = \<lparr>lo_Limit = lo_Limit opts, lo_Offset = lo_Offset opts, lo_StartFrom = lo_StartFrom opts,
           lo_Unmarshal = None, lo_Data = mf_list_callback ss opts\<rparr>
     in if lo_StartFrom opts \<noteq> []
        then (case kc_Encode (mf_keyCodec ss) (lo_StartFrom opts) of
                Inl err \<Rightarrow> Inl err
              | Inr encoded \<Rightarrow> Inr (lopts\<lparr>lo_StartFrom := encoded\<rparr>))
        else Inr lopts)"

text \<open>The fallback of \<^verbatim>\<open>Finalize\<close> is switched off by the flags, so no value is decoded after the listing.\<close>

definition MultiFormat_List :: "('l, 'v, 's) MultiFormat \<Rightarrow> ('v, 's) ListModifier list \<Rightarrow> 'l \<Rightarrow> 's
    \<Rightarrow> ((cfg_error + 'v descriptor list) \<times> 's) option" where
  "MultiFormat_List ss mods l s =
    (case ListModifiers_Apply mods no_options of
       Inl err \<Rightarrow> Some (Inl err, s)
     | Inr opts \<Rightarrow>
       (case mf_loaderOpts ss opts of
          Inl err \<Rightarrow> Some (Inl err, s)
        | Inr lopts \<Rightarrow>
          (case ld_List (mf_loader ss) [WithListOptions lopts] l (Some s) of
             Some (Inl err, Some s) \<Rightarrow> Some (Inl err, s)
           | Some (Inr names, Some s) \<Rightarrow>
             if lo_Data lopts \<noteq> None \<and> length names = 0 then Some (Inr [], s)
             else (case mf_descs ss names of
               Inl err \<Rightarrow> Some (Inl err, s)
             | Inr descs \<Rightarrow> ListOptions_Finalize opts
                 (\<lambda>desc v. case MultiFormat_Unmarshal ss (Some desc) v l of None \<Rightarrow> (Some (Failed ''panic''), v) | Some (d, r) \<Rightarrow> r) descs
                 (OptimizedStartFrom OR OptimizedOffsetLimit OR OptimizedUnmarshal) s)
           | _ \<Rightarrow> None)))"

section \<open>What it does with a key\<close>

definition format_file :: "string \<Rightarrow> 'v FileMarshaller \<Rightarrow> string" where
  "format_file k m = EncodeKey k @ ''.'' @ fm_Extension m"

text \<open>
  Reading a key in one format; the target as a number of formats leave it, one after the other; and whether a
  format succeeds after those before it.
\<close>

definition attempt :: "(string \<rightharpoonup> bytes) \<Rightarrow> string \<Rightarrow> 'v \<Rightarrow> 'v FileMarshaller \<Rightarrow> 'v descriptor option \<times> 'v decoded" where
  "attempt files k v m =
    (case files (format_file k m) of
       None \<Rightarrow> (None, Some ErrNotExist, v)
     | Some d \<Rightarrow> (Some (multiDescriptor (Some m) k), if d = [] then (None, v) else fm_Unmarshal m d v))"

definition left_by :: "(string \<rightharpoonup> bytes) \<Rightarrow> string \<Rightarrow> 'v FileMarshaller list \<Rightarrow> 'v \<Rightarrow> 'v" where
  "left_by files k ms v = foldl (\<lambda>v m. snd (snd (attempt files k v m))) v ms"

definition attempt_at :: "(string \<rightharpoonup> bytes) \<Rightarrow> string \<Rightarrow> 'v FileMarshaller list \<Rightarrow> 'v \<Rightarrow> nat \<Rightarrow> 'v descriptor option \<times> 'v decoded" where
  "attempt_at files k ms v i = attempt files k (left_by files k (take i ms) v) (ms ! i)"

lemma attempt_at_simps:
  "attempt_at files k (m # ms) v 0 = attempt files k v m"
  "attempt_at files k (m # ms) v (Suc i) = attempt_at files k ms (snd (snd (attempt files k v m))) i"
  by (simp_all add: attempt_at_def left_by_def)

lemma find_upt_Suc: "find P [0..<Suc n] = (if P 0 then Some 0 else map_option Suc (find (\<lambda>i. P (Suc i)) [0..<n]))"
proof -
  have "find P (map Suc xs) = map_option Suc (find (\<lambda>i. P (Suc i)) xs)" for xs by (induction xs) simp_all
  then show ?thesis by (simp only: upt_conv_Cons map_Suc_upt [symmetric] zero_less_Suc find.simps)
qed

locale multi_store = loader "mf_loader ss" inv contents
  for ss :: "('l, 'v, 's) MultiFormat" and inv :: "'l \<Rightarrow> bool" and contents :: "'l \<Rightarrow> string \<rightharpoonup> bytes" +
  assumes codec: "mf_keyCodec ss = DefaultKeyCodec"
begin

lemma path: "mf_pathForKey ss k (Some m) = Inr (format_file k m)"
  by (simp add: mf_pathForKey_def codec DefaultKeyCodec_def format_file_def)

lemma load: "inv l \<Longrightarrow> mf_load ss (Some m) (format_file k m) v l = Some (attempt (contents l) k v m)"
  using TrimSuffix_append [of "EncodeKey k" "''.'' @ fm_Extension m"]
  by (simp add: mf_load_def attempt_def Read_contents codec DefaultKeyCodec_def format_file_def DecodeKey_EncodeKey split: option.splits)

lemma Unmarshal_loop: "inv l \<Longrightarrow> mf_Unmarshal_loop ss k ms v l prev =
    Some (case find (\<lambda>i. fst (snd (attempt_at (contents l) k ms v i)) = None) [0..<length ms] of
      Some i \<Rightarrow> attempt_at (contents l) k ms v i
    | None \<Rightarrow> if ms = [] then (fst prev, snd prev, v) else attempt_at (contents l) k ms v (length ms - 1))"
proof (induction ms arbitrary: v prev)
  case Nil
  then show ?case by (cases prev) simp
next
  case (Cons m ms)
  obtain r e u where a: "attempt (contents l) k v m = (r, e, u)" by (metis prod_cases3)
  have step: "mf_Unmarshal_loop ss k (m # ms) v l prev =
      (if e = None then Some (r, e, u) else mf_Unmarshal_loop ss k ms u l (r, e))"
    using a by (cases e) (simp_all add: path load [OF Cons.prems])
  show ?case
  proof (cases e)
    case None
    then show ?thesis unfolding step using a by (simp add: find_upt_Suc attempt_at_simps del: upt_Suc)
  next
    case (Some x)
    have last: "attempt_at (contents l) k (m # ms) v (length (m # ms) - 1) =
        (if ms = [] then (r, e, u) else attempt_at (contents l) k ms u (length ms - 1))"
      by (cases ms) (simp_all add: attempt_at_simps a)
    have rest: "attempt_at (contents l) k (m # ms) v (Suc i) = attempt_at (contents l) k ms u i" for i
      by (simp add: attempt_at_simps a)
    have "fst (snd (attempt_at (contents l) k (m # ms) v 0)) \<noteq> None" by (simp add: attempt_at_simps a Some)
    then have "find (\<lambda>i. fst (snd (attempt_at (contents l) k (m # ms) v i)) = None) [0..<length (m # ms)] =
        map_option Suc (find (\<lambda>i. fst (snd (attempt_at (contents l) k ms u i)) = None) [0..<length ms])"
      by (simp only: list.size(4) add_Suc_right add_0_right find_upt_Suc rest if_False)
    then show ?thesis unfolding step last using Some Cons.IH [OF Cons.prems, of u "(r, e)"]
      by (simp add: rest del: mf_Unmarshal_loop.simps upt_Suc split: option.split)
  qed
qed

lemma Delete_loop: "inv l \<Longrightarrow> \<forall>l n. ld_Delete (mf_loader ss) l n = (if n \<in> dom (contents l) then None else Some ErrNotExist, snd (ld_Delete (mf_loader ss) l n)) \<Longrightarrow>
    \<exists>l' n. mf_Delete_loop ss k ms c es l = (c + n, es, l') \<and> inv l' \<and> n \<le> length ms \<and>
      (n = length ms \<longleftrightarrow> format_file k ` set ms \<inter> dom (contents l) = {}) \<and>
      contents l' = (contents l) |` (- format_file k ` set ms)"
proof (induction ms arbitrary: c l)
  case Nil
  then show ?case by (simp add: restrict_map_def)
next
  case (Cons m ms)
  define f where "f = format_file k m"
  obtain l1 where d: "ld_Delete (mf_loader ss) l f = (if f \<in> dom (contents l) then None else Some ErrNotExist, l1)"
    using Cons.prems(2) by blast
  have l1: "inv l1" "contents l1 = (contents l)(f := None)"
    using d Delete_ok [OF Cons.prems(1), of f l1] Delete_err [OF Cons.prems(1), of f ErrNotExist l1]
    by (auto split: if_splits)
  define c1 where "c1 = (if f \<in> dom (contents l) then c else c + 1)"
  have step: "mf_Delete_loop ss k (m # ms) c es l = mf_Delete_loop ss k ms c1 es l1"
    using d by (simp add: path c1_def f_def IsNotExist_def split: if_splits)
  obtain l' n where ih: "mf_Delete_loop ss k ms c1 es l1 = (c1 + n, es, l')" "inv l'" "n \<le> length ms"
    "n = length ms \<longleftrightarrow> format_file k ` set ms \<inter> dom (contents l1) = {}" "contents l' = (contents l1) |` (- format_file k ` set ms)"
    using Cons.IH [OF l1(1) Cons.prems(2), of c1] by blast
  have r: "contents l' = (contents l) |` (- format_file k ` set (m # ms))"
    unfolding ih(5) l1(2) f_def by (auto simp: restrict_map_def fun_eq_iff)
  show ?case
  proof (cases "f \<in> dom (contents l)")
    case True
    then show ?thesis unfolding step using ih r by (intro exI [of _ l'] exI [of _ n]) (auto simp: c1_def f_def)
  next
    case False
    then have "contents l1 = contents l" using l1(2) by (auto simp: fun_upd_idem)
    then show ?thesis unfolding step using ih r False by (intro exI [of _ l'] exI [of _ "Suc n"]) (auto simp: c1_def f_def)
  qed
qed

end

interpretation multi_memory: multi_store "OpenMulti Known memory_ops ms None" memory_inv memory_contents for Known ms
  by (simp add: multi_store_def multi_store_axioms_def OpenMulti_def memory.loader_axioms)

text \<open>C40: A key of a multi-format store over the in-memory loader: marshalling writes the file of the preferred format
  and no other; unmarshalling gives what the first format in order of preference gives whose file exists and decodes,
  with a descriptor of exactly that file, decoding into the target as the failed formats before it left it,
  and the last format's error when there is none; deleting removes the files
  of all formats and nothing else, and says \<open>ErrNotExist\<close> exactly when there was none.\<close>

theorem MultiFormat_key_exact:
  fixes ss :: "(memory_Loader, 'v, 's) MultiFormat"
  assumes "ss = OpenMulti Known memory_ops ms None" "memory_inv l" "ms = m0 # rest"
  shows "MultiFormat_Marshal ss (Some (Key k)) v l =
      (case fm_Marshal m0 v of Inl e \<Rightarrow> (Some e, l) | Inr d \<Rightarrow> memory_Write l (format_file k m0) d) \<and>
    MultiFormat_Unmarshal ss (Some (Key k)) w l =
      Some (case find (\<lambda>i. fst (snd (attempt_at (memory_contents l) k ms w i)) = None) [0..<length ms] of
        Some i \<Rightarrow> attempt_at (memory_contents l) k ms w i
      | None \<Rightarrow> attempt_at (memory_contents l) k ms w (length ms - 1)) \<and>
    (\<exists>l'. MultiFormat_Delete ss (Some (Key k)) l =
        (if format_file k ` set ms \<inter> dom (memory_contents l) = {} then Some ErrNotExist else None, l') \<and>
      memory_inv l' \<and> memory_contents l' = (memory_contents l) |` (- format_file k ` set ms))"
proof (intro conjI)
  have st: "multi_store ss memory_inv memory_contents" unfolding assms(1) by (rule multi_memory.multi_store_axioms)
  have ld: "mf_loader ss = memory_ops" "mf_marshaller ss = ms" by (simp_all add: assms(1,3) OpenMulti_def)
  have m0: "mf_marshaller ss ! 0 = m0" by (simp add: ld assms(3))
  show "MultiFormat_Marshal ss (Some (Key k)) v l =
      (case fm_Marshal m0 v of Inl e \<Rightarrow> (Some e, l) | Inr d \<Rightarrow> memory_Write l (format_file k m0) d)"
    by (cases "fm_Marshal m0 v") (simp_all add: MultiFormat_Marshal_def mf_parseDesc_def m0 multi_store.path [OF st] ld(1) memory_ops_def)
  show "MultiFormat_Unmarshal ss (Some (Key k)) w l =
      Some (case find (\<lambda>i. fst (snd (attempt_at (memory_contents l) k ms w i)) = None) [0..<length ms] of
        Some i \<Rightarrow> attempt_at (memory_contents l) k ms w i
      | None \<Rightarrow> attempt_at (memory_contents l) k ms w (length ms - 1))"
    using multi_store.Unmarshal_loop [OF st assms(2), of k ms w "(None, None)"] assms(3)
    by (simp only: MultiFormat_Unmarshal_def ld option.case descriptor.case list.distinct if_False)
  have "\<forall>l n. ld_Delete (mf_loader ss) l n = (if n \<in> dom (memory_contents l) then None else Some ErrNotExist, snd (ld_Delete (mf_loader ss) l n))"
    using memory_Delete_simps(3) by (simp add: ld memory_ops_def prod_eq_iff)
  then obtain l' n where d: "mf_Delete_loop ss k ms 0 [] l = (n, [], l')" "memory_inv l'" "n \<le> length ms"
      "n = length ms \<longleftrightarrow> format_file k ` set ms \<inter> dom (memory_contents l) = {}"
      "memory_contents l' = (memory_contents l) |` (- format_file k ` set ms)"
    using multi_store.Delete_loop [OF st assms(2), of k ms 0 "[]"] by auto
  have "MultiFormat_Delete ss (Some (Key k)) l =
        (if format_file k ` set ms \<inter> dom (memory_contents l) = {} then Some ErrNotExist else None, l')"
    using d(1,4) by (simp add: MultiFormat_Delete_def mf_parseDesc_def ld multierror_New_def)
  then show "\<exists>l'. MultiFormat_Delete ss (Some (Key k)) l =
        (if format_file k ` set ms \<inter> dom (memory_contents l) = {} then Some ErrNotExist else None, l') \<and>
      memory_inv l' \<and> memory_contents l' = (memory_contents l) |` (- format_file k ` set ms)" using d(2,5) by blast
qed

text \<open>
  Formats for the examples: a value has two fields, a file is a list of assignments, and a decode stops at the
  first field it does not know.
\<close>

fun decode_fields :: "bytes \<Rightarrow> byte \<times> byte \<Rightarrow> (byte \<times> byte) decoded" where
  "decode_fields (t # x # r) (a, b) =
    (if t = 1 then decode_fields r (x, b) else if t = 2 then decode_fields r (a, x) else (Some (Failed ''unknown field''), (a, b)))"
| "decode_fields _ v = (None, v)"

definition fields_format :: "string \<Rightarrow> (byte \<times> byte) FileMarshaller" where
  "fields_format ext = \<lparr>fm_Marshal = (\<lambda>(a, b). Inr [1, a, 2, b]), fm_Unmarshal = decode_fields, fm_Extension = ext\<rparr>"

definition demo_formats :: "(byte \<times> byte) FileMarshaller list" where
  "demo_formats = [fields_format ''one'', fields_format ''two'']"

definition demo_multi :: "(memory_Loader, byte \<times> byte, unit) MultiFormat" where
  "demo_multi = OpenMulti [] memory_ops demo_formats None"

definition demo_half :: memory_Loader where
  "demo_half = \<lparr>ml_data = [(''a.one'', [1, 1, 9, 9]), (''a.two'', [2, 2])]\<rparr>"

lemma demo_files: "format_file ''a'' (fields_format ext) = ''a.'' @ ext"
  by (simp add: format_file_def fields_format_def escaped_def)

lemma demo_Unmarshal:
  assumes "memory_inv l"
  shows "MultiFormat_Unmarshal demo_multi (Some (Key k)) v l =
    Some (case find (\<lambda>i. fst (snd (attempt_at (memory_contents l) k demo_formats v i)) = None) [0..<2] of
      Some i \<Rightarrow> attempt_at (memory_contents l) k demo_formats v i
    | None \<Rightarrow> attempt_at (memory_contents l) k demo_formats v 1)"
proof -
  have st: "multi_store demo_multi memory_inv memory_contents" unfolding demo_multi_def by (rule multi_memory.multi_store_axioms)
  have m: "mf_marshaller demo_multi = demo_formats" by (simp add: demo_multi_def OpenMulti_def demo_formats_def)
  have n: "length demo_formats = 2" "demo_formats \<noteq> []" by (simp_all add: demo_formats_def)
  have "MultiFormat_Unmarshal demo_multi (Some (Key k)) v l = mf_Unmarshal_loop demo_multi k demo_formats v l (None, None)"
    unfolding m [symmetric] by (simp add: MultiFormat_Unmarshal_def)
  moreover have "2 - 1 = (1 :: nat)" by simp
  ultimately show ?thesis unfolding multi_store.Unmarshal_loop [OF st assms] n(1) using n(2) by (simp only: if_False)
qed

lemma first_two: "[0..<2] = [0, 1 :: nat]" "2 - 1 = (1 :: nat)"
  by (simp_all add: upt_rec)

lemma demo_half_attempts:
  "attempt_at (memory_contents demo_half) ''a'' demo_formats (0, 0) 0 =
    (Some (multiDescriptor (Some (fields_format ''one'')) ''a''), Some (Failed ''unknown field''), (1, 0))"
  "attempt_at (memory_contents demo_half) ''a'' demo_formats (0, 0) 1 =
    (Some (multiDescriptor (Some (fields_format ''two'')) ''a''), None, (1, 2))"
proof -
  have f: "memory_contents demo_half ''a.one'' = Some [1, 1, 9, 9]" "memory_contents demo_half ''a.two'' = Some [2, 2]"
    by (simp_all add: memory_contents_def demo_half_def)
  have d: "fm_Unmarshal (fields_format ext) = decode_fields" for ext by (simp add: fields_format_def)
  have one: "attempt (memory_contents demo_half) ''a'' (0, 0) (fields_format ''one'') =
      (Some (multiDescriptor (Some (fields_format ''one'')) ''a''), Some (Failed ''unknown field''), (1, 0))"
    by (simp add: attempt_def demo_files f d)
  have two: "attempt (memory_contents demo_half) ''a'' (1, 0) (fields_format ''two'') =
      (Some (multiDescriptor (Some (fields_format ''two'')) ''a''), None, (1, 2))"
    by (simp add: attempt_def demo_files f d)
  show "attempt_at (memory_contents demo_half) ''a'' demo_formats (0, 0) 0 =
      (Some (multiDescriptor (Some (fields_format ''one'')) ''a''), Some (Failed ''unknown field''), (1, 0))"
    by (simp add: demo_formats_def attempt_at_simps one)
  show "attempt_at (memory_contents demo_half) ''a'' demo_formats (0, 0) 1 =
      (Some (multiDescriptor (Some (fields_format ''two'')) ''a''), None, (1, 2))"
    by (simp add: demo_formats_def attempt_at_simps one two)
qed

lemma demo_half_inv: "memory_inv demo_half"
  by (simp add: memory_inv_def demo_half_def)

theorem MultiFormat_key_exact_witness:
  "MultiFormat_Unmarshal demo_multi (Some (Key ''a'')) (0, 0) demo_half =
    Some (Some (multiDescriptor (Some (fields_format ''two'')) ''a''), None, (1, 2))"
proof -
  have n: "length demo_formats = 2" by (simp add: demo_formats_def)
  show ?thesis
    using MultiFormat_key_exact [OF demo_multi_def [unfolded demo_formats_def] demo_half_inv refl, where k = "''a''" and w = "(0, 0)", THEN conjunct2, THEN conjunct1]
    unfolding demo_formats_def [symmetric] n first_two by (simp add: demo_half_attempts del: One_nat_def)
qed

text \<open>
  A decode that fails leaves what it has assigned: the field the file of the preferred format gave stays in the value, though
  the file that is used does not have it.
\<close>

lemma failed_decode_stays:
  "MultiFormat_Unmarshal demo_multi (Some (Key ''a'')) (0, 0) demo_half =
      Some (Some (multiDescriptor (Some (fields_format ''two'')) ''a''), None, (1, 2))
    \<and> fm_Unmarshal (fields_format ''two'') [2, 2] (0, 0) = (None, (0, 2))"
proof
  show "MultiFormat_Unmarshal demo_multi (Some (Key ''a'')) (0, 0) demo_half =
      Some (Some (multiDescriptor (Some (fields_format ''two'')) ''a''), None, (1, 2))"
    unfolding demo_Unmarshal [OF demo_half_inv] first_two by (simp add: demo_half_attempts del: One_nat_def)
qed (simp add: fields_format_def)

text \<open>A file of the preferred format that does not parse is reported as not existing.\<close>

lemma corrupt_file_reported_missing:
  "MultiFormat_Unmarshal demo_multi (Some (Key ''a'')) (0, 0) \<lparr>ml_data = [(''a.one'', [9, 9])]\<rparr> = Some (None, Some ErrNotExist, (0, 0))"
proof -
  let ?c = "memory_contents \<lparr>ml_data = [(''a.one'', [9, 9])]\<rparr>"
  have i: "memory_inv \<lparr>ml_data = [(''a.one'', [9, 9])]\<rparr>" by (simp add: memory_inv_def)
  have f: "?c ''a.one'' = Some [9, 9]" "?c ''a.two'' = None" by (simp_all add: memory_contents_def)
  have one: "attempt ?c ''a'' (0, 0) (fields_format ''one'') =
      (Some (multiDescriptor (Some (fields_format ''one'')) ''a''), Some (Failed ''unknown field''), (0, 0))"
    by (simp add: attempt_def demo_files f) (simp add: fields_format_def)
  have two: "attempt ?c ''a'' (0, 0) (fields_format ''two'') = (None, Some ErrNotExist, (0, 0))"
    by (simp add: attempt_def demo_files f)
  have "attempt_at ?c ''a'' demo_formats (0, 0) 0 = (Some (multiDescriptor (Some (fields_format ''one'')) ''a''), Some (Failed ''unknown field''), (0, 0))"
    "attempt_at ?c ''a'' demo_formats (0, 0) 1 = (None, Some ErrNotExist, (0, 0))"
    by (simp_all add: demo_formats_def attempt_at_simps one two)
  then show ?thesis unfolding demo_Unmarshal [OF i] first_two by (simp del: One_nat_def)
qed

text \<open>The descriptor a listing returns for a file with no known extension does not name that file: deleting it looks
  for other files, and unmarshalling it panics.\<close>

lemma unknown_extension_descriptor:
  "newMultiDescriptorFromPath ''a.txt'' demo_formats DefaultKeyCodec = Inr (None, ''a.txt'')"
  "MultiFormat_Delete demo_multi (Some (multiDescriptor None ''a.txt'')) \<lparr>ml_data = [(''a.txt'', [4])]\<rparr> =
    (Some ErrNotExist, \<lparr>ml_data = [(''a.txt'', [4])]\<rparr>)"
  "MultiFormat_Unmarshal demo_multi (Some (multiDescriptor None ''a.txt'')) v \<lparr>ml_data = [(''a.txt'', [4])]\<rparr> = None"
proof -
  have p: "ByFilePathExtension demo_formats ''a.txt'' = None"
  proof -
    have "TrimPrefix (path_Ext ''a.txt'') ''.'' = ''txt''" by code_simp
    then show ?thesis by (simp add: ByFilePathExtension_def demo_formats_def fields_format_def)
  qed
  have k: "DecodeKey ''a.txt'' = ''a.txt''" "EncodeKey ''a.txt'' = ''a.txt''" by code_simp+
  show "newMultiDescriptorFromPath ''a.txt'' demo_formats DefaultKeyCodec = Inr (None, ''a.txt'')"
    by (simp add: newMultiDescriptorFromPath_def p DefaultKeyCodec_def k del: DecodeKey.simps)
  have d: "mf_keyCodec demo_multi = DefaultKeyCodec" "mf_marshaller demo_multi = demo_formats"
    "mf_loader demo_multi = memory_ops" by (simp_all add: demo_multi_def OpenMulti_def demo_formats_def)
  have e: "mf_pathForKey demo_multi ''a.txt'' m = Inr (case m of None \<Rightarrow> ''a.txt'' | Some m \<Rightarrow> ''a.txt.'' @ fm_Extension m)" for m
    by (simp add: mf_pathForKey_def d DefaultKeyCodec_def k del: EncodeKey.simps split: option.splits)
  show "MultiFormat_Delete demo_multi (Some (multiDescriptor None ''a.txt'')) \<lparr>ml_data = [(''a.txt'', [4])]\<rparr> =
      (Some ErrNotExist, \<lparr>ml_data = [(''a.txt'', [4])]\<rparr>)"
  proof -
    have x: "demo_formats = [fields_format ''one'', fields_format ''two'']" "fm_Extension (fields_format ext) = ext" for ext
      by (simp_all add: demo_formats_def fields_format_def)
    have "ld_Delete (mf_loader demo_multi) \<lparr>ml_data = [(''a.txt'', [4])]\<rparr> n = (Some ErrNotExist, \<lparr>ml_data = [(''a.txt'', [4])]\<rparr>)"
      if "n \<noteq> ''a.txt''" for n
      using that by (simp add: d memory_ops_def memory_Delete_def)
    then show ?thesis by (simp add: MultiFormat_Delete_def mf_parseDesc_def e d(2) x IsNotExist_def)
  qed
  show "MultiFormat_Unmarshal demo_multi (Some (multiDescriptor None ''a.txt'')) v \<lparr>ml_data = [(''a.txt'', [4])]\<rparr> = None"
    by (simp add: MultiFormat_Unmarshal_def e mf_load_def d) (simp add: memory_ops_def memory_Read_def)
qed

end
