(* ===== verification/Config_Paths.thy ===== *)
theory Config_Paths imports Config_Multi begin

text \<open>
  Resolving the paths users write (\<^verbatim>\<open>lib/config/path.go\<close>): the generic form \<^verbatim>\<open>app/namespace/key\<close>, and names relative
  to a store an application has chosen, which must stay inside it.
\<close>

section \<open>path.Clean\<close>

text \<open>
  \<^verbatim>\<open>path.Clean\<close> on the elements of a path: empty ones and dots go, a double dot takes the element before it away, or
  stays at the start of a path that is not rooted.
\<close>

fun clean_elements :: "bool \<Rightarrow> string list \<Rightarrow> string list \<Rightarrow> string list" where
  "clean_elements rooted out [] = rev out"
| "clean_elements rooted out (e # es) =
    (if e = [] \<or> e = ''.'' then clean_elements rooted out es
     else if e = ''..''
     then (case out of
             p # out' \<Rightarrow> if p = ''..'' then clean_elements rooted (''..'' # out) es else clean_elements rooted out' es
           | [] \<Rightarrow> clean_elements rooted (if rooted then [] else [''..'']) es)
     else clean_elements rooted (e # out) es)"

definition path_Clean :: "string \<Rightarrow> string" where
  "path_Clean path =
    (let rooted = HasPrefix path ''/'';
         cleaned = (if rooted then ''/'' else []) @ Join (clean_elements rooted [] (Split path (CHR ''/''))) ''/''
     in if cleaned = [] then ''.'' else cleaned)"

section \<open>Resolving\<close>

record StoreRoot =
  sr_AppName :: string
  sr_Namespaces :: "string list"

record 'v ParsedPath =
  pp_root :: StoreRoot
  pp_Descriptor :: "'v descriptor"

definition special_part :: "string \<Rightarrow> bool" where
  "special_part part \<longleftrightarrow> part = [] \<or> part = ''.'' \<or> part = ''..''"

definition DefaultParsePath :: "string \<Rightarrow> cfg_error + 'v ParsedPath" where
  "DefaultParsePath path =
    (let path = TrimSpace path in
     if path = [] then Inl (Failed ''config path cannot be empty'')
     else let parts = Split path (CHR ''/'') in
       if length parts < 2 then Inl (Failed ''config path must contain at least app/key'')
       else if list_ex special_part parts then Inl (Failed ''invalid config path'')
       else Inr \<lparr>pp_root = \<lparr>sr_AppName = hd parts, sr_Namespaces = tl (butlast parts)\<rparr>,
                 pp_Descriptor = Key (DecodeKey (last parts))\<rparr>)"

definition ResolvePathWithinStore :: "StoreRoot \<Rightarrow> string \<Rightarrow> cfg_error + 'v ParsedPath" where
  "ResolvePathWithinStore root name =
    (let name = TrimSpace name in
     if name = [] then Inl (Failed ''config path cannot be empty'')
     else if sr_AppName root = [] then Inl (Failed ''store root app name cannot be empty'')
     else if HasPrefix name ''/'' then Inl (Failed ''config path must be relative to the store'')
     else if name = ''~'' \<or> HasPrefix name ''~/'' then Inl (Failed ''config path cannot use home-relative syntax'')
     else let clean = path_Clean name in
       if clean = ''.'' \<or> clean = [] then Inl (Failed ''config path must identify a file'')
       else if clean = ''..'' \<or> HasPrefix clean ''../'' then Inl (Failed ''config path escapes the store root'')
       else let parts = Split clean (CHR ''/'') in
         if list_ex special_part parts then Inl (Failed ''invalid config path'')
         else let base = last parts;
                  ext = path_Ext base;
                  format = (if ext \<noteq> [] then TrimPrefix ext ''.'' else []);
                  key = (if ext \<noteq> [] then TrimSuffix base ext else base)
           in if key = [] then Inl (Failed ''config path must identify a file'')
              else Inr \<lparr>pp_root = \<lparr>sr_AppName = sr_AppName root, sr_Namespaces = sr_Namespaces root @ butlast parts\<rparr>,
                        pp_Descriptor = RequestedFormatKey (DecodeKey key) format\<rparr>)"

definition resolveSimpleParsedPath :: "'v ParsedPath \<Rightarrow> 'v FileMarshaller \<Rightarrow> cfg_error + 'v ParsedPath" where
  "resolveSimpleParsedPath parsed m =
    (case pp_Descriptor parsed of
       formatHintDescriptor k f \<Rightarrow>
         if f \<noteq> fm_Extension m then Inl (Failed ''config path must end in the extension of the format'')
         else Inr (parsed\<lparr>pp_Descriptor := Key k\<rparr>)
     | d \<Rightarrow> Inr (parsed\<lparr>pp_Descriptor := Key (desc_Key d)\<rparr>))"

definition resolveMultiParsedPath :: "'v ParsedPath \<Rightarrow> 'v FileMarshaller list \<Rightarrow> cfg_error + 'v ParsedPath" where
  "resolveMultiParsedPath parsed ms =
    (case pp_Descriptor parsed of
       formatHintDescriptor k f \<Rightarrow>
         (case ByFormat ms f of
            None \<Rightarrow> Inl (Failed ''config path uses unknown extension'')
          | Some m \<Rightarrow> Inr (parsed\<lparr>pp_Descriptor := FormatKey k m\<rparr>))
     | d \<Rightarrow> Inr (parsed\<lparr>pp_Descriptor := Key (desc_Key d)\<rparr>))"

section \<open>Staying inside\<close>

text \<open>
  What is meant: the elements of the name are followed from the root of the store, and no step may lead above it.
\<close>

fun walk :: "string list \<Rightarrow> string list \<Rightarrow> string list option" where
  "walk at [] = Some (rev at)"
| "walk at (e # es) =
    (if e = [] \<or> e = ''.'' then walk at es
     else if e = ''..'' then (case at of [] \<Rightarrow> None | _ # up \<Rightarrow> walk up es)
     else walk (e # at) es)"

definition resolve_spec :: "StoreRoot \<Rightarrow> string \<Rightarrow> 'v ParsedPath option" where
  "resolve_spec root name =
    (let name = TrimSpace name in
     if sr_AppName root = [] \<or> HasPrefix name ''/'' \<or> name = ''~'' \<or> HasPrefix name ''~/'' then None
     else case walk [] (Split name (CHR ''/'')) of
       None \<Rightarrow> None
     | Some path \<Rightarrow>
       if path = [] then None
       else let ext = path_Ext (last path); key = TrimSuffix (last path) ext in
         if key = [] then None
         else Some \<lparr>pp_root = root\<lparr>sr_Namespaces := sr_Namespaces root @ butlast path\<rparr>,
                    pp_Descriptor = RequestedFormatKey (DecodeKey key) (TrimPrefix ext ''.'')\<rparr>)"

lemma clean_rooted_above: "out \<noteq> [] \<Longrightarrow> last out = ''..'' \<Longrightarrow> \<exists>t. clean_elements False out es = ''..'' # t"
proof (induction es arbitrary: out)
  case Nil
  then show ?case by (metis append_butlast_last_id clean_elements.simps(1) rev.simps(2) rev_eq_Cons_iff rev_rev_ident)
next
  case (Cons e es)
  obtain p up where out: "out = p # up" using Cons.prems by (cases out) auto
  consider "e = [] \<or> e = ''.''" | "e = ''..''" "p = ''..''" | "e = ''..''" "p \<noteq> ''..''" | "e \<noteq> []" "e \<noteq> ''.''" "e \<noteq> ''..''" by blast
  then show ?case
  proof cases
    case 1
    then show ?thesis using Cons.IH [OF Cons.prems] by simp
  next
    case 2
    then show ?thesis using Cons.IH [of "''..'' # out"] Cons.prems by (simp add: out)
  next
    case 3
    then have "up \<noteq> []" "last up = ''..''" using Cons.prems by (auto simp: out split: if_splits)
    then show ?thesis using Cons.IH [of up] 3 by (simp add: out)
  next
    case 4
    then show ?thesis using Cons.IH [of "e # out"] Cons.prems by simp
  qed
qed

definition ordinary :: "string \<Rightarrow> bool" where
  "ordinary e \<longleftrightarrow> \<not> special_part e \<and> CHR ''/'' \<notin> set e"

lemma clean_walk:
  "list_all ordinary at \<Longrightarrow> list_all (\<lambda>e. CHR ''/'' \<notin> set e) es \<Longrightarrow>
    (case walk at es of Some path \<Rightarrow> clean_elements False at es = path \<and> list_all ordinary path
      | None \<Rightarrow> \<exists>t. clean_elements False at es = ''..'' # t)"
proof (induction es arbitrary: at)
  case (Cons e es)
  consider "e = [] \<or> e = ''.''" | "e = ''..''" "at = []" | p up where "e = ''..''" "at = p # up" | "e \<noteq> []" "e \<noteq> ''.''" "e \<noteq> ''..''"
    by (cases at) auto
  then show ?case
  proof cases
    case 1
    then have w: "walk at (e # es) = walk at es" "clean_elements False at (e # es) = clean_elements False at es" by auto
    have "list_all (\<lambda>e. CHR ''/'' \<notin> set e) es" using Cons.prems(2) by simp
    then show ?thesis unfolding w by (rule Cons.IH [OF Cons.prems(1)])
  next
    case 2
    then show ?thesis using clean_rooted_above [of "[''..'']" es] by simp
  next
    case 3
    have u: "ordinary p" "list_all ordinary up" using Cons.prems(1) 3 by simp_all
    have s: "list_all (\<lambda>e. CHR ''/'' \<notin> set e) es" using Cons.prems(2) by simp
    have "p \<noteq> ''..''" using u(1) by (auto simp: ordinary_def special_part_def)
    then have w: "walk at (e # es) = walk up es" "clean_elements False at (e # es) = clean_elements False up es" using 3 by simp_all
    show ?thesis unfolding w by (rule Cons.IH [OF u(2) s])
  next
    case 4
    then have "ordinary e" using Cons.prems(2) by (simp add: ordinary_def special_part_def)
    then have o': "list_all ordinary (e # at)" using Cons.prems(1) by simp
    have s: "list_all (\<lambda>e. CHR ''/'' \<notin> set e) es" using Cons.prems(2) by simp
    have w: "walk at (e # es) = walk (e # at) es" "clean_elements False at (e # es) = clean_elements False (e # at) es" using 4 by simp_all
    show ?thesis unfolding w by (rule Cons.IH [OF o' s])
  qed
qed (simp add: list_all_iff)

lemma Join_ordinary:
  assumes "path \<noteq> []" "list_all ordinary path"
  shows "Split (Join path ''/'') (CHR ''/'') = path" "Join path ''/'' \<noteq> []" "Join path ''/'' \<noteq> ''.''" "Join path ''/'' \<noteq> ''..''"
    "\<not> HasPrefix (Join path ''/'') ''../''"
proof -
  show s: "Split (Join path ''/'') (CHR ''/'') = path"
    using assms by (intro Split_Join) (auto simp: list_all_iff ordinary_def)
  have no: "p \<noteq> []" "p \<noteq> ''.''" "p \<noteq> ''..''" if "p \<in> set path" for p
    using assms(2) that by (auto simp: list_all_iff ordinary_def special_part_def)
  show "Join path ''/'' \<noteq> []" using s no(1) [of "[]"] by auto
  show "Join path ''/'' \<noteq> ''.''" using s no(2) [of "''.''"] by auto
  show "Join path ''/'' \<noteq> ''..''" using s no(3) [of "''..''"] by auto
  show "\<not> HasPrefix (Join path ''/'') ''../''"
  proof
    assume "HasPrefix (Join path ''/'') ''../''"
    then obtain r where "Join path ''/'' = ''..'' @ CHR ''/'' # r" by (auto simp: HasPrefix_iff)
    then have "path = ''..'' # Split r (CHR ''/'')" using s Split_append [of "CHR ''/''" "''..''" r] by simp
    then show False using no(3) [of "''..''"] by simp
  qed
qed

lemma TrimSuffix_Nil [simp]: "TrimSuffix s [] = s" "TrimPrefix [] p = []"
  by (simp_all add: TrimSuffix_def TrimPrefix_def HasPrefix_def)

lemma ResolvePath_outside:
  assumes "n = TrimSpace name" "\<not> (n = [] \<or> sr_AppName root = [] \<or> HasPrefix n ''/'' \<or> n = ''~'' \<or> HasPrefix n ''~/'')"
    and "walk [] (Split n (CHR ''/'')) = None"
  shows "(case ResolvePathWithinStore root name of Inl err \<Rightarrow> None | Inr parsed \<Rightarrow> Some parsed) = (None :: 'v ParsedPath option)"
proof -
  obtain t where t: "clean_elements False [] (Split n (CHR ''/'')) = ''..'' # t"
    using clean_walk [of "[]" "Split n (CHR ''/'')"] Split_parts assms(3) by (auto simp: list_all_iff)
  have "path_Clean n = (let p = Join (clean_elements False [] (Split n (CHR ''/''))) ''/'' in if p = [] then ''.'' else p)"
    using assms(2) by (simp add: path_Clean_def Let_def)
  then have "path_Clean n = ''..'' \<or> HasPrefix (path_Clean n) ''../''"
    unfolding t by (cases t) (auto simp: HasPrefix_def)
  then show ?thesis using assms(2) by (auto simp: ResolvePathWithinStore_def Let_def assms(1) [symmetric])
qed

lemma ResolvePath_inside:
  assumes "n = TrimSpace name" "\<not> (n = [] \<or> sr_AppName root = [] \<or> HasPrefix n ''/'' \<or> n = ''~'' \<or> HasPrefix n ''~/'')"
    and "walk [] (Split n (CHR ''/'')) = Some path"
  shows "(case ResolvePathWithinStore root name of Inl err \<Rightarrow> None | Inr parsed \<Rightarrow> Some parsed) = (resolve_spec root name :: 'v ParsedPath option)"
proof -
  have p: "clean_elements False [] (Split n (CHR ''/'')) = path" "list_all ordinary path"
    using clean_walk [of "[]" "Split n (CHR ''/'')"] Split_parts assms(3) by (simp_all add: list_all_iff)
  have c: "path_Clean n = (let p = Join path ''/'' in if p = [] then ''.'' else p)"
    using assms(2) by (simp add: path_Clean_def Let_def p(1))
  show ?thesis
  proof (cases "path = []")
    case True
    then have "path_Clean n = ''.''" by (simp add: c)
    then show ?thesis using assms(2,3) True
      by (simp add: ResolvePathWithinStore_def resolve_spec_def Let_def assms(1) [symmetric])
  next
    case f: False
    note j = Join_ordinary [OF f p(2)]
    have cl: "path_Clean n = Join path ''/''" using j(2) by (simp add: c)
    have "\<not> list_ex special_part path" using p(2) by (auto simp: list_all_iff list_ex_iff ordinary_def)
    then have "ResolvePathWithinStore root name =
        (let ext = path_Ext (last path);
             format = (if ext \<noteq> [] then TrimPrefix ext ''.'' else []);
             key = (if ext \<noteq> [] then TrimSuffix (last path) ext else last path)
         in if key = [] then Inl (Failed ''config path must identify a file'')
            else Inr \<lparr>pp_root = \<lparr>sr_AppName = sr_AppName root, sr_Namespaces = sr_Namespaces root @ butlast path\<rparr>,
                      pp_Descriptor = RequestedFormatKey (DecodeKey key) format :: 'v descriptor\<rparr>)"
      using assms(2) j by (simp add: ResolvePathWithinStore_def assms(1) [symmetric] cl Let_def)
    then show ?thesis using assms(2,3) f
      by (cases "path_Ext (last path) = []") (simp_all add: resolve_spec_def Let_def assms(1) [symmetric])
  qed
qed

text \<open>C29: A name is resolved within a store exactly when following its elements from the root of the store never leads
  above it and ends at a file, and then to the place where that walk ends: no spelling of a name leaves the store.\<close>

theorem ResolvePath_is_walk:
  "(case ResolvePathWithinStore root name of Inl err \<Rightarrow> None | Inr parsed \<Rightarrow> Some parsed) = (resolve_spec root name :: 'v ParsedPath option)"
proof -
  define n where "n = TrimSpace name"
  show ?thesis
  proof (cases "n = [] \<or> sr_AppName root = [] \<or> HasPrefix n ''/'' \<or> n = ''~'' \<or> HasPrefix n ''~/''")
    case True
    then show ?thesis
      by (auto simp: ResolvePathWithinStore_def resolve_spec_def Let_def n_def [symmetric] split: option.splits)
  next
    case False
    show ?thesis
    proof (cases "walk [] (Split n (CHR ''/''))")
      case None
      then have "resolve_spec root name = (None :: 'v ParsedPath option)" by (simp add: resolve_spec_def Let_def n_def)
      then show ?thesis using ResolvePath_outside [OF n_def False None] by simp
    next
      case (Some path)
      then show ?thesis by (rule ResolvePath_inside [OF n_def False])
    qed
  qed
qed

end
