(* ===== verification/Config_Namespaces.thy ===== *)
theory Config_Namespaces imports Config_Paths begin

text \<open>
  The in-memory workspaces (\<^verbatim>\<open>lib/config/memory/workspace.go\<close>, \<^verbatim>\<open>backend.go\<close>), which keep a loader or a store per
  namespace, and the operations on namespaces that the library builds on any explorer
  (\<^verbatim>\<open>lib/config/namespace.go\<close>). The two workspaces have the same operations on different contents: \<open>'c\<close> is what a
  fresh one holds. A handle is the index of its contents in the heap, so that handles that were opened before a
  namespace was deleted stay distinct from those opened after.
\<close>

section \<open>Workspaces\<close>

record 'c workspace =
  ws_paths :: "(string \<times> nat) list"
  ws_heap :: "'c list"

definition NewMarshal :: "'c workspace" where
  "NewMarshal = \<lparr>ws_paths = [], ws_heap = []\<rparr>"

definition namespaceKey :: "string \<Rightarrow> string list \<Rightarrow> string" where
  "namespaceKey app ns = Join (app # ns) ''/''"

definition workspace_Open :: "'c \<Rightarrow> string \<Rightarrow> string list \<Rightarrow> 'c workspace \<Rightarrow> nat \<times> 'c workspace" where
  "workspace_Open fresh app ns w =
    (let key = namespaceKey app ns in
     case map_of (ws_paths w) key of
       Some ld \<Rightarrow> (ld, w)
     | None \<Rightarrow> let ld = length (ws_heap w) in
         (ld, w\<lparr>ws_heap := ws_heap w @ [fresh], ws_paths := (key, ld) # ws_paths w\<rparr>))"

definition explorer_prefix :: "string \<Rightarrow> string list \<Rightarrow> string" where
  "explorer_prefix app base = (let prefix = namespaceKey app base in if prefix \<noteq> [] then prefix @ ''/'' else prefix)"

definition child_of :: "string \<Rightarrow> string \<Rightarrow> string option" where
  "child_of prefix key =
    (if \<not> HasPrefix key prefix then None
     else let parts = Split (TrimPrefix key prefix) (CHR ''/'') in if hd parts = [] then None else Some (hd parts))"

definition explorer_List :: "string \<Rightarrow> string list \<Rightarrow> ('v, 's) ListModifier list \<Rightarrow> 'c workspace
    \<Rightarrow> (cfg_error + 'v descriptor list) option" where
  "explorer_List app base mods w =
    (case ListModifiers_Apply mods no_options of
       Inl err \<Rightarrow> Some (Inl err)
     | Inr opts \<Rightarrow>
       if lo_Unmarshal opts \<noteq> None then Some (Inl (Failed ''namespace list does not support unmarshal''))
       else let childSet = remdups (List.map_filter (\<lambda>(key, _). child_of (explorer_prefix app base) key) (ws_paths w))
         in map_option Inr (ListOptions_Apply opts (SortedNamespaceDescriptors base childSet) 0))"

definition explorer_Delete :: "string \<Rightarrow> string list \<Rightarrow> 'v descriptor \<Rightarrow> 'c workspace \<Rightarrow> cfg_error option \<times> 'c workspace" where
  "explorer_Delete app base desc w =
    (let path = NamespacePathFromDescriptor base desc;
         target = namespaceKey app path;
         prefix = target @ ''/'';
         doomed = (\<lambda>(key, _). key = target \<or> HasPrefix key prefix)
     in if \<not> list_ex doomed (ws_paths w) then (Some ErrNotExist, w)
        else (None, w\<lparr>ws_paths := filter (\<lambda>e. \<not> doomed e) (ws_paths w)\<rparr>))"

section \<open>On any explorer\<close>

text \<open>An explorer is given by the listings it returns: \<open>explore\<close> maps a namespace to its children.\<close>

type_synonym 'v explore = "string list \<Rightarrow> cfg_error + 'v descriptor list"

definition NamespaceList :: "'v explore \<Rightarrow> string list \<Rightarrow> cfg_error + string list" where
  "NamespaceList explore ns = (case explore ns of Inl err \<Rightarrow> Inl err | Inr descs \<Rightarrow> Inr (sort (map desc_Key descs)))"

definition NamespaceExists :: "'v explore \<Rightarrow> string list \<Rightarrow> cfg_error + bool" where
  "NamespaceExists explore ns =
    (if length ns = 0 then Inl (Failed ''namespace path is required'')
     else case explore (butlast ns) of
       Inl err \<Rightarrow> Inl err
     | Inr descs \<Rightarrow> Inr (list_ex (\<lambda>desc. desc_Key desc = last ns) descs))"

definition NamespaceDelete :: "(string list \<Rightarrow> 'v descriptor \<Rightarrow> 'w \<Rightarrow> cfg_error option \<times> 'w) \<Rightarrow> string list \<Rightarrow> 'w \<Rightarrow> cfg_error option \<times> 'w" where
  "NamespaceDelete delete ns w =
    (if length ns = 0 then (Some (Failed ''namespace path is required''), w)
     else delete (butlast ns) (NewNamespaceDescriptor ns) w)"

text \<open>The recursion of \<^verbatim>\<open>NamespaceWalk\<close> has no bound of its own: with fuel, \<^const>\<open>None\<close> when it runs out.\<close>

fun NamespaceWalk :: "nat \<Rightarrow> 'v explore \<Rightarrow> string list \<Rightarrow> (string list \<Rightarrow> 's \<Rightarrow> cfg_error option \<times> 's) \<Rightarrow> 's
    \<Rightarrow> (cfg_error option \<times> 's) option"
  and walk_children :: "nat \<Rightarrow> 'v explore \<Rightarrow> string list \<Rightarrow> (string list \<Rightarrow> 's \<Rightarrow> cfg_error option \<times> 's) \<Rightarrow> 'v descriptor list \<Rightarrow> 's
    \<Rightarrow> (cfg_error option \<times> 's) option" where
  "NamespaceWalk 0 explore ns fn s = None"
| "NamespaceWalk (Suc fuel) explore ns fn s =
    (case explore ns of Inl err \<Rightarrow> Some (Some err, s) | Inr descs \<Rightarrow> walk_children fuel explore ns fn descs s)"
| "walk_children fuel explore ns fn [] s = Some (None, s)"
| "walk_children fuel explore ns fn (desc # descs) s =
    (let path = NamespacePathFromDescriptor ns desc in
     case fn path s of
       (Some err, s) \<Rightarrow> Some (Some err, s)
     | (None, s) \<Rightarrow>
       (case NamespaceWalk fuel explore path fn s of
          None \<Rightarrow> None
        | Some (Some err, s) \<Rightarrow> Some (Some err, s)
        | Some (None, s) \<Rightarrow> walk_children fuel explore ns fn descs s))"

section \<open>Keys are paths\<close>

definition path_of :: "string \<Rightarrow> string list" where
  "path_of key = Split key (CHR ''/'')"

definition plain_names :: "string list \<Rightarrow> bool" where
  "plain_names ps \<longleftrightarrow> list_all (\<lambda>p. CHR ''/'' \<notin> set p) ps"

lemma Split_Join_append: "ps \<noteq> [] \<Longrightarrow> plain_names ps \<Longrightarrow>
    Split (Join ps ''/'' @ CHR ''/'' # r) (CHR ''/'') = ps @ Split r (CHR ''/'')"
  by (induction ps "''/''" rule: Join.induct) (simp_all add: plain_names_def Split_append)

lemma Join_append: "ps \<noteq> [] \<Longrightarrow> qs \<noteq> [] \<Longrightarrow> Join (ps @ qs) sep = Join ps sep @ sep @ Join qs sep"
proof (induction ps sep rule: Join.induct)
  case (2 p sep)
  then show ?case by (cases qs) simp_all
qed simp_all

lemma key_prefix:
  assumes "plain_names (app # base)"
  shows "HasPrefix key (namespaceKey app base @ ''/'') \<longleftrightarrow> (\<exists>rest. rest \<noteq> [] \<and> path_of key = app # base @ rest)"
proof
  assume "HasPrefix key (namespaceKey app base @ ''/'')"
  then obtain r where "key = namespaceKey app base @ CHR ''/'' # r" by (auto simp: HasPrefix_iff)
  then have "path_of key = app # base @ Split r (CHR ''/'')"
    using Split_Join_append [OF _ assms, of r] by (simp add: path_of_def namespaceKey_def)
  then show "\<exists>rest. rest \<noteq> [] \<and> path_of key = app # base @ rest" by auto
next
  assume "\<exists>rest. rest \<noteq> [] \<and> path_of key = app # base @ rest"
  then obtain rest where "rest \<noteq> []" "path_of key = (app # base) @ rest" by auto
  then have "key = namespaceKey app base @ ''/'' @ Join rest ''/''"
    using Join_Split [of key "CHR ''/''"] Join_append [of "app # base" rest "''/''"] by (simp add: path_of_def namespaceKey_def)
  then show "HasPrefix key (namespaceKey app base @ ''/'')" by (auto simp: HasPrefix_iff)
qed

lemma key_exact: "plain_names (app # base) \<Longrightarrow> key = namespaceKey app base \<longleftrightarrow> path_of key = app # base"
proof -
  assume "plain_names (app # base)"
  then have "Split (Join (app # base) ''/'') (CHR ''/'') = app # base"
    by (intro Split_Join) (auto simp: plain_names_def list_all_iff)
  then show ?thesis using Join_Split [of key "CHR ''/''"] by (auto simp: path_of_def namespaceKey_def)
qed

lemma path_of_rest: "plain_names (app # base) \<Longrightarrow> path_of key = app # base @ rest \<Longrightarrow> rest \<noteq> [] \<Longrightarrow>
    Split (TrimPrefix key (namespaceKey app base @ ''/'')) (CHR ''/'') = rest"
proof -
  assume p: "plain_names (app # base)" and r: "path_of key = app # base @ rest" "rest \<noteq> []"
  then have h: "HasPrefix key (namespaceKey app base @ ''/'')" using key_prefix by blast
  then obtain s where s: "key = namespaceKey app base @ CHR ''/'' # s" by (auto simp: HasPrefix_iff)
  then have "path_of key = app # base @ Split s (CHR ''/'')"
    using Split_Join_append [OF _ p, of s] by (simp add: path_of_def namespaceKey_def)
  then have "Split s (CHR ''/'') = rest" using r(1) by simp
  then show ?thesis using h s by (simp add: TrimPrefix_def)
qed

lemma child_of_iff:
  assumes "plain_names (app # base)" "app \<noteq> []"
  shows "child_of (explorer_prefix app base) key = Some c \<longleftrightarrow> c \<noteq> [] \<and> (\<exists>rest. path_of key = app # base @ c # rest)"
proof -
  have "namespaceKey app base \<noteq> []" using assms(2) by (cases base) (simp_all add: namespaceKey_def)
  then have e: "explorer_prefix app base = namespaceKey app base @ ''/''" by (simp add: explorer_prefix_def)
  show ?thesis
  proof (cases "HasPrefix key (namespaceKey app base @ ''/'')")
    case True
    then obtain rest where r: "rest \<noteq> []" "path_of key = app # base @ rest" using key_prefix [OF assms(1)] by blast
    then show ?thesis using True path_of_rest [OF assms(1) r(2,1)] by (cases rest) (auto simp: child_of_def e Let_def)
  next
    case False
    then have "\<not> (\<exists>rest. rest \<noteq> [] \<and> path_of key = app # base @ rest)" using key_prefix [OF assms(1)] by simp
    then show ?thesis using False by (auto simp: child_of_def e)
  qed
qed

text \<open>The namespaces below one, whether opened themselves or implied by an opened one.\<close>

definition children :: "string \<Rightarrow> string list \<Rightarrow> 'c workspace \<Rightarrow> string list" where
  "children app base w = sorted_list_of_set {c. c \<noteq> [] \<and> (\<exists>key rest. key \<in> fst ` set (ws_paths w) \<and> path_of key = app # base @ c # rest)}"

lemma children_finite: "finite {c. c \<noteq> [] \<and> (\<exists>key rest. key \<in> fst ` set (ws_paths w) \<and> path_of key = app # base @ c # rest)}"
proof (rule finite_subset)
  show "{c. c \<noteq> [] \<and> (\<exists>key rest. key \<in> fst ` set (ws_paths w) \<and> path_of key = app # base @ c # rest)} \<subseteq>
      (\<lambda>key. path_of key ! Suc (length base)) ` fst ` set (ws_paths w)"
    by (auto simp: nth_append image_iff) (metis fst_conv append_Cons nth_Cons_Suc nth_append_length)
qed simp

lemma set_children: "set (children app base w) = {c. c \<noteq> [] \<and> (\<exists>key rest. key \<in> fst ` set (ws_paths w) \<and> path_of key = app # base @ c # rest)}"
  unfolding children_def by (rule set_sorted_list_of_set [OF children_finite])

lemma set_map_filter: "set (List.map_filter f xs) = {y. \<exists>x \<in> set xs. f x = Some y}"
  by (induction xs) (auto simp: List.map_filter_simps split: option.splits)

lemma explorer_List_children:
  assumes "plain_names (app # base)" "app \<noteq> []" "int (length (ws_paths w)) < 2 ^ 63"
  shows "explorer_List app base ([] :: ('v, 's) ListModifier list) w = Some (Inr (NamespaceDescriptors base (children app base w) :: 'v descriptor list))"
proof -
  define cs where "cs = remdups (List.map_filter (\<lambda>(key, _). child_of (explorer_prefix app base) key) (ws_paths w))"
  have "c \<in> set cs \<longleftrightarrow> (\<exists>key \<in> fst ` set (ws_paths w). child_of (explorer_prefix app base) key = Some c)" for c
    unfolding cs_def by (simp add: set_map_filter case_prod_unfold)
  then have "set cs = set (children app base w)"
    unfolding set_children child_of_iff [OF assms(1,2)] by auto
  then have s: "sort cs = children app base w"
    by (metis children_def children_finite cs_def distinct_remdups remdups_id_iff_distinct set_children sorted_list_of_set_sort_remdups)
  have "length cs \<le> length (ws_paths w)"
  proof -
    have "length (List.map_filter f xs) \<le> length xs" for f :: "string \<times> nat \<Rightarrow> string option" and xs
      by (induction xs) (simp_all add: List.map_filter_simps split: option.splits)
    then show ?thesis unfolding cs_def using length_remdups_leq order_trans by blast
  qed
  then have "length (children app base w) \<le> length (ws_paths w)" using s by (metis length_sort)
  then have "ApplyOffsetLimitKeys (children app base w) 0 0 = Some (children app base w)"
    using ApplyOffsetLimitKeys_exact [of "children app base w" 0 0] assms(3) by (simp add: page_panics_def page_def)
  moreover have "map desc_Key (NamespaceDescriptors base xs :: 'v descriptor list) = xs" for xs
    by (simp add: NamespaceDescriptors_def NewNamespaceDescriptor_def map_idI)
  ultimately have "map_option (map desc_Key) (ApplyOffsetLimit (NamespaceDescriptors base (children app base w) :: 'v descriptor list) 0 0) =
      Some (children app base w)"
    by (simp add: ApplyOffsetLimit_keys)
  then have "ApplyOffsetLimit (NamespaceDescriptors base (children app base w) :: 'v descriptor list) 0 0 =
      Some (NamespaceDescriptors base (children app base w))"
    by (simp add: ApplyOffsetLimit_def slice_def Let_def)
  then show ?thesis
    by (simp add: explorer_List_def SortedNamespaceDescriptors_def SortedKeys_def ListOptions_Apply_def ApplyStartFrom_def
        no_options_def Let_def s flip: cs_def)
qed

section \<open>Opening and deleting\<close>

definition below :: "string list \<Rightarrow> string \<Rightarrow> bool" where
  "below ps key \<longleftrightarrow> take (length ps) (path_of key) = ps"

lemma below_iff: "below ps key \<longleftrightarrow> (\<exists>rest. path_of key = ps @ rest)"
  unfolding below_def by (metis append_eq_conv_conj append_take_drop_id)

lemma doomed_below:
  assumes "plain_names (app # ns)"
  shows "key = namespaceKey app ns \<or> HasPrefix key (namespaceKey app ns @ ''/'') \<longleftrightarrow> below (app # ns) key"
proof -
  have "below (app # ns) key \<longleftrightarrow> path_of key = app # ns \<or> (\<exists>rest. rest \<noteq> [] \<and> path_of key = app # ns @ rest)"
    unfolding below_iff by (metis append_Cons append_Nil2)
  then show ?thesis using key_exact [OF assms, of key] key_prefix [OF assms, of key] by simp
qed

lemma explorer_Delete_exact:
  assumes "plain_names (app # base @ [c])"
  shows "explorer_Delete app base (NewNamespaceDescriptor (base @ [c])) w =
    (if \<exists>e \<in> set (ws_paths w). below (app # base @ [c]) (fst e)
     then (None, w\<lparr>ws_paths := filter (\<lambda>e. \<not> below (app # base @ [c]) (fst e)) (ws_paths w)\<rparr>)
     else (Some ErrNotExist, w))"
proof -
  have "(\<lambda>(key, _ :: nat). key = namespaceKey app (base @ [c]) \<or> HasPrefix key (namespaceKey app (base @ [c]) @ ''/'')) =
      (\<lambda>e. below (app # base @ [c]) (fst e))"
    using doomed_below [OF assms] by (simp add: case_prod_unfold)
  then show ?thesis
    by (simp add: explorer_Delete_def NamespacePathFromDescriptor_def NewNamespaceDescriptor_def Let_def list_ex_iff)
qed

lemma children_Open:
  assumes "plain_names (app # base @ [c])" "c \<noteq> []"
  shows "set (children app base (snd (workspace_Open fresh app (base @ [c]) w))) = insert c (set (children app base w))"
proof -
  have k: "path_of (namespaceKey app (base @ [c])) = app # base @ [c]" using key_exact [OF assms(1)] by blast
  then have "map_of (ws_paths w) (namespaceKey app (base @ [c])) = Some ld \<Longrightarrow> c \<in> set (children app base w)" for ld
    unfolding set_children using assms(2) map_of_SomeD by (force simp: image_iff)
  then show ?thesis using k assms(2)
    by (auto simp: workspace_Open_def set_children Let_def insert_absorb split: option.splits)
qed

lemma children_Delete:
  assumes "plain_names (app # base @ [c])"
  shows "children app base (snd (explorer_Delete app base (NewNamespaceDescriptor (base @ [c]) :: 'v descriptor) w)) =
    filter (\<lambda>d. d \<noteq> c) (children app base w)"
proof (rule sorted_distinct_set_unique)
  let ?w = "snd (explorer_Delete app base (NewNamespaceDescriptor (base @ [c]) :: 'v descriptor) w)"
  have p: "set (ws_paths ?w) = {e \<in> set (ws_paths w). \<not> below (app # base @ [c]) (fst e)}"
    by (auto simp: explorer_Delete_exact [OF assms])
  have b: "path_of key = app # base @ d # rest \<Longrightarrow> below (app # base @ [c]) key \<longleftrightarrow> d = c" for key d rest
    by (auto simp: below_iff)
  show "set (children app base ?w) = set (filter (\<lambda>d. d \<noteq> c) (children app base w))"
    unfolding set_children set_filter p using b by (force simp: image_iff)
qed (simp_all add: children_def sorted_wrt_filter)

text \<open>
  A namespace whose name contains a slash is another namespace: the key does not tell them apart.
\<close>

lemma slash_aliases: "workspace_Open fresh app [x @ ''/'' @ y] w = workspace_Open fresh app [x, y] w"
  by (simp add: workspace_Open_def namespaceKey_def)

text \<open>
  C23: For names without a slash, a workspace's explorer lists exactly the child namespaces, those opened themselves and
  those with an opened descendant, sorted and once; opening a namespace adds it to the listing; deleting it removes
  exactly the namespaces at or below it, leaves every other and every handle's contents, and fails with ErrNotExist
  exactly when there was none.
\<close>

theorem namespaces_exact:
  assumes "plain_names (app # base @ [c])" "app \<noteq> []" "c \<noteq> []" "int (length (ws_paths w)) < 2 ^ 63"
  shows "explorer_List app base ([] :: ('v, 's) ListModifier list) w = Some (Inr (NamespaceDescriptors base (children app base w) :: 'v descriptor list)) \<and>
    sorted (children app base w) \<and> distinct (children app base w) \<and>
    set (children app base (snd (workspace_Open fresh app (base @ [c]) w))) = insert c (set (children app base w)) \<and>
    (case explorer_Delete app base (NewNamespaceDescriptor (base @ [c]) :: 'v descriptor) w of (err, w') \<Rightarrow>
      (err = (if \<exists>e \<in> set (ws_paths w). below (app # base @ [c]) (fst e) then None else Some ErrNotExist)) \<and>
      ws_paths w' = filter (\<lambda>e. \<not> below (app # base @ [c]) (fst e)) (ws_paths w) \<and> ws_heap w' = ws_heap w \<and>
      children app base w' = filter (\<lambda>d. d \<noteq> c) (children app base w))"
proof -
  have b: "plain_names (app # base)" using assms(1) by (simp add: plain_names_def)
  have "filter (\<lambda>e. \<not> below (app # base @ [c]) (fst e)) (ws_paths w) = ws_paths w"
    if "\<not> (\<exists>e \<in> set (ws_paths w). below (app # base @ [c]) (fst e))" using that by (simp add: filter_id_conv)
  moreover have "sorted (children app base w)" "distinct (children app base w)" by (simp_all add: children_def)
  ultimately show ?thesis
    using explorer_List_children [OF b assms(2,4)] children_Open [OF assms(1,3), of fresh w]
      children_Delete [OF assms(1), of w]
    by (cases "\<exists>e \<in> set (ws_paths w). below (app # base @ [c]) (fst e)")
      (simp_all only: explorer_Delete_exact [OF assms(1)] if_True if_False, simp_all)
qed

lemma namespaces_exact_witness:
  "explorer_List ''app'' [''a''] ([] :: (nat, unit) ListModifier list) (snd (workspace_Open ([] :: nat list) ''app'' [''a'', ''b'', ''c''] NewMarshal)) =
    Some (Inr (NamespaceDescriptors [''a''] [''b''] :: nat descriptor list))"
proof -
  let ?w = "snd (workspace_Open [] ''app'' [''a'', ''b'', ''c''] NewMarshal) :: nat list workspace"
  have "plain_names [''app'', ''a'', ''b'']" "int (length (ws_paths ?w)) < 2 ^ 63"
    by (simp_all add: plain_names_def workspace_Open_def NewMarshal_def Let_def)
  moreover have "children ''app'' [''a''] ?w = [''b'']"
  proof -
    have "path_of (namespaceKey ''app'' [''a'', ''b'', ''c'']) = [''app'', ''a'', ''b'', ''c'']" by code_simp
    then have "set (children ''app'' [''a''] ?w) = {''b''}"
      unfolding set_children by (auto simp: workspace_Open_def NewMarshal_def Let_def)
    moreover have "sorted_list_of_set (set (children ''app'' [''a''] ?w)) = children ''app'' [''a''] ?w"
      by (simp add: children_def sorted_list_of_set.idem_if_sorted_distinct)
    ultimately show ?thesis by simp
  qed
  ultimately show ?thesis
    using namespaces_exact [of "''app''" "[''a'']" "''b''" ?w "[]", where 'v = nat and 's = unit] by simp
qed

end
