(* ===== verification/Config_Walk.thy ===== *)
theory Config_Walk imports Config_Namespaces begin

text \<open>
  The walk of \<^verbatim>\<open>lib/config/namespace.go\<close> over the namespaces of an in-memory workspace: it has no bound of its own, and
  ends because every step down consumes a component of the opened paths.
\<close>

section \<open>The walk as a traversal\<close>

fun visit :: "(string list \<Rightarrow> 's \<Rightarrow> cfg_error option \<times> 's) \<Rightarrow> string list list \<Rightarrow> 's \<Rightarrow> cfg_error option \<times> 's" where
  "visit fn [] s = (None, s)"
| "visit fn (p # ps) s = (case fn p s of (Some err, s) \<Rightarrow> (Some err, s) | (None, s) \<Rightarrow> visit fn ps s)"

lemma visit_append: "visit fn (ps @ qs) s = (case visit fn ps s of (Some err, s) \<Rightarrow> (Some err, s) | (None, s) \<Rightarrow> visit fn qs s)"
proof (induction ps arbitrary: s)
  case (Cons p ps)
  obtain err s' where "fn p s = (err, s')" by (cases "fn p s")
  then show ?case using Cons.IH by (cases err) simp_all
qed simp

fun preorder :: "nat \<Rightarrow> string \<Rightarrow> 'c workspace \<Rightarrow> string list \<Rightarrow> string list list" where
  "preorder 0 app w base = []"
| "preorder (Suc depth) app w base = concat (map (\<lambda>c. (base @ [c]) # preorder depth app w (base @ [c])) (children app base w))"

definition workspace_explore :: "string \<Rightarrow> 'c workspace \<Rightarrow> 'v explore" where
  "workspace_explore app w ns = the (explorer_List app ns ([] :: ('v, unit) ListModifier list) w)"

text \<open>No opened path has more components than the depth below \<open>base\<close> allows.\<close>

definition depth_ok :: "nat \<Rightarrow> 'c workspace \<Rightarrow> string list \<Rightarrow> bool" where
  "depth_ok depth w base \<longleftrightarrow> list_all (\<lambda>(key, _). length (path_of key) \<le> length base + depth) (ws_paths w)"

lemma depth_ok_child: "depth_ok (Suc depth) w base \<Longrightarrow> depth_ok depth w (base @ [c])"
  by (simp add: depth_ok_def)

lemma child_depth: "c \<in> set (children app base w) \<Longrightarrow> depth_ok depth w base \<Longrightarrow> 2 \<le> depth"
  unfolding set_children depth_ok_def list_all_iff by fastforce

lemma plain_child: "plain_names (app # base) \<Longrightarrow> c \<in> set (children app base w) \<Longrightarrow> plain_names (app # base @ [c])"
proof -
  assume "plain_names (app # base)" "c \<in> set (children app base w)"
  then obtain key rest where "path_of key = app # base @ c # rest" unfolding set_children by auto
  then have "c \<in> set (Split key (CHR ''/''))" by (simp add: path_of_def)
  then show ?thesis using \<open>plain_names (app # base)\<close> Split_parts by (auto simp: plain_names_def)
qed

lemma NamespaceWalk_visit:
  assumes "app \<noteq> []" "int (length (ws_paths w)) < 2 ^ 63"
  shows "plain_names (app # base) \<Longrightarrow> depth_ok fuel w base \<Longrightarrow> 0 < fuel \<Longrightarrow>
    NamespaceWalk fuel (workspace_explore app w :: 'v explore) base fn s = Some (visit fn (preorder fuel app w base) s)"
proof (induction fuel arbitrary: base s)
  case (Suc fuel)
  let ?x = "workspace_explore app w :: 'v explore"
  have *: "walk_children fuel ?x base fn (NamespaceDescriptors base cs) s =
      Some (visit fn (concat (map (\<lambda>c. (base @ [c]) # preorder fuel app w (base @ [c])) cs)) s)"
    if "set cs \<subseteq> set (children app base w)" for cs s using that
  proof (induction cs arbitrary: s)
    case (Cons c cs)
    then have c: "c \<in> set (children app base w)" by simp
    then have w: "NamespaceWalk fuel ?x (base @ [c]) fn s = Some (visit fn (preorder fuel app w (base @ [c])) s)" for s
      using Suc.IH [OF plain_child [OF Suc.prems(1) c] depth_ok_child [OF Suc.prems(2)]] child_depth [OF c Suc.prems(2)] by simp
    have p: "NamespacePathFromDescriptor base (NewNamespaceDescriptor (base @ [c]) :: 'v descriptor) = base @ [c]"
      by (simp add: NamespacePathFromDescriptor_def NewNamespaceDescriptor_def)
    have d: "NamespaceDescriptors base (c # cs) = (NewNamespaceDescriptor (base @ [c]) :: 'v descriptor) # NamespaceDescriptors base cs"
      by (simp add: NamespaceDescriptors_def)
    obtain e1 s1 where f: "fn (base @ [c]) s = (e1, s1)" by (cases "fn (base @ [c]) s")
    obtain e2 s2 where v: "visit fn (preorder fuel app w (base @ [c])) s1 = (e2, s2)"
      by (cases "visit fn (preorder fuel app w (base @ [c])) s1")
    show ?case using f v w [of s1] Cons by (cases e1; cases e2) (simp_all add: d p visit_append)
  qed (simp add: NamespaceDescriptors_def)
  have "?x base = Inr (NamespaceDescriptors base (children app base w))"
    using explorer_List_children [OF Suc.prems(1) assms, where 'v = 'v and 's = unit] by (simp add: workspace_explore_def)
  then show ?case using * [of "children app base w" s] by simp
qed simp

section \<open>What it visits\<close>

lemma set_preorder:
  "plain_names (app # base) \<Longrightarrow> depth_ok depth w base \<Longrightarrow>
    set (preorder depth app w base) =
      {base @ rest | rest. rest \<noteq> [] \<and> [] \<notin> set rest \<and> (\<exists>e \<in> set (ws_paths w). below (app # base @ rest) (fst e))}"
proof (induction depth arbitrary: base)
  case 0
  then show ?case by (fastforce simp: depth_ok_def list_all_iff below_iff)
next
  case (Suc depth)
  let ?D = "\<lambda>base. {base @ rest | rest. rest \<noteq> [] \<and> [] \<notin> set rest \<and> (\<exists>e \<in> set (ws_paths w). below (app # base @ rest) (fst e))}"
  have "set (preorder (Suc depth) app w base) = (\<Union>c \<in> set (children app base w). insert (base @ [c]) (?D (base @ [c])))"
    using Suc.IH [OF _ depth_ok_child [OF Suc.prems(2)]] plain_child [OF Suc.prems(1), of _ w] by simp
  also have "\<dots> = ?D base"
  proof (intro equalityI subsetI)
    fix p assume "p \<in> (\<Union>c \<in> set (children app base w). insert (base @ [c]) (?D (base @ [c])))"
    then obtain c rest where "c \<noteq> []" and "p = base @ c # rest" "[] \<notin> set rest"
        "\<exists>e \<in> set (ws_paths w). below (app # base @ c # rest) (fst e)"
      unfolding set_children below_iff
      by (elim UN_E insertE) (force intro: that [where rest = "[]"] simp: image_iff, force)
    then show "p \<in> ?D base" by fastforce
  next
    fix p assume "p \<in> ?D base"
    then obtain c rest e where "p = base @ c # rest" "c \<noteq> []" "[] \<notin> set rest" "e \<in> set (ws_paths w)"
        "below (app # base @ c # rest) (fst e)" by (clarsimp, case_tac rest) auto
    then have "c \<in> set (children app base w)" "p \<in> insert (base @ [c]) (?D (base @ [c]))"
      unfolding set_children below_iff by (auto 4 4 simp: image_iff)
    then show "p \<in> (\<Union>c \<in> set (children app base w). insert (base @ [c]) (?D (base @ [c])))" by blast
  qed
  finally show ?case .
qed

lemma preorder_extends: "p \<in> set (preorder depth app w base) \<Longrightarrow> \<exists>c rest. p = base @ c # rest"
  by (induction depth arbitrary: base) fastforce+

lemma distinct_preorder: "distinct (preorder depth app w base)"
proof (induction depth arbitrary: base)
  case (Suc depth)
  let ?t = "\<lambda>c. (base @ [c]) # preorder depth app w (base @ [c])"
  have s: "p \<in> set (?t c) \<Longrightarrow> p ! length base = c" for p c
    using preorder_extends [of p depth app w "base @ [c]"] by (auto simp: nth_append)
  have "distinct (?t c)" for c using Suc.IH preorder_extends [of "base @ [c]" depth app w "base @ [c]"] by auto
  then have "distinct (concat (map ?t cs))" if "distinct cs" for cs using that
  proof (induction cs)
    case (Cons c cs)
    have "set (?t c) \<inter> set (?t d) = {}" if "d \<in> set cs" for d using s Cons.prems that by (metis disjoint_iff distinct.simps(2))
    then have "set (?t c) \<inter> set (concat (map ?t cs)) = {}" by (simp only: set_concat set_map) blast
    then show ?case using Cons by simp
  qed simp
  then show ?case by (simp add: children_def)
qed simp

text \<open>
  C26: A walk over the namespaces of a workspace returns: with one unit of recursion per component of the longest opened
  path, for every callback, it is the callback applied in turn, depth first, to every namespace below the start, each
  visited once, up to the first error.
\<close>

theorem NamespaceWalk_returns:
  assumes "plain_names (app # base)" "app \<noteq> []" "int (length (ws_paths w)) < 2 ^ 63" "0 < fuel" "depth_ok fuel w base"
  shows "NamespaceWalk fuel (workspace_explore app w :: 'v explore) base fn s = Some (visit fn (preorder fuel app w base) s) \<and>
    distinct (preorder fuel app w base) \<and>
    set (preorder fuel app w base) =
      {base @ rest | rest. rest \<noteq> [] \<and> [] \<notin> set rest \<and> (\<exists>e \<in> set (ws_paths w). below (app # base @ rest) (fst e))}"
  using NamespaceWalk_visit [OF assms(2,3,1,5,4), where 'v = 'v and fn = fn and s = s] distinct_preorder [of fuel app w base]
    set_preorder [OF assms(1,5)] by simp

lemma NamespaceWalk_returns_witness:
  "NamespaceWalk 4 (workspace_explore ''app'' (snd (workspace_Open (0 :: nat) ''app'' [''a'', ''b'', ''c''] NewMarshal)) :: nat explore)
    [] (\<lambda>p ps. (None, ps @ [p])) [] =
   Some (visit (\<lambda>p ps. (None, ps @ [p]))
     (preorder 4 ''app'' (snd (workspace_Open (0 :: nat) ''app'' [''a'', ''b'', ''c''] NewMarshal)) []) [])"
proof -
  let ?w = "snd (workspace_Open 0 ''app'' [''a'', ''b'', ''c''] NewMarshal) :: nat workspace"
  have "path_of (namespaceKey ''app'' [''a'', ''b'', ''c'']) = [''app'', ''a'', ''b'', ''c'']" by code_simp
  then have "plain_names [''app'']" "int (length (ws_paths ?w)) < 2 ^ 63" "depth_ok 4 ?w []"
    by (simp_all add: plain_names_def workspace_Open_def NewMarshal_def Let_def depth_ok_def)
  then show ?thesis
    using NamespaceWalk_returns [of "''app''" "[]" ?w 4 "\<lambda>p ps. (None, ps @ [p])" "[]", where 'v = nat] by simp
qed

end
