(* ===== verification/Retry.thy ===== *)
theory Retry imports Go_Strings begin

text \<open>
  Retrying an operation (\<^verbatim>\<open>lib/retry/retry.go\<close>). A runner is a function on the caller's state \<open>'s\<close>, given the number of
  the attempt; the clock, the sleep, the random generator and the logger are functions on the same state, the ones of
  the options when they are set and the ones of the standard library otherwise. \<open>Panicked\<close> is a nil dereference.
\<close>

section \<open>Errors\<close>

text \<open>
  The errors a runner can return: a plain one, a \<open>*FatalError\<close>, one that \<^verbatim>\<open>fmt.Errorf\<close> wraps around another with its
  own text, a \<open>MultiError\<close> (whose elements may be nil) and an \<open>*ExaustedError\<close>.
\<close>

datatype retry_error =
    PlainError string
  | FatalError "retry_error option"
  | WrapError string retry_error
  | Multi "retry_error option list"
  | ExaustedError "retry_error option" string

primrec error_text :: "retry_error \<Rightarrow> string" where
  "error_text (PlainError msg) = msg"
| "error_text (FatalError original) =
    (case map_option error_text original of Some msg \<Rightarrow> msg | None \<Rightarrow> ''requested to stop retrying'')"
| "error_text (WrapError msg err) = msg"
| "error_text (Multi errs) =
    (case map (map_option error_text) errs of
       [Some msg] \<Rightarrow> msg
     | texts \<Rightarrow> ''Multiple errors:'' @ CHR 0x0A # ''  '' @ Join (List.map_filter id texts) (CHR 0x0A # ''  ''))"
| "error_text (ExaustedError original msg) = msg"

text \<open>\<^verbatim>\<open>errors.As\<close> for a target of type \<^verbatim>\<open>*FatalError\<close>: the original error of the first one in the chain.\<close>

fun first_fatal :: "retry_error option option option list \<Rightarrow> retry_error option option" where
  "first_fatal [] = None"
| "first_fatal (Some (Some original) # rest) = Some original"
| "first_fatal (x # rest) = first_fatal rest"

primrec as_fatal :: "retry_error \<Rightarrow> retry_error option option" where
  "as_fatal (PlainError msg) = None"
| "as_fatal (FatalError original) = Some original"
| "as_fatal (WrapError msg err) = as_fatal err"
| "as_fatal (Multi errs) = first_fatal (map (map_option as_fatal) errs)"
| "as_fatal (ExaustedError original msg) =
    (case map_option as_fatal original of Some (Some original) \<Rightarrow> Some original | _ \<Rightarrow> None)"

definition Fatal :: "retry_error option \<Rightarrow> retry_error" where
  "Fatal err = FatalError err"

definition multi_New :: "retry_error option list \<Rightarrow> retry_error option" where
  "multi_New errs = (if errs = [] then None else if list_ex (\<lambda>err. err \<noteq> None) errs then Some (Multi errs) else None)"

section \<open>Options\<close>

text \<open>Where an attempt failed, the log says what follows.\<close>

datatype retry_message = NotRetrying | WillRetryIn time | RetryingImmediately

record retry_flags =
  AtMost :: int
  Wait :: time
  Fuzzy :: time
  MaxErrors :: int

type_synonym 's clock = "'s \<Rightarrow> time \<times> 's"
type_synonym 's sleeper = "time \<Rightarrow> 's \<Rightarrow> 's"
type_synonym 's random = "int \<Rightarrow> 's \<Rightarrow> int \<times> 's"
type_synonym 's retry_logger = "bool \<Rightarrow> int \<Rightarrow> string \<Rightarrow> retry_error \<Rightarrow> retry_message \<Rightarrow> 's \<Rightarrow> 's"

record 's retry_options =
  ro_rng :: "'s random option"
  ro_logger :: "'s retry_logger"
  ro_description :: string
  ro_Now :: "'s clock option"
  ro_Sleep :: "'s sleeper option"
  ro_Flags :: retry_flags

text \<open>What the standard library provides, and the logger that discards.\<close>

record 's runtime =
  rt_Now :: "'s clock"
  rt_Sleep :: "'s sleeper"
  rt_Int63n :: "'s random"

definition logger_Nil :: "'s retry_logger" where
  "logger_Nil errorf attempt description err message s = s"

definition second :: time where "second = 1000000000"

definition DefaultFlags :: retry_flags where
  "DefaultFlags = \<lparr>AtMost = 5, Wait = 1 * second, Fuzzy = 1 * second, MaxErrors = 10\<rparr>"

definition retry_Nil :: "'s runtime \<Rightarrow> 's retry_options" where
  "retry_Nil R = \<lparr>ro_rng = None, ro_logger = logger_Nil, ro_description = [], ro_Now = Some (rt_Now R), ro_Sleep = None,
    ro_Flags = \<lparr>AtMost = 1, Wait = 0, Fuzzy = 0, MaxErrors = 0\<rparr>\<rparr>"

type_synonym 's Modifier = "'s retry_options \<Rightarrow> 's retry_options"

definition Modifiers_Apply :: "'s Modifier list \<Rightarrow> 's Modifier" where
  "Modifiers_Apply mods o' = fold (\<lambda>m. m) mods o'"

definition WithDescription :: "string \<Rightarrow> 's Modifier" where
  "WithDescription desc o' = o'\<lparr>ro_description := desc\<rparr>"

definition WithRng :: "'s random option \<Rightarrow> 's Modifier" where
  "WithRng rng o' = o'\<lparr>ro_rng := rng\<rparr>"

definition WithWait :: "time \<Rightarrow> 's Modifier" where
  "WithWait duration o' = o'\<lparr>ro_Flags := (ro_Flags o')\<lparr>Wait := duration\<rparr>\<rparr>"

definition WithFuzzy :: "time \<Rightarrow> 's Modifier" where
  "WithFuzzy fuzzy o' = o'\<lparr>ro_Flags := (ro_Flags o')\<lparr>Fuzzy := fuzzy\<rparr>\<rparr>"

definition WithAttempts :: "int \<Rightarrow> 's Modifier" where
  "WithAttempts atmost o' = o'\<lparr>ro_Flags := (ro_Flags o')\<lparr>AtMost := atmost\<rparr>\<rparr>"

definition WithLogger :: "'s retry_logger \<Rightarrow> 's Modifier" where
  "WithLogger log o' = o'\<lparr>ro_logger := log\<rparr>"

definition WithTimeSource :: "'s clock option \<Rightarrow> 's Modifier" where
  "WithTimeSource ts o' = o'\<lparr>ro_Now := ts\<rparr>"

definition WithSleep :: "'s sleeper option \<Rightarrow> 's Modifier" where
  "WithSleep sleep o' = o'\<lparr>ro_Sleep := sleep\<rparr>"

definition FromFlags :: "retry_flags option \<Rightarrow> 's Modifier" where
  "FromFlags fl o' = (case fl of None \<Rightarrow> o' | Some fl \<Rightarrow> o'\<lparr>ro_Flags := fl\<rparr>)"

definition retry_New :: "'s runtime \<Rightarrow> 's Modifier list \<Rightarrow> 's retry_options" where
  "retry_New R mods = Modifiers_Apply mods
    \<lparr>ro_rng = None, ro_logger = logger_Nil, ro_description = [], ro_Now = Some (rt_Now R), ro_Sleep = Some (rt_Sleep R),
     ro_Flags = DefaultFlags\<rparr>"

section \<open>Delays\<close>

text \<open>The zero \<^verbatim>\<open>time.Time\<close> is the start of year 1; \<^verbatim>\<open>Sub\<close> saturates at the ends of \<^verbatim>\<open>Duration\<close>.\<close>

definition zero_Time :: time where "zero_Time = - 62135596800 * second"

definition Time_Sub :: "time \<Rightarrow> time \<Rightarrow> time" where
  "Time_Sub t u = max (- (2 ^ 63)) (min (2 ^ 63 - 1) (t - u))"

definition Delay :: "'s runtime \<Rightarrow> 's retry_options \<Rightarrow> 's \<Rightarrow> time \<times> 's" where
  "Delay R opts s =
    (let (delta, s) =
       (if 0 < Fuzzy (ro_Flags opts)
        then (case ro_rng opts of Some r \<Rightarrow> r | None \<Rightarrow> rt_Int63n R) (Fuzzy (ro_Flags opts)) s
        else (0, s))
     in (i64 (Wait (ro_Flags opts) + delta), s))"

definition DelaySince :: "'s runtime \<Rightarrow> 's retry_options \<Rightarrow> time \<Rightarrow> 's \<Rightarrow> time \<times> 's" where
  "DelaySince R opts start s =
    (let (delay, s) = Delay R opts s in
     if start = zero_Time then (delay, s)
     else let (now, s) = (case ro_Now opts of Some now \<Rightarrow> now | None \<Rightarrow> rt_Now R) s;
              elapsed = Time_Sub now start
          in if delay \<le> elapsed then (0, s) else (i64 (delay - elapsed), s))"

section \<open>Attempts\<close>

type_synonym 's runner = "int \<Rightarrow> 's \<Rightarrow> retry_error option \<times> 's"

definition OnceAttempt :: "'s runtime \<Rightarrow> 's retry_options \<Rightarrow> int \<Rightarrow> 's runner \<Rightarrow> 's \<Rightarrow> (time \<times> retry_error option \<times> 's) option" where
  "OnceAttempt R opts attempt runner s =
    (let description = (if ro_description opts \<noteq> [] then '' - '' @ ro_description opts else []) in
     case ro_Now opts of
       None \<Rightarrow> None
     | Some now \<Rightarrow>
       let (start, s) = now s; (err, s) = runner attempt s in
       case err of
         None \<Rightarrow> Some (0, None, s)
       | Some err \<Rightarrow>
         (case as_fatal err of
            Some stop \<Rightarrow> Some (0, Some err, ro_logger opts True (i64 (attempt + 1)) description err NotRetrying s)
          | None \<Rightarrow>
            let (delay, s) = DelaySince R opts start s;
                message = (if delay > 0 then WillRetryIn delay else RetryingImmediately)
            in Some (delay, Some err, ro_logger opts False (i64 (attempt + 1)) description err message s)))"

definition Once :: "'s runtime \<Rightarrow> 's retry_options \<Rightarrow> int \<Rightarrow> ('s \<Rightarrow> retry_error option \<times> 's) \<Rightarrow> 's
    \<Rightarrow> (time \<times> retry_error option \<times> 's) option" where
  "Once R opts attempt runner s = OnceAttempt R opts attempt (\<lambda>attempt. runner) s"

datatype 's retry_outcome = Returned "retry_error option" 's | Panicked

definition int_text :: "int \<Rightarrow> string" where
  "int_text n = (if n < 0 then CHR ''-'' # Itoa (nat (- n)) else Itoa (nat n))"

definition gave_up :: "int \<Rightarrow> retry_error list \<Rightarrow> retry_error" where
  "gave_up atmost errs =
    (let err = multi_New (map Some errs);
         text = (case err of None \<Rightarrow> ''%!s(<nil>)'' | Some err \<Rightarrow> error_text err)
     in ExaustedError err (''gave up after '' @ int_text atmost @ '' attempts - '' @ text))"

text \<open>The loop, which has no bound when \<open>AtMost\<close> is zero: \<^const>\<open>None\<close> when the fuel runs out.\<close>

fun attempts_loop :: "nat \<Rightarrow> 's runtime \<Rightarrow> 's retry_options \<Rightarrow> 's runner \<Rightarrow> int \<Rightarrow> retry_error list \<Rightarrow> 's \<Rightarrow> 's retry_outcome option" where
  "attempts_loop 0 R opts runner ix errs s = None"
| "attempts_loop (Suc fuel) R opts runner ix errs s =
    (let atmost = AtMost (ro_Flags opts) in
     if atmost = 0 \<or> ix < atmost then
       (case OnceAttempt R opts ix runner s of
          None \<Rightarrow> Some Panicked
        | Some (delay, None, s) \<Rightarrow> Some (Returned None s)
        | Some (delay, Some err, s) \<Rightarrow>
          (case as_fatal err of
             Some original \<Rightarrow> Some (Returned original s)
           | None \<Rightarrow>
             let errs = (if int (length errs) \<le> MaxErrors (ro_Flags opts) then errs @ [err] else errs);
                 sleep = (case ro_Sleep opts of Some sleep \<Rightarrow> sleep | None \<Rightarrow> rt_Sleep R);
                 s = (if delay > 0 then sleep delay s else s)
             in attempts_loop fuel R opts runner (i64 (ix + 1)) errs s))
     else Some (Returned (Some (gave_up atmost errs)) s))"

definition RunAttempt :: "nat \<Rightarrow> 's runtime \<Rightarrow> 's retry_options \<Rightarrow> 's runner \<Rightarrow> 's \<Rightarrow> 's retry_outcome option" where
  "RunAttempt fuel R opts runner s = attempts_loop fuel R opts runner 0 [] s"

definition retry_Run :: "nat \<Rightarrow> 's runtime \<Rightarrow> 's retry_options \<Rightarrow> ('s \<Rightarrow> retry_error option \<times> 's) \<Rightarrow> 's \<Rightarrow> 's retry_outcome option" where
  "retry_Run fuel R opts runner s = RunAttempt fuel R opts (\<lambda>attempt. runner) s"

end
