(* ===== verification/Retry_Props.thy ===== *)
theory Retry_Props imports Retry begin

text \<open>
  What \<open>Run\<close> and \<open>RunAttempt\<close> of \<^verbatim>\<open>lib/retry/retry.go\<close> return, when they return, what is kept of the failures, and
  the time between attempts.
\<close>

section \<open>The attempts\<close>

definition pause :: "'s runtime \<Rightarrow> 's retry_options \<Rightarrow> time \<Rightarrow> 's \<Rightarrow> 's" where
  "pause R opts delay s = (if delay > 0 then (case ro_Sleep opts of Some sleep \<Rightarrow> sleep | None \<Rightarrow> rt_Sleep R) delay s else s)"

text \<open>The errors of the first \<open>n\<close> attempts and the state after them, when all of them fail and none is fatal.\<close>

fun after_failures :: "nat \<Rightarrow> 's runtime \<Rightarrow> 's retry_options \<Rightarrow> 's runner \<Rightarrow> int \<Rightarrow> 's \<Rightarrow> (retry_error list \<times> 's) option" where
  "after_failures 0 R opts runner ix s = Some ([], s)"
| "after_failures (Suc n) R opts runner ix s =
    (case OnceAttempt R opts ix runner s of
       Some (delay, Some err, s) \<Rightarrow>
         if as_fatal err = None
         then map_option (apfst ((#) err)) (after_failures n R opts runner (i64 (ix + 1)) (pause R opts delay s))
         else None
     | _ \<Rightarrow> None)"

text \<open>What an attempt that is not a temporary failure makes of the run.\<close>

definition final_attempt :: "'s runtime \<Rightarrow> 's retry_options \<Rightarrow> 's runner \<Rightarrow> int \<Rightarrow> 's \<Rightarrow> 's retry_outcome option" where
  "final_attempt R opts runner ix s =
    (case OnceAttempt R opts ix runner s of
       None \<Rightarrow> Some Panicked
     | Some (delay, None, s) \<Rightarrow> Some (Returned None s)
     | Some (delay, Some err, s) \<Rightarrow> map_option (\<lambda>original. Returned original s) (as_fatal err))"

lemma i64_Suc: "i64 (i64 x + y) = i64 (x + y)"
  unfolding i64_def by (metis signed_take_bit_add signed_take_bit_signed_take_bit min.idem)

lemma attempts_loop_final:
  assumes "AtMost (ro_Flags opts) = 0 \<or> ix < AtMost (ro_Flags opts)" "final_attempt R opts runner ix s = Some r"
  shows "attempts_loop (Suc fuel) R opts runner ix errs s = Some r"
  using assms by (auto simp: final_attempt_def Let_def split: option.splits prod.splits)

lemma attempts_loop_fail:
  assumes "AtMost (ro_Flags opts) = 0 \<or> ix < AtMost (ro_Flags opts)"
    "OnceAttempt R opts ix runner s = Some (delay, Some err, t)" "as_fatal err = None"
  shows "attempts_loop (Suc fuel) R opts runner ix errs s =
    attempts_loop fuel R opts runner (i64 (ix + 1))
      (errs @ take (nat (MaxErrors (ro_Flags opts) + 1) - length errs) [err]) (pause R opts delay t)"
proof -
  have "(if int (length errs) \<le> MaxErrors (ro_Flags opts) then errs @ [err] else errs) =
      errs @ take (nat (MaxErrors (ro_Flags opts) + 1) - length errs) [err]"
    by (cases "nat (MaxErrors (ro_Flags opts) + 1) - length errs") auto
  then show ?thesis using assms by (simp add: Let_def pause_def)
qed

lemma after_failures_Suc:
  assumes "after_failures (Suc n) R opts runner ix s = Some (es, t)"
  obtains delay err s1 es' where "OnceAttempt R opts ix runner s = Some (delay, Some err, s1)" "as_fatal err = None"
    "es = err # es'" "after_failures n R opts runner (i64 (ix + 1)) (pause R opts delay s1) = Some (es', t)"
  using assms that by (auto split: option.splits prod.splits if_splits)

lemma attempts_loop_failures:
  assumes "after_failures n R opts runner (i64 ix) s = Some (es, t)"
    "AtMost (ro_Flags opts) = 0 \<or> (0 \<le> ix \<and> ix + int n \<le> AtMost (ro_Flags opts) \<and> AtMost (ro_Flags opts) < 2 ^ 63)"
  shows "attempts_loop (n + fuel) R opts runner (i64 ix) errs s =
    attempts_loop fuel R opts runner (i64 (ix + int n))
      (errs @ take (nat (MaxErrors (ro_Flags opts) + 1) - length errs) es) t"
  using assms
proof (induction n arbitrary: ix errs s es)
  case (Suc n)
  let ?m = "nat (MaxErrors (ro_Flags opts) + 1)"
  obtain delay err s1 es' where o: "OnceAttempt R opts (i64 ix) runner s = Some (delay, Some err, s1)" "as_fatal err = None"
    and e: "es = err # es'" and f: "after_failures n R opts runner (i64 (ix + 1)) (pause R opts delay s1) = Some (es', t)"
    by (rule after_failures_Suc [OF Suc.prems(1)]) (simp add: i64_Suc)
  have "AtMost (ro_Flags opts) = 0 \<or> i64 ix < AtMost (ro_Flags opts)" using Suc.prems(2) by (auto simp: i64_id)
  then have "attempts_loop (Suc n + fuel) R opts runner (i64 ix) errs s =
      attempts_loop (n + fuel) R opts runner (i64 (ix + 1)) (errs @ take (?m - length errs) [err]) (pause R opts delay s1)"
    using attempts_loop_fail [OF _ o, of "n + fuel" errs] by (simp add: i64_Suc)
  also have "\<dots> = attempts_loop fuel R opts runner (i64 (ix + 1 + int n))
      ((errs @ take (?m - length errs) [err]) @ take (?m - length (errs @ take (?m - length errs) [err])) es') t"
    using Suc.prems(2) by (intro Suc.IH [OF f]) auto
  also have "(errs @ take (?m - length errs) [err]) @ take (?m - length (errs @ take (?m - length errs) [err])) es' =
      errs @ take (?m - length errs) es"
  proof (cases "?m - length errs")
    case (Suc j)
    then have "?m - Suc (length errs) = j" by simp
    then show ?thesis by (simp add: e Suc)
  qed (simp add: e)
  finally show ?case by (simp add: add.commute add.left_commute)
qed simp

text \<open>Attempts fail for ever, or one of them is the last.\<close>

lemma failures_or_final:
  "(\<exists>es t. after_failures n R opts runner (i64 ix) s = Some (es, t)) \<or>
   (\<exists>k < n. \<exists>es t r. after_failures k R opts runner (i64 ix) s = Some (es, t) \<and> final_attempt R opts runner (i64 (ix + int k)) t = Some r)"
proof (induction n arbitrary: ix s)
  case (Suc n)
  show ?case
  proof (cases "final_attempt R opts runner (i64 ix) s")
    case None
    then obtain delay err s1 where o: "OnceAttempt R opts (i64 ix) runner s = Some (delay, Some err, s1)" "as_fatal err = None"
      by (auto simp: final_attempt_def split: option.splits prod.splits)
    have step: "after_failures (Suc k) R opts runner (i64 ix) s =
        map_option (apfst ((#) err)) (after_failures k R opts runner (i64 (ix + 1)) (pause R opts delay s1))" for k
      using o by (simp add: i64_Suc)
    show ?thesis using Suc.IH [of "ix + 1" "pause R opts delay s1"]
    proof (elim disjE exE conjE)
      fix es t assume "after_failures n R opts runner (i64 (ix + 1)) (pause R opts delay s1) = Some (es, t)"
      then show ?thesis using step [of n] by simp
    next
      fix k es t r assume "k < n" "after_failures k R opts runner (i64 (ix + 1)) (pause R opts delay s1) = Some (es, t)"
        "final_attempt R opts runner (i64 (ix + 1 + int k)) t = Some r"
      then have "Suc k < Suc n" "after_failures (Suc k) R opts runner (i64 ix) s = Some (err # es, t)"
        "final_attempt R opts runner (i64 (ix + int (Suc k))) t = Some r" using step [of k] by (simp_all add: ac_simps)
      then show ?thesis by blast
    qed
  qed force
qed simp

section \<open>The outcome\<close>

lemma i64_zero: "i64 0 = 0"
  by (simp add: i64_id)

lemma RunAttempt_final:
  assumes "AtMost (ro_Flags opts) < 2 ^ 63" "after_failures n R opts runner 0 s = Some (errs, t)"
    "final_attempt R opts runner (i64 (int n)) t = Some r" "AtMost (ro_Flags opts) = 0 \<or> int n < AtMost (ro_Flags opts)" "n < fuel"
  shows "RunAttempt fuel R opts runner s = Some r"
proof -
  obtain f where f: "fuel = n + Suc f" using assms(5) less_imp_Suc_add by fastforce
  have "AtMost (ro_Flags opts) = 0 \<or> i64 (int n) < AtMost (ro_Flags opts)" using assms(1,4) by (auto simp: i64_id)
  then show ?thesis
    using attempts_loop_failures [of n R opts runner 0 s errs t "Suc f" "[]"] assms(1,2,4) attempts_loop_final [OF _ assms(3)]
    by (auto simp: RunAttempt_def f i64_zero)
qed

lemma RunAttempt_gives_up:
  assumes "AtMost (ro_Flags opts) < 2 ^ 63" "after_failures (nat (AtMost (ro_Flags opts))) R opts runner 0 s = Some (errs, t)"
    "AtMost (ro_Flags opts) \<noteq> 0" "nat (AtMost (ro_Flags opts)) < fuel"
  shows "RunAttempt fuel R opts runner s =
    Some (Returned (Some (gave_up (AtMost (ro_Flags opts)) (take (nat (MaxErrors (ro_Flags opts) + 1)) errs))) t)"
proof -
  let ?A = "AtMost (ro_Flags opts)"
  obtain f where f: "fuel = nat ?A + Suc f" using assms(4) less_imp_Suc_add by fastforce
  show ?thesis
  proof (cases "0 < ?A")
    case True
    then have "attempts_loop fuel R opts runner (i64 0) [] s =
        attempts_loop (Suc f) R opts runner (i64 (0 + int (nat ?A))) ([] @ take (nat (MaxErrors (ro_Flags opts) + 1) - length ([] :: retry_error list)) errs) t"
      unfolding f using assms(1,2) by (intro attempts_loop_failures) (simp_all add: i64_zero)
    then show ?thesis using True assms(1) by (simp add: RunAttempt_def i64_zero i64_id)
  next
    case False
    then show ?thesis using assms by (simp add: RunAttempt_def f)
  qed
qed

lemma RunAttempt_total:
  assumes "AtMost (ro_Flags opts) < 2 ^ 63" "AtMost (ro_Flags opts) \<noteq> 0"
  shows "\<exists>r. \<forall>fuel > nat (AtMost (ro_Flags opts)). RunAttempt fuel R opts runner s = Some r"
  using failures_or_final [of "nat (AtMost (ro_Flags opts))" R opts runner 0 s]
proof (elim disjE exE conjE)
  fix es t assume "after_failures (nat (AtMost (ro_Flags opts))) R opts runner (i64 0) s = Some (es, t)"
  then have "after_failures (nat (AtMost (ro_Flags opts))) R opts runner 0 s = Some (es, t)" by (simp add: i64_zero)
  from RunAttempt_gives_up [OF assms(1) this assms(2)] show ?thesis by blast
next
  fix k es t r assume k: "k < nat (AtMost (ro_Flags opts))" "after_failures k R opts runner (i64 0) s = Some (es, t)"
    "final_attempt R opts runner (i64 (0 + int k)) t = Some r"
  moreover from k have "int k < AtMost (ro_Flags opts)" by linarith
  ultimately show ?thesis using RunAttempt_final [OF assms(1), of k R runner s es t r] by (intro exI [of _ r]) (auto simp: i64_zero)
qed

lemma RunAttempt_for_ever:
  assumes "AtMost (ro_Flags opts) = 0"
  shows "(\<forall>fuel. RunAttempt fuel R opts runner s = None) \<longleftrightarrow> (\<forall>n. after_failures n R opts runner 0 s \<noteq> None)"
proof (intro iffI allI)
  fix n assume none: "\<forall>fuel. RunAttempt fuel R opts runner s = None"
  show "after_failures n R opts runner 0 s \<noteq> None" using failures_or_final [of n R opts runner 0 s]
  proof (elim disjE exE conjE)
    fix k es t r assume "after_failures k R opts runner (i64 0) s = Some (es, t)" "final_attempt R opts runner (i64 (0 + int k)) t = Some r"
    then have "RunAttempt (Suc k) R opts runner s = Some r" using RunAttempt_final [of opts k R runner s es t r "Suc k"] assms by (simp add: i64_zero)
    then show ?thesis using none by simp
  qed (simp add: i64_zero)
next
  fix fuel assume "\<forall>n. after_failures n R opts runner 0 s \<noteq> None"
  then obtain es t where "after_failures fuel R opts runner 0 s = Some (es, t)" by fastforce
  then show "RunAttempt fuel R opts runner s = None"
    using attempts_loop_failures [of fuel R opts runner 0 s es t 0 "[]"] assms by (simp add: RunAttempt_def i64_zero)
qed

text \<open>
  C28: A run calls the runner with the attempts 0, 1, ... in turn and pauses after each failure. It ends at the first
  attempt that succeeds (with no error) or fails with a fatal error (with the error it wraps); after \<open>AtMost\<close>
  temporary failures it gives up with an ExaustedError that holds the first \<open>MaxErrors + 1\<close> of the errors. It always
  returns when \<open>AtMost\<close> is not zero, and when it is zero it runs for ever exactly when every attempt fails temporarily.
\<close>

theorem RunAttempt_exact:
  assumes "- (2 ^ 63) \<le> AtMost (ro_Flags opts)" "AtMost (ro_Flags opts) < 2 ^ 63"
  shows "(after_failures n R opts runner 0 s = Some (errs, t) \<and> final_attempt R opts runner (i64 (int n)) t = Some r \<and>
      (AtMost (ro_Flags opts) = 0 \<or> int n < AtMost (ro_Flags opts)) \<longrightarrow>
      (\<forall>fuel > n. RunAttempt fuel R opts runner s = Some r)) \<and>
    (after_failures (nat (AtMost (ro_Flags opts))) R opts runner 0 s = Some (errs, t) \<and> AtMost (ro_Flags opts) \<noteq> 0 \<longrightarrow>
      (\<forall>fuel > nat (AtMost (ro_Flags opts)). RunAttempt fuel R opts runner s =
        Some (Returned (Some (gave_up (AtMost (ro_Flags opts)) (take (nat (MaxErrors (ro_Flags opts) + 1)) errs))) t))) \<and>
    (AtMost (ro_Flags opts) \<noteq> 0 \<longrightarrow> (\<exists>r. \<forall>fuel > nat (AtMost (ro_Flags opts)). RunAttempt fuel R opts runner s = Some r)) \<and>
    (AtMost (ro_Flags opts) = 0 \<longrightarrow>
      ((\<forall>fuel. RunAttempt fuel R opts runner s = None) \<longleftrightarrow> (\<forall>n. after_failures n R opts runner 0 s \<noteq> None)))"
  using RunAttempt_final [OF assms(2)] RunAttempt_gives_up [OF assms(2)] RunAttempt_total [OF assms(2)] RunAttempt_for_ever [of opts R runner s]
  by blast

lemma RunAttempt_exact_witness:
  "RunAttempt 3 \<lparr>rt_Now = \<lambda>s. (s, s), rt_Sleep = \<lambda>d s. s + d, rt_Int63n = \<lambda>n s. (0, s)\<rparr>
      (retry_New \<lparr>rt_Now = \<lambda>s. (s, s), rt_Sleep = \<lambda>d s. s + d, rt_Int63n = \<lambda>n s. (0, s)\<rparr> [WithAttempts 2])
      (\<lambda>ix s. (Some (PlainError ''down''), s + 1)) 5 =
    Some (Returned (Some (gave_up 2 [PlainError ''down'', PlainError ''down''])) 2000000005)"
proof -
  let ?R = "\<lparr>rt_Now = \<lambda>s. (s, s), rt_Sleep = \<lambda>d s. s + d, rt_Int63n = \<lambda>n s. (0, s)\<rparr> :: time runtime"
  let ?o = "retry_New ?R [WithAttempts 2]"
  let ?r = "\<lambda>ix s. (Some (PlainError ''down''), s + 1) :: retry_error option \<times> time"
  have o: "AtMost (ro_Flags ?o) = 2" "MaxErrors (ro_Flags ?o) = 10"
    by (simp_all add: retry_New_def Modifiers_Apply_def WithAttempts_def DefaultFlags_def)
  have a: "OnceAttempt ?R ?o ix ?r s = Some (999999999, Some (PlainError ''down''), s + 1)" if "0 \<le> s" for ix s
    using that by (simp add: OnceAttempt_def DelaySince_def Delay_def Time_Sub_def zero_Time_def second_def retry_New_def
        Modifiers_Apply_def WithAttempts_def DefaultFlags_def logger_Nil_def i64_id)
  have p: "pause ?R ?o 999999999 s = s + 999999999" for s
    by (simp add: pause_def retry_New_def Modifiers_Apply_def WithAttempts_def)
  have "after_failures 2 ?R ?o ?r 0 5 = Some ([PlainError ''down'', PlainError ''down''], 2000000005)"
    by (simp add: numeral_2_eq_2 a p)
  then show ?thesis
    using RunAttempt_exact [of ?o 2 ?R ?r 5 "[PlainError ''down'', PlainError ''down'']" 2000000005, THEN conjunct2, THEN conjunct1] o by simp
qed

text \<open>\<open>Fatal(nil)\<close>, whose text is "requested to stop retrying", stops the run with the nil error: a success.\<close>

lemma fatal_nil_is_success:
  assumes "ro_Now opts = Some now" "AtMost (ro_Flags opts) = 0 \<or> 0 < AtMost (ro_Flags opts)"
  shows "\<exists>t. RunAttempt (Suc fuel) R opts (\<lambda>ix s. (Some (Fatal None), s)) s = Some (Returned None t)"
proof -
  obtain t where "final_attempt R opts (\<lambda>ix s. (Some (Fatal None), s)) 0 s = Some (Returned None t)"
    by (cases "now s") (simp add: final_attempt_def OnceAttempt_def Fatal_def assms(1))
  then show ?thesis unfolding RunAttempt_def using attempts_loop_final [OF assms(2)] by blast
qed

section \<open>The time between attempts\<close>

text \<open>
  Reading a clock changes nothing and nothing turns it back; a sleep lasts as long as it is asked to. Then no two
  attempts start within \<open>Wait\<close> of each other.
\<close>

definition good_clock :: "('s \<Rightarrow> time) \<Rightarrow> 's runtime \<Rightarrow> 's retry_options \<Rightarrow> 's runner \<Rightarrow> bool" where
  "good_clock clk R opts runner \<longleftrightarrow>
    ro_Now opts = Some (\<lambda>s. (clk s, s)) \<and> (\<forall>s. clk s \<noteq> zero_Time) \<and>
    (\<forall>d s. 0 < d \<longrightarrow> clk s + d \<le> clk ((case ro_Sleep opts of Some sleep \<Rightarrow> sleep | None \<Rightarrow> rt_Sleep R) d s)) \<and>
    (\<forall>ix s. clk s \<le> clk (snd (runner ix s))) \<and>
    (\<forall>e ix d err m s. clk s \<le> clk (ro_logger opts e ix d err m s)) \<and>
    (\<forall>n s. 0 < n \<longrightarrow> (case (case ro_rng opts of Some r \<Rightarrow> r | None \<Rightarrow> rt_Int63n R) n s of (x, t) \<Rightarrow> 0 \<le> x \<and> x < n \<and> clk s \<le> clk t))"

lemma Delay_bounds:
  assumes "good_clock clk R opts runner" "0 \<le> Wait (ro_Flags opts)" "0 \<le> Fuzzy (ro_Flags opts)"
    "Wait (ro_Flags opts) + Fuzzy (ro_Flags opts) < 2 ^ 63" "Delay R opts s = (d, t)"
  shows "Wait (ro_Flags opts) \<le> d \<and> d \<le> Wait (ro_Flags opts) + Fuzzy (ro_Flags opts) \<and> d < 2 ^ 63 \<and> clk s \<le> clk t"
proof (cases "0 < Fuzzy (ro_Flags opts)")
  case True
  obtain x t' where r: "(case ro_rng opts of Some r \<Rightarrow> r | None \<Rightarrow> rt_Int63n R) (Fuzzy (ro_Flags opts)) s = (x, t')" by fastforce
  have "case (case ro_rng opts of Some r \<Rightarrow> r | None \<Rightarrow> rt_Int63n R) (Fuzzy (ro_Flags opts)) s of
      (x, t) \<Rightarrow> 0 \<le> x \<and> x < Fuzzy (ro_Flags opts) \<and> clk s \<le> clk t"
    by (rule assms(1) [unfolded good_clock_def, THEN conjunct2, THEN conjunct2, THEN conjunct2, THEN conjunct2, THEN conjunct2,
        THEN spec, THEN spec, THEN mp, OF True])
  then have x: "0 \<le> x" "x < Fuzzy (ro_Flags opts)" "clk s \<le> clk t'" unfolding r by simp_all
  then have "i64 (Wait (ro_Flags opts) + x) = Wait (ro_Flags opts) + x" using assms(2,4) by (intro i64_id) linarith+
  then show ?thesis using assms x r True by (auto simp: Delay_def)
next
  case False
  then show ?thesis using assms by (auto simp: Delay_def i64_id)
qed

lemma attempts_spaced:
  assumes "good_clock clk R opts runner" "0 \<le> Wait (ro_Flags opts)" "0 \<le> Fuzzy (ro_Flags opts)"
    "Wait (ro_Flags opts) + Fuzzy (ro_Flags opts) < 2 ^ 63"
    "OnceAttempt R opts ix runner s = Some (delay, Some err, t)" "as_fatal err = None"
  shows "clk s + Wait (ro_Flags opts) \<le> clk (pause R opts delay t)"
proof -
  note g = assms(1) [unfolded good_clock_def]
  obtain e s1 where r: "runner ix s = (e, s1)" by fastforce
  obtain d s2 where d: "Delay R opts s1 = (d, s2)" by fastforce
  note b = Delay_bounds [OF assms(1-4) d]
  have s1: "clk s \<le> clk s1" using g r by (metis snd_conv)
  let ?e = "Time_Sub (clk s2) (clk s)"
  let ?w = "if d \<le> ?e then 0 else i64 (d - ?e)"
  have w: "?w = max 0 (d - ?e)" using b s1 assms(2) by (auto simp: Time_Sub_def i64_id)
  have n: "clk s \<noteq> zero_Time" using g by blast
  have "delay = ?w \<and> clk s2 \<le> clk t"
    using assms(5,6) g r d n by (auto simp: OnceAttempt_def DelaySince_def Let_def split: option.splits if_splits)
  moreover have "clk t + max 0 ?w \<le> clk (pause R opts ?w t)" using g by (auto simp: pause_def)
  ultimately show ?thesis unfolding w using b s1 by (auto simp: Time_Sub_def split: if_splits)
qed

lemma runs_spaced:
  assumes "good_clock clk R opts runner" "0 \<le> Wait (ro_Flags opts)" "0 \<le> Fuzzy (ro_Flags opts)"
    "Wait (ro_Flags opts) + Fuzzy (ro_Flags opts) < 2 ^ 63" "after_failures n R opts runner ix s = Some (es, t)"
  shows "clk s + int n * Wait (ro_Flags opts) \<le> clk t"
  using assms(5)
proof (induction n arbitrary: ix s es)
  case (Suc n)
  obtain delay err s1 es' where o: "OnceAttempt R opts ix runner s = Some (delay, Some err, s1)" "as_fatal err = None"
    and f: "after_failures n R opts runner (i64 (ix + 1)) (pause R opts delay s1) = Some (es', t)"
    by (rule after_failures_Suc [OF Suc.prems])
  show ?case using Suc.IH [OF f] attempts_spaced [OF assms(1-4) o] by (simp add: algebra_simps)
qed simp

end
