(* ===== verification/Guard.thy ===== *)
theory Guard imports Prelude begin

text \<open>
  The clients of the two services (\<^verbatim>\<open>flextape/client/client.go\<close>, \<^verbatim>\<open>allocation_manager/client/client.go\<close>), which guard
  a command with a license or a unit. The same machine runs in both: \<^verbatim>\<open>Guard\<close> itself, the goroutine that refreshes and
  the one that runs the command, with the two unbuffered channels between them and the context they share. A step is
  what happens between two blocking operations of one goroutine, or a message from one to another; the answers of
  the service, the end of the command and a cancellation by the caller can come at any time.
\<close>

section \<open>The client\<close>

text \<open>What differs between the two: the texts of the errors and the times between calls.\<close>

record client =
  c_obtain :: string
  c_lost :: string
  c_poll_sleep :: "time \<Rightarrow> time"
  c_refresh_sleep :: "time \<Rightarrow> time"

text \<open>Go divides towards zero; a product of durations wraps.\<close>

definition three_fifths :: "time \<Rightarrow> time" where
  "three_fifths d = (let x = i64 (d * 3) in sgn x * (\<bar>x\<bar> div 5))"

definition client_poll_sleep :: "time \<Rightarrow> time" where
  "client_poll_sleep until = min (three_fifths until) 5000000000"

definition flextape_refresh_sleep :: "time \<Rightarrow> time" where
  "flextape_refresh_sleep until = (if until < 0 then 100000000 else min (three_fifths until) 5000000000)"

definition allocation_refresh_sleep :: "time \<Rightarrow> time" where
  "allocation_refresh_sleep until = min (three_fifths until) 5000000000"

definition flextape_client :: client where
  "flextape_client = \<lparr>c_obtain = ''failed to obtain license: '', c_lost = ''lost license and killed job: '',
    c_poll_sleep = client_poll_sleep, c_refresh_sleep = flextape_refresh_sleep\<rparr>"

definition allocation_client :: client where
  "allocation_client = \<lparr>c_obtain = ''failed to allocate Unit: '', c_lost = ''lost allocation and killed job: '',
    c_poll_sleep = client_poll_sleep, c_refresh_sleep = allocation_refresh_sleep\<rparr>"

section \<open>The three goroutines\<close>

text \<open>The error of a command is \<^const>\<open>None\<close> when it succeeds. A call notes the invocation it names, and a refresh the
  error of the context it is made with.\<close>

datatype guard_call =
    AllocateCall string
  | RefreshCall string "string option"
  | ReleaseCall string
  | JobStart
  | JobEnd "string option"

datatype main_pc =
    Acquiring
  | PollSleep time
  | Selecting
  | KillWait "string option"
  | Stopping
  | Releasing "string option"
  | GuardDone "string option"

datatype refresh_pc = NotStarted | Calling | Answering | Sending string | Sleeping time | Closed

datatype job_pc = JobIdle | JobStarting | JobRunning | JobEnding "string option" | JobDone

record guard =
  g_main :: main_pc
  g_refresh :: refresh_pc
  g_job :: job_pc
  g_ctx :: "string option"
  g_id :: string
  g_calls :: "guard_call list"

definition guard_start :: guard where
  "guard_start = \<lparr>g_main = Acquiring, g_refresh = NotStarted, g_job = JobIdle, g_ctx = None, g_id = [], g_calls = []\<rparr>"

definition log_call :: "guard_call \<Rightarrow> guard \<Rightarrow> guard" where
  "log_call c s = s\<lparr>g_calls := g_calls s @ [c]\<rparr>"

text \<open>\<^verbatim>\<open>cancel()\<close>, which does nothing to a context that is done.\<close>

definition cancel :: "guard \<Rightarrow> guard" where
  "cancel s = s\<lparr>g_ctx := Some (case g_ctx s of None \<Rightarrow> ''context canceled'' | Some e \<Rightarrow> e)\<rparr>"

inductive guard_step :: "client \<Rightarrow> guard \<Rightarrow> guard \<Rightarrow> bool" for c where
  caller_cancels: "g_ctx s = None \<Longrightarrow> guard_step c s (s\<lparr>g_ctx := Some e\<rparr>)"
| allocate_fails: "g_main s = Acquiring \<Longrightarrow>
    guard_step c s (log_call (AllocateCall (g_id s)) s\<lparr>g_main := GuardDone (Some (c_obtain c @ e))\<rparr>)"
| allocate_queued: "g_main s = Acquiring \<Longrightarrow>
    guard_step c s (log_call (AllocateCall (g_id s)) s\<lparr>g_main := PollSleep (c_poll_sleep c until), g_id := i\<rparr>)"
| poll_again: "g_main s = PollSleep d \<Longrightarrow> guard_step c s (s\<lparr>g_main := Acquiring\<rparr>)"
| allocate_done: "g_main s = Acquiring \<Longrightarrow>
    guard_step c s (log_call (AllocateCall (g_id s)) s\<lparr>g_main := Selecting, g_id := i, g_refresh := Calling, g_job := JobStarting\<rparr>)"
| refresh_calls: "g_refresh s = Calling \<Longrightarrow>
    guard_step c s (log_call (RefreshCall (g_id s) (g_ctx s)) s\<lparr>g_refresh := Answering\<rparr>)"
| refresh_answered: "g_refresh s = Answering \<Longrightarrow> guard_step c s (s\<lparr>g_refresh := Sleeping (c_refresh_sleep c until)\<rparr>)"
| refresh_fails: "g_refresh s = Answering \<Longrightarrow> guard_step c s (s\<lparr>g_refresh := Sending (''Refresh() failure: '' @ e)\<rparr>)"
| refresh_again: "g_refresh s = Sleeping d \<Longrightarrow> guard_step c s (s\<lparr>g_refresh := Calling\<rparr>)"
| refresh_stops: "g_refresh s = Sleeping d \<Longrightarrow> g_ctx s \<noteq> None \<Longrightarrow> guard_step c s (s\<lparr>g_refresh := Closed\<rparr>)"
| job_starts: "g_job s = JobStarting \<Longrightarrow> g_ctx s = None \<Longrightarrow> guard_step c s (log_call JobStart s\<lparr>g_job := JobRunning\<rparr>)"
| job_cannot_start: "g_job s = JobStarting \<Longrightarrow> guard_step c s (log_call (JobEnd (Some e)) s\<lparr>g_job := JobEnding (Some e)\<rparr>)"
| job_ends: "g_job s = JobRunning \<Longrightarrow> guard_step c s (log_call (JobEnd r) s\<lparr>g_job := JobEnding r\<rparr>)"
| lost_by_error: "g_main s = Selecting \<Longrightarrow> g_refresh s = Sending e \<Longrightarrow>
    guard_step c s (cancel s\<lparr>g_main := KillWait (Some e), g_refresh := Sleeping (c_refresh_sleep c until)\<rparr>)"
| lost_by_close: "g_main s = Selecting \<Longrightarrow> g_refresh s = Closed \<Longrightarrow> guard_step c s (cancel s\<lparr>g_main := KillWait None\<rparr>)"
| job_succeeded: "g_main s = Selecting \<Longrightarrow> g_job s = JobEnding None \<Longrightarrow>
    guard_step c s (cancel s\<lparr>g_main := Stopping, g_job := JobDone\<rparr>)"
| job_failed: "g_main s = Selecting \<Longrightarrow> g_job s = JobEnding (Some e) \<Longrightarrow>
    guard_step c s (s\<lparr>g_main := Releasing (Some (''job failed: '' @ e)), g_job := JobDone\<rparr>)"
| job_killed: "g_main s = KillWait err \<Longrightarrow> g_job s = JobEnding r \<Longrightarrow>
    guard_step c s (s\<lparr>g_main := Releasing (Some (c_lost c @ (case err of Some e \<Rightarrow> e | None \<Rightarrow> the (g_ctx s)))), g_job := JobDone\<rparr>)"
| stop_error: "g_main s = Stopping \<Longrightarrow> g_refresh s = Sending e \<Longrightarrow>
    guard_step c s (s\<lparr>g_main := Releasing None, g_refresh := Sleeping (c_refresh_sleep c until)\<rparr>)"
| stop_closed: "g_main s = Stopping \<Longrightarrow> g_refresh s = Closed \<Longrightarrow> guard_step c s (s\<lparr>g_main := Releasing None\<rparr>)"
| releases: "g_main s = Releasing r \<Longrightarrow>
    guard_step c s (log_call (ReleaseCall (g_id s)) s\<lparr>g_main := GuardDone r\<rparr>)"

inductive guard_reach :: "client \<Rightarrow> guard \<Rightarrow> bool" for c where
  reach_start: "guard_reach c guard_start"
| reach_step: "guard_reach c s \<Longrightarrow> guard_step c s t \<Longrightarrow> guard_reach c t"

inductive_cases guard_stepE: "guard_step c s t"

text \<open>The two programs.\<close>

definition flextape_guard :: "guard \<Rightarrow> guard \<Rightarrow> bool" where
  "flextape_guard = guard_step flextape_client"

definition allocation_guard :: "guard \<Rightarrow> guard \<Rightarrow> bool" where
  "allocation_guard = guard_step allocation_client"

section \<open>Invariant\<close>

definition is_release :: "guard_call \<Rightarrow> bool" where
  "is_release x \<longleftrightarrow> (case x of ReleaseCall i \<Rightarrow> True | _ \<Rightarrow> False)"

definition releases_in :: "guard_call list \<Rightarrow> nat" where
  "releases_in xs = length (filter is_release xs)"

text \<open>The refreshes after the release, made while the context was live.\<close>

definition late_refresh :: "guard_call list \<Rightarrow> bool" where
  "late_refresh xs \<longleftrightarrow> (\<exists>i. RefreshCall i None \<in> set (dropWhile (\<lambda>x. \<not> is_release x) xs))"

definition failed_job :: "string option \<Rightarrow> bool" where
  "failed_job r \<longleftrightarrow> (\<exists>e. r = Some (''job failed: '' @ e))"

text \<open>What each point of \<open>Guard\<close> knows of the others.\<close>

definition main_inv :: "guard \<Rightarrow> bool" where
  "main_inv s \<longleftrightarrow> (case g_main s of
     Acquiring \<Rightarrow> g_refresh s = NotStarted \<and> g_job s = JobIdle
   | PollSleep d \<Rightarrow> g_refresh s = NotStarted \<and> g_job s = JobIdle
   | Selecting \<Rightarrow> g_refresh s \<noteq> NotStarted \<and> g_job s \<notin> {JobIdle, JobDone}
   | KillWait err \<Rightarrow> g_refresh s \<noteq> NotStarted \<and> g_job s \<notin> {JobIdle, JobDone} \<and> g_ctx s \<noteq> None
   | Stopping \<Rightarrow> g_refresh s \<noteq> NotStarted \<and> g_job s = JobDone \<and> g_ctx s \<noteq> None \<and> JobEnd None \<in> set (g_calls s)
   | Releasing r \<Rightarrow> g_refresh s \<noteq> NotStarted \<and> g_job s = JobDone \<and> (r = None \<longrightarrow> JobEnd None \<in> set (g_calls s)) \<and> (failed_job r \<or> g_ctx s \<noteq> None)
   | GuardDone r \<Rightarrow>
       if g_refresh s = NotStarted then g_job s = JobIdle \<and> r \<noteq> None
       else g_job s = JobDone \<and> (r = None \<longrightarrow> JobEnd None \<in> set (g_calls s)) \<and> (failed_job r \<or> g_ctx s \<noteq> None))"

definition calls_inv :: "guard \<Rightarrow> bool" where
  "calls_inv s \<longleftrightarrow>
    releases_in (g_calls s) = (case g_main s of GuardDone r \<Rightarrow> if g_refresh s = NotStarted then 0 else 1 | _ \<Rightarrow> 0) \<and>
    (\<forall>r. g_job s = JobEnding r \<longrightarrow> JobEnd r \<in> set (g_calls s)) \<and>
    (late_refresh (g_calls s) \<longrightarrow> (\<exists>r. g_main s = GuardDone r \<and> failed_job r))"

end
