(* ===== verification/Guard_Props.thy ===== *)
theory Guard_Props imports Guard begin

text \<open>What a guarded command, its license and the caller of \<^verbatim>\<open>Guard\<close> can rely on.\<close>

section \<open>Every step keeps the invariant\<close>

lemma releases_in_snoc [simp]: "releases_in (xs @ [x]) = releases_in xs + (if is_release x then 1 else 0)"
  by (simp add: releases_in_def)

lemma releases_in_Nil [simp]: "releases_in [] = 0"
  by (simp add: releases_in_def)

lemma is_release_simps [simp]:
  "is_release (ReleaseCall i)" "\<not> is_release (AllocateCall i)" "\<not> is_release (RefreshCall i e)" "\<not> is_release JobStart" "\<not> is_release (JobEnd r)"
  by (simp_all add: is_release_def)

lemma no_release: "releases_in xs = 0 \<Longrightarrow> dropWhile (\<lambda>x. \<not> is_release x) xs = []"
  by (auto simp: releases_in_def filter_empty_conv)

lemma late_refresh_snoc: "late_refresh (xs @ [x]) \<longleftrightarrow> late_refresh xs \<or> (releases_in xs \<noteq> 0 \<and> (\<exists>i. x = RefreshCall i None))"
proof (cases "\<exists>y \<in> set xs. is_release y")
  case True
  then have "releases_in xs \<noteq> 0" by (auto simp: releases_in_def filter_empty_conv)
  then show ?thesis using True by (auto simp: late_refresh_def dropWhile_append)
next
  case False
  then have z: "releases_in xs = 0" by (auto simp: releases_in_def filter_empty_conv)
  have "dropWhile (\<lambda>x. \<not> is_release x) (xs @ [x]) = dropWhile (\<lambda>x. \<not> is_release x) [x]"
    using False by (simp add: dropWhile_append)
  then have "\<not> late_refresh (xs @ [x])" by (auto simp: late_refresh_def)
  moreover have "\<not> late_refresh xs" unfolding late_refresh_def no_release [OF z] by simp
  ultimately show ?thesis using z by simp
qed

lemma late_refresh_Nil [simp]: "\<not> late_refresh []"
  by (simp add: late_refresh_def)

lemmas guard_defs = main_inv_def calls_inv_def log_call_def cancel_def failed_job_def

lemma start_inv: "main_inv guard_start" "calls_inv guard_start"
  by (simp_all add: guard_defs guard_start_def)

lemma step_main_inv: "guard_step c s t \<Longrightarrow> main_inv s \<Longrightarrow> calls_inv s \<Longrightarrow> main_inv t"
  by (erule guard_step.cases) (auto simp: guard_defs split: main_pc.splits if_splits)

lemma step_calls_inv: "guard_step c s t \<Longrightarrow> main_inv s \<Longrightarrow> calls_inv s \<Longrightarrow> calls_inv t"
  by (erule guard_step.cases) (auto simp: guard_defs late_refresh_snoc split: main_pc.splits if_splits)

lemma reach_inv: "guard_reach c s \<Longrightarrow> main_inv s \<and> calls_inv s"
  by (induction rule: guard_reach.induct) (use start_inv step_main_inv step_calls_inv in blast)+

section \<open>The end of Guard\<close>

text \<open>The steps that are left when the service answers, the command ends and nobody waits longer than needed.\<close>

fun refresh_rank :: "refresh_pc \<Rightarrow> nat" where
  "refresh_rank (Sending e) = 1"
| "refresh_rank Closed = 1"
| "refresh_rank (Sleeping d) = 2"
| "refresh_rank Answering = 2"
| "refresh_rank _ = 3"

fun job_rank :: "job_pc \<Rightarrow> nat" where
  "job_rank (JobEnding r) = 1"
| "job_rank _ = 2"

definition guard_rank :: "guard \<Rightarrow> nat" where
  "guard_rank s = (case g_main s of
     GuardDone r \<Rightarrow> 0
   | Releasing r \<Rightarrow> 1
   | Acquiring \<Rightarrow> 1
   | PollSleep d \<Rightarrow> 2
   | Stopping \<Rightarrow> 1 + refresh_rank (g_refresh s)
   | KillWait e \<Rightarrow> 1 + job_rank (g_job s)
   | Selecting \<Rightarrow> if g_job s = JobEnding None then 6 else 1 + job_rank (g_job s))"

lemma refresh_rank_step:
  assumes "g_main s = Stopping" "main_inv s"
  shows "\<exists>t. guard_step c s t \<and> guard_rank t < guard_rank s"
proof (cases "g_refresh s")
  case Calling
  then show ?thesis using assms(1) refresh_calls [of s c] by (force simp: guard_rank_def log_call_def)
next
  case Answering
  then show ?thesis using assms(1) refresh_fails [of s c "[]"] by (force simp: guard_rank_def)
next
  case (Sending e)
  then show ?thesis using assms(1) stop_error [of s e c] by (force simp: guard_rank_def)
next
  case (Sleeping d)
  moreover have "g_ctx s \<noteq> None" using assms by (simp add: main_inv_def)
  ultimately show ?thesis using assms(1) refresh_stops [of s d c] by (force simp: guard_rank_def)
next
  case Closed
  then show ?thesis using assms(1) stop_closed [of s c] by (force simp: guard_rank_def)
qed (use assms in \<open>simp add: main_inv_def\<close>)

lemma job_rank_step:
  assumes "g_main s = Selecting \<or> (\<exists>e. g_main s = KillWait e)" "main_inv s" "\<nexists>r. g_job s = JobEnding r"
  shows "\<exists>t. guard_step c s t \<and> guard_rank t < guard_rank s"
proof (cases "g_job s")
  case JobStarting
  then show ?thesis using assms(1) job_cannot_start [of s c "[]"] by (force simp: guard_rank_def log_call_def)
next
  case JobRunning
  then show ?thesis using assms(1) job_ends [of s c "Some []"] by (force simp: guard_rank_def log_call_def)
qed (use assms in \<open>auto simp: main_inv_def\<close>)

lemma guard_rank_step:
  assumes "main_inv s" "\<nexists>r. g_main s = GuardDone r"
  shows "\<exists>t. guard_step c s t \<and> guard_rank t < guard_rank s"
proof (cases "g_main s")
  case Acquiring
  then show ?thesis using allocate_fails [of s c "[]"] by (force simp: guard_rank_def log_call_def)
next
  case (PollSleep d)
  then show ?thesis using poll_again [of s d c] by (force simp: guard_rank_def)
next
  case Selecting
  show ?thesis
  proof (cases "g_job s")
    case (JobEnding r)
    then show ?thesis
      using Selecting job_succeeded [of s c] job_failed [of s _ c]
      by (cases r; cases "g_refresh s") (force simp: guard_rank_def cancel_def)+
  qed (use Selecting assms job_rank_step in auto)
next
  case (KillWait e)
  show ?thesis
  proof (cases "g_job s")
    case (JobEnding r)
    then show ?thesis using KillWait job_killed [of s e r c] by (force simp: guard_rank_def)
  qed (use KillWait assms job_rank_step in auto)
next
  case Stopping
  then show ?thesis using refresh_rank_step assms by blast
next
  case (Releasing r)
  then show ?thesis using releases [of s r c] by (force simp: guard_rank_def log_call_def)
qed (use assms in simp)

lemma guard_can_finish: "guard_reach c s \<Longrightarrow> \<exists>t r. (guard_step c)\<^sup>*\<^sup>* s t \<and> g_main t = GuardDone r"
proof (induction "guard_rank s" arbitrary: s rule: less_induct)
  case less
  show ?case
  proof (cases "\<exists>r. g_main s = GuardDone r")
    case False
    then obtain t where t: "guard_step c s t" "guard_rank t < guard_rank s"
      using guard_rank_step reach_inv [OF less.prems] by blast
    then show ?thesis using less.hyps reach_step [OF less.prems t(1)] converse_rtranclp_into_rtranclp by metis
  qed blast
qed

section \<open>What Guard promises\<close>

text \<open>A run in which the command fails before the first refresh is made: the context stays live, and the refresh is
  made after the release.\<close>

definition late_state :: guard where
  "late_state = \<lparr>g_main = GuardDone (Some (''job failed: '' @ ''exit status 1'')), g_refresh = Answering, g_job = JobDone, g_ctx = None,
    g_id = ''a'', g_calls = [AllocateCall [], JobStart, JobEnd (Some ''exit status 1''), ReleaseCall ''a'', RefreshCall ''a'' None]\<rparr>"

lemma late_reach: "guard_reach c late_state"
proof -
  let ?s1 = "\<lparr>g_main = Selecting, g_refresh = Calling, g_job = JobStarting, g_ctx = None, g_id = ''a'', g_calls = [AllocateCall []]\<rparr>"
  let ?s2 = "?s1\<lparr>g_job := JobRunning, g_calls := [AllocateCall [], JobStart]\<rparr>"
  let ?s3 = "?s2\<lparr>g_job := JobEnding (Some ''exit status 1''), g_calls := [AllocateCall [], JobStart, JobEnd (Some ''exit status 1'')]\<rparr>"
  let ?s4 = "?s3\<lparr>g_main := Releasing (Some (''job failed: '' @ ''exit status 1'')), g_job := JobDone\<rparr>"
  let ?s5 = "?s4\<lparr>g_main := GuardDone (Some (''job failed: '' @ ''exit status 1'')),
    g_calls := [AllocateCall [], JobStart, JobEnd (Some ''exit status 1''), ReleaseCall ''a'']\<rparr>"
  have "guard_step c guard_start ?s1" using allocate_done [of guard_start c "''a''"] by (simp add: guard_start_def log_call_def)
  moreover have "guard_step c ?s1 ?s2" using job_starts [of ?s1 c] by (simp add: log_call_def)
  moreover have "guard_step c ?s2 ?s3" using job_ends [of ?s2 c "Some ''exit status 1''"] by (simp add: log_call_def)
  moreover have "guard_step c ?s3 ?s4" using job_failed [of ?s3 "''exit status 1''" c] by simp
  moreover have "guard_step c ?s4 ?s5" using releases [of ?s4 _ c] by (simp add: log_call_def)
  moreover have "guard_step c ?s5 late_state" using refresh_calls [of ?s5 c] by (simp add: log_call_def late_state_def)
  ultimately show ?thesis using reach_start reach_step by metis
qed

lemma refresh_after_release: "guard_reach c late_state \<and> late_refresh (g_calls late_state)"
  using late_reach by (simp add: late_refresh_def late_state_def)

text \<open>
  C10: In every interleaving of \<^verbatim>\<open>Guard\<close>, its refresher, the command and the caller: the command runs only after the
  allocation was granted and before it is released; the release is sent exactly once, at the end, and only when the
  allocation was granted; \<^verbatim>\<open>Guard\<close> succeeds only if the command did; a refresh with a live context comes after the
  release only when the command failed; and wherever it is, \<^verbatim>\<open>Guard\<close> can still return.
\<close>

theorem guard_safe:
  assumes "guard_reach c s"
  shows "(g_job s = JobRunning \<longrightarrow> releases_in (g_calls s) = 0 \<and> (g_main s = Selecting \<or> (\<exists>e. g_main s = KillWait e))) \<and>
    releases_in (g_calls s) = (if (\<exists>r. g_main s = GuardDone r) \<and> g_refresh s \<noteq> NotStarted then 1 else 0) \<and>
    (g_main s = GuardDone None \<longrightarrow> JobEnd None \<in> set (g_calls s) \<and> releases_in (g_calls s) = 1) \<and>
    (late_refresh (g_calls s) \<longrightarrow> (\<exists>e. g_main s = GuardDone (Some (''job failed: '' @ e)))) \<and>
    (\<exists>t r. (guard_step c)\<^sup>*\<^sup>* s t \<and> g_main t = GuardDone r)"
  using reach_inv [OF assms] guard_can_finish [OF assms]
  by (cases "g_main s") (auto simp: main_inv_def calls_inv_def failed_job_def split: if_splits)

theorem guard_safe_witness:
  "releases_in (g_calls late_state) = 1 \<and> (\<exists>e. g_main late_state = GuardDone (Some (''job failed: '' @ e)))"
  using guard_safe [OF late_reach [of flextape_client]] refresh_after_release [of flextape_client] by (simp add: late_state_def)

section \<open>The time between refreshes\<close>

text \<open>While the deadline the service gave is ahead, and not so far that the product wraps, the next refresh is made before it.\<close>

lemma refresh_in_time:
  assumes "0 \<le> until" "until * 3 < 2 ^ 63"
  shows "0 \<le> flextape_refresh_sleep until" "flextape_refresh_sleep until * 5 \<le> until * 3" "flextape_refresh_sleep until \<le> 5000000000"
    "allocation_refresh_sleep until = flextape_refresh_sleep until"
proof -
  have "i64 (until * 3) = until * 3" using assms by (intro i64_id) linarith+
  moreover have "until * 3 div 5 * 5 \<le> until * 3" by simp
  ultimately show "0 \<le> flextape_refresh_sleep until" "flextape_refresh_sleep until * 5 \<le> until * 3"
    "flextape_refresh_sleep until \<le> 5000000000" "allocation_refresh_sleep until = flextape_refresh_sleep until"
    using assms by (auto simp: flextape_refresh_sleep_def allocation_refresh_sleep_def three_fifths_def sgn_if min_def Let_def)
qed

end
