(* ===== verification/Go_Heap.thy ===== *)
theory Go_Heap imports Prelude "HOL-Library.Multiset" begin

text \<open>
  The binary heap of Go's \<^verbatim>\<open>container/heap\<close> on a slice, over an order given by a key: \<^verbatim>\<open>Less(i, j)\<close> is
  \<open>key (h ! i) < key (h ! j)\<close>. The index arithmetic is the library's.
\<close>

section \<open>The operations\<close>

definition swap :: "nat \<Rightarrow> nat \<Rightarrow> 'a list \<Rightarrow> 'a list" where
  "swap i j xs = xs[i := xs ! j, j := xs ! i]"

function heap_up :: "('a \<Rightarrow> int) \<Rightarrow> 'a list \<Rightarrow> nat \<Rightarrow> 'a list" where
  "heap_up key xs j =
    (let i = (j - 1) div 2 in
     if i = j \<or> \<not> key (xs ! j) < key (xs ! i) then xs else heap_up key (swap i j xs) i)"
  by auto
termination by (relation "measure (\<lambda>(key, xs, j). j)") auto

function heap_down :: "('a \<Rightarrow> int) \<Rightarrow> 'a list \<Rightarrow> nat \<Rightarrow> nat \<Rightarrow> 'a list" where
  "heap_down key xs i n =
    (let j1 = 2 * i + 1; j2 = j1 + 1 in
     if n \<le> j1 then xs
     else let j = (if j2 < n \<and> key (xs ! j2) < key (xs ! j1) then j2 else j1) in
       if \<not> key (xs ! j) < key (xs ! i) then xs else heap_down key (swap i j xs) j n)"
  by auto
termination by (relation "measure (\<lambda>(key, xs, i, n). n - i)") (auto split: if_splits)

declare heap_up.simps [simp del] heap_down.simps [simp del]

definition heap_Push :: "('a \<Rightarrow> int) \<Rightarrow> 'a \<Rightarrow> 'a list \<Rightarrow> 'a list" where
  "heap_Push key x xs = heap_up key (xs @ [x]) (length xs)"

definition heap_Pop :: "('a \<Rightarrow> int) \<Rightarrow> 'a list \<Rightarrow> 'a list \<times> 'a" where
  "heap_Pop key xs = (let n = length xs - 1; ys = heap_down key (swap 0 n xs) 0 n in (butlast ys, last ys))"

section \<open>The heap order\<close>

definition parent :: "nat \<Rightarrow> nat" where "parent i = (i - 1) div 2"

text \<open>The order holds between the first \<open>n\<close> elements and their parents, those of \<open>P\<close> excepted.\<close>

definition ordered_but :: "('a \<Rightarrow> int) \<Rightarrow> (nat \<Rightarrow> bool) \<Rightarrow> nat \<Rightarrow> 'a list \<Rightarrow> bool" where
  "ordered_but key P n xs \<longleftrightarrow> (\<forall>i. 0 < i \<and> i < n \<and> \<not> P i \<longrightarrow> key (xs ! parent i) \<le> key (xs ! i))"

abbreviation heap_ok :: "('a \<Rightarrow> int) \<Rightarrow> 'a list \<Rightarrow> bool" where
  "heap_ok key xs \<equiv> ordered_but key (\<lambda>_. False) (length xs) xs"

lemma ordered_but_0 [simp]: "ordered_but key P 0 xs"
  by (simp add: ordered_but_def)

lemma parent_less: "0 < i \<Longrightarrow> parent i < i"
  by (auto simp: parent_def)

lemma parent_eq_iff: "0 < i \<Longrightarrow> parent i = j \<longleftrightarrow> i = 2 * j + 1 \<or> i = 2 * j + 2"
  unfolding parent_def by presburger

lemma length_swap [simp]: "length (swap i j xs) = length xs"
  by (simp add: swap_def)

lemma nth_swap: "i < length xs \<Longrightarrow> j < length xs \<Longrightarrow> swap i j xs ! k = (if k = i then xs ! j else if k = j then xs ! i else xs ! k)"
  by (auto simp: swap_def nth_list_update)

lemma mset_swap [simp]: "i < length xs \<Longrightarrow> j < length xs \<Longrightarrow> mset (swap i j xs) = mset xs"
  by (simp add: swap_def mset_swap)

lemma heap_root:
  assumes "ordered_but key (\<lambda>_. False) n xs" "i < n"
  shows "key (xs ! 0) \<le> key (xs ! i)"
  using assms(2)
proof (induction i rule: less_induct)
  case (less i)
  show ?case
  proof (cases "i = 0")
    case False
    then have "key (xs ! 0) \<le> key (xs ! parent i)" using less parent_less [of i] by simp
    also have "\<dots> \<le> key (xs ! i)" using assms(1) less.prems False by (simp add: ordered_but_def)
    finally show ?thesis .
  qed simp
qed

lemma heap_up_stop: "parent j = j \<or> \<not> key (xs ! j) < key (xs ! parent j) \<Longrightarrow> heap_up key xs j = xs"
  by (subst heap_up.simps) (simp only: parent_def Let_def if_True)

lemma heap_up_go: "parent j \<noteq> j \<Longrightarrow> key (xs ! j) < key (xs ! parent j) \<Longrightarrow> heap_up key xs j = heap_up key (swap (parent j) j xs) (parent j)"
  by (subst heap_up.simps) (simp only: parent_def Let_def not_False_eq_True simp_thms if_False)

definition child :: "('a \<Rightarrow> int) \<Rightarrow> 'a list \<Rightarrow> nat \<Rightarrow> nat \<Rightarrow> nat" where
  "child key xs i n = (if 2 * i + 1 + 1 < n \<and> key (xs ! (2 * i + 1 + 1)) < key (xs ! (2 * i + 1)) then 2 * i + 1 + 1 else 2 * i + 1)"

lemma heap_down_leaf: "n \<le> 2 * i + 1 \<Longrightarrow> heap_down key xs i n = xs"
  by (subst heap_down.simps) (simp only: Let_def if_True)

lemma heap_down_stop: "\<not> n \<le> 2 * i + 1 \<Longrightarrow> \<not> key (xs ! child key xs i n) < key (xs ! i) \<Longrightarrow> heap_down key xs i n = xs"
  by (subst heap_down.simps) (simp only: Let_def if_False child_def [symmetric] if_True not_False_eq_True)

lemma heap_down_go: "\<not> n \<le> 2 * i + 1 \<Longrightarrow> key (xs ! child key xs i n) < key (xs ! i) \<Longrightarrow>
    heap_down key xs i n = heap_down key (swap i (child key xs i n) xs) (child key xs i n) n"
  by (subst heap_down.simps) (simp only: Let_def if_False child_def [symmetric] not_True_eq_False)

lemma child_props:
  assumes "2 * i + 1 < n"
  shows "child key xs i n < n" "i < child key xs i n" "parent (child key xs i n) = i" "0 < child key xs i n"
    "0 < k \<Longrightarrow> k < n \<Longrightarrow> parent k = i \<Longrightarrow> key (xs ! child key xs i n) \<le> key (xs ! k)"
  using assms by (auto simp: child_def parent_eq_iff)

text \<open>A swap moves the one place where the order may fail.\<close>

lemma heap_up_swap:
  assumes "0 < j" "j < length xs" "ordered_but key (\<lambda>i. i = j) (length xs) xs"
    and "\<forall>i. 0 < i \<and> i < length xs \<and> parent i = j \<and> 0 < j \<longrightarrow> key (xs ! parent j) \<le> key (xs ! i)" "key (xs ! j) < key (xs ! parent j)"
  shows "ordered_but key (\<lambda>i. i = parent j) (length xs) (swap (parent j) j xs)"
    and "\<forall>i. 0 < i \<and> i < length xs \<and> parent i = parent j \<and> 0 < parent j \<longrightarrow>
      key (swap (parent j) j xs ! parent (parent j)) \<le> key (swap (parent j) j xs ! i)"
proof -
  let ?ys = "swap (parent j) j xs"
  have pj: "parent j < j" "parent j < length xs" using parent_less [of j] assms(1,2) by simp_all
  have n: "?ys ! k = (if k = parent j then xs ! j else if k = j then xs ! parent j else xs ! k)" for k
    using pj(2) assms(2) by (rule nth_swap)
  have o: "key (xs ! parent i) \<le> key (xs ! i)" if "0 < i" "i < length xs" "i \<noteq> j" for i
    using assms(3) that by (simp add: ordered_but_def)
  have 1: "key (?ys ! parent i) \<le> key (?ys ! i)" if i: "0 < i" "i < length xs" "i \<noteq> parent j" for i
  proof -
    have "parent i < i" using parent_less i by blast
    show ?thesis
    proof (cases "i = j")
      case True
      then show ?thesis using assms(5) pj by (simp add: n)
    next
      case ij: False
      show ?thesis
      proof (cases "parent i = j")
        case True
        then show ?thesis using assms(4) i ij assms(1) pj by (simp add: n)
      next
        case False
        moreover have "key (xs ! j) < key (xs ! parent j)" by (rule assms(5))
        ultimately show ?thesis using o [OF i(1,2) ij] i ij by (cases "parent i = parent j") (simp_all add: n)
      qed
    qed
  qed
  have 2: "key (?ys ! parent (parent j)) \<le> key (?ys ! i)" if "0 < i" "i < length xs" "parent i = parent j" "0 < parent j" for i
  proof -
    have "key (xs ! parent (parent j)) \<le> key (xs ! parent j)" using o [of "parent j"] that(4) pj by simp
    moreover have "parent (parent j) < parent j" "parent i < i" using parent_less that by blast+
    ultimately show ?thesis
    proof (cases "i = j")
      case True
      then show ?thesis using \<open>key (xs ! parent (parent j)) \<le> key (xs ! parent j)\<close> \<open>parent (parent j) < parent j\<close> pj by (simp add: n)
    next
      case ij: False
      then have "key (xs ! parent j) \<le> key (xs ! i)" using o [OF that(1,2)] that(3) by simp
      then show ?thesis
        using \<open>key (xs ! parent (parent j)) \<le> key (xs ! parent j)\<close> \<open>parent (parent j) < parent j\<close> \<open>parent i < i\<close> pj ij that(3) by (simp add: n)
    qed
  qed
  show "ordered_but key (\<lambda>i. i = parent j) (length xs) ?ys" using 1 by (simp add: ordered_but_def)
  show "\<forall>i. 0 < i \<and> i < length xs \<and> parent i = parent j \<and> 0 < parent j \<longrightarrow> key (?ys ! parent (parent j)) \<le> key (?ys ! i)"
    using 2 by simp
qed

lemma heap_up_ok:
  "j < length xs \<Longrightarrow> ordered_but key (\<lambda>i. i = j) (length xs) xs \<Longrightarrow>
    \<forall>i. 0 < i \<and> i < length xs \<and> parent i = j \<and> 0 < j \<longrightarrow> key (xs ! parent j) \<le> key (xs ! i) \<Longrightarrow>
    heap_ok key (heap_up key xs j) \<and> mset (heap_up key xs j) = mset xs"
proof (induction j arbitrary: xs rule: less_induct)
  case (less j)
  show ?case
  proof (cases "parent j = j \<or> \<not> key (xs ! j) < key (xs ! parent j)")
    case True
    have "key (xs ! parent i) \<le> key (xs ! i)" if "0 < i" "i < length xs" for i
    proof (cases "i = j")
      case ij: True
      then have "parent j \<noteq> j" using that parent_less [of j] by simp
      then show ?thesis using True ij by simp
    next
      case False
      then show ?thesis using that less.prems(2) by (simp add: ordered_but_def)
    qed
    then have "heap_ok key xs" by (simp add: ordered_but_def)
    then show ?thesis unfolding heap_up_stop [OF True] by simp
  next
    case False
    then have j: "0 < j" by (auto simp: parent_def intro: gr0I)
    then have pj: "parent j < j" "parent j < length xs" using parent_less [of j] less.prems(1) by simp_all
    let ?ys = "swap (parent j) j xs"
    note s = heap_up_swap [OF j less.prems(1-3)]
    have "heap_ok key (heap_up key ?ys (parent j)) \<and> mset (heap_up key ?ys (parent j)) = mset ?ys"
    proof (rule less.IH [OF pj(1)])
      show "parent j < length ?ys" using pj by simp
      show "ordered_but key (\<lambda>i. i = parent j) (length ?ys) ?ys" using s(1) False by simp
      show "\<forall>i. 0 < i \<and> i < length ?ys \<and> parent i = parent j \<and> 0 < parent j \<longrightarrow> key (?ys ! parent (parent j)) \<le> key (?ys ! i)"
        using s(2) False by simp
    qed
    moreover have "heap_up key xs j = heap_up key ?ys (parent j)" using False by (intro heap_up_go) auto
    ultimately show ?thesis using pj less.prems(1) by simp
  qed
qed

lemma heap_down_swap:
  assumes "2 * i + 1 < n" "n \<le> length xs" "ordered_but key (\<lambda>k. parent k = i) n xs"
    and "\<forall>k. 0 < k \<and> k < n \<and> parent k = i \<and> 0 < i \<longrightarrow> key (xs ! parent i) \<le> key (xs ! k)" "key (xs ! child key xs i n) < key (xs ! i)"
  shows "ordered_but key (\<lambda>k. parent k = child key xs i n) n (swap i (child key xs i n) xs)"
    and "\<forall>k. 0 < k \<and> k < n \<and> parent k = child key xs i n \<and> 0 < child key xs i n \<longrightarrow>
      key (swap i (child key xs i n) xs ! parent (child key xs i n)) \<le> key (swap i (child key xs i n) xs ! k)"
proof -
  let ?j = "child key xs i n"
  let ?ys = "swap i ?j xs"
  note j = child_props [OF assms(1), where key = key and xs = xs]
  have o: "key (xs ! parent k) \<le> key (xs ! k)" if "0 < k" "k < n" "parent k \<noteq> i" for k
    using assms(3) that by (simp add: ordered_but_def)
  have l: "i < length xs" "?j < length xs" using j assms(2) by linarith+
  have n: "?ys ! k = (if k = i then xs ! ?j else if k = ?j then xs ! i else xs ! k)" for k
    using l by (rule nth_swap)
  have 1: "key (?ys ! parent k) \<le> key (?ys ! k)" if k: "0 < k" "k < n" "parent k \<noteq> ?j" for k
  proof -
    have pk: "parent k < k" using k parent_less by blast
    show ?thesis
    proof (cases "parent k = i")
      case pi: True
      then have "k \<noteq> i" using pk by simp
      then show ?thesis using j(5) [OF k(1,2) pi] assms(5) pi by (cases "k = ?j") (simp_all add: n)
    next
      case pi: False
      then have "k \<noteq> ?j" using j(3) by blast
      show ?thesis
      proof (cases "k = i")
        case ki: True
        then have "key (xs ! parent i) \<le> key (xs ! ?j)" using assms(4) j k by blast
        then show ?thesis using ki pi k by (simp add: n)
      next
        case False
        then show ?thesis using o [OF k(1,2) pi] pi k \<open>k \<noteq> ?j\<close> by (simp add: n)
      qed
    qed
  qed
  have 2: "key (?ys ! parent ?j) \<le> key (?ys ! k)" if "0 < k" "k < n" "parent k = ?j" for k
  proof -
    have "parent k < k" using parent_less that by blast
    then have "k \<noteq> i" "k \<noteq> ?j" "parent k \<noteq> i" using that j(2) by linarith+
    then show ?thesis using o [OF that(1,2)] that j(3) by (simp add: n)
  qed
  show "ordered_but key (\<lambda>k. parent k = ?j) n ?ys" using 1 by (simp add: ordered_but_def)
  show "\<forall>k. 0 < k \<and> k < n \<and> parent k = ?j \<and> 0 < ?j \<longrightarrow> key (?ys ! parent ?j) \<le> key (?ys ! k)" using 2 by simp
qed

lemma heap_down_ok:
  "n \<le> length xs \<Longrightarrow> ordered_but key (\<lambda>k. parent k = i) n xs \<Longrightarrow>
    \<forall>k. 0 < k \<and> k < n \<and> parent k = i \<and> 0 < i \<longrightarrow> key (xs ! parent i) \<le> key (xs ! k) \<Longrightarrow>
    ordered_but key (\<lambda>_. False) n (heap_down key xs i n) \<and> mset (heap_down key xs i n) = mset xs \<and>
    drop n (heap_down key xs i n) = drop n xs"
proof (induction "n - i" arbitrary: xs i rule: less_induct)
  case less
  have o: "key (xs ! parent k) \<le> key (xs ! k)" if "0 < k" "k < n" "parent k \<noteq> i" for k
    using less.prems(2) that by (simp add: ordered_but_def)
  show ?case
  proof (cases "n \<le> 2 * i + 1")
    case True
    then have "ordered_but key (\<lambda>_. False) n xs" using o by (auto simp: ordered_but_def parent_eq_iff)
    then show ?thesis unfolding heap_down_leaf [OF True] by simp
  next
    case go: False
    then have go': "2 * i + 1 < n" by simp
    let ?j = "child key xs i n"
    note j = child_props [OF go', where key = key and xs = xs]
    show ?thesis
    proof (cases "key (xs ! ?j) < key (xs ! i)")
      case False
      have "key (xs ! parent k) \<le> key (xs ! k)" if "0 < k" "k < n" for k
        using o [OF that] j(5) [OF that] False by (cases "parent k = i") auto
      then have "ordered_but key (\<lambda>_. False) n xs" by (simp add: ordered_but_def)
      then show ?thesis unfolding heap_down_stop [OF go False] by simp
    next
      case True
      let ?ys = "swap i ?j xs"
      have l: "i < length xs" "?j < length xs" using j less.prems(1) by linarith+
      note s = heap_down_swap [OF go' less.prems(1-3) True]
      have "ordered_but key (\<lambda>_. False) n (heap_down key ?ys ?j n) \<and> mset (heap_down key ?ys ?j n) = mset ?ys \<and>
          drop n (heap_down key ?ys ?j n) = drop n ?ys"
        proof (rule less.hyps)
        show "n - ?j < n - i" using j by linarith
        show "n \<le> length ?ys" using less.prems(1) by simp
        show "ordered_but key (\<lambda>k. parent k = ?j) n ?ys" by (rule s(1))
        show "\<forall>k. 0 < k \<and> k < n \<and> parent k = ?j \<and> 0 < ?j \<longrightarrow> key (?ys ! parent ?j) \<le> key (?ys ! k)" by (rule s(2))
      qed
      moreover have "drop n ?ys = drop n xs" using j by (simp add: swap_def)
      ultimately show ?thesis using l unfolding heap_down_go [OF go True] by simp
    qed
  qed
qed

section \<open>A priority queue\<close>

lemma heap_Push_ok:
  assumes "heap_ok key xs"
  shows "heap_ok key (heap_Push key x xs)" "mset (heap_Push key x xs) = add_mset x (mset xs)"
proof -
  have "ordered_but key (\<lambda>i. i = length xs) (length (xs @ [x])) (xs @ [x])"
    unfolding ordered_but_def
  proof (intro allI impI)
    fix i assume i: "0 < i \<and> i < length (xs @ [x]) \<and> \<not> i = length xs"
    then have "i < length xs" "parent i < length xs" using parent_less [of i] by auto
    then show "key ((xs @ [x]) ! parent i) \<le> key ((xs @ [x]) ! i)" using assms i by (simp add: nth_append ordered_but_def)
  qed
  moreover have "\<not> (0 < i \<and> i < length (xs @ [x]) \<and> parent i = length xs)" for i using parent_less [of i] by auto
  ultimately have "heap_ok key (heap_up key (xs @ [x]) (length xs)) \<and> mset (heap_up key (xs @ [x]) (length xs)) = mset (xs @ [x])"
    by (intro heap_up_ok) auto
  then show "heap_ok key (heap_Push key x xs)" "mset (heap_Push key x xs) = add_mset x (mset xs)"
    by (simp_all add: heap_Push_def)
qed

lemma heap_Pop_ok:
  assumes "heap_ok key xs" "xs \<noteq> []"
  shows "heap_ok key (fst (heap_Pop key xs))" "mset xs = add_mset (hd xs) (mset (fst (heap_Pop key xs)))"
    "snd (heap_Pop key xs) = hd xs" "\<forall>x \<in> set (fst (heap_Pop key xs)). key (hd xs) \<le> key x"
proof -
  define m where "m = length xs - 1"
  let ?ys = "swap 0 m xs"
  let ?zs = "heap_down key ?ys 0 m"
  have m0: "0 < length xs" "m < length xs" "length xs = Suc m" using assms(2) by (simp_all add: m_def)
  have n: "?ys ! k = (if k = 0 then xs ! m else if k = m then xs ! 0 else xs ! k)" for k
    using m0(1,2) by (rule nth_swap)
  have "key (?ys ! parent k) \<le> key (?ys ! k)" if k: "0 < k" "k < m" "parent k \<noteq> 0" for k
  proof -
    have "parent k < k" using k parent_less by blast
    then have "?ys ! parent k = xs ! parent k" "?ys ! k = xs ! k" using k by (simp_all add: n)
    moreover have "k < length xs" using k m0 by simp
    ultimately show ?thesis using assms(1) k by (simp add: ordered_but_def)
  qed
  then have "ordered_but key (\<lambda>k. parent k = 0) m ?ys" by (simp add: ordered_but_def)
  then have d': "ordered_but key (\<lambda>_. False) m ?zs \<and> mset ?zs = mset ?ys \<and> drop m ?zs = drop m ?ys"
    using m0 by (intro heap_down_ok) simp_all
  then have d: "ordered_but key (\<lambda>_. False) m ?zs" "mset ?zs = mset xs" "length ?zs = length xs" "drop m ?zs = drop m ?ys"
    using m0 by (auto dest: mset_eq_length)
  have z: "?zs \<noteq> []" using d(3) assms(2) by force
  have "last ?zs = ?zs ! m" using d(3) z m0 by (simp add: last_conv_nth)
  also have "\<dots> = ?ys ! m" using arg_cong [OF d(4), of hd] d(3) m0 by (simp add: hd_drop_conv_nth)
  also have "\<dots> = hd xs" using assms(2) by (simp add: n hd_conv_nth)
  finally have l: "last ?zs = hd xs" .
  show s: "snd (heap_Pop key xs) = hd xs" using l by (simp add: heap_Pop_def Let_def m_def)
  have f: "fst (heap_Pop key xs) = butlast ?zs" by (simp add: heap_Pop_def Let_def m_def)
  show "heap_ok key (fst (heap_Pop key xs))"
    unfolding f ordered_but_def
  proof (intro allI impI)
    fix i assume i: "0 < i \<and> i < length (butlast ?zs) \<and> \<not> False"
    then show "key (butlast ?zs ! parent i) \<le> key (butlast ?zs ! i)"
      using d(1,3) m0(3) parent_less [of i] by (simp add: nth_butlast ordered_but_def)
  qed
  have "mset ?zs = add_mset (last ?zs) (mset (butlast ?zs))"
    using z by (metis append_butlast_last_id mset.simps(2) mset_append add.right_neutral union_mset_add_mset_right mset.simps(1))
  then show m: "mset xs = add_mset (hd xs) (mset (fst (heap_Pop key xs)))" using d(2) by (simp add: f l)
  show "\<forall>x \<in> set (fst (heap_Pop key xs)). key (hd xs) \<le> key x"
  proof
    fix x assume "x \<in> set (fst (heap_Pop key xs))"
    then have "x \<in> set xs" using m by (metis insert_iff set_mset_add_mset_insert set_mset_mset)
    then obtain i where "i < length xs" "x = xs ! i" by (metis in_set_conv_nth)
    then show "key (hd xs) \<le> key x" using heap_root [OF assms(1)] assms(2) by (simp add: hd_conv_nth)
  qed
qed

end
