(* ===== verification/Scheduler.thy ===== *)
theory Scheduler imports Go_Heap begin

text \<open>
  The scheduler of \<^verbatim>\<open>lib/khttp/scheduler\<close>: functions to run at given times, kept in a heap by one goroutine. A step is
  what a goroutine does between two blocking operations; the senders blocked on the unbuffered queue, the clock and
  the wait group are part of the state. The event queue is used through the laws of a priority queue.
\<close>

section \<open>A priority queue\<close>

locale pqueue =
  fixes key :: "'a \<Rightarrow> int" and push :: "'a \<Rightarrow> 'a list \<Rightarrow> 'a list" and pop :: "'a list \<Rightarrow> 'a list \<times> 'a" and ok :: "'a list \<Rightarrow> bool"
  assumes ok_Nil: "ok []"
    and ok_push: "ok xs \<Longrightarrow> ok (push x xs)" and mset_push: "ok xs \<Longrightarrow> mset (push x xs) = add_mset x (mset xs)"
    and ok_pop: "ok xs \<Longrightarrow> xs \<noteq> [] \<Longrightarrow> ok (fst (pop xs))"
    and pop_root: "ok xs \<Longrightarrow> xs \<noteq> [] \<Longrightarrow> snd (pop xs) = hd xs"
    and mset_pop: "ok xs \<Longrightarrow> xs \<noteq> [] \<Longrightarrow> mset xs = add_mset (hd xs) (mset (fst (pop xs)))"
    and pop_least: "ok xs \<Longrightarrow> xs \<noteq> [] \<Longrightarrow> x \<in> set (fst (pop xs)) \<Longrightarrow> key (hd xs) \<le> key x"
begin

lemma length_push: "ok xs \<Longrightarrow> length (push x xs) = Suc (length xs)"
  using mset_push [of xs x] by (metis size_add_mset size_mset)

lemma length_pop: "ok xs \<Longrightarrow> xs \<noteq> [] \<Longrightarrow> length xs = Suc (length (fst (pop xs)))"
  using mset_pop [of xs] by (metis size_add_mset size_mset)

lemma push_not_Nil: "ok xs \<Longrightarrow> push x xs \<noteq> []"
  using length_push [of xs x] by force

end

section \<open>State\<close>

record 'w event =
  ev_when :: time
  ev_work :: 'w

text \<open>
  \<open>sc_select\<close> is what the loop waits for: the event at the root, if any, and when its timer elapses. \<open>sc_blocked\<close> are
  the events whose senders wait. \<open>sc_added\<close> and \<open>sc_ran\<close> are history: the events handed to \<open>AddAt\<close> and \<open>AddAfter\<close>, and
  those run, with the time and the events left behind.
\<close>

record 'w scheduler =
  sc_tw :: time
  sc_events :: "'w event list"
  sc_select :: "('w event option \<times> time) option"
  sc_blocked :: "'w event list"
  sc_wg :: int
  sc_closed :: bool
  sc_loop_done :: bool
  sc_panic :: bool
  sc_clock :: time
  sc_added :: "'w event list"
  sc_ran :: "(time \<times> 'w event \<times> 'w event list) list"

definition sched_New :: "time \<Rightarrow> time \<Rightarrow> 'w scheduler" where
  "sched_New tw now = \<lparr>sc_tw = tw, sc_events = [], sc_select = None, sc_blocked = [], sc_wg = 0, sc_closed = False,
    sc_loop_done = False, sc_panic = False, sc_clock = now, sc_added = [], sc_ran = []\<rparr>"

text \<open>\<^verbatim>\<open>time.Time.Sub\<close> saturates.\<close>

definition sched_sub :: "time \<Rightarrow> time \<Rightarrow> time" where
  "sched_sub t u = max (- (2 ^ 63)) (min (2 ^ 63 - 1) (t - u))"

text \<open>Sending on the closed queue panics, as does closing it under a blocked sender or twice.\<close>

definition sched_add :: "'w event \<Rightarrow> 'w scheduler \<Rightarrow> 'w scheduler" where
  "sched_add e s =
    (let s = s\<lparr>sc_wg := sc_wg s + 1\<rparr> in
     if sc_closed s then s\<lparr>sc_panic := True\<rparr> else s\<lparr>sc_blocked := sc_blocked s @ [e], sc_added := sc_added s @ [e]\<rparr>)"

definition AddAt :: "time \<Rightarrow> 'w \<Rightarrow> 'w scheduler \<Rightarrow> 'w scheduler" where
  "AddAt t work s = sched_add \<lparr>ev_when = t, ev_work = work\<rparr> s"

definition AddAfter :: "time \<Rightarrow> 'w \<Rightarrow> 'w scheduler \<Rightarrow> 'w scheduler" where
  "AddAfter d work s = sched_add \<lparr>ev_when = sc_clock s + d, ev_work = work\<rparr> s"

definition sched_Cancel :: "'w scheduler \<Rightarrow> 'w scheduler" where
  "sched_Cancel s = s\<lparr>sc_closed := True, sc_panic := (sc_closed s \<or> sc_blocked s \<noteq> [])\<rparr>"

text \<open>The top of the loop, until the \<^verbatim>\<open>select\<close>.\<close>

definition loop_top :: "'w scheduler \<Rightarrow> 'w scheduler" where
  "loop_top s =
    (let (ev, when) = (case sc_events s of [] \<Rightarrow> (None, sc_tw s) | e # _ \<Rightarrow> (Some e, sched_sub (ev_when e) (sc_clock s)))
     in s\<lparr>sc_select := Some (ev, sc_clock s + when)\<rparr>)"

definition loop_timer :: "'w event option \<Rightarrow> 'w scheduler \<Rightarrow> 'w scheduler" where
  "loop_timer ev s =
    (case ev of
       None \<Rightarrow> s\<lparr>sc_select := None\<rparr>
     | Some e \<Rightarrow>
       let rest = fst (heap_Pop ev_when (sc_events s)) in
       s\<lparr>sc_select := None, sc_ran := sc_ran s @ [(sc_clock s, e, rest)], sc_events := rest, sc_wg := sc_wg s - 1\<rparr>)"

definition loop_receive :: "'w event \<Rightarrow> 'w scheduler \<Rightarrow> 'w scheduler" where
  "loop_receive e s = s\<lparr>sc_select := None, sc_events := heap_Push ev_when e (sc_events s)\<rparr>"

inductive sched_step :: "'w scheduler \<Rightarrow> 'w scheduler \<Rightarrow> bool" where
  clock_ticks: "sc_clock s \<le> t \<Longrightarrow> sched_step s (s\<lparr>sc_clock := t\<rparr>)"
| adds_at: "sched_step s (AddAt t w s)"
| adds_after: "sched_step s (AddAfter d w s)"
| cancels: "sched_step s (sched_Cancel s)"
| loop_begins: "\<not> sc_loop_done s \<Longrightarrow> sc_select s = None \<Longrightarrow> sched_step s (loop_top s)"
| timer_elapses: "sc_select s = Some (ev, deadline) \<Longrightarrow> deadline \<le> sc_clock s \<Longrightarrow> sched_step s (loop_timer ev s)"
| loop_receives: "sc_select s = Some x \<Longrightarrow> sc_blocked s = bs @ e # cs \<Longrightarrow>
    sched_step s (loop_receive e s\<lparr>sc_blocked := bs @ cs\<rparr>)"
| loop_ends: "sc_select s = Some x \<Longrightarrow> sc_closed s \<Longrightarrow> sched_step s (s\<lparr>sc_select := None, sc_loop_done := True\<rparr>)"

text \<open>A panic ends the program.\<close>

inductive sched_reach :: "'w scheduler \<Rightarrow> 'w scheduler \<Rightarrow> bool" for s0 where
  sched_start: "sched_reach s0 s0"
| sched_next: "sched_reach s0 s \<Longrightarrow> \<not> sc_panic s \<Longrightarrow> sched_step s t \<Longrightarrow> sched_reach s0 t"

interpretation events: pqueue ev_when "heap_Push ev_when" "heap_Pop ev_when" "heap_ok ev_when"
proof
  fix xs x
  show "heap_ok ev_when []" by simp
  assume h: "heap_ok ev_when xs"
  show "heap_ok ev_when (heap_Push ev_when x xs)" "mset (heap_Push ev_when x xs) = add_mset x (mset xs)"
    by (rule heap_Push_ok [OF h])+
  assume n: "xs \<noteq> []"
  show "heap_ok ev_when (fst (heap_Pop ev_when xs))" "snd (heap_Pop ev_when xs) = hd xs"
    "mset xs = add_mset (hd xs) (mset (fst (heap_Pop ev_when xs)))"
    by (rule heap_Pop_ok [OF h n])+
  show "x \<in> set (fst (heap_Pop ev_when xs)) \<Longrightarrow> ev_when (hd xs) \<le> ev_when x" using heap_Pop_ok(4) [OF h n] by blast
qed

section \<open>Invariant\<close>

text \<open>An event is not early, up to the 292 years a \<^verbatim>\<open>Duration\<close> can hold.\<close>

definition due :: "time \<Rightarrow> 'w event \<Rightarrow> bool" where
  "due t e \<longleftrightarrow> min (ev_when e) (2 ^ 63 - 1) \<le> t"

definition select_ok :: "'w scheduler \<Rightarrow> bool" where
  "select_ok s \<longleftrightarrow> (case sc_select s of
     None \<Rightarrow> True
   | Some (None, d) \<Rightarrow> sc_events s = []
   | Some (Some e, d) \<Rightarrow> sc_events s \<noteq> [] \<and> e = hd (sc_events s) \<and> due d e)"

definition sched_inv :: "'w scheduler \<Rightarrow> bool" where
  "sched_inv s \<longleftrightarrow>
    0 \<le> sc_clock s \<and> heap_ok ev_when (sc_events s) \<and> select_ok s \<and> (sc_loop_done s \<longrightarrow> sc_closed s) \<and>
    (\<forall>(t, e, rest) \<in> set (sc_ran s). due t e \<and> (\<forall>x \<in> set rest. ev_when e \<le> ev_when x)) \<and>
    (\<not> sc_panic s \<longrightarrow> sc_wg s = int (length (sc_events s) + length (sc_blocked s))) \<and>
    mset (sc_added s) = mset (map (fst \<circ> snd) (sc_ran s)) + mset (sc_events s) + mset (sc_blocked s)"

lemma due_mono: "due t e \<Longrightarrow> t \<le> u \<Longrightarrow> due u e"
  by (simp add: due_def)

lemma due_deadline: "0 \<le> c \<Longrightarrow> due (c + sched_sub (ev_when e) c) e"
  by (auto simp: due_def sched_sub_def)

lemma New_inv: "0 \<le> now \<Longrightarrow> sched_inv (sched_New tw now)"
  by (simp add: sched_inv_def sched_New_def select_ok_def events.ok_Nil)

lemma add_inv: "sched_inv s \<Longrightarrow> sched_inv (sched_add e s)"
  by (auto simp: sched_inv_def sched_add_def select_ok_def Let_def split: option.splits)

lemma top_inv: "sched_inv s \<Longrightarrow> sched_inv (loop_top s)"
  by (auto simp: sched_inv_def loop_top_def select_ok_def due_deadline split: list.splits)

lemma timer_inv:
  assumes "sched_inv s" "sc_select s = Some (ev, d)" "d \<le> sc_clock s" "\<not> sc_panic s"
  shows "sched_inv (loop_timer ev s)"
proof (cases ev)
  case None
  then show ?thesis using assms by (simp add: sched_inv_def loop_timer_def select_ok_def)
next
  case (Some e)
  let ?xs = "sc_events s"
  have h: "heap_ok ev_when ?xs" "?xs \<noteq> []" "e = hd ?xs" "due (sc_clock s) e"
    using assms Some due_mono by (auto simp: sched_inv_def select_ok_def)
  then show ?thesis
    using assms(1,4) Some events.ok_pop [OF h(1,2)] events.pop_least [OF h(1,2)] events.mset_pop [OF h(1,2)] events.length_pop [OF h(1,2)]
    by (auto simp: sched_inv_def loop_timer_def select_ok_def Let_def)
qed

lemma receive_inv:
  assumes "sched_inv s" "sc_blocked s = bs @ e # cs" "\<not> sc_panic s"
  shows "sched_inv (loop_receive e s\<lparr>sc_blocked := bs @ cs\<rparr>)"
proof -
  have h: "heap_ok ev_when (sc_events s)" using assms(1) by (simp add: sched_inv_def)
  then show ?thesis
    using assms events.ok_push [OF h, of e] events.mset_push [OF h, of e] events.length_push [OF h, of e]
    by (simp add: sched_inv_def loop_receive_def select_ok_def)
qed

lemma step_sched_inv: "sched_step s t \<Longrightarrow> \<not> sc_panic s \<Longrightarrow> sched_inv s \<Longrightarrow> sched_inv t"
proof (induction rule: sched_step.induct)
  case (clock_ticks s t)
  then show ?case by (auto simp: sched_inv_def select_ok_def split: option.splits)
next
  case (cancels s)
  then show ?case by (auto simp: sched_inv_def sched_Cancel_def select_ok_def split: option.splits)
next
  case (loop_ends s x)
  then show ?case by (simp add: sched_inv_def select_ok_def)
qed (simp_all add: AddAt_def AddAfter_def add_inv top_inv timer_inv receive_inv)

lemma sched_reach_inv: "sched_reach s0 s \<Longrightarrow> sched_inv s0 \<Longrightarrow> sched_inv s"
  by (induction rule: sched_reach.induct) (use step_sched_inv in blast)+

section \<open>Every event can run\<close>

lemma sched_reach_trans: "sched_reach s t \<Longrightarrow> sched_reach s0 s \<Longrightarrow> sched_reach s0 t"
  by (induction rule: sched_reach.induct) (blast intro: sched_next)+

lemma can_select:
  assumes "sched_inv s" "\<not> sc_panic s" "\<not> sc_closed s"
  obtains t ev d where "sched_reach s t" "sched_inv t" "\<not> sc_panic t" "\<not> sc_closed t" "sc_select t = Some (ev, d)"
    "sc_events t = sc_events s" "sc_blocked t = sc_blocked s"
proof (cases "sc_select s")
  case None
  have "\<not> sc_loop_done s" using assms by (auto simp: sched_inv_def)
  then have r: "sched_reach s (loop_top s)" using None assms(2) sched_start sched_next loop_begins by blast
  obtain ev d where "sc_select (loop_top s) = Some (ev, d)" by (cases "sc_events s") (simp_all add: loop_top_def)
  then show ?thesis using that [OF r top_inv [OF assms(1)]] assms(2,3) by (cases "sc_events s") (simp_all add: loop_top_def)
next
  case (Some x)
  then show ?thesis using that [OF sched_start assms] by (cases x) simp
qed

lemma can_drain: "sched_inv s \<Longrightarrow> \<not> sc_panic s \<Longrightarrow> \<not> sc_closed s \<Longrightarrow> \<exists>t. sched_reach s t \<and> \<not> sc_panic t \<and> sc_wg t = 0"
proof (induction "2 * length (sc_blocked s) + length (sc_events s)" arbitrary: s rule: less_induct)
  case less
  obtain t ev d where t: "sched_reach s t" "sched_inv t" "\<not> sc_panic t" "\<not> sc_closed t" "sc_select t = Some (ev, d)"
    and same: "sc_events t = sc_events s" "sc_blocked t = sc_blocked s" by (rule can_select [OF less.prems])
  have step: ?case if u: "sched_step t u" "\<not> sc_panic u" "\<not> sc_closed u"
      "2 * length (sc_blocked u) + length (sc_events u) < 2 * length (sc_blocked s) + length (sc_events s)" for u
    using less.hyps [OF u(4) step_sched_inv [OF u(1) t(3,2)] u(2,3)] sched_reach_trans sched_next [OF t(1,3) u(1)] by blast
  show ?case
  proof (cases "sc_blocked s")
    case (Cons e bs)
    have h: "heap_ok ev_when (sc_events t)" using t(2) by (simp add: sched_inv_def)
    show ?thesis
    proof (rule step)
      show "sched_step t (loop_receive e t\<lparr>sc_blocked := [] @ bs\<rparr>)" using t(5) by (rule loop_receives) (simp add: same Cons)
    qed (use t Cons same events.length_push [OF h, of e] in \<open>simp_all add: loop_receive_def\<close>)
  next
    case Nil
    show ?thesis
    proof (cases "sc_events s")
      case Nil
      then show ?thesis using t same \<open>sc_blocked s = []\<close> by (auto simp: sched_inv_def)
    next
      case (Cons e es)
      let ?t = "t\<lparr>sc_clock := max (sc_clock t) d\<rparr>"
      have "sched_step t ?t" by (rule clock_ticks) simp
      then have r: "sched_reach s ?t" and i: "sched_inv ?t" using t sched_next step_sched_inv by blast+
      have n: "sc_events ?t \<noteq> []" and h: "heap_ok ev_when (sc_events ?t)" using Cons same i by (simp_all add: sched_inv_def)
      have "ev \<noteq> None" using t(2,5) Cons same by (cases ev) (auto simp: sched_inv_def select_ok_def)
      have u: "sched_step ?t (loop_timer ev ?t)" using t(5) by (intro timer_elapses [where deadline = d]) simp_all
      have p: "\<not> sc_panic ?t" "\<not> sc_panic (loop_timer ev ?t)" "\<not> sc_closed (loop_timer ev ?t)"
        and l: "2 * length (sc_blocked (loop_timer ev ?t)) + length (sc_events (loop_timer ev ?t)) <
          2 * length (sc_blocked s) + length (sc_events s)"
        using t same events.length_pop [OF h n] \<open>ev \<noteq> None\<close> by (auto simp: loop_timer_def Let_def)
      show ?thesis
        using less.hyps [OF l step_sched_inv [OF u p(1) i] p(2,3)] sched_reach_trans sched_next [OF r p(1) u] by blast
    qed
  qed
qed

section \<open>The property\<close>

text \<open>C16: whatever the callers, the clock and the goroutine do: an event runs when it is due, and never before one that
  is in the heap and was due earlier; every event added is either run, or in the heap, or still with its sender, none twice; the wait
  group counts those that have not run; and until the scheduler is cancelled it can always go on to a point where \<^verbatim>\<open>Wait\<close>
  returns.\<close>

theorem sched_in_order:
  assumes "0 \<le> now" "sched_reach (sched_New tw now) s" "\<not> sc_panic s"
  shows "(\<forall>(t, e, rest) \<in> set (sc_ran s). due t e \<and> (\<forall>x \<in> set rest. ev_when e \<le> ev_when x)) \<and>
    mset (sc_added s) = mset (map (fst \<circ> snd) (sc_ran s)) + mset (sc_events s) + mset (sc_blocked s) \<and>
    sc_wg s = int (length (sc_added s)) - int (length (sc_ran s)) \<and>
    (sc_wg s = 0 \<longleftrightarrow> mset (map (fst \<circ> snd) (sc_ran s)) = mset (sc_added s)) \<and>
    (\<not> sc_closed s \<longrightarrow> (\<exists>t. sched_reach s t \<and> \<not> sc_panic t \<and> sc_wg t = 0))"
proof (intro conjI impI)
  have i: "sched_inv s" by (rule sched_reach_inv [OF assms(2) New_inv [OF assms(1)]])
  then have m: "mset (sc_added s) = mset (map (fst \<circ> snd) (sc_ran s)) + mset (sc_events s) + mset (sc_blocked s)"
    and w: "sc_wg s = int (length (sc_events s) + length (sc_blocked s))" using assms(3) by (simp_all add: sched_inv_def)
  show "\<forall>(t, e, rest) \<in> set (sc_ran s). due t e \<and> (\<forall>x \<in> set rest. ev_when e \<le> ev_when x)"
    using i by (simp add: sched_inv_def)
  show "mset (sc_added s) = mset (map (fst \<circ> snd) (sc_ran s)) + mset (sc_events s) + mset (sc_blocked s)" by (rule m)
  have "size (mset (sc_added s)) = length (sc_ran s) + length (sc_events s) + length (sc_blocked s)" by (simp add: m)
  then show "sc_wg s = int (length (sc_added s)) - int (length (sc_ran s))" using w by simp
  have z: "sc_wg s = 0 \<longleftrightarrow> sc_events s = [] \<and> sc_blocked s = []" by (simp only: w of_nat_eq_0_iff add_is_0 length_0_conv)
  show "sc_wg s = 0 \<longleftrightarrow> mset (map (fst \<circ> snd) (sc_ran s)) = mset (sc_added s)" using m z by auto
  show "\<not> sc_closed s \<Longrightarrow> \<exists>t. sched_reach s t \<and> \<not> sc_panic t \<and> sc_wg t = 0" by (rule can_drain [OF i assms(3)])
qed

text \<open>Two events added out of order, received and run.\<close>

definition receive_next :: "'w scheduler \<Rightarrow> 'w scheduler" where
  "receive_next s = loop_receive (hd (sc_blocked s)) s\<lparr>sc_blocked := tl (sc_blocked s)\<rparr>"

definition demo_moves :: "(string scheduler \<Rightarrow> string scheduler) list" where
  "demo_moves = [AddAt 7 ''b'', AddAt 5 ''a'', loop_top, receive_next, loop_top, receive_next, loop_top,
    \<lambda>s. s\<lparr>sc_clock := 6\<rparr>, \<lambda>s. loop_timer (fst (the (sc_select s))) s]"

definition demo_sched :: "nat \<Rightarrow> string scheduler" where
  "demo_sched n = fold (\<lambda>f s. f s) (take n demo_moves) (sched_New 9 1)"

lemma demo_sched_Suc: "n < length demo_moves \<Longrightarrow> demo_sched (Suc n) = (demo_moves ! n) (demo_sched n)"
  by (simp add: demo_sched_def take_Suc_conv_app_nth)

lemma receive_next_step: "sc_select s \<noteq> None \<Longrightarrow> sc_blocked s \<noteq> [] \<Longrightarrow> sched_step s (receive_next s)"
  using loop_receives [of s _ "[]" "hd (sc_blocked s)" "tl (sc_blocked s)"] by (auto simp: receive_next_def)

lemma demo_sched_step: "n < 9 \<Longrightarrow> sched_step (demo_sched n) ((demo_moves ! n) (demo_sched n))"
proof -
  have a: "sched_step (demo_sched 0) (AddAt 7 ''b'' (demo_sched 0))" "sched_step (demo_sched 1) (AddAt 5 ''a'' (demo_sched 1))"
    by (rule adds_at)+
  have "\<not> sc_loop_done (demo_sched 2) \<and> sc_select (demo_sched 2) = None \<and> \<not> sc_loop_done (demo_sched 4) \<and> sc_select (demo_sched 4) = None \<and>
    \<not> sc_loop_done (demo_sched 6) \<and> sc_select (demo_sched 6) = None" by code_simp
  then have b: "sched_step (demo_sched 2) (loop_top (demo_sched 2))" "sched_step (demo_sched 4) (loop_top (demo_sched 4))"
    "sched_step (demo_sched 6) (loop_top (demo_sched 6))" by (simp_all add: loop_begins)
  have "sc_select (demo_sched 3) \<noteq> None \<and> sc_blocked (demo_sched 3) \<noteq> [] \<and> sc_select (demo_sched 5) \<noteq> None \<and> sc_blocked (demo_sched 5) \<noteq> []"
    by code_simp
  then have c: "sched_step (demo_sched 3) (receive_next (demo_sched 3))" "sched_step (demo_sched 5) (receive_next (demo_sched 5))"
    by (simp_all add: receive_next_step)
  have "sc_clock (demo_sched 7) \<le> 6" by code_simp
  then have d: "sched_step (demo_sched 7) (demo_sched 7\<lparr>sc_clock := 6\<rparr>)" by (rule clock_ticks)
  have x: "sc_select (demo_sched 8) = Some (Some \<lparr>ev_when = 5, ev_work = ''a''\<rparr>, 5)" "5 \<le> sc_clock (demo_sched 8)" by code_simp+
  have e: "sched_step (demo_sched 8) (loop_timer (fst (the (sc_select (demo_sched 8)))) (demo_sched 8))"
    using timer_elapses [OF x] x(1) by simp
  assume "n < 9"
  then have "n \<in> {0, 1, 2, 3, 4, 5, 6, 7, 8}" by auto
  then show ?thesis using a b c d e by (auto simp: demo_moves_def numeral_nat)
qed

lemma demo_sched_reach: "n \<le> 9 \<Longrightarrow> sched_reach (sched_New 9 1) (demo_sched n)"
proof (induction n)
  case 0
  show ?case by (simp add: demo_sched_def sched_start)
next
  case (Suc n)
  have "list_all (\<lambda>n. \<not> sc_panic (demo_sched n)) [0..<9]" by code_simp
  then have "\<not> sc_panic (demo_sched n)" using Suc.prems by (simp add: list_all_iff)
  moreover have "length demo_moves = 9" by (simp add: demo_moves_def)
  ultimately show ?case using Suc demo_sched_step [of n] by (auto simp: demo_sched_Suc intro: sched_next)
qed

theorem sched_in_order_witness:
  "sc_ran (demo_sched 9) = [(6, \<lparr>ev_when = 5, ev_work = ''a''\<rparr>, [\<lparr>ev_when = 7, ev_work = ''b''\<rparr>])] \<and> sc_wg (demo_sched 9) = 1 \<and>
   (\<exists>t. sched_reach (demo_sched 9) t \<and> \<not> sc_panic t \<and> sc_wg t = 0)"
proof -
  have f: "\<not> sc_panic (demo_sched 9)" "\<not> sc_closed (demo_sched 9)" "length (sc_added (demo_sched 9)) = 2"
    "sc_ran (demo_sched 9) = [(6, \<lparr>ev_when = 5, ev_work = ''a''\<rparr>, [\<lparr>ev_when = 7, ev_work = ''b''\<rparr>])]" by code_simp+
  note p = sched_in_order [OF _ demo_sched_reach [of 9] f(1)]
  show ?thesis using p f by simp
qed

end
