(* ===== verification/Tunnel.thy ===== *)
theory Tunnel imports Blocking Nassh_Proxy begin

text \<open>
  The client end of a tunnel (\<^verbatim>\<open>proxy/ptunnel/tunnel.go\<close>): two blocking windows, a replaceable browser (here: the
  client's own websocket), and six threads of control over them: \<^verbatim>\<open>BrowserSend\<close> and \<^verbatim>\<open>BrowserReceive\<close>, which move bytes
  between the windows and the websocket, \<^verbatim>\<open>Send\<close> and \<^verbatim>\<open>Receive\<close>, which move them between a file and the windows,
  \<^verbatim>\<open>KeepConnected\<close>, which opens websockets, and \<^verbatim>\<open>Close\<close>.

  A step runs one of them up to its next operation on the shared state or its next blocking call; its event is what
  the blocking call returned. \<^verbatim>\<open>GetForSend\<close>, \<^verbatim>\<open>GetForReceive\<close> and \<^verbatim>\<open>Fail\<close> of a window are one operation each.
\<close>

section \<open>State\<close>

definition CloseRequested :: gerror where
  "CloseRequested = ''close requested''"

record Timeouts =
  BrowserPingInterval :: time
  BrowserAckInterval :: time
  BrowserPingTimeout :: time

definition DefaultTimeouts :: Timeouts where
  "DefaultTimeouts = \<lparr>BrowserPingInterval = 10000000000, BrowserAckInterval = 1000000000,
    BrowserPingTimeout = 1000000000 + 10000000000 * 2\<rparr>"

datatype sd_pc =
    SdTop | SdAsleep | SdGet
  | SdSync "conn option" u32 u32
  | SdPush u32 u32
  | SdPing u32
  | SdReady u32
  | SdMessage u32 bytes
  | SdWrite u32 bytes
  | SdNext u32
  | SdFlush
  | SdClose gerror gerror
  | SdDone gerror

datatype rc_pc =
    RcTop | RcAsleep | RcGet
  | RcReset "conn option" u32
  | RcNext
  | RcAck bytes
  | RcPushAck u32
  | RcBody
  | RcRead nat
  | RcPush u32
  | RcClose gerror "gerror option"
  | RcDone gerror

datatype sn_pc = SnTop | SnAsleep | SnFill | SnRead nat | SnDone gerror

datatype rv_pc = RvTop | RvAsleep | RvNext | RvWrite bytes | RvFlush | RvDone gerror

datatype kc_pc =
    KcSid | KcGet
  | KcDial u32 u32
  | KcWait "chan_id option"
  | KcFailed gerror
  | KcDone "gerror option"

text \<open>
  \<open>tn_in\<close> is what was read from the file of \<^verbatim>\<open>Send\<close>, \<open>tn_out\<close> what was written to the file of \<^verbatim>\<open>Receive\<close>, \<open>tn_frames\<close> what
  was written to websockets, with the acknowledgement of its message and its position in \<open>tn_in\<close>. Websockets are
  numbered as they are opened: \<open>tn_asked\<close> has the two positions each was opened with, and \<open>tn_server\<close> how far in
  its stream the server is on each. The last four are history.
\<close>

record tunnel =
  tn_browser :: bstate
  tn_SendWin :: BlockingSendWindow
  tn_ReceiveWin :: BlockingReceiveWindow
  sd_pc :: sd_pc
  sd_conn :: "conn option"
  sd_oldru :: u32
  sd_nextping :: time
  rc_pc :: rc_pc
  rc_conn :: "conn option"
  sn_pc :: sn_pc
  rv_pc :: rv_pc
  kc_pc :: kc_pc
  cl_pc :: nat
  tn_in :: bytes
  tn_out :: bytes
  tn_frames :: "frame list"
  tn_asked :: "(u32 \<times> u32) list"
  tn_server :: "nat list"

definition NewTunnel :: "u64 \<Rightarrow> u64 \<Rightarrow> tunnel" where
  "NewTunnel MaxSendWindow MaxReceiveWindow =
    \<lparr>tn_browser = (NewReplaceableBrowser, \<lparr>w_chans = [], w_closed = []\<rparr>),
     tn_SendWin = NewBlockingSendWindow MaxSendWindow, tn_ReceiveWin = NewBlockingReceiveWindow MaxReceiveWindow,
     sd_pc = SdTop, sd_conn = None, sd_oldru = 0, sd_nextping = 0, rc_pc = RcTop, rc_conn = None,
     sn_pc = SnTop, rv_pc = RvTop, kc_pc = KcSid, cl_pc = 0,
     tn_in = [], tn_out = [], tn_frames = [], tn_asked = [], tn_server = []\<rparr>"

abbreviation tn_gb :: "tunnel \<Rightarrow> ReplaceableBrowser" where
  "tn_gb s \<equiv> fst (tn_browser s)"

definition tn_Close :: "gerror \<Rightarrow> tunnel \<Rightarrow> tunnel option" where
  "tn_Close err s = map_option (\<lambda>b. s\<lparr>tn_browser := b\<rparr>) (ReplaceableBrowser_Close (Some err) (tn_browser s))"

definition tn_Error :: "time \<Rightarrow> conn option \<Rightarrow> gerror \<Rightarrow> tunnel \<Rightarrow> tunnel option" where
  "tn_Error now wc err s = map_option (\<lambda>b. s\<lparr>tn_browser := b\<rparr>) (ReplaceableBrowser_Error now wc err (tn_browser s))"

definition on_gb :: "(ReplaceableBrowser \<Rightarrow> ReplaceableBrowser) \<Rightarrow> tunnel \<Rightarrow> tunnel" where
  "on_gb f s = s\<lparr>tn_browser := (f (tn_gb s), snd (tn_browser s))\<rparr>"

section \<open>BrowserSend\<close>

datatype sd_event = SdGo | SdTimeout | SdResult "gerror option" | SdWrote nat "gerror option"

definition sd_fail :: "time \<Rightarrow> gerror \<Rightarrow> tunnel \<Rightarrow> tunnel option" where
  "sd_fail now err s = map_option (\<lambda>s. s\<lparr>sd_pc := SdTop\<rparr>) (tn_Error now (sd_conn s) err s)"

definition sd_waited :: "wait_outcome \<Rightarrow> tunnel \<Rightarrow> tunnel" where
  "sd_waited r s =
    (case r of
       Sleeps \<Rightarrow> s\<lparr>sd_pc := SdAsleep\<rparr>
     | Returns None \<Rightarrow> s\<lparr>sd_pc := SdGet\<rparr>
     | Returns (Some e) \<Rightarrow>
         s\<lparr>sd_pc := (if e = ErrorExpired then SdGet else SdClose (''stopping browser write - reader returned '' @ e) e)\<rparr>)"

definition sd_wait :: "tunnel \<Rightarrow> tunnel" where
  "sd_wait s = (let (b, r) = bs_WaitToEmpty (tn_SendWin s) in sd_waited r (s\<lparr>tn_SendWin := b\<rparr>))"

definition sd_asleep :: "sd_event \<Rightarrow> tunnel \<Rightarrow> tunnel" where
  "sd_asleep ev s =
    (if ev = SdTimeout then sd_waited WaitFor_timeout s
     else if wt_c (bs_ce (tn_SendWin s))
     then let (b, r) = bs_WaitToEmpty_wake (tn_SendWin s) in sd_waited r (s\<lparr>tn_SendWin := b\<rparr>)
     else s)"

definition sd_get :: "tunnel \<Rightarrow> tunnel" where
  "sd_get s =
    (case GetForSend (tn_gb s) of
       None \<Rightarrow> s
     | Some (nconn, wu, ru, Some e) \<Rightarrow> s\<lparr>sd_pc := SdClose (''stopping browser write: '' @ e) e\<rparr>
     | Some (nconn, wu, ru, None) \<Rightarrow> s\<lparr>sd_pc := SdSync nconn wu ru\<rparr>)"

definition sd_sync :: "conn option \<Rightarrow> u32 \<Rightarrow> u32 \<Rightarrow> tunnel \<Rightarrow> tunnel" where
  "sd_sync nconn wu ru s =
    (if nconn \<noteq> sd_conn s
     then case bs_Reset wu (tn_SendWin s) of
         (b, Some _) \<Rightarrow> s\<lparr>tn_SendWin := b, sd_pc := SdClose ''stopping browser write after failed reset'' ''invalid ack''\<rparr>
       | (b, None) \<Rightarrow> s\<lparr>tn_SendWin := b, sd_conn := nconn, sd_pc := SdPing ru\<rparr>
     else case bs_AcknowledgeUntil wu (tn_SendWin s) of
         (b, acked, Some _) \<Rightarrow> s\<lparr>tn_SendWin := b, sd_pc := SdPush (low24 (ucast acked)) ru\<rparr>
       | (b, acked, None) \<Rightarrow> s\<lparr>tn_SendWin := b, sd_pc := SdPing ru\<rparr>)"

definition sd_ping :: "Timeouts \<Rightarrow> time \<Rightarrow> u32 \<Rightarrow> gerror option \<Rightarrow> tunnel \<Rightarrow> tunnel option" where
  "sd_ping to now ru r s =
    map_option (\<lambda>s. s\<lparr>sd_pc := SdReady ru\<rparr>)
      (if sd_nextping s < now
       then map_option (\<lambda>s. s\<lparr>sd_nextping := now + BrowserPingInterval to\<rparr>)
         (case r of None \<Rightarrow> Some s | Some e \<Rightarrow> tn_Error now (sd_conn s) (''websocket Ping returned error: '' @ e) s)
       else Some s)"

definition sd_ready :: "u32 \<Rightarrow> tunnel \<Rightarrow> tunnel" where
  "sd_ready ru s =
    (let (b, buffer) = bs_ToEmpty (tn_SendWin s); s = s\<lparr>tn_SendWin := b\<rparr> in
     if buffer = [] \<and> ru = sd_oldru s then s\<lparr>sd_pc := SdTop\<rparr>
     else s\<lparr>sd_oldru := ru, sd_pc := SdMessage ru buffer\<rparr>)"

text \<open>A write that fails may have written a part.\<close>

definition sd_write :: "time \<Rightarrow> u32 \<Rightarrow> bytes \<Rightarrow> nat \<Rightarrow> gerror option \<Rightarrow> tunnel \<Rightarrow> tunnel option" where
  "sd_write now ru buffer n r s =
    (let chunk = take n buffer;
         s = s\<lparr>tn_frames := tn_frames s @ [\<lparr>fr_conn = sd_conn s, fr_ack = ru,
           fr_pos = unat (sw_Emptied (bs_w (tn_SendWin s))), fr_data = chunk\<rparr>]\<rparr>
     in case r of
       Some e \<Rightarrow> sd_fail now (''browser data write resulted in error '' @ e) s
     | None \<Rightarrow> Some (s\<lparr>tn_SendWin := bs_Empty (length chunk) (tn_SendWin s), sd_pc := SdNext ru\<rparr>))"

definition sd_next :: "u32 \<Rightarrow> tunnel \<Rightarrow> tunnel" where
  "sd_next ru s =
    (let (b, buffer) = bs_ToEmpty (tn_SendWin s)
     in s\<lparr>tn_SendWin := b, sd_pc := (if buffer = [] then SdFlush else SdWrite ru buffer)\<rparr>)"

text \<open>
  \<open>SdMessage\<close> is \<^verbatim>\<open>NextWriter\<close> and the write of the four bytes of the acknowledgement: its error is that of either, or of a short
  write, with its text.
\<close>

definition sd_step :: "Timeouts \<Rightarrow> time \<Rightarrow> sd_event \<Rightarrow> tunnel \<Rightarrow> tunnel option" where
  "sd_step to now ev s =
    (case sd_pc s of
       SdTop \<Rightarrow> Some (sd_wait s)
     | SdAsleep \<Rightarrow> Some (sd_asleep ev s)
     | SdGet \<Rightarrow> Some (sd_get s)
     | SdSync nconn wu ru \<Rightarrow> Some (sd_sync nconn wu ru s)
     | SdPush acked ru \<Rightarrow> Some ((on_gb (PushWrittenUntil acked) s)\<lparr>sd_pc := SdPing ru\<rparr>)
     | SdPing ru \<Rightarrow> (case ev of SdResult r \<Rightarrow> sd_ping to now ru r s | _ \<Rightarrow> Some s)
     | SdReady ru \<Rightarrow> Some (sd_ready ru s)
     | SdMessage ru buffer \<Rightarrow>
         (case ev of SdResult None \<Rightarrow> Some (s\<lparr>sd_pc := SdWrite ru buffer\<rparr>)
          | SdResult (Some e) \<Rightarrow> sd_fail now e s | _ \<Rightarrow> Some s)
     | SdWrite ru buffer \<Rightarrow> (case ev of SdWrote n r \<Rightarrow> sd_write now ru buffer n r s | _ \<Rightarrow> Some s)
     | SdNext ru \<Rightarrow> Some (sd_next ru s)
     | SdFlush \<Rightarrow>
         (case ev of SdResult None \<Rightarrow> Some (s\<lparr>sd_pc := SdTop\<rparr>)
          | SdResult (Some e) \<Rightarrow> sd_fail now (''browser data flush resulted in error '' @ e) s | _ \<Rightarrow> Some s)
     | SdClose err ret \<Rightarrow> map_option (\<lambda>s. s\<lparr>sd_pc := SdDone ret\<rparr>) (tn_Close err s)
     | SdDone ret \<Rightarrow> Some s)"

section \<open>BrowserReceive\<close>

datatype rc_event = RcGo | RcReader "gerror option" | RcData read_result

definition rc_fail :: "time \<Rightarrow> gerror \<Rightarrow> tunnel \<Rightarrow> tunnel option" where
  "rc_fail now err s = map_option (\<lambda>s. s\<lparr>rc_pc := RcTop\<rparr>) (tn_Error now (rc_conn s) err s)"

definition rc_waited :: "wait_outcome \<Rightarrow> tunnel \<Rightarrow> tunnel" where
  "rc_waited r s =
    (case r of
       Sleeps \<Rightarrow> s\<lparr>rc_pc := RcAsleep\<rparr>
     | Returns None \<Rightarrow> s\<lparr>rc_pc := RcGet\<rparr>
     | Returns (Some e) \<Rightarrow> s\<lparr>rc_pc := RcClose (''stopping browser read - writer returned: '' @ e) (Some e)\<rparr>)"

definition rc_asleep :: "tunnel \<Rightarrow> tunnel" where
  "rc_asleep s =
    (if wt_c (br_cf (tn_ReceiveWin s))
     then let (b, r) = br_WaitToFill_wake (tn_ReceiveWin s) in rc_waited r (s\<lparr>tn_ReceiveWin := b\<rparr>) else s)"

definition rc_get :: "tunnel \<Rightarrow> tunnel" where
  "rc_get s =
    (case GetForReceive (tn_gb s) of
       None \<Rightarrow> s
     | Some (nconn, ru, Some e) \<Rightarrow> s\<lparr>rc_pc := RcClose (''stopping browser read: '' @ e) (Some e)\<rparr>
     | Some (nconn, ru, None) \<Rightarrow> s\<lparr>rc_pc := (if nconn \<noteq> rc_conn s then RcReset nconn ru else RcNext)\<rparr>)"

definition rc_reset :: "nat \<Rightarrow> conn option \<Rightarrow> u32 \<Rightarrow> tunnel \<Rightarrow> tunnel" where
  "rc_reset sz nconn ru s =
    (case br_Reset (empty_buffer sz) ru (tn_ReceiveWin s) of
       (b, Some _) \<Rightarrow> s\<lparr>tn_ReceiveWin := b, rc_pc := RcClose ''browser receive reset failed'' None\<rparr>
     | (b, None) \<Rightarrow> s\<lparr>tn_ReceiveWin := b, rc_conn := nconn, rc_pc := RcNext\<rparr>)"

definition rc_ack :: "time \<Rightarrow> bytes \<Rightarrow> read_result \<Rightarrow> tunnel \<Rightarrow> tunnel option" where
  "rc_ack now got r s =
    (case r of
       ReadEOF \<Rightarrow> Some (s\<lparr>rc_pc := RcTop\<rparr>)
     | ReadErr e \<Rightarrow> rc_fail now e s
     | ReadData xs \<Rightarrow>
       let got = got @ take (4 - length got) xs in
       if length got < 4 then Some (s\<lparr>rc_pc := RcAck got\<rparr>)
       else let ack = BigEndian_Uint32 got in
         if ack AND 0xff000000 \<noteq> 0 then rc_fail now ''browser read resulted in ack requesting connection reset'' s
         else Some (s\<lparr>rc_pc := RcPushAck ack\<rparr>))"

definition rc_body :: "nat \<Rightarrow> tunnel \<Rightarrow> tunnel" where
  "rc_body sz s =
    (let (b, free) = br_ToFill (empty_buffer sz) (tn_ReceiveWin s)
     in s\<lparr>tn_ReceiveWin := b, rc_pc := (if free = 0 then RcTop else RcRead free)\<rparr>)"

definition rc_read :: "time \<Rightarrow> nat \<Rightarrow> read_result \<Rightarrow> tunnel \<Rightarrow> tunnel option" where
  "rc_read now free r s =
    (case r of
       ReadEOF \<Rightarrow> Some (s\<lparr>rc_pc := RcTop\<rparr>)
     | ReadErr e \<Rightarrow> rc_fail now (''browser read failed with '' @ e) s
     | ReadData xs \<Rightarrow>
       let ys = take free xs; b = tn_ReceiveWin s in
       map_option (\<lambda>(b, filled). s\<lparr>tn_ReceiveWin := b, rc_pc := RcPush (low24 (ucast filled)),
           tn_server := (case rc_conn s of None \<Rightarrow> tn_server s | Some c \<Rightarrow> (tn_server s)[c := tn_server s ! c + length ys])\<rparr>)
         (br_Fill (length ys) (b\<lparr>br_w := rw_write ys (br_w b)\<rparr>)))"

definition rc_step :: "nat \<Rightarrow> time \<Rightarrow> rc_event \<Rightarrow> tunnel \<Rightarrow> tunnel option" where
  "rc_step sz now ev s =
    (case rc_pc s of
       RcTop \<Rightarrow> Some (rc_waited (br_WaitToFill (tn_ReceiveWin s)) s)
     | RcAsleep \<Rightarrow> Some (rc_asleep s)
     | RcGet \<Rightarrow> Some (rc_get s)
     | RcReset nconn ru \<Rightarrow> Some (rc_reset sz nconn ru s)
     | RcNext \<Rightarrow> (case ev of RcReader None \<Rightarrow> Some (s\<lparr>rc_pc := RcAck []\<rparr>)
         | RcReader (Some e) \<Rightarrow> rc_fail now (''websocket NextReader returned error: '' @ e) s | _ \<Rightarrow> Some s)
     | RcAck got \<Rightarrow> (case ev of RcData r \<Rightarrow> rc_ack now got r s | _ \<Rightarrow> Some s)
     | RcPushAck ack \<Rightarrow> Some ((on_gb (PushWrittenUntil ack) s)\<lparr>rc_pc := RcBody\<rparr>)
     | RcBody \<Rightarrow> Some (rc_body sz s)
     | RcRead free \<Rightarrow> (case ev of RcData r \<Rightarrow> rc_read now free r s | _ \<Rightarrow> Some s)
     | RcPush filled \<Rightarrow> Some ((on_gb (PushReadUntil filled) s)\<lparr>rc_pc := RcBody\<rparr>)
     | RcClose err ret \<Rightarrow> map_option (\<lambda>s. s\<lparr>rc_pc := (case ret of None \<Rightarrow> RcTop | Some e \<Rightarrow> RcDone e)\<rparr>) (tn_Close err s)
     | RcDone ret \<Rightarrow> Some s)"

section \<open>Send and Receive\<close>

datatype sn_event = SnGo | SnFile bytes "gerror option"

definition sn_waited :: "wait_outcome \<Rightarrow> tunnel \<Rightarrow> tunnel" where
  "sn_waited r s =
    (case r of Sleeps \<Rightarrow> s\<lparr>sn_pc := SnAsleep\<rparr> | Returns None \<Rightarrow> s\<lparr>sn_pc := SnFill\<rparr> | Returns (Some e) \<Rightarrow> s\<lparr>sn_pc := SnDone e\<rparr>)"

text \<open>What \<^verbatim>\<open>Read\<close> put in the buffer is dropped when it returns an error too.\<close>

definition sn_read :: "nat \<Rightarrow> bytes \<Rightarrow> gerror option \<Rightarrow> tunnel \<Rightarrow> tunnel option" where
  "sn_read free xs err s =
    (case err of
       Some e \<Rightarrow> Some (s\<lparr>sn_pc := SnDone e\<rparr>)
     | None \<Rightarrow>
       let ys = take free xs; b = tn_SendWin s in
       map_option (\<lambda>(b, _). s\<lparr>tn_SendWin := b, sn_pc := SnTop, tn_in := tn_in s @ ys\<rparr>)
         (bs_Fill (length ys) (b\<lparr>bs_w := sw_write ys (bs_w b)\<rparr>)))"

definition sn_step :: "nat \<Rightarrow> sn_event \<Rightarrow> tunnel \<Rightarrow> tunnel option" where
  "sn_step sz ev s =
    (case sn_pc s of
       SnTop \<Rightarrow> Some (sn_waited (bs_WaitToFill (tn_SendWin s)) s)
     | SnAsleep \<Rightarrow>
         Some (if wt_c (bs_cf (tn_SendWin s))
           then let (b, r) = bs_WaitToFill_wake (tn_SendWin s) in sn_waited r (s\<lparr>tn_SendWin := b\<rparr>) else s)
     | SnFill \<Rightarrow> (let (b, free) = bs_ToFill (empty_buffer sz) (tn_SendWin s) in Some (s\<lparr>tn_SendWin := b, sn_pc := SnRead free\<rparr>))
     | SnRead free \<Rightarrow> (case ev of SnFile xs err \<Rightarrow> sn_read free xs err s | _ \<Rightarrow> Some s)
     | SnDone e \<Rightarrow> Some s)"

datatype rv_event = RvGo | RvDeadline gerror | RvWrote nat "gerror option" | RvFlushed "gerror option"

definition rv_waited :: "wait_outcome \<Rightarrow> tunnel \<Rightarrow> tunnel" where
  "rv_waited r s =
    (case r of Sleeps \<Rightarrow> s\<lparr>rv_pc := RvAsleep\<rparr> | Returns None \<Rightarrow> s\<lparr>rv_pc := RvNext\<rparr> | Returns (Some e) \<Rightarrow> s\<lparr>rv_pc := RvDone e\<rparr>)"

definition rv_write :: "bytes \<Rightarrow> nat \<Rightarrow> gerror option \<Rightarrow> tunnel \<Rightarrow> tunnel" where
  "rv_write buffer n err s =
    (let chunk = take n buffer; s = s\<lparr>tn_out := tn_out s @ chunk\<rparr> in
     case err of
       Some e \<Rightarrow> s\<lparr>rv_pc := RvDone e\<rparr>
     | None \<Rightarrow> s\<lparr>tn_ReceiveWin := br_Empty (length chunk) (tn_ReceiveWin s), rv_pc := RvFlush\<rparr>)"

definition rv_step :: "rv_event \<Rightarrow> tunnel \<Rightarrow> tunnel" where
  "rv_step ev s =
    (case rv_pc s of
       RvTop \<Rightarrow> (let (b, r) = br_WaitToEmpty (tn_ReceiveWin s) in rv_waited r (s\<lparr>tn_ReceiveWin := b\<rparr>))
     | RvAsleep \<Rightarrow>
         (if wt_c (br_ce (tn_ReceiveWin s))
          then let (b, r) = br_WaitToEmpty_wake (tn_ReceiveWin s) in rv_waited r (s\<lparr>tn_ReceiveWin := b\<rparr>) else s)
     | RvNext \<Rightarrow>
         (let (b, buffer) = br_ToEmpty (tn_ReceiveWin s)
          in s\<lparr>tn_ReceiveWin := b, rv_pc := (if buffer = [] then RvTop else RvWrite buffer)\<rparr>)
     | RvWrite buffer \<Rightarrow>
         (case ev of RvDeadline e \<Rightarrow> s\<lparr>rv_pc := RvDone e\<rparr> | RvWrote n err \<Rightarrow> rv_write buffer n err s | _ \<Rightarrow> s)
     | RvFlush \<Rightarrow>
         (case ev of RvFlushed None \<Rightarrow> s\<lparr>rv_pc := RvNext\<rparr> | RvFlushed (Some e) \<Rightarrow> s\<lparr>rv_pc := RvDone e\<rparr> | _ \<Rightarrow> s)
     | RvDone e \<Rightarrow> s)"

section \<open>KeepConnected and Close\<close>

text \<open>\<^verbatim>\<open>errors.Is(err, CloseRequested)\<close>: through the texts that wrap an error with \<^verbatim>\<open>%w\<close>.\<close>

definition wrappers :: "string list" where
  "wrappers = [''stopping browser read - writer returned: '', ''stopping browser read: '', ''stopping browser write: '']"

fun Is_CloseRequested :: "nat \<Rightarrow> gerror \<Rightarrow> bool" where
  "Is_CloseRequested 0 e = (e = CloseRequested)"
| "Is_CloseRequested (Suc n) e =
    (e = CloseRequested \<or> list_ex (\<lambda>p. take (length p) e = p \<and> Is_CloseRequested n (drop (length p) e)) wrappers)"

definition notice_error :: "notice \<Rightarrow> gerror" where
  "notice_error n = (case n of Replaced \<Rightarrow> ''replaced browser connection'' | Terminating None \<Rightarrow> [] | Terminating (Some e) \<Rightarrow> e | Failed e \<Rightarrow> e)"

text \<open>What \<^verbatim>\<open>GetSID\<close> and \<^verbatim>\<open>ConnectSID\<close> returned (with the position the server resumes from), and whether the retrier goes on.\<close>

datatype kc_event = KcGo | KcGotSID "gerror option" | KcDialed "gerror + nat" | KcRetry bool

definition kc_wait :: "chan_id option \<Rightarrow> tunnel \<Rightarrow> tunnel" where
  "kc_wait ch s =
    (case waiter_Wait ch (snd (tn_browser s)) of
       None \<Rightarrow> s
     | Some (n, w) \<Rightarrow>
       s\<lparr>tn_browser := (tn_gb s, w),
         kc_pc := (if Is_CloseRequested (length (notice_error n)) (notice_error n) then KcDone None else KcFailed (notice_error n))\<rparr>)"

definition kc_dialed :: "time \<Rightarrow> u32 \<Rightarrow> u32 \<Rightarrow> nat \<Rightarrow> tunnel \<Rightarrow> tunnel option" where
  "kc_dialed now pos ack q s =
    map_option (\<lambda>(b, ch). s\<lparr>tn_browser := b, kc_pc := KcWait ch, tn_asked := tn_asked s @ [(pos, ack)], tn_server := tn_server s @ [q]\<rparr>)
      (ReplaceableBrowser_Set now (Some (length (tn_asked s))) ack pos (tn_browser s))"

definition kc_step :: "time \<Rightarrow> kc_event \<Rightarrow> tunnel \<Rightarrow> tunnel option" where
  "kc_step now ev s =
    (case kc_pc s of
       KcSid \<Rightarrow> Some (case ev of KcGotSID None \<Rightarrow> s\<lparr>kc_pc := KcGet\<rparr> | KcGotSID (Some e) \<Rightarrow> s\<lparr>kc_pc := KcDone (Some e)\<rparr> | _ \<Rightarrow> s)
     | KcGet \<Rightarrow> (let (pos, ack) = GetWriteReadUntil (tn_gb s) in Some (s\<lparr>kc_pc := KcDial pos ack\<rparr>))
     | KcDial pos ack \<Rightarrow>
         (case ev of KcDialed (Inl e) \<Rightarrow> Some (s\<lparr>kc_pc := KcFailed e\<rparr>) | KcDialed (Inr q) \<Rightarrow> kc_dialed now pos ack q s | _ \<Rightarrow> Some s)
     | KcWait ch \<Rightarrow> Some (kc_wait ch s)
     | KcFailed e \<Rightarrow>
         Some (case ev of KcRetry True \<Rightarrow> s\<lparr>kc_pc := KcGet\<rparr> | KcRetry False \<Rightarrow> s\<lparr>kc_pc := KcDone (Some e)\<rparr> | _ \<Rightarrow> s)
     | KcDone r \<Rightarrow> Some s)"

text \<open>\<^verbatim>\<open>Close\<close>, any number of times.\<close>

definition cl_step :: "tunnel \<Rightarrow> tunnel option" where
  "cl_step s =
    (if cl_pc s = 0 then map_option (\<lambda>s. s\<lparr>cl_pc := 1\<rparr>) (tn_Close CloseRequested s)
     else if cl_pc s = 1 then Some (s\<lparr>tn_SendWin := bs_Fail (Some CloseRequested) (tn_SendWin s), cl_pc := 2\<rparr>)
     else Some (s\<lparr>tn_ReceiveWin := br_Fail (Some CloseRequested) (tn_ReceiveWin s), cl_pc := 0\<rparr>))"

section \<open>The tunnel\<close>

datatype tn_event =
    BrowserSend time sd_event
  | BrowserReceive time rc_event
  | FileSend sn_event
  | FileReceive rv_event
  | KeepConnected time kc_event
  | CloseTunnel

fun tn_step :: "nat \<Rightarrow> Timeouts \<Rightarrow> tn_event \<Rightarrow> tunnel \<Rightarrow> tunnel option" where
  "tn_step sz to (BrowserSend now ev) s = sd_step to now ev s"
| "tn_step sz to (BrowserReceive now ev) s = rc_step sz now ev s"
| "tn_step sz to (FileSend ev) s = sn_step sz ev s"
| "tn_step sz to (FileReceive ev) s = Some (rv_step ev s)"
| "tn_step sz to (KeepConnected now ev) s = kc_step now ev s"
| "tn_step sz to CloseTunnel s = cl_step s"

fun tn_run :: "nat \<Rightarrow> Timeouts \<Rightarrow> tn_event list \<Rightarrow> tunnel \<Rightarrow> tunnel option" where
  "tn_run sz to [] s = Some s"
| "tn_run sz to (e # es) s = (case tn_step sz to e s of None \<Rightarrow> None | Some s \<Rightarrow> tn_run sz to es s)"

end
