(* ===== verification/Tunnel_Props.thy ===== *)
theory Tunnel_Props imports Tunnel Nassh_Proxy_Props begin

text \<open>
  The tunnel end to end: whatever the order of its six threads and whatever the websockets do, as long as the
  server resumes where it is asked to and positions are published before a websocket is given up, what comes out is the
  server's stream, and what goes out on each websocket is the input from the position the websocket was opened with.
\<close>

declare sd_pc.case_cong [cong] rc_pc.case_cong [cong] sn_pc.case_cong [cong] rv_pc.case_cong [cong] kc_pc.case_cong [cong]

section \<open>The hypotheses\<close>

text \<open>The server: it sends its stream \<open>U\<close> from the position it was asked for, and acknowledges nothing new on a
  websocket before it has been sent anything on it.\<close>

definition server_honest :: "bytes \<Rightarrow> tn_event \<Rightarrow> tunnel \<Rightarrow> bool" where
  "server_honest U ev s =
    (case ev of
       BrowserReceive now (RcData (ReadData xs)) \<Rightarrow>
         (case rc_pc s of
            RcAck got \<Rightarrow> (let ack = BigEndian_Uint32 (got @ take (4 - length got) xs) in
              4 \<le> length got + length xs \<and> ack AND 0xff000000 = 0 \<and> sd_conn s \<noteq> rc_conn s \<longrightarrow> ack = fst (tn_asked s ! the (rc_conn s)))
          | RcRead free \<Rightarrow> (let ys = take free xs in take (length ys) (drop (tn_server s ! the (rc_conn s)) U) = ys)
          | _ \<Rightarrow> True)
     | KeepConnected now (KcDialed (Inr q)) \<Rightarrow>
         (case kc_pc s of
            KcDial pos ack \<Rightarrow> (let F = unat (rw_Filled (br_w (tn_ReceiveWin s))) in
              low24 (of_nat q) = ack \<and> \<bar>int q - int F\<bar> < 2 ^ 23)
          | _ \<Rightarrow> True)
     | _ \<Rightarrow> True)"

text \<open>The file of \<^verbatim>\<open>Receive\<close> is less than 2^23 bytes behind when a new websocket is taken over.\<close>

definition caught_up :: "tn_event \<Rightarrow> tunnel \<Rightarrow> bool" where
  "caught_up ev s =
    (case ev of
       BrowserReceive now e \<Rightarrow> (case rc_pc s of
          RcReset nconn ru \<Rightarrow> rw_Filled (br_w (tn_ReceiveWin s)) - rw_Emptied (br_w (tn_ReceiveWin s)) < 0x800000
        | _ \<Rightarrow> True)
     | _ \<Rightarrow> True)"

text \<open>A position is published while its websocket is the current one.\<close>

definition timely :: "tunnel \<Rightarrow> bool" where
  "timely s \<longleftrightarrow>
    (case rc_pc s of RcPush f \<Rightarrow> rb_wc (tn_gb s) = rc_conn s | RcPushAck a \<Rightarrow> rb_wc (tn_gb s) = rc_conn s | _ \<Rightarrow> True) \<and>
    (case sd_pc s of SdPush a ru \<Rightarrow> rb_wc (tn_gb s) = sd_conn s | _ \<Rightarrow> True)"

fun tn_fair :: "nat \<Rightarrow> Timeouts \<Rightarrow> bytes \<Rightarrow> tn_event list \<Rightarrow> tunnel \<Rightarrow> bool" where
  "tn_fair sz to U [] s = True"
| "tn_fair sz to U (e # es) s =
    (server_honest U e s \<and> caught_up e s \<and> (case tn_step sz to e s of None \<Rightarrow> True | Some s' \<Rightarrow> timely s' \<and> tn_fair sz to U es s'))"

section \<open>Positions\<close>

lemma low24_whole: "x AND 0xff000000 = 0 \<Longrightarrow> low24 x = x"
proof -
  assume "x AND 0xff000000 = 0"
  then have "x = (x AND 0xffffff) OR (x AND 0xff000000)"
  proof -
    have "(0xffffff OR 0xff000000 :: u32) = - 1" by simp
    then show ?thesis by (metis and.right_neutral bit.conj_disj_distrib)
  qed
  then show ?thesis using \<open>x AND 0xff000000 = 0\<close> by (simp add: low24_def)
qed

lemma unat_low24_of_nat: "unat (low24 (of_nat n :: u32)) = n mod 2 ^ 24"
proof -
  have "unat (low24 (of_nat n :: u32)) = unat (of_nat n :: u32) mod 2 ^ 24"
    unfolding low24_take_bit unsigned_take_bit_eq by (simp add: take_bit_eq_mod)
  also have "\<dots> = n mod 2 ^ 24" by (simp add: unat_of_nat mod_mod_cancel)
  finally show ?thesis .
qed

lemma low24_near: "low24 (of_nat q :: u32) = low24 (of_nat f) \<Longrightarrow> q < f + 2 ^ 23 \<Longrightarrow> f < q + 2 ^ 23 \<Longrightarrow> q = f"
proof -
  assume h: "low24 (of_nat q :: u32) = low24 (of_nat f)" "q < f + 2 ^ 23" "f < q + 2 ^ 23"
  have "q mod 2 ^ 24 = f mod 2 ^ 24" using arg_cong [OF h(1), of unat] by (simp add: unat_low24_of_nat)
  moreover define a b t where "a = q div 2 ^ 24" "b = f div 2 ^ 24" "t = q mod 2 ^ 24"
  ultimately have r: "q = 2 ^ 24 * a + t" "f = 2 ^ 24 * b + t" by (metis mult_div_mod_eq)+
  then have "a < b + 1" "b < a + 1" using h(2,3) by simp_all
  then show "q = f" using r by simp
qed

lemma low24_near_int: "low24 (of_nat q :: u32) = low24 (of_nat f) \<Longrightarrow> \<bar>int q - int f\<bar> < 2 ^ 23 \<Longrightarrow> q = f"
  by (rule low24_near) auto

lemma ToAbsolute_ahead:
  assumes "unat E \<le> unat F" "unat F < unat E + 2 ^ 23" "unat F < 2 ^ 63"
  shows "ToAbsolute E (low24 (of_nat (unat F))) = F"
proof -
  define b q t p where d: "b = unat E mod 2 ^ 24" "q = unat E div 2 ^ 24" "t = unat F mod 2 ^ 24" "p = unat F div 2 ^ 24"
  have r: "unat E = 2 ^ 24 * q + b" "unat F = 2 ^ 24 * p + t" "b < 2 ^ 24" "t < 2 ^ 24" by (simp_all add: d)
  have "q \<le> p" "p < q + 2" using assms(1,2) r by simp_all
  then consider "p = q" | "p = q + 1" by linarith
  then have eq: "(if b < t \<and> 2 ^ 23 \<le> t - b \<and> 1 < q then 2 ^ 24 * (q - 1) + t
       else if t < b \<and> 2 ^ 23 \<le> b - t then 2 ^ 24 * (q + 1) + t else 2 ^ 24 * q + t) = unat F"
    by cases (use assms r in auto)
  have "unat (ToAbsolute E (low24 (of_nat (unat F)))) = unat F"
    using unat_ToAbsolute [of "low24 (of_nat (unat F))" E] assms eq unfolding unat_low24_of_nat d by simp
  then show ?thesis by (simp only: word_unat_eq_iff)
qed

section \<open>The room a reader was given\<close>

text \<open>Between \<^verbatim>\<open>ToFill\<close> and \<^verbatim>\<open>Fill\<close> the other side of a window leaves the last buffer as it is.\<close>

definition room :: "nat \<Rightarrow> buffer list \<Rightarrow> bool" where
  "room free bs \<longleftrightarrow> blen (last_of bs) < bcap (last_of bs) \<and> free = bcap (last_of bs) - blen (last_of bs)"

lemma room_ToFill: "room free bs \<Longrightarrow> buffers_ToFill fresh bs = (bs, free)"
  by (simp add: room_def buffers_ToFill_def Let_def)

lemma ToFill_room: "buffers_ToFill fresh bs = (bs', free) \<Longrightarrow> fresh_buffer sz fresh \<Longrightarrow> 0 < sz \<Longrightarrow> room free bs'"
  by (erule (2) buffers_ToFill_cases) (auto simp: room_def fresh_buffer_def)

definition same_last :: "buffer list \<Rightarrow> buffer list \<Rightarrow> bool" where
  "same_last bs bs' \<longleftrightarrow> bs' \<noteq> [] \<and> blen (last_of bs') = blen (last_of bs) \<and> bcap (last_of bs') = bcap (last_of bs)"

lemma room_same_last: "same_last bs bs' \<Longrightarrow> room free bs \<Longrightarrow> room free bs'"
  by (simp add: same_last_def room_def)

lemma room_not_Nil: "room free bs \<Longrightarrow> bs \<noteq> []"
  by (auto simp: room_def last_of_def no_buffer_def bcap_def)

lemma rw_Empty_last: "bs \<noteq> [] \<Longrightarrow> same_last bs (ReceiveWindow_Empty_loop n bs)"
  by (induction n bs rule: ReceiveWindow_Empty_loop.induct) (auto simp: same_last_def last_of_def bcap_def Let_def)

lemma rw_ToEmpty_last: "rw_buffer w \<noteq> [] \<Longrightarrow> same_last (rw_buffer w) (rw_buffer (fst (ReceiveWindow_ToEmpty w)))"
  by (cases "rw_buffer w") (auto simp: same_last_def last_of_def ReceiveWindow_ToEmpty_def Let_def)

lemma sw_Empty_last: "bs \<noteq> [] \<Longrightarrow> same_last bs (fst (SendWindow_Empty_loop n bs p))"
  by (induction n bs p rule: SendWindow_Empty_loop.induct) (auto simp: same_last_def last_of_def bcap_def Let_def)

lemma sw_ToEmpty_last: "sw_buffer w \<noteq> [] \<Longrightarrow> same_last (sw_buffer w) (sw_buffer (fst (SendWindow_ToEmpty w)))"
  by (cases "sw_buffer w") (auto simp: same_last_def last_of_def SendWindow_ToEmpty_def Let_def)

lemma on_first_last:
  "(\<And>b. blen (f b) = blen b \<and> bcap (f b) = bcap b) \<Longrightarrow> bs \<noteq> [] \<Longrightarrow> same_last (p @ bs) (on_first f (p @ bs))"
  by (cases "p @ bs") (auto simp: same_last_def last_of_def on_first_def)

lemma same_last_append: "same_last bs bs' \<Longrightarrow> bs \<noteq> [] \<Longrightarrow> same_last bs (p @ bs')"
  by (auto simp: same_last_def last_of_def)

lemma same_last_trans: "same_last a b \<Longrightarrow> same_last b c \<Longrightarrow> same_last a c"
  by (simp add: same_last_def)

lemma sw_Acknowledge_last: "sw_buffer w \<noteq> [] \<Longrightarrow> same_last (sw_buffer w) (sw_buffer (SendWindow_Acknowledge n w))"
  using on_first_last [of "acknowledge_first k" "sw_buffer w" "[]" for k]
  by (auto simp: SendWindow_Acknowledge_def acknowledge_first_def bcap_def same_last_def Let_def split: prod.splits option.splits)

lemma sw_AcknowledgeUntil_last:
  "sw_buffer w \<noteq> [] \<Longrightarrow> same_last (sw_buffer w) (sw_buffer (fst (SendWindow_AcknowledgeUntil wu w)))"
  using sw_Acknowledge_last [of w] by (auto simp: SendWindow_AcknowledgeUntil_def same_last_def Let_def)

lemma sw_Reset_last:
  assumes "sw_buffer w \<noteq> []"
  shows "same_last (sw_buffer w) (sw_buffer (fst (SendWindow_Reset wu w)))"
proof -
  define w1 where "w1 = SendWindow_Acknowledge (unat (ToAbsolute (sw_acknowledged w) wu - sw_acknowledged w)) w"
  have a: "same_last (sw_buffer w) (sw_buffer w1)" unfolding w1_def by (rule sw_Acknowledge_last [OF assms])
  let ?b = "on_first (\<lambda>b. b\<lparr>offset := 0\<rparr>) (sw_buffer w1)"
  have b: "same_last (sw_buffer w1) ?b"
    using on_first_last [of "\<lambda>b. b\<lparr>offset := 0\<rparr>" "sw_buffer w1" "[]"] a by (simp add: bcap_def same_last_def)
  have c: "same_last (sw_pending w1 @ ?b) (on_first (\<lambda>b. b\<lparr>offset := acknowledged b\<rparr>) (sw_pending w1 @ ?b))"
    using b by (intro on_first_last) (simp_all add: bcap_def same_last_def)
  have "same_last (sw_buffer w) (sw_pending w1 @ ?b)" by (rule same_last_append [OF same_last_trans [OF a b] assms])
  from same_last_trans [OF this c] show ?thesis
    using assms by (simp add: SendWindow_Reset_def Let_def w1_def same_last_def)
qed

section \<open>The current websocket\<close>

definition live :: "bstate \<Rightarrow> bool" where
  "live b \<longleftrightarrow> (\<exists>got. browser_inv (b, got))"

text \<open>What an operation on the browser leaves: the published positions, and a notifier only if it was there.\<close>

definition same_positions :: "bstate \<Rightarrow> bstate \<Rightarrow> bool" where
  "same_positions b b' \<longleftrightarrow> rb_readUntil (fst b') = rb_readUntil (fst b) \<and> rb_writtenUntil (fst b') = rb_writtenUntil (fst b)"

lemma live_wc: "live b \<Longrightarrow> rb_wc (fst b) = None \<longleftrightarrow> rb_notifier (fst b) = None"
  by (cases b) (auto simp: live_def browser_inv_def)

lemma live_Close:
  assumes "live b"
  obtains b' where "ReplaceableBrowser_Close (Some e) b = Some b'" "live b'" "rb_wc (fst b') = None" "rb_notifier (fst b') = None" "same_positions b b'"
proof -
  obtain gb w got where b: "b = (gb, w)" "browser_inv ((gb, w), got)" using assms by (cases b) (auto simp: live_def)
  obtain gb' w' where k: "ReplaceableBrowser_Close (Some e) (gb, w) = Some (gb', w')" "browser_inv ((gb', w'), got)" "rb_wc gb' = None"
    using Close_ok [OF b(2), of "Some e"] by blast
  have "same_positions b (gb', w')"
    using k(1) b(1) by (auto simp: ReplaceableBrowser_Close_def same_positions_def Let_def split: if_splits bind_splits)
  moreover have "live (gb', w')" using k by (auto simp: live_def)
  ultimately show ?thesis using that k b live_wc by fastforce
qed

lemma live_Error:
  assumes "live b"
  obtains b' where "ReplaceableBrowser_Error now wc e b = Some b'" "live b'" "same_positions b b'"
    "rb_wc (fst b') = (if rb_wc (fst b) = wc then None else rb_wc (fst b))" "rb_notifier (fst b') \<in> {None, rb_notifier (fst b)}"
proof -
  obtain gb w got where b: "b = (gb, w)" "browser_inv ((gb, w), got)" using assms by (cases b) (auto simp: live_def)
  obtain gb' w' where k: "ReplaceableBrowser_Error now wc e (gb, w) = Some (gb', w')" "browser_inv ((gb', w'), got)"
    and v: "if rb_wc gb = None \<or> rb_wc gb \<noteq> wc then gb' = gb else rb_wc gb' = None \<and> rb_paused gb' = now"
    using Error_ok [OF b(2), of now wc e] by blast
  have "same_positions b (gb', w')"
    using k(1) b(1) by (auto simp: ReplaceableBrowser_Error_def same_positions_def Let_def split: if_splits bind_splits)
  moreover have "live (gb', w')" using k by (auto simp: live_def)
  ultimately show ?thesis using that k b v live_wc [of "(gb', w')"] by (fastforce split: if_splits)
qed

lemma live_Set:
  assumes "live b" "rb_wc (fst b) = None"
  obtains b' i where "ReplaceableBrowser_Set now (Some c) rack wack b = Some (b', Some i)" "live b'" "same_positions b b'"
    "rb_wc (fst b') = Some c" "rb_notifier (fst b') = Some i"
proof -
  obtain gb w got where b: "b = (gb, w)" "browser_inv ((gb, w), got)" using assms by (cases b) (auto simp: live_def)
  obtain gb' w' ch where k: "ReplaceableBrowser_Set now (Some c) rack wack (gb, w) = Some ((gb', w'), ch)"
    "browser_inv ((gb', w'), got)" "rb_wc gb' = Some c" "ch = rb_notifier gb'" using Set_ok [OF b(2)] by blast
  have "same_positions b (gb', w')"
    using k(1) b assms(2) by (auto simp: ReplaceableBrowser_Set_def same_positions_def make_chan_def Let_def split: if_splits)
  moreover have l: "live (gb', w')" using k by (auto simp: live_def)
  moreover obtain i where "ch = Some i" using live_wc [OF l] k by auto
  ultimately show ?thesis using that k b by fastforce
qed

text \<open>A message on the channel of a waiter means that its websocket is gone.\<close>

lemma live_Wait:
  assumes "live (gb, w)" "waiter_Wait (Some i) w = Some (n, w')"
  shows "live (gb, w')" "rb_notifier gb \<noteq> Some i"
proof -
  obtain got where b: "browser_inv ((gb, w), got)" using assms by (auto simp: live_def)
  show "live (gb, w')" using Wait_ok [OF b assms(2)] by (auto simp: live_def)
  show "rb_notifier gb \<noteq> Some i" using b assms(2) by (auto simp: browser_inv_def sent_to_def waiter_Wait_def split: if_splits)
qed

lemma live_positions [simp]: "live (gb\<lparr>rb_writtenUntil := x\<rparr>, w) = live (gb, w)" "live (gb\<lparr>rb_readUntil := y\<rparr>, w) = live (gb, w)"
  by (simp_all add: live_def browser_inv_def)

section \<open>The invariant\<close>

abbreviation tn_sw :: "tunnel \<Rightarrow> SendWindow" where
  "tn_sw s \<equiv> bs_w (tn_SendWin s)"

abbreviation tn_rw :: "tunnel \<Rightarrow> ReceiveWindow" where
  "tn_rw s \<equiv> br_w (tn_ReceiveWin s)"

abbreviation tn_wc :: "tunnel \<Rightarrow> conn option" where
  "tn_wc s \<equiv> rb_wc (tn_gb s)"

definition inv_keeper :: "tunnel \<Rightarrow> bool" where
  "inv_keeper s \<longleftrightarrow> live (tn_browser s) \<and> low24 (rb_writtenUntil (tn_gb s)) = rb_writtenUntil (tn_gb s) \<and>
    length (tn_server s) = length (tn_asked s) \<and> (\<forall>c. tn_wc s = Some c \<longrightarrow> c < length (tn_asked s)) \<and>
    (case kc_pc s of
       KcWait ch \<Rightarrow> ch \<noteq> None \<and> rb_notifier (tn_gb s) \<in> {None, ch}
     | KcDial pos ack \<Rightarrow> tn_wc s = None \<and> pos = rb_writtenUntil (tn_gb s) \<and> ack = rb_readUntil (tn_gb s)
     | _ \<Rightarrow> tn_wc s = None)"

text \<open>The receive window continues the output, and the next byte on the current websocket is the next one to come in.\<close>

definition inv_receive :: "nat \<Rightarrow> bytes \<Rightarrow> tunnel \<Rightarrow> bool" where
  "inv_receive sz U s \<longleftrightarrow> rw_inv sz U (unat (rw_Filled (tn_rw s))) (tn_rw s) \<and>
    (\<forall>c. tn_wc s = Some c \<longrightarrow> tn_server s ! c = unat (rw_Filled (tn_rw s))) \<and>
    (case rc_pc s of RcPush f \<Rightarrow> f = low24 (of_nat (unat (rw_Filled (tn_rw s))))
      | _ \<Rightarrow> rb_readUntil (tn_gb s) = low24 (of_nat (unat (rw_Filled (tn_rw s))))) \<and>
    (case rc_pc s of
       RcReset n ru \<Rightarrow> ru = rb_readUntil (tn_gb s) \<and> n \<noteq> None
     | RcRead free \<Rightarrow> room free (rw_buffer (tn_rw s)) \<and> rc_conn s \<noteq> None
     | RcNext \<Rightarrow> rc_conn s \<noteq> None | RcAck got \<Rightarrow> rc_conn s \<noteq> None | RcPushAck a \<Rightarrow> rc_conn s \<noteq> None
     | RcBody \<Rightarrow> rc_conn s \<noteq> None | RcPush f \<Rightarrow> rc_conn s \<noteq> None
     | _ \<Rightarrow> True)"

definition inv_out :: "bytes \<Rightarrow> tunnel \<Rightarrow> bool" where
  "inv_out U s \<longleftrightarrow>
    (case rv_pc s of
       RvDone e \<Rightarrow> \<exists>k. tn_out s = take k U
     | RvWrite buffer \<Rightarrow> tn_out s = take (unat (rw_Emptied (tn_rw s))) U \<and> (\<exists>rest. rw_unread (tn_rw s) = buffer @ rest)
     | _ \<Rightarrow> tn_out s = take (unat (rw_Emptied (tn_rw s))) U)"

definition frame_log :: "tunnel \<Rightarrow> (nat \<times> bytes) list" where
  "frame_log s = map (\<lambda>f. (fr_pos f, fr_data f)) (tn_frames s)"

definition inv_send :: "nat \<Rightarrow> tunnel \<Rightarrow> bool" where
  "inv_send sz s \<longleftrightarrow> sw_history_ok sz (tn_in s, tn_sw s, frame_log s) \<and>
    (case sd_pc s of
       SdMessage ru buffer \<Rightarrow> \<exists>rest. drop (unat (sw_Emptied (tn_sw s))) (tn_in s) = buffer @ rest
     | SdWrite ru buffer \<Rightarrow> \<exists>rest. drop (unat (sw_Emptied (tn_sw s))) (tn_in s) = buffer @ rest
     | _ \<Rightarrow> True) \<and>
    (case sn_pc s of SnRead free \<Rightarrow> room free (sw_buffer (tn_sw s)) | _ \<Rightarrow> True)"

text \<open>What was sent on a websocket is contiguous; while the sender uses it, it ends where the send window is.\<close>

definition log_of :: "conn \<Rightarrow> frame list \<Rightarrow> (nat \<times> bytes) list" where
  "log_of c fs = map (\<lambda>f. (fr_pos f, fr_data f)) (filter (\<lambda>f. fr_conn f = Some c) fs)"

fun chained :: "nat \<Rightarrow> (nat \<times> bytes) list \<Rightarrow> bool" where
  "chained p [] = True"
| "chained p ((q, d) # l) = (q = p \<and> chained (p + length d) l)"

definition sent_until :: "nat \<Rightarrow> (nat \<times> bytes) list \<Rightarrow> nat" where
  "sent_until p l = p + length (concat (map snd l))"

definition starts_at :: "u32 \<Rightarrow> (nat \<times> bytes) list \<Rightarrow> nat \<Rightarrow> bool" where
  "starts_at pos l p \<longleftrightarrow> low24 (of_nat p) = pos \<and> chained p l"

definition sd_uses :: "tunnel \<Rightarrow> bool" where
  "sd_uses s \<longleftrightarrow> (case sd_pc s of
     SdTop \<Rightarrow> tn_wc s = sd_conn s | SdAsleep \<Rightarrow> tn_wc s = sd_conn s | SdGet \<Rightarrow> tn_wc s = sd_conn s
   | SdSync n wu ru \<Rightarrow> n = sd_conn s | SdClose e r \<Rightarrow> False | SdDone r \<Rightarrow> False | _ \<Rightarrow> True)"

definition untouched :: "tunnel \<Rightarrow> conn \<Rightarrow> u32 \<Rightarrow> bool" where
  "untouched s c wu \<longleftrightarrow> wu = fst (tn_asked s ! c) \<and> log_of c (tn_frames s) = []"

definition sd_at :: "tunnel \<Rightarrow> bool" where
  "sd_at s \<longleftrightarrow>
    (case sd_pc s of
       SdSync n wu ru \<Rightarrow> low24 wu = wu \<and> (\<exists>c. n = Some c \<and> c < length (tn_asked s) \<and>
         (n \<noteq> sd_conn s \<longrightarrow> untouched s c wu \<and> (\<forall>c'. sd_conn s = Some c' \<longrightarrow> tn_wc s \<noteq> Some c')))
     | SdPush a ru \<Rightarrow> low24 a = a \<and> sd_conn s \<noteq> None
     | SdPing ru \<Rightarrow> sd_conn s \<noteq> None | SdReady ru \<Rightarrow> sd_conn s \<noteq> None | SdMessage ru b \<Rightarrow> sd_conn s \<noteq> None
     | SdWrite ru b \<Rightarrow> sd_conn s \<noteq> None | SdNext ru \<Rightarrow> sd_conn s \<noteq> None | SdFlush \<Rightarrow> sd_conn s \<noteq> None
     | _ \<Rightarrow> True)"

definition inv_chain :: "tunnel \<Rightarrow> bool" where
  "inv_chain s \<longleftrightarrow>
    (\<forall>f \<in> set (tn_frames s). \<exists>c < length (tn_asked s). fr_conn f = Some c) \<and>
    (\<forall>c. sd_conn s = Some c \<longrightarrow> c < length (tn_asked s)) \<and>
    (\<forall>c < length (tn_asked s). \<exists>p. starts_at (fst (tn_asked s ! c)) (log_of c (tn_frames s)) p) \<and>
    (\<forall>c. tn_wc s = Some c \<and> sd_conn s \<noteq> Some c \<longrightarrow> untouched s c (rb_writtenUntil (tn_gb s))) \<and>
    (\<forall>c. sd_conn s = Some c \<and> sd_uses s \<longrightarrow>
      (\<exists>p. starts_at (fst (tn_asked s ! c)) (log_of c (tn_frames s)) p \<and>
        sent_until p (log_of c (tn_frames s)) = unat (sw_Emptied (tn_sw s)))) \<and>
    sd_at s"

definition inv_pushed :: "tunnel \<Rightarrow> bool" where
  "inv_pushed s \<longleftrightarrow>
    (case rc_pc s of RcPushAck a \<Rightarrow> low24 a = a \<and> (sd_conn s \<noteq> rc_conn s \<longrightarrow> a = fst (tn_asked s ! the (rc_conn s))) | _ \<Rightarrow> True)"

text \<open>No acknowledgement goes out for what has not come in.\<close>

definition received :: "tunnel \<Rightarrow> u32 \<Rightarrow> bool" where
  "received s ru \<longleftrightarrow> (\<exists>n \<le> unat (rw_Filled (tn_rw s)). ru = low24 (of_nat n))"

definition inv_acks :: "tunnel \<Rightarrow> bool" where
  "inv_acks s \<longleftrightarrow> received s (rb_readUntil (tn_gb s)) \<and> (\<forall>f \<in> set (tn_frames s). received s (fr_ack f)) \<and>
    (case sd_pc s of
       SdSync n wu ru \<Rightarrow> received s ru | SdPush a ru \<Rightarrow> received s ru | SdPing ru \<Rightarrow> received s ru | SdReady ru \<Rightarrow> received s ru
     | SdMessage ru b \<Rightarrow> received s ru | SdWrite ru b \<Rightarrow> received s ru | SdNext ru \<Rightarrow> received s ru | _ \<Rightarrow> True)"

definition tn_inv :: "nat \<Rightarrow> bytes \<Rightarrow> tunnel \<Rightarrow> bool" where
  "tn_inv sz U s \<longleftrightarrow> inv_keeper s \<and> inv_receive sz U s \<and> inv_out U s \<and> inv_send sz s \<and> inv_chain s \<and> inv_pushed s \<and> inv_acks s"

text \<open>What each part does not depend on.\<close>

lemma inv_keeper_frame [simp]:
  "inv_keeper (s\<lparr>tn_SendWin := x1\<rparr>) = inv_keeper s"
  "inv_keeper (s\<lparr>tn_ReceiveWin := x2\<rparr>) = inv_keeper s"
  "inv_keeper (s\<lparr>sd_pc := x3\<rparr>) = inv_keeper s"
  "inv_keeper (s\<lparr>sd_conn := x4\<rparr>) = inv_keeper s"
  "inv_keeper (s\<lparr>sd_oldru := x5\<rparr>) = inv_keeper s"
  "inv_keeper (s\<lparr>sd_nextping := x6\<rparr>) = inv_keeper s"
  "inv_keeper (s\<lparr>rc_pc := x7\<rparr>) = inv_keeper s"
  "inv_keeper (s\<lparr>rc_conn := x8\<rparr>) = inv_keeper s"
  "inv_keeper (s\<lparr>sn_pc := x9\<rparr>) = inv_keeper s"
  "inv_keeper (s\<lparr>rv_pc := x10\<rparr>) = inv_keeper s"
  "inv_keeper (s\<lparr>cl_pc := x12\<rparr>) = inv_keeper s"
  "inv_keeper (s\<lparr>tn_in := x13\<rparr>) = inv_keeper s"
  "inv_keeper (s\<lparr>tn_out := x14\<rparr>) = inv_keeper s"
  "inv_keeper (s\<lparr>tn_frames := x15\<rparr>) = inv_keeper s"
  by (simp_all add: inv_keeper_def)

lemma inv_receive_frame [simp]:
  "inv_receive sz U (s\<lparr>tn_SendWin := x1\<rparr>) = inv_receive sz U s"
  "inv_receive sz U (s\<lparr>sd_pc := x3\<rparr>) = inv_receive sz U s"
  "inv_receive sz U (s\<lparr>sd_conn := x4\<rparr>) = inv_receive sz U s"
  "inv_receive sz U (s\<lparr>sd_oldru := x5\<rparr>) = inv_receive sz U s"
  "inv_receive sz U (s\<lparr>sd_nextping := x6\<rparr>) = inv_receive sz U s"
  "inv_receive sz U (s\<lparr>sn_pc := x9\<rparr>) = inv_receive sz U s"
  "inv_receive sz U (s\<lparr>rv_pc := x10\<rparr>) = inv_receive sz U s"
  "inv_receive sz U (s\<lparr>kc_pc := x11\<rparr>) = inv_receive sz U s"
  "inv_receive sz U (s\<lparr>cl_pc := x12\<rparr>) = inv_receive sz U s"
  "inv_receive sz U (s\<lparr>tn_in := x13\<rparr>) = inv_receive sz U s"
  "inv_receive sz U (s\<lparr>tn_out := x14\<rparr>) = inv_receive sz U s"
  "inv_receive sz U (s\<lparr>tn_frames := x15\<rparr>) = inv_receive sz U s"
  "inv_receive sz U (s\<lparr>tn_asked := x16\<rparr>) = inv_receive sz U s"
  by (simp_all add: inv_receive_def)

lemma inv_out_frame [simp]:
  "inv_out U (s\<lparr>tn_browser := x0\<rparr>) = inv_out U s"
  "inv_out U (s\<lparr>tn_SendWin := x1\<rparr>) = inv_out U s"
  "inv_out U (s\<lparr>sd_pc := x3\<rparr>) = inv_out U s"
  "inv_out U (s\<lparr>sd_conn := x4\<rparr>) = inv_out U s"
  "inv_out U (s\<lparr>sd_oldru := x5\<rparr>) = inv_out U s"
  "inv_out U (s\<lparr>sd_nextping := x6\<rparr>) = inv_out U s"
  "inv_out U (s\<lparr>rc_pc := x7\<rparr>) = inv_out U s"
  "inv_out U (s\<lparr>rc_conn := x8\<rparr>) = inv_out U s"
  "inv_out U (s\<lparr>sn_pc := x9\<rparr>) = inv_out U s"
  "inv_out U (s\<lparr>kc_pc := x11\<rparr>) = inv_out U s"
  "inv_out U (s\<lparr>cl_pc := x12\<rparr>) = inv_out U s"
  "inv_out U (s\<lparr>tn_in := x13\<rparr>) = inv_out U s"
  "inv_out U (s\<lparr>tn_frames := x15\<rparr>) = inv_out U s"
  "inv_out U (s\<lparr>tn_asked := x16\<rparr>) = inv_out U s"
  "inv_out U (s\<lparr>tn_server := x17\<rparr>) = inv_out U s"
  by (simp_all add: inv_out_def)

lemma inv_send_frame [simp]:
  "inv_send sz (s\<lparr>tn_browser := x0\<rparr>) = inv_send sz s"
  "inv_send sz (s\<lparr>tn_ReceiveWin := x2\<rparr>) = inv_send sz s"
  "inv_send sz (s\<lparr>sd_conn := x4\<rparr>) = inv_send sz s"
  "inv_send sz (s\<lparr>sd_oldru := x5\<rparr>) = inv_send sz s"
  "inv_send sz (s\<lparr>sd_nextping := x6\<rparr>) = inv_send sz s"
  "inv_send sz (s\<lparr>rc_pc := x7\<rparr>) = inv_send sz s"
  "inv_send sz (s\<lparr>rc_conn := x8\<rparr>) = inv_send sz s"
  "inv_send sz (s\<lparr>rv_pc := x10\<rparr>) = inv_send sz s"
  "inv_send sz (s\<lparr>kc_pc := x11\<rparr>) = inv_send sz s"
  "inv_send sz (s\<lparr>cl_pc := x12\<rparr>) = inv_send sz s"
  "inv_send sz (s\<lparr>tn_out := x14\<rparr>) = inv_send sz s"
  "inv_send sz (s\<lparr>tn_asked := x16\<rparr>) = inv_send sz s"
  "inv_send sz (s\<lparr>tn_server := x17\<rparr>) = inv_send sz s"
  by (simp_all add: inv_send_def frame_log_def)

lemma inv_chain_frame [simp]:
  "inv_chain (s\<lparr>rc_pc := y1\<rparr>) = inv_chain s"
  "inv_chain (s\<lparr>rc_conn := y2\<rparr>) = inv_chain s"
  "inv_chain (s\<lparr>tn_ReceiveWin := x2\<rparr>) = inv_chain s"
  "inv_chain (s\<lparr>sd_oldru := x5\<rparr>) = inv_chain s"
  "inv_chain (s\<lparr>sd_nextping := x6\<rparr>) = inv_chain s"
  "inv_chain (s\<lparr>sn_pc := x9\<rparr>) = inv_chain s"
  "inv_chain (s\<lparr>rv_pc := x10\<rparr>) = inv_chain s"
  "inv_chain (s\<lparr>kc_pc := x11\<rparr>) = inv_chain s"
  "inv_chain (s\<lparr>cl_pc := x12\<rparr>) = inv_chain s"
  "inv_chain (s\<lparr>tn_in := x13\<rparr>) = inv_chain s"
  "inv_chain (s\<lparr>tn_out := x14\<rparr>) = inv_chain s"
  "inv_chain (s\<lparr>tn_server := x17\<rparr>) = inv_chain s"
  by (simp_all add: inv_chain_def sd_at_def sd_uses_def untouched_def)

lemma inv_pushed_frame [simp]:
  "inv_pushed (s\<lparr>tn_browser := x0\<rparr>) = inv_pushed s"
  "inv_pushed (s\<lparr>tn_SendWin := x1\<rparr>) = inv_pushed s"
  "inv_pushed (s\<lparr>tn_ReceiveWin := x2\<rparr>) = inv_pushed s"
  "inv_pushed (s\<lparr>sd_pc := x3\<rparr>) = inv_pushed s"
  "inv_pushed (s\<lparr>sd_oldru := x5\<rparr>) = inv_pushed s"
  "inv_pushed (s\<lparr>sd_nextping := x6\<rparr>) = inv_pushed s"
  "inv_pushed (s\<lparr>sn_pc := x9\<rparr>) = inv_pushed s"
  "inv_pushed (s\<lparr>rv_pc := x10\<rparr>) = inv_pushed s"
  "inv_pushed (s\<lparr>kc_pc := x11\<rparr>) = inv_pushed s"
  "inv_pushed (s\<lparr>cl_pc := x12\<rparr>) = inv_pushed s"
  "inv_pushed (s\<lparr>tn_in := x13\<rparr>) = inv_pushed s"
  "inv_pushed (s\<lparr>tn_out := x14\<rparr>) = inv_pushed s"
  "inv_pushed (s\<lparr>tn_frames := x15\<rparr>) = inv_pushed s"
  "inv_pushed (s\<lparr>tn_server := x17\<rparr>) = inv_pushed s"
  by (simp_all add: inv_pushed_def)

lemma inv_acks_frame [simp]:
  "inv_acks (s\<lparr>tn_SendWin := x1\<rparr>) = inv_acks s"
  "inv_acks (s\<lparr>sd_conn := x4\<rparr>) = inv_acks s"
  "inv_acks (s\<lparr>sd_oldru := x5\<rparr>) = inv_acks s"
  "inv_acks (s\<lparr>sd_nextping := x6\<rparr>) = inv_acks s"
  "inv_acks (s\<lparr>rc_pc := x7\<rparr>) = inv_acks s"
  "inv_acks (s\<lparr>rc_conn := x8\<rparr>) = inv_acks s"
  "inv_acks (s\<lparr>sn_pc := x9\<rparr>) = inv_acks s"
  "inv_acks (s\<lparr>rv_pc := x10\<rparr>) = inv_acks s"
  "inv_acks (s\<lparr>kc_pc := x11\<rparr>) = inv_acks s"
  "inv_acks (s\<lparr>cl_pc := x12\<rparr>) = inv_acks s"
  "inv_acks (s\<lparr>tn_in := x13\<rparr>) = inv_acks s"
  "inv_acks (s\<lparr>tn_out := x14\<rparr>) = inv_acks s"
  "inv_acks (s\<lparr>tn_asked := x16\<rparr>) = inv_acks s"
  "inv_acks (s\<lparr>tn_server := x17\<rparr>) = inv_acks s"
  by (simp_all add: inv_acks_def received_def)

lemma timely_frame [simp]:
  "timely (s\<lparr>tn_SendWin := x1\<rparr>) = timely s"
  "timely (s\<lparr>tn_ReceiveWin := x2\<rparr>) = timely s"
  "timely (s\<lparr>sd_oldru := x5\<rparr>) = timely s"
  "timely (s\<lparr>sd_nextping := x6\<rparr>) = timely s"
  "timely (s\<lparr>sn_pc := x9\<rparr>) = timely s"
  "timely (s\<lparr>rv_pc := x10\<rparr>) = timely s"
  "timely (s\<lparr>kc_pc := x11\<rparr>) = timely s"
  "timely (s\<lparr>cl_pc := x12\<rparr>) = timely s"
  "timely (s\<lparr>tn_in := x13\<rparr>) = timely s"
  "timely (s\<lparr>tn_out := x14\<rparr>) = timely s"
  "timely (s\<lparr>tn_frames := x15\<rparr>) = timely s"
  "timely (s\<lparr>tn_asked := x16\<rparr>) = timely s"
  "timely (s\<lparr>tn_server := x17\<rparr>) = timely s"
  by (simp_all add: timely_def)

lemma tn_invI:
  "inv_keeper s \<Longrightarrow> inv_receive sz U s \<Longrightarrow> inv_out U s \<Longrightarrow> inv_send sz s \<Longrightarrow> inv_chain s \<Longrightarrow> inv_pushed s \<Longrightarrow> inv_acks s \<Longrightarrow> tn_inv sz U s"
  by (simp add: tn_inv_def)

lemma tn_invD:
  assumes "tn_inv sz U s"
  shows "inv_keeper s" "inv_receive sz U s" "inv_out U s" "inv_send sz s" "inv_chain s" "inv_acks s" "inv_pushed s"
  using assms by (simp_all add: tn_inv_def)

text \<open>A websocket may be dropped at any time.\<close>

lemma drop_ok:
  assumes inv: "tn_inv sz U s" and b: "live b" "same_positions (tn_browser s) b" "rb_wc (fst b) \<in> {None, tn_wc s}"
    "rb_notifier (fst b) \<in> {None, rb_notifier (tn_gb s)}"
  shows "tn_inv sz U (s\<lparr>tn_browser := b\<rparr>)"
proof (rule tn_invI)
  note i = tn_invD [OF inv] and p = b(2) [unfolded same_positions_def]
  show "inv_keeper (s\<lparr>tn_browser := b\<rparr>)" using i(1) b p by (auto simp: inv_keeper_def split: kc_pc.splits)
  show "inv_receive sz U (s\<lparr>tn_browser := b\<rparr>)" using i(2) b(3) p by (auto simp: inv_receive_def split: rc_pc.splits)
  show "inv_out U (s\<lparr>tn_browser := b\<rparr>)" "inv_send sz (s\<lparr>tn_browser := b\<rparr>)" "inv_pushed (s\<lparr>tn_browser := b\<rparr>)" using i(3,4,7) by simp_all
  show "inv_acks (s\<lparr>tn_browser := b\<rparr>)" using i(6) p by (simp add: inv_acks_def received_def)
  have u: "sd_uses (s\<lparr>tn_browser := b\<rparr>) \<and> sd_conn s \<noteq> None \<Longrightarrow> sd_uses s"
    using b(3) by (auto simp: sd_uses_def split: sd_pc.splits)
  show "inv_chain (s\<lparr>tn_browser := b\<rparr>)" using i(5) b(3) p u
    by (auto simp: inv_chain_def sd_at_def untouched_def split: sd_pc.splits)
qed

lemma tn_Close_ok:
  assumes "tn_inv sz U s"
  shows "\<exists>b. tn_Close e s = Some (s\<lparr>tn_browser := b\<rparr>) \<and> tn_inv sz U (s\<lparr>tn_browser := b\<rparr>)"
proof -
  have l: "live (tn_browser s)" using tn_invD(1) [OF assms] by (simp add: inv_keeper_def)
  obtain b where b: "ReplaceableBrowser_Close (Some e) (tn_browser s) = Some b" "live b" "rb_wc (fst b) = None"
    "rb_notifier (fst b) = None" "same_positions (tn_browser s) b" by (rule live_Close [OF l])
  have "tn_inv sz U (s\<lparr>tn_browser := b\<rparr>)" using b by (intro drop_ok [OF assms]) simp_all
  then show ?thesis using b(1) by (intro exI [of _ b]) (simp add: tn_Close_def)
qed

lemma tn_Error_ok:
  assumes "tn_inv sz U s"
  shows "\<exists>b. tn_Error now wc e s = Some (s\<lparr>tn_browser := b\<rparr>) \<and> tn_inv sz U (s\<lparr>tn_browser := b\<rparr>) \<and> (wc = None \<or> rb_wc (fst b) \<noteq> wc)"
proof -
  have l: "live (tn_browser s)" using tn_invD(1) [OF assms] by (simp add: inv_keeper_def)
  obtain b where b: "ReplaceableBrowser_Error now wc e (tn_browser s) = Some b" "live b" "same_positions (tn_browser s) b"
    "rb_wc (fst b) = (if tn_wc s = wc then None else tn_wc s)" "rb_notifier (fst b) \<in> {None, rb_notifier (tn_gb s)}"
    by (rule live_Error [OF l, of now wc e])
  have "tn_inv sz U (s\<lparr>tn_browser := b\<rparr>)" using b by (intro drop_ok [OF assms]) simp_all
  then show ?thesis using b(1,4) by (intro exI [of _ b]) (auto simp: tn_Error_def)
qed

section \<open>BrowserSend\<close>

text \<open>The three parts a step of the sender can break.\<close>

definition sd_inv :: "nat \<Rightarrow> tunnel \<Rightarrow> bool" where
  "sd_inv sz s \<longleftrightarrow> inv_send sz s \<and> inv_chain s \<and> inv_pushed s \<and> inv_acks s"

lemma sd_invI: "inv_send sz s \<Longrightarrow> inv_chain s \<Longrightarrow> inv_pushed s \<Longrightarrow> inv_acks s \<Longrightarrow> sd_inv sz s"
  by (simp add: sd_inv_def)

lemma sd_invD: "sd_inv sz s \<Longrightarrow> inv_send sz s" "sd_inv sz s \<Longrightarrow> inv_chain s" "sd_inv sz s \<Longrightarrow> inv_acks s" "sd_inv sz s \<Longrightarrow> inv_pushed s"
  by (simp_all add: sd_inv_def)

lemma tn_inv_sd: "tn_inv sz U s \<longleftrightarrow> inv_keeper s \<and> inv_receive sz U s \<and> inv_out U s \<and> sd_inv sz s"
  by (auto simp: tn_inv_def sd_inv_def)

lemma sd_stop_ok:
  assumes "sd_inv sz s"
  shows "sd_inv sz (s\<lparr>sd_pc := SdDone r\<rparr>)" "sd_inv sz (s\<lparr>sd_pc := SdClose e r\<rparr>)"
  using assms by (simp_all add: sd_inv_def inv_send_def inv_chain_def sd_at_def inv_acks_def frame_log_def sd_uses_def untouched_def received_def)

lemma sd_idle_ok:
  assumes "sd_inv sz (s\<lparr>sd_pc := SdDone r\<rparr>)" "sd_conn s = None \<or> tn_wc s \<noteq> sd_conn s"
  shows "sd_inv sz (s\<lparr>sd_pc := SdTop\<rparr>)"
  using assms by (auto simp: sd_inv_def inv_send_def inv_chain_def sd_at_def inv_acks_def frame_log_def sd_uses_def untouched_def received_def)

lemma sd_fail_ok:
  assumes "tn_inv sz U (s\<lparr>sd_pc := SdDone r\<rparr>)"
  shows "\<exists>s'. sd_fail now e s = Some s' \<and> tn_inv sz U s'"
proof -
  obtain b where b: "tn_Error now (sd_conn s) e (s\<lparr>sd_pc := SdDone r\<rparr>) = Some (s\<lparr>sd_pc := SdDone r, tn_browser := b\<rparr>)"
    "tn_inv sz U (s\<lparr>sd_pc := SdDone r, tn_browser := b\<rparr>)" "sd_conn s = None \<or> rb_wc (fst b) \<noteq> sd_conn s"
    using tn_Error_ok [OF assms] by blast
  have swap: "s\<lparr>tn_browser := b, sd_pc := SdDone r\<rparr> = s\<lparr>sd_pc := SdDone r, tn_browser := b\<rparr>" by (cases s) simp
  have "tn_Error now (sd_conn s) e s = Some (s\<lparr>tn_browser := b\<rparr>)"
    using b(1) by (cases s) (auto simp: tn_Error_def)
  moreover have "sd_inv sz (s\<lparr>tn_browser := b, sd_pc := SdTop\<rparr>)"
    by (rule sd_idle_ok [where r = r]) (use b(2,3) in \<open>simp_all add: tn_inv_sd swap\<close>)
  ultimately show ?thesis using b(2) unfolding swap [symmetric] by (simp add: sd_fail_def tn_inv_sd)
qed

text \<open>Waiting: \<^verbatim>\<open>ToEmpty\<close> leaves the positions.\<close>

lemma sw_ToEmpty_step:
  assumes "inv_send sz s" "bs_ToEmpty (tn_SendWin s) = (b, buffer)"
  shows "sw_history_ok sz (tn_in s, bs_w b, frame_log s)" "sw_Emptied (bs_w b) = sw_Emptied (tn_sw s)"
    "\<exists>rest. drop (unat (sw_Emptied (tn_sw s))) (tn_in s) = buffer @ rest"
    "room free (sw_buffer (tn_sw s)) \<Longrightarrow> room free (sw_buffer (bs_w b))"
proof -
  obtain w where w: "SendWindow_ToEmpty (tn_sw s) = (w, buffer)" "bs_w b = w"
    using assms(2) by (auto simp: bs_ToEmpty_def split: prod.splits)
  have i: "sw_inv sz (tn_in s) (tn_sw s)" using assms(1) by (simp add: inv_send_def sw_history_ok_def)
  note k = SendWindow_ToEmpty_ok [OF i w(1)]
  show "sw_history_ok sz (tn_in s, bs_w b, frame_log s)" using assms(1) k w by (simp add: inv_send_def sw_history_ok_def)
  show "sw_Emptied (bs_w b) = sw_Emptied (tn_sw s)" "\<exists>rest. drop (unat (sw_Emptied (tn_sw s))) (tn_in s) = buffer @ rest"
    using k w by simp_all
  show "room free (sw_buffer (tn_sw s)) \<Longrightarrow> room free (sw_buffer (bs_w b))"
    using room_same_last [OF sw_ToEmpty_last] room_not_Nil w by (metis fst_conv)
qed

lemma bs_WaitToEmpty_window: "bs_w (fst (bs_WaitToEmpty b)) = bs_w (fst (bs_ToEmpty b))"
  by (simp add: bs_WaitToEmpty_def bs_ToEmpty_def split: prod.splits)

lemma inv_chain_window: "sw_Emptied (bs_w b) = sw_Emptied (tn_sw s) \<Longrightarrow> inv_chain (s\<lparr>tn_SendWin := b\<rparr>) = inv_chain s"
  by (simp add: inv_chain_def sd_at_def untouched_def sd_uses_def)

text \<open>A step that leaves the positions of the send window and takes nothing from the frames.\<close>

lemma sd_window_ok:
  assumes "sd_inv sz s" "sw_history_ok sz (tn_in s, bs_w b, frame_log s)" "sw_Emptied (bs_w b) = sw_Emptied (tn_sw s)"
    "\<And>free. room free (sw_buffer (tn_sw s)) \<Longrightarrow> room free (sw_buffer (bs_w b))"
  shows "sd_inv sz (s\<lparr>tn_SendWin := b\<rparr>)"
proof (rule sd_invI)
  note i = sd_invD [OF assms(1)]
  show "inv_send sz (s\<lparr>tn_SendWin := b\<rparr>)"
    using i(1) assms(2-4) by (simp add: inv_send_def frame_log_def split: sn_pc.splits)
  show "inv_chain (s\<lparr>tn_SendWin := b\<rparr>)" using i(2) by (simp add: inv_chain_window assms(3))
qed (use sd_invD [OF assms(1)] in simp_all)

lemma sd_waited_ok:
  assumes "sd_inv sz s" "sd_pc s \<in> {SdTop, SdAsleep}"
  shows "sd_inv sz (sd_waited r s)"
proof -
  have "sd_inv sz (s\<lparr>sd_pc := SdGet\<rparr>)" "sd_inv sz (s\<lparr>sd_pc := SdAsleep\<rparr>)"
    using assms by (auto simp: sd_inv_def inv_send_def inv_chain_def sd_at_def inv_acks_def frame_log_def sd_uses_def untouched_def received_def)
  then show ?thesis using sd_stop_ok [OF assms(1)] by (auto simp: sd_waited_def split: wait_outcome.splits option.splits)
qed

lemma sd_wait_ok:
  assumes i: "sd_inv sz s" and pc: "sd_pc s \<in> {SdTop, SdAsleep}"
  shows "sd_inv sz (sd_wait s)"
proof -
  obtain b r where w: "bs_WaitToEmpty (tn_SendWin s) = (b, r)" by fastforce
  obtain b0 d where e: "bs_ToEmpty (tn_SendWin s) = (b0, d)" by fastforce
  have bw: "bs_w b = bs_w b0" using bs_WaitToEmpty_window [of "tn_SendWin s"] w e by simp
  have "sd_inv sz (s\<lparr>tn_SendWin := b\<rparr>)"
    using sw_ToEmpty_step [OF sd_invD(1) [OF i] e] unfolding bw [symmetric] by (intro sd_window_ok [OF i]) simp_all
  then show ?thesis using w pc by (simp add: sd_wait_def sd_waited_ok)
qed

lemma sd_same_window: "bs_w b = tn_sw s \<Longrightarrow> sd_inv sz (s\<lparr>tn_SendWin := b\<rparr>) = sd_inv sz s"
  by (simp add: sd_inv_def inv_send_def inv_chain_def sd_at_def inv_acks_def frame_log_def untouched_def received_def sd_uses_def)

lemma sd_asleep_ok:
  assumes i: "sd_inv sz s" and pc: "sd_pc s = SdAsleep"
  shows "sd_inv sz (sd_asleep ev s)"
proof -
  let ?b = "(tn_SendWin s)\<lparr>bs_ce := (bs_ce (tn_SendWin s))\<lparr>wt_c := False\<rparr>\<rparr>"
  have j: "sd_inv sz (s\<lparr>tn_SendWin := ?b\<rparr>)" using i by (simp add: sd_same_window)
  have "sd_inv sz (let (b, r) = bs_WaitToEmpty_wake (tn_SendWin s) in sd_waited r (s\<lparr>tn_SendWin := b\<rparr>))"
  proof (cases "wt_e (bs_ce ?b) = None")
    case True
    then have "(let (b, r) = bs_WaitToEmpty_wake (tn_SendWin s) in sd_waited r (s\<lparr>tn_SendWin := b\<rparr>)) = sd_wait (s\<lparr>tn_SendWin := ?b\<rparr>)"
      by (simp add: bs_WaitToEmpty_wake_def sd_wait_def Let_def split: prod.splits)
    then show ?thesis using sd_wait_ok [OF j] pc by simp
  next
    case False
    then show ?thesis using sd_waited_ok [OF j] pc by (simp add: bs_WaitToEmpty_wake_def Let_def)
  qed
  then show ?thesis using sd_waited_ok [OF i] i pc by (simp add: sd_asleep_def)
qed

lemma sd_get_ok:
  assumes i: "sd_inv sz s" and k: "inv_keeper s" and pc: "sd_pc s = SdGet"
  shows "sd_inv sz (sd_get s)"
proof -
  have "sd_inv sz (s\<lparr>sd_pc := SdSync (tn_wc s) (rb_writtenUntil (tn_gb s)) (rb_readUntil (tn_gb s))\<rparr>)" if "tn_wc s \<noteq> None"
    using i k pc that
    by (auto simp: sd_inv_def inv_send_def inv_chain_def sd_at_def inv_acks_def inv_keeper_def frame_log_def sd_uses_def untouched_def received_def)
  then show ?thesis
    using i sd_stop_ok [OF i] by (auto simp: sd_get_def GetForSend_def Browser_Get_def split: option.splits if_splits)
qed

lemma bs_Reset_ok:
  assumes h: "sw_history_ok sz (S, bs_w b0, log)" and r: "bs_Reset wu b0 = (b, err)"
  shows "sw_history_ok sz (S, bs_w b, log)" "err = None \<Longrightarrow> low24 (of_nat (unat (sw_Emptied (bs_w b)))) = low24 wu"
    "room free (sw_buffer (bs_w b0)) \<Longrightarrow> room free (sw_buffer (bs_w b))"
proof -
  obtain w where w: "SendWindow_Reset wu (bs_w b0) = (w, err)" "bs_w b = w"
    using r by (auto simp: bs_Reset_def Let_def split: prod.splits)
  have i: "sw_inv sz S (bs_w b0)" using h by (simp add: sw_history_ok_def)
  note k = SendWindow_Reset_ok [OF i w(1)]
  show "sw_history_ok sz (S, bs_w b, log)" using h k w by (simp add: sw_history_ok_def)
  have "err = None \<Longrightarrow> sw_Emptied w = ToAbsolute (sw_acknowledged (bs_w b0)) wu" using k by (simp split: if_splits)
  then show "err = None \<Longrightarrow> low24 (of_nat (unat (sw_Emptied (bs_w b)))) = low24 wu"
    using ToAbsolute_low24 low24_of_nat w(2) by metis
  show "room free (sw_buffer (bs_w b0)) \<Longrightarrow> room free (sw_buffer (bs_w b))"
    using room_same_last [OF sw_Reset_last] room_not_Nil w by (metis fst_conv)
qed

lemma bs_Acknowledge_ok:
  assumes h: "sw_history_ok sz (S, bs_w b0, log)" and r: "bs_AcknowledgeUntil wu b0 = (b, v, err)"
  shows "sw_history_ok sz (S, bs_w b, log)" "sw_Emptied (bs_w b) = sw_Emptied (bs_w b0)"
    "room free (sw_buffer (bs_w b0)) \<Longrightarrow> room free (sw_buffer (bs_w b))"
proof -
  obtain w where w: "SendWindow_AcknowledgeUntil wu (bs_w b0) = (w, v, err)" "bs_w b = w"
    using r by (auto simp: bs_AcknowledgeUntil_def Let_def split: prod.splits)
  have i: "sw_inv sz S (bs_w b0)" using h by (simp add: sw_history_ok_def)
  note k = SendWindow_AcknowledgeUntil_ok [OF i w(1)]
  show "sw_history_ok sz (S, bs_w b, log)" "sw_Emptied (bs_w b) = sw_Emptied (bs_w b0)" using h k w by (simp_all add: sw_history_ok_def)
  show "room free (sw_buffer (bs_w b0)) \<Longrightarrow> room free (sw_buffer (bs_w b))"
    using room_same_last [OF sw_AcknowledgeUntil_last] room_not_Nil w by (metis fst_conv)
qed

lemma frame_log_window [simp]: "frame_log (s\<lparr>tn_SendWin := b\<rparr>) = frame_log s" "frame_log (s\<lparr>sd_pc := q\<rparr>) = frame_log s"
  "frame_log (s\<lparr>sd_conn := c\<rparr>) = frame_log s" "frame_log (s\<lparr>sn_pc := p\<rparr>) = frame_log s" "frame_log (s\<lparr>tn_in := x\<rparr>) = frame_log s"
  "frame_log (s\<lparr>sd_oldru := ru\<rparr>) = frame_log s" "frame_log (s\<lparr>tn_browser := y\<rparr>) = frame_log s"
  by (simp_all add: frame_log_def)

lemma sd_adopt_ok:
  assumes i: "sd_inv sz s" and pc: "sd_pc s = SdSync n wu ru" and new: "n \<noteq> sd_conn s" and r: "bs_Reset wu (tn_SendWin s) = (b, None)"
    and tm: "timely s" and rc: "inv_receive sz' U s"
  shows "sd_inv sz (s\<lparr>tn_SendWin := b, sd_conn := n, sd_pc := SdPing ru\<rparr>)"
proof (rule sd_invI)
  note j = sd_invD [OF i]
  have h: "sw_history_ok sz (tn_in s, tn_sw s, frame_log s)" using j(1) by (simp add: inv_send_def)
  note k = bs_Reset_ok [OF h r]
  let ?s = "s\<lparr>tn_SendWin := b, sd_conn := n, sd_pc := SdPing ru\<rparr>"
  show "inv_send sz ?s" using j(1) k(1,3) pc by (simp add: inv_send_def split: sn_pc.splits)
  show "inv_acks ?s" using j(3) pc by (simp add: inv_acks_def received_def)
  obtain c where c: "n = Some c" "c < length (tn_asked s)" "untouched s c wu" "low24 wu = wu" "\<forall>c'. sd_conn s = Some c' \<longrightarrow> tn_wc s \<noteq> Some c'"
    using j(2) pc new by (auto simp: inv_chain_def sd_at_def)
  have u: "starts_at (fst (tn_asked s ! c)) (log_of c (tn_frames s)) (unat (sw_Emptied (bs_w b)))"
    "sent_until (unat (sw_Emptied (bs_w b))) (log_of c (tn_frames s)) = unat (sw_Emptied (bs_w b))"
    using c(3,4) k(2) by (simp_all add: untouched_def starts_at_def sent_until_def)
  have a: "case rc_pc s of RcPushAck a \<Rightarrow> low24 a = a \<and> a = fst (tn_asked s ! the (rc_conn s)) | _ \<Rightarrow> True"
    using j(4) tm c(5) rc new by (auto simp: inv_pushed_def timely_def inv_receive_def split: rc_pc.splits)
  show "inv_chain ?s" using j(2) c u pc by (auto simp: inv_chain_def sd_at_def untouched_def sd_uses_def)
  show "inv_pushed ?s" using a by (auto simp: inv_pushed_def split: rc_pc.splits)
qed

lemma sd_sync_ok:
  assumes i: "sd_inv sz s" and pc: "sd_pc s = SdSync n wu ru" and tm: "timely s" and rc: "inv_receive sz' U s"
  shows "sd_inv sz (sd_sync n wu ru s)"
proof (cases "n = sd_conn s")
  case False
  obtain b err where r: "bs_Reset wu (tn_SendWin s) = (b, err)" by fastforce
  have h: "sw_history_ok sz (tn_in s, tn_sw s, frame_log s)" using sd_invD(1) [OF i] by (simp add: inv_send_def)
  note k = bs_Reset_ok [OF h r]
  have "sd_inv sz (s\<lparr>tn_SendWin := b, sd_pc := SdClose e x\<rparr>)" for e x
    using sd_invD [OF i] k(1,3) pc
    by (auto simp: sd_inv_def inv_send_def inv_chain_def sd_at_def inv_acks_def sd_uses_def untouched_def received_def split: sn_pc.splits)
  then show ?thesis using False r sd_adopt_ok [OF i pc False _ tm rc] by (cases err) (auto simp: sd_sync_def)
next
  case True
  obtain b v err where r: "bs_AcknowledgeUntil wu (tn_SendWin s) = (b, v, err)" by (metis prod_cases3)
  have h: "sw_history_ok sz (tn_in s, tn_sw s, frame_log s)" using sd_invD(1) [OF i] by (simp add: inv_send_def)
  note k = bs_Acknowledge_ok [OF h r]
  have w: "sd_inv sz (s\<lparr>tn_SendWin := b\<rparr>)" using k by (intro sd_window_ok [OF i]) simp_all
  have "sd_inv sz (s\<lparr>tn_SendWin := b, sd_pc := SdPing ru\<rparr>)" "low24 a = a \<Longrightarrow> sd_inv sz (s\<lparr>tn_SendWin := b, sd_pc := SdPush a ru\<rparr>)" for a
    using w pc True by (auto simp: sd_inv_def inv_send_def inv_chain_def sd_at_def inv_acks_def sd_uses_def untouched_def received_def)
  then show ?thesis using True r by (cases err) (auto simp: sd_sync_def)
qed

text \<open>The sender moves on along its use of a websocket.\<close>

lemmas sd_parts = sd_inv_def inv_send_def inv_chain_def sd_at_def inv_acks_def sd_uses_def untouched_def received_def

lemma sd_move_ok: "sd_inv sz s \<Longrightarrow> sd_pc s \<in> {SdPing ru, SdReady ru, SdNext ru} \<Longrightarrow> pc \<in> {SdReady ru, SdNext ru, SdFlush, SdTop}
    \<Longrightarrow> sd_inv sz (s\<lparr>sd_pc := pc\<rparr>)"
  by (auto simp: sd_parts)

lemma sd_load_ok:
  assumes "sd_inv sz s" "sd_pc s \<in> {SdReady ru, SdNext ru} \<or> sd_pc s = SdMessage ru buffer"
    "\<exists>rest. drop (unat (sw_Emptied (tn_sw s))) (tn_in s) = buffer @ rest"
  shows "sd_inv sz (s\<lparr>sd_pc := SdMessage ru buffer\<rparr>)" "sd_inv sz (s\<lparr>sd_pc := SdWrite ru buffer\<rparr>)"
  using assms by (auto simp: sd_parts)

lemma sd_flushed_ok: "sd_inv sz s \<Longrightarrow> sd_pc s = SdFlush \<Longrightarrow> sd_inv sz (s\<lparr>sd_pc := SdTop\<rparr>)"
  by (auto simp: sd_parts)

lemma sd_oldru_ok [simp]: "sd_inv sz (s\<lparr>sd_oldru := ru\<rparr>) = sd_inv sz s" "sd_inv sz (s\<lparr>sd_nextping := x\<rparr>) = sd_inv sz s"
  by (simp_all add: sd_inv_def)

lemma sd_take_ok:
  assumes i: "sd_inv sz s" and e: "bs_ToEmpty (tn_SendWin s) = (b, buffer)"
  shows "sd_inv sz (s\<lparr>tn_SendWin := b\<rparr>)" "\<exists>rest. drop (unat (sw_Emptied (bs_w b))) (tn_in s) = buffer @ rest"
proof -
  note k = sw_ToEmpty_step [OF sd_invD(1) [OF i] e]
  show "sd_inv sz (s\<lparr>tn_SendWin := b\<rparr>)" using k by (intro sd_window_ok [OF i]) simp_all
  show "\<exists>rest. drop (unat (sw_Emptied (bs_w b))) (tn_in s) = buffer @ rest" using k(2,3) by simp
qed

lemma sd_ready_ok:
  assumes i: "sd_inv sz s" and pc: "sd_pc s = SdReady ru"
  shows "sd_inv sz (sd_ready ru s)"
proof -
  obtain b buffer where e: "bs_ToEmpty (tn_SendWin s) = (b, buffer)" by fastforce
  note k = sd_take_ok [OF i e]
  have "sd_inv sz (s\<lparr>tn_SendWin := b, sd_pc := SdTop\<rparr>)" using sd_move_ok [OF k(1)] pc by simp
  moreover have "sd_inv sz (s\<lparr>tn_SendWin := b, sd_oldru := ru, sd_pc := SdMessage ru buffer\<rparr>)"
    by (rule sd_load_ok) (use k pc in simp_all)
  ultimately show ?thesis using e by (simp add: sd_ready_def Let_def)
qed

lemma sd_next_ok:
  assumes i: "sd_inv sz s" and pc: "sd_pc s = SdNext ru"
  shows "sd_inv sz (sd_next ru s)"
proof -
  obtain b buffer where e: "bs_ToEmpty (tn_SendWin s) = (b, buffer)" by fastforce
  note k = sd_take_ok [OF i e]
  have "sd_inv sz (s\<lparr>tn_SendWin := b, sd_pc := SdFlush\<rparr>)" using sd_move_ok [OF k(1)] pc by simp
  moreover have "sd_inv sz (s\<lparr>tn_SendWin := b, sd_pc := SdWrite ru buffer\<rparr>)"
    by (rule sd_load_ok) (use k pc in simp_all)
  ultimately show ?thesis using e by (simp add: sd_next_def)
qed

text \<open>A frame goes to the end of its chain.\<close>

lemma chained_snoc: "chained p (l @ [(q, d)]) \<longleftrightarrow> chained p l \<and> q = sent_until p l"
  by (induction l arbitrary: p) (auto simp: sent_until_def add.assoc)

lemma sent_until_snoc: "sent_until p (l @ [(q, d)]) = sent_until p l + length d"
  by (simp add: sent_until_def)

lemma log_of_snoc: "log_of c (fs @ [f]) = log_of c fs @ (if fr_conn f = Some c then [(fr_pos f, fr_data f)] else [])"
  by (simp add: log_of_def)

lemma sd_write_ok:
  assumes inv: "tn_inv sz U s" and pc: "sd_pc s = SdWrite ru buffer"
  shows "\<exists>s'. sd_write now ru buffer n r s = Some s' \<and> tn_inv sz U s'"
proof -
  have i: "sd_inv sz s" and o: "inv_keeper s" "inv_receive sz U s" "inv_out U s" using inv by (simp_all add: tn_inv_sd)
  let ?E = "unat (sw_Emptied (tn_sw s))" and ?chunk = "take n buffer"
  obtain c where c: "sd_conn s = Some c" "c < length (tn_asked s)" using sd_invD(2) [OF i] pc by (auto simp: inv_chain_def sd_at_def)
  obtain rest where rest: "drop ?E (tn_in s) = buffer @ rest" using sd_invD(1) [OF i] pc by (auto simp: inv_send_def)
  let ?f = "\<lparr>fr_conn = sd_conn s, fr_ack = ru, fr_pos = ?E, fr_data = ?chunk\<rparr>"
  let ?s = "s\<lparr>tn_frames := tn_frames s @ [?f]\<rparr>"
  obtain p where p: "starts_at (fst (tn_asked s ! c)) (log_of c (tn_frames s)) p" "sent_until p (log_of c (tn_frames s)) = ?E"
    using sd_invD(2) [OF i] pc c by (auto simp: inv_chain_def sd_at_def sd_uses_def)
  let ?log = "log_of c (tn_frames s) @ [(?E, ?chunk)]"
  have p': "starts_at (fst (tn_asked s ! c)) ?log p" "sent_until p ?log = ?E + length ?chunk"
    using p by (simp_all add: starts_at_def chained_snoc sent_until_snoc)
  have d: "take (length ?chunk) (drop ?E (tn_in s)) = ?chunk" by (simp add: rest min_def)
  have h: "sw_history_ok sz (tn_in s, tn_sw s, frame_log ?s)"
    using sd_invD(1) [OF i] d by (simp add: inv_send_def sw_history_ok_def frame_log_def)
  have chain: "\<forall>c' < length (tn_asked s). \<exists>p. starts_at (fst (tn_asked s ! c')) (log_of c' (tn_frames ?s)) p"
    using sd_invD(2) [OF i] p' c by (auto simp: inv_chain_def sd_at_def log_of_snoc)
  have failed: "sd_inv sz (?s\<lparr>sd_pc := SdDone e\<rparr>)" for e
    using i pc c h chain by (auto simp: sd_parts frame_log_def log_of_snoc)
  have u: "sw_inv sz (tn_in s) (tn_sw s)" using h by (simp add: sw_history_ok_def)
  then have "length ?chunk \<le> length (sw_unsent (tn_sw s))" using rest by (simp add: sw_inv_def)
  note k = SendWindow_Empty_ok [OF u this]
  let ?b = "bs_Empty (length ?chunk) (tn_SendWin s)"
  have b: "bs_w ?b = SendWindow_Empty (length ?chunk) (tn_sw s)" by (simp add: bs_Empty_def)
  have rm: "room free (sw_buffer (tn_sw s)) \<Longrightarrow> room free (sw_buffer (bs_w ?b))" for free
    unfolding b SendWindow_Empty_def using room_same_last [OF sw_Empty_last] room_not_Nil
    by (auto split: prod.splits) (metis fst_conv)
  have "sd_inv sz (?s\<lparr>tn_SendWin := ?b, sd_pc := SdNext ru\<rparr>)"
  proof (rule sd_invI)
    let ?t = "?s\<lparr>tn_SendWin := ?b, sd_pc := SdNext ru\<rparr>"
    show "inv_send sz ?t" using sd_invD(1) [OF i] h k rm b by (simp add: inv_send_def sw_history_ok_def split: sn_pc.splits)
    show "inv_acks ?t" using sd_invD(3) [OF i] pc by (auto simp: inv_acks_def received_def)
    show "inv_pushed ?t" using sd_invD(4) [OF i] by simp
    show "inv_chain ?t" using sd_invD(2) [OF i] pc c chain p' k b
      by (auto simp: inv_chain_def sd_at_def sd_uses_def untouched_def log_of_snoc)
  qed
  then have "tn_inv sz U (?s\<lparr>tn_SendWin := ?b, sd_pc := SdNext ru\<rparr>)" using o by (simp add: tn_inv_sd)
  moreover have "\<exists>s'. sd_fail now e ?s = Some s' \<and> tn_inv sz U s'" for e
    by (rule sd_fail_ok [where r = "[]"]) (use failed o in \<open>simp add: tn_inv_sd\<close>)
  ultimately show ?thesis by (cases r) (simp_all add: sd_write_def)
qed

lemma sd_pinged_ok: "tn_inv sz U s \<Longrightarrow> sd_pc s = SdPing ru \<Longrightarrow> tn_inv sz U (s\<lparr>sd_nextping := x, sd_pc := SdReady ru\<rparr>)"
  "tn_inv sz U s \<Longrightarrow> sd_pc s = SdPing ru \<Longrightarrow> tn_inv sz U (s\<lparr>sd_pc := SdReady ru\<rparr>)"
  using sd_move_ok [of sz s ru "SdReady ru"] sd_move_ok [of sz "s\<lparr>sd_nextping := x\<rparr>" ru "SdReady ru"] by (simp_all add: tn_inv_sd)

lemma sd_ping_ok:
  assumes inv: "tn_inv sz U s" and pc: "sd_pc s = SdPing ru"
  shows "\<exists>s'. sd_ping to now ru r s = Some s' \<and> tn_inv sz U s'"
proof (cases r)
  case None
  then show ?thesis using sd_pinged_ok [OF inv pc] by (simp add: sd_ping_def)
next
  case (Some e)
  obtain b where b: "tn_Error now (sd_conn s) (''websocket Ping returned error: '' @ e) s = Some (s\<lparr>tn_browser := b\<rparr>)"
    "tn_inv sz U (s\<lparr>tn_browser := b\<rparr>)" using tn_Error_ok [OF inv] by blast
  have "sd_pc (s\<lparr>tn_browser := b\<rparr>) = SdPing ru" using pc by simp
  note k = sd_pinged_ok(1) [OF b(2) this, of "now + BrowserPingInterval to"]
  show ?thesis
  proof (cases "sd_nextping s < now")
    case True
    then have "sd_ping to now ru r s = Some (s\<lparr>tn_browser := b, sd_nextping := now + BrowserPingInterval to, sd_pc := SdReady ru\<rparr>)"
      unfolding sd_ping_def Some by (simp only: option.case b(1) if_True option.map)
    then show ?thesis using k by blast
  next
    case False
    then show ?thesis using sd_pinged_ok(2) [OF inv pc] by (simp add: sd_ping_def)
  qed
qed

lemma sd_push_ok:
  assumes inv: "tn_inv sz U s" and pc: "sd_pc s = SdPush a ru" and tm: "timely s"
  shows "tn_inv sz U (on_gb (PushWrittenUntil a) s\<lparr>sd_pc := SdPing ru\<rparr>)"
proof (rule tn_invI)
  note i = tn_invD [OF inv]
  let ?s = "on_gb (PushWrittenUntil a) s\<lparr>sd_pc := SdPing ru\<rparr>"
  obtain c where c: "sd_conn s = Some c" "tn_wc s = Some c" "low24 a = a" using i(5) pc tm by (auto simp: inv_chain_def sd_at_def timely_def)
  show "inv_keeper ?s" using i(1) c by (auto simp: inv_keeper_def on_gb_def PushWrittenUntil_def split: kc_pc.splits)
  show "inv_receive sz U ?s" using i(2) by (simp add: inv_receive_def on_gb_def PushWrittenUntil_def)
  show "inv_out U ?s" "inv_send sz ?s" "inv_pushed ?s" using i(3,4,7) pc by (simp_all add: on_gb_def inv_send_def)
  show "inv_acks ?s" using i(6) pc by (simp add: inv_acks_def on_gb_def PushWrittenUntil_def received_def)
  show "inv_chain ?s" using i(5) pc c by (auto simp: inv_chain_def sd_at_def on_gb_def PushWrittenUntil_def untouched_def sd_uses_def)
qed

lemma sd_step_ok:
  assumes inv: "tn_inv sz U s" and tm: "timely s"
  shows "\<exists>s'. sd_step to now ev s = Some s' \<and> tn_inv sz U s'"
proof -
  have i: "sd_inv sz s" and k: "inv_keeper s" and rc: "inv_receive sz U s" using inv by (simp_all add: tn_inv_sd)
  have pure: ?thesis if "sd_step to now ev s = Some s'" "sd_inv sz s'" "inv_keeper s' = inv_keeper s"
    "inv_receive sz U s' = inv_receive sz U s" "inv_out U s' = inv_out U s" for s'
    using that inv by (simp add: tn_inv_sd)
  have fail: "\<exists>s'. sd_fail now e s = Some s' \<and> tn_inv sz U s'" for e
    by (rule sd_fail_ok [where r = "[]"]) (use inv sd_stop_ok [OF i] in \<open>simp add: tn_inv_sd\<close>)
  show ?thesis
  proof (cases "sd_pc s")
    case SdTop
    show ?thesis by (rule pure [of "sd_wait s"])
        (use SdTop sd_wait_ok [OF i] in \<open>simp_all add: sd_step_def sd_wait_def sd_waited_def split: prod.splits wait_outcome.splits option.splits\<close>)
  next
    case SdAsleep
    show ?thesis by (rule pure [of "sd_asleep ev s"])
        (use SdAsleep sd_asleep_ok [OF i] in \<open>simp_all add: sd_step_def sd_asleep_def sd_waited_def split: prod.splits wait_outcome.splits option.splits\<close>)
  next
    case SdGet
    show ?thesis by (rule pure [of "sd_get s"])
        (use SdGet sd_get_ok [OF i k] in \<open>simp_all add: sd_step_def sd_get_def split: prod.splits option.splits\<close>)
  next
    case (SdSync n wu ru)
    show ?thesis by (rule pure [of "sd_sync n wu ru s"])
        (use SdSync sd_sync_ok [OF i SdSync tm rc] in \<open>simp_all add: sd_step_def sd_sync_def split: prod.splits option.splits\<close>)
  next
    case (SdPush a ru)
    then show ?thesis using sd_push_ok [OF inv SdPush tm] by (simp add: sd_step_def)
  next
    case (SdPing ru)
    then show ?thesis using sd_ping_ok [OF inv SdPing] inv by (cases ev) (simp_all add: sd_step_def)
  next
    case (SdReady ru)
    show ?thesis by (rule pure [of "sd_ready ru s"])
        (use SdReady sd_ready_ok [OF i] in \<open>simp_all add: sd_step_def sd_ready_def Let_def split: prod.splits\<close>)
  next
    case (SdMessage ru buffer)
    then have "sd_inv sz (s\<lparr>sd_pc := SdWrite ru buffer\<rparr>)" using i by (intro sd_load_ok) (auto simp: sd_parts)
    then show ?thesis using SdMessage fail inv by (cases ev) (auto simp: sd_step_def tn_inv_sd split: option.splits)
  next
    case (SdWrite ru buffer)
    then show ?thesis using sd_write_ok [OF inv SdWrite] inv by (cases ev) (simp_all add: sd_step_def)
  next
    case (SdNext ru)
    show ?thesis by (rule pure [of "sd_next ru s"])
        (use SdNext sd_next_ok [OF i] in \<open>simp_all add: sd_step_def sd_next_def split: prod.splits\<close>)
  next
    case SdFlush
    then show ?thesis using sd_flushed_ok [OF i] fail inv by (cases ev) (auto simp: sd_step_def tn_inv_sd split: option.splits)
  next
    case (SdClose e r)
    obtain b where b: "tn_Close e s = Some (s\<lparr>tn_browser := b\<rparr>)" "tn_inv sz U (s\<lparr>tn_browser := b\<rparr>)" using tn_Close_ok [OF inv] by blast
    then show ?thesis using SdClose sd_stop_ok(1) [of sz "s\<lparr>tn_browser := b\<rparr>"] by (simp add: sd_step_def tn_inv_sd)
  next
    case (SdDone r)
    then show ?thesis using inv by (simp add: sd_step_def)
  qed
qed

section \<open>BrowserReceive\<close>

text \<open>Program points of the receiver at which nothing is pending.\<close>

definition rc_calm :: "rc_pc \<Rightarrow> bool" where
  "rc_calm pc \<longleftrightarrow> (case pc of RcReset n ru \<Rightarrow> False | RcNext \<Rightarrow> False | RcAck x \<Rightarrow> False | RcPushAck a \<Rightarrow> False
    | RcBody \<Rightarrow> False | RcRead n \<Rightarrow> False | RcPush f \<Rightarrow> False | _ \<Rightarrow> True)"

definition rc_reads :: "rc_pc \<Rightarrow> bool" where
  "rc_reads pc \<longleftrightarrow> (case pc of RcNext \<Rightarrow> True | RcAck x \<Rightarrow> True | RcBody \<Rightarrow> True | _ \<Rightarrow> False)"

lemma rc_calm_ok:
  assumes "tn_inv sz U s" "\<forall>f. rc_pc s \<noteq> RcPush f" "rc_calm pc"
  shows "tn_inv sz U (s\<lparr>rc_pc := pc\<rparr>)"
  using assms by (cases "rc_pc s"; cases pc) (simp_all add: tn_inv_def inv_receive_def inv_pushed_def rc_calm_def)

lemma rc_reads_ok:
  assumes "tn_inv sz U s" "\<forall>f. rc_pc s \<noteq> RcPush f" "rc_reads pc" "rc_conn s \<noteq> None"
  shows "tn_inv sz U (s\<lparr>rc_pc := pc\<rparr>)"
  using assms by (cases "rc_pc s"; cases pc) (simp_all add: tn_inv_def inv_receive_def inv_pushed_def rc_reads_def)

lemma rc_fail_ok:
  assumes "tn_inv sz U s" "\<forall>f. rc_pc s \<noteq> RcPush f"
  shows "\<exists>s'. rc_fail now e s = Some s' \<and> tn_inv sz U s'"
proof -
  obtain b where b: "tn_Error now (rc_conn s) e s = Some (s\<lparr>tn_browser := b\<rparr>)" "tn_inv sz U (s\<lparr>tn_browser := b\<rparr>)"
    using tn_Error_ok [OF assms(1)] by blast
  then show ?thesis using rc_calm_ok [OF b(2), of RcTop] assms(2) by (simp add: rc_fail_def rc_calm_def)
qed

lemma tn_same_window: "br_w b = tn_rw s \<Longrightarrow> tn_inv sz U (s\<lparr>tn_ReceiveWin := b\<rparr>) = tn_inv sz U s"
  by (simp add: tn_inv_def inv_receive_def inv_out_def inv_acks_def received_def)

lemma rc_waited_ok:
  assumes "tn_inv sz U s" "\<forall>f. rc_pc s \<noteq> RcPush f"
  shows "tn_inv sz U (rc_waited r s)"
  using rc_calm_ok [OF assms] by (auto simp: rc_waited_def rc_calm_def split: wait_outcome.splits option.splits)

lemma rc_asleep_ok:
  assumes "tn_inv sz U s" "\<forall>f. rc_pc s \<noteq> RcPush f"
  shows "tn_inv sz U (rc_asleep s)"
proof -
  let ?b = "(tn_ReceiveWin s)\<lparr>br_cf := (br_cf (tn_ReceiveWin s))\<lparr>wt_c := False\<rparr>\<rparr>"
  have "tn_inv sz U (s\<lparr>tn_ReceiveWin := ?b\<rparr>)" using assms by (simp add: tn_same_window)
  then have "tn_inv sz U (rc_waited r (s\<lparr>tn_ReceiveWin := ?b\<rparr>))" for r using assms(2) by (intro rc_waited_ok) simp_all
  then show ?thesis using assms(1) by (simp add: rc_asleep_def br_WaitToFill_wake_def Let_def)
qed

lemma rc_get_ok:
  assumes inv: "tn_inv sz U s" and pc: "rc_pc s = RcGet"
  shows "tn_inv sz U (rc_get s)"
proof -
  have p: "\<forall>f. rc_pc s \<noteq> RcPush f" using pc by simp
  have "tn_inv sz U (s\<lparr>rc_pc := RcReset (tn_wc s) (rb_readUntil (tn_gb s))\<rparr>)" if "tn_wc s \<noteq> None"
    using inv pc that by (auto simp: tn_inv_def inv_receive_def inv_pushed_def)
  moreover have "tn_inv sz U (s\<lparr>rc_pc := RcNext\<rparr>)" if "tn_wc s \<noteq> None" "tn_wc s = rc_conn s"
    using rc_reads_ok [OF inv p, of RcNext] that by (simp add: rc_reads_def)
  moreover have "tn_inv sz U (s\<lparr>rc_pc := RcClose e r\<rparr>)" for e r using rc_calm_ok [OF inv p] by (simp add: rc_calm_def)
  ultimately show ?thesis using inv
    by (auto simp: rc_get_def GetForReceive_def Browser_Get_def split: option.splits if_splits)
qed

lemma rc_reset_ok:
  assumes inv: "tn_inv sz U s" and pc: "rc_pc s = RcReset n ru" and small: "caught_up (BrowserReceive now ev) s"
  shows "tn_inv sz U (rc_reset sz n ru s)"
proof -
  have r: "rw_inv sz U (unat (rw_Filled (tn_rw s))) (tn_rw s)" "ru = low24 (of_nat (unat (rw_Filled (tn_rw s))))" "n \<noteq> None"
    using inv pc by (simp_all add: tn_inv_def inv_receive_def)
  have e: "rw_Emptied (tn_rw s) \<le> rw_Filled (tn_rw s)" using rw_inv_lengths(1) [OF r(1)] by (simp add: word_le_nat_alt)
  have "rw_Filled (tn_rw s) - rw_Emptied (tn_rw s) < 0x800000" using small pc by (simp add: caught_up_def)
  then have "unat (rw_Filled (tn_rw s)) < unat (rw_Emptied (tn_rw s)) + 2 ^ 23"
    unfolding word_less_nat_alt unat_sub [OF e] by simp
  moreover have "unat (rw_Filled (tn_rw s)) < 2 ^ 63" using r(1) by (auto simp: rw_inv_def)
  ultimately have a: "ToAbsolute (rw_Emptied (tn_rw s)) ru = rw_Filled (tn_rw s)"
    unfolding r(2) using rw_inv_lengths(1) [OF r(1)] by (intro ToAbsolute_ahead) simp_all
  have "br_Reset (empty_buffer sz) ru (tn_ReceiveWin s) = (tn_ReceiveWin s, None)"
    by (simp add: br_Reset_def ReceiveWindow_Reset_def a Let_def)
  then have "rc_reset sz n ru s = s\<lparr>rc_conn := n, rc_pc := RcNext\<rparr>" by (simp add: rc_reset_def)
  moreover have "tn_inv sz U (s\<lparr>rc_conn := n, rc_pc := RcNext\<rparr>)"
    using inv pc r(3) by (auto simp: tn_inv_def inv_receive_def inv_pushed_def)
  ultimately show ?thesis by simp
qed

lemma rc_ack_ok:
  assumes inv: "tn_inv sz U s" and pc: "rc_pc s = RcAck got" and honest: "server_honest U (BrowserReceive now (RcData r)) s"
  shows "\<exists>s'. rc_ack now got r s = Some s' \<and> tn_inv sz U s'"
proof -
  have p: "\<forall>f. rc_pc s \<noteq> RcPush f" and c: "rc_conn s \<noteq> None" using inv pc by (simp_all add: tn_inv_def inv_receive_def)
  have top: "tn_inv sz U (s\<lparr>rc_pc := RcTop\<rparr>)" using rc_calm_ok [OF inv p] by (simp add: rc_calm_def)
  have more: "tn_inv sz U (s\<lparr>rc_pc := RcAck x\<rparr>)" for x using rc_reads_ok [OF inv p _ c] by (simp add: rc_reads_def)
  note fail = rc_fail_ok [OF inv p]
  show ?thesis
  proof (cases r)
    case (ReadData xs)
    let ?got = "got @ take (4 - length got) xs"
    have "tn_inv sz U (s\<lparr>rc_pc := RcPushAck (BigEndian_Uint32 ?got)\<rparr>)"
      if "\<not> length ?got < 4" "BigEndian_Uint32 ?got AND 0xff000000 = 0"
    proof -
      have "sd_conn s \<noteq> rc_conn s \<longrightarrow> BigEndian_Uint32 ?got = fst (tn_asked s ! the (rc_conn s))"
        using honest ReadData pc that by (simp add: server_honest_def Let_def)
      then show ?thesis using inv pc c low24_whole [OF that(2)]
        by (simp add: tn_inv_def inv_receive_def inv_pushed_def)
    qed
    then show ?thesis using ReadData more fail by (simp add: rc_ack_def Let_def)
  qed (use top fail in \<open>simp_all add: rc_ack_def\<close>)
qed

lemma rw_ToFill_step:
  assumes inv: "rw_inv sz U pos (br_w b0)" and r: "br_ToFill (empty_buffer sz) b0 = (b, free)"
  shows "rw_inv sz U pos (br_w b)" "rw_Filled (br_w b) = rw_Filled (br_w b0)" "rw_Emptied (br_w b) = rw_Emptied (br_w b0)"
    "rw_unread (br_w b) = rw_unread (br_w b0)" "room free (rw_buffer (br_w b))" "0 < free"
proof -
  obtain w where w: "ReceiveWindow_ToFill (empty_buffer sz) (br_w b0) = (w, free)" "br_w b = w"
    using r by (auto simp: br_ToFill_def split: prod.splits)
  have sz: "0 < sz" "pos \<le> length U" using inv rw_inv_lengths [OF inv] by (auto simp: rw_inv_def)
  have k: "0 < free \<and> rw_inv sz U pos w" using ReceiveWindow_fill_ok [OF inv empty_buffer_fresh w(1), of 0] sz(2) by simp
  then show "rw_inv sz U pos (br_w b)" "0 < free" by (simp_all add: w(2))
  show f: "rw_Filled (br_w b) = rw_Filled (br_w b0)" "rw_Emptied (br_w b) = rw_Emptied (br_w b0)"
    using rw_ToFill_fields [OF w(1)] by (simp_all add: w(2))
  show "rw_unread (br_w b) = rw_unread (br_w b0)" using inv k f by (simp add: rw_inv_def w(2))
  show "room free (rw_buffer (br_w b))"
  proof (rule ToFill_room [OF _ empty_buffer_fresh sz(1)])
    show "buffers_ToFill (empty_buffer sz) (rw_buffer (br_w b0)) = (rw_buffer (br_w b), free)"
      using w(1) by (auto simp: w(2) ReceiveWindow_ToFill_def split: prod.splits)
  qed
qed

lemma rc_body_ok:
  assumes inv: "tn_inv sz U s" and pc: "rc_pc s = RcBody"
  shows "tn_inv sz U (rc_body sz s)"
proof -
  obtain b free where t: "br_ToFill (empty_buffer sz) (tn_ReceiveWin s) = (b, free)" by fastforce
  have i: "rw_inv sz U (unat (rw_Filled (tn_rw s))) (tn_rw s)" using inv by (simp add: tn_inv_def inv_receive_def)
  note k = rw_ToFill_step [OF i t]
  have "rc_body sz s = s\<lparr>tn_ReceiveWin := b, rc_pc := RcRead free\<rparr>" using k(6) by (simp add: rc_body_def t)
  moreover have "tn_inv sz U (s\<lparr>tn_ReceiveWin := b, rc_pc := RcRead free\<rparr>)"
    by (rule tn_invI) (use tn_invD [OF inv] pc k in \<open>simp_all add: inv_keeper_def inv_receive_def inv_out_def inv_pushed_def inv_acks_def received_def\<close>)
  ultimately show ?thesis by simp
qed

lemma rw_Fill_plain:
  "rw_reset w = 0 \<Longrightarrow> ReceiveWindow_Fill n (rw_write ys w) = Some (w2, f) \<Longrightarrow> rw_Filled w2 = rw_Filled w + of_nat n \<and> rw_reset w2 = 0"
  by (auto simp: ReceiveWindow_Fill_def rw_write_def Let_def split: if_splits)

lemma rw_fill_step:
  assumes inv: "rw_inv sz U (unat (rw_Filled w)) w" and rm: "room free (rw_buffer w)" and n: "length ys \<le> free"
    and ys: "take (length ys) (drop (unat (rw_Filled w)) U) = ys"
  obtains w2 where "ReceiveWindow_Fill (length ys) (rw_write ys w) = Some (w2, rw_Filled w2)"
    "unat (rw_Filled w2) = unat (rw_Filled w) + length ys" "rw_inv sz U (unat (rw_Filled w2)) w2" "rw_Emptied w2 = rw_Emptied w"
    "\<exists>more. rw_unread w2 = rw_unread w @ more"
proof -
  let ?F = "unat (rw_Filled w)"
  have t: "ReceiveWindow_ToFill (empty_buffer sz) w = (w, free)" by (simp add: ReceiveWindow_ToFill_def room_ToFill [OF rm])
  have l: "length ys \<le> length (drop ?F U)" using ys by (metis length_take min.cobounded1)
  moreover have F: "?F \<le> length U" "length U < 2 ^ 63" using inv by (auto simp: rw_inv_def)
  ultimately have le: "?F + length ys \<le> length U" by simp
  obtain w2 where w2: "ReceiveWindow_Fill (length ys) (rw_write ys w) = Some (w2, of_nat (?F + length ys))"
    "rw_inv sz U (?F + length ys) w2" "rw_Emptied w2 = rw_Emptied w"
    using ReceiveWindow_fill_ok [OF inv empty_buffer_fresh t n le] unfolding ys by blast
  have z: "rw_reset w = 0" using inv by (auto simp: rw_inv_def word_less_nat_alt split: if_splits)
  have "rw_Filled w2 = rw_Filled w + of_nat (length ys)" using rw_Fill_plain [OF z w2(1)] by simp
  then have f: "rw_Filled w2 = of_nat (?F + length ys)" by simp
  moreover have u: "unat (rw_Filled w2) = ?F + length ys"
  proof -
    define q where "q = ?F + length ys"
    then have "q < 2 ^ 63" using le F(2) by simp
    then show ?thesis unfolding f q_def [symmetric] by (simp add: unat_of_nat)
  qed
  moreover have "\<exists>more. rw_unread w2 = rw_unread w @ more"
  proof -
    have e: "unat (rw_Emptied w) \<le> ?F" by (rule rw_inv_lengths(1) [OF inv])
    have "rw_unread w2 = take (?F + length ys - unat (rw_Emptied w)) (drop (unat (rw_Emptied w)) U)"
      using w2(2,3) u by (simp add: rw_inv_def)
    also have "\<dots> = take (?F - unat (rw_Emptied w)) (drop (unat (rw_Emptied w)) U) @ take (length ys) (drop ?F U)"
      by (rule take_more [OF e, symmetric])
    also have "take (?F - unat (rw_Emptied w)) (drop (unat (rw_Emptied w)) U) = rw_unread w" using inv by (simp add: rw_inv_def)
    finally show ?thesis by blast
  qed
  ultimately show ?thesis using that [of w2] w2 by simp
qed

lemma br_Fill_run: "ReceiveWindow_Fill n (rw_write ys (br_w b)) = Some (w, f) \<Longrightarrow>
    br_Fill n (b\<lparr>br_w := rw_write ys (br_w b)\<rparr>) = Some (b\<lparr>br_w := w, br_ce := Waiter_Signal (br_ce b)\<rparr>, f)"
  by (simp add: br_Fill_def)

lemma rc_filled_ok:
  assumes inv: "tn_inv sz U s" and pc: "rc_pc s = RcRead free" and c: "rc_conn s = Some c" "tn_wc s = Some c" and b: "br_w b = w"
    and w: "unat (rw_Filled w) = unat (rw_Filled (tn_rw s)) + n" "rw_inv sz U (unat (rw_Filled w)) w"
      "rw_Emptied w = rw_Emptied (tn_rw s)" "\<exists>more. rw_unread w = rw_unread (tn_rw s) @ more"
  shows "tn_inv sz U (s\<lparr>tn_ReceiveWin := b, rc_pc := RcPush (low24 (of_nat (unat (rw_Filled w)))),
    tn_server := (tn_server s)[c := tn_server s ! c + n]\<rparr>)"
    (is "tn_inv sz U ?s")
proof (rule tn_invI)
  note i = tn_invD [OF inv]
  have srv: "tn_server s ! c = unat (rw_Filled (tn_rw s))" "c < length (tn_server s)"
    using i(1,2) c by (auto simp: inv_receive_def inv_keeper_def)
  show "inv_keeper ?s" using i(1) by (simp add: inv_keeper_def)
  show "inv_receive sz U ?s" using c srv w(1,2) b by (simp add: inv_receive_def)
  show "inv_out U ?s" using i(3) w(3,4) b by (auto simp: inv_out_def split: rv_pc.splits)
  show "inv_send sz ?s" "inv_chain ?s" using i(4,5) by simp_all
  show "inv_pushed ?s" by (simp add: inv_pushed_def)
  have "received s x \<Longrightarrow> received ?s x" for x by (auto simp: received_def b w(1) intro: trans_le_add1)
  then show "inv_acks ?s" using i(6) by (auto simp: inv_acks_def split: sd_pc.splits)
qed

lemma rc_read_ok:
  assumes inv: "tn_inv sz U s" and pc: "rc_pc s = RcRead free" and honest: "server_honest U (BrowserReceive now (RcData r)) s"
    and later: "\<And>s'. rc_read now free r s = Some s' \<Longrightarrow> timely s'"
  shows "\<exists>s'. rc_read now free r s = Some s' \<and> tn_inv sz U s'"
proof -
  have p: "\<forall>f. rc_pc s \<noteq> RcPush f" using pc by simp
  have top: "tn_inv sz U (s\<lparr>rc_pc := RcTop\<rparr>)" using rc_calm_ok [OF inv p] by (simp add: rc_calm_def)
  note fail = rc_fail_ok [OF inv p]
  show ?thesis
  proof (cases r)
    case (ReadData xs)
    define ys where "ys = take free xs"
    note i = tn_invD [OF inv]
    let ?F = "unat (rw_Filled (tn_rw s))"
    have rw: "rw_inv sz U ?F (tn_rw s)" "room free (rw_buffer (tn_rw s))" using i(2) pc by (simp_all add: inv_receive_def)
    obtain c where c: "rc_conn s = Some c" using i(2) pc by (auto simp: inv_receive_def)
    have y: "take (length ys) (drop (tn_server s ! c) U) = ys"
      using honest ReadData pc c by (simp add: server_honest_def Let_def ys_def)
    let ?b = "tn_ReceiveWin s"
    let ?t = "\<lambda>b f. s\<lparr>tn_ReceiveWin := b, rc_pc := RcPush (low24 (ucast f)), tn_server := (tn_server s)[c := tn_server s ! c + length ys]\<rparr>"
    have run: "rc_read now free r s = map_option (\<lambda>(b, f). ?t b f) (br_Fill (length ys) (?b\<lparr>br_w := rw_write ys (br_w ?b)\<rparr>))"
      by (simp add: rc_read_def ReadData c ys_def Let_def)
    have room_left: "length ys \<le> bcap (last_of (rw_buffer (tn_rw s))) - blen (last_of (rw_buffer (tn_rw s)))"
      using rw(2) by (simp add: room_def ys_def)
    have "ReceiveWindow_Fill (length ys) (rw_write ys (tn_rw s)) \<noteq> None"
    proof -
      have "rw_reset (tn_rw s) = 0" using rw(1) by (auto simp: rw_inv_def word_less_nat_alt split: if_splits)
      moreover have "rw_buffer (tn_rw s) \<noteq> []" by (rule room_not_Nil [OF rw(2)])
      moreover have "blen (last_of (rw_buffer (tn_rw s))) \<le> length (barray (last (rw_buffer (tn_rw s))))"
        using rw(2) calculation(2) by (simp add: room_def last_of_def bcap_def)
      ultimately show ?thesis using room_left
        by (auto simp: ReceiveWindow_Fill_def rw_write_def Let_def last_of_def on_last_def bcap_def write_free_def bdata_def)
    qed
    then obtain w2 f where w2: "ReceiveWindow_Fill (length ys) (rw_write ys (tn_rw s)) = Some (w2, f)" by fast
    have step: "rc_read now free r s = Some (?t (?b\<lparr>br_w := w2, br_ce := Waiter_Signal (br_ce ?b)\<rparr>) f)"
      unfolding run br_Fill_run [OF w2] by (simp only: option.map prod.case)
    have wc: "tn_wc s = Some c" using later [OF step] c by (simp add: timely_def)
    then have srv: "tn_server s ! c = ?F" "c < length (tn_server s)" using i(1,2) by (auto simp: inv_receive_def inv_keeper_def)
    obtain w3 where w3: "ReceiveWindow_Fill (length ys) (rw_write ys (tn_rw s)) = Some (w3, rw_Filled w3)"
      "unat (rw_Filled w3) = ?F + length ys" "rw_inv sz U (unat (rw_Filled w3)) w3" "rw_Emptied w3 = rw_Emptied (tn_rw s)"
      "\<exists>more. rw_unread w3 = rw_unread (tn_rw s) @ more"
      by (rule rw_fill_step [OF rw, of ys]) (use y srv in \<open>simp_all add: ys_def\<close>)
    have "rc_read now free r s = Some (?t (?b\<lparr>br_w := w3, br_ce := Waiter_Signal (br_ce ?b)\<rparr>) (rw_Filled w3))"
      unfolding run br_Fill_run [OF w3(1)] by (simp only: option.map prod.case)
    moreover have "br_w (?b\<lparr>br_w := w3, br_ce := Waiter_Signal (br_ce ?b)\<rparr>) = w3" by simp
    from rc_filled_ok [OF inv pc c wc this w3(2-5), folded low24_of_nat]
    have "tn_inv sz U (?t (?b\<lparr>br_w := w3, br_ce := Waiter_Signal (br_ce ?b)\<rparr>) (rw_Filled w3))" .
    ultimately show ?thesis by (intro exI conjI)
  qed (use top fail in \<open>simp_all add: rc_read_def\<close>)
qed

lemma inv_chain_read: "inv_chain (on_gb (PushReadUntil f) s) = inv_chain s"
  by (simp add: inv_chain_def sd_at_def on_gb_def PushReadUntil_def untouched_def sd_uses_def)

lemma rc_push_ok:
  assumes inv: "tn_inv sz U s" and pc: "rc_pc s = RcPush f"  and tm: "timely s"
  shows "tn_inv sz U (on_gb (PushReadUntil f) s\<lparr>rc_pc := RcBody\<rparr>)"
proof (rule tn_invI)
  note i = tn_invD [OF inv]
  let ?s = "on_gb (PushReadUntil f) s\<lparr>rc_pc := RcBody\<rparr>"
  obtain c where c: "rc_conn s = Some c" "tn_wc s = Some c" using i(2) pc tm by (auto simp: inv_receive_def timely_def)
  have f: "f = low24 (of_nat (unat (rw_Filled (tn_rw s))))" using i(2) pc by (simp add: inv_receive_def)
  show "inv_keeper ?s" using i(1) c by (auto simp: inv_keeper_def on_gb_def PushReadUntil_def split: kc_pc.splits)
  show "inv_receive sz U ?s" using i(2) c pc by (simp add: inv_receive_def on_gb_def PushReadUntil_def)
  show "inv_out U ?s" "inv_send sz ?s" "inv_pushed ?s" using i(3,4) by (simp_all add: on_gb_def inv_pushed_def)
  show "inv_chain ?s" using i(5) by (simp add: inv_chain_read)
  have "received s f" using f by (auto simp: received_def)
  then show "inv_acks ?s" using i(6) by (simp add: inv_acks_def on_gb_def PushReadUntil_def received_def)
qed

lemma rc_pushed_ok:
  assumes inv: "tn_inv sz U s" and pc: "rc_pc s = RcPushAck a" and tm: "timely s"
  shows "tn_inv sz U (on_gb (PushWrittenUntil a) s\<lparr>rc_pc := RcBody\<rparr>)"
proof (rule tn_invI)
  note i = tn_invD [OF inv]
  let ?s = "on_gb (PushWrittenUntil a) s\<lparr>rc_pc := RcBody\<rparr>"
  obtain c where c: "rc_conn s = Some c" "tn_wc s = Some c" using i(2) pc tm by (auto simp: inv_receive_def timely_def)
  have a: "low24 a = a" "sd_conn s \<noteq> Some c \<Longrightarrow> a = fst (tn_asked s ! c)" using i(7) pc c by (auto simp: inv_pushed_def)
  show "inv_keeper ?s" using i(1) c a by (auto simp: inv_keeper_def on_gb_def PushWrittenUntil_def split: kc_pc.splits)
  show "inv_receive sz U ?s" using i(2) c pc by (simp add: inv_receive_def on_gb_def PushWrittenUntil_def)
  show "inv_out U ?s" "inv_send sz ?s" "inv_pushed ?s" using i(3,4) by (simp_all add: on_gb_def inv_pushed_def)
  show "inv_chain ?s" using i(5) c a(2) by (auto simp: inv_chain_def sd_at_def on_gb_def PushWrittenUntil_def untouched_def sd_uses_def)
  show "inv_acks ?s" using i(6) by (simp add: inv_acks_def on_gb_def PushWrittenUntil_def received_def)
qed

lemma rc_step_ok:
  assumes inv: "tn_inv sz U s" and tm: "timely s" and honest: "server_honest U (BrowserReceive now ev) s"
    and small: "caught_up (BrowserReceive now ev) s" and later: "\<And>s'. rc_step sz now ev s = Some s' \<Longrightarrow> timely s'"
  shows "\<exists>s'. rc_step sz now ev s = Some s' \<and> tn_inv sz U s'"
proof (cases "rc_pc s")
  case RcTop
  then show ?thesis using rc_waited_ok [OF inv] by (simp add: rc_step_def)
next
  case RcAsleep
  then show ?thesis using rc_asleep_ok [OF inv] by (simp add: rc_step_def)
next
  case RcGet
  then show ?thesis using rc_get_ok [OF inv] by (simp add: rc_step_def)
next
  case (RcReset n ru)
  then show ?thesis using rc_reset_ok [OF inv RcReset small] by (simp add: rc_step_def)
next
  case RcNext
  then have "rc_conn s \<noteq> None" using inv by (simp add: tn_inv_def inv_receive_def)
  then have "tn_inv sz U (s\<lparr>rc_pc := RcAck []\<rparr>)" using rc_reads_ok [OF inv, of "RcAck []"] RcNext by (simp add: rc_reads_def)
  moreover have "\<exists>s'. rc_fail now e s = Some s' \<and> tn_inv sz U s'" for e using rc_fail_ok [OF inv] RcNext by simp
  ultimately show ?thesis using RcNext inv by (cases ev) (auto simp: rc_step_def split: option.splits)
next
  case (RcAck got)
  show ?thesis
  proof (cases ev)
    case (RcData r)
    then show ?thesis using rc_ack_ok [OF inv RcAck honest [unfolded RcData]] RcAck by (simp add: rc_step_def)
  qed (use RcAck inv in \<open>simp_all add: rc_step_def\<close>)
next
  case (RcPushAck a)
  then show ?thesis using rc_pushed_ok [OF inv RcPushAck tm] by (simp add: rc_step_def)
next
  case RcBody
  then show ?thesis using rc_body_ok [OF inv RcBody] by (simp add: rc_step_def)
next
  case (RcRead free)
  show ?thesis
  proof (cases ev)
    case (RcData r)
    have "rc_step sz now ev s = rc_read now free r s" using RcRead RcData by (simp add: rc_step_def)
    then show ?thesis using rc_read_ok [OF inv RcRead honest [unfolded RcData]] later by simp
  qed (use RcRead inv in \<open>simp_all add: rc_step_def\<close>)
next
  case (RcPush f)
  then show ?thesis using rc_push_ok [OF inv RcPush tm] by (simp add: rc_step_def)
next
  case (RcClose e r)
  obtain b where b: "tn_Close e s = Some (s\<lparr>tn_browser := b\<rparr>)" "tn_inv sz U (s\<lparr>tn_browser := b\<rparr>)" using tn_Close_ok [OF inv] by blast
  then show ?thesis using RcClose rc_calm_ok [OF b(2)] by (cases r) (simp_all add: rc_step_def rc_calm_def)
next
  case (RcDone e)
  then show ?thesis using inv by (simp add: rc_step_def)
qed

section \<open>Send and Receive\<close>

lemma sn_pc_ok: "tn_inv sz U s \<Longrightarrow> \<forall>free. pc \<noteq> SnRead free \<Longrightarrow> tn_inv sz U (s\<lparr>sn_pc := pc\<rparr>)"
  by (cases pc) (simp_all add: tn_inv_def inv_send_def)

lemma sn_same_window: "bs_w b = tn_sw s \<Longrightarrow> tn_inv sz U (s\<lparr>tn_SendWin := b\<rparr>) = tn_inv sz U s"
  by (simp add: tn_inv_def inv_send_def inv_chain_window)

lemma sn_waited_ok: "tn_inv sz U s \<Longrightarrow> tn_inv sz U (sn_waited r s)"
  by (auto simp: sn_waited_def sn_pc_ok split: wait_outcome.splits option.splits)

lemma sn_fill_ok:
  assumes inv: "tn_inv sz U s" and t: "bs_ToFill (empty_buffer sz) (tn_SendWin s) = (b, free)"
  shows "tn_inv sz U (s\<lparr>tn_SendWin := b, sn_pc := SnRead free\<rparr>)"
proof -
  note i = tn_invD [OF inv]
  obtain w where w: "SendWindow_ToFill (empty_buffer sz) (tn_sw s) = (w, free)" "bs_w b = w"
    using t by (auto simp: bs_ToFill_def split: prod.splits)
  have h: "sw_inv sz (tn_in s) (tn_sw s)" using i(4) by (simp add: inv_send_def sw_history_ok_def)
  then have "length (tn_in s) < 2 ^ 63" "0 < sz" by (simp_all add: sw_inv_def sw_shape_def)
  then have k: "sw_inv sz (tn_in s) w" and sz: "0 < sz"
    using SendWindow_fill_ok [OF h empty_buffer_fresh w(1), of "[]"] by simp_all
  have e: "sw_Emptied w = sw_Emptied (tn_sw s)" "buffers_ToFill (empty_buffer sz) (sw_buffer (tn_sw s)) = (sw_buffer w, free)"
    using w(1) by (auto simp: SendWindow_ToFill_def split: prod.splits)
  have "room free (sw_buffer w)" by (rule ToFill_room [OF e(2) empty_buffer_fresh sz])
  then have "inv_send sz (s\<lparr>tn_SendWin := b, sn_pc := SnRead free\<rparr>)"
    using i(4) k e(1) by (simp add: inv_send_def sw_history_ok_def w(2))
  then show ?thesis using i e(1) by (simp add: tn_inv_def inv_chain_window w(2))
qed

lemma sn_read_ok:
  assumes inv: "tn_inv sz U s" and pc: "sn_pc s = SnRead free" and small: "length (tn_in s) + length xs < 2 ^ 63"
  shows "\<exists>s'. sn_read free xs err s = Some s' \<and> tn_inv sz U s' \<and> length (tn_in s') \<le> length (tn_in s) + length xs"
proof (cases err)
  case (Some e)
  then show ?thesis using sn_pc_ok [OF inv] by (simp add: sn_read_def)
next
  case None
  define ys where "ys = take free xs"
  note i = tn_invD [OF inv]
  have h: "sw_history_ok sz (tn_in s, tn_sw s, frame_log s)" and rm: "room free (sw_buffer (tn_sw s))"
    using i(4) pc by (simp_all add: inv_send_def)
  have v: "sw_inv sz (tn_in s) (tn_sw s)" using h by (simp add: sw_history_ok_def)
  have t: "SendWindow_ToFill (empty_buffer sz) (tn_sw s) = (tn_sw s, free)" by (simp add: SendWindow_ToFill_def room_ToFill [OF rm])
  have "length ys \<le> free" "length (tn_in s) + length ys < 2 ^ 63" using small by (simp_all add: ys_def)
  then obtain w2 where w2: "SendWindow_Fill (length ys) (sw_write ys (tn_sw s)) = Some (w2, sw_Filled w2)" "sw_inv sz (tn_in s @ ys) w2"
    using SendWindow_fill_ok [OF v empty_buffer_fresh t, of ys] by blast
  have e: "sw_Emptied w2 = sw_Emptied (tn_sw s)" using w2(1) by (auto simp: SendWindow_Fill_def sw_write_def Let_def split: if_splits)
  have el: "unat (sw_Emptied (tn_sw s)) \<le> length (tn_in s)" using v by (auto simp: sw_inv_def word_le_nat_alt)
  let ?b = "(tn_SendWin s)\<lparr>bs_w := w2, bs_ce := Waiter_Signal (bs_ce (tn_SendWin s))\<rparr>"
  let ?s = "s\<lparr>tn_SendWin := ?b, sn_pc := SnTop, tn_in := tn_in s @ ys\<rparr>"
  have run: "sn_read free xs err s = Some ?s" by (simp add: sn_read_def None bs_Fill_def ys_def [symmetric] w2(1) Let_def)
  have "sw_history_ok sz (tn_in s @ ys, w2, frame_log s)"
    using h w2(2) log_append [of "frame_log s" "tn_in s" ys] by (simp add: sw_history_ok_def)
  then have "inv_send sz ?s" using i(4) e el by (auto simp: inv_send_def split: sd_pc.splits)
  then have "tn_inv sz U ?s" using i e by (simp add: tn_inv_def inv_chain_window)
  then show ?thesis using run by (simp add: ys_def)
qed

lemma sn_step_ok:
  assumes inv: "tn_inv sz U s" and small: "\<And>xs err. ev = SnFile xs err \<Longrightarrow> length (tn_in s) + length xs < 2 ^ 63"
  shows "\<exists>s'. sn_step sz ev s = Some s' \<and> tn_inv sz U s' \<and>
    length (tn_in s') \<le> length (tn_in s) + (case ev of SnFile xs err \<Rightarrow> length xs | _ \<Rightarrow> 0)"
proof (cases "sn_pc s")
  case SnTop
  then show ?thesis using sn_waited_ok [OF inv] by (simp add: sn_step_def sn_waited_def split: wait_outcome.splits option.splits)
next
  case SnAsleep
  let ?b = "(tn_SendWin s)\<lparr>bs_cf := (bs_cf (tn_SendWin s))\<lparr>wt_c := False\<rparr>\<rparr>"
  have "tn_inv sz U (s\<lparr>tn_SendWin := ?b\<rparr>)" using inv by (simp add: sn_same_window)
  note k = sn_waited_ok [OF this]
  show ?thesis using SnAsleep k inv
    by (simp add: sn_step_def sn_waited_def bs_WaitToFill_wake_def Let_def split: wait_outcome.splits option.splits)
next
  case SnFill
  obtain b free where t: "bs_ToFill (empty_buffer sz) (tn_SendWin s) = (b, free)" by fastforce
  show ?thesis using SnFill sn_fill_ok [OF inv t] by (simp add: sn_step_def t)
next
  case (SnRead free)
  then show ?thesis using sn_read_ok [OF inv SnRead] small inv by (cases ev) (simp_all add: sn_step_def)
next
  case (SnDone e)
  then show ?thesis using inv by (simp add: sn_step_def)
qed

text \<open>Steps that take from the receive window.\<close>

definition rv_plain :: "rv_pc \<Rightarrow> bool" where
  "rv_plain pc \<longleftrightarrow> (case pc of RvWrite b \<Rightarrow> False | _ \<Rightarrow> True)"

lemma rv_pc_ok: "tn_inv sz U s \<Longrightarrow> \<forall>e. rv_pc s \<noteq> RvDone e \<Longrightarrow> rv_plain pc \<Longrightarrow> tn_inv sz U (s\<lparr>rv_pc := pc\<rparr>)"
  by (cases "rv_pc s"; cases pc) (auto simp: tn_inv_def inv_out_def rv_plain_def)

lemma rv_waited_ok: "tn_inv sz U s \<Longrightarrow> \<forall>e. rv_pc s \<noteq> RvDone e \<Longrightarrow> tn_inv sz U (rv_waited r s)"
  by (auto simp: rv_waited_def rv_plain_def rv_pc_ok split: wait_outcome.splits option.splits)

lemma rv_take_ok:
  assumes inv: "tn_inv sz U s" and pc: "rv_pc s \<in> {RvTop, RvAsleep, RvNext}" and t: "br_ToEmpty (tn_ReceiveWin s) = (b0, buffer)"
    and b: "br_w b = br_w b0"
  shows "tn_inv sz U (s\<lparr>tn_ReceiveWin := b\<rparr>)" "\<exists>rest. rw_unread (br_w b) = buffer @ rest"
proof -
  note i = tn_invD [OF inv]
  have w: "ReceiveWindow_ToEmpty (tn_rw s) = (br_w b, buffer)" using t b by (auto simp: br_ToEmpty_def split: prod.splits)
  have h: "rw_inv sz U (unat (rw_Filled (tn_rw s))) (tn_rw s)" using i(2) by (simp add: inv_receive_def)
  note k = ReceiveWindow_ToEmpty_ok [OF h w]
  then show "\<exists>rest. rw_unread (br_w b) = buffer @ rest" by simp
  have "room free (rw_buffer (tn_rw s)) \<Longrightarrow> room free (rw_buffer (br_w b))" for free
    using room_same_last [OF rw_ToEmpty_last] room_not_Nil w by (metis fst_conv)
  then have "inv_receive sz U (s\<lparr>tn_ReceiveWin := b\<rparr>)" using i(2) k by (simp add: inv_receive_def split: rc_pc.splits)
  moreover have "inv_out U (s\<lparr>tn_ReceiveWin := b\<rparr>)" using i(3) k pc by (auto simp: inv_out_def)
  moreover have "inv_acks (s\<lparr>tn_ReceiveWin := b\<rparr>)" using i(6) k by (simp add: inv_acks_def received_def)
  ultimately show "tn_inv sz U (s\<lparr>tn_ReceiveWin := b\<rparr>)" using i by (simp add: tn_inv_def)
qed

lemma rv_wait_ok:
  assumes inv: "tn_inv sz U s" and pc: "rv_pc s \<in> {RvTop, RvAsleep}"
  shows "tn_inv sz U (let (b, r) = br_WaitToEmpty (tn_ReceiveWin s) in rv_waited r (s\<lparr>tn_ReceiveWin := b\<rparr>))"
proof -
  obtain b r where w: "br_WaitToEmpty (tn_ReceiveWin s) = (b, r)" by fastforce
  obtain b0 d where e: "br_ToEmpty (tn_ReceiveWin s) = (b0, d)" by fastforce
  have "br_w b = br_w b0" using w e by (auto simp: br_WaitToEmpty_def br_ToEmpty_def split: prod.splits)
  then have "tn_inv sz U (s\<lparr>tn_ReceiveWin := b\<rparr>)" using pc by (intro rv_take_ok(1) [OF inv _ e]) auto
  then show ?thesis using w pc by (auto simp: intro: rv_waited_ok)
qed

lemma rv_write_ok:
  assumes inv: "tn_inv sz U s" and pc: "rv_pc s = RvWrite buffer"
  shows "tn_inv sz U (rv_write buffer n err s)"
proof -
  note i = tn_invD [OF inv]
  let ?chunk = "take n buffer" and ?E = "unat (rw_Emptied (tn_rw s))"
  have h: "rw_inv sz U (unat (rw_Filled (tn_rw s))) (tn_rw s)" using i(2) by (simp add: inv_receive_def)
  obtain rest where rest: "rw_unread (tn_rw s) = buffer @ rest" and out: "tn_out s = take ?E U"
    using i(3) pc by (auto simp: inv_out_def)
  have le: "length ?chunk \<le> length (rw_unread (tn_rw s))" by (simp add: rest)
  note k = ReceiveWindow_Empty_ok [OF h le]
  have "take (length ?chunk) (rw_unread (tn_rw s)) = ?chunk" by (simp add: rest min_def)
  then have "take (length ?chunk) (drop ?E U) = ?chunk" using le h by (simp add: rw_inv_def min_def split: if_splits)
  then have out': "tn_out s @ ?chunk = take (?E + length ?chunk) U" unfolding out take_add by simp
  let ?w = "ReceiveWindow_Empty (length ?chunk) (tn_rw s)"
  have f: "rw_Filled ?w = rw_Filled (tn_rw s)" by (simp add: ReceiveWindow_Empty_def)
  have rm: "room free (rw_buffer (tn_rw s)) \<Longrightarrow> room free (rw_buffer ?w)" for free
    using room_same_last [OF rw_Empty_last] room_not_Nil by (simp add: ReceiveWindow_Empty_def)
  let ?s = "s\<lparr>tn_out := tn_out s @ ?chunk, tn_ReceiveWin := br_Empty (length ?chunk) (tn_ReceiveWin s), rv_pc := RvFlush\<rparr>"
  have "tn_inv sz U ?s"
  proof (rule tn_invI)
    show "inv_receive sz U ?s" using i(2) k f rm by (simp add: inv_receive_def br_Empty_def split: rc_pc.splits)
    show "inv_out U ?s" using out' k by (simp add: inv_out_def br_Empty_def)
    show "inv_acks ?s" using i(6) f by (simp add: inv_acks_def received_def br_Empty_def)
  qed (use i in simp_all)
  moreover have "tn_inv sz U (s\<lparr>tn_out := tn_out s @ ?chunk, rv_pc := RvDone e\<rparr>)" for e
    using i out' by (auto simp: tn_inv_def inv_out_def)
  ultimately show ?thesis by (cases err) (simp_all add: rv_write_def)
qed

lemma rv_step_ok:
  assumes inv: "tn_inv sz U s"
  shows "tn_inv sz U (rv_step ev s)"
proof (cases "rv_pc s")
  case RvTop
  then show ?thesis using rv_wait_ok [OF inv] by (simp add: rv_step_def)
next
  case RvAsleep
  let ?b = "(tn_ReceiveWin s)\<lparr>br_ce := (br_ce (tn_ReceiveWin s))\<lparr>wt_c := False\<rparr>\<rparr>"
  have j: "tn_inv sz U (s\<lparr>tn_ReceiveWin := ?b\<rparr>)" using inv by (simp add: tn_same_window)
  then have "tn_inv sz U (rv_waited r (s\<lparr>tn_ReceiveWin := ?b\<rparr>))" for r using RvAsleep by (intro rv_waited_ok) simp_all
  then show ?thesis using RvAsleep inv rv_wait_ok [OF j]
    by (simp add: rv_step_def br_WaitToEmpty_wake_def Let_def split: prod.splits)
next
  case RvNext
  obtain b buffer where t: "br_ToEmpty (tn_ReceiveWin s) = (b, buffer)" by fastforce
  note k = rv_take_ok [OF inv _ t refl]
  have "tn_inv sz U (s\<lparr>tn_ReceiveWin := b, rv_pc := RvTop\<rparr>)" using rv_pc_ok [OF k(1), of RvTop] RvNext by (simp add: rv_plain_def)
  moreover have "tn_inv sz U (s\<lparr>tn_ReceiveWin := b, rv_pc := RvWrite buffer\<rparr>)"
    using k RvNext by (auto simp: tn_inv_def inv_out_def)
  ultimately show ?thesis using RvNext by (simp add: rv_step_def t)
next
  case (RvWrite buffer)
  then show ?thesis using rv_write_ok [OF inv RvWrite] rv_pc_ok [OF inv] inv
    by (cases ev) (simp_all add: rv_step_def rv_plain_def)
next
  case RvFlush
  then show ?thesis using rv_pc_ok [OF inv] inv by (cases ev) (auto simp: rv_step_def rv_plain_def split: option.splits)
next
  case (RvDone e)
  then show ?thesis using inv by (simp add: rv_step_def)
qed

section \<open>KeepConnected and Close\<close>

lemma kc_pc_ok: "tn_inv sz U s \<Longrightarrow> tn_wc s = None \<Longrightarrow> (case pc of KcWait ch \<Rightarrow> False | KcDial p a \<Rightarrow> False | _ \<Rightarrow> True) \<Longrightarrow>
    tn_inv sz U (s\<lparr>kc_pc := pc\<rparr>)"
  by (cases pc) (simp_all add: tn_inv_def inv_keeper_def)

lemma kc_wait_ok:
  assumes inv: "tn_inv sz U s" and pc: "kc_pc s = KcWait ch"
  shows "tn_inv sz U (kc_wait ch s)"
proof (cases "waiter_Wait ch (snd (tn_browser s))")
  case None
  then show ?thesis using inv by (simp add: kc_wait_def)
next
  case (Some r)
  obtain n w where r: "r = (n, w)" by (cases r)
  have k: "inv_keeper s" by (rule tn_invD(1) [OF inv])
  obtain i where i: "ch = Some i" "rb_notifier (tn_gb s) \<in> {None, Some i}" using k pc by (auto simp: inv_keeper_def)
  have l: "live (tn_gb s, snd (tn_browser s))" using k by (simp add: inv_keeper_def)
  have w: "waiter_Wait (Some i) (snd (tn_browser s)) = Some (n, w)" using Some r i(1) by simp
  note v = live_Wait [OF l w]
  have none: "tn_wc s = None" using i(2) v(2) live_wc [OF l] by simp
  have "tn_inv sz U (s\<lparr>tn_browser := (tn_gb s, w)\<rparr>)" by (rule drop_ok [OF inv]) (use v none in \<open>simp_all add: same_positions_def\<close>)
  then have "tn_inv sz U (s\<lparr>tn_browser := (tn_gb s, w), kc_pc := q\<rparr>)" if "\<exists>x. q = KcDone x \<or> (\<exists>e. q = KcFailed e)" for q
    using that none by (intro kc_pc_ok) auto
  then show ?thesis using Some r by (simp add: kc_wait_def)
qed

lemma chain_grow:
  assumes i: "inv_chain s" and b: "rb_wc (fst b) = Some (length (tn_asked s))" and p: "rb_writtenUntil (fst b) = pos" and k: "low24 pos = pos"
  shows "inv_chain (s\<lparr>tn_browser := b, kc_pc := q, tn_asked := tn_asked s @ [(pos, ack)], tn_server := srv\<rparr>)"
    (is "inv_chain ?s")
proof -
  let ?c = "length (tn_asked s)"
  have fresh: "log_of ?c (tn_frames s) = []" using i by (auto simp: inv_chain_def sd_at_def log_of_def filter_empty_conv)
  have start: "starts_at pos [] (unat pos)" using k by (simp add: starts_at_def)
  have old: "fst ((tn_asked s @ [(pos, ack)]) ! c) = fst (tn_asked s ! c)" if "c < ?c" for c using that by (simp add: nth_append)
  have sd: "c < ?c" if "sd_conn s = Some c" for c using i that by (simp add: inv_chain_def sd_at_def)
  have u: "sd_uses s" if "sd_uses ?s" "sd_conn s = Some c" for c
    using that b sd [OF that(2)] by (auto simp: sd_uses_def split: sd_pc.splits)
  have a1: "\<forall>f \<in> set (tn_frames s). \<exists>c < Suc ?c. fr_conn f = Some c" using i by (auto simp: inv_chain_def sd_at_def intro: less_SucI)
  have a2: "\<exists>p. starts_at (fst ((tn_asked s @ [(pos, ack)]) ! c)) (log_of c (tn_frames s)) p" if "c < Suc ?c" for c
    using that i fresh start old by (cases "c = ?c") (auto simp: inv_chain_def sd_at_def)
  have a3: "\<exists>p. starts_at (fst ((tn_asked s @ [(pos, ack)]) ! c)) (log_of c (tn_frames s)) p \<and>
      sent_until p (log_of c (tn_frames s)) = unat (sw_Emptied (tn_sw s))" if "sd_conn s = Some c" "sd_uses ?s" for c
    using i that u [OF that(2,1)] old [OF sd [OF that(1)]] by (simp add: inv_chain_def sd_at_def)
  show "inv_chain ?s"
    unfolding inv_chain_def
  proof (intro conjI)
    show "\<forall>c. rb_wc (tn_gb ?s) = Some c \<and> sd_conn ?s \<noteq> Some c \<longrightarrow> untouched ?s c (rb_writtenUntil (tn_gb ?s))"
      using b p fresh by (simp add: untouched_def)
    show "sd_at ?s"
    proof (cases "sd_pc s")
      case (SdSync n wu ru)
      then obtain c where c: "n = Some c" "c < ?c" "low24 wu = wu" "n \<noteq> sd_conn s \<Longrightarrow> untouched s c wu"
        using i by (auto simp: inv_chain_def sd_at_def)
      then show ?thesis using SdSync b sd by (auto simp: sd_at_def untouched_def old intro: less_SucI)
    qed (use i in \<open>simp_all add: inv_chain_def sd_at_def\<close>)
  qed (use a1 a2 a3 sd in \<open>auto intro: less_SucI\<close>)
qed

lemma kc_dialed_ok:
  assumes inv: "tn_inv sz U s" and pc: "kc_pc s = KcDial pos ack" and honest: "server_honest U (KeepConnected now (KcDialed (Inr q))) s"
    and tm: "timely s"
  shows "\<exists>s'. kc_dialed now pos ack q s = Some s' \<and> tn_inv sz U s'"
proof -
  note i = tn_invD [OF inv]
  let ?c = "length (tn_asked s)" and ?F = "unat (rw_Filled (tn_rw s))"
  have k: "live (tn_browser s)" "tn_wc s = None" "pos = rb_writtenUntil (tn_gb s)" "ack = rb_readUntil (tn_gb s)"
    "low24 pos = pos" "length (tn_server s) = ?c" using i(1) pc by (simp_all add: inv_keeper_def)
  obtain b ch where b: "ReplaceableBrowser_Set now (Some ?c) ack pos (tn_browser s) = Some (b, Some ch)" "live b"
    "same_positions (tn_browser s) b" "rb_wc (fst b) = Some ?c" "rb_notifier (fst b) = Some ch" by (rule live_Set [OF k(1,2)])
  note p = b(3) [unfolded same_positions_def]
  have "\<forall>f. rc_pc s \<noteq> RcPush f" using tm k(2) i(2) by (auto simp: timely_def inv_receive_def)
  then have "rb_readUntil (tn_gb s) = low24 (of_nat ?F)" using i(2) by (auto simp: inv_receive_def split: rc_pc.splits)
  then have q: "q = ?F" using honest pc k(4) by (intro low24_near_int) (auto simp: server_honest_def Let_def)
  let ?s = "s\<lparr>tn_browser := b, kc_pc := KcWait (Some ch), tn_asked := tn_asked s @ [(pos, ack)], tn_server := tn_server s @ [q]\<rparr>"
  have "tn_inv sz U ?s"
  proof (rule tn_invI)
    show "inv_keeper ?s" using b p k by (simp add: inv_keeper_def)
    show "inv_receive sz U ?s" using i(2) b(4) p q k by (simp add: inv_receive_def nth_append)
    show "inv_out U ?s" "inv_send sz ?s" using i(3,4) by simp_all
    show "inv_pushed ?s" using i(2,7) tm k(2) by (auto simp: inv_pushed_def inv_receive_def timely_def split: rc_pc.splits)
    show "inv_acks ?s" using i(6) p by (simp add: inv_acks_def received_def)
    show "inv_chain ?s" using chain_grow [OF i(5) b(4) _ k(5)] p k(3) by simp
  qed
  then show ?thesis using b(1) by (simp add: kc_dialed_def)
qed

lemma kc_step_ok:
  assumes inv: "tn_inv sz U s" and honest: "server_honest U (KeepConnected now ev) s" and tm: "timely s"
  shows "\<exists>s'. kc_step now ev s = Some s' \<and> tn_inv sz U s'"
proof (cases "kc_pc s")
  case KcSid
  then have "tn_wc s = None" using tn_invD(1) [OF inv] by (simp add: inv_keeper_def)
  then show ?thesis using KcSid inv kc_pc_ok [OF inv] by (cases ev) (auto simp: kc_step_def split: option.splits)
next
  case KcGet
  have "tn_inv sz U (s\<lparr>kc_pc := KcDial (rb_writtenUntil (tn_gb s)) (rb_readUntil (tn_gb s))\<rparr>)"
    using inv KcGet by (simp add: tn_inv_def inv_keeper_def)
  then show ?thesis using KcGet by (simp add: kc_step_def GetWriteReadUntil_def)
next
  case (KcDial pos ack)
  then have "tn_wc s = None" using tn_invD(1) [OF inv] by (simp add: inv_keeper_def)
  note k = kc_pc_ok [OF inv this]
  show ?thesis
  proof (cases ev)
    case (KcDialed r)
    then show ?thesis using KcDial k kc_dialed_ok [OF inv KcDial _ tm] honest by (cases r) (auto simp: kc_step_def)
  qed (use KcDial inv in \<open>simp_all add: kc_step_def\<close>)
next
  case (KcWait ch)
  then show ?thesis using kc_wait_ok [OF inv KcWait] by (simp add: kc_step_def)
next
  case (KcFailed e)
  then have "tn_wc s = None" using tn_invD(1) [OF inv] by (simp add: inv_keeper_def)
  then show ?thesis using KcFailed inv kc_pc_ok [OF inv] by (cases ev) (auto simp: kc_step_def split: bool.splits)
next
  case (KcDone r)
  then show ?thesis using inv by (simp add: kc_step_def)
qed

lemma cl_step_ok:
  assumes inv: "tn_inv sz U s"
  shows "\<exists>s'. cl_step s = Some s' \<and> tn_inv sz U s'"
proof -
  obtain b where b: "tn_Close CloseRequested s = Some (s\<lparr>tn_browser := b\<rparr>)" "tn_inv sz U (s\<lparr>tn_browser := b\<rparr>)"
    using tn_Close_ok [OF inv] by blast
  have c: "tn_inv sz U (t\<lparr>cl_pc := n\<rparr>) = tn_inv sz U t" for t n by (simp add: tn_inv_def)
  have "tn_inv sz U (s\<lparr>tn_SendWin := bs_Fail e (tn_SendWin s)\<rparr>)" for e using inv by (simp add: sn_same_window bs_Fail_def Let_def)
  moreover have "tn_inv sz U (s\<lparr>tn_ReceiveWin := br_Fail e (tn_ReceiveWin s)\<rparr>)" for e
    using inv by (simp add: tn_same_window br_Fail_def br_Fail_ce_def Let_def)
  ultimately show ?thesis using b by (simp add: cl_step_def c)
qed

section \<open>The tunnel\<close>

fun tn_input :: "tn_event \<Rightarrow> nat" where
  "tn_input (FileSend (SnFile xs err)) = length xs"
| "tn_input e = 0"

lemma sd_step_in: "sd_step to now ev s = Some s' \<Longrightarrow> tn_in s' = tn_in s"
  by (auto simp: sd_step_def sd_wait_def sd_asleep_def sd_waited_def sd_get_def sd_sync_def on_gb_def sd_ping_def tn_Error_def
      sd_ready_def sd_fail_def sd_write_def sd_next_def tn_Close_def Let_def
      split: sd_pc.splits sd_event.splits wait_outcome.splits option.splits prod.splits if_splits)

lemma rc_step_in: "rc_step sz now ev s = Some s' \<Longrightarrow> tn_in s' = tn_in s"
  by (auto simp: rc_step_def rc_waited_def rc_asleep_def rc_get_def rc_reset_def rc_ack_def rc_body_def rc_read_def on_gb_def tn_Error_def
      rc_fail_def tn_Close_def Let_def
      split: rc_pc.splits rc_event.splits wait_outcome.splits option.splits prod.splits if_splits read_result.splits)

lemma rv_step_in: "tn_in (rv_step ev s) = tn_in s"
  by (auto simp: rv_step_def rv_waited_def rv_write_def Let_def split: rv_pc.splits rv_event.splits wait_outcome.splits option.splits prod.splits)

lemma kc_step_in: "kc_step now ev s = Some s' \<Longrightarrow> tn_in s' = tn_in s"
  by (auto simp: kc_step_def kc_wait_def kc_dialed_def GetWriteReadUntil_def Let_def
      split: kc_pc.splits kc_event.splits option.splits prod.splits sum.splits bool.splits)

lemma cl_step_in: "cl_step s = Some s' \<Longrightarrow> tn_in s' = tn_in s"
  by (auto simp: cl_step_def tn_Close_def split: if_splits)

lemma tn_step_ok:
  assumes inv: "tn_inv sz U s" and tm: "timely s" and honest: "server_honest U e s" and small: "caught_up e s"
    and later: "\<And>s'. tn_step sz to e s = Some s' \<Longrightarrow> timely s'" and len: "length (tn_in s) + tn_input e < 2 ^ 63"
  shows "\<exists>s'. tn_step sz to e s = Some s' \<and> tn_inv sz U s' \<and> length (tn_in s') \<le> length (tn_in s) + tn_input e"
proof (cases e)
  case (BrowserSend now ev)
  then show ?thesis using sd_step_ok [OF inv tm, of to now ev] sd_step_in by fastforce
next
  case (BrowserReceive now ev)
  then show ?thesis using rc_step_ok [OF inv tm honest [unfolded BrowserReceive] small [unfolded BrowserReceive]] later rc_step_in by fastforce
next
  case (FileSend ev)
  have "length (tn_in s) + (case ev of SnFile xs err \<Rightarrow> length xs | _ \<Rightarrow> 0) < 2 ^ 63" using len FileSend by (cases ev) simp_all
  then have "\<exists>s'. sn_step sz ev s = Some s' \<and> tn_inv sz U s' \<and>
    length (tn_in s') \<le> length (tn_in s) + (case ev of SnFile xs err \<Rightarrow> length xs | _ \<Rightarrow> 0)" by (intro sn_step_ok [OF inv]) simp
  then show ?thesis using FileSend by (cases ev) auto
next
  case (FileReceive ev)
  then show ?thesis using rv_step_ok [OF inv] by (simp add: rv_step_in)
next
  case (KeepConnected now ev)
  then show ?thesis using kc_step_ok [OF inv honest [unfolded KeepConnected] tm] kc_step_in by fastforce
next
  case CloseTunnel
  then show ?thesis using cl_step_ok [OF inv] cl_step_in by fastforce
qed

lemma tn_run_ok:
  assumes "tn_inv sz U s" "timely s" "tn_fair sz to U es s" "length (tn_in s) + sum_list (map tn_input es) < 2 ^ 63"
  shows "\<exists>s'. tn_run sz to es s = Some s' \<and> tn_inv sz U s'"
  using assms
proof (induction es arbitrary: s)
  case (Cons e es)
  have f: "server_honest U e s" "caught_up e s" "length (tn_in s) + tn_input e < 2 ^ 63"
    and n: "case tn_step sz to e s of None \<Rightarrow> True | Some s' \<Rightarrow> timely s' \<and> tn_fair sz to U es s'" using Cons(4,5) by simp_all
  have later: "\<And>s'. tn_step sz to e s = Some s' \<Longrightarrow> timely s'" using n by simp
  obtain s1 where s1: "tn_step sz to e s = Some s1" "tn_inv sz U s1" "length (tn_in s1) \<le> length (tn_in s) + tn_input e"
    using tn_step_ok [OF Cons(2,3) f(1,2) later f(3)] by blast
  have "timely s1" "tn_fair sz to U es s1" using n s1(1) by simp_all
  moreover have "length (tn_in s1) + sum_list (map tn_input es) < 2 ^ 63" using s1(3) Cons(5) by simp
  ultimately show ?case using Cons.IH [OF s1(2)] s1(1) by simp
qed simp

lemma tn_inv_start:
  assumes "0 < sz" "length U < 2 ^ 63"
  shows "tn_inv sz U (NewTunnel ms mr)" "timely (NewTunnel ms mr)"
proof -
  let ?s = "NewTunnel ms mr"
  have z: "low24 0 = 0" by (simp add: low24_def)
  have "browser_inv ((NewReplaceableBrowser, \<lparr>w_chans = [], w_closed = []\<rparr>), [])" using browser_inv_start by (simp add: browser_start_def)
  then have "live (tn_browser ?s)" by (auto simp: live_def NewTunnel_def)
  then have "inv_keeper ?s" using z by (simp add: inv_keeper_def NewTunnel_def NewReplaceableBrowser_def)
  moreover have "inv_receive sz U ?s" using assms z
    by (simp add: inv_receive_def NewTunnel_def NewBlockingReceiveWindow_def NewReceiveWindow_def NewReplaceableBrowser_def
        rw_inv_def rw_shape_def rw_unread_def)
  moreover have "inv_out U ?s" by (simp add: inv_out_def NewTunnel_def NewBlockingReceiveWindow_def NewReceiveWindow_def)
  moreover have "inv_send sz ?s" using assms
    by (simp add: inv_send_def NewTunnel_def NewBlockingSendWindow_def NewSendWindow_def sw_history_ok_def frame_log_def
        sw_inv_def sw_shape_def sw_retained_def sw_unsent_def)
  moreover have "inv_chain ?s" "inv_pushed ?s" by (simp_all add: inv_chain_def sd_at_def inv_pushed_def NewTunnel_def NewReplaceableBrowser_def)
  moreover have "inv_acks ?s" using z by (auto simp: inv_acks_def received_def NewTunnel_def NewReplaceableBrowser_def intro: exI [of _ 0])
  ultimately show "tn_inv sz U ?s" by (simp add: tn_inv_def)
  show "timely ?s" by (simp add: timely_def NewTunnel_def)
qed

text \<open>C4: In every interleaving of the six threads of a tunnel with websockets that are opened, fail and are replaced, and that
  is fair (\<open>tn_fair\<close>): the server is honest, every position is published while its websocket is the current one (\<open>timely\<close>,
  without which \<open>late_data_twice\<close>), and the reader is less than 2^23 bytes behind when a websocket is taken over (\<open>caught_up\<close>). Then no step panics or blocks with a lock held; what is written to
  the file is a prefix of the server's stream; every message written to a websocket carries the input at its position, and the messages on each
  websocket are contiguous from the position it was opened with; and every message acknowledges, in the 24 bits it has, a number of bytes that were received.\<close>

theorem tunnel_end_to_end:
  assumes "0 < sz" "length U < 2 ^ 63" "sum_list (map tn_input es) < 2 ^ 63" "tn_fair sz to U es (NewTunnel ms mr)"
  shows "\<exists>s. tn_run sz to es (NewTunnel ms mr) = Some s \<and>
    tn_out s = take (length (tn_out s)) U \<and>
    list_all (\<lambda>f. take (length (fr_data f)) (drop (fr_pos f) (tn_in s)) = fr_data f) (tn_frames s) \<and>
    list_all (\<lambda>c. \<exists>p. low24 (of_nat p) = fst (tn_asked s ! c) \<and> chained p (log_of c (tn_frames s))) [0..<length (tn_asked s)] \<and>
    list_all (\<lambda>f. \<exists>n \<le> unat (rw_Filled (tn_rw s)). fr_ack f = low24 (of_nat n)) (tn_frames s)"
proof -
  have "length (tn_in (NewTunnel ms mr)) + sum_list (map tn_input es) < 2 ^ 63" using assms(3) by (simp add: NewTunnel_def)
  then obtain s where s: "tn_run sz to es (NewTunnel ms mr) = Some s" "tn_inv sz U s"
    using tn_run_ok [OF tn_inv_start [OF assms(1,2)] assms(4)] by blast
  note i = tn_invD [OF s(2)]
  obtain k where "tn_out s = take k U" using i(3) by (auto simp: inv_out_def split: rv_pc.splits)
  then have "tn_out s = take (length (tn_out s)) U" by (simp add: min_def)
  moreover have "list_all (\<lambda>f. take (length (fr_data f)) (drop (fr_pos f) (tn_in s)) = fr_data f) (tn_frames s)"
    using i(4) by (auto simp: inv_send_def sw_history_ok_def frame_log_def list_all_iff)
  moreover have "list_all (\<lambda>c. \<exists>p. low24 (of_nat p) = fst (tn_asked s ! c) \<and> chained p (log_of c (tn_frames s))) [0..<length (tn_asked s)]"
    using i(5) by (auto simp: inv_chain_def starts_at_def list_all_iff)
  moreover have "list_all (\<lambda>f. \<exists>n \<le> unat (rw_Filled (tn_rw s)). fr_ack f = low24 (of_nat n)) (tn_frames s)"
    using i(6) by (auto simp: inv_acks_def received_def list_all_iff)
  ultimately show ?thesis using s(1) by blast
qed

text \<open>A tunnel over two websockets: the first breaks in the middle of a write, the second resumes from what the server
  acknowledged.\<close>

definition demo_open :: "tn_event list" where
  "demo_open = [KeepConnected 1 (KcGotSID None), KeepConnected 1 KcGo, KeepConnected 1 (KcDialed (Inr 0)),
    FileSend SnGo, FileSend SnGo, FileSend (SnFile [1, 2, 3] None),
    BrowserSend 1 SdGo, BrowserSend 1 SdGo, BrowserSend 1 SdGo, BrowserSend 1 (SdResult None), BrowserSend 1 SdGo,
    BrowserSend 1 (SdResult None), BrowserSend 1 (SdWrote 3 None), BrowserSend 1 SdGo, BrowserSend 1 (SdResult None),
    BrowserReceive 1 RcGo, BrowserReceive 1 RcGo, BrowserReceive 1 RcGo, BrowserReceive 1 (RcReader None),
    BrowserReceive 1 (RcData (ReadData [0, 0, 0, 2])), BrowserReceive 1 RcGo, BrowserReceive 1 RcGo]"

definition demo_break :: "tn_event list" where
  "demo_break = [FileSend SnGo, FileSend SnGo, FileSend (SnFile [4, 5] None),
    BrowserSend 2 SdGo, BrowserSend 2 SdGo, BrowserSend 2 SdGo, BrowserSend 2 (SdResult None), BrowserSend 2 SdGo,
    BrowserSend 2 (SdResult None), BrowserSend 2 (SdWrote 1 (Some ''broken pipe'')),
    KeepConnected 2 KcGo, KeepConnected 2 (KcRetry True), KeepConnected 2 KcGo]"

definition demo_read :: "bytes \<Rightarrow> tn_event list" where
  "demo_read xs = [BrowserReceive 1 (RcData (ReadData xs)), BrowserReceive 1 RcGo, BrowserReceive 1 RcGo]"

definition demo_resume :: "nat \<Rightarrow> byte \<Rightarrow> tn_event list" where
  "demo_resume q ack = [BrowserReceive 2 (RcData ReadEOF), KeepConnected 3 (KcDialed (Inr q)),
    BrowserSend 3 SdGo, BrowserSend 3 SdGo, BrowserSend 3 SdGo, BrowserSend 3 (SdResult None), BrowserSend 3 SdGo,
    BrowserSend 3 (SdResult None), BrowserSend 3 (SdWrote 3 None), BrowserSend 3 SdGo, BrowserSend 3 (SdResult None),
    BrowserReceive 3 RcGo, BrowserReceive 3 RcGo, BrowserReceive 3 RcGo, BrowserReceive 3 (RcReader None),
    BrowserReceive 3 (RcData (ReadData [0, 0, 0, ack])), BrowserReceive 3 RcGo, BrowserReceive 3 RcGo]"

definition demo_out :: "tn_event list" where
  "demo_out = [FileReceive RvGo, FileReceive RvGo, FileReceive (RvWrote 9 None), FileReceive (RvFlushed None)]"

definition demo_tunnel :: "tn_event list" where
  "demo_tunnel = demo_open @ demo_read [10, 11] @ demo_out @ demo_break @ demo_resume 2 2 @ demo_read [12, 13] @ demo_out"

definition demo_U :: bytes where
  "demo_U = [10, 11, 12, 13, 14]"

lemma demo_tunnel_fair: "tn_fair 8 DefaultTimeouts demo_U demo_tunnel (NewTunnel 1048576 1048576)"
  by code_simp

theorem tunnel_end_to_end_witness:
  "\<exists>s. tn_run 8 DefaultTimeouts demo_tunnel (NewTunnel 1048576 1048576) = Some s \<and> tn_out s = [10, 11, 12, 13] \<and>
    map (\<lambda>f. (fr_conn f, fr_pos f, fr_data f)) (tn_frames s) = [(Some 0, 0, [1, 2, 3]), (Some 0, 3, [4]), (Some 1, 2, [3, 4, 5])]"
proof -
  have "sum_list (map tn_input demo_tunnel) < 2 ^ 63"
    by (simp add: demo_tunnel_def demo_open_def demo_read_def demo_out_def demo_break_def demo_resume_def)
  from tunnel_end_to_end [OF _ _ this demo_tunnel_fair] obtain s
    where s: "tn_run 8 DefaultTimeouts demo_tunnel (NewTunnel 1048576 1048576) = Some s" by (auto simp: demo_U_def)
  have "map_option (\<lambda>s. (tn_out s, map (\<lambda>f. (fr_conn f, fr_pos f, fr_data f)) (tn_frames s)))
      (tn_run 8 DefaultTimeouts demo_tunnel (NewTunnel 1048576 1048576)) =
    Some ([10, 11, 12, 13], [(Some 0, 0, [1, 2, 3]), (Some 0, 3, [4]), (Some 1, 2, [3, 4, 5])])" by code_simp
  then show ?thesis using s by simp
qed

section \<open>What happens otherwise\<close>

text \<open>Data read from the old websocket after \<^verbatim>\<open>KeepConnected\<close> took the positions: the new one is asked for them again, and they
  are delivered twice, although the server does all that is asked of it.\<close>

fun tn_honest :: "nat \<Rightarrow> Timeouts \<Rightarrow> bytes \<Rightarrow> tn_event list \<Rightarrow> tunnel \<Rightarrow> bool" where
  "tn_honest sz to U [] s = True"
| "tn_honest sz to U (e # es) s =
    (server_honest U e s \<and> caught_up e s \<and> (case tn_step sz to e s of None \<Rightarrow> True | Some s' \<Rightarrow> tn_honest sz to U es s'))"

definition demo_late :: "tn_event list" where
  "demo_late = demo_open @ demo_break @ demo_read [10, 11] @ demo_resume 0 2 @ demo_read [10, 11] @ demo_out"

lemma late_data_twice:
  "tn_honest 8 DefaultTimeouts demo_U demo_late (NewTunnel 1048576 1048576)"
  "map_option tn_out (tn_run 8 DefaultTimeouts demo_late (NewTunnel 1048576 1048576)) = Some [10, 11, 10, 11]"
  by code_simp+

text \<open>Nobody but \<^verbatim>\<open>Close\<close> wakes \<^verbatim>\<open>KeepConnected\<close> once the two goroutines of the websocket have ended.\<close>

definition keeper_stuck :: "tunnel \<Rightarrow> bool" where
  "keeper_stuck s \<longleftrightarrow> (\<exists>e r ch. sd_pc s = SdDone e \<and> rc_pc s = RcDone r \<and> kc_pc s = KcWait ch \<and> waiter_Wait ch (snd (tn_browser s)) = None)"

lemma sn_step_others: "sn_step sz ev s = Some s' \<Longrightarrow> sd_pc s' = sd_pc s \<and> rc_pc s' = rc_pc s \<and> kc_pc s' = kc_pc s \<and> tn_browser s' = tn_browser s"
  by (auto simp: sn_step_def sn_waited_def sn_read_def Let_def split: sn_pc.splits sn_event.splits wait_outcome.splits option.splits prod.splits if_splits)

lemma rv_step_others: "sd_pc (rv_step ev s) = sd_pc s \<and> rc_pc (rv_step ev s) = rc_pc s \<and> kc_pc (rv_step ev s) = kc_pc s \<and> tn_browser (rv_step ev s) = tn_browser s"
  by (auto simp: rv_step_def rv_waited_def rv_write_def Let_def split: rv_pc.splits rv_event.splits wait_outcome.splits option.splits prod.splits)

lemma keeper_stuck_step: "keeper_stuck s \<Longrightarrow> e \<noteq> CloseTunnel \<Longrightarrow> tn_step sz to e s = Some s' \<Longrightarrow> keeper_stuck s'"
  using sn_step_others [of sz _ s s'] rv_step_others [of _ s]
  by (cases e) (auto simp: keeper_stuck_def sd_step_def rc_step_def kc_step_def kc_wait_def)

text \<open>\<^verbatim>\<open>Close\<close> while \<^verbatim>\<open>KeepConnected\<close> opens a websocket: everything ends but \<^verbatim>\<open>KeepConnected\<close>, which waits for ever.\<close>

definition demo_close :: "tn_event list" where
  "demo_close = [KeepConnected 1 (KcGotSID None), KeepConnected 1 KcGo, CloseTunnel, CloseTunnel, CloseTunnel,
    BrowserReceive 1 RcGo, BrowserReceive 1 RcGo, BrowserReceive 1 RcGo,
    BrowserSend 1 SdGo, BrowserSend 1 SdGo, BrowserSend 1 SdGo, KeepConnected 2 (KcDialed (Inr 0))]"

lemma close_during_dial:
  "\<exists>s. tn_run 8 DefaultTimeouts demo_close (NewTunnel 1048576 1048576) = Some s \<and> keeper_stuck s"
proof -
  have "map_option (\<lambda>s. (sd_pc s, rc_pc s, kc_pc s, waiter_Wait (Some 0) (snd (tn_browser s)) = None))
      (tn_run 8 DefaultTimeouts demo_close (NewTunnel 1048576 1048576)) =
    Some (SdDone CloseRequested, RcDone CloseRequested, KcWait (Some 0), True)" by code_simp
  then show ?thesis by (auto simp: keeper_stuck_def)
qed

end
