(* ===== verification/Blob_Meta.thy ===== *)
theory Blob_Meta imports Token Config_Loader begin

text \<open>
  The metadata of a blob (\<^verbatim>\<open>lib/config/blob/metadata.go\<close>), kept in a header of fixed size at the front of its stream, and the
  reader that hides the header from the http server. \<^verbatim>\<open>encoding/json\<close> is an argument, a \<open>Marshaller\<close>; what a decode that
  fails leaves in its target is not used.
\<close>

section \<open>Readers that seek\<close>

datatype whence = SeekStart | SeekCurrent | SeekEnd | OtherWhence int

record 'r ReadSeeker =
  rs_Read :: "nat \<Rightarrow> 'r \<Rightarrow> (cfg_error + bytes) \<times> 'r"
  rs_Seek :: "int \<Rightarrow> whence \<Rightarrow> 'r \<Rightarrow> (int \<times> cfg_error option) \<times> 'r"

definition EOF :: cfg_error where
  "EOF = Failed ''EOF''"

text \<open>\<^verbatim>\<open>bytes.Reader\<close>.\<close>

record bytes_Reader =
  bR_s :: bytes
  bR_i :: int

definition bytes_NewReader :: "bytes \<Rightarrow> bytes_Reader" where
  "bytes_NewReader b = \<lparr>bR_s = b, bR_i = 0\<rparr>"

definition bytes_Read :: "nat \<Rightarrow> bytes_Reader \<Rightarrow> (cfg_error + bytes) \<times> bytes_Reader" where
  "bytes_Read n r =
    (if int (length (bR_s r)) \<le> bR_i r then (Inl EOF, r)
     else let got = take n (drop (nat (bR_i r)) (bR_s r)) in (Inr got, r\<lparr>bR_i := bR_i r + int (length got)\<rparr>))"

definition bytes_Seek :: "int \<Rightarrow> whence \<Rightarrow> bytes_Reader \<Rightarrow> (int \<times> cfg_error option) \<times> bytes_Reader" where
  "bytes_Seek offset whence r =
    (case (case whence of
        SeekStart \<Rightarrow> Some offset
      | SeekCurrent \<Rightarrow> Some (i64 (bR_i r + offset))
      | SeekEnd \<Rightarrow> Some (i64 (int (length (bR_s r)) + offset))
      | OtherWhence _ \<Rightarrow> None) of
       None \<Rightarrow> ((0, Some (Failed ''bytes.Reader.Seek: invalid whence'')), r)
     | Some at \<Rightarrow>
       if at < 0 then ((0, Some (Failed ''bytes.Reader.Seek: negative position'')), r)
       else ((at, None), r\<lparr>bR_i := at\<rparr>))"

definition bytes_ops :: "bytes_Reader ReadSeeker" where
  "bytes_ops = \<lparr>rs_Read = bytes_Read, rs_Seek = bytes_Seek\<rparr>"

section \<open>The reader behind an offset\<close>

record 'r offsetReadSeeker =
  or_rs :: 'r
  or_offset :: int
  or_size :: int
  or_sized :: bool

definition offset_Read :: "'r ReadSeeker \<Rightarrow> nat \<Rightarrow> 'r offsetReadSeeker \<Rightarrow> (cfg_error + bytes) \<times> 'r offsetReadSeeker" where
  "offset_Read ops n o' = (let (res, r) = rs_Read ops n (or_rs o') in (res, o'\<lparr>or_rs := r\<rparr>))"

definition offset_dataSize :: "'r ReadSeeker \<Rightarrow> 'r offsetReadSeeker \<Rightarrow> (int \<times> cfg_error option) \<times> 'r offsetReadSeeker" where
  "offset_dataSize ops o' =
    (if or_sized o' then ((or_size o', None), o')
     else case rs_Seek ops 0 SeekCurrent (or_rs o') of
       ((_, Some err), r) \<Rightarrow> ((0, Some err), o'\<lparr>or_rs := r\<rparr>)
     | ((cur, None), r) \<Rightarrow>
       (case rs_Seek ops 0 SeekEnd r of
          ((_, Some err), r) \<Rightarrow> ((0, Some err), o'\<lparr>or_rs := r\<rparr>)
        | ((end', None), r) \<Rightarrow>
          (case rs_Seek ops cur SeekStart r of
             ((_, Some err), r) \<Rightarrow> ((0, Some err), o'\<lparr>or_rs := r\<rparr>)
           | ((_, None), r) \<Rightarrow>
             ((i64 (end' - or_offset o'), None), o'\<lparr>or_rs := r, or_size := i64 (end' - or_offset o'), or_sized := True\<rparr>))))"

definition offset_Seek :: "'r ReadSeeker \<Rightarrow> int \<Rightarrow> whence \<Rightarrow> 'r offsetReadSeeker \<Rightarrow> (int \<times> cfg_error option) \<times> 'r offsetReadSeeker" where
  "offset_Seek ops offset whence o' =
    (let seek = (\<lambda>off wh o'. let ((pos, err), r) = rs_Seek ops off wh (or_rs o') in ((i64 (pos - or_offset o'), err), o'\<lparr>or_rs := r\<rparr>))
     in case whence of
       SeekStart \<Rightarrow> seek (i64 (or_offset o' + offset)) SeekStart o'
     | SeekCurrent \<Rightarrow> seek offset SeekCurrent o'
     | SeekEnd \<Rightarrow>
       (case offset_dataSize ops o' of
          ((_, Some err), o') \<Rightarrow> ((0, Some err), o')
        | ((sz, None), o') \<Rightarrow> seek (i64 (or_offset o' + sz + offset)) SeekStart o')
     | OtherWhence _ \<Rightarrow> ((0, Some (Failed ''unsupported seek mode'')), o'))"

definition offset_ops :: "'r ReadSeeker \<Rightarrow> 'r offsetReadSeeker ReadSeeker" where
  "offset_ops ops = \<lparr>rs_Read = offset_Read ops, rs_Seek = offset_Seek ops\<rparr>"

section \<open>The contract of a reader\<close>

definition seek_target :: "bytes \<Rightarrow> int \<Rightarrow> int \<Rightarrow> whence \<Rightarrow> int" where
  "seek_target content pos offset whence =
    (case whence of SeekStart \<Rightarrow> offset | SeekCurrent \<Rightarrow> pos + offset | SeekEnd \<Rightarrow> int (length content) + offset | OtherWhence _ \<Rightarrow> -1)"

definition plain_read :: "bytes \<Rightarrow> int \<Rightarrow> nat \<Rightarrow> cfg_error + bytes" where
  "plain_read content pos n = (if int (length content) \<le> pos then Inl EOF else Inr (take n (drop (nat pos) content)))"

definition read_to :: "int \<Rightarrow> cfg_error + bytes \<Rightarrow> int" where
  "read_to pos res = (case res of Inl _ \<Rightarrow> pos | Inr got \<Rightarrow> pos + int (length got))"

locale seekable =
  fixes ops :: "'r ReadSeeker" and ok :: "'r \<Rightarrow> bool" and content :: "'r \<Rightarrow> bytes" and pos :: "'r \<Rightarrow> int" and bound :: int
  assumes bound: "bound \<le> 2 ^ 63"
    and in_bound: "ok r \<Longrightarrow> int (length (content r)) < bound \<and> 0 \<le> pos r \<and> pos r < bound"
    and Read: "ok r \<Longrightarrow> rs_Read ops n r = (res, r') \<Longrightarrow>
      res = plain_read (content r) (pos r) n \<and> ok r' \<and> content r' = content r \<and> pos r' = read_to (pos r) res"
    and Seek: "ok r \<Longrightarrow> 0 \<le> seek_target (content r) (pos r) offset whence \<Longrightarrow> seek_target (content r) (pos r) offset whence < bound \<Longrightarrow>
      \<exists>r'. rs_Seek ops offset whence r = ((seek_target (content r) (pos r) offset whence, None), r') \<and>
        ok r' \<and> content r' = content r \<and> pos r' = seek_target (content r) (pos r) offset whence"

definition bytes_inv :: "bytes_Reader \<Rightarrow> bool" where
  "bytes_inv r \<longleftrightarrow> int (length (bR_s r)) < 2 ^ 63 \<and> 0 \<le> bR_i r \<and> bR_i r < 2 ^ 63"

interpretation bytes_reader: seekable bytes_ops bytes_inv bR_s bR_i "2 ^ 63"
proof
  show "(2 :: int) ^ 63 \<le> 2 ^ 63" by simp
next
  fix r :: bytes_Reader and n res and r' :: bytes_Reader and offset whence
  assume r: "bytes_inv r"
  show "int (length (bR_s r)) < 2 ^ 63 \<and> 0 \<le> bR_i r \<and> bR_i r < 2 ^ 63" using r by (simp add: bytes_inv_def)
  show "res = plain_read (bR_s r) (bR_i r) n \<and> bytes_inv r' \<and> bR_s r' = bR_s r \<and> bR_i r' = read_to (bR_i r) res"
    if "rs_Read bytes_ops n r = (res, r')"
    using that r by (auto simp: bytes_ops_def bytes_Read_def plain_read_def read_to_def bytes_inv_def Let_def split: if_splits)
  show "\<exists>r'. rs_Seek bytes_ops offset whence r = ((seek_target (bR_s r) (bR_i r) offset whence, None), r') \<and>
      bytes_inv r' \<and> bR_s r' = bR_s r \<and> bR_i r' = seek_target (bR_s r) (bR_i r) offset whence"
    if "0 \<le> seek_target (bR_s r) (bR_i r) offset whence" "seek_target (bR_s r) (bR_i r) offset whence < 2 ^ 63"
    using that r by (auto simp: bytes_ops_def bytes_Seek_def seek_target_def bytes_inv_def i64_id split: whence.splits)
qed

definition offset_inv :: "('r \<Rightarrow> bool) \<Rightarrow> ('r \<Rightarrow> bytes) \<Rightarrow> ('r \<Rightarrow> int) \<Rightarrow> nat \<Rightarrow> 'r offsetReadSeeker \<Rightarrow> bool" where
  "offset_inv ok content pos h o' \<longleftrightarrow> ok (or_rs o') \<and> or_offset o' = int h \<and> h \<le> length (content (or_rs o')) \<and> int h \<le> pos (or_rs o') \<and>
    (or_sized o' \<longrightarrow> or_size o' = int (length (content (or_rs o')) - h))"

context seekable
begin

lemma Read_ex: "ok r \<Longrightarrow> \<exists>r'. rs_Read ops n r = (plain_read (content r) (pos r) n, r') \<and> ok r' \<and> content r' = content r \<and>
    pos r' = read_to (pos r) (plain_read (content r) (pos r) n)"
  using Read [of r n "fst (rs_Read ops n r)" "snd (rs_Read ops n r)"] by (metis prod.collapse)

lemma offset_dataSize_ok:
  assumes "offset_inv ok content pos h o'"
  shows "\<exists>o''. offset_dataSize ops o' = ((int (length (content (or_rs o')) - h), None), o'') \<and>
    offset_inv ok content pos h o'' \<and> content (or_rs o'') = content (or_rs o') \<and> pos (or_rs o'') = pos (or_rs o')"
proof (cases "or_sized o'")
  case True
  then show ?thesis using assms by (auto simp: offset_dataSize_def offset_inv_def)
next
  case False
  let ?r = "or_rs o'"
  have r: "ok ?r" "int (length (content ?r)) < bound" "0 \<le> pos ?r" "pos ?r < bound" "h \<le> length (content ?r)" "or_offset o' = int h"
    using assms in_bound [of ?r] by (auto simp: offset_inv_def)
  obtain r1 where 1: "rs_Seek ops 0 SeekCurrent ?r = ((pos ?r, None), r1)" "ok r1" "content r1 = content ?r" "pos r1 = pos ?r"
    using Seek [of ?r 0 SeekCurrent] r by (auto simp: seek_target_def)
  obtain r2 where 2: "rs_Seek ops 0 SeekEnd r1 = ((int (length (content ?r)), None), r2)" "ok r2" "content r2 = content ?r"
    using Seek [of r1 0 SeekEnd] r 1 by (auto simp: seek_target_def)
  obtain r3 where 3: "rs_Seek ops (pos ?r) SeekStart r2 = ((pos ?r, None), r3)" "ok r3" "content r3 = content ?r" "pos r3 = pos ?r"
    using Seek [of r2 "pos ?r" SeekStart] r 2 by (auto simp: seek_target_def)
  have "i64 (int (length (content ?r)) - int h) = int (length (content ?r) - h)" using r bound by (subst i64_id) auto
  then show ?thesis using assms False 1 2 3 r by (auto simp: offset_dataSize_def offset_inv_def)
qed

lemma offset_seekable: "seekable (offset_ops ops) (offset_inv ok content pos h) (\<lambda>x. drop h (content (or_rs x)))
    (\<lambda>x. pos (or_rs x) - int h) (bound - int h)"
proof
  show "bound - int h \<le> 2 ^ 63" using bound by simp
next
  fix o' o'' :: "'r offsetReadSeeker" and n res and offset whence
  let ?r = "or_rs o'" and ?c = "drop h (content (or_rs o'))" and ?p = "pos (or_rs o') - int h"
  assume o: "offset_inv ok content pos h o'"
  then have r: "ok ?r" "int (length (content ?r)) < bound" "pos ?r < bound" "h \<le> length (content ?r)" "or_offset o' = int h" "int h \<le> pos ?r"
    using in_bound [of ?r] by (auto simp: offset_inv_def)
  show "int (length ?c) < bound - int h \<and> 0 \<le> ?p \<and> ?p < bound - int h" using r by auto
  have pr: "plain_read (content ?r) (pos ?r) n = plain_read ?c ?p n" using r
    by (auto simp: plain_read_def nat_diff_distrib add.commute [of _ h])
  show "res = plain_read ?c ?p n \<and> offset_inv ok content pos h o'' \<and> drop h (content (or_rs o'')) = ?c \<and>
      pos (or_rs o'') - int h = read_to ?p res" if e: "rs_Read (offset_ops ops) n o' = (res, o'')"
  proof -
    obtain r' where "rs_Read ops n ?r = (plain_read (content ?r) (pos ?r) n, r')" "ok r'" "content r' = content ?r"
      "pos r' = read_to (pos ?r) (plain_read (content ?r) (pos ?r) n)" using Read_ex [OF r(1)] by blast
    then show ?thesis using e o by (auto simp: offset_ops_def offset_Read_def offset_inv_def pr read_to_def split: sum.splits)
  qed
  show "\<exists>o''. rs_Seek (offset_ops ops) offset whence o' = ((seek_target ?c ?p offset whence, None), o'') \<and>
      offset_inv ok content pos h o'' \<and> drop h (content (or_rs o'')) = ?c \<and> pos (or_rs o'') - int h = seek_target ?c ?p offset whence"
    if t: "0 \<le> seek_target ?c ?p offset whence" "seek_target ?c ?p offset whence < bound - int h"
  proof -
    have start: "\<exists>o2. (let ((p, err), r) = rs_Seek ops (int h + t) SeekStart (or_rs o1) in ((i64 (p - or_offset o1), err), o1\<lparr>or_rs := r\<rparr>)) = ((t, None), o2) \<and>
        offset_inv ok content pos h o2 \<and> content (or_rs o2) = content (or_rs o1) \<and> pos (or_rs o2) - int h = t"
      if "offset_inv ok content pos h o1" "0 \<le> t" "t < bound - int h" for o1 t
      using that Seek [of "or_rs o1" "int h + t" SeekStart] bound by (auto simp: seek_target_def offset_inv_def i64_id)
    show ?thesis
    proof (cases whence)
      case SeekStart
      then have "i64 (int h + offset) = int h + offset" using t bound by (simp add: seek_target_def i64_id)
      then show ?thesis using start [OF o, of offset] t SeekStart r by (auto simp: offset_ops_def offset_Seek_def seek_target_def)
    next
      case SeekCurrent
      then show ?thesis using Seek [of ?r offset SeekCurrent] o t r bound
        by (auto simp: offset_ops_def offset_Seek_def seek_target_def offset_inv_def i64_id)
    next
      case SeekEnd
      obtain o1 where o1: "offset_dataSize ops o' = ((int (length (content ?r) - h), None), o1)" "offset_inv ok content pos h o1"
        "content (or_rs o1) = content ?r" using offset_dataSize_ok [OF o] by blast
      let ?t = "int (length (content ?r) - h) + offset"
      have "or_offset o1 = int h" using o1(2) by (simp add: offset_inv_def)
      moreover have "i64 (int h + int (length (content ?r) - h) + offset) = int h + ?t"
        using t bound SeekEnd by (simp add: seek_target_def i64_id add.assoc)
      ultimately show ?thesis using start [OF o1(2), of ?t] t SeekEnd o1
        by (auto simp: offset_ops_def offset_Seek_def seek_target_def)
    qed (use t in \<open>simp add: seek_target_def\<close>)
  qed
qed

end

text \<open>What a sequence of reads and seeks returns.\<close>

datatype seek_op = ReadBytes nat | SeekTo int whence

datatype seek_result = Bytes "cfg_error + bytes" | Position "int \<times> cfg_error option"

fun run_ops :: "'r ReadSeeker \<Rightarrow> seek_op list \<Rightarrow> 'r \<Rightarrow> seek_result list" where
  "run_ops ops [] r = []"
| "run_ops ops (ReadBytes n # xs) r = (let (res, r) = rs_Read ops n r in Bytes res # run_ops ops xs r)"
| "run_ops ops (SeekTo offset wh # xs) r = (let (res, r) = rs_Seek ops offset wh r in Position res # run_ops ops xs r)"

fun plain_run :: "bytes \<Rightarrow> seek_op list \<Rightarrow> int \<Rightarrow> seek_result list" where
  "plain_run content [] pos = []"
| "plain_run content (ReadBytes n # xs) pos =
    (let res = plain_read content pos n in Bytes res # plain_run content xs (read_to pos res))"
| "plain_run content (SeekTo offset wh # xs) pos =
    (let to = seek_target content pos offset wh in Position (to, None) # plain_run content xs to)"

text \<open>Every seek is to a position from 0 up, below a bound.\<close>

fun in_range :: "bytes \<Rightarrow> int \<Rightarrow> seek_op list \<Rightarrow> int \<Rightarrow> bool" where
  "in_range content bound [] pos = True"
| "in_range content bound (ReadBytes n # xs) pos = in_range content bound xs (read_to pos (plain_read content pos n))"
| "in_range content bound (SeekTo offset wh # xs) pos =
    (let to = seek_target content pos offset wh in 0 \<le> to \<and> to < bound \<and> in_range content bound xs to)"

context seekable
begin

lemma run_plain: "ok r \<Longrightarrow> in_range (content r) bound xs (pos r) \<Longrightarrow> run_ops ops xs r = plain_run (content r) xs (pos r)"
proof (induction xs arbitrary: r)
  case (Cons x xs)
  show ?case
  proof (cases x)
    case (ReadBytes n)
    obtain r' where r': "rs_Read ops n r = (plain_read (content r) (pos r) n, r')" "ok r'" "content r' = content r"
      "pos r' = read_to (pos r) (plain_read (content r) (pos r) n)" using Read_ex [OF Cons.prems(1)] by blast
    then show ?thesis using Cons.IH [OF r'(2)] Cons.prems ReadBytes by (simp add: Let_def)
  next
    case (SeekTo offset wh)
    obtain r' where r': "rs_Seek ops offset wh r = ((seek_target (content r) (pos r) offset wh, None), r')" "ok r'"
      "content r' = content r" "pos r' = seek_target (content r) (pos r) offset wh"
      using Seek [OF Cons.prems(1)] Cons.prems(2) SeekTo by (auto simp: Let_def)
    then show ?thesis using Cons.IH [OF r'(2)] Cons.prems SeekTo by (simp add: Let_def)
  qed
qed simp

end

interpretation offset_bytes: seekable "offset_ops bytes_ops" "offset_inv bytes_inv bR_s bR_i h"
    "\<lambda>x. drop h (bR_s (or_rs x))" "\<lambda>x. bR_i (or_rs x) - int h" "2 ^ 63 - int h" for h
  by (rule bytes_reader.offset_seekable)

section \<open>The header\<close>

record Metadata =
  md_Filename :: string
  md_ContentType :: string

definition headerSize :: nat where "headerSize = 4096"
definition headerFixedSize :: nat where "headerFixedSize = 16"
definition headerVersion :: nat where "headerVersion = 1"

definition headerMagic :: bytes where
  "headerMagic = [69, 78, 75, 84, 66, 76, 79, 66]"

definition PutUint32 :: "nat \<Rightarrow> bytes" where
  "PutUint32 v = [of_nat (v div 2 ^ 24), of_nat (v div 2 ^ 16), of_nat (v div 2 ^ 8), of_nat v]"

definition Uint32 :: "bytes \<Rightarrow> nat" where
  "Uint32 b = foldl (\<lambda>v x. v * 256 + unat x) 0 b"

definition encodeHeader :: "'v Marshaller \<Rightarrow> 'v \<Rightarrow> token_error + bytes" where
  "encodeHeader json meta =
    (case ma_Marshal json meta of
       Inl err \<Rightarrow> Inl err
     | Inr raw \<Rightarrow>
       if headerSize - headerFixedSize < length raw then Inl (TokenError ''metadata too large'')
       else let buf = headerMagic @ PutUint32 headerVersion @ PutUint32 (length raw) @ raw
         in Inr (buf @ replicate (headerSize - length buf) 0))"

text \<open>\<^verbatim>\<open>io.ReadFull\<close>, which reads for ever from a reader that returns nothing and no error.\<close>

partial_function (option) ReadFull :: "'r ReadSeeker \<Rightarrow> nat \<Rightarrow> bytes \<Rightarrow> 'r \<Rightarrow> ((cfg_error + bytes) \<times> 'r) option" where
  "ReadFull ops n got r =
    (if n \<le> length got then Some (Inr got, r)
     else case rs_Read ops (n - length got) r of
       (Inl err, r) \<Rightarrow> Some (Inl (if err = EOF \<and> got \<noteq> [] then Failed ''unexpected EOF'' else err), r)
     | (Inr chunk, r) \<Rightarrow> ReadFull ops n (got @ chunk) r)"

definition parse_header :: "bytes \<Rightarrow> cfg_error + bytes" where
  "parse_header buf =
    (if length buf < headerSize then Inl (Failed ''header too short'')
     else if take (length headerMagic) buf \<noteq> headerMagic then Inl (Failed ''invalid header magic'')
     else if Uint32 (take 4 (drop (length headerMagic) buf)) \<noteq> headerVersion then Inl (Failed ''unsupported header version'')
     else let len = Uint32 (take 4 (drop (length headerMagic + 4) buf)) in
       if headerSize - headerFixedSize < len then Inl (Failed ''invalid metadata length'')
       else Inr (take len (drop headerFixedSize buf)))"

definition readHeaderRaw :: "'r ReadSeeker \<Rightarrow> 'r \<Rightarrow> ((cfg_error + bytes) \<times> 'r) option" where
  "readHeaderRaw ops r =
    (case ReadFull ops headerSize [] r of
       None \<Rightarrow> None
     | Some (Inl err, r) \<Rightarrow> Some (Inl err, r)
     | Some (Inr buf, r) \<Rightarrow> Some (parse_header buf, r))"

section \<open>Metadata stores\<close>

datatype MetadataStore = InlineMetadata | NoMetadata

text \<open>What is written before the data; and the reader of the data, which seeks if the reader of the file does.\<close>

definition WrapWriter :: "MetadataStore \<Rightarrow> Metadata Marshaller \<Rightarrow> Metadata \<Rightarrow> token_error + bytes" where
  "WrapWriter store json meta = (case store of InlineMetadata \<Rightarrow> encodeHeader json meta | NoMetadata \<Rightarrow> Inr [])"

datatype 'r data_reader = Behind "'r offsetReadSeeker" | Direct 'r

definition data_Read :: "'r ReadSeeker \<Rightarrow> nat \<Rightarrow> 'r data_reader \<Rightarrow> (cfg_error + bytes) \<times> 'r data_reader" where
  "data_Read ops n d =
    (case d of Behind x \<Rightarrow> map_prod id Behind (offset_Read ops n x) | Direct r \<Rightarrow> map_prod id Direct (rs_Read ops n r))"

definition data_Seek :: "'r ReadSeeker \<Rightarrow> int \<Rightarrow> whence \<Rightarrow> 'r data_reader \<Rightarrow> (int \<times> cfg_error option) \<times> 'r data_reader" where
  "data_Seek ops offset wh d =
    (case d of Behind x \<Rightarrow> map_prod id Behind (offset_Seek ops offset wh x) | Direct r \<Rightarrow> map_prod id Direct (rs_Seek ops offset wh r))"

definition data_ops :: "'r ReadSeeker \<Rightarrow> 'r data_reader ReadSeeker" where
  "data_ops ops = \<lparr>rs_Read = data_Read ops, rs_Seek = data_Seek ops\<rparr>"

definition WrapReader :: "MetadataStore \<Rightarrow> Metadata Marshaller \<Rightarrow> 'r ReadSeeker \<Rightarrow> bool \<Rightarrow> 'r \<Rightarrow> Metadata \<Rightarrow>
    ((cfg_error + 'r data_reader) \<times> Metadata) option" where
  "WrapReader store json ops seeks r meta =
    (case store of
       NoMetadata \<Rightarrow> Some (Inr (Direct r), meta)
     | InlineMetadata \<Rightarrow>
       (case readHeaderRaw ops r of
          None \<Rightarrow> None
        | Some (Inl err, r) \<Rightarrow> Some (Inl err, meta)
        | Some (Inr raw, r) \<Rightarrow>
          (case ma_Unmarshal json raw meta of
             (meta, Some err) \<Rightarrow> Some (Inl (Failed ''invalid metadata''), meta)
           | (meta, None) \<Rightarrow>
             Some (Inr (if seeks then Behind \<lparr>or_rs = r, or_offset = int headerSize, or_size = 0, or_sized = False\<rparr> else Direct r), meta))))"

section \<open>Encoding and reading back\<close>

lemma unat_of_nat_byte: "unat (of_nat n :: byte) = n mod 256"
  by (simp add: unat_of_nat)

lemma Uint32_Put: "v < 2 ^ 32 \<Longrightarrow> Uint32 (PutUint32 v) = v"
proof -
  assume v: "v < 2 ^ 32"
  have "v div 2 ^ 24 < 256" using v by (simp add: less_mult_imp_div_less)
  moreover have "v div 2 ^ 16 = (v div 2 ^ 24) * 256 + v div 2 ^ 16 mod 256" "v div 2 ^ 8 = (v div 2 ^ 16) * 256 + v div 2 ^ 8 mod 256"
    "v = (v div 2 ^ 8) * 256 + v mod 256"
    using div_mult_mod_eq [of "v div 2 ^ 16" 256] div_mult_mod_eq [of "v div 2 ^ 8" 256] by (simp_all add: div_mult2_eq [symmetric])
  ultimately show ?thesis by (simp add: Uint32_def PutUint32_def unat_of_nat_byte)
qed

lemma encodeHeader_parse:
  assumes "encodeHeader json meta = Inr h" and "ma_Marshal json meta = Inr raw"
  shows "length h = headerSize" and "parse_header h = Inr raw"
proof -
  let ?buf = "headerMagic @ PutUint32 headerVersion @ PutUint32 (length raw) @ raw"
  have l: "length raw \<le> headerSize - headerFixedSize" and h: "h = ?buf @ replicate (headerSize - length ?buf) 0"
    using assms by (auto simp: encodeHeader_def Let_def split: if_splits)
  have p: "length (PutUint32 v) = 4" for v by (simp add: PutUint32_def)
  have m: "length headerMagic = 8" by (simp add: headerMagic_def)
  show lh: "length h = headerSize" using l p m by (simp add: h headerSize_def headerFixedSize_def)
  have "Uint32 (PutUint32 headerVersion) = headerVersion" "Uint32 (PutUint32 (length raw)) = length raw"
    using l by (intro Uint32_Put; simp add: headerVersion_def headerSize_def headerFixedSize_def)+
  then show "parse_header h = Inr raw" using lh l p m
    by (simp add: parse_header_def Let_def) (simp add: h headerFixedSize_def)
qed

context seekable
begin

lemma ReadFull_ok:
  assumes "ok r" "pos r + int n \<le> int (length (content r))"
  shows "\<exists>r'. ReadFull ops n [] r = Some (Inr (take n (drop (nat (pos r)) (content r))), r') \<and> ok r' \<and> content r' = content r \<and>
    pos r' = pos r + int n"
proof (cases "n = 0")
  case True
  then show ?thesis using assms by (subst ReadFull.simps) auto
next
  case False
  define got where "got = take n (drop (nat (pos r)) (content r))"
  have p: "0 \<le> pos r" using in_bound [OF assms(1)] by simp
  have g: "plain_read (content r) (pos r) n = Inr got" "length got = n" using False assms(2) p by (auto simp: plain_read_def got_def)
  obtain r' where r': "rs_Read ops n r = (plain_read (content r) (pos r) n, r')" "ok r'" "content r' = content r"
    "pos r' = read_to (pos r) (plain_read (content r) (pos r) n)" using Read_ex [OF assms(1)] by blast
  have "ReadFull ops n got r' = Some (Inr got, r')" by (subst ReadFull.simps) (simp add: g)
  then have "ReadFull ops n [] r = Some (Inr got, r')" using False r'(1) by (subst ReadFull.simps) (simp add: g)
  then show ?thesis using r' g by (simp add: read_to_def got_def)
qed

lemma readHeaderRaw_ok:
  assumes "ok r" "pos r = 0" "content r = h @ data" "length h = headerSize" "parse_header h = Inr raw"
  shows "\<exists>r'. readHeaderRaw ops r = Some (Inr raw, r') \<and> ok r' \<and> content r' = content r \<and> pos r' = int headerSize"
  using ReadFull_ok [OF assms(1), of headerSize] assms by (auto simp: readHeaderRaw_def)

lemma WrapReader_ok:
  assumes "ok r" "pos r = 0" "content r = h @ data" "encodeHeader json meta = Inr h" "ma_Marshal json meta = Inr raw"
    and "ma_Unmarshal json raw m0 = (meta', None)"
  shows "\<exists>x. WrapReader InlineMetadata json ops True r m0 = Some (Inr (Behind x), meta') \<and> offset_inv ok content pos headerSize x \<and>
    drop headerSize (content (or_rs x)) = data \<and> pos (or_rs x) = int headerSize"
proof -
  note h = encodeHeader_parse [OF assms(4,5)]
  obtain r' where r': "readHeaderRaw ops r = Some (Inr raw, r')" "ok r'" "content r' = content r" "pos r' = int headerSize"
    using readHeaderRaw_ok [OF assms(1-3) h] by blast
  then show ?thesis using h(1) assms by (simp add: WrapReader_def offset_inv_def)
qed

end

lemma run_data_Behind: "run_ops (data_ops ops) xs (Behind x) = run_ops (offset_ops ops) xs x"
proof (induction xs arbitrary: x)
  case (Cons a xs)
  then show ?case
    by (cases a) (simp_all add: data_ops_def offset_ops_def data_Read_def data_Seek_def map_prod_def Let_def split: prod.splits)
qed simp

text \<open>C30: The reader that hides the header of a blob with inline metadata returns, for every sequence of reads and of seeks to
  positions that are not negative, exactly what a reader of the data alone returns, and the metadata is what was written.\<close>

theorem offset_reader_refines:
  assumes "encodeHeader json meta = Inr h" "ma_Marshal json meta = Inr raw" "ma_Unmarshal json raw m0 = (meta', None)"
    and "length (h @ data) < 2 ^ 63" "in_range data (2 ^ 63 - int headerSize) xs 0"
  shows "\<exists>rd. WrapReader InlineMetadata json bytes_ops True (bytes_NewReader (h @ data)) m0 = Some (Inr rd, meta') \<and>
    run_ops (data_ops bytes_ops) xs rd = run_ops bytes_ops xs (bytes_NewReader data)"
proof -
  have wide: "in_range c (2 ^ 63 - int headerSize) xs p \<Longrightarrow> in_range c (2 ^ 63) xs p" for c p
    by (induction c "2 ^ 63 - int headerSize" xs p rule: in_range.induct) (auto simp: Let_def)
  have b: "bytes_inv (bytes_NewReader (h @ data))" "bytes_inv (bytes_NewReader data)"
    using assms(4) by (simp_all add: bytes_inv_def bytes_NewReader_def)
  obtain x where x: "WrapReader InlineMetadata json bytes_ops True (bytes_NewReader (h @ data)) m0 = Some (Inr (Behind x), meta')"
    "offset_inv bytes_inv bR_s bR_i headerSize x" "drop headerSize (bR_s (or_rs x)) = data" "bR_i (or_rs x) = int headerSize"
    using bytes_reader.WrapReader_ok [OF b(1) _ _ assms(1-3)] by (auto simp: bytes_NewReader_def)
  have "run_ops (offset_ops bytes_ops) xs x = plain_run data xs 0"
    using offset_bytes.run_plain [OF x(2)] x(3,4) assms(5) by simp
  moreover have "run_ops bytes_ops xs (bytes_NewReader data) = plain_run data xs 0"
    using bytes_reader.run_plain [OF b(2)] wide [OF assms(5)] by (simp add: bytes_NewReader_def)
  ultimately show ?thesis using x(1) run_data_Behind by metis
qed

text \<open>A marshaller for the witnesses: the two strings, each after its length.\<close>

definition demo_string :: "string \<Rightarrow> bytes" where
  "demo_string s = of_nat (length s) # map (\<lambda>c. of_nat (of_char c)) s"

definition demo_json :: "Metadata Marshaller" where
  "demo_json = \<lparr>ma_Marshal = (\<lambda>m. Inr (demo_string (md_Filename m) @ demo_string (md_ContentType m))),
     ma_Unmarshal = (\<lambda>b m. case b of [] \<Rightarrow> (m, Some (TokenError ''unexpected end of input''))
       | n # r \<Rightarrow> (let str = map (\<lambda>x. char_of (unat x)) in
           (\<lparr>md_Filename = str (take (unat n) r), md_ContentType = str (drop (unat n + 1) r)\<rparr>, None)))\<rparr>"

definition demo_meta :: Metadata where
  "demo_meta = \<lparr>md_Filename = ''a.txt'', md_ContentType = ''text/plain''\<rparr>"

theorem offset_reader_refines_witness:
  "\<exists>h rd. encodeHeader demo_json demo_meta = Inr h \<and>
    WrapReader InlineMetadata demo_json bytes_ops True (bytes_NewReader (h @ [1, 2, 3])) \<lparr>md_Filename = [], md_ContentType = []\<rparr> =
      Some (Inr rd, demo_meta) \<and>
    run_ops (data_ops bytes_ops) [SeekTo 0 SeekEnd, SeekTo 1 SeekStart, ReadBytes 8, ReadBytes 1] rd =
      [Position (3, None), Position (1, None), Bytes (Inr [2, 3]), Bytes (Inl EOF)]"
proof -
  let ?xs = "[SeekTo 0 SeekEnd, SeekTo 1 SeekStart, ReadBytes 8, ReadBytes 1]"
  obtain h where h: "encodeHeader demo_json demo_meta = Inr h"
    by (simp add: encodeHeader_def demo_json_def demo_string_def demo_meta_def headerSize_def headerFixedSize_def)
  obtain raw where raw: "ma_Marshal demo_json demo_meta = Inr raw" "ma_Unmarshal demo_json raw \<lparr>md_Filename = [], md_ContentType = []\<rparr> = (demo_meta, None)"
  proof
    show "ma_Marshal demo_json demo_meta = Inr (demo_string ''a.txt'' @ demo_string ''text/plain'')" by (simp add: demo_json_def demo_meta_def)
    show "ma_Unmarshal demo_json (demo_string ''a.txt'' @ demo_string ''text/plain'') \<lparr>md_Filename = [], md_ContentType = []\<rparr> = (demo_meta, None)"
      by code_simp
  qed
  have l: "length (h @ [1, 2, 3 :: byte]) < 2 ^ 63" using encodeHeader_parse(1) [OF h raw(1)] by (simp add: headerSize_def)
  have r: "in_range [1, 2, 3 :: byte] (2 ^ 63 - int headerSize) ?xs 0"
    by (simp add: seek_target_def headerSize_def Let_def plain_read_def read_to_def)
  have "run_ops bytes_ops ?xs (bytes_NewReader [1, 2, 3]) = [Position (3, None), Position (1, None), Bytes (Inr [2, 3]), Bytes (Inl EOF)]"
    by code_simp
  then show ?thesis using offset_reader_refines [OF h raw l r] h by metis
qed

text \<open>A seek before the start of the data succeeds, at a negative position, and the header can be read.\<close>

lemma seek_into_header:
  "run_ops (offset_ops bytes_ops) [SeekTo (-8) SeekStart, ReadBytes 4]
      \<lparr>or_rs = \<lparr>bR_s = replicate 12 7 @ [1, 2], bR_i = 12\<rparr>, or_offset = 12, or_size = 0, or_sized = False\<rparr> =
    [Position (-8, None), Bytes (Inr [7, 7, 7, 7])]"
  by code_simp

end
