(* ===== verification/Go_Url.thy ===== *)
theory Go_Url imports Config_Paths "HOL-Library.Multiset" begin

text \<open>
  What the blob stores use of Go's \<^verbatim>\<open>net/url\<close> and \<^verbatim>\<open>path\<close> packages, and the two helpers of \<^verbatim>\<open>lib/khttp/utils.go\<close> that clean
  and join the paths of URLs.
\<close>

section \<open>Escaping\<close>

datatype url_mode = PathSegment | QueryComponent

definition unreserved :: "char \<Rightarrow> bool" where
  "unreserved c \<longleftrightarrow> (let b = byte_of c in
    48 \<le> b \<and> b \<le> 57 \<or> 65 \<le> b \<and> b \<le> 90 \<or> 97 \<le> b \<and> b \<le> 122) \<or> c \<in> {CHR ''-'', CHR ''_'', CHR ''.'', CHR ''~''}"

definition shouldEscape :: "url_mode \<Rightarrow> char \<Rightarrow> bool" where
  "shouldEscape mode c =
    (if unreserved c then False
     else if c \<in> {CHR ''$'', CHR ''&'', CHR ''+'', CHR '','', CHR ''/'', CHR '':'', CHR '';'', CHR ''='', CHR ''?'', CHR ''@''}
     then (case mode of
         PathSegment \<Rightarrow> c \<in> {CHR ''/'', CHR '';'', CHR '','', CHR ''?''}
       | QueryComponent \<Rightarrow> True)
     else True)"

fun url_escape :: "url_mode \<Rightarrow> string \<Rightarrow> string" where
  "url_escape mode [] = []"
| "url_escape mode (c # s) =
    (if c = CHR '' '' \<and> mode = QueryComponent then [CHR ''+'']
     else if shouldEscape mode c then [CHR ''%'', toHex (byte_of c div 16), toHex (byte_of c mod 16)]
     else [c]) @ url_escape mode s"

fun url_unescape :: "url_mode \<Rightarrow> string \<Rightarrow> string option" where
  "url_unescape mode [] = Some []"
| "url_unescape mode (c # h # l # s) =
    (if c = CHR ''%''
     then (case (fromHex h, fromHex l) of
         (Some hi, Some lo) \<Rightarrow> map_option (Cons (char_of (hi * 16 + lo))) (url_unescape mode s)
       | _ \<Rightarrow> None)
     else map_option (Cons (if c = CHR ''+'' \<and> mode = QueryComponent then CHR '' '' else c)) (url_unescape mode (h # l # s)))"
| "url_unescape mode (c # s) =
    (if c = CHR ''%'' then None
     else map_option (Cons (if c = CHR ''+'' \<and> mode = QueryComponent then CHR '' '' else c)) (url_unescape mode s))"

abbreviation PathEscape :: "string \<Rightarrow> string" where "PathEscape \<equiv> url_escape PathSegment"
abbreviation PathUnescape :: "string \<Rightarrow> string option" where "PathUnescape \<equiv> url_unescape PathSegment"
abbreviation QueryEscape :: "string \<Rightarrow> string" where "QueryEscape \<equiv> url_escape QueryComponent"
abbreviation QueryUnescape :: "string \<Rightarrow> string option" where "QueryUnescape \<equiv> url_unescape QueryComponent"

lemma url_unescape_other: "c \<noteq> CHR ''%'' \<Longrightarrow> url_unescape mode (c # s) =
    map_option (Cons (if c = CHR ''+'' \<and> mode = QueryComponent then CHR '' '' else c)) (url_unescape mode s)"
  by (cases s; cases "tl s") simp_all

lemma url_unescape_escape: "hi < 16 \<Longrightarrow> lo < 16 \<Longrightarrow> url_unescape mode (CHR ''%'' # toHex hi # toHex lo # s) =
    map_option (Cons (char_of (hi * 16 + lo))) (url_unescape mode s)"
  by (simp add: fromHex_toHex)

lemma unreserved_not: "\<not> unreserved (CHR ''%'')" "\<not> unreserved (CHR ''/'')" "\<not> unreserved (CHR '';'')" "\<not> unreserved (CHR ''+'')"
  "\<not> unreserved (CHR ''&'')" "\<not> unreserved (CHR ''='')"
  by (simp_all add: unreserved_def)

lemma not_escaped:
  assumes "\<not> shouldEscape mode c"
  shows "c \<noteq> CHR ''%''" "c \<noteq> CHR ''/''" "mode = QueryComponent \<Longrightarrow> unreserved c"
  using assms unreserved_not by (auto simp: shouldEscape_def split: if_splits url_mode.splits)

lemma unescape_escape: "url_unescape mode (url_escape mode s) = Some s"
proof (induction s)
  case (Cons c s)
  consider "c = CHR '' ''" "mode = QueryComponent" | "\<not> (c = CHR '' '' \<and> mode = QueryComponent)" "shouldEscape mode c"
    | "\<not> (c = CHR '' '' \<and> mode = QueryComponent)" "\<not> shouldEscape mode c" by blast
  then show ?case
  proof cases
    case 1
    then show ?thesis using Cons by (simp add: url_unescape_other)
  next
    case 2
    then show ?thesis using Cons byte_halves [of c] by (auto simp: url_unescape_escape simp del: url_unescape.simps)
  next
    case 3
    then have "c \<noteq> CHR ''%''" "mode = QueryComponent \<Longrightarrow> c \<noteq> CHR ''+''" using not_escaped unreserved_not(4) by blast+
    then show ?thesis using Cons 3 by (auto simp: url_unescape_other)
  qed
qed simp

lemma toHex_unreserved: "v < 16 \<Longrightarrow> unreserved (toHex v)"
  by (auto simp: toHex_def unreserved_def Let_def)

lemma url_escape_chars: "c \<in> set (url_escape mode s) \<Longrightarrow> unreserved c \<or> c = CHR ''%'' \<or> c = CHR ''+'' \<or> (mode = PathSegment \<and> \<not> shouldEscape mode c)"
proof (induction s)
  case (Cons d s)
  consider "c = CHR ''+''" | "c = CHR ''%''" | "unreserved c" | "c = d" "\<not> shouldEscape mode d" | "c \<in> set (url_escape mode s)"
    using Cons.prems toHex_unreserved byte_halves(1,2) [of d] by (auto split: if_splits)
  then show ?case using Cons.IH not_escaped(3) by cases (cases mode; auto)+
qed simp

lemma PathEscape_chars: "c \<in> set (PathEscape s) \<Longrightarrow> c \<noteq> CHR ''/''"
  using url_escape_chars [of c PathSegment s] not_escaped(2) unreserved_not by auto

lemma QueryEscape_chars: "c \<in> set (QueryEscape s) \<Longrightarrow> c \<notin> {CHR ''&'', CHR ''='', CHR '';''}"
  using url_escape_chars [of c QueryComponent s] unreserved_not by auto

lemma url_escape_Nil [simp]: "url_escape mode s = [] \<longleftrightarrow> s = []"
  by (cases s) auto

text \<open>An escaped name is a dot or two only if it was one.\<close>

lemma PathEscape_special: "special_part (PathEscape s) \<longleftrightarrow> special_part s"
proof -
  have "PathEscape ''.'' = ''.''" "PathEscape ''..'' = ''..''" by (simp_all add: shouldEscape_def unreserved_def)
  moreover have "s = t" if "PathEscape s = PathEscape t" for t using that unescape_escape by (metis option.inject)
  ultimately show ?thesis by (metis special_part_def url_escape_Nil)
qed

lemma PathEscape_ordinary: "ordinary (PathEscape s) \<longleftrightarrow> \<not> special_part s"
  using PathEscape_special PathEscape_chars by (auto simp: ordinary_def)

section \<open>Values\<close>

text \<open>\<^verbatim>\<open>url.Values\<close>: a map from names to lists of values. A nil map is the empty one.\<close>

type_synonym url_values = "(string \<times> string list) list"

definition vals :: "url_values \<Rightarrow> string \<Rightarrow> string list" where
  "vals m k = (case map_of m k of None \<Rightarrow> [] | Some vs \<Rightarrow> vs)"

definition Values_Get :: "url_values \<Rightarrow> string \<Rightarrow> string" where
  "Values_Get m k = (case vals m k of [] \<Rightarrow> [] | v # _ \<Rightarrow> v)"

definition Values_Set :: "string \<Rightarrow> string \<Rightarrow> url_values \<Rightarrow> url_values" where
  "Values_Set k v m = AList.update k [v] m"

definition Values_Add :: "string \<Rightarrow> string \<Rightarrow> url_values \<Rightarrow> url_values" where
  "Values_Add k v m = AList.update k (vals m k @ [v]) m"

definition pairs_of :: "url_values \<Rightarrow> string list \<Rightarrow> (string \<times> string) list" where
  "pairs_of m ks = concat (map (\<lambda>k. map (Pair k) (vals m k)) ks)"

definition Values_Encode :: "url_values \<Rightarrow> string" where
  "Values_Encode m = Join (map (\<lambda>(k, v). QueryEscape k @ ''='' @ QueryEscape v) (pairs_of m (sort (map fst m)))) ''&''"

text \<open>\<^verbatim>\<open>strings.Cut\<close> at one byte.\<close>

definition Cut :: "string \<Rightarrow> char \<Rightarrow> string \<times> string" where
  "Cut s sep = (takeWhile (\<lambda>c. c \<noteq> sep) s, tl (dropWhile (\<lambda>c. c \<noteq> sep) s))"

text \<open>\<^verbatim>\<open>URL.Query\<close>: parts that do not parse are left out.\<close>

definition parse_part :: "string \<Rightarrow> url_values \<Rightarrow> url_values" where
  "parse_part part m =
    (if CHR '';'' \<in> set part \<or> part = [] then m
     else let (k, v) = Cut part (CHR ''='') in
       case (QueryUnescape k, QueryUnescape v) of (Some k, Some v) \<Rightarrow> Values_Add k v m | _ \<Rightarrow> m)"

definition URL_Query :: "string \<Rightarrow> url_values" where
  "URL_Query query = foldl (\<lambda>m part. parse_part part m) [] (Split query (CHR ''&''))"

definition wf_values :: "url_values \<Rightarrow> bool" where
  "wf_values m \<longleftrightarrow> distinct (map fst m) \<and> (\<forall>(k, vs) \<in> set m. vs \<noteq> [])"

definition same_values :: "url_values \<Rightarrow> url_values \<Rightarrow> bool" where
  "same_values m n \<longleftrightarrow> (\<forall>k. mset (vals m k) = mset (vals n k))"

lemma vals_simps [simp]: "vals [] k = []" "vals (Values_Set k v m) k' = (if k' = k then [v] else vals m k')"
  "vals (Values_Add k v m) k' = (if k' = k then vals m k @ [v] else vals m k')"
  by (simp_all add: vals_def Values_Set_def Values_Add_def update_conv')

lemma wf_values_simps [simp]: "wf_values []" "wf_values m \<Longrightarrow> wf_values (Values_Set k v m)" "wf_values m \<Longrightarrow> wf_values (Values_Add k v m)"
proof -
  have up: "wf_values (AList.update k vs m)" if m: "wf_values m" "vs \<noteq> []" for vs
  proof -
    have "(k', ws) \<in> set (AList.update k vs m) \<Longrightarrow> (k', ws) \<in> set m \<or> ws = vs" for k' ws
      by (induction m) (auto split: if_splits)
    then show ?thesis using m unfolding wf_values_def by (fastforce simp: distinct_update)
  qed
  then show "wf_values m \<Longrightarrow> wf_values (Values_Set k v m)" "wf_values m \<Longrightarrow> wf_values (Values_Add k v m)"
    by (simp_all add: Values_Set_def Values_Add_def)
qed (simp add: wf_values_def)

lemma same_values_refl [simp]: "same_values m m"
  by (simp add: same_values_def)

lemma same_values_trans: "same_values a b \<Longrightarrow> same_values b c \<Longrightarrow> same_values a c"
  by (simp add: same_values_def)

lemma vals_Nil_iff: "wf_values m \<Longrightarrow> vals m k = [] \<longleftrightarrow> k \<notin> fst ` set m"
proof (cases "map_of m k")
  case None
  then have "k \<notin> fst ` set m" by (simp add: map_of_eq_None_iff)
  then show ?thesis using None by (simp add: vals_def)
next
  case (Some vs)
  then have "(k, vs) \<in> set m" by (rule map_of_SomeD)
  then show "wf_values m \<Longrightarrow> ?thesis" using Some by (force simp: vals_def wf_values_def)
qed

lemma Get_same: "same_values m n \<Longrightarrow> length (vals m k) \<le> 1 \<Longrightarrow> Values_Get n k = Values_Get m k"
proof -
  assume "same_values m n" and l: "length (vals m k) \<le> 1"
  then have e: "mset (vals n k) = mset (vals m k)" by (simp add: same_values_def)
  then have "length (vals n k) = length (vals m k)" by (metis size_mset)
  then show ?thesis using e l by (cases "vals m k"; cases "vals n k") (auto simp: Values_Get_def)
qed

section \<open>Encode and Query\<close>

lemma Cut_append: "sep \<notin> set a \<Longrightarrow> Cut (a @ sep # b) sep = (a, b)"
proof -
  assume "sep \<notin> set a"
  then have "\<forall>c \<in> set a. c \<noteq> sep" by metis
  then show ?thesis by (simp add: Cut_def takeWhile_append dropWhile_append)
qed

lemma parse_part_pair: "parse_part (QueryEscape k @ ''='' @ QueryEscape v) m = Values_Add k v m"
proof -
  have c: "Cut (QueryEscape k @ CHR ''='' # QueryEscape v) (CHR ''='') = (QueryEscape k, QueryEscape v)"
    using QueryEscape_chars by (intro Cut_append) blast
  have "CHR '';'' \<notin> set (QueryEscape k @ CHR ''='' # QueryEscape v)" using QueryEscape_chars by auto
  then show ?thesis using c by (simp add: parse_part_def unescape_escape)
qed

lemma foldl_pairs: "foldl (\<lambda>m part. parse_part part m) m (map (\<lambda>(k, v). QueryEscape k @ ''='' @ QueryEscape v) ps) =
    foldl (\<lambda>m (k, v). Values_Add k v m) m ps"
proof (induction ps arbitrary: m)
  case (Cons p ps)
  then show ?case by (cases p) (simp add: parse_part_pair del: append.simps)
qed simp

lemma foldl_Add: "vals (foldl (\<lambda>m (k, v). Values_Add k v m) m ps) k = vals m k @ map snd (filter (\<lambda>p. fst p = k) ps)"
  by (induction ps arbitrary: m) auto

lemma pairs_of_filter: "distinct ks \<Longrightarrow> map snd (filter (\<lambda>p. fst p = k) (pairs_of m ks)) = (if k \<in> set ks then vals m k else [])"
proof (induction ks)
  case (Cons a ks)
  have "filter (\<lambda>p. fst p = k) (map (Pair a) xs) = (if a = k then map (Pair a) xs else [])" for xs :: "string list"
    by (induction xs) auto
  then show ?case using Cons by (auto simp: pairs_of_def o_def)
qed (simp add: pairs_of_def)

lemma URL_Query_Encode: "distinct (map fst m) \<Longrightarrow> vals (URL_Query (Values_Encode m)) k = vals m k"
proof -
  assume d: "distinct (map fst m)"
  let ?f = "\<lambda>(k, v). QueryEscape k @ ''='' @ QueryEscape v" and ?ps = "pairs_of m (sort (map fst m))"
  have none: "vals m k = []" if "k \<notin> fst ` set m" using iffD2 [OF map_of_eq_None_iff that] by (simp add: vals_def)
  have v: "vals (foldl (\<lambda>m (k, v). Values_Add k v m) [] ?ps) k = vals m k"
    using d none by (simp add: foldl_Add pairs_of_filter)
  show ?thesis
  proof (cases "?ps = []")
    case True
    then show ?thesis using v by (simp add: URL_Query_def Values_Encode_def parse_part_def)
  next
    case False
    have "Split (Join (map ?f ?ps) ''&'') (CHR ''&'') = map ?f ?ps"
      using False by (intro Split_Join) (auto dest: QueryEscape_chars)
    then show ?thesis using v foldl_pairs [of "[]" ?ps] by (simp add: URL_Query_def Values_Encode_def)
  qed
qed

section \<open>Paths of URLs\<close>

definition path_Join :: "string list \<Rightarrow> string" where
  "path_Join elem = (let es = filter (\<lambda>e. e \<noteq> []) elem in if es = [] then [] else path_Clean (Join es ''/''))"

definition CleanPreserve :: "string \<Rightarrow> string" where
  "CleanPreserve urlpath =
    (let cleaned = path_Clean urlpath; cleaned = (if cleaned = ''.'' then [] else cleaned)
     in if HasSuffix urlpath ''/'' \<and> \<not> HasSuffix cleaned ''/'' then cleaned @ ''/'' else cleaned)"

definition JoinPreserve :: "string list \<Rightarrow> string" where
  "JoinPreserve add =
    (let result = path_Join add in if HasSuffix (last add) ''/'' \<and> \<not> HasSuffix result ''/'' then result @ ''/'' else result)"

text \<open>A clean path of directories.\<close>

definition dir_path :: "string list \<Rightarrow> string" where
  "dir_path ps = ''/'' @ concat (map (\<lambda>p. p @ ''/'') ps)"

lemma clean_rooted: "list_all ordinary out \<Longrightarrow> list_all (\<lambda>e. CHR ''/'' \<notin> set e) es \<Longrightarrow> list_all ordinary (clean_elements True out es)"
proof (induction es arbitrary: out)
  case (Cons e es)
  then show ?case by (cases out) (auto simp: ordinary_def special_part_def)
qed (simp add: list_all_iff)

lemma clean_ordinary: "list_all (\<lambda>e. e = [] \<or> ordinary e) es \<Longrightarrow> clean_elements True out es = rev out @ filter (\<lambda>e. e \<noteq> []) es"
  by (induction es arbitrary: out) (auto simp: ordinary_def special_part_def)

lemma Split_dir: "list_all ordinary ps \<Longrightarrow> CHR ''/'' \<notin> set e \<Longrightarrow> Split (concat (map (\<lambda>p. p @ ''/'') ps) @ e) (CHR ''/'') = ps @ [e]"
  by (induction ps) (simp_all add: Split_none Split_append ordinary_def)

lemma Split_dir_path: "list_all ordinary ps \<Longrightarrow> CHR ''/'' \<notin> set e \<Longrightarrow> Split (dir_path ps @ e) (CHR ''/'') = [] # ps @ [e]"
  using Split_dir [of ps e] by (simp add: dir_path_def)

lemma Join_dir: "ps \<noteq> [] \<Longrightarrow> Join ps ''/'' @ ''/'' = concat (map (\<lambda>p. p @ ''/'') ps)"
  by (induction ps "''/''" rule: Join.induct) auto

lemma ordinary_filter: "list_all ordinary ps \<Longrightarrow> filter (\<lambda>e. e \<noteq> []) ps = ps"
  by (induction ps) (auto simp: ordinary_def special_part_def)

lemma rooted_path: "HasPrefix (''/'' @ s) ''/''"
  by (simp add: HasPrefix_def)

lemma path_Clean_dir: "list_all ordinary ps \<Longrightarrow> path_Clean (dir_path ps) = ''/'' @ Join ps ''/''"
  using Split_dir_path [of ps "[]"] rooted_path
  by (simp add: path_Clean_def Let_def clean_ordinary ordinary_filter list_all_iff dir_path_def)

lemma path_Clean_file: "list_all ordinary ps \<Longrightarrow> ordinary e \<Longrightarrow> path_Clean (dir_path ps @ e) = dir_path ps @ e"
proof -
  assume a: "list_all ordinary ps" "ordinary e"
  have "path_Clean (dir_path ps @ e) = ''/'' @ Join (ps @ [e]) ''/''"
    using a Split_dir_path [of ps e] rooted_path ordinary_filter [of "ps @ [e]"]
    by (simp add: path_Clean_def Let_def clean_ordinary ordinary_def list_all_iff dir_path_def)
  also have "Join (ps @ [e]) ''/'' = concat (map (\<lambda>p. p @ ''/'') ps) @ e"
    by (induction ps "''/''" rule: Join.induct) auto
  finally show ?thesis by (simp add: dir_path_def)
qed

lemma CleanPreserve_dir: "list_all ordinary ps \<Longrightarrow> CleanPreserve (dir_path ps) = dir_path ps"
proof -
  assume a: "list_all ordinary ps"
  show ?thesis
  proof (cases "ps = []")
    case False
    then have l: "Join ps ''/'' @ ''/'' = concat (map (\<lambda>p. p @ ''/'') ps)" by (rule Join_dir)
    have "ordinary (last ps)" using a False by (simp add: list_all_iff)
    moreover obtain r where r: "Join ps ''/'' = r @ last ps" using False by (induction ps "''/''" rule: Join.induct) auto
    ultimately have "last (''/'' @ Join ps ''/'') \<noteq> CHR ''/''"
      by (auto simp: r ordinary_def special_part_def dest: last_in_set)
    then have "\<not> HasSuffix (''/'' @ Join ps ''/'') ''/''" unfolding HasSuffix_iff by (metis last_snoc)
    moreover have d: "dir_path ps = (''/'' @ Join ps ''/'') @ ''/''" using l by (simp add: dir_path_def)
    moreover have "HasSuffix (dir_path ps) ''/''" unfolding d HasSuffix_iff by blast
    moreover have "path_Clean (dir_path ps) \<noteq> ''.''" by (simp add: path_Clean_dir [OF a])
    ultimately show ?thesis using path_Clean_dir [OF a] by (simp add: CleanPreserve_def Let_def)
  qed (simp add: CleanPreserve_def path_Clean_def dir_path_def HasSuffix_def HasPrefix_def Let_def)
qed

lemma CleanPreserve_file: "list_all ordinary ps \<Longrightarrow> ordinary e \<Longrightarrow> CleanPreserve (dir_path ps @ e) = dir_path ps @ e"
proof -
  assume a: "list_all ordinary ps" "ordinary e"
  then have "last (dir_path ps @ e) \<noteq> CHR ''/''" by (auto simp: ordinary_def special_part_def dest: last_in_set)
  then have "\<not> HasSuffix (dir_path ps @ e) ''/''" unfolding HasSuffix_iff by (metis last_snoc)
  then show ?thesis using path_Clean_file [OF a] by (simp add: CleanPreserve_def Let_def dir_path_def)
qed

lemma Split_sep: "Split (a @ sep # b) sep = Split a sep @ Split b sep"
  by (induction a) (auto split: list.splits)

lemma path_Clean_join: "list_all ordinary ps \<Longrightarrow> ordinary e \<Longrightarrow> path_Clean (dir_path ps @ ''/'' @ e) = dir_path ps @ e"
proof -
  assume a: "list_all ordinary ps" "ordinary e"
  have s: "Split (dir_path ps @ CHR ''/'' # e) (CHR ''/'') = [] # ps @ [[], e]" "Split (dir_path ps @ e) (CHR ''/'') = [] # ps @ [e]"
    using a Split_dir_path [of ps "[]"] Split_dir_path [of ps e] by (simp_all add: Split_sep Split_none ordinary_def)
  have "list_all (\<lambda>e. e = [] \<or> ordinary e) (ps @ [[], e])" using a by (simp add: list_all_iff)
  then show ?thesis using s path_Clean_file [OF a] rooted_path a
    by (simp add: path_Clean_def Let_def clean_ordinary list_all_iff dir_path_def)
qed

lemma path_Join_file: "list_all ordinary ps \<Longrightarrow> ordinary e \<Longrightarrow> path_Join [dir_path ps, e] = dir_path ps @ e"
  using path_Clean_join [of ps e] by (simp add: path_Join_def dir_path_def ordinary_def special_part_def)

lemma JoinPreserve_file: "list_all ordinary ps \<Longrightarrow> ordinary e \<Longrightarrow> JoinPreserve [dir_path ps, e] = dir_path ps @ e"
proof -
  assume a: "list_all ordinary ps" "ordinary e"
  then have "last e \<noteq> CHR ''/''" by (auto simp: ordinary_def special_part_def dest: last_in_set)
  then have "\<not> HasSuffix e ''/''" unfolding HasSuffix_iff by (metis last_snoc)
  then show ?thesis using path_Join_file [OF a] by (simp add: JoinPreserve_def)
qed

lemma dir_path_snoc: "dir_path ps @ p @ ''/'' = dir_path (ps @ [p])"
  by (simp add: dir_path_def)

lemma JoinPreserve_dir: "list_all ordinary ps \<Longrightarrow> ordinary e \<Longrightarrow> JoinPreserve [dir_path ps, e @ ''/''] = dir_path (ps @ [e])"
proof -
  assume a: "list_all ordinary ps" "ordinary e"
  have s: "Split (dir_path ps @ CHR ''/'' # e @ ''/'') (CHR ''/'') = [] # ps @ [[], e, []]"
    using a Split_dir_path [of ps "[]"] Split_append [of "CHR ''/''" e "[]"] by (simp add: Split_sep ordinary_def)
  have "list_all (\<lambda>e. e = [] \<or> ordinary e) (ps @ [[], e, []])" using a by (simp add: list_all_iff)
  moreover have "e \<noteq> []" using a by (auto simp: ordinary_def special_part_def)
  ultimately have c: "path_Clean (dir_path ps @ CHR ''/'' # e @ ''/'') = dir_path ps @ e"
    using path_Clean_join [OF a] s Split_dir_path [of ps "[]"] a rooted_path
    by (simp add: path_Clean_def Let_def clean_ordinary list_all_iff dir_path_def Split_sep Split_none ordinary_def)
  have "last (dir_path ps @ e) \<noteq> CHR ''/''" using a by (auto simp: ordinary_def special_part_def dest: last_in_set)
  then have "\<not> HasSuffix (dir_path ps @ e) ''/''" unfolding HasSuffix_iff by (metis last_snoc)
  moreover have "HasSuffix (e @ ''/'') ''/''" unfolding HasSuffix_iff by blast
  ultimately show ?thesis using c a dir_path_snoc [of ps e]
    by (simp add: JoinPreserve_def path_Join_def dir_path_def)
qed

lemma dir_path_suffix [simp]: "HasSuffix (dir_path ps) ''/''"
proof (cases ps rule: rev_cases)
  case (snoc qs q)
  then have "dir_path ps = (dir_path qs @ q) @ ''/''" by (simp add: dir_path_def)
  then show ?thesis unfolding HasSuffix_iff by blast
qed (simp add: dir_path_def HasSuffix_def)

lemma rooted_Split: "HasPrefix s ''/'' \<Longrightarrow> \<exists>es. Split s (CHR ''/'') = [] # es \<and> list_all (\<lambda>e. CHR ''/'' \<notin> set e) es"
  using Split_parts [of _ s] by (cases s) (auto simp: HasPrefix_def list_all_iff)

text \<open>Cleaning a rooted path that ends with a separator gives a clean path of directories.\<close>

lemma CleanPreserve_rooted:
  assumes "HasPrefix s ''/''" "HasSuffix s ''/''"
  shows "\<exists>ps. list_all ordinary ps \<and> CleanPreserve s = dir_path ps"
proof -
  obtain es where es: "Split s (CHR ''/'') = [] # es" "list_all (\<lambda>e. CHR ''/'' \<notin> set e) es" using rooted_Split [OF assms(1)] by blast
  let ?ps = "clean_elements True [] es"
  have o: "list_all ordinary ?ps" using clean_rooted [of "[]" es] es(2) by simp
  have c: "path_Clean s = ''/'' @ Join ?ps ''/''" using assms(1) es(1) by (simp add: path_Clean_def Let_def)
  have "CleanPreserve (dir_path ?ps) = CleanPreserve s"
    using c path_Clean_dir [OF o] assms(2) dir_path_suffix by (simp add: CleanPreserve_def Let_def)
  then show ?thesis using CleanPreserve_dir [OF o] o by metis
qed

end
