(* ===== verification/Blob_Codec.thy ===== *)
theory Blob_Codec imports Token_Props Go_Url begin

text \<open>
  How the keys and parameters of blobs are put into URLs (\<^verbatim>\<open>lib/config/blob/url_codec.go\<close>). A codec is an interface value, the
  record of its two methods. An encoder or a codec that is made once and called many times is a function of what a call
  reads from its generator and its clock. The marshaller \<^verbatim>\<open>marshal.Json\<close> is an argument.
\<close>

section \<open>The interface\<close>

record URLCodec =
  uc_Encode :: "string \<Rightarrow> url_values \<Rightarrow> token_error + (string \<times> url_values)"
  uc_Decode :: "string \<Rightarrow> url_values \<Rightarrow> token_error + (string \<times> url_values)"

definition PlainCodec :: URLCodec where
  "PlainCodec = \<lparr>uc_Encode = (\<lambda>key params. Inr (EncodeKey key, params)), uc_Decode = (\<lambda>key params. Inr (DecodeKey key, params))\<rparr>"

section \<open>Parameters as a list\<close>

record tokenParamEntry =
  tp_Key :: string
  tp_Values :: "string list"

record tokenKeyParamsPayload =
  kp_Key :: string
  kp_Params :: "tokenParamEntry list"

definition encodeTokenParams :: "url_values \<Rightarrow> tokenParamEntry list" where
  "encodeTokenParams values = map (\<lambda>key. \<lparr>tp_Key = key, tp_Values = sort (vals values key)\<rparr>) (sort (map fst values))"

definition decodeTokenParams :: "tokenParamEntry list \<Rightarrow> url_values" where
  "decodeTokenParams entries = foldl (\<lambda>values entry.
     if tp_Values entry = [] then Values_Set (tp_Key entry) [] values
     else foldl (\<lambda>values v. Values_Add (tp_Key entry) v values) values (tp_Values entry)) [] entries"

definition normalizeTokenParamName :: "string \<Rightarrow> string" where
  "normalizeTokenParamName paramName = (if paramName = [] then ''token'' else paramName)"

section \<open>The codecs\<close>

text \<open>\<open>enc\<close> is nil when a decode starts, so its context is empty.\<close>

definition param_token :: "string \<Rightarrow> url_values \<Rightarrow> (bytes \<Rightarrow> context_values \<times> tokenParamEntry list \<times> token_error option) \<Rightarrow> string \<Rightarrow>
    token_error + (string \<times> url_values)" where
  "param_token paramName encodedParams decode key =
    (let tokenValue = Values_Get encodedParams paramName in
     if tokenValue = [] then Inl (TokenError ''missing signed params token'')
     else case decode (bytes_of_string tokenValue) of
       (_, payload, Some err) \<Rightarrow> Inl err
     | (_, payload, None) \<Rightarrow> Inr (key, decodeTokenParams payload))"

definition TokenParamsOnlyCodec :: "tokenParamEntry list TypeEncoder \<Rightarrow> string \<Rightarrow> URLCodec" where
  "TokenParamsOnlyCodec enc paramName =
    \<lparr>uc_Encode = (\<lambda>key params. case TypeEncoder_Encode enc (encodeTokenParams params) of
         Inl err \<Rightarrow> Inl err
       | Inr raw \<Rightarrow> Inr (key, Values_Set paramName (string_of_bytes raw) [])),
     uc_Decode = (\<lambda>key params. param_token paramName params (\<lambda>t. TypeEncoder_Decode enc Map.empty t []) key)\<rparr>"

definition TokenParamsCodec :: "tokenParamEntry list TypeEncoder \<Rightarrow> string \<Rightarrow> URLCodec" where
  "TokenParamsCodec enc paramName =
    \<lparr>uc_Encode = (\<lambda>key params. case TypeEncoder_EncodeWithAssociatedData enc (encodeTokenParams params) (bytes_of_string key) of
         Inl err \<Rightarrow> Inl err
       | Inr raw \<Rightarrow> Inr (key, Values_Set paramName (string_of_bytes raw) [])),
     uc_Decode = (\<lambda>key params.
       param_token paramName params (\<lambda>t. TypeEncoder_DecodeWithAssociatedData enc Map.empty t (bytes_of_string key) []) key)\<rparr>"

definition TokenKeyCodec :: "BinaryEncoder \<Rightarrow> URLCodec" where
  "TokenKeyCodec enc =
    \<lparr>uc_Encode = (\<lambda>key params. case be_Encode enc (bytes_of_string key) of
         Inl err \<Rightarrow> Inl err
       | Inr raw \<Rightarrow> Inr (string_of_bytes raw, params)),
     uc_Decode = (\<lambda>key params. case be_Decode enc Map.empty (bytes_of_string key) of
         (_, raw, Some err) \<Rightarrow> Inl err
       | (_, raw, None) \<Rightarrow> Inr (string_of_bytes (or_empty raw), params))\<rparr>"

definition add_values :: "url_values \<Rightarrow> url_values \<Rightarrow> url_values" where
  "add_values encodedParams params = foldl (\<lambda>params (k, vs). foldl (\<lambda>params v. Values_Add k v params) params vs) params encodedParams"

definition TokenPathCodec :: "tokenKeyParamsPayload TypeEncoder \<Rightarrow> URLCodec" where
  "TokenPathCodec enc =
    \<lparr>uc_Encode = (\<lambda>key params. case TypeEncoder_Encode enc \<lparr>kp_Key = key, kp_Params = encodeTokenParams params\<rparr> of
         Inl err \<Rightarrow> Inl err
       | Inr raw \<Rightarrow> Inr (string_of_bytes raw, [])),
     uc_Decode = (\<lambda>key params. case TypeEncoder_Decode enc Map.empty (bytes_of_string key) \<lparr>kp_Key = [], kp_Params = []\<rparr> of
         (_, payload, Some err) \<Rightarrow> Inl err
       | (_, payload, None) \<Rightarrow> Inr (kp_Key payload, add_values params (decodeTokenParams (kp_Params payload))))\<rparr>"

fun TokenCodec_Encode :: "URLCodec list \<Rightarrow> string \<Rightarrow> url_values \<Rightarrow> token_error + (string \<times> url_values)" where
  "TokenCodec_Encode [] key params = Inr (key, params)"
| "TokenCodec_Encode (codec # chain) key params =
    (case uc_Encode codec key params of Inl err \<Rightarrow> Inl err | Inr (key, params) \<Rightarrow> TokenCodec_Encode chain key params)"

text \<open>From the last codec of the chain to the first.\<close>

fun TokenCodec_Decode :: "URLCodec list \<Rightarrow> string \<Rightarrow> url_values \<Rightarrow> token_error + (string \<times> url_values)" where
  "TokenCodec_Decode [] key params = Inr (key, params)"
| "TokenCodec_Decode (codec # chain) key params =
    (case TokenCodec_Decode chain key params of Inl err \<Rightarrow> Inl err | Inr (key, params) \<Rightarrow> uc_Decode codec key params)"

definition TokenCodec :: "URLCodec list \<Rightarrow> URLCodec" where
  "TokenCodec chain = \<lparr>uc_Encode = TokenCodec_Encode chain, uc_Decode = TokenCodec_Decode chain\<rparr>"

section \<open>Constructors\<close>

text \<open>\<open>new_gcm\<close> stands for the block cipher of the standard library, as in theory Token.\<close>

type_synonym encoder_object = "rng \<Rightarrow> time \<Rightarrow> BinaryEncoder"
type_synonym codec_object = "rng \<Rightarrow> time \<Rightarrow> URLCodec"

record tokenEncoderOptions =
  eo_validity :: time
  eo_setters :: "SymmetricSetter list"
  eo_encoder :: "encoder_object option"

type_synonym TokenEncoderOption = "tokenEncoderOptions \<Rightarrow> tokenEncoderOptions"

definition TokenEncoderOptions_Apply :: "TokenEncoderOption option list \<Rightarrow> tokenEncoderOptions" where
  "TokenEncoderOptions_Apply mods =
    foldl (\<lambda>opts m. case m of None \<Rightarrow> opts | Some f \<Rightarrow> f opts) \<lparr>eo_validity = 0, eo_setters = [], eo_encoder = None\<rparr> mods"

definition WithEncoderValidity :: "time \<Rightarrow> TokenEncoderOption" where
  "WithEncoderValidity validity opts = opts\<lparr>eo_validity := validity\<rparr>"

definition WithEncoderSetters :: "SymmetricSetter list \<Rightarrow> TokenEncoderOption" where
  "WithEncoderSetters setters opts = opts\<lparr>eo_setters := eo_setters opts @ setters\<rparr>"

definition WithEncoder :: "encoder_object \<Rightarrow> TokenEncoderOption" where
  "WithEncoder enc opts = opts\<lparr>eo_encoder := Some enc\<rparr>"

definition symmetric_chain :: "time \<Rightarrow> SymmetricEncoder \<Rightarrow> encoder_object" where
  "symmetric_chain validity t rng now =
    ChainedEncoder ((if 0 < validity then [ExpireEncoder now validity] else []) @ [symmetric rng t, Base64UrlEncoder])"

definition BuildTokenEncoder :: "(bytes \<Rightarrow> token_error + aead) \<Rightarrow> rng \<Rightarrow> tokenEncoderOptions \<Rightarrow> token_error + encoder_object" where
  "BuildTokenEncoder new_gcm rng opts =
    (case eo_encoder opts of
       Some enc \<Rightarrow> Inr enc
     | None \<Rightarrow>
       (case rng of
          None \<Rightarrow> Inl (TokenError ''token RNG must be provided'')
        | Some read \<Rightarrow>
          (case NewSymmetricEncoder new_gcm rng (WithGeneratedSymmetricKey read 256 # eo_setters opts) of
             Inl err \<Rightarrow> Inl err
           | Inr enc \<Rightarrow> Inr (symmetric_chain (eo_validity opts) enc))))"

definition newTokenTypeEncoder :: "'v Marshaller \<Rightarrow> (bytes \<Rightarrow> token_error + aead) \<Rightarrow> rng \<Rightarrow> tokenEncoderOptions \<Rightarrow>
    token_error + (rng \<Rightarrow> time \<Rightarrow> 'v TypeEncoder)" where
  "newTokenTypeEncoder json new_gcm rng opts =
    (case BuildTokenEncoder new_gcm rng opts of
       Inl err \<Rightarrow> Inl err
     | Inr enc \<Rightarrow> Inr (\<lambda>rng now. \<lparr>te_be = enc rng now, te_ma = json\<rparr>))"

definition NewTokenParamsOnlyCodec :: "tokenParamEntry list Marshaller \<Rightarrow> (bytes \<Rightarrow> token_error + aead) \<Rightarrow> rng \<Rightarrow> string \<Rightarrow>
    tokenEncoderOptions \<Rightarrow> token_error + codec_object" where
  "NewTokenParamsOnlyCodec json new_gcm rng paramName opts =
    (case newTokenTypeEncoder json new_gcm rng opts of
       Inl err \<Rightarrow> Inl err
     | Inr enc \<Rightarrow> Inr (\<lambda>rng now. TokenParamsOnlyCodec (enc rng now) (normalizeTokenParamName paramName)))"

definition NewTokenParamsCodec :: "tokenParamEntry list Marshaller \<Rightarrow> (bytes \<Rightarrow> token_error + aead) \<Rightarrow> rng \<Rightarrow> string \<Rightarrow>
    tokenEncoderOptions \<Rightarrow> token_error + codec_object" where
  "NewTokenParamsCodec json new_gcm rng paramName opts =
    (case newTokenTypeEncoder json new_gcm rng opts of
       Inl err \<Rightarrow> Inl err
     | Inr enc \<Rightarrow>
       if \<not> TypeEncoder_SupportsAssociatedData (Some (enc rng 0)) then Inl ErrAssociatedDataUnsupported
       else Inr (\<lambda>rng now. TokenParamsCodec (enc rng now) (normalizeTokenParamName paramName)))"

definition NewTokenKeyCodec :: "(bytes \<Rightarrow> token_error + aead) \<Rightarrow> rng \<Rightarrow> tokenEncoderOptions \<Rightarrow> token_error + codec_object" where
  "NewTokenKeyCodec new_gcm rng opts =
    (case BuildTokenEncoder new_gcm rng opts of Inl err \<Rightarrow> Inl err | Inr enc \<Rightarrow> Inr (\<lambda>rng now. TokenKeyCodec (enc rng now)))"

definition NewTokenPathCodec :: "tokenKeyParamsPayload Marshaller \<Rightarrow> (bytes \<Rightarrow> token_error + aead) \<Rightarrow> rng \<Rightarrow> tokenEncoderOptions \<Rightarrow>
    token_error + codec_object" where
  "NewTokenPathCodec json new_gcm rng opts =
    (case newTokenTypeEncoder json new_gcm rng opts of Inl err \<Rightarrow> Inl err | Inr enc \<Rightarrow> Inr (\<lambda>rng now. TokenPathCodec (enc rng now)))"

record tokenCodecOptions =
  co_validity :: time
  co_setters :: "SymmetricSetter list"
  co_rng :: rng
  co_chain :: "codec_object list"
  co_encoderFactory :: "(unit \<Rightarrow> token_error + encoder_object) option"

type_synonym TokenCodecOption = "tokenCodecOptions \<Rightarrow> tokenCodecOptions"

definition WithTokenKeyCodec :: "codec_object \<Rightarrow> TokenCodecOption" where
  "WithTokenKeyCodec codec opts = opts\<lparr>co_chain := co_chain opts @ [codec]\<rparr>"

definition WithTokenPathCodec :: "codec_object \<Rightarrow> TokenCodecOption" where
  "WithTokenPathCodec codec opts = opts\<lparr>co_chain := [codec]\<rparr>"

definition WithTokenValidity :: "time \<Rightarrow> TokenCodecOption" where
  "WithTokenValidity validity opts = opts\<lparr>co_validity := validity\<rparr>"

definition WithTokenRand :: "rng \<Rightarrow> TokenCodecOption" where
  "WithTokenRand rng opts = opts\<lparr>co_rng := rng\<rparr>"

definition WithTokenSetters :: "SymmetricSetter list \<Rightarrow> TokenCodecOption" where
  "WithTokenSetters setters opts = opts\<lparr>co_setters := co_setters opts @ setters\<rparr>"

definition WithTokenEncoder :: "encoder_object \<Rightarrow> TokenCodecOption" where
  "WithTokenEncoder enc opts = opts\<lparr>co_encoderFactory := Some (\<lambda>_. Inr enc)\<rparr>"

definition NewTokenCodec_options :: "TokenCodecOption option list \<Rightarrow> tokenCodecOptions" where
  "NewTokenCodec_options mods =
    foldl (\<lambda>opts m. case m of None \<Rightarrow> opts | Some f \<Rightarrow> f opts)
      \<lparr>co_validity = 0, co_setters = [], co_rng = None, co_chain = [], co_encoderFactory = None\<rparr> mods"

text \<open>The chain of the codec that \<^verbatim>\<open>NewTokenCodec\<close> returns.\<close>

definition NewTokenCodec :: "tokenParamEntry list Marshaller \<Rightarrow> (bytes \<Rightarrow> token_error + aead) \<Rightarrow> TokenCodecOption option list \<Rightarrow>
    token_error + codec_object list" where
  "NewTokenCodec json new_gcm mods =
    (let opts = NewTokenCodec_options mods in
     if co_chain opts \<noteq> [] then Inr (co_chain opts)
     else case (case co_encoderFactory opts of
           Some factory \<Rightarrow> factory ()
         | None \<Rightarrow> if co_rng opts = None then Inl (TokenError ''token RNG must be provided'')
             else BuildTokenEncoder new_gcm (co_rng opts)
               (TokenEncoderOptions_Apply [Some (WithEncoderValidity (co_validity opts)), Some (WithEncoderSetters (co_setters opts))])) of
       Inl err \<Rightarrow> Inl err
     | Inr enc \<Rightarrow>
       (case NewTokenKeyCodec new_gcm None (TokenEncoderOptions_Apply [Some (WithEncoder enc)]) of
          Inl err \<Rightarrow> Inl err
        | Inr keyCodec \<Rightarrow>
          (case NewTokenParamsOnlyCodec json new_gcm None ''token'' (TokenEncoderOptions_Apply [Some (WithEncoder enc)]) of
             Inl err \<Rightarrow> Inl err
           | Inr paramsCodec \<Rightarrow> Inr [keyCodec, paramsCodec])))"

text \<open>A call of a chain: each codec reads its generator and its clock.\<close>

definition chain_at :: "codec_object list \<Rightarrow> (rng \<times> time) list \<Rightarrow> URLCodec" where
  "chain_at chain reads = TokenCodec (map2 (\<lambda>c (rng, now). c rng now) chain reads)"

end
