(* ===== verification/Blob_Codec_Props.thy ===== *)
theory Blob_Codec_Props imports Blob_Codec begin

text \<open>
  The contract of a URL codec, as a locale: what it encodes it decodes, whatever the order of the values that the URL
  brings back, and a key is never encoded to a name that means something in a path. It holds of the plain codec, of
  the token codecs while their tokens are valid, and of chains.
\<close>

section \<open>The contract\<close>

locale url_codec =
  fixes fit :: "string \<Rightarrow> url_values \<Rightarrow> bool" and enc dec :: URLCodec
  assumes keeps: "fit key params \<Longrightarrow> wf_values params \<Longrightarrow> uc_Encode enc key params = Inr (k, p) \<Longrightarrow> wf_values p"
    and plain: "fit key params \<Longrightarrow> wf_values params \<Longrightarrow> uc_Encode enc key params = Inr (k, p) \<Longrightarrow> \<not> special_part k"
    and decodes: "fit key params \<Longrightarrow> wf_values params \<Longrightarrow> uc_Encode enc key params = Inr (k, p) \<Longrightarrow> same_values p p' \<Longrightarrow>
      \<exists>q. uc_Decode dec k p' = Inr (key, q) \<and> same_values params q"
begin

lemma encode_inj: "fit a p1 \<Longrightarrow> fit b p2 \<Longrightarrow> wf_values p1 \<Longrightarrow> wf_values p2 \<Longrightarrow> uc_Encode enc a p1 = Inr x \<Longrightarrow> uc_Encode enc b p2 = Inr x \<Longrightarrow>
    a = b \<and> same_values p1 p2"
proof -
  assume a: "fit a p1" "wf_values p1" "uc_Encode enc a p1 = Inr x" and b: "fit b p2" "wf_values p2" "uc_Encode enc b p2 = Inr x"
  obtain k p where x: "x = (k, p)" by (cases x)
  have "\<exists>q. uc_Decode dec k p = Inr (a, q) \<and> same_values p1 q" using decodes [OF a(1,2) a(3) [unfolded x]] by simp
  moreover have "\<exists>q. uc_Decode dec k p = Inr (b, q) \<and> same_values p2 q" using decodes [OF b(1,2) b(3) [unfolded x]] by simp
  ultimately show ?thesis by (auto simp: same_values_def)
qed

end

lemma EncodeKey_special: "special_part (EncodeKey key) \<longleftrightarrow> special_part key"
proof -
  have "EncodeKey [] = []" "EncodeKey ''.'' = ''.''" "EncodeKey ''..'' = ''..''" by (simp_all add: escaped_def)
  then show ?thesis unfolding special_part_def by (metis EncodeKey_inj)
qed

interpretation plain: url_codec "\<lambda>key params. \<not> special_part key" PlainCodec PlainCodec
  by unfold_locales (auto simp: PlainCodec_def DecodeKey_EncodeKey EncodeKey_special)

text \<open>Chains: what one codec returns must fit the next.\<close>

fun chain_fits :: "((string \<Rightarrow> url_values \<Rightarrow> bool) \<times> URLCodec \<times> URLCodec) list \<Rightarrow> string \<Rightarrow> url_values \<Rightarrow> bool" where
  "chain_fits [] key params = (\<not> special_part key)"
| "chain_fits ((fit, enc, dec) # cs) key params =
    (fit key params \<and> (case uc_Encode enc key params of Inl _ \<Rightarrow> True | Inr (k, p) \<Rightarrow> chain_fits cs k p))"

lemma chain_codec:
  assumes "\<And>fit enc dec. (fit, enc, dec) \<in> set cs \<Longrightarrow> url_codec fit enc dec"
  shows "url_codec (chain_fits cs) (TokenCodec (map (\<lambda>(_, enc, _). enc) cs)) (TokenCodec (map (\<lambda>(_, _, dec). dec) cs))"
  using assms
proof (induction cs)
  case Nil
  show ?case by unfold_locales (auto simp: TokenCodec_def)
next
  case (Cons c cs)
  obtain f e d where c: "c = (f, e, d)" by (cases c)
  have first: "url_codec f e d" using Cons.prems c by simp
  let ?encs = "map (\<lambda>(_, enc, _). enc) cs" and ?decs = "map (\<lambda>(_, _, dec). dec) cs"
  have IH: "url_codec (chain_fits cs) (TokenCodec ?encs) (TokenCodec ?decs)" using Cons by simp
  show ?case
  proof
    fix key params k p
    assume f: "chain_fits (c # cs) key params" and w: "wf_values params"
      and e: "uc_Encode (TokenCodec (map (\<lambda>(_, enc, _). enc) (c # cs))) key params = Inr (k, p)"
    obtain k1 p1 where 1: "uc_Encode e key params = Inr (k1, p1)" "uc_Encode (TokenCodec ?encs) k1 p1 = Inr (k, p)"
      using e by (auto simp: c TokenCodec_def split: sum.splits)
    have fits: "f key params" "chain_fits cs k1 p1" using f 1(1) by (simp_all add: c)
    have w1: "wf_values p1" by (rule url_codec.keeps [OF first fits(1) w 1(1)])
    show "wf_values p" by (rule url_codec.keeps [OF IH fits(2) w1 1(2)])
    show "\<not> special_part k" by (rule url_codec.plain [OF IH fits(2) w1 1(2)])
    show "\<exists>q. uc_Decode (TokenCodec (map (\<lambda>(_, _, dec). dec) (c # cs))) k p' = Inr (key, q) \<and> same_values params q"
      if same: "same_values p p'" for p'
    proof -
      obtain q1 where q1: "uc_Decode (TokenCodec ?decs) k p' = Inr (k1, q1)" "same_values p1 q1"
        using url_codec.decodes [OF IH fits(2) w1 1(2) same] by blast
      then show ?thesis using url_codec.decodes [OF first fits(1) w 1(1) q1(2)] by (simp add: c TokenCodec_def)
    qed
  qed
qed

section \<open>Parameters\<close>

lemma encodeTokenParams_keys: "map tp_Key (encodeTokenParams m) = sort (map fst m)"
  by (simp add: encodeTokenParams_def o_def)

lemma decode_entries: "list_all (\<lambda>e. tp_Values e \<noteq> []) entries \<Longrightarrow>
    vals (foldl (\<lambda>values e. if tp_Values e = [] then Values_Set (tp_Key e) [] values
       else foldl (\<lambda>values v. Values_Add (tp_Key e) v values) values (tp_Values e)) m entries) k =
    vals m k @ concat (map tp_Values (filter (\<lambda>e. tp_Key e = k) entries))"
proof (induction entries arbitrary: m)
  case (Cons e entries)
  have "vals (foldl (\<lambda>values v. Values_Add k' v values) m vs) k = vals m k @ (if k' = k then vs else [])" for k' vs m
    by (induction vs arbitrary: m) auto
  then show ?case using Cons by auto
qed simp

lemma same_params: "wf_values m \<Longrightarrow> same_values m (decodeTokenParams (encodeTokenParams m))"
proof -
  assume m: "wf_values m"
  have d: "distinct (sort (map fst m))" using m by (simp add: wf_values_def)
  have ne: "list_all (\<lambda>e. tp_Values e \<noteq> []) (encodeTokenParams m)"
  proof -
    have "sort (vals m k) \<noteq> []" if "k \<in> set (map fst m)" for k
      using that vals_Nil_iff [OF m, of k] by (metis list.set_map mset_sort mset_zero_iff)
    then show ?thesis by (simp add: encodeTokenParams_def list_all_iff)
  qed
  have f: "concat (map tp_Values (filter (\<lambda>e. tp_Key e = k) (map (\<lambda>key. \<lparr>tp_Key = key, tp_Values = sort (vals m key)\<rparr>) ks))) =
      (if k \<in> set ks then sort (vals m k) else [])" if "distinct ks" for ks k
    using that by (induction ks) auto
  have "vals (decodeTokenParams (encodeTokenParams m)) k = sort (vals m k)" for k
  proof -
    have "k \<notin> fst ` set m \<Longrightarrow> vals m k = []" using vals_Nil_iff [OF m] by blast
    then show ?thesis using decode_entries [OF ne, of "[]" k] f [OF d] unfolding decodeTokenParams_def
      by (auto simp: encodeTokenParams_def)
  qed
  then show ?thesis by (simp add: same_values_def)
qed

text \<open>\<open>Values_Add\<close> of what a query adds to a token.\<close>

lemma vals_add_values: "vals (add_values es m) k = vals m k @ concat (map snd (filter (\<lambda>e. fst e = k) es))"
proof (induction es arbitrary: m)
  case (Cons e es)
  have a: "vals (foldl (\<lambda>params v. Values_Add k' v params) m vs) k = vals m k @ (if k' = k then vs else [])" for k' vs m
    by (induction vs arbitrary: m) auto
  obtain k' vs where e: "e = (k', vs)" by (cases e)
  have "add_values (e # es) m = add_values es (foldl (\<lambda>params v. Values_Add k' v params) m vs)" by (simp add: add_values_def e)
  then show ?case using Cons a e by simp
qed (simp add: add_values_def)

section \<open>Tokens\<close>

definition clock_ok :: "time \<Rightarrow> time \<Rightarrow> bool" where
  "clock_ok now validity \<longleftrightarrow> (0 < validity \<longrightarrow>
     representable now \<and> representable validity \<and> representable (now + validity) \<and> 0 < unix_of (now + validity))"

definition expired :: "time \<Rightarrow> time \<Rightarrow> time \<Rightarrow> bool" where
  "expired now validity now' \<longleftrightarrow> 0 < validity \<and> seconds_of (now + validity) < now'"

definition expiry :: "time \<Rightarrow> time \<Rightarrow> time \<Rightarrow> token_error option" where
  "expiry now validity now' = (if expired now validity now' then Some ExpiredError else None)"

lemma expire_decode:
  assumes "clock_ok now v" "0 < v" "or_empty d = PutVarint (unix_of (Time_Add now v)) @ data"
  shows "\<exists>ctx'. chain_turn (be_Decode (ExpireEncoder now' v)) (ctx, d, None, False) = (ctx', Some data, expiry now v now', False)"
proof -
  have r: "representable (now + v)" "0 < unix_of (now + v)" "Time_Add now v = now + v"
    using assms(1,2) Time_Add_id by (simp_all add: clock_ok_def)
  then show ?thesis using assms(2,3) Varint_unix [OF r(1), of data] Time_Unix_id [OF r(1)]
    by (simp add: chain_turn_def ExpireEncoder_def ExpireEncoder_Decode_def Let_def expiry_def expired_def seconds_of_def)
qed

lemma symmetric_chain_token:
  assumes "good_nonce t" "clock_ok now v" "be_Encode (symmetric_chain v t rng now) data = Inr x"
  shows "\<exists>ctx' d. be_Decode (symmetric_chain v t rng' now') ctx x = (ctx', d, expiry now v now') \<and> or_empty d = data"
    and "6 \<le> length x"
proof -
  let ?in = "\<lambda>rng. [symmetric rng t, Base64UrlEncoder]"
  define y where "y = (if 0 < v then PutVarint (unix_of (Time_Add now v)) @ data else data)"
  have e: "ChainedEncoder_Encode (?in rng) y = Inr x"
    using assms(3) by (simp add: y_def symmetric_chain_def ExpireEncoder_def ExpireEncoder_Encode_def split: if_splits)
  have "list_all2 restores (?in rng) (?in rng')"
    using restores_symmetric [OF assms(1)] by (simp add: restores_def base64.binary_encoder_axioms)
  then obtain ctx1 d where d: "ChainedEncoder_Decode (?in rng') (ctx, Some x, None, False) = (ctx1, d, None, False)" "or_empty d = y"
    using chain_restores e by blast
  show "\<exists>ctx' d. be_Decode (symmetric_chain v t rng' now') ctx x = (ctx', d, expiry now v now') \<and> or_empty d = data"
  proof (cases "0 < v")
    case True
    obtain ctx' where "chain_turn (be_Decode (ExpireEncoder now' v)) (ctx1, d, None, False) = (ctx', Some data, expiry now v now', False)"
      using expire_decode [OF assms(2) True d(2) [unfolded y_def if_P [OF True]], of now' ctx1] by blast
    then have "ChainedEncoder_Decode (ExpireEncoder now' v # ?in rng') (ctx, Some x, None, False) = (ctx', Some data, expiry now v now', False)"
      using d(1) by simp
    then show ?thesis using True by (simp add: symmetric_chain_def del: ChainedEncoder_Decode.simps)
  next
    case False
    then show ?thesis using d by (simp add: symmetric_chain_def y_def expiry_def expired_def del: ChainedEncoder_Decode.simps)
  qed
  obtain z where z: "Symmetric_EncodeWithAssociatedData rng t y [] = Inr z" "x = base64_encode z"
    using e by (auto simp: symmetric_def Base64UrlEncoder_def split: sum.splits)
  then have "NonceSize \<le> length z" using symmetric_aad(2) [OF assms(1) z(1)] by simp
  then show "6 \<le> length x" using base64_length [of z] by (simp add: z(2) NonceSize_def)
qed

text \<open>The same with associated data.\<close>

lemma symmetric_chain_token_aad:
  assumes "good_nonce t" "clock_ok now v" "ade_Encode (symmetric_chain v t rng now) data aad = Inr x" "aad \<noteq> []"
  shows "\<exists>ctx' d. ade_Decode (symmetric_chain v t rng' now') ctx x aad = (ctx', d, expiry now v now') \<and> or_empty d = data"
    and "x \<noteq> []"
proof -
  define y where "y = (if 0 < v then PutVarint (unix_of (Time_Add now v)) @ data else data)"
  obtain z where z: "Symmetric_EncodeWithAssociatedData rng t y aad = Inr z" "x = base64_encode z"
    using assms(3,4) by (auto simp: y_def symmetric_chain_def ExpireEncoder_def ExpireEncoder_Encode_def symmetric_def Base64UrlEncoder_def
        split: if_splits sum.splits)
  have "NonceSize \<le> length z" using symmetric_aad(2) [OF assms(1) z(1)] by simp
  then show "x \<noteq> []" using base64_length [of z] by (auto simp: z(2) NonceSize_def)
  obtain d where d: "Symmetric_DecodeWithAssociatedData t ctx z aad = (ctx, d, None)" "or_empty d = y"
    using symmetric_aad(1) [OF assms(1) z(1)] by blast
  have inner: "chain_ade_Decode [symmetric rng' t, Base64UrlEncoder] aad (ctx, Some x, None, False) = (ctx, d, None, False)"
    using d(1) by (simp add: chain_turn_def symmetric_def Base64UrlEncoder_def z(2) base64_decode_encode DecodedLen_encode)
  have sup: "list_ex SupportsAssociatedData [symmetric rng' t, Base64UrlEncoder]" by (simp add: symmetric_def)
  show "\<exists>ctx' d. ade_Decode (symmetric_chain v t rng' now') ctx x aad = (ctx', d, expiry now v now') \<and> or_empty d = data"
  proof (cases "0 < v")
    case True
    obtain ctx' where "chain_turn (be_Decode (ExpireEncoder now' v)) (ctx, d, None, False) = (ctx', Some data, expiry now v now', False)"
      using expire_decode [OF assms(2) True d(2) [unfolded y_def if_P [OF True]], of now' ctx] by blast
    moreover have "(\<lambda>ctx data. ade_Decode (ExpireEncoder now' v) ctx data aad) = be_Decode (ExpireEncoder now' v)"
      by (simp add: ExpireEncoder_def fun_eq_iff)
    ultimately have "chain_ade_Decode (ExpireEncoder now' v # [symmetric rng' t, Base64UrlEncoder]) aad (ctx, Some x, None, False) =
        (ctx', Some data, expiry now v now', False)" using inner by simp
    then show ?thesis using True sup by (simp add: symmetric_chain_def del: chain_ade_Decode.simps)
  next
    case False
    then show ?thesis using inner d(2) sup by (simp add: symmetric_chain_def y_def expiry_def expired_def del: chain_ade_Decode.simps)
  qed
qed

section \<open>The codecs\<close>

text \<open>What \<^verbatim>\<open>encoding/json\<close> documents, for the parameters at hand: a decode gives back what was encoded.\<close>

definition json_keeps :: "'v Marshaller \<Rightarrow> 'v \<Rightarrow> 'v \<Rightarrow> bool" where
  "json_keeps json fresh v \<longleftrightarrow> (case ma_Marshal json v of Inl _ \<Rightarrow> True | Inr b \<Rightarrow> ma_Unmarshal json b fresh = (v, None))"

lemma type_decode_keeps:
  assumes "json_keeps json fresh v" "ma_Marshal json v = Inr b" "or_empty d = b"
  shows "type_decode \<lparr>te_be = be, te_ma = json\<rparr> (ctx, d, None) fresh = (ctx, v, None)"
    and "\<exists>out. type_decode \<lparr>te_be = be, te_ma = json\<rparr> (ctx, d, Some e) fresh = (ctx, out, Some e)"
  using assms by (auto simp: type_decode_def json_keeps_def split: prod.splits)

lemma bytes_of_string_Nil [simp]: "string_of_bytes x = [] \<longleftrightarrow> x = []" "bytes_of_string s = [] \<longleftrightarrow> s = []"
  by (simp_all add: string_of_bytes_def bytes_of_string_def)

abbreviation json_encoder :: "'v Marshaller \<Rightarrow> time \<Rightarrow> SymmetricEncoder \<Rightarrow> rng \<Rightarrow> time \<Rightarrow> 'v TypeEncoder" where
  "json_encoder json v t rng now \<equiv> \<lparr>te_be = symmetric_chain v t rng now, te_ma = json\<rparr>"

lemma ParamsOnly_decode:
  assumes "good_nonce t" "clock_ok now v" "json_keeps json [] (encodeTokenParams params)"
    and "uc_Encode (TokenParamsOnlyCodec (json_encoder json v t rng now) name) key params = Inr (k, p)" "Values_Get p' name = Values_Get p name"
  shows "uc_Decode (TokenParamsOnlyCodec (json_encoder json v t rng' now') name) k' p' =
      (if expired now v now' then Inl ExpiredError else Inr (k', decodeTokenParams (encodeTokenParams params)))"
    and "k = key" "\<exists>x. x \<noteq> [] \<and> p = Values_Set name x []"
proof -
  obtain b x where b: "ma_Marshal json (encodeTokenParams params) = Inr b" "be_Encode (symmetric_chain v t rng now) b = Inr x"
    and kp: "k = key" "p = Values_Set name (string_of_bytes x) []"
    using assms(4) by (auto simp: TokenParamsOnlyCodec_def TypeEncoder_Encode_def split: sum.splits)
  have x: "x \<noteq> []" using symmetric_chain_token(2) [OF assms(1,2) b(2)] by auto
  show "k = key" by (rule kp(1))
  have "string_of_bytes x \<noteq> [] \<and> p = Values_Set name (string_of_bytes x) []" using kp x by simp
  then show "\<exists>x. x \<noteq> [] \<and> p = Values_Set name x []" by blast
  obtain ctx d where d: "be_Decode (symmetric_chain v t rng' now') Map.empty x = (ctx, d, expiry now v now')" "or_empty d = b"
    using symmetric_chain_token(1) [OF assms(1,2) b(2)] by blast
  have "Values_Get p' name = string_of_bytes x" unfolding assms(5) kp(2) by (simp add: Values_Get_def)
  then show "uc_Decode (TokenParamsOnlyCodec (json_encoder json v t rng' now') name) k' p' =
      (if expired now v now' then Inl ExpiredError else Inr (k', decodeTokenParams (encodeTokenParams params)))"
    using x d(1) type_decode_keeps(1) [OF assms(3) b(1) d(2), of "symmetric_chain v t rng' now'" ctx]
      type_decode_keeps(2) [OF assms(3) b(1) d(2), of "symmetric_chain v t rng' now'" ctx ExpiredError]
    by (auto simp: TokenParamsOnlyCodec_def param_token_def TypeEncoder_Decode_def expiry_def)
qed

lemma Key_decode:
  assumes "good_nonce t" "clock_ok now v" "uc_Encode (TokenKeyCodec (symmetric_chain v t rng now)) key params = Inr (k, p)"
  shows "uc_Decode (TokenKeyCodec (symmetric_chain v t rng' now')) k p' = (if expired now v now' then Inl ExpiredError else Inr (key, p'))"
    and "p = params" "6 \<le> length k"
proof -
  obtain x where x: "be_Encode (symmetric_chain v t rng now) (bytes_of_string key) = Inr x" "k = string_of_bytes x" "p = params"
    using assms(3) by (auto simp: TokenKeyCodec_def split: sum.splits)
  show "p = params" "6 \<le> length k" using x symmetric_chain_token(2) [OF assms(1,2) x(1)] by simp_all
  obtain ctx d where "be_Decode (symmetric_chain v t rng' now') Map.empty x = (ctx, d, expiry now v now')" "or_empty d = bytes_of_string key"
    using symmetric_chain_token(1) [OF assms(1,2) x(1)] by blast
  then show "uc_Decode (TokenKeyCodec (symmetric_chain v t rng' now')) k p' = (if expired now v now' then Inl ExpiredError else Inr (key, p'))"
    by (auto simp: TokenKeyCodec_def x(2) expiry_def)
qed

text \<open>The key-bound parameters and the path codec.\<close>

lemma Params_decode:
  assumes "good_nonce t" "clock_ok now v" "json_keeps json [] (encodeTokenParams params)"
    and "uc_Encode (TokenParamsCodec (json_encoder json v t rng now) name) key params = Inr (k, p)" "Values_Get p' name = Values_Get p name"
  shows "k = key \<and> uc_Decode (TokenParamsCodec (json_encoder json v t rng' now') name) k p' =
      (if expired now v now' then Inl ExpiredError else Inr (key, decodeTokenParams (encodeTokenParams params)))"
proof -
  let ?aad = "bytes_of_string key" and ?c = "symmetric_chain v t"
  let ?e = "TypeEncoder_EncodeWithAssociatedData (json_encoder json v t rng now) (encodeTokenParams params) ?aad"
  have "(case ?e of Inl err \<Rightarrow> Inl err | Inr raw \<Rightarrow> Inr (key, Values_Set name (string_of_bytes raw) [])) = Inr (k, p)"
    using assms(4) by (simp only: TokenParamsCodec_def URLCodec.simps)
  then obtain x where e: "?e = Inr x" and kp: "k = key" "p = Values_Set name (string_of_bytes x) []"
    by (cases ?e) simp_all
  obtain b where b: "ma_Marshal json (encodeTokenParams params) = Inr b" "EncodeWithAssociatedData (?c rng now) b ?aad = Inr x"
    using e by (cases "ma_Marshal json (encodeTokenParams params)") (simp_all add: TypeEncoder_EncodeWithAssociatedData_def)
  have s: "is_AssociatedDataEncoder (?c r n)" for r n by (simp add: symmetric_chain_def is_AssociatedDataEncoder_def)
  obtain ctx d where d: "DecodeWithAssociatedData (?c rng' now') Map.empty x ?aad = (ctx, d, expiry now v now')" "or_empty d = b"
    and x: "x \<noteq> []"
  proof (cases "key = []")
    case True
    then have e: "be_Encode (?c rng now) b = Inr x" using b(2) by (simp add: EncodeWithAssociatedData_def)
    obtain ctx d where "be_Decode (?c rng' now') Map.empty x = (ctx, d, expiry now v now')" "or_empty d = b"
      using symmetric_chain_token(1) [OF assms(1,2) e] by blast
    moreover have "x \<noteq> []" using symmetric_chain_token(2) [OF assms(1,2) e] by auto
    ultimately show ?thesis using True by (intro that [of ctx d]) (simp_all add: DecodeWithAssociatedData_def)
  next
    case False
    then have e: "ade_Encode (?c rng now) b ?aad = Inr x" "?aad \<noteq> []" using b(2) s by (simp_all add: EncodeWithAssociatedData_def)
    obtain ctx d where "ade_Decode (?c rng' now') Map.empty x ?aad = (ctx, d, expiry now v now')" "or_empty d = b"
      using symmetric_chain_token_aad(1) [OF assms(1,2) e] by blast
    then show ?thesis using False s symmetric_chain_token_aad(2) [OF assms(1,2) e]
      by (intro that [of ctx d]) (simp_all add: DecodeWithAssociatedData_def)
  qed
  have "Values_Get p' name = string_of_bytes x" unfolding assms(5) kp(2) by (simp add: Values_Get_def)
  then show ?thesis
    using kp(1) x d(1) type_decode_keeps(1) [OF assms(3) b(1) d(2), of "?c rng' now'" ctx]
      type_decode_keeps(2) [OF assms(3) b(1) d(2), of "?c rng' now'" ctx ExpiredError]
    by (auto simp: TokenParamsCodec_def param_token_def TypeEncoder_DecodeWithAssociatedData_def expiry_def)
qed

lemma Path_decode:
  assumes "good_nonce t" "clock_ok now v" "json_keeps json \<lparr>kp_Key = [], kp_Params = []\<rparr> \<lparr>kp_Key = key, kp_Params = encodeTokenParams params\<rparr>"
    and "uc_Encode (TokenPathCodec (json_encoder json v t rng now)) key params = Inr (k, p)"
  shows "uc_Decode (TokenPathCodec (json_encoder json v t rng' now')) k p' =
      (if expired now v now' then Inl ExpiredError else Inr (key, add_values p' (decodeTokenParams (encodeTokenParams params))))"
    and "p = []" "6 \<le> length k"
proof -
  obtain b x where b: "ma_Marshal json \<lparr>kp_Key = key, kp_Params = encodeTokenParams params\<rparr> = Inr b" "be_Encode (symmetric_chain v t rng now) b = Inr x"
    and kp: "k = string_of_bytes x" "p = []"
    using assms(4) by (auto simp: TokenPathCodec_def TypeEncoder_Encode_def split: sum.splits)
  show "p = []" "6 \<le> length k" using kp symmetric_chain_token(2) [OF assms(1,2) b(2)] by simp_all
  obtain ctx d where d: "be_Decode (symmetric_chain v t rng' now') Map.empty x = (ctx, d, expiry now v now')" "or_empty d = b"
    using symmetric_chain_token(1) [OF assms(1,2) b(2)] by blast
  then show "uc_Decode (TokenPathCodec (json_encoder json v t rng' now')) k p' =
      (if expired now v now' then Inl ExpiredError else Inr (key, add_values p' (decodeTokenParams (encodeTokenParams params))))"
    using kp(1) d(1) type_decode_keeps(1) [OF assms(3) b(1) d(2), of "symmetric_chain v t rng' now'" ctx]
      type_decode_keeps(2) [OF assms(3) b(1) d(2), of "symmetric_chain v t rng' now'" ctx ExpiredError]
    by (auto simp: TokenPathCodec_def TypeEncoder_Decode_def expiry_def)
qed

section \<open>The default codec\<close>

lemma NewTokenCodec_default:
  assumes "NewTokenCodec json new_gcm mods = Inr chain" "co_chain (NewTokenCodec_options mods) = []"
    "co_encoderFactory (NewTokenCodec_options mods) = None"
  shows "\<exists>t. good_nonce t \<and> chain = [\<lambda>rng now. TokenKeyCodec (symmetric_chain (co_validity (NewTokenCodec_options mods)) t rng now),
    \<lambda>rng now. TokenParamsOnlyCodec (json_encoder json (co_validity (NewTokenCodec_options mods)) t rng now) ''token'']"
proof -
  obtain opts where opts: "opts = NewTokenCodec_options mods" by simp
  obtain t where t: "BuildTokenEncoder new_gcm (co_rng opts)
      (TokenEncoderOptions_Apply [Some (WithEncoderValidity (co_validity opts)), Some (WithEncoderSetters (co_setters opts))]) =
      Inr (symmetric_chain (co_validity opts) t)" "good_nonce t"
    using assms NewSymmetricEncoder_good_nonce unfolding opts [symmetric]
    by (auto simp: NewTokenCodec_def opts [symmetric] BuildTokenEncoder_def TokenEncoderOptions_Apply_def WithEncoderValidity_def WithEncoderSetters_def
        split: if_splits option.splits sum.splits)
  then show ?thesis using assms unfolding opts [symmetric]
    by (auto simp: NewTokenCodec_def opts [symmetric] NewTokenKeyCodec_def NewTokenParamsOnlyCodec_def newTokenTypeEncoder_def BuildTokenEncoder_def
        TokenEncoderOptions_Apply_def WithEncoder_def normalizeTokenParamName_def split: if_splits)
qed

text \<open>C22: A URL made by the default token codec, whatever the options it was made with, decodes while it is valid to the key and,
  for every name, the values it was made of, and after that to \<open>ExpiredError\<close>; nothing that is added to the query besides the
  token, or taken from it, changes this.\<close>

theorem token_codec_roundtrip:
  assumes "NewTokenCodec json new_gcm mods = Inr chain" "co_chain (NewTokenCodec_options mods) = []"
    "co_encoderFactory (NewTokenCodec_options mods) = None"
    and "uc_Encode (chain_at chain [(r1, t1), (r2, t2)]) key params = Inr (k, p)"
    and "wf_values params" "json_keeps json [] (encodeTokenParams params)"
    and "clock_ok t1 (co_validity (NewTokenCodec_options mods))" "clock_ok t2 (co_validity (NewTokenCodec_options mods))"
    and "Values_Get p' ''token'' = Values_Get p ''token''"
  shows "\<exists>q. uc_Decode (chain_at chain [(r1', u1), (r2', u2)]) k p' =
      (if expired t1 (co_validity (NewTokenCodec_options mods)) u1 \<or> expired t2 (co_validity (NewTokenCodec_options mods)) u2
       then Inl ExpiredError else Inr (key, q)) \<and> same_values params q"
proof -
  let ?v = "co_validity (NewTokenCodec_options mods)"
  obtain t where t: "good_nonce t" "chain = [\<lambda>rng now. TokenKeyCodec (symmetric_chain ?v t rng now),
      \<lambda>rng now. TokenParamsOnlyCodec (json_encoder json ?v t rng now) ''token'']" using NewTokenCodec_default [OF assms(1-3)] by blast
  obtain k1 p1 where 1: "uc_Encode (TokenKeyCodec (symmetric_chain ?v t r1 t1)) key params = Inr (k1, p1)"
    "uc_Encode (TokenParamsOnlyCodec (json_encoder json ?v t r2 t2) ''token'') k1 p1 = Inr (k, p)"
    using assms(4) by (auto simp: t(2) chain_at_def TokenCodec_def split: sum.splits)
  note a = Key_decode [OF t(1) assms(7) 1(1)]
  note b = ParamsOnly_decode [OF t(1) assms(8) assms(6) 1(2) [unfolded a(2)] assms(9)]
  show ?thesis using a(1) b(1) b(2) same_params [OF assms(5)] by (auto simp: t(2) chain_at_def TokenCodec_def)
qed

text \<open>While its tokens are valid it is a codec.\<close>

lemma default_url_codec:
  assumes "NewTokenCodec json new_gcm mods = Inr chain" "co_chain (NewTokenCodec_options mods) = []"
    "co_encoderFactory (NewTokenCodec_options mods) = None"
    and c: "clock_ok t1 (co_validity (NewTokenCodec_options mods))" "clock_ok t2 (co_validity (NewTokenCodec_options mods))"
    and "\<not> expired t1 (co_validity (NewTokenCodec_options mods)) u1" "\<not> expired t2 (co_validity (NewTokenCodec_options mods)) u2"
  shows "url_codec (\<lambda>key params. json_keeps json [] (encodeTokenParams params))
    (chain_at chain [(r1, t1), (r2, t2)]) (chain_at chain [(r1', u1), (r2', u2)])"
proof
  fix key params k p
  assume f: "json_keeps json [] (encodeTokenParams params)" "wf_values params"
    and e: "uc_Encode (chain_at chain [(r1, t1), (r2, t2)]) key params = Inr (k, p)"
  let ?v = "co_validity (NewTokenCodec_options mods)"
  obtain t where t: "good_nonce t" "chain = [\<lambda>rng now. TokenKeyCodec (symmetric_chain ?v t rng now),
      \<lambda>rng now. TokenParamsOnlyCodec (json_encoder json ?v t rng now) ''token'']" using NewTokenCodec_default [OF assms(1-3)] by blast
  obtain k1 p1 where 1: "uc_Encode (TokenKeyCodec (symmetric_chain ?v t r1 t1)) key params = Inr (k1, p1)"
    "uc_Encode (TokenParamsOnlyCodec (json_encoder json ?v t r2 t2) ''token'') k1 p1 = Inr (k, p)"
    using e by (auto simp: t(2) chain_at_def TokenCodec_def split: sum.splits)
  note a = Key_decode [OF t(1) c(1) 1(1)]
  note b = ParamsOnly_decode [OF t(1) c(2) f(1) 1(2) [unfolded a(2)]]
  show "wf_values p" using b(3) [OF refl] by auto
  show "\<not> special_part k" using a(3) b(2) [OF refl] by (auto simp: special_part_def)
  show "\<exists>q. uc_Decode (chain_at chain [(r1', u1), (r2', u2)]) k p' = Inr (key, q) \<and> same_values params q" if "same_values p p'" for p'
  proof -
    obtain x where "p = Values_Set ''token'' x []" using b(3) [OF refl] by blast
    then have g: "Values_Get p' ''token'' = Values_Get p ''token''" using that by (intro Get_same) simp_all
    show ?thesis using a(1) b(1) [OF g] b(2) [OF g] same_params [OF f(2)] assms(6,7)
      by (simp add: t(2) chain_at_def TokenCodec_def)
  qed
qed

text \<open>A marshaller for the witness: the number of strings of each entry, then the strings, each after its length.\<close>

definition demo_text :: "string \<Rightarrow> bytes" where
  "demo_text s = of_nat (length s) # bytes_of_string s"

fun demo_texts :: "nat \<Rightarrow> bytes \<Rightarrow> string list \<times> bytes" where
  "demo_texts 0 b = ([], b)"
| "demo_texts (Suc n) b =
    (case b of [] \<Rightarrow> ([], []) | l # r \<Rightarrow>
       let (ss, r') = demo_texts n (drop (unat l) r) in (string_of_bytes (take (unat l) r) # ss, r'))"

fun demo_entries :: "nat \<Rightarrow> bytes \<Rightarrow> tokenParamEntry list" where
  "demo_entries 0 b = []"
| "demo_entries (Suc k) b =
    (case b of [] \<Rightarrow> [] | n # r \<Rightarrow>
       let (ss, r') = demo_texts (unat n) r in \<lparr>tp_Key = hd ss, tp_Values = tl ss\<rparr> # demo_entries k r')"

definition demo_params_json :: "tokenParamEntry list Marshaller" where
  "demo_params_json =
    \<lparr>ma_Marshal = (\<lambda>es. Inr (concat (map (\<lambda>e. of_nat (Suc (length (tp_Values e))) # concat (map demo_text (tp_Key e # tp_Values e))) es))),
     ma_Unmarshal = (\<lambda>b fresh. (demo_entries (length b) b, None))\<rparr>"

definition demo_params :: url_values where
  "demo_params = [(''filename'', [''a.txt''])]"

definition demo_mods :: "TokenCodecOption option list" where
  "demo_mods = [Some (WithTokenRand (Some (\<lambda>n. Inr (replicate n 7)))), Some (WithTokenValidity 60000000000), None]"

theorem token_codec_roundtrip_witness:
  "\<exists>chain k p q. NewTokenCodec demo_params_json (\<lambda>key. Inr (Abs_aead tag_cipher)) demo_mods = Inr chain \<and>
    uc_Decode (chain_at chain [(None, 1030000000000), (None, 1030000000000)]) k (Values_Set ''filename'' ''evil'' p) = Inr (''a/b'', q) \<and>
    vals q ''filename'' = [''a.txt''] \<and>
    uc_Decode (chain_at chain [(None, 2000000000000), (None, 2000000000000)]) k p = Inl ExpiredError"
proof -
  let ?gcm = "\<lambda>key. Inr (Abs_aead tag_cipher) :: token_error + aead" and ?rng = "Some (\<lambda>n. Inr (replicate n (7 :: byte)))"
  let ?t = "\<lparr>se_key = replicate 32 7, se_cipher = Abs_aead tag_cipher, se_nonce = None\<rparr>"
  have o: "NewTokenCodec_options demo_mods = \<lparr>co_validity = 60000000000, co_setters = [], co_rng = ?rng, co_chain = [], co_encoderFactory = None\<rparr>"
    by (simp add: NewTokenCodec_options_def demo_mods_def WithTokenRand_def WithTokenValidity_def)
  have b: "BuildTokenEncoder ?gcm ?rng (TokenEncoderOptions_Apply [Some (WithEncoderValidity 60000000000), Some (WithEncoderSetters [])]) =
      Inr (symmetric_chain 60000000000 ?t)"
    by (simp add: BuildTokenEncoder_def TokenEncoderOptions_Apply_def WithEncoderValidity_def WithEncoderSetters_def NewSymmetricEncoder_def
        WithGeneratedSymmetricKey_def GenerateSymmetricKey_def UseSymmetricKey_def)
  obtain chain where c: "NewTokenCodec demo_params_json ?gcm demo_mods = Inr chain"
    by (simp add: NewTokenCodec_def o b NewTokenKeyCodec_def NewTokenParamsOnlyCodec_def newTokenTypeEncoder_def
        BuildTokenEncoder_def [of _ None] TokenEncoderOptions_Apply_def [of "[Some (WithEncoder _)]"] WithEncoder_def)
  have co: "co_chain (NewTokenCodec_options demo_mods) = []" "co_encoderFactory (NewTokenCodec_options demo_mods) = None" by (simp_all add: o)
  obtain t where t: "good_nonce t" "chain = [\<lambda>rng now. TokenKeyCodec (symmetric_chain 60000000000 t rng now),
      \<lambda>rng now. TokenParamsOnlyCodec (json_encoder demo_params_json 60000000000 t rng now) ''token'']"
    using NewTokenCodec_default [OF c co] by (auto simp: o)
  let ?r = "(?rng, 1000000000000) :: rng \<times> time"
  have "\<exists>x. be_Encode (symmetric_chain 60000000000 t ?rng 1000000000000) data = Inr x" for data
    by (simp add: symmetric_chain_def ExpireEncoder_def ExpireEncoder_Encode_def symmetric_def Symmetric_EncodeWithAssociatedData_def
        RandomSymmetricNonce_def Base64UrlEncoder_def)
  then have "\<exists>kp. uc_Encode (chain_at chain [?r, ?r]) ''a/b'' demo_params = Inr kp"
    by (simp add: t(2) chain_at_def TokenCodec_def TokenKeyCodec_def TokenParamsOnlyCodec_def TypeEncoder_Encode_def demo_params_json_def split: sum.splits)
      (metis old.sum.distinct(1))
  then obtain k p where e: "uc_Encode (chain_at chain [?r, ?r]) ''a/b'' demo_params = Inr (k, p)" by auto
  have w: "wf_values demo_params" "json_keeps demo_params_json [] (encodeTokenParams demo_params)" by code_simp+
  have cl: "clock_ok 1000000000000 (co_validity (NewTokenCodec_options demo_mods))"
    by (simp add: o clock_ok_def representable_def unix_of_def)
  have g: "Values_Get (Values_Set ''filename'' ''evil'' p) ''token'' = Values_Get p ''token''" by (simp add: Values_Get_def)
  note rt = token_codec_roundtrip [OF c co e w cl cl]
  obtain q where q: "uc_Decode (chain_at chain [(None, 1030000000000), (None, 1030000000000)]) k (Values_Set ''filename'' ''evil'' p) = Inr (''a/b'', q)"
    "same_values demo_params q"
    using rt [OF g, of None 1030000000000 None 1030000000000] by (auto simp: o expired_def seconds_of_def unix_of_def)
  have "mset (vals q ''filename'') = {#''a.txt''#}" using q(2) by (auto simp: same_values_def demo_params_def vals_def dest: spec [of _ "''filename''"])
  then have "vals q ''filename'' = [''a.txt'']" by (cases "vals q ''filename''") auto
  moreover have "uc_Decode (chain_at chain [(None, 2000000000000), (None, 2000000000000)]) k p = Inl ExpiredError"
    using rt [OF refl, of None 2000000000000 None 2000000000000] by (simp add: o expired_def seconds_of_def unix_of_def)
  ultimately show ?thesis using c q(1) by blast
qed

end
