(* ===== verification/Blob_Serve.thy ===== *)
theory Blob_Serve imports Blob_Meta Blob_Codec_Props begin

text \<open>
  The store that hands out URLs to upload and download blobs and serves them (\<^verbatim>\<open>lib/config/blob/serve.go\<close>, the options of
  \<^verbatim>\<open>blob.go\<close>), over any stream loader and URL codec. A request carries the path and the query of its URL; the mime types
  of the standard library, and how it guesses the type of a content, are arguments. A handler returns the writes to its
  response, in order, of the headers only the two that carry metadata; requests are unconditional. \<^const>\<open>None\<close> is a handler that never returns.
\<close>

section \<open>Stream loaders\<close>

record ('l, 'r, 'w) StreamLoader =
  sl_List :: "'l \<Rightarrow> cfg_error + string list"
  sl_Reader :: "'l \<Rightarrow> string \<Rightarrow> cfg_error + 'r"
  sl_reads :: "'r ReadSeeker"
  sl_seeks :: bool
  sl_Writer :: "'l \<Rightarrow> string \<Rightarrow> (cfg_error + 'w) \<times> 'l"
  sl_Write :: "bytes \<Rightarrow> 'w \<Rightarrow> 'l \<Rightarrow> cfg_error option \<times> 'w \<times> 'l"
  sl_WriterClose :: "'w \<Rightarrow> 'l \<Rightarrow> cfg_error option \<times> 'l"
  sl_Delete :: "'l \<Rightarrow> string \<Rightarrow> cfg_error option \<times> 'l"
  sl_Close :: "'l \<Rightarrow> cfg_error option \<times> 'l"

section \<open>Options and URLs\<close>

record transferOptions =
  to_Filename :: string
  to_ContentType :: string

type_synonym TransferOption = "transferOptions \<Rightarrow> transferOptions"

definition TransferOptions_Apply :: "TransferOption option list \<Rightarrow> transferOptions" where
  "TransferOptions_Apply opts =
    foldl (\<lambda>o' m. case m of None \<Rightarrow> o' | Some f \<Rightarrow> f o') \<lparr>to_Filename = [], to_ContentType = []\<rparr> opts"

definition WithFilename :: "string \<Rightarrow> TransferOption" where
  "WithFilename name o' = o'\<lparr>to_Filename := name\<rparr>"

definition WithContentType :: "string \<Rightarrow> TransferOption" where
  "WithContentType contentType o' = o'\<lparr>to_ContentType := contentType\<rparr>"

definition queryFilename :: string where "queryFilename = ''filename''"
definition queryContentType :: string where "queryContentType = ''content-type''"

definition encodeTransferOptions :: "transferOptions \<Rightarrow> url_values" where
  "encodeTransferOptions opts =
    (let values = (if to_Filename opts \<noteq> [] then Values_Set queryFilename (to_Filename opts) [] else [])
     in if to_ContentType opts \<noteq> [] then Values_Set queryContentType (to_ContentType opts) values else values)"

definition decodeTransferOptions :: "url_values \<Rightarrow> transferOptions" where
  "decodeTransferOptions values = \<lparr>to_Filename = Values_Get values queryFilename, to_ContentType = Values_Get values queryContentType\<rparr>"

text \<open>The parts of a \<^verbatim>\<open>url.URL\<close> that differ from one URL of the store to another.\<close>

record url =
  url_Path :: string
  url_RawQuery :: string

record ('l, 'r, 'w) ServeStore =
  sv_loader :: "('l, 'r, 'w) StreamLoader"
  sv_baseURL :: url
  sv_prefix :: string
  sv_downloadPrefix :: string
  sv_uploadPrefix :: string
  sv_metadata :: MetadataStore

definition defaultPrefix :: string where "defaultPrefix = ''/blobs/''"

definition normalizePrefix :: "string \<Rightarrow> string" where
  "normalizePrefix prefix =
    (let normalized = TrimSpace prefix;
         normalized = (if normalized = [] then defaultPrefix else normalized);
         normalized = (if \<not> HasPrefix normalized ''/'' then ''/'' @ normalized else normalized);
         normalized = (if \<not> HasSuffix normalized ''/'' then normalized @ ''/'' else normalized)
     in CleanPreserve normalized)"

definition NewServeStore :: "('l, 'r, 'w) StreamLoader \<Rightarrow> url \<Rightarrow> string \<Rightarrow> MetadataStore \<Rightarrow> ('l, 'r, 'w) ServeStore" where
  "NewServeStore ld baseURL prefix meta =
    (let normalized = normalizePrefix prefix in
     \<lparr>sv_loader = ld, sv_baseURL = baseURL, sv_prefix = normalized,
      sv_downloadPrefix = JoinPreserve [normalized, ''download/''], sv_uploadPrefix = JoinPreserve [normalized, ''upload/''],
      sv_metadata = meta\<rparr>)"

definition buildURL :: "('l, 'r, 'w) ServeStore \<Rightarrow> string \<Rightarrow> url_values \<Rightarrow> url" where
  "buildURL s path params =
    (let u = sv_baseURL s; u = u\<lparr>url_Path := JoinPreserve [url_Path u, path]\<rparr>
     in if params \<noteq> [] then u\<lparr>url_RawQuery := Values_Encode params\<rparr> else u)"

definition transferURL :: "string \<Rightarrow> URLCodec \<Rightarrow> ('l, 'r, 'w) ServeStore \<Rightarrow> string \<Rightarrow> transferOptions \<Rightarrow> token_error + url" where
  "transferURL prefix codec s key opts =
    (case uc_Encode codec key (encodeTransferOptions opts) of
       Inl err \<Rightarrow> Inl err
     | Inr (encoded, encodedParams) \<Rightarrow> Inr (buildURL s (JoinPreserve [prefix, PathEscape encoded]) encodedParams))"

definition DownloadURL :: "URLCodec \<Rightarrow> ('l, 'r, 'w) ServeStore \<Rightarrow> string \<Rightarrow> transferOptions \<Rightarrow> token_error + url" where
  "DownloadURL codec s = transferURL (sv_downloadPrefix s) codec s"

definition UploadURL :: "URLCodec \<Rightarrow> ('l, 'r, 'w) ServeStore \<Rightarrow> string \<Rightarrow> transferOptions \<Rightarrow> token_error + url" where
  "UploadURL codec s = transferURL (sv_uploadPrefix s) codec s"

definition ServeStore_List :: "('l, 'r, 'w) ServeStore \<Rightarrow> 'l \<Rightarrow> cfg_error + string list" where
  "ServeStore_List s l = sl_List (sv_loader s) l"

definition ServeStore_Delete :: "('l, 'r, 'w) ServeStore \<Rightarrow> string \<Rightarrow> 'l \<Rightarrow> cfg_error option \<times> 'l" where
  "ServeStore_Delete s key l = sl_Delete (sv_loader s) l key"

definition ServeStore_Close :: "('l, 'r, 'w) ServeStore \<Rightarrow> 'l \<Rightarrow> cfg_error option \<times> 'l" where
  "ServeStore_Close s l = sl_Close (sv_loader s) l"

definition parseKey :: "string \<Rightarrow> string \<Rightarrow> string option" where
  "parseKey path prefix =
    (let cleaned = CleanPreserve path in
     if \<not> HasPrefix cleaned prefix then None
     else let keyEscaped = TrimPrefix cleaned prefix in
       if keyEscaped = [] then None else PathUnescape keyEscaped)"

section \<open>Requests and answers\<close>

text \<open>The body arrives in chunks, and may end in an error. A range is the first and last byte asked for.\<close>

record request =
  bq_Method :: string
  bq_Path :: string
  bq_RawQuery :: string
  bq_ContentType :: string
  bq_Disposition :: string
  bq_Body :: "bytes list"
  bq_BodyError :: "cfg_error option"
  bq_Range :: "(nat \<times> nat) option"

datatype answer = HttpError nat | ContentType string | ContentDisposition string | WriteHeader nat | WriteBody bytes

record mime =
  mi_filename :: "string \<Rightarrow> string option"
  mi_attachment :: "string \<Rightarrow> string"
  mi_detect :: "bytes \<Rightarrow> string"

section \<open>http.ServeContent\<close>

text \<open>\<^verbatim>\<open>io.CopyN\<close>, and \<^verbatim>\<open>io.Copy\<close> to the end: what is copied, and the error that stopped it.\<close>

partial_function (option) CopyN :: "'r ReadSeeker \<Rightarrow> nat \<Rightarrow> bytes \<Rightarrow> 'r \<Rightarrow> (bytes \<times> 'r) option" where
  "CopyN ops n got r =
    (if n \<le> length got then Some (got, r)
     else case rs_Read ops (n - length got) r of (Inl err, r) \<Rightarrow> Some (got, r) | (Inr chunk, r) \<Rightarrow> CopyN ops n (got @ chunk) r)"

partial_function (option) Copy :: "'r ReadSeeker \<Rightarrow> bytes \<Rightarrow> 'r \<Rightarrow> (bytes \<times> cfg_error option) option" where
  "Copy ops got r =
    (case rs_Read ops 32768 r of
       (Inl err, r) \<Rightarrow> Some (got, if err = EOF then None else Some err)
     | (Inr chunk, r) \<Rightarrow> Copy ops (got @ chunk) r)"

definition sniffLen :: nat where "sniffLen = 512"

text \<open>The code, the first byte and the number of bytes to send.\<close>

definition choose_range :: "(nat \<times> nat) option \<Rightarrow> int \<Rightarrow> (nat \<times> int \<times> int) option" where
  "choose_range wanted sz =
    (case wanted of
       None \<Rightarrow> Some (200, 0, sz)
     | Some (from, until) \<Rightarrow>
       if sz \<le> int from then (if sz = 0 then Some (200, 0, sz) else None)
       else if until < from then None
       else Some (206, int from, min (int until) (sz - 1) - int from + 1))"

definition send_content :: "'r ReadSeeker \<Rightarrow> string \<Rightarrow> (nat \<times> nat) option \<Rightarrow> int \<Rightarrow> 'r \<Rightarrow> answer list option" where
  "send_content ops Method wanted sz content =
    (case choose_range wanted sz of
       None \<Rightarrow> Some [HttpError 416]
     | Some (code, start, sendSize) \<Rightarrow>
       (case (if code = 206 then rs_Seek ops start SeekStart content else ((0, None), content)) of
          ((_, Some err), _) \<Rightarrow> Some [HttpError 416]
        | ((_, None), content) \<Rightarrow>
          if Method = ''HEAD'' then Some [WriteHeader code]
          else map_option (\<lambda>(got, _). [WriteHeader code, WriteBody got]) (CopyN ops (nat sendSize) [] content)))"

definition ServeContent :: "mime \<Rightarrow> 'r ReadSeeker \<Rightarrow> string \<Rightarrow> (nat \<times> nat) option \<Rightarrow> bool \<Rightarrow> 'r \<Rightarrow> answer list option" where
  "ServeContent mi ops Method wanted has_type content =
    (case rs_Seek ops 0 SeekEnd content of
       ((_, Some err), _) \<Rightarrow> Some [HttpError 500]
     | ((sz, None), content) \<Rightarrow>
       (case rs_Seek ops 0 SeekStart content of
          ((_, Some err), _) \<Rightarrow> Some [HttpError 500]
        | ((_, None), content) \<Rightarrow>
          if has_type then send_content ops Method wanted sz content
          else (case CopyN ops sniffLen [] content of
              None \<Rightarrow> None
            | Some (buf, content) \<Rightarrow>
              (case rs_Seek ops 0 SeekStart content of
                 ((_, Some err), _) \<Rightarrow> Some [HttpError 500]
               | ((_, None), content) \<Rightarrow>
                 map_option (\<lambda>ws. ContentType (mi_detect mi buf) # ws) (send_content ops Method wanted sz content)))))"

section \<open>The handlers\<close>

definition error_code :: "cfg_error \<Rightarrow> nat" where
  "error_code err = (if IsNotExist err then 404 else 500)"

definition handleDownload :: "mime \<Rightarrow> Metadata Marshaller \<Rightarrow> URLCodec \<Rightarrow> ('l, 'r, 'w) ServeStore \<Rightarrow> request \<Rightarrow> 'l \<Rightarrow> answer list option" where
  "handleDownload mi json codec s r l =
    (if bq_Method r \<noteq> ''GET'' \<and> bq_Method r \<noteq> ''HEAD'' then Some [HttpError 405]
     else case parseKey (bq_Path r) (sv_downloadPrefix s) of
       None \<Rightarrow> Some [HttpError 400]
     | Some encodedKey \<Rightarrow>
       (case uc_Decode codec encodedKey (URL_Query (bq_RawQuery r)) of
          Inl err \<Rightarrow> Some [HttpError 400]
        | Inr (key, params) \<Rightarrow>
          let overrides = decodeTransferOptions params in
          (case sl_Reader (sv_loader s) l key of
             Inl err \<Rightarrow> Some [HttpError (error_code err)]
           | Inr reader \<Rightarrow>
             (case WrapReader (sv_metadata s) json (sl_reads (sv_loader s)) (sl_seeks (sv_loader s)) reader \<lparr>md_Filename = [], md_ContentType = []\<rparr> of
                None \<Rightarrow> None
              | Some (Inl err, meta) \<Rightarrow> Some [HttpError 500]
              | Some (Inr data, meta) \<Rightarrow>
                let name = (if to_Filename overrides \<noteq> [] then to_Filename overrides else md_Filename meta);
                    ctype = (if to_ContentType overrides \<noteq> [] then to_ContentType overrides else md_ContentType meta);
                    headers = (if ctype \<noteq> [] then [ContentType ctype] else []) @
                      (if name \<noteq> [] then [ContentDisposition (mi_attachment mi name)] else []);
                    ops = data_ops (sl_reads (sv_loader s))
                in if sl_seeks (sv_loader s)
                   then map_option (\<lambda>ws. headers @ ws) (ServeContent mi ops (bq_Method r) (bq_Range r) (ctype \<noteq> []) data)
                   else if bq_Method r = ''HEAD'' then Some (headers @ [WriteHeader 200])
                   else map_option (\<lambda>(got, err). headers @ [WriteBody got] @ (if err = None then [] else [HttpError 500]))
                     (Copy ops [] data)))))"

text \<open>\<^verbatim>\<open>io.Copy\<close> of a request body to a writer.\<close>

fun copy_body :: "('l, 'r, 'w) StreamLoader \<Rightarrow> bytes list \<Rightarrow> cfg_error option \<Rightarrow> 'w \<Rightarrow> 'l \<Rightarrow> cfg_error option \<times> 'w \<times> 'l" where
  "copy_body sl [] end' w l = (end', w, l)"
| "copy_body sl (chunk # chunks) end' w l =
    (case sl_Write sl chunk w l of (Some err, w, l) \<Rightarrow> (Some err, w, l) | (None, w, l) \<Rightarrow> copy_body sl chunks end' w l)"

definition upload_metadata :: "mime \<Rightarrow> transferOptions \<Rightarrow> request \<Rightarrow> Metadata" where
  "upload_metadata mi queryOpts r =
    \<lparr>md_Filename = (if to_Filename queryOpts \<noteq> [] then to_Filename queryOpts
       else if bq_Disposition r = [] then [] else (case mi_filename mi (bq_Disposition r) of None \<Rightarrow> [] | Some name \<Rightarrow> name)),
     md_ContentType = (if to_ContentType queryOpts \<noteq> [] then to_ContentType queryOpts else bq_ContentType r)\<rparr>"

text \<open>What is written to the writer, up to the deferred \<^verbatim>\<open>Close\<close>, whose error is dropped.\<close>

definition upload_body :: "MetadataStore \<Rightarrow> Metadata Marshaller \<Rightarrow> ('l, 'r, 'w) StreamLoader \<Rightarrow> Metadata \<Rightarrow> request \<Rightarrow> 'w \<Rightarrow> 'l \<Rightarrow> answer list \<times> 'w \<times> 'l" where
  "upload_body store json sl meta r w l =
    (case WrapWriter store json meta of
       Inl err \<Rightarrow> ([HttpError 500], w, l)
     | Inr header \<Rightarrow>
       (case (if store = InlineMetadata then sl_Write sl header w l else (None, w, l)) of
          (Some err, w, l) \<Rightarrow> ([HttpError 500], w, l)
        | (None, w, l) \<Rightarrow>
          (case copy_body sl (bq_Body r) (bq_BodyError r) w l of
             (Some err, w, l) \<Rightarrow> ([HttpError 500], w, l)
           | (None, w, l) \<Rightarrow> ([WriteHeader 200], w, l))))"

definition handleUpload :: "mime \<Rightarrow> Metadata Marshaller \<Rightarrow> URLCodec \<Rightarrow> ('l, 'r, 'w) ServeStore \<Rightarrow> request \<Rightarrow> 'l \<Rightarrow> answer list \<times> 'l" where
  "handleUpload mi json codec s r l =
    (if bq_Method r \<noteq> ''PUT'' \<and> bq_Method r \<noteq> ''POST'' then ([HttpError 405], l)
     else case parseKey (bq_Path r) (sv_uploadPrefix s) of
       None \<Rightarrow> ([HttpError 400], l)
     | Some encodedKey \<Rightarrow>
       (case uc_Decode codec encodedKey (URL_Query (bq_RawQuery r)) of
          Inl err \<Rightarrow> ([HttpError 400], l)
        | Inr (key, params) \<Rightarrow>
          let queryOpts = decodeTransferOptions params in
          (case sl_Writer (sv_loader s) l key of
             (Inl err, l) \<Rightarrow> ([HttpError 500], l)
           | (Inr w, l) \<Rightarrow>
             (case upload_body (sv_metadata s) json (sv_loader s) (upload_metadata mi queryOpts r) r w l of
                (ws, w, l) \<Rightarrow> (ws, snd (sl_WriterClose (sv_loader s) w l))))))"

section \<open>The in-memory loader\<close>

definition memory_stream :: "(memory_Loader, bytes_Reader, memoryWriter) StreamLoader" where
  "memory_stream =
    \<lparr>sl_List = (\<lambda>m. fst (the (memory_List ([] :: (unit, unit) ListModifier list) m ()))),
     sl_Reader = (\<lambda>m name. map_sum id bytes_NewReader (memory_Reader m name)),
     sl_reads = bytes_ops,
     sl_seeks = True,
     sl_Writer = (\<lambda>m name. (Inr (memory_Writer name), m)),
     sl_Write = (\<lambda>p w m. case memoryWriter_Write w p of (Inl err, w) \<Rightarrow> (Some err, w, m) | (Inr _, w) \<Rightarrow> (None, w, m)),
     sl_WriterClose = (\<lambda>w m. (None, snd (memoryWriter_Close w m))),
     sl_Delete = (\<lambda>m name. memory_Delete m name),
     sl_Close = (\<lambda>m. (None, m))\<rparr>"

end
