(* ===== verification/Blob_Workspace.thy ===== *)
theory Blob_Workspace imports Blob_Serve Config_Namespaces begin

text \<open>
  Namespaces over a flat blob store (\<^verbatim>\<open>lib/config/blob/workspace.go\<close>), the scopes that name them (\<^verbatim>\<open>scope.go\<close>), and the store that
  escapes its keys (\<^verbatim>\<open>codec_store.go\<close>). The \<^verbatim>\<open>Store\<close> interface of \<^verbatim>\<open>blob.go\<close> is a record of operations on the state of the
  backend, as \<^verbatim>\<open>StreamLoader\<close> is: a store that a workspace opens is other operations on the same state.
\<close>

section \<open>Prefixes\<close>

definition trim_slashes :: "string \<Rightarrow> string" where
  "trim_slashes s = trim_right (\<lambda>c. c = CHR ''/'') (dropWhile (\<lambda>c. c = CHR ''/'') s)"

definition scopePrefix :: "string \<Rightarrow> string list \<Rightarrow> cfg_error + string" where
  "scopePrefix name namespace =
    (let name = trim_slashes name in
     if name = [] then Inl (Failed ''blob store name cannot be empty'')
     else let parts = name # filter (\<lambda>ns. ns \<noteq> []) (map trim_slashes namespace) in Inr (Join parts ''/'' @ ''/''))"

definition scopeName :: "string \<Rightarrow> string list \<Rightarrow> string" where
  "scopeName name namespace = (case scopePrefix name namespace of Inl err \<Rightarrow> name | Inr prefix \<Rightarrow> TrimSuffix prefix ''/'')"

definition stripScopePrefix :: "string \<Rightarrow> string \<Rightarrow> string option" where
  "stripScopePrefix prefix key =
    (if prefix = [] then Some key else if \<not> HasPrefix key prefix then None else Some (TrimPrefix key prefix))"

text \<open>The loop of both listings.\<close>

definition relative_keys :: "string \<Rightarrow> string list \<Rightarrow> string list" where
  "relative_keys prefix keys =
    List.map_filter (\<lambda>key. case stripScopePrefix prefix key of None \<Rightarrow> None | Some rel \<Rightarrow> if rel = [] then None else Some rel) keys"

section \<open>Stream loaders with a prefix\<close>

text \<open>\<^verbatim>\<open>io.ReadAll\<close>: \<open>room\<close> is how much the buffer can take, which the runtime decides from what it holds.\<close>

partial_function (option) ReadAll :: "(nat \<Rightarrow> nat) \<Rightarrow> 'r ReadSeeker \<Rightarrow> bytes \<Rightarrow> 'r \<Rightarrow> (cfg_error + bytes) option" where
  "ReadAll room ops got r =
    (case rs_Read ops (room (length got)) r of
       (Inl err, r) \<Rightarrow> Some (if err = EOF then Inr got else Inl err)
     | (Inr chunk, r) \<Rightarrow> ReadAll room ops (got @ chunk) r)"

definition prefixed_stream :: "string \<Rightarrow> ('l, 'r, 'w) StreamLoader \<Rightarrow> ('l, 'r, 'w) StreamLoader" where
  "prefixed_stream prefix sl =
    \<lparr>sl_List = (\<lambda>l. map_sum id (relative_keys prefix) (sl_List sl l)),
     sl_Reader = (\<lambda>l name. sl_Reader sl l (prefix @ name)), sl_reads = sl_reads sl, sl_seeks = sl_seeks sl,
     sl_Writer = (\<lambda>l name. sl_Writer sl l (prefix @ name)), sl_Write = sl_Write sl, sl_WriterClose = sl_WriterClose sl,
     sl_Delete = (\<lambda>l name. sl_Delete sl l (prefix @ name)), sl_Close = (\<lambda>l. (None, l))\<rparr>"

text \<open>It reads and writes whole blobs with its own \<^verbatim>\<open>Reader\<close> and \<^verbatim>\<open>Writer\<close>: \<open>ld\<close> is the prefixed loader.\<close>

definition stream_Read :: "(nat \<Rightarrow> nat) \<Rightarrow> ('l, 'r, 'w) StreamLoader \<Rightarrow> 'l \<Rightarrow> string \<Rightarrow> (cfg_error + bytes) option" where
  "stream_Read room ld l name =
    (case sl_Reader ld l name of Inl err \<Rightarrow> Some (Inl err) | Inr reader \<Rightarrow> ReadAll room (sl_reads ld) [] reader)"

definition stream_Write :: "('l, 'r, 'w) StreamLoader \<Rightarrow> 'l \<Rightarrow> string \<Rightarrow> bytes \<Rightarrow> cfg_error option \<times> 'l" where
  "stream_Write ld l name data =
    (case sl_Writer ld l name of
       (Inl err, l) \<Rightarrow> (Some err, l)
     | (Inr writer, l) \<Rightarrow>
       (case sl_Write ld data writer l of
          (Some err, writer, l) \<Rightarrow> (Some err, snd (sl_WriterClose ld writer l))
        | (None, writer, l) \<Rightarrow> sl_WriterClose ld writer l))"

text \<open>A listing with modifiers. With a callback it reads the keys; it is \<^const>\<open>None\<close> when one of them cannot be read to its end.\<close>

definition prefixed_List :: "(nat \<Rightarrow> nat) \<Rightarrow> ('v, 's) ListModifier list \<Rightarrow> string \<Rightarrow> ('l, 'r, 'w) StreamLoader \<Rightarrow> 'l \<Rightarrow> 's
    \<Rightarrow> ((cfg_error + string list) \<times> 's) option" where
  "prefixed_List room mods prefix sl l s =
    (case ListModifiers_Apply mods no_options of
       Inl err \<Rightarrow> Some (Inl err, s)
     | Inr opts \<Rightarrow>
       (case sl_List sl l of
          Inl err \<Rightarrow> Some (Inl err, s)
        | Inr keys \<Rightarrow>
          let filtered = relative_keys prefix keys; read = stream_Read room (prefixed_stream prefix sl) l in
          if lo_Data opts \<noteq> None \<and> list_ex (\<lambda>key. read key = None) filtered then None
          else FinalizeKeys opts (\<lambda>key. the (read key)) filtered 0 s))"

section \<open>Workspaces\<close>

definition ErrClosed :: cfg_error where "ErrClosed = Failed ''file already closed''"

text \<open>A workspace owns a loader or a store, \<open>'s\<close>; what it opens is the same with a prefix.\<close>

record 's blob_workspace =
  bw_store :: "'s option"
  bw_closed :: bool

definition NewStreamWorkspace :: "('l, 'r, 'w) StreamLoader option \<Rightarrow> ('l, 'r, 'w) StreamLoader blob_workspace" where
  "NewStreamWorkspace ld = \<lparr>bw_store = ld, bw_closed = False\<rparr>"

definition streamWorkspace_Open :: "('l, 'r, 'w) StreamLoader blob_workspace \<Rightarrow> string \<Rightarrow> string list \<Rightarrow> cfg_error + ('l, 'r, 'w) StreamLoader" where
  "streamWorkspace_Open w name namespace =
    (if bw_closed w then Inl ErrClosed
     else case bw_store w of
       None \<Rightarrow> Inl (Failed ''blob stream loader is required'')
     | Some ld \<Rightarrow> (case scopePrefix name namespace of Inl err \<Rightarrow> Inl err | Inr prefix \<Rightarrow> Inr (prefixed_stream prefix ld)))"

definition streamWorkspace_Close :: "('l, 'r, 'w) StreamLoader blob_workspace \<Rightarrow> 'l \<Rightarrow> cfg_error option \<times> ('l, 'r, 'w) StreamLoader blob_workspace \<times> 'l" where
  "streamWorkspace_Close w l =
    (let ld = bw_store w; w = w\<lparr>bw_closed := True\<rparr>
     in case ld of None \<Rightarrow> (None, w, l) | Some ld \<Rightarrow> (case sl_Close ld l of (err, l) \<Rightarrow> (err, w, l)))"

section \<open>Stores\<close>

datatype blob_error = KeyError cfg_error | URLError token_error

record 'st Store =
  st_List :: "'st \<Rightarrow> cfg_error + string list"
  st_DownloadURL :: "string \<Rightarrow> TransferOption option list \<Rightarrow> 'st \<Rightarrow> blob_error + url"
  st_UploadURL :: "string \<Rightarrow> TransferOption option list \<Rightarrow> 'st \<Rightarrow> blob_error + url"
  st_Delete :: "string \<Rightarrow> 'st \<Rightarrow> cfg_error option \<times> 'st"
  st_Close :: "'st \<Rightarrow> cfg_error option \<times> 'st"

definition serve_store :: "URLCodec \<Rightarrow> ('l, 'r, 'w) ServeStore \<Rightarrow> 'l Store" where
  "serve_store codec s =
    \<lparr>st_List = ServeStore_List s,
     st_DownloadURL = (\<lambda>key opts l. map_sum URLError id (DownloadURL codec s key (TransferOptions_Apply opts))),
     st_UploadURL = (\<lambda>key opts l. map_sum URLError id (UploadURL codec s key (TransferOptions_Apply opts))),
     st_Delete = ServeStore_Delete s, st_Close = ServeStore_Close s\<rparr>"

definition prefixedStore_List :: "string \<Rightarrow> 'st Store \<Rightarrow> 'st \<Rightarrow> cfg_error + string list" where
  "prefixedStore_List prefix st s = (case st_List st s of Inl err \<Rightarrow> Inl err | Inr descs \<Rightarrow> Inr (relative_keys prefix descs))"

definition prefixed_store :: "string \<Rightarrow> 'st Store \<Rightarrow> 'st Store" where
  "prefixed_store prefix st =
    \<lparr>st_List = prefixedStore_List prefix st,
     st_DownloadURL = (\<lambda>key opts. st_DownloadURL st (prefix @ key) opts),
     st_UploadURL = (\<lambda>key opts. st_UploadURL st (prefix @ key) opts),
     st_Delete = (\<lambda>key. st_Delete st (prefix @ key)),
     st_Close = (\<lambda>s. (None, s))\<rparr>"

definition NewWorkspace :: "'st Store option \<Rightarrow> 'st Store blob_workspace" where
  "NewWorkspace st = \<lparr>bw_store = st, bw_closed = False\<rparr>"

definition storeWorkspace_Open :: "'st Store blob_workspace \<Rightarrow> string \<Rightarrow> string list \<Rightarrow> cfg_error + 'st Store" where
  "storeWorkspace_Open w name namespace =
    (if bw_closed w then Inl ErrClosed
     else case bw_store w of
       None \<Rightarrow> Inl (Failed ''blob store is required'')
     | Some st \<Rightarrow> (case scopePrefix name namespace of Inl err \<Rightarrow> Inl err | Inr prefix \<Rightarrow> Inr (prefixed_store prefix st)))"

definition storeWorkspace_Close :: "'st Store blob_workspace \<Rightarrow> 'st \<Rightarrow> cfg_error option \<times> 'st Store blob_workspace \<times> 'st" where
  "storeWorkspace_Close w s =
    (let st = bw_store w; w = w\<lparr>bw_closed := True\<rparr>
     in case st of None \<Rightarrow> (None, w, s) | Some st \<Rightarrow> (case st_Close st s of (err, s) \<Rightarrow> (err, w, s)))"

section \<open>Scopes\<close>

text \<open>The two interfaces of workspaces are one record, of what their operations open and of the state they work on.\<close>

record ('h, 'st) Workspace =
  wk_Open :: "string \<Rightarrow> string list \<Rightarrow> 'st \<Rightarrow> (cfg_error + 'h) \<times> 'st"
  wk_Close :: "'st \<Rightarrow> cfg_error option \<times> 'st"

definition stream_workspace :: "(('l, 'r, 'w) StreamLoader, ('l, 'r, 'w) StreamLoader blob_workspace \<times> 'l) Workspace" where
  "stream_workspace =
    \<lparr>wk_Open = (\<lambda>name namespace (w, l). (streamWorkspace_Open w name namespace, (w, l))),
     wk_Close = (\<lambda>(w, l). streamWorkspace_Close w l)\<rparr>"

definition store_workspace :: "('l Store, 'l Store blob_workspace \<times> 'l) Workspace" where
  "store_workspace =
    \<lparr>wk_Open = (\<lambda>name namespace (w, l). (storeWorkspace_Open w name namespace, (w, l))),
     wk_Close = (\<lambda>(w, l). storeWorkspace_Close w l)\<rparr>"

text \<open>A workspace of configuration loaders, some of which are stream loaders (\<open>stream\<close> is the type assertion).\<close>

definition adapter_Open :: "('h, 'st) Workspace option \<Rightarrow> ('h \<Rightarrow> 's option) \<Rightarrow> ('h \<Rightarrow> 'st \<Rightarrow> cfg_error option \<times> 'st) \<Rightarrow>
    string \<Rightarrow> string list \<Rightarrow> 'st \<Rightarrow> (cfg_error + 's) \<times> 'st" where
  "adapter_Open workspace stream close name namespace s =
    (case workspace of
       None \<Rightarrow> (Inl (Failed ''config loader workspace is required''), s)
     | Some w \<Rightarrow>
       (case wk_Open w name namespace s of
          (Inl err, s) \<Rightarrow> (Inl err, s)
        | (Inr ld, s) \<Rightarrow>
          (case stream ld of
             None \<Rightarrow> (Inl (Failed (''loader for '' @ scopeName name namespace @ '' does not implement blob.StreamLoader'')), snd (close ld s))
           | Some ld \<Rightarrow> (Inr ld, s))))"

definition adapter_Close :: "('h, 'st) Workspace option \<Rightarrow> 'st \<Rightarrow> cfg_error option \<times> 'st" where
  "adapter_Close workspace s = (case workspace of None \<Rightarrow> (None, s) | Some w \<Rightarrow> wk_Close w s)"

definition WrapLoaderWorkspace :: "('h, 'st) Workspace option \<Rightarrow> ('h \<Rightarrow> 's option) \<Rightarrow> ('h \<Rightarrow> 'st \<Rightarrow> cfg_error option \<times> 'st) \<Rightarrow> ('s, 'st) Workspace" where
  "WrapLoaderWorkspace workspace stream close = \<lparr>wk_Open = adapter_Open workspace stream close, wk_Close = adapter_Close workspace\<rparr>"

record blob_root =
  bt_Name :: string
  bt_Namespaces :: "string list"

record 'w StoreScope =
  sc_workspace :: "'w option"
  sc_name :: string
  sc_namespace :: "string list"

definition NewStoreScope :: "'w option \<Rightarrow> string \<Rightarrow> string list \<Rightarrow> 'w StoreScope" where
  "NewStoreScope workspace name namespace = \<lparr>sc_workspace = workspace, sc_name = name, sc_namespace = namespace\<rparr>"

definition scope_Child :: "string list \<Rightarrow> 'w StoreScope \<Rightarrow> 'w StoreScope" where
  "scope_Child namespace s = s\<lparr>sc_namespace := sc_namespace s @ namespace\<rparr>"

definition scope_Root :: "'w StoreScope \<Rightarrow> blob_root" where
  "scope_Root s = \<lparr>bt_Name = sc_name s, bt_Namespaces = sc_namespace s\<rparr>"

text \<open>\<open>UseStore\<close> and \<open>UseStream\<close> differ in what they open.\<close>

definition UseScope :: "('h \<Rightarrow> 'st \<Rightarrow> cfg_error option \<times> 'st) \<Rightarrow> 'a \<Rightarrow> ('h, 'st) Workspace StoreScope \<Rightarrow>
    ('h \<Rightarrow> 'st \<Rightarrow> ('a \<times> cfg_error option) \<times> 'st) option \<Rightarrow> 'st \<Rightarrow> ('a \<times> cfg_error option) \<times> 'st" where
  "UseScope close zero scope fn s =
    (case sc_workspace scope of
       None \<Rightarrow> ((zero, Some (Failed ''blob workspace cannot be nil'')), s)
     | Some workspace \<Rightarrow>
       (case fn of
          None \<Rightarrow> ((zero, Some (Failed ''blob store callback cannot be nil'')), s)
        | Some fn \<Rightarrow>
          (case wk_Open workspace (sc_name scope) (sc_namespace scope) s of
             (Inl err, s) \<Rightarrow> ((zero, Some err), s)
           | (Inr st, s) \<Rightarrow>
             let ((res, runErr), s) = fn st s; (closeErr, s) = close st s in
             if runErr \<noteq> None \<or> closeErr \<noteq> None then ((res, multierror_New [runErr, closeErr]), s) else ((res, None), s))))"

definition UseStore :: "'a \<Rightarrow> ('l Store, 'b \<times> 'l) Workspace StoreScope \<Rightarrow> ('l Store \<Rightarrow> 'b \<times> 'l \<Rightarrow> ('a \<times> cfg_error option) \<times> ('b \<times> 'l)) option \<Rightarrow>
    'b \<times> 'l \<Rightarrow> ('a \<times> cfg_error option) \<times> ('b \<times> 'l)" where
  "UseStore = UseScope (\<lambda>st (w, l). case st_Close st l of (err, l) \<Rightarrow> (err, (w, l)))"

definition UseStream :: "'a \<Rightarrow> (('l, 'r, 'w) StreamLoader, 'b \<times> 'l) Workspace StoreScope \<Rightarrow>
    (('l, 'r, 'w) StreamLoader \<Rightarrow> 'b \<times> 'l \<Rightarrow> ('a \<times> cfg_error option) \<times> ('b \<times> 'l)) option \<Rightarrow> 'b \<times> 'l \<Rightarrow> ('a \<times> cfg_error option) \<times> ('b \<times> 'l)" where
  "UseStream = UseScope (\<lambda>ld (w, l). case sl_Close ld l of (err, l) \<Rightarrow> (err, (w, l)))"

definition StoreScope_Run :: "('l Store, 'b \<times> 'l) Workspace StoreScope \<Rightarrow> ('l Store \<Rightarrow> 'b \<times> 'l \<Rightarrow> cfg_error option \<times> ('b \<times> 'l)) option \<Rightarrow>
    'b \<times> 'l \<Rightarrow> cfg_error option \<times> ('b \<times> 'l)" where
  "StoreScope_Run scope fn s =
    (case fn of
       None \<Rightarrow> (Some (Failed ''blob store callback cannot be nil''), s)
     | Some fn \<Rightarrow> (case UseStore () scope (Some (\<lambda>st s. apfst (\<lambda>err. ((), err)) (fn st s))) s of ((_, err), s) \<Rightarrow> (err, s)))"

definition StreamScope_Run :: "(('l, 'r, 'w) StreamLoader, 'b \<times> 'l) Workspace StoreScope \<Rightarrow>
    (('l, 'r, 'w) StreamLoader \<Rightarrow> 'b \<times> 'l \<Rightarrow> cfg_error option \<times> ('b \<times> 'l)) option \<Rightarrow> 'b \<times> 'l \<Rightarrow> cfg_error option \<times> ('b \<times> 'l)" where
  "StreamScope_Run scope fn s =
    (case fn of
       None \<Rightarrow> (Some (Failed ''blob stream callback cannot be nil''), s)
     | Some fn \<Rightarrow> (case UseStream () scope (Some (\<lambda>ld s. apfst (\<lambda>err. ((), err)) (fn ld s))) s of ((_, err), s) \<Rightarrow> (err, s)))"

section \<open>Stores with escaped keys\<close>

record codecStoreOptions =
  co_codec :: "KeyCodec option"

type_synonym CodecStoreOption = "codecStoreOptions \<Rightarrow> cfg_error + codecStoreOptions"

fun CodecStoreOptions_Apply :: "CodecStoreOption option list \<Rightarrow> CodecStoreOption" where
  "CodecStoreOptions_Apply [] target = Inr target"
| "CodecStoreOptions_Apply (None # opts) target = CodecStoreOptions_Apply opts target"
| "CodecStoreOptions_Apply (Some opt # opts) target =
    (case opt target of Inl err \<Rightarrow> Inl err | Inr target \<Rightarrow> CodecStoreOptions_Apply opts target)"

definition WithKeyCodec :: "KeyCodec \<Rightarrow> CodecStoreOption" where
  "WithKeyCodec codec o' = Inr (o'\<lparr>co_codec := Some codec\<rparr>)"

fun decode_all :: "KeyCodec \<Rightarrow> string list \<Rightarrow> cfg_error + string list" where
  "decode_all codec [] = Inr []"
| "decode_all codec (desc # descs) =
    (case kc_Decode codec desc of
       Inl err \<Rightarrow> Inl err
     | Inr key \<Rightarrow> (case decode_all codec descs of Inl err \<Rightarrow> Inl err | Inr keys \<Rightarrow> Inr (key # keys)))"

definition CodecStore_List :: "KeyCodec \<Rightarrow> 'st Store \<Rightarrow> 'st \<Rightarrow> cfg_error + string list" where
  "CodecStore_List codec st s = (case st_List st s of Inl err \<Rightarrow> Inl err | Inr descs \<Rightarrow> decode_all codec descs)"

definition CodecStore_DownloadURL :: "KeyCodec \<Rightarrow> 'st Store \<Rightarrow> string \<Rightarrow> TransferOption option list \<Rightarrow> 'st \<Rightarrow> blob_error + url" where
  "CodecStore_DownloadURL codec st key opts s =
    (case kc_Encode codec key of Inl err \<Rightarrow> Inl (KeyError err) | Inr key \<Rightarrow> st_DownloadURL st key opts s)"

definition CodecStore_UploadURL :: "KeyCodec \<Rightarrow> 'st Store \<Rightarrow> string \<Rightarrow> TransferOption option list \<Rightarrow> 'st \<Rightarrow> blob_error + url" where
  "CodecStore_UploadURL codec st key opts s =
    (case kc_Encode codec key of Inl err \<Rightarrow> Inl (KeyError err) | Inr key \<Rightarrow> st_UploadURL st key opts s)"

definition CodecStore_Delete :: "KeyCodec \<Rightarrow> 'st Store \<Rightarrow> string \<Rightarrow> 'st \<Rightarrow> cfg_error option \<times> 'st" where
  "CodecStore_Delete codec st key s =
    (case kc_Encode codec key of Inl err \<Rightarrow> (Some err, s) | Inr key \<Rightarrow> st_Delete st key s)"

definition WrapCodecStore :: "'st Store \<Rightarrow> KeyCodec \<Rightarrow> 'st Store" where
  "WrapCodecStore st codec =
    \<lparr>st_List = CodecStore_List codec st, st_DownloadURL = CodecStore_DownloadURL codec st, st_UploadURL = CodecStore_UploadURL codec st,
     st_Delete = CodecStore_Delete codec st, st_Close = st_Close st\<rparr>"

definition NewCodecStore :: "'st Store option \<Rightarrow> CodecStoreOption option list \<Rightarrow> cfg_error + 'st Store" where
  "NewCodecStore st mods =
    (case st of
       None \<Rightarrow> Inl (Failed ''store is required'')
     | Some st \<Rightarrow>
       (case CodecStoreOptions_Apply mods \<lparr>co_codec = None\<rparr> of
          Inl err \<Rightarrow> Inl err
        | Inr opts \<Rightarrow>
          (case co_codec opts of None \<Rightarrow> Inl (Failed ''codec is required'') | Some codec \<Rightarrow> Inr (WrapCodecStore st codec))))"

end
