(* ===== verification/Blob_Serve_Props.thy ===== *)
theory Blob_Serve_Props imports Blob_Serve begin

text \<open>
  A blob that is uploaded to a URL of the store is what a URL of the store downloads. The stream loader is used through
  a locale, interpreted on the in-memory one; the codecs through \<open>url_codec\<close>.
\<close>

section \<open>URLs and the requests they make\<close>

lemma normalizePrefix_dir: "\<exists>ps. list_all ordinary ps \<and> normalizePrefix prefix = dir_path ps"
proof -
  define a where "a = (if TrimSpace prefix = [] then defaultPrefix else TrimSpace prefix)"
  define b where "b = (if \<not> HasPrefix a ''/'' then ''/'' @ a else a)"
  define c where "c = (if \<not> HasSuffix b ''/'' then b @ ''/'' else b)"
  have "HasPrefix b ''/''" by (auto simp: b_def HasPrefix_iff)
  then have "HasPrefix c ''/''" unfolding c_def HasPrefix_iff by force
  moreover have "HasSuffix c ''/''" unfolding c_def HasSuffix_iff by auto
  ultimately obtain ps where "list_all ordinary ps" "CleanPreserve c = dir_path ps" using CleanPreserve_rooted [of c] by blast
  moreover have "normalizePrefix prefix = CleanPreserve c" by (simp only: normalizePrefix_def Let_def a_def b_def c_def)
  ultimately show ?thesis by auto
qed

lemma NewServeStore_prefixes:
  "\<exists>ps. list_all ordinary ps \<and> sv_downloadPrefix (NewServeStore ld base prefix meta) = dir_path (ps @ [''download'']) \<and>
    sv_uploadPrefix (NewServeStore ld base prefix meta) = dir_path (ps @ [''upload''])"
proof -
  obtain ps where ps: "list_all ordinary ps" "normalizePrefix prefix = dir_path ps" using normalizePrefix_dir by blast
  have "ordinary ''download''" "ordinary ''upload''" by (simp_all add: ordinary_def special_part_def)
  then have "JoinPreserve [dir_path ps, ''download'' @ ''/''] = dir_path (ps @ [''download''])"
    "JoinPreserve [dir_path ps, ''upload'' @ ''/''] = dir_path (ps @ [''upload''])" using JoinPreserve_dir [OF ps(1)] by blast+
  then show ?thesis using ps by (auto simp: NewServeStore_def Let_def)
qed

lemma JoinPreserve_rooted: "list_all ordinary ps \<Longrightarrow> ordinary e \<Longrightarrow> JoinPreserve [[], dir_path ps @ e] = dir_path ps @ e"
proof -
  assume a: "list_all ordinary ps" "ordinary e"
  then have "last (dir_path ps @ e) \<noteq> CHR ''/''" by (auto simp: ordinary_def special_part_def dest: last_in_set)
  then have "\<not> HasSuffix (dir_path ps @ e) ''/''" unfolding HasSuffix_iff by (metis last_snoc)
  then show ?thesis using path_Clean_file [OF a] by (simp add: JoinPreserve_def path_Join_def dir_path_def)
qed

lemma parseKey_file: "list_all ordinary ps \<Longrightarrow> \<not> special_part k \<Longrightarrow> parseKey (dir_path ps @ PathEscape k) (dir_path ps) = Some k"
proof -
  assume a: "list_all ordinary ps" "\<not> special_part k"
  have "CleanPreserve (dir_path ps @ PathEscape k) = dir_path ps @ PathEscape k"
    using a PathEscape_ordinary by (intro CleanPreserve_file) simp_all
  moreover have "k \<noteq> []" using a(2) by (auto simp: special_part_def)
  ultimately show ?thesis by (simp add: parseKey_def Let_def TrimPrefix_def HasPrefix_def unescape_escape)
qed

lemma wf_options: "wf_values (encodeTransferOptions opts)"
  by (simp add: encodeTransferOptions_def Let_def)

lemma decode_options: "same_values (encodeTransferOptions opts) q \<Longrightarrow> decodeTransferOptions q = opts"
proof -
  assume s: "same_values (encodeTransferOptions opts) q"
  have "Values_Get q k = Values_Get (encodeTransferOptions opts) k" for k
    by (rule Get_same [OF s]) (simp add: encodeTransferOptions_def Let_def)
  then show ?thesis
    by (simp add: decodeTransferOptions_def encodeTransferOptions_def Let_def Values_Get_def queryFilename_def queryContentType_def)
qed

definition plain_base :: url where
  "plain_base = \<lparr>url_Path = [], url_RawQuery = []\<rparr>"

context url_codec
begin

lemma transfer_request:
  assumes "list_all ordinary ps" "sv_baseURL s = plain_base" "fit key (encodeTransferOptions opts)"
    and "transferURL (dir_path ps) enc s key opts = Inr u"
  shows "\<exists>k q. parseKey (url_Path u) (dir_path ps) = Some k \<and> uc_Decode dec k (URL_Query (url_RawQuery u)) = Inr (key, q) \<and>
    decodeTransferOptions q = opts"
proof -
  obtain k p where e: "uc_Encode enc key (encodeTransferOptions opts) = Inr (k, p)"
    and u: "u = buildURL s (JoinPreserve [dir_path ps, PathEscape k]) p"
    using assms(4) by (auto simp: transferURL_def split: sum.splits)
  have k: "\<not> special_part k" by (rule plain [OF assms(3) wf_options e])
  then have o: "ordinary (PathEscape k)" by (simp add: PathEscape_ordinary)
  have path: "url_Path u = dir_path ps @ PathEscape k"
    using JoinPreserve_file [OF assms(1) o] JoinPreserve_rooted [OF assms(1) o] assms(2)
    by (simp add: u buildURL_def plain_base_def Let_def)
  have "distinct (map fst p)" using keeps [OF assms(3) wf_options e] by (simp add: wf_values_def)
  then have "same_values p (URL_Query (url_RawQuery u))"
    using URL_Query_Encode [of p] assms(2)
    by (cases "p = []") (simp_all add: u buildURL_def plain_base_def same_values_def Let_def URL_Query_def parse_part_def)
  then obtain q where "uc_Decode dec k (URL_Query (url_RawQuery u)) = Inr (key, q)" "same_values (encodeTransferOptions opts) q"
    using decodes [OF assms(3) wf_options e] by blast
  then show ?thesis using path parseKey_file [OF assms(1) k] decode_options by auto
qed

end

section \<open>Serving a content\<close>

definition served :: "mime \<Rightarrow> string \<Rightarrow> (nat \<times> nat) option \<Rightarrow> bytes \<Rightarrow> answer list" where
  "served mi Method wanted data =
    (case choose_range wanted (int (length data)) of
       None \<Rightarrow> [HttpError 416]
     | Some (code, start, n) \<Rightarrow>
       if Method = ''HEAD'' then [WriteHeader code] else [WriteHeader code, WriteBody (take (nat n) (drop (nat start) data))])"

lemma choose_range_bounds: "choose_range wanted (int n) = Some (code, start, m) \<Longrightarrow>
    0 \<le> start \<and> 0 \<le> m \<and> start + m \<le> int n \<and> (code = 206 \<and> 0 < m \<or> code = 200 \<and> start = 0 \<and> m = int n)"
  by (auto simp: choose_range_def split: option.splits if_splits)

text \<open>A copy to the end of a reader returns, with what is left and without an error.\<close>

lemma Copy_returns:
  assumes Read_ex: "\<And>r n. ok r \<Longrightarrow> \<exists>r'. rs_Read ops n r = (plain_read (content r) (pos r) n, r') \<and> ok r' \<and> content r' = content r \<and>
      pos r' = read_to (pos r) (plain_read (content r) (pos r) n)"
    and from_start: "\<And>r. ok r \<Longrightarrow> (0::int) \<le> pos r" and "ok r"
  shows "Copy ops got r = Some (got @ drop (nat (pos r)) (content r), None)"
  using assms(3)
proof (induction "length (content r) - nat (pos r)" arbitrary: r got rule: less_induct)
  case less
  obtain r' where r': "rs_Read ops 32768 r = (plain_read (content r) (pos r) 32768, r')" "ok r'" "content r' = content r"
    "pos r' = read_to (pos r) (plain_read (content r) (pos r) 32768)" using Read_ex [OF less.prems] by blast
  have p: "0 \<le> pos r" by (rule from_start [OF less.prems])
  show ?case
  proof (cases "int (length (content r)) \<le> pos r")
    case True
    then show ?thesis using r' by (subst Copy.simps) (simp add: plain_read_def nat_le_iff)
  next
    case False
    define chunk where "chunk = take 32768 (drop (nat (pos r)) (content r))"
    have "rs_Read ops 32768 r = (Inr chunk, r')" "pos r' = pos r + int (length chunk)"
      using False r'(1,4) by (simp_all add: plain_read_def read_to_def chunk_def)
    moreover have "length (content r') - nat (pos r') < length (content r) - nat (pos r)"
      using False p r'(3) calculation(2) by (auto simp: chunk_def nat_add_distrib min_def)
    moreover have "chunk @ drop (nat (pos r')) (content r') = drop (nat (pos r)) (content r)"
    proof -
      have "nat (pos r') = length chunk + nat (pos r)" using p calculation(2) by simp
      then show ?thesis using r'(3) by (cases "length (drop (nat (pos r)) (content r)) \<le> 32768") (simp_all add: chunk_def flip: drop_drop)
    qed
    ultimately show ?thesis using less.hyps [OF _ r'(2), of "got @ chunk"] by (subst Copy.simps) simp
  qed
qed

context seekable
begin

lemma CopyN_ok:
  assumes "ok r"
  shows "\<exists>r'. CopyN ops n [] r = Some (take n (drop (nat (pos r)) (content r)), r') \<and> ok r' \<and> content r' = content r"
proof (cases "n = 0")
  case True
  then show ?thesis using assms by (subst CopyN.simps) auto
next
  case False
  define got where "got = take n (drop (nat (pos r)) (content r))"
  obtain r' where r': "rs_Read ops n r = (plain_read (content r) (pos r) n, r')" "ok r'" "content r' = content r"
    "pos r' = read_to (pos r) (plain_read (content r) (pos r) n)" using Read_ex [OF assms] by blast
  have p: "0 \<le> pos r" using in_bound [OF assms] by simp
  show ?thesis
  proof (cases "int (length (content r)) \<le> pos r")
    case True
    then show ?thesis using False r' p by (subst CopyN.simps) (simp add: plain_read_def nat_le_iff)
  next
    case inside: False
    have "CopyN ops n [] r = CopyN ops n got r'" using False inside r'(1) by (subst CopyN.simps) (simp add: plain_read_def got_def)
    moreover have "CopyN ops n got r' = Some (got, if n \<le> length got then r' else snd (rs_Read ops (n - length got) r'))"
    proof (cases "n \<le> length got")
      case short: False
      then have "int (length (content r')) \<le> pos r'" using r'(3,4) inside p by (simp add: plain_read_def read_to_def got_def)
      then have "plain_read (content r') (pos r') (n - length got) = Inl EOF" by (simp add: plain_read_def)
      then show ?thesis using short Read_ex [OF r'(2), of "n - length got"] by (subst CopyN.simps) auto
    qed (subst CopyN.simps, simp)
    moreover have "ok (snd (rs_Read ops m r')) \<and> content (snd (rs_Read ops m r')) = content r" for m
      using Read_ex [OF r'(2), of m] r'(3) by auto
    ultimately show ?thesis using r' by (auto simp: got_def)
  qed
qed

lemma send_content_ok:
  assumes "ok r" "pos r = 0"
  shows "send_content ops Method wanted (int (length (content r))) r = Some (served mi Method wanted (content r))"
proof (cases "choose_range wanted (int (length (content r)))")
  case (Some c)
  obtain code start n where c: "choose_range wanted (int (length (content r))) = Some (code, start, n)" using Some by (cases c) auto
  note b = choose_range_bounds [OF c]
  have l: "int (length (content r)) < bound" using in_bound [OF assms(1)] by simp
  show ?thesis
  proof (cases "code = 206")
    case True
    obtain r1 where r1: "rs_Seek ops start SeekStart r = ((start, None), r1)" "ok r1" "content r1 = content r" "pos r1 = start"
      using Seek [OF assms(1), of start SeekStart] b l by (auto simp: seek_target_def)
    then show ?thesis using True c CopyN_ok [OF r1(2), of "nat n"] by (auto simp: send_content_def served_def)
  next
    case False
    then show ?thesis using b c CopyN_ok [OF assms(1), of "nat n"] assms(2) by (auto simp: send_content_def served_def)
  qed
qed (simp add: send_content_def served_def)

lemma ServeContent_ok:
  assumes "ok r"
  shows "ServeContent mi ops Method wanted has_type r =
    Some ((if has_type then [] else [ContentType (mi_detect mi (take sniffLen (content r)))]) @ served mi Method wanted (content r))"
proof -
  have l: "int (length (content r)) < bound" "0 < bound" using in_bound [OF assms] by auto
  obtain r1 where r1: "rs_Seek ops 0 SeekEnd r = ((int (length (content r)), None), r1)" "ok r1" "content r1 = content r"
    using Seek [OF assms, of 0 SeekEnd] l by (auto simp: seek_target_def)
  obtain r2 where r2: "rs_Seek ops 0 SeekStart r1 = ((0, None), r2)" "ok r2" "content r2 = content r" "pos r2 = 0"
    using Seek [OF r1(2), of 0 SeekStart] l r1(3) by (auto simp: seek_target_def)
  obtain r3 where r3: "CopyN ops sniffLen [] r2 = Some (take sniffLen (content r), r3)" "ok r3" "content r3 = content r"
    using CopyN_ok [OF r2(2), of sniffLen] r2(3,4) by auto
  obtain r4 where r4: "rs_Seek ops 0 SeekStart r3 = ((0, None), r4)" "ok r4" "content r4 = content r" "pos r4 = 0"
    using Seek [OF r3(2), of 0 SeekStart] l r3(3) by (auto simp: seek_target_def)
  show ?thesis
    using r1 r2 r3 r4 send_content_ok [OF r2(2,4), of Method wanted mi] send_content_ok [OF r4(2,4), of Method wanted mi]
    by (simp add: ServeContent_def)
qed

end

section \<open>Stream loaders\<close>

text \<open>What an upload has handed to its writer when it closes it: everything if it answers 200, and nothing if the metadata does
  not fit in its header.\<close>

definition uploaded :: "MetadataStore \<Rightarrow> Metadata Marshaller \<Rightarrow> Metadata \<Rightarrow> request \<Rightarrow> answer list \<Rightarrow> bytes \<Rightarrow> bool" where
  "uploaded store json meta r ws b \<longleftrightarrow> (ws = [WriteHeader 200] \<or> ws = [HttpError 500]) \<and>
    (case WrapWriter store json meta of
       Inl err \<Rightarrow> ws = [HttpError 500] \<and> b = []
     | Inr header \<Rightarrow> ws = [WriteHeader 200] \<longrightarrow> bq_BodyError r = None \<and> b = header @ concat (bq_Body r))"

text \<open>What is written to a writer becomes the content of its key when it is closed, if closing it succeeds.\<close>

locale stream_loader =
  fixes sl :: "('l, 'r, 'w) StreamLoader" and ok :: "'l \<Rightarrow> bool" and contents :: "'l \<Rightarrow> string \<rightharpoonup> bytes"
    and pending :: "'w \<Rightarrow> (string \<times> bytes) option"
    and reading :: "'r \<Rightarrow> bool" and content :: "'r \<Rightarrow> bytes" and pos :: "'r \<Rightarrow> int" and bound :: int
  assumes reader: "seekable (sl_reads sl) reading content pos bound"
    and seeks: "sl_seeks sl"
    and Reader_some: "ok l \<Longrightarrow> contents l n = Some d \<Longrightarrow> int (length d) < bound \<Longrightarrow>
      \<exists>r. sl_Reader sl l n = Inr r \<and> reading r \<and> content r = d \<and> pos r = 0"
    and Reader_none: "ok l \<Longrightarrow> contents l n = None \<Longrightarrow> sl_Reader sl l n = Inl ErrNotExist"
    and Writer: "ok l \<Longrightarrow> sl_Writer sl l n = (res, l') \<Longrightarrow> ok l' \<and> contents l' = contents l \<and>
      (case res of Inl _ \<Rightarrow> True | Inr w \<Rightarrow> pending w = Some (n, []))"
    and Write: "ok l \<Longrightarrow> pending w = Some (n, b) \<Longrightarrow> sl_Write sl p w l = (err, w', l') \<Longrightarrow>
      ok l' \<and> contents l' = contents l \<and> pending w' = Some (n, if err = None then b @ p else b)"
    and Close: "ok l \<Longrightarrow> pending w = Some (n, b) \<Longrightarrow> sl_WriterClose sl w l = (err, l') \<Longrightarrow>
      ok l' \<and> contents l' = (if err = None then (contents l)(n \<mapsto> b) else contents l)"
begin

lemma copy_body_ok:
  "ok l \<Longrightarrow> pending w = Some (n, b) \<Longrightarrow> copy_body sl chunks end' w l = (err, w', l') \<Longrightarrow>
    ok l' \<and> contents l' = contents l \<and> (\<exists>k. pending w' = Some (n, b @ concat (take k chunks)) \<and>
      (err = None \<longrightarrow> end' = None \<and> take k chunks = chunks))"
proof (induction chunks arbitrary: w l b)
  case Nil
  then show ?case by auto
next
  case (Cons c cs)
  obtain e w1 l1 where 1: "sl_Write sl c w l = (e, w1, l1)" by (cases "sl_Write sl c w l")
  note s = Write [OF Cons.prems(1,2) 1]
  show ?case
  proof (cases e)
    case None
    then obtain k where "ok l' \<and> contents l' = contents l1 \<and> pending w' = Some (n, (b @ c) @ concat (take k cs)) \<and>
        (err = None \<longrightarrow> end' = None \<and> take k cs = cs)"
      using Cons.IH [of l1 w1 "b @ c"] Cons.prems(3) 1 s by auto
    then show ?thesis using s by (intro conjI exI [of _ "Suc k"]) auto
  next
    case (Some e')
    then have r: "w' = w1" "l' = l1" "err = Some e'" using Cons.prems(3) 1 by auto
    then show ?thesis using s Some by (intro conjI exI [of _ 0]) auto
  qed
qed

lemma upload_body_pending:
  assumes "ok l" "pending w = Some (key, [])" "upload_body store json sl meta r w l = (ws, w2, l2)"
  shows "\<exists>b. ok l2 \<and> contents l2 = contents l \<and> pending w2 = Some (key, b) \<and> uploaded store json meta r ws b"
proof (cases "WrapWriter (store) json meta")
  case (Inl e)
  then show ?thesis using assms by (auto simp: upload_body_def uploaded_def)
next
  case (Inr header)
  have "\<exists>e w3 l3 b. (if store = InlineMetadata then sl_Write sl header w l else (None, w, l)) = (e, w3, l3) \<and>
      ok l3 \<and> contents l3 = contents l \<and> pending w3 = Some (key, b) \<and> (e = None \<longrightarrow> b = header)"
  proof (cases store)
    case InlineMetadata
    obtain e w3 l3 where h: "sl_Write sl header w l = (e, w3, l3)" by (cases "sl_Write sl header w l")
    then show ?thesis using Write [of l w key "[]" header e w3 l3] assms InlineMetadata by auto
  next
    case NoMetadata
    then show ?thesis using Inr assms by (auto simp: WrapWriter_def)
  qed
  then obtain e w3 l3 b where h: "(if store = InlineMetadata then sl_Write sl header w l else (None, w, l)) = (e, w3, l3)"
    "ok l3" "contents l3 = contents l" "pending w3 = Some (key, b)" "e = None \<Longrightarrow> b = header" by blast
  show ?thesis
  proof (cases e)
    case None
    obtain e' w4 l4 where c: "copy_body sl (bq_Body r) (bq_BodyError r) w3 l3 = (e', w4, l4)"
      by (cases "copy_body sl (bq_Body r) (bq_BodyError r) w3 l3")
    then show ?thesis using copy_body_ok [OF h(2,4) c] assms(3) h None Inr
      by (cases e') (auto simp: upload_body_def uploaded_def simp del: if_split_asm)
  next
    case (Some e')
    then show ?thesis using assms(3) h Inr by (auto simp: upload_body_def uploaded_def simp del: if_split_asm)
  qed
qed

text \<open>An upload that gets its writer commits what it has, whatever it answers, unless closing the writer fails.\<close>

lemma upload_commits:
  assumes "ok l" "bq_Method r \<in> {''PUT'', ''POST''}" "parseKey (bq_Path r) (sv_uploadPrefix s) = Some k"
    and "uc_Decode codec k (URL_Query (bq_RawQuery r)) = Inr (key, params)" "sv_loader s = sl" "sl_Writer sl l key = (Inr w, l1)"
    and "handleUpload mi json codec s r l = (ws, l')"
  shows "\<exists>b w2 l2. ok l' \<and> uploaded (sv_metadata s) json (upload_metadata mi (decodeTransferOptions params) r) r ws b \<and>
    contents l' = (if fst (sl_WriterClose sl w2 l2) = None then (contents l)(key \<mapsto> b) else contents l)"
proof -
  note w = Writer [OF assms(1,6)]
  obtain ws' w2 l2 where u: "upload_body (sv_metadata s) json sl (upload_metadata mi (decodeTransferOptions params) r) r w l1 = (ws', w2, l2)"
    by (cases "upload_body (sv_metadata s) json sl (upload_metadata mi (decodeTransferOptions params) r) r w l1")
  then have res: "ws = ws'" "l' = snd (sl_WriterClose sl w2 l2)"
    using assms by (auto simp: handleUpload_def Let_def)
  obtain b where b: "ok l2" "contents l2 = contents l" "pending w2 = Some (key, b)"
    "uploaded (sv_metadata s) json (upload_metadata mi (decodeTransferOptions params) r) r ws' b"
    using upload_body_pending [OF _ _ u] w by auto
  then show ?thesis using Close [OF b(1,3) prod.collapse [symmetric]] unfolding res by metis
qed

end

text \<open>The reader of the data of a blob is a reader again.\<close>

definition data_ok :: "('r \<Rightarrow> bool) \<Rightarrow> ('r \<Rightarrow> bytes) \<Rightarrow> ('r \<Rightarrow> int) \<Rightarrow> nat \<Rightarrow> 'r data_reader \<Rightarrow> bool" where
  "data_ok reading content pos h d = (case d of Behind x \<Rightarrow> offset_inv reading content pos h x | Direct _ \<Rightarrow> False)"

definition behind :: "'r data_reader \<Rightarrow> 'r offsetReadSeeker" where
  "behind d = (case d of Behind x \<Rightarrow> x | Direct r \<Rightarrow> \<lparr>or_rs = r, or_offset = 0, or_size = 0, or_sized = False\<rparr>)"

lemma data_seekable:
  assumes "seekable ops reading content pos bound"
  shows "seekable (data_ops ops) (data_ok reading content pos h) (\<lambda>d. drop h (content (or_rs (behind d))))
    (\<lambda>d. pos (or_rs (behind d)) - int h) (bound - int h)"
proof -
  note o = seekable.offset_seekable [OF assms, of h]
  show ?thesis
  proof
    show "bound - int h \<le> 2 ^ 63" using seekable.bound [OF o] .
  next
    fix d d' :: "'a data_reader" and n res offset whence
    assume "data_ok reading content pos h d"
    then obtain x where x: "d = Behind x" "offset_inv reading content pos h x" by (auto simp: data_ok_def split: data_reader.splits)
    let ?c = "drop h (content (or_rs (behind d)))" and ?p = "pos (or_rs (behind d)) - int h"
    have b: "or_rs (behind d) = or_rs x" by (simp add: x(1) behind_def)
    show "int (length ?c) < bound - int h \<and> 0 \<le> ?p \<and> ?p < bound - int h" using seekable.in_bound [OF o x(2)] by (simp add: b)
    show "res = plain_read ?c ?p n \<and> data_ok reading content pos h d' \<and> drop h (content (or_rs (behind d'))) = ?c \<and>
        pos (or_rs (behind d')) - int h = read_to ?p res" if e: "rs_Read (data_ops ops) n d = (res, d')"
    proof -
      obtain x' where x': "rs_Read (offset_ops ops) n x = (res, x')" "d' = Behind x'"
        using e by (cases "offset_Read ops n x") (auto simp: x(1) data_ops_def data_Read_def offset_ops_def)
      then show ?thesis using seekable.Read [OF o x(2) x'(1)] by (simp add: data_ok_def x(1) behind_def)
    qed
    show "\<exists>d'. rs_Seek (data_ops ops) offset whence d = ((seek_target ?c ?p offset whence, None), d') \<and>
        data_ok reading content pos h d' \<and> drop h (content (or_rs (behind d'))) = ?c \<and> pos (or_rs (behind d')) - int h = seek_target ?c ?p offset whence"
      if t: "0 \<le> seek_target ?c ?p offset whence" "seek_target ?c ?p offset whence < bound - int h"
    proof -
      obtain x' where x': "rs_Seek (offset_ops ops) offset whence x = ((seek_target ?c ?p offset whence, None), x')"
        "offset_inv reading content pos h x'" "drop h (content (or_rs x')) = ?c" "pos (or_rs x') - int h = seek_target ?c ?p offset whence"
        using seekable.Seek [OF o x(2)] t unfolding b by blast
      then have "rs_Seek (data_ops ops) offset whence d = ((seek_target ?c ?p offset whence, None), Behind x')"
        by (simp add: x(1) data_ops_def data_Seek_def offset_ops_def)
      then show ?thesis using x'(2-4) by (intro exI [of _ "Behind x'"]) (simp add: data_ok_def behind_def)
    qed
  qed
qed

text \<open>Without a header the reader is the one of the file.\<close>

definition direct_of :: "'r data_reader \<Rightarrow> 'r" where
  "direct_of d = (case d of Direct r \<Rightarrow> r | Behind x \<Rightarrow> or_rs x)"

definition direct_ok :: "('r \<Rightarrow> bool) \<Rightarrow> 'r data_reader \<Rightarrow> bool" where
  "direct_ok reading d = (case d of Direct r \<Rightarrow> reading r | Behind _ \<Rightarrow> False)"

lemma direct_seekable:
  assumes "seekable ops reading content pos bound"
  shows "seekable (data_ops ops) (direct_ok reading) (\<lambda>d. content (direct_of d)) (\<lambda>d. pos (direct_of d)) bound"
proof
  show "bound \<le> 2 ^ 63" using seekable.bound [OF assms] .
next
  fix d d' :: "'a data_reader" and n res offset whence
  assume "direct_ok reading d"
  then obtain x where x: "d = Direct x" "reading x" by (auto simp: direct_ok_def split: data_reader.splits)
  have b: "direct_of d = x" by (simp add: x(1) direct_of_def)
  show "int (length (content (direct_of d))) < bound \<and> 0 \<le> pos (direct_of d) \<and> pos (direct_of d) < bound"
    using seekable.in_bound [OF assms x(2)] by (simp add: b)
  show "res = plain_read (content (direct_of d)) (pos (direct_of d)) n \<and> direct_ok reading d' \<and> content (direct_of d') = content (direct_of d) \<and>
      pos (direct_of d') = read_to (pos (direct_of d)) res" if e: "rs_Read (data_ops ops) n d = (res, d')"
  proof -
    obtain x' where x': "rs_Read ops n x = (res, x')" "d' = Direct x'"
      using e by (cases "rs_Read ops n x") (auto simp: x(1) data_ops_def data_Read_def)
    then show ?thesis using seekable.Read [OF assms x(2) x'(1)] by (simp add: direct_ok_def x(1) direct_of_def)
  qed
  show "\<exists>d'. rs_Seek (data_ops ops) offset whence d = ((seek_target (content (direct_of d)) (pos (direct_of d)) offset whence, None), d') \<and>
      direct_ok reading d' \<and> content (direct_of d') = content (direct_of d) \<and>
      pos (direct_of d') = seek_target (content (direct_of d)) (pos (direct_of d)) offset whence"
    if t: "0 \<le> seek_target (content (direct_of d)) (pos (direct_of d)) offset whence"
      "seek_target (content (direct_of d)) (pos (direct_of d)) offset whence < bound"
  proof -
    obtain x' where x': "rs_Seek ops offset whence x = ((seek_target (content x) (pos x) offset whence, None), x')"
      "reading x'" "content x' = content x" "pos x' = seek_target (content x) (pos x) offset whence"
      using seekable.Seek [OF assms x(2)] t unfolding b by blast
    then have "rs_Seek (data_ops ops) offset whence d = ((seek_target (content x) (pos x) offset whence, None), Direct x')"
      by (simp add: x(1) data_ops_def data_Seek_def)
    then show ?thesis unfolding b using x'(2-4) by (intro exI [of _ "Direct x'"]) (simp add: direct_ok_def direct_of_def)
  qed
qed

section \<open>Downloads\<close>

definition download_headers :: "mime \<Rightarrow> transferOptions \<Rightarrow> Metadata \<Rightarrow> answer list" where
  "download_headers mi overrides meta =
    (let name = (if to_Filename overrides \<noteq> [] then to_Filename overrides else md_Filename meta);
         ctype = (if to_ContentType overrides \<noteq> [] then to_ContentType overrides else md_ContentType meta)
     in (if ctype \<noteq> [] then [ContentType ctype] else []) @ (if name \<noteq> [] then [ContentDisposition (mi_attachment mi name)] else []))"

definition download_answer :: "mime \<Rightarrow> transferOptions \<Rightarrow> Metadata \<Rightarrow> request \<Rightarrow> bytes \<Rightarrow> answer list" where
  "download_answer mi overrides meta r data =
    download_headers mi overrides meta @
    (if to_ContentType overrides = [] \<and> md_ContentType meta = [] then [ContentType (mi_detect mi (take sniffLen data))] else []) @
    served mi (bq_Method r) (bq_Range r) data"

text \<open>The metadata a download finds with the blob.\<close>

definition kept_metadata :: "MetadataStore \<Rightarrow> Metadata \<Rightarrow> Metadata" where
  "kept_metadata store meta = (case store of InlineMetadata \<Rightarrow> meta | NoMetadata \<Rightarrow> \<lparr>md_Filename = [], md_ContentType = []\<rparr>)"

text \<open>A reader that does not seek is copied whole: a range that is asked for is not honoured.\<close>

lemma download_without_seek:
  fixes reading :: "'r \<Rightarrow> bool"
  assumes "seekable (sl_reads sl) reading content pos bound" "sl_Reader sl l key = Inr rd" "reading rd" "content rd = h @ data" "pos rd = 0"
    and "\<not> sl_seeks sl" "sv_loader s = sl" "sv_metadata s = InlineMetadata"
    and "encodeHeader json meta = Inr h" "json_keeps json \<lparr>md_Filename = [], md_ContentType = []\<rparr> meta"
    and "bq_Method r = ''GET''" "parseKey (bq_Path r) (sv_downloadPrefix s) = Some k"
    and "uc_Decode codec k (URL_Query (bq_RawQuery r)) = Inr (key, q)"
  shows "handleDownload mi json codec s r l = Some (download_headers mi (decodeTransferOptions q) meta @ [WriteBody data])"
proof -
  obtain raw where raw: "ma_Marshal json meta = Inr raw" using assms(9) by (auto simp: encodeHeader_def split: sum.splits)
  then have u: "ma_Unmarshal json raw \<lparr>md_Filename = [], md_ContentType = []\<rparr> = (meta, None)" using assms(10) by (simp add: json_keeps_def)
  note h = encodeHeader_parse [OF assms(9) raw]
  obtain r' where r': "readHeaderRaw (sl_reads sl) rd = Some (Inr raw, r')" "reading r'" "content r' = h @ data" "pos r' = int headerSize"
    using seekable.readHeaderRaw_ok [OF assms(1,3,5,4) h] assms(4) by auto
  note d = direct_seekable [OF assms(1)]
  have "Copy (data_ops (sl_reads sl)) [] (Direct r') = Some ([] @ drop (nat (pos (direct_of (Direct r')))) (content (direct_of (Direct r'))), None)"
  proof (rule Copy_returns [where ok = "direct_ok reading"])
    show "0 \<le> pos (direct_of x)" if "direct_ok reading x" for x using that seekable.in_bound [OF d] by blast
  qed (use seekable.Read_ex [OF d] r'(2) in \<open>auto simp: direct_ok_def\<close>)
  then have "Copy (data_ops (sl_reads sl)) [] (Direct r') = Some (data, None)" using r'(3,4) h(1) by (simp add: direct_of_def)
  then show ?thesis using assms(2,6-8,11-13) r'(1) u by (simp add: handleDownload_def Let_def WrapReader_def download_headers_def)
qed

context stream_loader
begin

lemma download_ok:
  assumes "ok l" "contents l key = Some (h @ data)" "int (length (h @ data)) < bound" "sv_loader s = sl" "sv_metadata s = InlineMetadata"
    and "encodeHeader json meta = Inr h" "json_keeps json \<lparr>md_Filename = [], md_ContentType = []\<rparr> meta"
    and "bq_Method r \<in> {''GET'', ''HEAD''}" "parseKey (bq_Path r) (sv_downloadPrefix s) = Some k"
    and "uc_Decode codec k (URL_Query (bq_RawQuery r)) = Inr (key, q)"
  shows "handleDownload mi json codec s r l = Some (download_answer mi (decodeTransferOptions q) meta r data)"
proof -
  obtain rd where rd: "sl_Reader sl l key = Inr rd" "reading rd" "content rd = h @ data" "pos rd = 0" using Reader_some [OF assms(1-3)] by blast
  obtain raw where raw: "ma_Marshal json meta = Inr raw" using assms(6) by (auto simp: encodeHeader_def split: sum.splits)
  then have "ma_Unmarshal json raw \<lparr>md_Filename = [], md_ContentType = []\<rparr> = (meta, None)" using assms(7) by (simp add: json_keeps_def)
  then obtain x where x: "WrapReader InlineMetadata json (sl_reads sl) True rd \<lparr>md_Filename = [], md_ContentType = []\<rparr> = Some (Inr (Behind x), meta)"
    "offset_inv reading content pos headerSize x" "drop headerSize (content (or_rs x)) = data"
    using seekable.WrapReader_ok [OF reader rd(2,4,3) assms(6) raw] by blast
  have "data_ok reading content pos headerSize (Behind x)" using x(2) by (simp add: data_ok_def)
  note sc = seekable.ServeContent_ok [OF data_seekable [OF reader] this, of mi "bq_Method r" "bq_Range r"]
  have d: "drop headerSize (content (or_rs (behind (Behind x)))) = data" using x(3) by (simp add: behind_def)
  show ?thesis using assms rd(1) x(1) seeks sc unfolding d
    by (auto simp: handleDownload_def Let_def download_answer_def download_headers_def)
qed

lemma download_plain_ok:
  assumes "ok l" "contents l key = Some data" "int (length data) < bound" "sv_loader s = sl" "sv_metadata s = NoMetadata"
    and "bq_Method r \<in> {''GET'', ''HEAD''}" "parseKey (bq_Path r) (sv_downloadPrefix s) = Some k"
    and "uc_Decode codec k (URL_Query (bq_RawQuery r)) = Inr (key, q)"
  shows "handleDownload mi json codec s r l =
    Some (download_answer mi (decodeTransferOptions q) \<lparr>md_Filename = [], md_ContentType = []\<rparr> r data)"
proof -
  obtain rd where rd: "sl_Reader sl l key = Inr rd" "reading rd" "content rd = data" "pos rd = 0" using Reader_some [OF assms(1-3)] by blast
  have "direct_ok reading (Direct rd)" using rd(2) by (simp add: direct_ok_def)
  note sc = seekable.ServeContent_ok [OF direct_seekable [OF reader] this, of mi "bq_Method r" "bq_Range r"]
  have d: "content (direct_of (Direct rd)) = data" using rd(3) by (simp add: direct_of_def)
  show ?thesis using assms rd(1) seeks sc unfolding d
    by (auto simp: handleDownload_def Let_def WrapReader_def download_answer_def download_headers_def)
qed

text \<open>Either way a download answers with the data and the metadata that are kept with it.\<close>

lemma download_kept:
  assumes "ok l" "contents l key = Some (h @ data)" "int (length (h @ data)) < bound" "sv_loader s = sl"
    and "WrapWriter (sv_metadata s) json meta = Inr h"
    and "sv_metadata s = InlineMetadata \<longrightarrow> json_keeps json \<lparr>md_Filename = [], md_ContentType = []\<rparr> meta"
    and "bq_Method r \<in> {''GET'', ''HEAD''}" "parseKey (bq_Path r) (sv_downloadPrefix s) = Some k"
    and "uc_Decode codec k (URL_Query (bq_RawQuery r)) = Inr (key, q)"
  shows "handleDownload mi json codec s r l = Some (download_answer mi (decodeTransferOptions q) (kept_metadata (sv_metadata s) meta) r data)"
proof (cases "sv_metadata s")
  case InlineMetadata
  then show ?thesis using download_ok [OF assms(1-4) InlineMetadata _ _ assms(7-9), of json meta mi] assms(5,6)
    by (simp add: WrapWriter_def kept_metadata_def)
next
  case NoMetadata
  then have "h = []" using assms(5) by (simp add: WrapWriter_def)
  then show ?thesis using download_plain_ok [OF assms(1) _ _ assms(4) NoMetadata assms(7-9), of data mi json] assms(2,3) NoMetadata
    by (simp add: kept_metadata_def)
qed

lemma download_missing:
  assumes "ok l" "contents l key = None" "sv_loader s = sl" "bq_Method r \<in> {''GET'', ''HEAD''}"
    and "parseKey (bq_Path r) (sv_downloadPrefix s) = Some k" "uc_Decode codec k (URL_Query (bq_RawQuery r)) = Inr (key, q)"
  shows "handleDownload mi json codec s r l = Some [HttpError 404]"
  using assms Reader_none [OF assms(1,2)] by (auto simp: handleDownload_def Let_def error_code_def IsNotExist_def)

end

section \<open>The in-memory loader\<close>

definition memory_pending :: "memoryWriter \<Rightarrow> (string \<times> bytes) option" where
  "memory_pending w = (if mw_open w then Some (mw_key w, mw_buf w) else None)"

interpretation memory_blobs: stream_loader memory_stream memory_inv memory_contents memory_pending bytes_inv bR_s bR_i "2 ^ 63"
proof (rule stream_loader.intro)
  fix l l' :: memory_Loader and n d res w w' b p err
  show "seekable (sl_reads memory_stream) bytes_inv bR_s bR_i (2 ^ 63)"
    using bytes_reader.seekable_axioms by (simp add: memory_stream_def)
  show "sl_seeks memory_stream" by (simp add: memory_stream_def)
  assume i: "memory_inv l"
  show "\<exists>r. sl_Reader memory_stream l n = Inr r \<and> bytes_inv r \<and> bR_s r = d \<and> bR_i r = 0"
    if "memory_contents l n = Some d" "int (length d) < 2 ^ 63"
    using that by (simp add: memory_stream_def memory_Reader_def memory_Read_def memory_contents_def bytes_NewReader_def bytes_inv_def)
  show "sl_Reader memory_stream l n = Inl ErrNotExist" if "memory_contents l n = None"
    using that by (simp add: memory_stream_def memory_Reader_def memory_Read_def memory_contents_def)
  show "memory_inv l' \<and> memory_contents l' = memory_contents l \<and> (case res of Inl _ \<Rightarrow> True | Inr w \<Rightarrow> memory_pending w = Some (n, []))"
    if "sl_Writer memory_stream l n = (res, l')"
    using that i by (auto simp: memory_stream_def memory_Writer_def memory_pending_def)
  show "memory_inv l' \<and> memory_contents l' = memory_contents l \<and> memory_pending w' = Some (n, if err = None then b @ p else b)"
    if "memory_pending w = Some (n, b)" "sl_Write memory_stream p w l = (err, w', l')"
    using that i by (auto simp: memory_stream_def memoryWriter_Write_def memory_pending_def split: if_splits)
  show "memory_inv l' \<and> memory_contents l' = (if err = None then (memory_contents l)(n \<mapsto> b) else memory_contents l)"
    if "memory_pending w = Some (n, b)" "sl_WriterClose memory_stream w l = (err, l')"
    using that i memory_Write_simps [of l n b] by (auto simp: memory_stream_def memoryWriter_Close_def memory_pending_def split: if_splits)
qed

text \<open>Its writers do not fail.\<close>

lemma memory_copy_body: "mw_open w \<Longrightarrow> copy_body memory_stream chunks end' w l = (end', w\<lparr>mw_buf := mw_buf w @ concat chunks\<rparr>, l)"
  by (induction chunks arbitrary: w) (simp_all add: memory_stream_def memoryWriter_Write_def)

lemma memory_upload_answers:
  assumes "WrapWriter (sv_metadata s) json (upload_metadata mi (decodeTransferOptions q) r) = Inr header" "bq_BodyError r = None"
    and "bq_Method r \<in> {''PUT'', ''POST''}" "parseKey (bq_Path r) (sv_uploadPrefix s) = Some k"
    and "uc_Decode codec k (URL_Query (bq_RawQuery r)) = Inr (key, q)" "sv_loader s = memory_stream"
  shows "fst (handleUpload mi json codec s r l) = [WriteHeader 200]"
proof -
  let ?w = "memory_Writer key" and ?w' = "(memory_Writer key)\<lparr>mw_buf := header\<rparr>"
  have w: "sl_Writer memory_stream l key = (Inr ?w, l)" "sl_Write memory_stream header ?w l = (None, ?w', l)" "mw_open ?w" "mw_open ?w'"
    by (simp_all add: memory_stream_def memoryWriter_Write_def memory_Writer_def)
  have "fst (upload_body (sv_metadata s) json memory_stream (upload_metadata mi (decodeTransferOptions q) r) r ?w l) = [WriteHeader 200]"
    using assms(1,2) by (simp add: upload_body_def w(2) memory_copy_body [OF w(3)] memory_copy_body [OF w(4)])
  then show ?thesis using assms(3-6) w(1) by (auto simp: handleUpload_def Let_def split: prod.splits)
qed

text \<open>C19: For a store over the in-memory loader whose base URL has no path and no query, with or without metadata, and
  whatever two codecs its URLs are made with: a blob uploaded without an error to the upload URL of a key that fits the codecs (not "." or
  "..", which lead elsewhere), in any chunks and with metadata that fits its header, is stored under
  this key and no other is touched; the download URL of the key then serves exactly its bytes, or the range asked for,
  with the name and type of the download URL, and otherwise those kept with the blob: none without metadata, and else
  those of the upload, which come from its URL and then from its headers.\<close>

theorem blob_roundtrip:
  assumes "url_codec fit enc dec" "url_codec fit' enc' dec'" "memory_inv l" "s = NewServeStore memory_stream plain_base prefix store"
    and "fit key (encodeTransferOptions up)" "UploadURL enc s key up = Inr uu"
    and "fit' key (encodeTransferOptions down)" "DownloadURL enc' s key down = Inr du"
    and "bq_Method r \<in> {''PUT'', ''POST''}" "bq_Path r = url_Path uu" "bq_RawQuery r = url_RawQuery uu" "bq_BodyError r = None"
    and "bq_Method g \<in> {''GET'', ''HEAD''}" "bq_Path g = url_Path du" "bq_RawQuery g = url_RawQuery du"
    and "WrapWriter store json (upload_metadata mi up r) = Inr h"
    and "store = InlineMetadata \<longrightarrow> json_keeps json \<lparr>md_Filename = [], md_ContentType = []\<rparr> (upload_metadata mi up r)"
    and "length (h @ concat (bq_Body r)) < 2 ^ 63"
  shows "\<exists>l'. handleUpload mi json dec s r l = ([WriteHeader 200], l') \<and> memory_inv l' \<and>
    memory_contents l' = (memory_contents l)(key \<mapsto> h @ concat (bq_Body r)) \<and>
    handleDownload mi json dec' s g l' =
      Some (download_answer mi down (kept_metadata store (upload_metadata mi up r)) g (concat (bq_Body r)))"
proof -
  obtain ps where ps: "list_all ordinary ps" "sv_downloadPrefix s = dir_path (ps @ [''download''])" "sv_uploadPrefix s = dir_path (ps @ [''upload''])"
    using NewServeStore_prefixes assms(4) by blast
  have o: "list_all ordinary (ps @ [''download''])" "list_all ordinary (ps @ [''upload''])" using ps(1) by (simp_all add: ordinary_def special_part_def)
  have s: "sv_baseURL s = plain_base" "sv_loader s = memory_stream" "sv_metadata s = store" by (simp_all add: assms(4) NewServeStore_def Let_def)
  obtain k q where kq: "parseKey (bq_Path r) (sv_uploadPrefix s) = Some k" "uc_Decode dec k (URL_Query (bq_RawQuery r)) = Inr (key, q)"
    "decodeTransferOptions q = up"
    using url_codec.transfer_request [OF assms(1) o(2) s(1) assms(5)] assms(6,10,11) ps(3) by (auto simp: UploadURL_def)
  obtain k' q' where kq': "parseKey (bq_Path g) (sv_downloadPrefix s) = Some k'" "uc_Decode dec' k' (URL_Query (bq_RawQuery g)) = Inr (key, q')"
    "decodeTransferOptions q' = down"
    using url_codec.transfer_request [OF assms(2) o(1) s(1) assms(7)] assms(8,14,15) ps(2) by (auto simp: DownloadURL_def)
  have w: "WrapWriter (sv_metadata s) json (upload_metadata mi (decodeTransferOptions q) r) = Inr h" by (simp add: s(3) kq(3) assms(16))
  obtain l' where l': "handleUpload mi json dec s r l = ([WriteHeader 200], l')"
    using memory_upload_answers [OF w assms(12,9) kq(1,2) s(2)] by (metis prod.collapse)
  have wr: "sl_Writer memory_stream l key = (Inr (memory_Writer key), l)" by (simp add: memory_stream_def)
  have c: "memory_inv l'" "memory_contents l' = (memory_contents l)(key \<mapsto> h @ concat (bq_Body r))"
    using memory_blobs.upload_commits [OF assms(3,9) kq(1,2) s(2) wr l'] w by (auto simp: memory_stream_def uploaded_def)
  then have "memory_contents l' key = Some (h @ concat (bq_Body r))" by simp
  then have "handleDownload mi json dec' s g l' =
      Some (download_answer mi down (kept_metadata store (upload_metadata mi up r)) g (concat (bq_Body r)))"
    using memory_blobs.download_kept [OF c(1) _ _ s(2) assms(16,17) [folded s(3)] assms(13) kq'(1,2)] assms(18) kq'(3) s(3) by simp
  then show ?thesis using l' c by blast
qed

definition demo_mime :: mime where
  "demo_mime = \<lparr>mi_filename = (\<lambda>s. None), mi_attachment = (\<lambda>name. ''attachment; filename='' @ name), mi_detect = (\<lambda>b. ''application/octet-stream'')\<rparr>"

definition demo_put :: "url \<Rightarrow> request" where
  "demo_put u = \<lparr>bq_Method = ''PUT'', bq_Path = url_Path u, bq_RawQuery = url_RawQuery u, bq_ContentType = ''text/plain'', bq_Disposition = [],
     bq_Body = [[1, 2], [3, 4]], bq_BodyError = None, bq_Range = None\<rparr>"

definition demo_get :: "url \<Rightarrow> request" where
  "demo_get u = \<lparr>bq_Method = ''GET'', bq_Path = url_Path u, bq_RawQuery = url_RawQuery u, bq_ContentType = [], bq_Disposition = [],
     bq_Body = [], bq_BodyError = None, bq_Range = Some (1, 2)\<rparr>"

theorem blob_roundtrip_witness:
  "\<exists>s uu du l'. s = NewServeStore memory_stream plain_base ''blobs'' InlineMetadata \<and>
    UploadURL PlainCodec s ''docs/a'' \<lparr>to_Filename = ''a.txt'', to_ContentType = []\<rparr> = Inr uu \<and>
    DownloadURL PlainCodec s ''docs/a'' \<lparr>to_Filename = ''b.txt'', to_ContentType = []\<rparr> = Inr du \<and>
    handleUpload demo_mime demo_json PlainCodec s (demo_put uu) memory_Open = ([WriteHeader 200], l') \<and>
    handleDownload demo_mime demo_json PlainCodec s (demo_get du) l' =
      Some [ContentType ''text/plain'', ContentDisposition ''attachment; filename=b.txt'', WriteHeader 206, WriteBody [2, 3]]"
proof -
  let ?up = "\<lparr>to_Filename = ''a.txt'', to_ContentType = []\<rparr>" and ?down = "\<lparr>to_Filename = ''b.txt'', to_ContentType = []\<rparr>"
  define s where s: "s = NewServeStore memory_stream plain_base ''blobs'' InlineMetadata"
  obtain uu du where u: "UploadURL PlainCodec s ''docs/a'' ?up = Inr uu" "DownloadURL PlainCodec s ''docs/a'' ?down = Inr du"
  proof -
    have "\<exists>u. transferURL prefix PlainCodec s key opts = Inr u" for prefix key opts by (simp add: transferURL_def PlainCodec_def)
    then show ?thesis using that unfolding UploadURL_def DownloadURL_def by metis
  qed
  have f: "\<not> special_part ''docs/a''" by (simp add: special_part_def)
  have r: "bq_Method (demo_put uu) \<in> {''PUT'', ''POST''}" "bq_Path (demo_put uu) = url_Path uu" "bq_RawQuery (demo_put uu) = url_RawQuery uu"
    "bq_BodyError (demo_put uu) = None" "concat (bq_Body (demo_put uu)) = [1, 2, 3, 4]" by (simp_all add: demo_put_def)
  have g: "bq_Method (demo_get du) \<in> {''GET'', ''HEAD''}" "bq_Path (demo_get du) = url_Path du" "bq_RawQuery (demo_get du) = url_RawQuery du"
    by (simp_all add: demo_get_def)
  have m: "upload_metadata demo_mime ?up (demo_put uu) = demo_meta" by (simp add: upload_metadata_def demo_put_def demo_meta_def)
  obtain h where h: "encodeHeader demo_json demo_meta = Inr h"
    by (simp add: encodeHeader_def demo_json_def demo_string_def demo_meta_def headerSize_def headerFixedSize_def)
  have j: "json_keeps demo_json \<lparr>md_Filename = [], md_ContentType = []\<rparr> demo_meta" by code_simp
  obtain raw where "ma_Marshal demo_json demo_meta = Inr raw" by (simp add: demo_json_def)
  then have l: "length (h @ concat (bq_Body (demo_put uu))) < 2 ^ 63" using encodeHeader_parse(1) [OF h] by (simp add: headerSize_def r(5))
  have w: "WrapWriter InlineMetadata demo_json (upload_metadata demo_mime ?up (demo_put uu)) = Inr h" by (simp add: WrapWriter_def h m)
  have i: "InlineMetadata = InlineMetadata \<longrightarrow> json_keeps demo_json \<lparr>md_Filename = [], md_ContentType = []\<rparr> (upload_metadata demo_mime ?up (demo_put uu))"
    using j by (simp add: m)
  note b = blob_roundtrip [OF plain.url_codec_axioms plain.url_codec_axioms memory_Open_inv(1) s f u(1) f u(2) r(1-4) g w i l]
  have a: "download_answer demo_mime ?down demo_meta (demo_get du) [1, 2, 3, 4] =
      [ContentType ''text/plain'', ContentDisposition ''attachment; filename=b.txt'', WriteHeader 206, WriteBody [2, 3]]"
    by (simp add: download_answer_def download_headers_def served_def choose_range_def demo_mime_def demo_meta_def demo_get_def)
  have kept: "kept_metadata InlineMetadata demo_meta = demo_meta" by (simp add: kept_metadata_def)
  from b obtain l' where "handleUpload demo_mime demo_json PlainCodec s (demo_put uu) memory_Open = ([WriteHeader 200], l')"
    "handleDownload demo_mime demo_json PlainCodec s (demo_get du) l' =
      Some (download_answer demo_mime ?down (kept_metadata InlineMetadata (upload_metadata demo_mime ?up (demo_put uu))) (demo_get du) (concat (bq_Body (demo_put uu))))"
    by (elim exE conjE)
  then have "handleUpload demo_mime demo_json PlainCodec s (demo_put uu) memory_Open = ([WriteHeader 200], l') \<and>
      handleDownload demo_mime demo_json PlainCodec s (demo_get du) l' =
        Some [ContentType ''text/plain'', ContentDisposition ''attachment; filename=b.txt'', WriteHeader 206, WriteBody [2, 3]]"
    by (simp only: m r(5) a kept)
  then show ?thesis using u s by (intro exI conjI) (assumption | rule refl | elim conjE)+
qed

section \<open>What happens otherwise\<close>

text \<open>An upload that fails replaces the blob all the same: by nothing when the metadata does not fit, by what had arrived when the body
  ends in an error.\<close>

lemma failed_upload_truncates:
  assumes "memory_inv l" "bq_Method r \<in> {''PUT'', ''POST''}" "parseKey (bq_Path r) (sv_uploadPrefix s) = Some k"
    and "uc_Decode codec k (URL_Query (bq_RawQuery r)) = Inr (key, q)" "sv_loader s = memory_stream"
    and "WrapWriter (sv_metadata s) json (upload_metadata mi (decodeTransferOptions q) r) = Inl err"
  shows "fst (handleUpload mi json codec s r l) = [HttpError 500]"
    and "memory_contents (snd (handleUpload mi json codec s r l)) = (memory_contents l)(key \<mapsto> [])"
proof -
  have w: "sl_Writer memory_stream l key = (Inr (memory_Writer key), l)" by (simp add: memory_stream_def)
  show "fst (handleUpload mi json codec s r l) = [HttpError 500]"
    "memory_contents (snd (handleUpload mi json codec s r l)) = (memory_contents l)(key \<mapsto> [])"
    using memory_blobs.upload_commits [OF assms(1-5) w prod.collapse [symmetric], of mi json] assms(6) by (auto simp: memory_stream_def uploaded_def)
qed

lemma broken_upload_commits:
  assumes "memory_inv l" "bq_Method r \<in> {''PUT'', ''POST''}" "parseKey (bq_Path r) (sv_uploadPrefix s) = Some k"
    and "uc_Decode codec k (URL_Query (bq_RawQuery r)) = Inr (key, q)" "sv_loader s = memory_stream" "sv_metadata s = InlineMetadata"
    and "encodeHeader json (upload_metadata mi (decodeTransferOptions q) r) = Inr h" "bq_BodyError r = Some e"
  shows "fst (handleUpload mi json codec s r l) = [HttpError 500]"
    and "memory_contents (snd (handleUpload mi json codec s r l)) = (memory_contents l)(key \<mapsto> h @ concat (bq_Body r))"
proof -
  let ?w = "memory_Writer key" and ?w' = "(memory_Writer key)\<lparr>mw_buf := h\<rparr>"
  have w: "sl_Writer memory_stream l key = (Inr ?w, l)" "sl_Write memory_stream h ?w l = (None, ?w', l)" "mw_open ?w'"
    by (simp_all add: memory_stream_def memoryWriter_Write_def memory_Writer_def)
  have u: "handleUpload mi json codec s r l = ([HttpError 500], snd (sl_WriterClose memory_stream (?w'\<lparr>mw_buf := h @ concat (bq_Body r)\<rparr>) l))"
    using assms w(1) by (auto simp: handleUpload_def Let_def upload_body_def WrapWriter_def w(2) memory_copy_body [OF w(3)])
  have "memory_pending (?w'\<lparr>mw_buf := h @ concat (bq_Body r)\<rparr>) = Some (key, h @ concat (bq_Body r))"
    by (simp add: memory_pending_def memory_Writer_def)
  then show "fst (handleUpload mi json codec s r l) = [HttpError 500]"
    "memory_contents (snd (handleUpload mi json codec s r l)) = (memory_contents l)(key \<mapsto> h @ concat (bq_Body r))"
    using memory_blobs.Close [OF assms(1) _ prod.collapse [symmetric]] u by (auto simp: memory_stream_def)
qed

text \<open>A writer that cannot store what it was given when it is closed: the upload is answered with 200 and is lost.\<close>

definition failing_close :: "(memory_Loader, bytes_Reader, memoryWriter) StreamLoader" where
  "failing_close = memory_stream\<lparr>sl_WriterClose := \<lambda>w m. (Some (Failed ''disk full''), m)\<rparr>"

lemma close_error_lost:
  assumes "bq_Method r \<in> {''PUT'', ''POST''}" "parseKey (bq_Path r) (sv_uploadPrefix s) = Some k"
    and "uc_Decode codec k (URL_Query (bq_RawQuery r)) = Inr (key, q)" "sv_loader s = failing_close" "sv_metadata s = NoMetadata" "bq_BodyError r = None"
  shows "handleUpload mi json codec s r l = ([WriteHeader 200], l)"
proof -
  have copy: "mw_open w \<Longrightarrow> copy_body failing_close chunks None w l = (None, w\<lparr>mw_buf := mw_buf w @ concat chunks\<rparr>, l)" for chunks w
    by (induction chunks arbitrary: w) (simp_all add: failing_close_def memory_stream_def memoryWriter_Write_def)
  have "sl_Writer failing_close l key = (Inr (memory_Writer key), l)" "mw_open (memory_Writer key)"
    by (simp_all add: failing_close_def memory_stream_def memory_Writer_def)
  then show ?thesis using assms copy [of "memory_Writer key"]
    by (auto simp: handleUpload_def Let_def upload_body_def WrapWriter_def failing_close_def)
qed

text \<open>What makes a download URL makes an upload URL too: nothing in the token tells them apart.\<close>

lemma download_url_uploads:
  assumes "sv_baseURL s = plain_base" "list_all ordinary ps" "list_all ordinary ps'" "sv_downloadPrefix s = dir_path ps" "sv_uploadPrefix s = dir_path ps'"
    and "url_codec fit enc dec" "fit key (encodeTransferOptions opts)" "DownloadURL enc s key opts = Inr d"
  shows "\<exists>k. url_Path d = dir_path ps @ k \<and> UploadURL enc s key opts = Inr (d\<lparr>url_Path := dir_path ps' @ k\<rparr>)"
proof -
  obtain k p where e: "uc_Encode enc key (encodeTransferOptions opts) = Inr (k, p)"
    and d: "d = buildURL s (JoinPreserve [dir_path ps, PathEscape k]) p"
    using assms(8) by (auto simp: DownloadURL_def transferURL_def assms(4) split: sum.splits)
  have "\<not> special_part k" by (rule url_codec.plain [OF assms(6,7) wf_options e])
  then have o: "ordinary (PathEscape k)" by (simp add: PathEscape_ordinary)
  show ?thesis using e d assms(1,5) JoinPreserve_file [OF assms(2) o] JoinPreserve_file [OF assms(3) o]
      JoinPreserve_rooted [OF assms(2) o] JoinPreserve_rooted [OF assms(3) o]
    by (intro exI [of _ "PathEscape k"]) (simp add: UploadURL_def transferURL_def buildURL_def plain_base_def Let_def)
qed

text \<open>The keys \<open>.\<close> and \<open>..\<close> have URLs that lead elsewhere.\<close>

lemma dots_lead_elsewhere:
  "DownloadURL PlainCodec (NewServeStore memory_stream plain_base ''/blobs/'' InlineMetadata) ''..'' \<lparr>to_Filename = [], to_ContentType = []\<rparr> =
    Inr \<lparr>url_Path = ''/blobs'', url_RawQuery = []\<rparr>"
  by code_simp

end
