(* ===== verification/Blob_Workspace_Props.thy ===== *)
theory Blob_Workspace_Props imports Blob_Workspace Blob_Serve_Props begin

text \<open>
  The stores that a workspace opens are stores of their own: a prefixed loader keeps the contract of the loader below it
  (locale \<open>blob_map\<close>), and in any history over stores that do not contain each other each behaves as a separate map.
\<close>

section \<open>Prefixes\<close>

lemma stripScopePrefix_iff: "stripScopePrefix p key = Some rel \<longleftrightarrow> key = p @ rel"
  by (auto simp: stripScopePrefix_def HasPrefix_iff TrimPrefix_def HasPrefix_def)

lemma relative_keys_eq: "relative_keys p keys = map (drop (length p)) (filter (\<lambda>k. HasPrefix k p \<and> k \<noteq> p) keys)"
  by (induction keys) (auto simp: relative_keys_def List.map_filter_simps stripScopePrefix_def HasPrefix_iff TrimPrefix_def HasPrefix_def)

lemma set_relative_keys: "set (relative_keys p keys) = {rel. rel \<noteq> [] \<and> p @ rel \<in> set keys}"
  by (auto simp: relative_keys_eq HasPrefix_iff) (metis (mono_tags, lifting) append_eq_conv_conj imageI mem_Collect_eq same_append_eq append_Nil2)

lemma string_less_append: "(p @ a :: string) < p @ b \<longleftrightarrow> a < b"
  by (induction p) simp_all

lemma sorted_relative_keys: "sorted_wrt (<) keys \<Longrightarrow> sorted_wrt (<) (relative_keys p keys)"
proof -
  assume "sorted_wrt (<) keys"
  then have "sorted_wrt (<) (filter (\<lambda>k. HasPrefix k p \<and> k \<noteq> p) keys)" by (rule sorted_wrt_filter)
  then show ?thesis unfolding relative_keys_eq sorted_wrt_map
    by (rule sorted_wrt_mono_rel [rotated]) (auto simp: HasPrefix_iff string_less_append)
qed

lemma relative_keys_sorted_list:
  assumes "finite A"
  shows "relative_keys p (sorted_list_of_set A) = sorted_list_of_set {rel. rel \<noteq> [] \<and> p @ rel \<in> A}"
proof (rule strict_sorted_equal)
  have "inj_on ((@) p) {rel. rel \<noteq> [] \<and> p @ rel \<in> A}" by (simp add: inj_on_def)
  moreover have "(@) p ` {rel. rel \<noteq> [] \<and> p @ rel \<in> A} \<subseteq> A" by auto
  ultimately have "finite {rel. rel \<noteq> [] \<and> p @ rel \<in> A}" using assms by (metis finite_imageD finite_subset)
  then show "set (relative_keys p (sorted_list_of_set A)) = set (sorted_list_of_set {rel. rel \<noteq> [] \<and> p @ rel \<in> A})"
    using assms by (simp add: set_relative_keys)
qed (simp_all add: sorted_relative_keys)

section \<open>Reading to the end\<close>

context seekable
begin

lemma Read_progress:
  assumes "ok r" "0 < n"
  obtains (at_end) r' where "rs_Read ops n r = (Inl EOF, r')" "drop (nat (pos r)) (content r) = []"
  | (chunk) c r' where "rs_Read ops n r = (Inr c, r')" "ok r'" "c \<noteq> []" "drop (nat (pos r)) (content r) = c @ drop (nat (pos r')) (content r')"
proof -
  obtain r' where r': "rs_Read ops n r = (plain_read (content r) (pos r) n, r')" "ok r'" "content r' = content r"
    "pos r' = read_to (pos r) (plain_read (content r) (pos r) n)" using Read_ex [OF assms(1)] by blast
  have p: "0 \<le> pos r" using in_bound [OF assms(1)] by simp
  show ?thesis
  proof (cases "int (length (content r)) \<le> pos r")
    case True
    then show ?thesis using r' by (intro at_end [of r']) (simp_all add: plain_read_def nat_le_iff)
  next
    case False
    define c where "c = take n (drop (nat (pos r)) (content r))"
    have c: "rs_Read ops n r = (Inr c, r')" "nat (pos r') = length c + nat (pos r)"
      using False p r'(1,4) by (simp_all add: plain_read_def read_to_def c_def nat_add_distrib)
    moreover have "c \<noteq> []" using False assms(2) p by (auto simp: c_def)
    moreover have "drop (nat (pos r)) (content r) = c @ drop (nat (pos r')) (content r')"
      unfolding c(2) r'(3) by (cases "length (drop (nat (pos r)) (content r)) \<le> n") (simp_all add: c_def flip: drop_drop)
    ultimately show ?thesis using r'(2) chunk by blast
  qed
qed

lemma ReadAll_ok:
  assumes "\<forall>n. 0 < room n"
  shows "ok r \<Longrightarrow> ReadAll room ops got r = Some (Inr (got @ drop (nat (pos r)) (content r)))"
proof (induction "length (drop (nat (pos r)) (content r))" arbitrary: r got rule: less_induct)
  case less
  show ?case using less.prems assms [rule_format, of "length got"]
  proof (cases rule: Read_progress)
    case (at_end r')
    then show ?thesis by (subst ReadAll.simps) simp
  next
    case (chunk c r')
    then show ?thesis using less.hyps [OF _ chunk(2), of "got @ c"] by (subst ReadAll.simps) simp
  qed
qed

end

section \<open>A loader that is a map of blobs\<close>

lemma prefixed_stream_simps [simp]:
  "sl_Reader (prefixed_stream p sl) l n = sl_Reader sl l (p @ n)" "sl_reads (prefixed_stream p sl) = sl_reads sl"
  "sl_Writer (prefixed_stream p sl) l n = sl_Writer sl l (p @ n)" "sl_Write (prefixed_stream p sl) = sl_Write sl"
  "sl_WriterClose (prefixed_stream p sl) = sl_WriterClose sl" "sl_Delete (prefixed_stream p sl) l n = sl_Delete sl l (p @ n)"
  by (simp_all add: prefixed_stream_def)

text \<open>\<open>hidden\<close> are the keys that listings leave out.\<close>

locale blob_map = stream_loader sl ok contents pending reading content pos bound
  for sl :: "('l, 'r, 'w) StreamLoader" and ok :: "'l \<Rightarrow> bool" and contents :: "'l \<Rightarrow> string \<rightharpoonup> bytes"
    and pending :: "'w \<Rightarrow> (string \<times> bytes) option"
    and reading :: "'r \<Rightarrow> bool" and content :: "'r \<Rightarrow> bytes" and pos :: "'r \<Rightarrow> int" and bound :: int +
  fixes hidden :: "string set"
  assumes finite_contents: "ok l \<Longrightarrow> finite (dom (contents l))"
    and List: "ok l \<Longrightarrow> sl_List sl l = Inr (sorted_list_of_set (dom (contents l) - hidden))"
    and Delete: "ok l \<Longrightarrow> sl_Delete sl l n = (err, l') \<Longrightarrow> ok l' \<and>
      (if n \<in> dom (contents l) then err = None \<and> contents l' = (contents l)(n := None) else err = Some ErrNotExist \<and> contents l' = contents l)"
    and Writer_ok: "ok l \<Longrightarrow> \<exists>w l'. sl_Writer sl l n = (Inr w, l')"
    and Write_ok: "ok l \<Longrightarrow> pending w \<noteq> None \<Longrightarrow> fst (sl_Write sl d w l) = None"
    and Close_ok: "ok l \<Longrightarrow> pending w \<noteq> None \<Longrightarrow> fst (sl_WriterClose sl w l) = None"
begin

lemma stream_Read_ok:
  assumes "ok l" "\<forall>n. 0 < room n" "\<And>d. contents l n = Some d \<Longrightarrow> int (length d) < bound"
  shows "stream_Read room sl l n = Some (case contents l n of None \<Rightarrow> Inl ErrNotExist | Some d \<Rightarrow> Inr d)"
proof (cases "contents l n")
  case None
  then show ?thesis using Reader_none [OF assms(1)] by (simp add: stream_Read_def)
next
  case (Some d)
  obtain r where "sl_Reader sl l n = Inr r" "reading r" "content r = d" "pos r = 0"
    using Reader_some [OF assms(1) Some] assms(3) [OF Some] by blast
  then show ?thesis using seekable.ReadAll_ok [OF reader assms(2), where r = r and got = "[]"] Some by (simp add: stream_Read_def)
qed

lemma stream_Write_ok:
  assumes "ok l"
  shows "\<exists>l'. stream_Write sl l n d = (None, l') \<and> ok l' \<and> contents l' = (contents l)(n \<mapsto> d)"
proof -
  obtain w l1 where 1: "sl_Writer sl l n = (Inr w, l1)" using Writer_ok [OF assms] by blast
  then have p1: "ok l1" "contents l1 = contents l" "pending w = Some (n, [])" using Writer [OF assms 1] by simp_all
  obtain w2 l2 where 2: "sl_Write sl d w l1 = (None, w2, l2)" using Write_ok [OF p1(1), of w d] p1(3) by (cases "sl_Write sl d w l1") auto
  then have p2: "ok l2" "contents l2 = contents l" "pending w2 = Some (n, d)" using Write [OF p1(1,3) 2] p1(2) by simp_all
  obtain l3 where 3: "sl_WriterClose sl w2 l2 = (None, l3)" using Close_ok [OF p2(1), of w2] p2(3) by (cases "sl_WriterClose sl w2 l2") auto
  then show ?thesis using Close [OF p2(1,3) 3] 1 2 p2(2) by (simp add: stream_Write_def)
qed

text \<open>A prefix makes another one.\<close>

definition pending_below :: "string \<Rightarrow> 'w \<Rightarrow> (string \<times> bytes) option" where
  "pending_below p w = (case pending w of None \<Rightarrow> None | Some (n, b) \<Rightarrow> map_option (\<lambda>rel. (rel, b)) (stripScopePrefix p n))"

lemma pending_below_iff: "pending_below p w = Some (n, b) \<longleftrightarrow> pending w = Some (p @ n, b)"
  by (auto simp: pending_below_def stripScopePrefix_iff split: option.splits)

lemma prefixed:
  "blob_map (prefixed_stream p sl) ok (\<lambda>l n. contents l (p @ n)) (pending_below p) reading content pos bound
    ({[]} \<union> {n. p @ n \<in> hidden})"
proof (intro blob_map.intro stream_loader.intro blob_map_axioms.intro)
  fix l l' n d res w w' b c err
  show "seekable (sl_reads (prefixed_stream p sl)) reading content pos bound" using reader by (simp add: prefixed_stream_def)
  show "sl_seeks (prefixed_stream p sl)" using seeks by (simp add: prefixed_stream_def)
  assume l: "ok l"
  show "\<exists>r. sl_Reader (prefixed_stream p sl) l n = Inr r \<and> reading r \<and> content r = d \<and> pos r = 0"
    if "contents l (p @ n) = Some d" "int (length d) < bound" using Reader_some [OF l that] by (simp add: prefixed_stream_def)
  show "sl_Reader (prefixed_stream p sl) l n = Inl ErrNotExist" if "contents l (p @ n) = None"
    using Reader_none [OF l that] by (simp add: prefixed_stream_def)
  show "ok l' \<and> (\<lambda>n. contents l' (p @ n)) = (\<lambda>n. contents l (p @ n)) \<and> (case res of Inl _ \<Rightarrow> True | Inr w \<Rightarrow> pending_below p w = Some (n, []))"
    if "sl_Writer (prefixed_stream p sl) l n = (res, l')"
    using Writer [OF l, of "p @ n" res l'] that by (cases res) (simp_all add: prefixed_stream_def pending_below_iff)
  show "ok l' \<and> (\<lambda>n. contents l' (p @ n)) = (\<lambda>n. contents l (p @ n)) \<and> pending_below p w' = Some (n, if err = None then b @ c else b)"
    if "pending_below p w = Some (n, b)" "sl_Write (prefixed_stream p sl) c w l = (err, w', l')"
    using Write [OF l, of w "p @ n" b c err w' l'] that by (simp add: prefixed_stream_def pending_below_iff)
  show "ok l' \<and> (\<lambda>n. contents l' (p @ n)) = (if err = None then (\<lambda>n. contents l (p @ n))(n \<mapsto> b) else (\<lambda>n. contents l (p @ n)))"
    if "pending_below p w = Some (n, b)" "sl_WriterClose (prefixed_stream p sl) w l = (err, l')"
    using Close [OF l, of w "p @ n" b err l'] that by (auto simp: prefixed_stream_def pending_below_iff fun_eq_iff)
  have inj: "inj_on ((@) p) A" for A by (simp add: inj_on_def)
  have "(@) p ` dom (\<lambda>n. contents l (p @ n)) \<subseteq> dom (contents l)" by auto
  then show "finite (dom (\<lambda>n. contents l (p @ n)))" using finite_contents [OF l] inj by (metis finite_imageD finite_subset)
  have "{rel. rel \<noteq> [] \<and> p @ rel \<in> dom (contents l) - hidden} = dom (\<lambda>n. contents l (p @ n)) - ({[]} \<union> {n. p @ n \<in> hidden})" by auto
  then show "sl_List (prefixed_stream p sl) l = Inr (sorted_list_of_set (dom (\<lambda>n. contents l (p @ n)) - ({[]} \<union> {n. p @ n \<in> hidden})))"
    using List [OF l] relative_keys_sorted_list [of "dom (contents l) - hidden" p] finite_contents [OF l] by (simp add: prefixed_stream_def)
  show "ok l' \<and> (if n \<in> dom (\<lambda>n. contents l (p @ n)) then err = None \<and> (\<lambda>n. contents l' (p @ n)) = (\<lambda>n. contents l (p @ n))(n := None)
      else err = Some ErrNotExist \<and> (\<lambda>n. contents l' (p @ n)) = (\<lambda>n. contents l (p @ n)))"
    if "sl_Delete (prefixed_stream p sl) l n = (err, l')"
    using Delete [OF l, of "p @ n" err l'] that by (auto simp: prefixed_stream_def fun_eq_iff domIff split: if_splits)
  show "\<exists>w l'. sl_Writer (prefixed_stream p sl) l n = (Inr w, l')" using Writer_ok [OF l] by (simp add: prefixed_stream_def)
  show "fst (sl_Write (prefixed_stream p sl) d w l) = None" if "pending_below p w \<noteq> None"
    using Write_ok [OF l, of w d] that by (auto simp: prefixed_stream_def pending_below_def split: option.splits)
  show "fst (sl_WriterClose (prefixed_stream p sl) w l) = None" if "pending_below p w \<noteq> None"
    using Close_ok [OF l, of w] that by (auto simp: prefixed_stream_def pending_below_def split: option.splits)
qed

end

lemma memory_List_names: "memory_inv l \<Longrightarrow> memory_List ([] :: (unit, unit) ListModifier list) l () = Some (Inr (sorted_list_of_set (dom (memory_contents l))), ())"
  by (simp add: memory_List_def FinalizeKeys_def ApplyKeys_def ApplyStartFromKeys_def ApplyOffsetLimitKeys_def no_options_def
      memory_inv_def memory_contents_def sort_keys Let_def slice_def)

interpretation memory_map: blob_map memory_stream memory_inv memory_contents memory_pending bytes_inv bR_s bR_i "2 ^ 63" "{}"
proof (intro blob_map.intro blob_map_axioms.intro)
  fix l l' :: memory_Loader and n d w err
  show "stream_loader memory_stream memory_inv memory_contents memory_pending bytes_inv bR_s bR_i (2 ^ 63)"
    by (rule memory_blobs.stream_loader_axioms)
  show "finite (dom (memory_contents l))" by (simp add: memory_contents_def finite_dom_map_of)
  show "sl_List memory_stream l = Inr (sorted_list_of_set (dom (memory_contents l) - {}))" if "memory_inv l"
    using memory_List_names [OF that] by (simp add: memory_stream_def)
  show "memory_inv l' \<and> (if n \<in> dom (memory_contents l) then err = None \<and> memory_contents l' = (memory_contents l)(n := None)
      else err = Some ErrNotExist \<and> memory_contents l' = memory_contents l)"
    if "memory_inv l" "sl_Delete memory_stream l n = (err, l')"
    using that memory_Delete_simps [of l n] by (auto simp: memory_stream_def fun_upd_idem split: if_splits)
  show "\<exists>w l'. sl_Writer memory_stream l n = (Inr w, l')" by (simp add: memory_stream_def)
  show "fst (sl_Write memory_stream d w l) = None" if "memory_pending w \<noteq> None"
    using that by (simp add: memory_stream_def memory_pending_def memoryWriter_Write_def split: if_splits)
  show "fst (sl_WriterClose memory_stream w l) = None" by (simp add: memory_stream_def)
qed

text \<open>So is every scope over it.\<close>

interpretation scoped_map: blob_map "prefixed_stream p memory_stream" memory_inv "\<lambda>l n. memory_contents l (p @ n)" "memory_map.pending_below p"
  bytes_inv bR_s bR_i "2 ^ 63" "{[]} \<union> {n. p @ n \<in> {}}" for p
  by (rule memory_map.prefixed)

section \<open>Histories\<close>

datatype scope_op = ScRead string | ScWrite string bytes | ScDelete string | ScList

datatype scope_result = Refused cfg_error | Got "cfg_error + bytes" | Did "cfg_error option" | Listed "cfg_error + string list"

definition scope_op :: "(nat \<Rightarrow> nat) \<Rightarrow> ('l, 'r, 'w) StreamLoader \<Rightarrow> scope_op \<Rightarrow> 'l \<Rightarrow> (scope_result \<times> 'l) option" where
  "scope_op room ld op l =
    (case op of
       ScRead k \<Rightarrow> map_option (\<lambda>r. (Got r, l)) (stream_Read room ld l k)
     | ScWrite k d \<Rightarrow> Some (apfst Did (stream_Write ld l k d))
     | ScDelete k \<Rightarrow> Some (apfst Did (sl_Delete ld l k))
     | ScList \<Rightarrow> Some (Listed (sl_List ld l), l))"

definition scope_step :: "(nat \<Rightarrow> nat) \<Rightarrow> ('l, 'r, 'w) StreamLoader blob_workspace \<Rightarrow> blob_root \<times> scope_op \<Rightarrow> 'l \<Rightarrow> (scope_result \<times> 'l) option" where
  "scope_step room w e l =
    (case streamWorkspace_Open w (bt_Name (fst e)) (bt_Namespaces (fst e)) of
       Inl err \<Rightarrow> Some (Refused err, l)
     | Inr ld \<Rightarrow> scope_op room ld (snd e) l)"

fun scope_run :: "(nat \<Rightarrow> nat) \<Rightarrow> ('l, 'r, 'w) StreamLoader blob_workspace \<Rightarrow> (blob_root \<times> scope_op) list \<Rightarrow> 'l \<Rightarrow> (scope_result list \<times> 'l) option" where
  "scope_run room w [] l = Some ([], l)"
| "scope_run room w (e # es) l =
    (case scope_step room w e l of
       None \<Rightarrow> None
     | Some (r, l) \<Rightarrow> map_option (apfst ((#) r)) (scope_run room w es l))"

text \<open>What it should be: a map of blobs for every path of namespaces. A listing leaves out the empty key.\<close>

definition scope_path :: "blob_root \<Rightarrow> cfg_error + string list" where
  "scope_path root = (case scopePrefix (bt_Name root) (bt_Namespaces root) of
      Inl err \<Rightarrow> Inl err | Inr prefix \<Rightarrow> Inr (Split (butlast prefix) (CHR ''/'')))"

fun map_op :: "scope_op \<Rightarrow> (string \<rightharpoonup> bytes) \<Rightarrow> scope_result \<times> (string \<rightharpoonup> bytes)" where
  "map_op (ScRead k) m = (Got (case m k of None \<Rightarrow> Inl ErrNotExist | Some d \<Rightarrow> Inr d), m)"
| "map_op (ScWrite k d) m = (Did None, m(k \<mapsto> d))"
| "map_op (ScDelete k) m = (if k \<in> dom m then (Did None, m(k := None)) else (Did (Some ErrNotExist), m))"
| "map_op ScList m = (Listed (Inr (sorted_list_of_set (dom m - {[]}))), m)"

definition maps_step :: "blob_root \<times> scope_op \<Rightarrow> (string list \<Rightarrow> string \<rightharpoonup> bytes) \<Rightarrow> scope_result \<times> (string list \<Rightarrow> string \<rightharpoonup> bytes)" where
  "maps_step e \<sigma> =
    (case scope_path (fst e) of
       Inl err \<Rightarrow> (Refused err, \<sigma>)
     | Inr path \<Rightarrow> (case map_op (snd e) (\<sigma> path) of (r, m) \<Rightarrow> (r, \<sigma>(path := m))))"

fun maps_run :: "(blob_root \<times> scope_op) list \<Rightarrow> (string list \<Rightarrow> string \<rightharpoonup> bytes) \<Rightarrow> scope_result list \<times> (string list \<Rightarrow> string \<rightharpoonup> bytes)" where
  "maps_run [] \<sigma> = ([], \<sigma>)"
| "maps_run (e # es) \<sigma> = (case maps_step e \<sigma> of (r, \<sigma>) \<Rightarrow> apfst ((#) r) (maps_run es \<sigma>))"

definition path_prefix :: "string list \<Rightarrow> string" where
  "path_prefix path = Join path ''/'' @ ''/''"

definition separate :: "string list set \<Rightarrow> bool" where
  "separate P \<longleftrightarrow> (\<forall>a \<in> P. a \<noteq> [] \<and> plain_names a) \<and> (\<forall>a \<in> P. \<forall>b \<in> P. take (length a) b = a \<longrightarrow> a = b)"

lemma scope_path_prefix: "scopePrefix (bt_Name root) (bt_Namespaces root) = Inr p \<Longrightarrow> scope_path root = Inr (Split (butlast p) (CHR ''/'')) \<and>
    p = path_prefix (Split (butlast p) (CHR ''/''))"
  by (auto simp: scope_path_def path_prefix_def Join_Split scopePrefix_def Let_def split: if_splits)

lemma path_prefix_separate:
  assumes "separate P" "a \<in> P" "b \<in> P" "path_prefix a @ k = path_prefix b @ k'"
  shows "a = b \<and> k = k'"
proof -
  have "a @ Split k (CHR ''/'') = b @ Split k' (CHR ''/'')"
    using assms Split_Join_append [of a k] Split_Join_append [of b k'] by (simp add: path_prefix_def separate_def)
  then have "take (length a) b = a \<or> take (length b) a = b" by (auto simp: append_eq_append_conv2)
  then have "a = b" using assms(1-3) unfolding separate_def by blast
  then show ?thesis using assms(4) by simp
qed

definition small_op :: "int \<Rightarrow> scope_op \<Rightarrow> bool" where
  "small_op bound op = (case op of ScWrite k d \<Rightarrow> int (length d) < bound | _ \<Rightarrow> True)"

text \<open>One operation, on a scope with the given path.\<close>

context blob_map
begin

definition small :: "'l \<Rightarrow> bool" where
  "small l \<longleftrightarrow> (\<forall>n d. contents l n = Some d \<longrightarrow> int (length d) < bound)"

lemma prefixed_List_map:
  assumes "ok l" "hidden = {}"
  shows "sl_List (prefixed_stream p sl) l = Inr (sorted_list_of_set (dom (\<lambda>n. contents l (p @ n)) - {[]}))"
  using blob_map.List [OF prefixed assms(1), of p] assms(2) by simp

lemma scope_op_ok:
  assumes "ok l" "small l" "small_op bound op" "hidden = {}" "\<forall>n. 0 < room n"
    and "map_op op (\<lambda>n. contents l (p @ n)) = (r, m)"
  shows "\<exists>l'. scope_op room (prefixed_stream p sl) op l = Some (r, l') \<and> ok l' \<and> small l' \<and> (\<lambda>n. contents l' (p @ n)) = m \<and>
    (\<forall>n. \<not> HasPrefix n p \<longrightarrow> contents l' n = contents l n)"
proof (cases op)
  case (ScRead k)
  have "stream_Read room (prefixed_stream p sl) l k = stream_Read room sl l (p @ k)"
    unfolding stream_Read_def prefixed_stream_simps ..
  then show ?thesis using stream_Read_ok [OF assms(1,5), of "p @ k"] assms(1,2,6) ScRead by (auto simp: scope_op_def small_def)
next
  case (ScWrite k d)
  have "stream_Write (prefixed_stream p sl) l k d = stream_Write sl l (p @ k) d"
    unfolding stream_Write_def prefixed_stream_simps ..
  then show ?thesis using stream_Write_ok [OF assms(1), of "p @ k" d] assms(2,3,6) ScWrite
    by (auto simp: scope_op_def small_def small_op_def HasPrefix_iff fun_eq_iff)
next
  case (ScDelete k)
  obtain err l' where d: "sl_Delete sl l (p @ k) = (err, l')" by (cases "sl_Delete sl l (p @ k)")
  then have "sl_Delete (prefixed_stream p sl) l k = (err, l')" by (simp add: prefixed_stream_def)
  then show ?thesis using Delete [OF assms(1) d] assms(2,6) ScDelete
    by (auto simp: scope_op_def small_def HasPrefix_iff fun_eq_iff domIff split: if_splits)
next
  case ScList
  then show ?thesis using prefixed_List_map [OF assms(1,4), of p] assms(1,2,6) by (auto simp: scope_op_def)
qed

text \<open>A history, on scopes whose paths are in a set of separate ones.\<close>

lemma scope_step_ok:
  assumes "ok l" "small l" "small_op bound (snd e)" "hidden = {}" "\<forall>n. 0 < room n" "separate P"
    and "\<And>path. scope_path (fst e) = Inr path \<Longrightarrow> path \<in> P" "\<And>path k. path \<in> P \<Longrightarrow> \<sigma> path k = contents l (path_prefix path @ k)"
    and "maps_step e \<sigma> = (r, \<sigma>')"
  shows "\<exists>l'. scope_step room (NewStreamWorkspace (Some sl)) e l = Some (r, l') \<and> ok l' \<and> small l' \<and>
    (\<forall>path \<in> P. \<forall>k. \<sigma>' path k = contents l' (path_prefix path @ k)) \<and>
    (\<forall>n. (\<forall>path \<in> P. \<not> HasPrefix n (path_prefix path)) \<longrightarrow> contents l' n = contents l n)"
proof (cases "scopePrefix (bt_Name (fst e)) (bt_Namespaces (fst e))")
  case (Inl err)
  then show ?thesis using assms(1,2,8,9)
    by (auto simp: scope_step_def streamWorkspace_Open_def NewStreamWorkspace_def maps_step_def scope_path_def)
next
  case (Inr p)
  define path where "path = Split (butlast p) (CHR ''/'')"
  have s: "scope_path (fst e) = Inr path" "p = path_prefix path" using scope_path_prefix [OF Inr] by (simp_all add: path_def)
  then have P: "path \<in> P" using assms(7) by simp
  then have "\<sigma> path = (\<lambda>n. contents l (p @ n))" using assms(8) by (simp add: fun_eq_iff s(2))
  then obtain m where m: "map_op (snd e) (\<lambda>n. contents l (p @ n)) = (r, m)" "\<sigma>' = \<sigma>(path := m)"
    using assms(9) s(1) by (auto simp: maps_step_def split: prod.splits)
  obtain l' where l': "scope_op room (prefixed_stream p sl) (snd e) l = Some (r, l')" "ok l'" "small l'" "(\<lambda>n. contents l' (p @ n)) = m"
    "\<And>n. \<not> HasPrefix n p \<Longrightarrow> contents l' n = contents l n" using scope_op_ok [OF assms(1-5) m(1)] by auto
  have "\<sigma>' q k = contents l' (path_prefix q @ k)" if q: "q \<in> P" for q k
  proof (cases "q = path")
    case True
    then show ?thesis using l'(4) by (auto simp: m(2) s(2))
  next
    case False
    then have "\<not> HasPrefix (path_prefix q @ k) p" using path_prefix_separate [OF assms(6) q P] by (auto simp: HasPrefix_iff s(2))
    then show ?thesis using l'(5) assms(8) [OF q] False by (simp add: m(2))
  qed
  then show ?thesis using l' P Inr
    by (auto simp: scope_step_def streamWorkspace_Open_def NewStreamWorkspace_def s(2))
qed

lemma scope_run_ok:
  assumes "hidden = {}" "\<forall>n. 0 < room n" "separate P"
  shows "ok l \<Longrightarrow> small l \<Longrightarrow> list_all (\<lambda>e. small_op bound (snd e)) es \<Longrightarrow> {path. \<exists>e \<in> set es. scope_path (fst e) = Inr path} \<subseteq> P \<Longrightarrow>
    (\<And>path k. path \<in> P \<Longrightarrow> \<sigma> path k = contents l (path_prefix path @ k)) \<Longrightarrow> maps_run es \<sigma> = (rs, \<sigma>') \<Longrightarrow>
    \<exists>l'. scope_run room (NewStreamWorkspace (Some sl)) es l = Some (rs, l') \<and>
    (\<forall>path \<in> P. \<forall>k. \<sigma>' path k = contents l' (path_prefix path @ k)) \<and>
    (\<forall>n. (\<forall>path \<in> P. \<not> HasPrefix n (path_prefix path)) \<longrightarrow> contents l' n = contents l n)"
proof (induction es arbitrary: l \<sigma> rs)
  case (Cons e es)
  obtain r \<sigma>1 where 1: "maps_step e \<sigma> = (r, \<sigma>1)" by (cases "maps_step e \<sigma>")
  obtain rs' where rs': "maps_run es \<sigma>1 = (rs', \<sigma>')" "rs = r # rs'" using Cons.prems(6) 1 by (cases "maps_run es \<sigma>1") auto
  have P: "{path. \<exists>e \<in> set es. scope_path (fst e) = Inr path} \<subseteq> P" "\<And>path. scope_path (fst e) = Inr path \<Longrightarrow> path \<in> P"
    using Cons.prems(4) by auto
  have "small_op bound (snd e)" using Cons.prems(3) by simp
  from scope_step_ok [OF Cons.prems(1,2) this assms P(2) Cons.prems(5) 1] obtain l1
    where l1: "scope_step room (NewStreamWorkspace (Some sl)) e l = Some (r, l1)" "ok l1" "small l1"
      "\<And>path k. path \<in> P \<Longrightarrow> \<sigma>1 path k = contents l1 (path_prefix path @ k)"
      "\<And>n. (\<forall>path \<in> P. \<not> HasPrefix n (path_prefix path)) \<Longrightarrow> contents l1 n = contents l n" by (auto simp del: split_paired_All)
  have "list_all (\<lambda>e. small_op bound (snd e)) es" using Cons.prems(3) by simp
  from Cons.IH [OF l1(2,3) this P(1) l1(4) rs'(1)] show ?case using l1(1,5) rs'(2) by auto
qed auto

end

section \<open>Workspaces over the in-memory loader\<close>

definition scope_paths :: "(blob_root \<times> scope_op) list \<Rightarrow> string list set" where
  "scope_paths es = set (List.map_filter (\<lambda>e. case scope_path (fst e) of Inl err \<Rightarrow> None | Inr path \<Rightarrow> Some path) es)"

definition scope_view :: "memory_Loader \<Rightarrow> string list \<Rightarrow> string \<rightharpoonup> bytes" where
  "scope_view l path k = memory_contents l (path_prefix path @ k)"

text \<open>C27: In any history of reads, writes, deletions and listings of stores opened in a workspace over the in-memory loader, of
  which none is inside another, every operation returns and answers what it would on a separate map of blobs for each
  store, and the blobs outside of these stores stay as they are.\<close>

theorem scoped_stores_separate:
  assumes "memory_inv l" "\<And>n d. memory_contents l n = Some d \<Longrightarrow> length d < 2 ^ 63"
    and "list_all (\<lambda>e. small_op (2 ^ 63) (snd e)) es" "separate (scope_paths es)" "\<forall>n. 0 < room n"
  shows "\<exists>l'. scope_run room (NewStreamWorkspace (Some memory_stream)) es l = Some (fst (maps_run es (scope_view l)), l') \<and>
    (\<forall>path \<in> scope_paths es. scope_view l' path = snd (maps_run es (scope_view l)) path) \<and>
    (\<forall>n. (\<forall>path \<in> scope_paths es. \<not> HasPrefix n (path_prefix path)) \<longrightarrow> memory_contents l' n = memory_contents l n)"
proof -
  have small: "memory_map.small l" unfolding memory_map.small_def using assms(2) by simp
  have paths: "{path. \<exists>e \<in> set es. scope_path (fst e) = Inr path} \<subseteq> scope_paths es"
    unfolding scope_paths_def List.map_filter_def by force
  have view: "scope_view l path k = memory_contents l (path_prefix path @ k)" for path k by (simp add: scope_view_def)
  obtain l' where "scope_run room (NewStreamWorkspace (Some memory_stream)) es l = Some (fst (maps_run es (scope_view l)), l')"
    "\<forall>path \<in> scope_paths es. \<forall>k. snd (maps_run es (scope_view l)) path k = memory_contents l' (path_prefix path @ k)"
    "\<forall>n. (\<forall>path \<in> scope_paths es. \<not> HasPrefix n (path_prefix path)) \<longrightarrow> memory_contents l' n = memory_contents l n"
    using memory_map.scope_run_ok [OF refl assms(5,4,1) small assms(3) paths view prod.collapse [symmetric]]
    by (elim exE conjE)
  then show ?thesis by (intro exI [of _ l'] conjI ballI) (simp_all add: scope_view_def fun_eq_iff)
qed

text \<open>Two users of one workspace, and a name that is refused.\<close>

definition demo_history :: "(blob_root \<times> scope_op) list" where
  "demo_history =
    (let a = \<lparr>bt_Name = ''users/'', bt_Namespaces = [''ann'']\<rparr>; b = \<lparr>bt_Name = ''users'', bt_Namespaces = [[], ''/bob'']\<rparr> in
     [(a, ScWrite ''x'' [1, 2]), (b, ScRead ''x''), (b, ScWrite ''x'' [3]), (a, ScWrite [] [4]), (a, ScList), (b, ScDelete ''x''), (a, ScRead ''x''),
      (b, ScDelete ''x''), (\<lparr>bt_Name = ''//'', bt_Namespaces = [''ann'']\<rparr>, ScList)])"

theorem scoped_stores_separate_witness:
  "\<exists>l'. scope_run (\<lambda>n. 512) (NewStreamWorkspace (Some memory_stream)) demo_history memory_Open =
     Some ([Did None, Got (Inl ErrNotExist), Did None, Did None, Listed (Inr [''x'']), Did None, Got (Inr [1, 2]), Did (Some ErrNotExist),
       Refused (Failed ''blob store name cannot be empty'')], l')"
proof -
  have paths: "scope_paths demo_history = {[''users'', ''ann''], [''users'', ''bob'']}" by code_simp
  then have "separate (scope_paths demo_history)" by (simp add: separate_def plain_names_def)
  moreover have "list_all (\<lambda>e. small_op (2 ^ 63) (snd e)) demo_history" by code_simp
  moreover have "scope_view memory_Open = (\<lambda>path. Map.empty)" by (simp add: scope_view_def fun_eq_iff memory_Open_inv)
  moreover have "fst (maps_run demo_history (\<lambda>path. Map.empty)) =
    [Did None, Got (Inl ErrNotExist), Did None, Did None, Listed (Inr [''x'']), Did None, Got (Inr [1, 2]), Did (Some ErrNotExist),
       Refused (Failed ''blob store name cannot be empty'')]"
    by (simp add: demo_history_def maps_step_def scope_path_def scopePrefix_def trim_slashes_def trim_right_def Let_def insert_Diff_if)
  ultimately show ?thesis
    using scoped_stores_separate [OF memory_Open_inv(1), of demo_history "\<lambda>n. 512"] by (auto simp: memory_Open_inv)
qed

text \<open>Stores inside each other share blobs, slashes in a name are as good as a namespace, and the empty key is stored but not listed.\<close>

lemma nested_scopes_share:
  "map_option fst (scope_run (\<lambda>n. 512) (NewStreamWorkspace (Some memory_stream))
     [(\<lparr>bt_Name = ''a'', bt_Namespaces = [''b'']\<rparr>, ScWrite ''k'' [1]), (\<lparr>bt_Name = ''a'', bt_Namespaces = []\<rparr>, ScDelete ''b/k''),
      (\<lparr>bt_Name = ''a/b'', bt_Namespaces = []\<rparr>, ScRead ''k''), (\<lparr>bt_Name = ''a/b'', bt_Namespaces = []\<rparr>, ScWrite [] [2]),
      (\<lparr>bt_Name = ''a'', bt_Namespaces = [''b'']\<rparr>, ScList), (\<lparr>bt_Name = ''a'', bt_Namespaces = [''b'']\<rparr>, ScDelete [])] memory_Open) =
   Some [Did None, Did None, Got (Inl ErrNotExist), Did None, Listed (Inr []), Did None]"
  by code_simp

text \<open>Names and namespaces without slashes are the path.\<close>

lemma trim_slashes_plain: "s \<noteq> [] \<Longrightarrow> CHR ''/'' \<notin> set s \<Longrightarrow> trim_slashes s = s"
proof -
  assume s: "s \<noteq> []" "CHR ''/'' \<notin> set s"
  have "dropWhile (\<lambda>c. c = CHR ''/'') xs = xs" if "CHR ''/'' \<notin> set xs" for xs
    using that by (cases xs) auto
  then show ?thesis using s by (simp add: trim_slashes_def trim_right_def)
qed

lemma scope_path_plain:
  assumes "plain_names (name # ns)" "[] \<notin> set (name # ns)"
  shows "scope_path \<lparr>bt_Name = name, bt_Namespaces = ns\<rparr> = Inr (name # ns)"
proof -
  have t: "trim_slashes x = x" if "x \<in> set (name # ns)" for x
    using that assms by (intro trim_slashes_plain) (auto simp: plain_names_def list_all_iff)
  then have "map trim_slashes ns = ns" by (intro map_idI) simp
  moreover have "filter (\<lambda>x. x \<noteq> []) ns = ns" using assms(2) by (auto simp: filter_id_conv)
  moreover have "Split (Join (name # ns) ''/'') (CHR ''/'') = name # ns"
    using assms(1) by (intro Split_Join) (auto simp: plain_names_def list_all_iff)
  ultimately show ?thesis using t [of name] assms(2) by (auto simp: scope_path_def scopePrefix_def Let_def)
qed

section \<open>Scopes and escaped keys\<close>

text \<open>A workspace that was closed opens nothing more; what it opened before goes on working.\<close>

lemma closed_workspace_refuses:
  assumes "streamWorkspace_Close w l = (err, w', l')"
  shows "streamWorkspace_Open w' name ns = Inl ErrClosed"
  using assms by (auto simp: streamWorkspace_Close_def streamWorkspace_Open_def Let_def split: option.splits prod.splits)

text \<open>The result of a scope is that of its function, run on the opened store, which is closed afterwards; an error is wrapped with
  that of closing.\<close>

lemma UseScope_result:
  assumes "sc_workspace scope = Some w" "wk_Open w (sc_name scope) (sc_namespace scope) s = (Inr st, s1)" "f st s1 = ((res, err), s2)" "close st s2 = (cerr, s3)"
  shows "UseScope close zero scope (Some f) s = ((res, if err = None \<and> cerr = None then None else Some (MultiError [err, cerr])), s3)"
  using assms by (auto simp: UseScope_def multierror_New_def)

text \<open>So an error that says that a blob does not exist is not recognised as one.\<close>

lemma Run_hides_not_exist:
  "\<exists>err. StreamScope_Run (NewStoreScope (Some stream_workspace) ''a'' []) (Some (\<lambda>ld (w, l). case sl_Delete ld l ''k'' of (err, l) \<Rightarrow> (err, (w, l))))
      (NewStreamWorkspace (Some memory_stream), memory_Open) = (Some err, (NewStreamWorkspace (Some memory_stream), memory_Open)) \<and>
    sl_Delete (prefixed_stream ''a/'' memory_stream) memory_Open ''k'' = (Some ErrNotExist, memory_Open) \<and> \<not> IsNotExist err"
  by (simp add: StreamScope_Run_def UseStream_def UseScope_def NewStoreScope_def stream_workspace_def streamWorkspace_Open_def NewStreamWorkspace_def
      scopePrefix_def trim_slashes_def trim_right_def Let_def prefixed_stream_def memory_stream_def memory_Delete_def memory_Open_def
      multierror_New_def IsNotExist_def)

text \<open>A store with escaped keys lists the keys that were put in it, and deletes what it is asked to.\<close>

context key_codec
begin

lemma decode_all_encoded: "list_all2 (\<lambda>k e. kc_Encode codec k = Inr e) keys names \<Longrightarrow> decode_all codec names = Inr keys"
  by (induction rule: list_all2_induct) (simp_all add: decode_encode)

lemma CodecStore_lists_keys:
  assumes "st_List st s = Inr names" "list_all2 (\<lambda>k e. kc_Encode codec k = Inr e) keys names"
  shows "CodecStore_List codec st s = Inr keys"
  using decode_all_encoded [OF assms(2)] assms(1) by (simp add: CodecStore_List_def)

lemma CodecStore_Delete_other:
  assumes "kc_Encode codec k = Inr e" "kc_Encode codec k' = Inr e'" "k \<noteq> k'"
  shows "CodecStore_Delete codec st k s = st_Delete st e s \<and> e \<noteq> e'"
  using assms encode_inj [of k e k'] by (auto simp: CodecStore_Delete_def)

end

text \<open>With the default codec, on a scope of any store: keys with slashes and dots are names without them, below the prefix.\<close>

lemma codec_scope_lists_keys:
  assumes "st_List st s = Inr (map (\<lambda>k. p @ EncodeKey k) keys)" "\<And>k. k \<in> set keys \<Longrightarrow> EncodeKey k \<noteq> []"
  shows "CodecStore_List DefaultKeyCodec (prefixed_store p st) s = Inr keys"
proof (rule default_codec.CodecStore_lists_keys)
  have "relative_keys p (map (\<lambda>k. p @ EncodeKey k) ks) = map EncodeKey ks" if "\<And>k. k \<in> set ks \<Longrightarrow> EncodeKey k \<noteq> []" for ks
    using that by (induction ks) (simp_all add: relative_keys_eq HasPrefix_def)
  then show "st_List (prefixed_store p st) s = Inr (map EncodeKey keys)"
    using assms by (simp add: prefixed_store_def prefixedStore_List_def)
  show "list_all2 (\<lambda>k e. kc_Encode DefaultKeyCodec k = Inr e) keys (map EncodeKey keys)"
    by (simp add: DefaultKeyCodec_def list_all2_conv_all_nth)
qed

end
