(* ===== verification/Spec2Isabelle.thy ===== *)
theory Spec2Isabelle imports Main Prelude Pool Send_Window Receive_Window Flex_Service_Props Alloc_Manager_Props Blocking Nassh_System Nassh_Http Nassh_Proxy_Props Config_Simple Nassh_Token Token_Multi Config_Walk Retry_Props Guard_Props Scheduler Tunnel_Props Blob_Workspace_Props begin

text \<open>
  enkit is a collection of infrastructure services and the libraries under them. This development models the parts
  that carry state and protocols of their own: the ssh relay that browsers and command line clients tunnel through
  (\<^verbatim>\<open>proxy/nasshp\<close>, \<^verbatim>\<open>proxy/ptunnel\<close>, \<^verbatim>\<open>proxy/utils\<close>), the two servers that hand out licenses and machines with their clients
  (\<^verbatim>\<open>flextape\<close>, \<^verbatim>\<open>allocation_manager\<close>), the tokens that URLs and cookies are made of (\<^verbatim>\<open>lib/token\<close>), the
  configuration stores and the blob stores over them (\<^verbatim>\<open>lib/config\<close>, \<^verbatim>\<open>lib/config/blob\<close>), and the schedulers and retriers
  the others run on (\<^verbatim>\<open>lib/khttp/scheduler\<close>, \<^verbatim>\<open>lib/retry\<close>).

  \<^bold>\<open>Conventions\<close> (theory Prelude). A Go string is a byte string, \<^typ>\<open>string\<close>; \<^verbatim>\<open>[]byte\<close> is a list of 8-bit words; \<^verbatim>\<open>uint32\<close> and
  \<^verbatim>\<open>uint64\<close> are words wherever their wrap-around can be seen, and \<^verbatim>\<open>int\<close> sums that can overflow go through \<open>i64\<close>. A map is an
  association list when the order in which Go ranges over it matters, and then every theorem holds for any order. A
  panic, and a goroutine that blocks for ever in one operation, is \<^const>\<open>None\<close>; an error is a value of a sum or option
  type. Clocks, random generators, ciphers, marshallers and remote answers are arguments or events, and what is
  relied on of them is a hypothesis or a locale. Concurrency is a step relation whose steps are what one goroutine
  does between two operations on shared state, under its lock, so interleavings are lists of steps. One step is
  coarser: in \<open>ProxySsh_attach\<close> a new session is entered in the table, its goroutines start and its browser is set at once
  (the lookup before and the end after it are steps of their own), so a second handler that finds the session before
  the first has connected it is not an interleaving of the model.

  \<^bold>\<open>The relay, server side.\<close> Blist and Pool are the linked buffers of \<^verbatim>\<open>window.go\<close> on a heap of pointers, and their refinement
  to lists; Windows, Send_Window and Receive_Window are the two windows over those lists: every byte once and in
  order, across positions of 24 bits and across resumptions. Blocking is the pair of blocking windows of
  \<^verbatim>\<open>blocking.go\<close>, with a locale \<open>sleeper\<close> for "a sleeping goroutine is woken", interpreted four times. Browser is
  \<open>ReplaceableBrowser\<close> with the channels its handlers wait on; Nassh_Sessions the table of sessions, their
  expiration and \<^verbatim>\<open>ProxySsh\<close>; Nassh_System any number of handlers interleaved; Nassh_Proxy and Nassh_Proxy_Props the two
  goroutines of a session and its end to end theorem; Nassh_Http the handlers, resolvers and access lists, over the
  contract \<open>sid_encoder\<close>, which Nassh_Token discharges with the encoder the proxy builds. Proxy_Utils holds counters,
  verdicts and pattern lists; Go_Strings what is used of \<^verbatim>\<open>strings\<close>, \<^verbatim>\<open>strconv\<close> and \<^verbatim>\<open>net\<close>.

  \<^bold>\<open>The relay, client side.\<close> Tunnel is \<^verbatim>\<open>ptunnel/tunnel.go\<close>: six threads over two blocking windows and a browser. Tunnel_Props has its
  end to end theorem under stated hypotheses on the server and on timing, and the runs that go wrong without them.

  \<^bold>\<open>Licenses and machines.\<close> Flex_Queue is the queue with its queue identifiers (\<^verbatim>\<open>queue.go\<close>), Flex_License the two policies
  (locale \<open>prioritizer\<close>) and the operations of one license type, Flex_Service the RPCs and the janitor as atomic
  steps; Flex_License_Props and Flex_Service_Props their invariants, exact behaviour, and safety over all histories.
  Alloc_Manager is the allocation manager, with invocations shared through a heap because units of a topology alias
  them; Alloc_Manager_Props its consistency and promotion. Guard is the client of both (\<^verbatim>\<open>Guard\<close>, refresher, command,
  release) as one step relation, Guard_Props what it guarantees in every interleaving.

  \<^bold>\<open>Tokens.\<close> Token_Codec is varints and base64 written out with their round trips; Token the encoders, chains, times,
  symmetric and public key framing; Token_Props the locale \<open>binary_encoder\<close>, what restores what, and validity; Token_Multi
  the encoder with several key holders. The type of authenticated ciphers is the set of those that open what they
  seal.

  \<^bold>\<open>Configuration.\<close> Config_Keys is the escaping of keys (locale \<open>key_codec\<close>), Config_List descriptors and list options, Config_Loader the
  \<^verbatim>\<open>Loader\<close> interface (locale \<open>loader\<close>) with the in-memory loader, Config_Simple and Config_Multi the stores of one and of
  several formats (locales extending \<open>loader\<close>), Config_Paths the resolution of paths, Config_Namespaces workspaces and
  the operations on namespaces, Config_Walk the termination of the walk.

  \<^bold>\<open>Blobs.\<close> Go_Url is what is used of \<^verbatim>\<open>net/url\<close> and \<^verbatim>\<open>path\<close>, with the path helpers of \<^verbatim>\<open>khttp\<close>: escaping, cleaning and joining, and that
  unescaping undoes escaping. Blob_Meta is the header that \<^verbatim>\<open>InlineMetadata\<close> puts before a blob and the reader that hides
  it, over the contract of a seekable object (locale \<open>seekable\<close>, interpreted on a buffer and on the hiding reader itself,
  so that headers nest). Blob_Codec is the codecs of parameters, paths and URLs, Blob_Codec_Props their locale \<open>url_codec\<close>
  and the round trip of the default token codec. Blob_Serve is the blob store: the URLs it gives out, the handlers
  that serve them and the store's own reads and writes; Blob_Serve_Props has the locale \<open>stream_loader\<close> of what is
  asked of the loader below and the round trip of an upload and a download through the URLs.
  Blob_Workspace is the namespaces over a flat blob store, the scopes that name them and the store that escapes its keys;
  Blob_Workspace_Props the locale \<open>blob_map\<close>, which a prefixed loader satisfies again, and the refinement of a workspace to
  separate maps.

  \<^bold>\<open>Libraries.\<close> Go_Heap is \<^verbatim>\<open>container/heap\<close>, Scheduler the scheduler over it, used through the locale \<open>pqueue\<close>; Retry and
  Retry_Props the retrier.

  \<^bold>\<open>What the groups of lemmas show.\<close> Of each component: an invariant and that every operation keeps it; what each operation does on
  every branch, errors included; and, where the component promises something abstract, that it implements it
  (windows a stream, stores a map, a heap a priority queue, the path resolver a walk). Of the components together: the
  end to end theorems of the relay on both sides, the identifiers one handler issues and another accepts, the safety
  of the license server over all histories and of a guarded command. Every hypothesis is met in a witness. Where
  the code does something else than it says, the lemma that shows it is kept beside the theorem whose hypothesis
  excludes it (\<open>expired_session_stays\<close>, \<open>session_deleted_twice\<close>, \<open>resumed_frame_acks_zero\<close>, \<open>host_named_twice\<close>, \<open>failed_decode_stays\<close>, \<open>refresh_after_release\<close>, \<open>late_data_twice\<close>, \<open>close_during_dial\<close>,
  \<open>corrupt_file_reported_missing\<close>, \<open>StartFrom_lists_smaller_key\<close>, \<open>base64_newline_padding\<close>, \<open>fatal_nil_is_success\<close>,
  \<open>seek_into_header\<close>, \<open>failed_upload_truncates\<close>, \<open>broken_upload_commits\<close>, \<open>close_error_lost\<close>, \<open>download_url_uploads\<close>, \<open>dots_lead_elsewhere\<close>,
  \<open>nested_scopes_share\<close>, \<open>Run_hides_not_exist\<close>).

  \<^bold>\<open>Bounds and fuel.\<close> \<open>blist_Iterate\<close> and \<open>NamespaceWalk\<close> take fuel: a list of \<open>n\<close> nodes needs \<open>n + 1\<close>, a walk the depth of the deepest
  opened path, and both are shown to return with that much. The loops that read
  a stream to its end (\<open>ReadFull\<close>, \<open>CopyN\<close>, \<open>Copy\<close>, \<open>ReadAll\<close>) are partial functions, and return for every reader that keeps the
  contract \<open>seekable\<close>. Everything else is structural or has a measure. Streams
  are bounded by \<open>2 ^ 63\<close> bytes where positions are 64 bits wide, and the two ends of a tunnel by \<open>2 ^ 23\<close> bytes in flight,
  which is what 24-bit positions can tell apart. Times are nanoseconds as integers; where \<^verbatim>\<open>time.Time\<close> wraps or saturates
  it is written out, and the theorems ask for representable times.

  \<^bold>\<open>Not modelled.\<close> Metrics, logging and the text of most error messages. Data races: methods that take their lock are atomic, and
  the ones that should and do not are findings. Code that only calls other packages: process set-up and flags, the
  commands, servers and clients around \<^verbatim>\<open>net/http\<close> and gRPC (\<^verbatim>\<open>lib/khttp\<close>, \<^verbatim>\<open>lib/oauth\<close>, \<^verbatim>\<open>astore\<close>, \<^verbatim>\<open>auth\<close>, \<^verbatim>\<open>machinist\<close>), stores over
  databases, file systems and cloud services (\<^verbatim>\<open>lib/config/{bbolt,sqlite,datastore,directory}\<close>), system calls
  (\<^verbatim>\<open>faketree\<close>), build tooling, and the reconciliation of \<^verbatim>\<open>proxy/enproxy\<close>, which drives live servers and certificates:
  what these do is decided by code outside the repository. Generated protocol buffers appear as the records the
  services use.
\<close>

end
